(* ===== verification/Prelude.thy ===== *)
theory Prelude
  imports Main "HOL-Library.Word" "HOL-Library.AList"
begin

text \<open>
  Shared vocabulary of the development.

  \<^item> bytes and byte strings of Go (\<open>[]byte\<close>, \<open>string\<close>), the big-endian readers and
    writers of \<open>encoding/binary\<close> and of the hand-written shifts in the sources;
  \<^item> the outcome type \<open>gores\<close> of a Go function that may return an error or panic, its
    sequencing operator and the checked index and slice expressions, so that an
    out-of-range access of the source is a value of the model;
  \<^item> the pieces of \<open>strings\<close> and of the time library that several components use;
  \<^item> the association lists that stand for Go maps whose size or iteration matters.
\<close>

named_theorems go_simps \<open>evaluation of the Go outcome type on known inputs\<close>
named_theorems be_simps \<open>big-endian readers against writers\<close>

section \<open>Bytes, strings, times\<close>

type_synonym byte = "8 word"
type_synonym bytes = "byte list"

text \<open>Instants and durations are integers counting nanoseconds, as \<open>time.Duration\<close> does.\<close>

type_synonym nanos = int

definition second :: nanos where
  "second = 1000000000"

definition millisecond :: nanos where
  "millisecond = 1000000"

definition minute :: nanos where
  "minute = 60 * second"

definition hour :: nanos where
  "hour = 60 * minute"

text \<open>A Go string is the sequence of its bytes; \<open>string(b)\<close> and \<open>[]byte(s)\<close> convert.\<close>

definition str_of_bytes :: "bytes \<Rightarrow> string" where
  "str_of_bytes bs = map (\<lambda>b. char_of (unat b)) bs"

definition bytes_of_str :: "string \<Rightarrow> bytes" where
  "bytes_of_str s = map of_char s"

definition lower_char :: "char \<Rightarrow> char" where
  "lower_char c = (let n = (of_char c :: nat) in if 65 \<le> n \<and> n \<le> 90 then char_of (n + 32) else c)"

text \<open>\<open>strings.ToLower\<close> and \<open>strings.TrimSpace\<close> on the ASCII range; bytes from 128 up are
  left alone.\<close>

definition to_lower :: "string \<Rightarrow> string" where
  "to_lower s = map lower_char s"

definition is_space :: "char \<Rightarrow> bool" where
  "is_space c = (let n = (of_char c :: nat) in (9 \<le> n \<and> n \<le> 13) \<or> n = 32)"

definition trim_space :: "string \<Rightarrow> string" where
  "trim_space s = rev (dropWhile is_space (rev (dropWhile is_space s)))"

text \<open>\<open>strconv.Atoi\<close>: an optional sign and decimal digits. Numbers beyond the range of \<open>int\<close> are
  errors in Go; here they fail the range check of every caller.\<close>

definition is_digit :: "char \<Rightarrow> bool" where
  "is_digit c = (48 \<le> (of_char c :: nat) \<and> (of_char c :: nat) \<le> 57)"

definition digits_value :: "string \<Rightarrow> int" where
  "digits_value s = foldl (\<lambda>v c. 10 * v + (of_char c - 48)) 0 s"

definition Atoi :: "string \<Rightarrow> int option" where
  "Atoi s = (let (neg, ds) = (case s of c # r \<Rightarrow> if c = CHR ''-'' then (True, r) else if c = CHR ''+'' then (False, r) else (False, s)
       | [] \<Rightarrow> (False, [])) in
     if ds = [] \<or> \<not> list_all is_digit ds then None
     else Some (if neg then - digits_value ds else digits_value ds))"

section \<open>Outcomes of Go functions\<close>

datatype ('e, 'a) gores = GoOk 'a | GoErr 'e | GoPanic

primrec go_bind :: "('e, 'a) gores \<Rightarrow> ('a \<Rightarrow> ('e, 'b) gores) \<Rightarrow> ('e, 'b) gores" where
  "go_bind (GoOk a) f = f a"
| "go_bind (GoErr e) f = GoErr e"
| "go_bind GoPanic f = GoPanic"

definition no_panic :: "('e, 'a) gores \<Rightarrow> bool" where
  "no_panic m = (m \<noteq> GoPanic)"

text \<open>\<open>xs[i]\<close>, \<open>xs[i:j]\<close> and \<open>xs[i:]\<close> with Go's bounds checks. Slicing beyond the length but
  within the capacity is legal Go; the model counts it as a panic too.\<close>

definition idx :: "'a list \<Rightarrow> nat \<Rightarrow> ('e, 'a) gores" where
  "idx xs i = (if i < length xs then GoOk (xs ! i) else GoPanic)"

definition subslice :: "'a list \<Rightarrow> nat \<Rightarrow> nat \<Rightarrow> ('e, 'a list) gores" where
  "subslice xs i j = (if i \<le> j \<and> j \<le> length xs then GoOk (take (j - i) (drop i xs)) else GoPanic)"

definition slice_from :: "'a list \<Rightarrow> nat \<Rightarrow> ('e, 'a list) gores" where
  "slice_from xs i = subslice xs i (length xs)"

section \<open>Big-endian integers\<close>

unbundle bit_operations_syntax

text \<open>\<open>int(a)<<8 | int(b)\<close> and \<open>binary.BigEndian.Uint16\<close> read into an \<open>int\<close>; the 24 bit
  form likewise. The values stay below 2^24, so the width of \<open>int\<close> plays no part.\<close>

definition be16 :: "byte \<Rightarrow> byte \<Rightarrow> nat" where
  "be16 a b = (push_bit 8 (unat a) OR unat b)"

definition be24 :: "byte \<Rightarrow> byte \<Rightarrow> byte \<Rightarrow> nat" where
  "be24 a b c = (push_bit 16 (unat a) OR push_bit 8 (unat b) OR unat c)"

text \<open>\<open>byte(n>>8), byte(n)\<close> for a non-negative \<open>int\<close>: the conversion keeps the low eight bits.\<close>

definition put16 :: "nat \<Rightarrow> bytes" where
  "put16 n = [word_of_nat (drop_bit 8 n), word_of_nat n]"

definition put24 :: "nat \<Rightarrow> bytes" where
  "put24 n = [word_of_nat (drop_bit 16 n), word_of_nat (drop_bit 8 n), word_of_nat n]"

text \<open>\<open>binary.BigEndian.Uint32\<close> and \<open>Uint64\<close> with their writers, at their width.\<close>

definition be32 :: "bytes \<Rightarrow> 32 word" where
  "be32 bs = foldl (\<lambda>v b. push_bit 8 v OR ucast b) 0 (take 4 bs)"

definition put32 :: "32 word \<Rightarrow> bytes" where
  "put32 v = map (\<lambda>k. ucast (drop_bit k v)) [24, 16, 8, 0]"

definition be64 :: "bytes \<Rightarrow> 64 word" where
  "be64 bs = foldl (\<lambda>v b. push_bit 8 v OR ucast b) 0 (take 8 bs)"

definition put64 :: "64 word \<Rightarrow> bytes" where
  "put64 v = map (\<lambda>k. ucast (drop_bit k v)) [56, 48, 40, 32, 24, 16, 8, 0]"

section \<open>Facts about outcomes\<close>

lemma go_bind_cong [fundef_cong]:
  assumes "m = m'" and "\<And>x. m' = GoOk x \<Longrightarrow> f x = f' x"
  shows "go_bind m f = go_bind m' f'"
  using assms by (cases m') auto

lemma no_panic_simps [simp]:
  "no_panic (GoOk a)" "no_panic (GoErr e)" "\<not> no_panic GoPanic"
  by (simp_all add: no_panic_def)

lemma go_bind_GoOk: "go_bind m f = GoOk b \<longleftrightarrow> (\<exists>a. m = GoOk a \<and> f a = GoOk b)"
  by (cases m) auto

lemma no_panic_bind:
  assumes "no_panic m" and "\<And>x. m = GoOk x \<Longrightarrow> no_panic (f x)"
  shows "no_panic (go_bind m f)"
  using assms by (cases m) auto

lemma idx_in [go_simps]: "i < length xs \<Longrightarrow> idx xs i = GoOk (xs ! i)"
  by (simp add: idx_def)

lemma idx_0 [go_simps]: "xs \<noteq> [] \<Longrightarrow> idx xs 0 = GoOk (xs ! 0)"
  by (simp add: idx_def)

lemma subslice_in [go_simps]: "i \<le> j \<Longrightarrow> j \<le> length xs \<Longrightarrow> subslice xs i j = GoOk (take (j - i) (drop i xs))"
  by (simp add: subslice_def)

lemma slice_from_in [go_simps]: "i \<le> length xs \<Longrightarrow> slice_from xs i = GoOk (drop i xs)"
  by (simp add: slice_from_def subslice_def)

lemma idx_shift: "length pre \<le> i \<Longrightarrow> idx (pre @ xs) i = idx xs (i - length pre)"
  by (auto simp: idx_def nth_append)

lemma subslice_shift:
  "length pre \<le> i \<Longrightarrow> i \<le> j \<Longrightarrow> subslice (pre @ xs) i j = subslice xs (i - length pre) (j - length pre)"
  by (auto simp: subslice_def)

lemma subslice_GoOk_length: "subslice xs i j = GoOk ys \<Longrightarrow> length ys = j - i \<and> i \<le> j \<and> j \<le> length xs"
  by (auto simp: subslice_def split: if_splits)

lemma slice_from_GoOk_length: "slice_from xs i = GoOk ys \<Longrightarrow> length ys = length xs - i \<and> i \<le> length xs"
  by (auto simp: slice_from_def subslice_def split: if_splits)

section \<open>Facts about big-endian integers\<close>

lemma unat_byte_lt: "unat (b :: byte) < 256"
  using unsigned_less [of b] by simp

lemma or_push_bit:
  assumes "b < 2 ^ k"
  shows "push_bit k a OR b = a * 2 ^ k + (b :: nat)"
proof -
  have "take_bit k b = b"
    using assms by (simp add: take_bit_nat_eq_self)
  then have "\<not> bit (push_bit k a) n \<or> \<not> bit b n" for n
    by (metis bit_take_bit_iff bit_push_bit_iff not_le)
  then show ?thesis
    by (simp add: disjunctive_add [symmetric] push_bit_eq_mult)
qed

lemma be16_eq: "be16 a b = unat a * 256 + unat b"
  using unat_byte_lt [of b] by (simp add: be16_def or_push_bit del: push_bit_numeral push_bit_nat_def)

lemma be24_eq: "be24 a b c = unat a * 65536 + unat b * 256 + unat c"
  using unat_byte_lt [of b] unat_byte_lt [of c]
  by (simp add: be24_def or_push_bit del: push_bit_numeral push_bit_nat_def)

lemma be16_lt: "be16 a b < 65536"
  using unat_byte_lt [of a] unat_byte_lt [of b] by (simp add: be16_eq)

lemma unat_word_of_nat_byte: "unat (word_of_nat n :: byte) = n mod 256"
  by (simp add: unat_of_nat)

lemma length_put16 [simp]: "length (put16 n) = 2"
  by (simp add: put16_def)

lemma length_put24 [simp]: "length (put24 n) = 3"
  by (simp add: put24_def)

lemma length_put32 [simp]: "length (put32 v) = 4"
  by (simp add: put32_def)

lemma length_put64 [simp]: "length (put64 v) = 8"
  by (simp add: put64_def)

lemma be16_put16 [be_simps]: "be16 (word_of_nat (drop_bit 8 n)) (word_of_nat n) = n mod 65536"
  using mod_mult2_eq [of n 256 256] by (simp add: be16_eq unat_word_of_nat_byte drop_bit_eq_div)

lemma be24_put24 [be_simps]:
  "be24 (word_of_nat (drop_bit 16 n)) (word_of_nat (drop_bit 8 n)) (word_of_nat n) = n mod 16777216"
  using mod_mult2_eq [of n 256 256] mod_mult2_eq [of n 65536 256]
  by (simp add: be24_eq unat_word_of_nat_byte drop_bit_eq_div)

lemma byte_step:
  "push_bit 8 (drop_bit (8 + k) v) OR ucast (ucast (drop_bit k v) :: byte) = drop_bit k (v :: 'a::len word)"
  by (rule bit_word_eqI) (auto simp: bit_simps)

lemma top_byte32: "ucast (ucast (drop_bit 24 (v :: 32 word)) :: byte) = drop_bit 24 v"
  by (rule bit_word_eqI) (auto simp: bit_simps dest: bit_imp_le_length)

lemma top_byte64: "ucast (ucast (drop_bit 56 (v :: 64 word)) :: byte) = drop_bit 56 v"
  by (rule bit_word_eqI) (auto simp: bit_simps dest: bit_imp_le_length)

lemma be32_put32 [be_simps]: "be32 (put32 v @ xs) = v"
  using byte_step [of 16 v] byte_step [of 8 v] byte_step [of 0 v]
  by (simp add: be32_def put32_def top_byte32 del: push_bit_numeral)

lemma be64_put64 [be_simps]: "be64 (put64 v @ xs) = v"
  using byte_step [of 48 v] byte_step [of 40 v] byte_step [of 32 v] byte_step [of 24 v]
    byte_step [of 16 v] byte_step [of 8 v] byte_step [of 0 v]
  by (simp add: be64_def put64_def top_byte64 del: push_bit_numeral)

lemma unat_of_char: "unat (of_char c :: byte) = of_char c"
proof -
  have "(of_char c :: byte) = of_nat (of_char c)"
    by (rule of_nat_of_char [symmetric])
  also have "unat \<dots> = of_char c mod 256"
    by (subst unat_of_nat) simp
  finally show ?thesis
    by simp
qed

lemma str_bytes_inverse [simp]: "str_of_bytes (bytes_of_str s) = s"
  by (induction s) (simp_all add: str_of_bytes_def bytes_of_str_def unat_of_char)

lemma length_str_of_bytes [simp]: "length (str_of_bytes bs) = length bs"
  by (simp add: str_of_bytes_def)

lemma length_bytes_of_str [simp]: "length (bytes_of_str s) = length s"
  by (simp add: bytes_of_str_def)

section \<open>Go maps as association lists\<close>

lemma update_new: "map_of al k = None \<Longrightarrow> AList.update k v al = al @ [(k, v)]"
  by (induction al) (auto split: if_splits)

lemma set_delete_alist: "set (AList.delete k al) = {p \<in> set al. fst p \<noteq> k}"
  by (auto simp: AList.delete_eq)

lemma set_update_alist:
  "distinct (map fst al) \<Longrightarrow> set (AList.update k v al) = insert (k, v) {p \<in> set al. fst p \<noteq> k}"
proof (induction al)
  case (Cons p al)
  then show ?case
    by (cases p) (auto simp: rev_image_eqI)
qed simp

lemma be16_nth_put16: "be16 (put16 n ! 0) (put16 n ! 1) = n mod 65536"
  by (simp add: put16_def be_simps)

lemma dom_delete_alist: "fst ` set (AList.delete k al) = fst ` set al - {k}"
  by (auto simp: set_delete_alist)

lemma map_of_update_alist: "map_of (AList.update k v al) j = (if j = k then Some v else map_of al j)"
  by (simp add: update_conv')

lemma map_of_delete_alist: "map_of (AList.delete k al) j = (if j = k then None else map_of al j)"
  by (simp add: delete_conv')

end
