(* ===== verification/Accounting.thy ===== *)
theory Accounting
  imports Prelude
begin

text \<open>
  Traffic accounting: internal/userdb/accounting.go. Bytes are counted in memory per user, session and
  outbound and moved to the database by \<open>Flush\<close> in one transaction. \<open>Flush\<close> is split where it gives
  up the lock: taking the deltas, and then the transaction, which commits or fails and puts the deltas
  back; additions may run in between. The database is the three tables it updates. Byte counts are
  integers without bound.
\<close>

type_synonym counters = "(string \<times> (int \<times> int)) list"
type_synonym items = "(string \<times> (int \<times> int)) list"

record Accounting =
  users :: counters
  sessions :: counters
  outbounds :: counters
  remaining :: "(string \<times> int) list"
  overrunFired :: "(string \<times> bool) list"
  hasOnOverrun :: bool
  overruns :: "string list"

record database =
  dbUsers :: "(string \<times> (int \<times> int)) list"
  dbSessions :: "((string \<times> string) \<times> (int \<times> int)) list"
  dbOutbounds :: "(string \<times> (int \<times> int)) list"

definition accSep :: string where "accSep = [CHR 0x00]"

definition NewAccounting :: "bool \<Rightarrow> Accounting" where
  "NewAccounting hook = \<lparr>users = [], sessions = [], outbounds = [], remaining = [], overrunFired = [], hasOnOverrun = hook, overruns = []\<rparr>"

section \<open>Counters\<close>

text \<open>The counter of a key, created when missing, with both deltas added.\<close>

definition counter :: "string \<Rightarrow> counters \<Rightarrow> counters" where
  "counter k m = (case map_of m k of None \<Rightarrow> AList.update k (0, 0) m | Some _ \<Rightarrow> m)"

definition bump :: "string \<Rightarrow> int \<Rightarrow> int \<Rightarrow> counters \<Rightarrow> counters" where
  "bump k up down m = (let m = counter k m in
     case map_of m k of None \<Rightarrow> m | Some (u, d) \<Rightarrow> AList.update k (u + up, d + down) m)"

definition pending :: "string \<Rightarrow> counters \<Rightarrow> int \<times> int" where
  "pending k m = (case map_of m k of None \<Rightarrow> (0, 0) | Some c \<Rightarrow> c)"

definition Pending :: "string \<Rightarrow> Accounting \<Rightarrow> int \<times> int" where
  "Pending userID a = pending userID (users a)"

definition PendingOutbound :: "string \<Rightarrow> Accounting \<Rightarrow> int \<times> int" where
  "PendingOutbound tag a = pending tag (outbounds a)"

definition AddOutbound :: "string \<Rightarrow> int \<Rightarrow> int \<Rightarrow> Accounting \<Rightarrow> Accounting" where
  "AddOutbound tag up down a =
    (if trim_space tag = [] \<or> up = 0 \<and> down = 0 then a else a\<lparr>outbounds := bump tag up down (outbounds a)\<rparr>)"

section \<open>The budget\<close>

definition SetUserRemaining :: "string \<Rightarrow> int \<Rightarrow> Accounting \<Rightarrow> Accounting" where
  "SetUserRemaining userID r a =
    (if userID = [] then a
     else a\<lparr>remaining := AList.update userID r (remaining a),
       overrunFired := (case map_of (overrunFired a) userID of None \<Rightarrow> overrunFired a | Some _ \<Rightarrow> AList.update userID False (overrunFired a))\<rparr>)"

definition fireOverrunOnce :: "string \<Rightarrow> Accounting \<Rightarrow> Accounting" where
  "fireOverrunOnce userID a =
    (if \<not> hasOnOverrun a then a
     else let done = (case map_of (overrunFired a) userID of None \<Rightarrow> False | Some f \<Rightarrow> f);
              a = a\<lparr>overrunFired := AList.update userID True (overrunFired a)\<rparr>
          in if done then a else a\<lparr>overruns := overruns a @ [userID]\<rparr>)"

definition charge :: "string \<Rightarrow> int \<Rightarrow> Accounting \<Rightarrow> Accounting" where
  "charge userID n a =
    (case map_of (remaining a) userID of
       None \<Rightarrow> a
     | Some cur \<Rightarrow>
        if cur = -1 then a
        else let newR = cur - n; a = a\<lparr>remaining := AList.update userID newR (remaining a)\<rparr> in
          if newR \<le> 0 \<and> cur > 0 then fireOverrunOnce userID a
          else if newR \<le> 0 then fireOverrunOnce userID a
          else a)"

definition Add :: "string \<Rightarrow> string \<Rightarrow> int \<Rightarrow> int \<Rightarrow> Accounting \<Rightarrow> Accounting" where
  "Add userID sessionID up down a =
    (if trim_space userID = [] \<or> up = 0 \<and> down = 0 then a
     else let a = a\<lparr>users := bump userID up down (users a)\<rparr>;
              a = (if sessionID \<noteq> [] then a\<lparr>sessions := bump (userID @ accSep @ sessionID) up down (sessions a)\<rparr> else a)
          in charge userID (up + down) a)"

section \<open>Flush\<close>

definition swapped :: "counters \<Rightarrow> items" where
  "swapped m = filter (\<lambda>(k, u, d). u \<noteq> 0 \<or> d \<noteq> 0) m"

definition zeroed :: "counters \<Rightarrow> counters" where
  "zeroed m = map (\<lambda>(k, c). (k, (0, 0))) m"

text \<open>Under the lock: the deltas of the three maps, and the maps with every counter reset.\<close>

definition flushSwap :: "Accounting \<Rightarrow> Accounting \<times> items \<times> items \<times> items" where
  "flushSwap a = (a\<lparr>users := zeroed (users a), sessions := zeroed (sessions a), outbounds := zeroed (outbounds a)\<rparr>,
     swapped (users a), swapped (sessions a), swapped (outbounds a))"

definition redeposit :: "items \<Rightarrow> counters \<Rightarrow> counters" where
  "redeposit its m = fold (\<lambda>(k, u, d). bump k u d) its m"

definition restore :: "items \<times> items \<times> items \<Rightarrow> Accounting \<Rightarrow> Accounting" where
  "restore its a = (case its of (us, ss, os) \<Rightarrow>
     a\<lparr>users := redeposit us (users a), sessions := redeposit ss (sessions a), outbounds := redeposit os (outbounds a)\<rparr>)"

text \<open>\<open>UPDATE ... SET bytes_up = bytes_up + ?, ...\<close>: a row that does not exist is left alone.\<close>

definition updateRow :: "'k \<Rightarrow> int \<times> int \<Rightarrow> ('k \<times> (int \<times> int)) list \<Rightarrow> ('k \<times> (int \<times> int)) list" where
  "updateRow k c t = map (\<lambda>(j, u, d). if j = k then (j, u + fst c, d + snd c) else (j, u, d)) t"

definition splitKey :: "string \<Rightarrow> (string \<times> string) option" where
  "splitKey k = (if CHR 0x00 \<in> set k then Some (takeWhile (\<lambda>c. c \<noteq> CHR 0x00) k, tl (dropWhile (\<lambda>c. c \<noteq> CHR 0x00) k)) else None)"

definition transaction :: "items \<times> items \<times> items \<Rightarrow> database \<Rightarrow> database" where
  "transaction its db = (case its of (us, ss, os) \<Rightarrow>
     db\<lparr>dbUsers := fold (\<lambda>(k, c). updateRow k c) us (dbUsers db),
        dbSessions := fold (\<lambda>(k, c). case splitKey k of None \<Rightarrow> id | Some p \<Rightarrow> updateRow p c) ss (dbSessions db),
        dbOutbounds := fold (\<lambda>(k, c). updateRow k c) os (dbOutbounds db)\<rparr>)"

text \<open>The transaction: \<open>ok\<close> is whether \<open>Begin\<close>, every \<open>Exec\<close> and \<open>Commit\<close> succeed; otherwise it is
  rolled back. The list is the calls of the hook.\<close>

definition flushFinish :: "bool \<Rightarrow> items \<times> items \<times> items \<Rightarrow> Accounting \<Rightarrow> database \<Rightarrow> Accounting \<times> database \<times> items" where
  "flushFinish ok its a db =
    (if its = ([], [], []) then (a, db, [])
     else if ok then (a, transaction its db, fst its)
     else (restore its a, db, []))"

definition Flush :: "bool \<Rightarrow> Accounting \<Rightarrow> database \<Rightarrow> Accounting \<times> database \<times> items" where
  "Flush ok a db = (case flushSwap a of (a, its) \<Rightarrow> flushFinish ok its a db)"

section \<open>Interleavings\<close>

text \<open>The last component is a ghost: all bytes ever added, per user and per outbound.\<close>

type_synonym world = "Accounting \<times> database \<times> (items \<times> items \<times> items) list \<times> (string \<Rightarrow> int \<times> int) \<times> (string \<Rightarrow> int \<times> int)"

definition plus2 :: "int \<times> int \<Rightarrow> int \<times> int \<Rightarrow> int \<times> int" where
  "plus2 a b = (fst a + fst b, snd a + snd b)"

inductive account_step :: "world \<Rightarrow> world \<Rightarrow> bool" where
  add: "account_step (a, db, fl, gu, go) (Add u s up down a, db, fl,
    if trim_space u = [] then gu else gu(u := plus2 (gu u) (up, down)), go)"
| outbound: "account_step (a, db, fl, gu, go) (AddOutbound tag up down a, db, fl, gu,
    if trim_space tag = [] then go else go(tag := plus2 (go tag) (up, down)))"
| budget: "account_step (a, db, fl, gu, go) (SetUserRemaining u r a, db, fl, gu, go)"
| swap: "flushSwap a = (a', its) \<Longrightarrow> account_step (a, db, fl, gu, go) (a', db, its # fl, gu, go)"
| finish: "its \<in> set fl \<Longrightarrow> flushFinish ok its a db = (a', db', hooks) \<Longrightarrow>
    account_step (a, db, fl, gu, go) (a', db', remove1 its fl, gu, go)"

inductive account_reach :: "database \<Rightarrow> world \<Rightarrow> bool" for db0 :: database where
  start: "account_reach db0 (NewAccounting h, db0, [], \<lambda>_. (0, 0), \<lambda>_. (0, 0))"
| step: "account_reach db0 w \<Longrightarrow> account_step w w' \<Longrightarrow> account_reach db0 w'"

definition in_items :: "string \<Rightarrow> items \<Rightarrow> int \<times> int" where
  "in_items k its = (sum_list (map (\<lambda>(j, u, d). if j = k then u else 0) its), sum_list (map (\<lambda>(j, u, d). if j = k then d else 0) its))"

text \<open>Bytes taken by flushes that have not finished.\<close>

definition inflight :: "((items \<times> items \<times> items) \<Rightarrow> items) \<Rightarrow> string \<Rightarrow> (items \<times> items \<times> items) list \<Rightarrow> int \<times> int" where
  "inflight sel k fl = (sum_list (map (\<lambda>i. fst (in_items k (sel i))) fl), sum_list (map (\<lambda>i. snd (in_items k (sel i))) fl))"

definition conserved :: "(string \<times> (int \<times> int)) list \<Rightarrow> (string \<times> (int \<times> int)) list \<Rightarrow> counters \<Rightarrow> (string \<Rightarrow> int \<times> int) \<Rightarrow> (string \<Rightarrow> int \<times> int) \<Rightarrow> bool" where
  "conserved t0 t m f g = (distinct (map fst m) \<and> (\<forall>k r0. map_of t0 k = Some r0 \<longrightarrow>
     (\<exists>r. map_of t k = Some r \<and> plus2 r (plus2 (pending k m) (f k)) = plus2 r0 (g k))))"

fun world_inv :: "database \<Rightarrow> world \<Rightarrow> bool" where
  "world_inv db0 (a, db, fl, gu, go) =
    (conserved (dbUsers db0) (dbUsers db) (users a) (\<lambda>k. inflight fst k fl) gu \<and>
     conserved (dbOutbounds db0) (dbOutbounds db) (outbounds a) (\<lambda>k. inflight (\<lambda>i. snd (snd i)) k fl) go)"

section \<open>No byte is lost or counted twice\<close>

lemma plus2_simps: "plus2 (plus2 a b) c = plus2 a (plus2 b c)" "plus2 a b = plus2 b a" "plus2 a (plus2 b c) = plus2 b (plus2 a c)" "plus2 (0, 0) a = a" "plus2 a (0, 0) = a"
  by (simp_all add: plus2_def)

lemma plus2_cancel: "plus2 a b = plus2 a c \<longleftrightarrow> b = c"
  by (simp add: plus2_def prod_eq_iff)

lemma counter_some: "\<exists>c. map_of (counter k m) k = Some c"
  by (cases "map_of m k") (auto simp: counter_def update_conv')

lemma pending_counter: "pending j (counter k m) = pending j m"
  by (cases "map_of m k") (auto simp: counter_def pending_def update_conv')

lemma pending_bump: "pending k (bump j u d m) = (if j = k then plus2 (pending k m) (u, d) else pending k m)"
proof -
  obtain c where c: "map_of (counter j m) j = Some c" using counter_some by blast
  have "pending k (bump j u d m) = (if j = k then plus2 (pending k (counter j m)) (u, d) else pending k (counter j m))"
    using c by (cases c) (auto simp: bump_def Let_def pending_def update_conv' plus2_def)
  then show ?thesis by (simp add: pending_counter)
qed

lemma distinct_bump: "distinct (map fst m) \<Longrightarrow> distinct (map fst (bump k u d m))"
  by (auto simp: bump_def counter_def Let_def AList.distinct_update split: option.split)

lemma zeroed_keys: "map fst (zeroed m) = map fst m"
  by (auto simp: zeroed_def)

lemma pending_zeroed: "pending k (zeroed m) = (0, 0)"
  by (induction m) (auto simp: zeroed_def pending_def)

lemma in_items_Cons: "in_items k ((j, c) # its) = (if j = k then plus2 c (in_items k its) else in_items k its)"
  by (cases c) (auto simp: in_items_def plus2_def)

lemma in_items_Nil [simp]: "in_items k [] = (0, 0)"
  by (simp add: in_items_def)

lemma in_items_absent: "k \<notin> fst ` set its \<Longrightarrow> in_items k its = (0, 0)"
proof (induction its)
  case (Cons x its)
  then show ?case by (cases x) (auto simp: in_items_Cons)
qed simp

lemma in_items_swapped: "distinct (map fst m) \<Longrightarrow> in_items k (swapped m) = pending k m"
proof (induction m)
  case (Cons x m)
  obtain j u d where x: "x = (j, u, d)" by (metis prod_cases3)
  have "fst ` set (swapped m) \<subseteq> fst ` set m" by (auto simp: swapped_def)
  then have "j \<notin> fst ` set (swapped m)" using Cons.prems x by auto
  then have z: "in_items j (swapped m) = (0, 0)" by (rule in_items_absent)
  have "swapped (x # m) = (if u \<noteq> 0 \<or> d \<noteq> 0 then x # swapped m else swapped m)" by (simp add: swapped_def x)
  moreover have "pending k (x # m) = (if j = k then (u, d) else pending k m)" by (simp add: pending_def x)
  ultimately show ?case using Cons.prems z x Cons.IH [THEN trans [OF _ refl]]
    by (cases "j = k") (simp_all add: in_items_Cons plus2_simps(5))
qed (simp add: swapped_def pending_def)

lemma pending_redeposit: "pending k (redeposit its m) = plus2 (pending k m) (in_items k its) \<and> (distinct (map fst m) \<longrightarrow> distinct (map fst (redeposit its m)))"
proof (induction its arbitrary: m)
  case (Cons x its)
  obtain j u d where x: "x = (j, u, d)" by (metis prod_cases3)
  have "redeposit (x # its) m = redeposit its (bump j u d m)" by (simp add: redeposit_def x)
  then show ?case using Cons [of "bump j u d m"] x by (simp add: pending_bump in_items_Cons plus2_simps(1) distinct_bump)
qed (simp add: redeposit_def plus2_simps)

lemma map_of_updateRow: "map_of (updateRow j c t) k = map_option (\<lambda>r. if j = k then plus2 r c else r) (map_of t k)"
  by (induction t) (auto simp: updateRow_def plus2_def)

lemma map_of_updates: "map_of (fold (\<lambda>(k, c). updateRow k c) its t) k = map_option (\<lambda>r. plus2 r (in_items k its)) (map_of t k)"
proof (induction its arbitrary: t)
  case (Cons x its)
  obtain j c where x: "x = (j, c)" by (cases x)
  show ?case using Cons [of "updateRow j c t"] x
    by (cases "map_of t k") (auto simp: map_of_updateRow in_items_Cons plus2_simps(1))
qed (simp add: plus2_simps option.map_ident)

lemma inflight_Cons: "inflight sel k (i # fl) = plus2 (in_items k (sel i)) (inflight sel k fl)"
  by (simp add: inflight_def plus2_def)

lemma inflight_remove: "i \<in> set fl \<Longrightarrow> inflight sel k fl = plus2 (in_items k (sel i)) (inflight sel k (remove1 i fl))"
proof (induction fl)
  case (Cons x fl)
  then show ?case by (cases "x = i") (auto simp: inflight_Cons plus2_simps(3))
qed simp

lemma conserved_bump:
  assumes "conserved t0 t m f g"
  shows "conserved t0 t (bump k u d m) f (g(k := plus2 (g k) (u, d)))"
proof -
  have "plus2 r (plus2 (pending j (bump k u d m)) (f j)) = plus2 r0 ((g(k := plus2 (g k) (u, d))) j)"
    if "plus2 r (plus2 (pending j m) (f j)) = plus2 r0 (g j)" for r r0 j
    using that by (auto simp: pending_bump plus2_def prod_eq_iff)
  then show ?thesis using assms distinct_bump unfolding conserved_def by metis
qed

lemma conserved_swap:
  assumes "conserved t0 t m f g" "\<And>k. f' k = plus2 (in_items k (swapped m)) (f k)"
  shows "conserved t0 t (zeroed m) f' g"
  using assms by (auto simp: conserved_def zeroed_keys pending_zeroed in_items_swapped plus2_simps(4))

lemma conserved_commit:
  assumes "conserved t0 t m f g" "\<And>k. f k = plus2 (in_items k its) (f' k)"
  shows "conserved t0 (fold (\<lambda>(k, c). updateRow k c) its t) m f' g"
proof -
  have "plus2 (plus2 r (in_items k its)) (plus2 (pending k m) (f' k)) = plus2 r (plus2 (pending k m) (f k))" for r k
    by (simp add: assms(2) plus2_def)
  then have "\<exists>r'. map_option (\<lambda>r. plus2 r (in_items k its)) (map_of t k) = Some r' \<and> plus2 r' (plus2 (pending k m) (f' k)) = plus2 r0 (g k)"
    if "map_of t k = Some r" "plus2 r (plus2 (pending k m) (f k)) = plus2 r0 (g k)" for k r r0
    using that by simp
  then show ?thesis using assms(1) unfolding conserved_def map_of_updates by metis
qed

lemma conserved_restore:
  assumes "conserved t0 t m f g" "\<And>k. f k = plus2 (in_items k its) (f' k)"
  shows "conserved t0 t (redeposit its m) f' g"
  using assms pending_redeposit [of _ its m] by (simp add: conserved_def plus2_simps(1))

section \<open>Steps\<close>

lemma charge_same: "users (charge u n a) = users a" "outbounds (charge u n a) = outbounds a"
  by (auto simp: charge_def fireOverrunOnce_def Let_def split: option.split)

lemma add_users: "users (Add u s up down a) = (if trim_space u = [] \<or> up = 0 \<and> down = 0 then users a else bump u up down (users a))"
  "outbounds (Add u s up down a) = outbounds a"
  by (simp_all add: Add_def Let_def charge_same)

lemma outbound_users: "users (AddOutbound tag up down a) = users a"
  "outbounds (AddOutbound tag up down a) = (if trim_space tag = [] \<or> up = 0 \<and> down = 0 then outbounds a else bump tag up down (outbounds a))"
  by (simp_all add: AddOutbound_def)

lemma conserved_add:
  assumes "conserved t0 t m f g"
  shows "conserved t0 t (if z \<or> up = 0 \<and> down = 0 then m else bump k up down m) f (if z then g else g(k := plus2 (g k) (up, down)))"
  using assms conserved_bump [OF assms, of k up down] by (auto simp: plus2_simps(5))

lemma world_step: "account_step w w' \<Longrightarrow> world_inv db0 w \<Longrightarrow> world_inv db0 w'"
proof (induction rule: account_step.induct)
  case (add a db fl gu go u s up down)
  then show ?case using conserved_add [of _ _ "users a" _ gu "trim_space u = []" up down u] by (simp add: add_users)
next
  case (outbound a db fl gu go tag up down)
  then show ?case using conserved_add [of _ _ "outbounds a" _ go "trim_space tag = []" up down tag] by (simp add: outbound_users)
next
  case (budget a db fl gu go u r)
  then show ?case by (simp add: SetUserRemaining_def)
next
  case (swap a a' its db fl gu go)
  then have "users a' = zeroed (users a)" "outbounds a' = zeroed (outbounds a)" "fst its = swapped (users a)" "snd (snd its) = swapped (outbounds a)"
    by (auto simp: flushSwap_def)
  then show ?case using swap.prems by (auto intro!: conserved_swap simp: inflight_Cons)
next
  case (finish its fl ok a db a' db' hooks gu go)
  have f: "inflight fst k fl = plus2 (in_items k (fst its)) (inflight fst k (remove1 its fl))"
    "inflight (\<lambda>i. snd (snd i)) k fl = plus2 (in_items k (snd (snd its))) (inflight (\<lambda>i. snd (snd i)) k (remove1 its fl))" for k
    using inflight_remove [OF finish.hyps(1)] by blast+
  have c: "conserved (dbUsers db0) (dbUsers db) (users a) (\<lambda>k. inflight fst k fl) gu"
    "conserved (dbOutbounds db0) (dbOutbounds db) (outbounds a) (\<lambda>k. inflight (\<lambda>i. snd (snd i)) k fl) go" using finish.prems by simp_all
  consider "its = ([], [], [])" "a' = a" "db' = db" | "a' = a" "db' = transaction its db" | "a' = restore its a" "db' = db"
    using finish.hyps(2) by (auto simp: flushFinish_def split: if_splits)
  then show ?case
  proof cases
    case 1
    then show ?thesis using c f by (simp add: plus2_simps(4))
  next
    case 2
    then show ?thesis using conserved_commit [OF c(1) f(1)] conserved_commit [OF c(2) f(2)] by (simp add: transaction_def case_prod_beta)
  next
    case 3
    then show ?thesis using conserved_restore [OF c(1) f(1)] conserved_restore [OF c(2) f(2)] by (simp add: restore_def case_prod_beta)
  qed
qed

lemma world_reach: "account_reach db0 w \<Longrightarrow> world_inv db0 w"
proof (induction rule: account_reach.induct)
  case (start h)
  then show ?case by (auto simp: conserved_def NewAccounting_def pending_def inflight_def plus2_simps)
qed (rule world_step)

section \<open>The overrun hook\<close>

text \<open>Additions of any users, in order.\<close>

definition addAll :: "(string \<times> string \<times> int \<times> int) list \<Rightarrow> Accounting \<Rightarrow> Accounting" where
  "addAll ds a = fold (\<lambda>(u, s, up, down). Add u s up down) ds a"

definition spent :: "string \<Rightarrow> (string \<times> string \<times> int \<times> int) list \<Rightarrow> int" where
  "spent k ds = sum_list (map (\<lambda>(u, s, up, down). if u = k then up + down else 0) ds)"

definition budget_state :: "string \<Rightarrow> int \<Rightarrow> nat \<Rightarrow> int \<Rightarrow> Accounting \<Rightarrow> bool" where
  "budget_state k n c T a = (hasOnOverrun a \<and>
     (if T < max 1 n then map_of (remaining a) k = Some (n - T) \<and> map_of (overrunFired a) k \<noteq> Some True \<and> count_list (overruns a) k = c
      else (\<exists>r. map_of (remaining a) k = Some r \<and> r \<le> 0) \<and> map_of (overrunFired a) k = Some True \<and> count_list (overruns a) k = c + 1))"

lemma charge_other:
  assumes "u \<noteq> k"
  shows "map_of (remaining (charge u d a)) k = map_of (remaining a) k" "map_of (overrunFired (charge u d a)) k = map_of (overrunFired a) k"
    "count_list (overruns (charge u d a)) k = count_list (overruns a) k" "hasOnOverrun (charge u d a) = hasOnOverrun a"
  using assms by (auto simp: charge_def fireOverrunOnce_def Let_def update_conv' split: option.split)

lemma charge_self:
  assumes "budget_state k n c T a" "0 \<le> n" "0 \<le> T" "0 < d"
  shows "budget_state k n c (T + d) (charge k d a)"
proof (cases "T < max 1 n")
  case True
  then have s: "map_of (remaining a) k = Some (n - T)" "map_of (overrunFired a) k \<noteq> Some True" "count_list (overruns a) k = c" "hasOnOverrun a"
    using assms(1) by (auto simp: budget_state_def)
  have r: "n - T \<noteq> -1" using True assms(2, 3) by auto
  show ?thesis
  proof (cases "n - T - d \<le> 0")
    case le: True
    then have "\<not> T + d < max 1 n" using assms by auto
    then show ?thesis using s r le by (auto simp: budget_state_def charge_def fireOverrunOnce_def Let_def update_conv' split: option.splits)
  next
    case False
    then have "T + d < max 1 n" by auto
    then show ?thesis using s r False by (simp add: budget_state_def charge_def Let_def update_conv' algebra_simps)
  qed
next
  case False
  then obtain r where s: "map_of (remaining a) k = Some r" "r \<le> 0" "map_of (overrunFired a) k = Some True" "count_list (overruns a) k = c + 1" "hasOnOverrun a"
    using assms(1) by (auto simp: budget_state_def)
  moreover have "\<not> T + d < max 1 n" using False assms(4) by auto
  ultimately show ?thesis using assms(4) by (auto simp: budget_state_def charge_def fireOverrunOnce_def Let_def update_conv')
qed

lemma add_budget:
  assumes "budget_state k n c T a" "0 \<le> n" "0 \<le> T" "0 \<le> up" "0 \<le> down" "trim_space k \<noteq> []"
  shows "budget_state k n c (if u = k then T + (up + down) else T) (Add u s up down a)"
proof -
  have keep: "budget_state k n c T (a\<lparr>users := x\<rparr>) = budget_state k n c T a" "budget_state k n c T (a\<lparr>users := x, sessions := y\<rparr>) = budget_state k n c T a" for x y
    by (simp_all add: budget_state_def)
  have other: "budget_state k n c T (charge u d b)" if "u \<noteq> k" "budget_state k n c T b" for d b
    using that charge_other [OF that(1)] by (simp add: budget_state_def)
  show ?thesis
  proof (cases "trim_space u = [] \<or> up = 0 \<and> down = 0")
    case True
    then show ?thesis using assms by (auto simp: Add_def)
  next
    case False
    then have "u = k \<Longrightarrow> 0 < up + down" using assms(4, 5) by auto
    then show ?thesis using False assms charge_self [of k n c T _ "up + down"] other by (auto simp: Add_def Let_def keep)
  qed
qed

lemma addAll_budget:
  assumes "budget_state k n c T a" "0 \<le> n" "0 \<le> T" "\<forall>(u, s, up, down) \<in> set ds. 0 \<le> up \<and> 0 \<le> down" "trim_space k \<noteq> []"
  shows "budget_state k n c (T + spent k ds) (addAll ds a)"
  using assms
proof (induction ds arbitrary: T a)
  case (Cons x ds)
  obtain u s up down where x: "x = (u, s, up, down)" by (metis prod_cases4)
  let ?T = "if u = k then T + (up + down) else T"
  have "budget_state k n c ?T (Add u s up down a)" using add_budget [OF Cons.prems(1-3) _ _ Cons.prems(5)] Cons.prems(4) x by auto
  moreover have "0 \<le> ?T" using Cons.prems(3, 4) x by auto
  ultimately have "budget_state k n c (?T + spent k ds) (addAll ds (Add u s up down a))" using Cons.IH Cons.prems(2, 4, 5) by auto
  moreover have "?T + spent k ds = T + spent k (x # ds)" by (simp add: spent_def x)
  ultimately show ?case by (simp add: addAll_def x)
qed (simp add: spent_def addAll_def)

section \<open>Properties\<close>

text \<open>C39. Traffic is neither lost nor counted twice. However additions, budget updates and flushes interleave,
  and however many flushes fail in the database, for every user and every outbound with a row the bytes in
  the row, in the memory counter and in unfinished flushes together are the initial bytes plus everything
  added, in each direction. A flush that succeeds while no other is unfinished leaves exactly the initial
  bytes plus everything added in the row and nothing in memory; one that fails changes neither the database
  nor any memory counter.\<close>

theorem traffic_conserved:
  assumes "account_reach db0 (a, db, fl, gu, go)"
  shows "(\<forall>u r0. map_of (dbUsers db0) u = Some r0 \<longrightarrow> (\<exists>r. map_of (dbUsers db) u = Some r \<and>
      plus2 r (plus2 (Pending u a) (inflight fst u fl)) = plus2 r0 (gu u))) \<and>
    (\<forall>t r0. map_of (dbOutbounds db0) t = Some r0 \<longrightarrow> (\<exists>r. map_of (dbOutbounds db) t = Some r \<and>
      plus2 r (plus2 (PendingOutbound t a) (inflight (\<lambda>i. snd (snd i)) t fl)) = plus2 r0 (go t))) \<and>
    (fl = [] \<longrightarrow> (\<forall>u r0 a' db' h. map_of (dbUsers db0) u = Some r0 \<and> Flush True a db = (a', db', h) \<longrightarrow>
      map_of (dbUsers db') u = Some (plus2 r0 (gu u)) \<and> Pending u a' = (0, 0))) \<and>
    (\<forall>u a' db' h. Flush False a db = (a', db', h) \<longrightarrow> db' = db \<and> Pending u a' = Pending u a)"
proof -
  have i: "world_inv db0 (a, db, fl, gu, go)" by (rule world_reach [OF assms])
  then have d: "distinct (map fst (users a))" by (simp add: conserved_def)
  have fail: "db' = db \<and> Pending u a' = Pending u a" if "Flush False a db = (a', db', h)" for u a' db' h
    using that pending_redeposit [of u "swapped (users a)" "zeroed (users a)"] d in_items_swapped [OF d, of u]
    by (auto simp: Flush_def flushSwap_def flushFinish_def restore_def Pending_def pending_zeroed plus2_simps(4) split: if_splits)
  have ok: "map_of (dbUsers db') u = Some (plus2 r0 (gu u)) \<and> Pending u a' = (0, 0)"
    if h: "fl = []" "map_of (dbUsers db0) u = Some r0" "Flush True a db = (a', db', h)" for u r0 a' db' h
  proof -
    obtain r where r: "map_of (dbUsers db) u = Some r" "plus2 r (pending u (users a)) = plus2 r0 (gu u)"
    proof -
      have "inflight fst u fl = (0, 0)" using h(1) by (simp add: inflight_def)
      then show thesis using that i h(2) unfolding world_inv.simps conserved_def by (metis plus2_simps(5))
    qed
    have "Pending u a' = (0, 0)"
      using h(3) by (auto simp: Flush_def flushSwap_def flushFinish_def Pending_def pending_zeroed split: if_splits)
    moreover have "map_of (dbUsers db') u = Some (plus2 r (pending u (users a)))"
    proof (cases "(swapped (users a), swapped (sessions a), swapped (outbounds a)) = ([], [], [])")
      case True
      then have "pending u (users a) = (0, 0)" "db' = db" using h(3) in_items_swapped [OF d, of u] by (simp_all add: Flush_def flushSwap_def flushFinish_def)
      then show ?thesis using r(1) by (simp add: plus2_simps(5))
    next
      case False
      then have "db' = transaction (swapped (users a), swapped (sessions a), swapped (outbounds a)) db"
        using h(3) by (auto simp: Flush_def flushSwap_def flushFinish_def)
      then show ?thesis using r(1) in_items_swapped [OF d, of u] by (simp add: transaction_def map_of_updates)
    qed
    ultimately show ?thesis using r(2) by simp
  qed
  have "\<forall>u r0. map_of (dbUsers db0) u = Some r0 \<longrightarrow> (\<exists>r. map_of (dbUsers db) u = Some r \<and>
      plus2 r (plus2 (Pending u a) (inflight fst u fl)) = plus2 r0 (gu u))"
    "\<forall>t r0. map_of (dbOutbounds db0) t = Some r0 \<longrightarrow> (\<exists>r. map_of (dbOutbounds db) t = Some r \<and>
      plus2 r (plus2 (PendingOutbound t a) (inflight (\<lambda>i. snd (snd i)) t fl)) = plus2 r0 (go t))"
    using i by (simp_all add: conserved_def Pending_def PendingOutbound_def)
  then show ?thesis using fail ok by blast
qed

theorem traffic_conserved_witness:
  "let db0 = \<lparr>dbUsers = [(''u'', (10, 20))], dbSessions = [], dbOutbounds = []\<rparr>; a = Add ''u'' [] 3 4 (NewAccounting True) in
   map_of (dbUsers (fst (snd (Flush True a db0)))) ''u'' = Some (13, 24) \<and>
   account_reach db0 (a, db0, [], (\<lambda>_. (0, 0))(''u'' := plus2 (0, 0) (3, 4)), \<lambda>_. (0, 0))"
proof -
  let ?db = "\<lparr>dbUsers = [(''u'', (10, 20))], dbSessions = [], dbOutbounds = []\<rparr>"
  let ?a = "Add ''u'' [] 3 4 (NewAccounting True)"
  let ?g = "(\<lambda>_. (0, 0))(''u'' := plus2 (0, 0) (3, 4))"
  have t: "trim_space ''u'' \<noteq> []" by code_simp
  have r: "account_reach ?db (?a, ?db, [], ?g, \<lambda>_. (0, 0))"
    using account_reach.step [OF account_reach.start [of ?db True] account_step.add [of _ _ _ _ _ "''u''" "[]" 3 4]] t by simp
  obtain a' db' h where f: "Flush True ?a ?db = (a', db', h)" by (metis prod_cases3)
  have m: "map_of (dbUsers ?db) ''u'' = Some (10, 20)" by simp
  have "map_of (dbUsers db') ''u'' = Some (plus2 (10, 20) (?g ''u''))"
    using traffic_conserved [OF r] m f by blast
  then show ?thesis using r f by (simp add: plus2_def)
qed

text \<open>The overrun hook fires exactly once per budget. After a budget of \<open>n\<close> bytes (not negative) is set for
  a user, any sequence of additions for any users calls the hook for that user once if the bytes added for
  them have reached the budget (or, with an empty budget, any byte was added) and not at all otherwise.\<close>

lemma overrun_fires_once:
  assumes "hasOnOverrun a" "trim_space u \<noteq> []" "0 \<le> n" "\<forall>(v, s, up, down) \<in> set ds. 0 \<le> up \<and> 0 \<le> down"
  shows "count_list (overruns (addAll ds (SetUserRemaining u n a))) u =
    count_list (overruns a) u + (if spent u ds \<ge> max 1 n then 1 else 0)"
proof -
  have u: "u \<noteq> []" using assms(2) by (auto simp: trim_space_def)
  then have "budget_state u n (count_list (overruns a) u) 0 (SetUserRemaining u n a)"
    using assms(1, 3) by (auto simp: budget_state_def SetUserRemaining_def update_conv' split: option.split)
  from addAll_budget [OF this assms(3) _ assms(4, 2)] show ?thesis by (auto simp: budget_state_def)
qed

lemma overrun_fires_once_witness:
  "count_list (overruns (addAll [(''u'', [], 4, 0), (''v'', [], 9, 9), (''u'', [], 0, 7), (''u'', [], 1, 1)] (SetUserRemaining ''u'' 10 (NewAccounting True)))) ''u'' = 1"
proof -
  have t: "trim_space ''u'' \<noteq> []" by code_simp
  show ?thesis
    using overrun_fires_once [of "NewAccounting True" "''u''" 10 "[(''u'', [], 4, 0), (''v'', [], 9, 9), (''u'', [], 0, 7), (''u'', [], 1, 1)]"] t
    by (simp add: NewAccounting_def spent_def)
qed

end
