(* ===== verification/ClientHello.thy ===== *)
theory ClientHello
  imports Prelude
begin

text \<open>
  The three hand-written TLS ClientHello parsers of the program:
  \<^item> \<open>ExtractSessionID\<close> (auth.go) and \<open>ExtractX25519FromKeyShare\<close> (auth_extension.go), which
    feed the server's authentication gate;
  \<^item> \<open>parseSNIFromClientHello\<close> (sni_parse.go), which picks the masquerade origin;
  \<^item> \<open>TLSClientHello\<close> (internal/sniff/tls.go), which recovers the destination host of a
    forwarded stream.
  Every index and subslice expression is checked, so a missing length test of the source
  would show up as \<open>GoPanic\<close>. The second half fixes the wire layout of a ClientHello
  (RFC 8446, section 4.1.2) as an encoder and proves what the parsers return on it.
\<close>

section \<open>auth.go: ExtractSessionID\<close>

definition ExtractSessionID :: "bytes \<Rightarrow> (string, bytes) gores" where
  "ExtractSessionID clientHello =
    (if length clientHello < 6 then GoErr ''ClientHello too short''
     else go_bind (idx clientHello 0) (\<lambda>b0.
       if b0 = 0x01 \<and> length clientHello < 4 then GoErr ''ClientHello too short for handshake header''
       else let pos = (if b0 = 0x01 then 4 else 0) + (2 + 32) in
         if length clientHello \<le> pos then GoErr ''ClientHello too short for session_id length''
         else go_bind (idx clientHello pos) (\<lambda>l.
           let sessionIDLength = unat l; pos = pos + 1 in
           if length clientHello < pos + sessionIDLength then GoErr ''ClientHello session_id exceeds data''
           else subslice clientHello pos (pos + sessionIDLength))))"

section \<open>auth\_extension.go: the X25519 key share\<close>

definition handshakeBody :: "bytes \<Rightarrow> (string, bytes) gores" where
  "handshakeBody data =
    (if length data = 0 then GoErr ''ClientHello empty after TLS record header''
     else go_bind (idx data 0) (\<lambda>b0.
       if b0 = 0x01 then
         if length data < 4 then GoErr ''ClientHello too short for handshake header''
         else go_bind (idx data 1) (\<lambda>a. go_bind (idx data 2) (\<lambda>b. go_bind (idx data 3) (\<lambda>c.
           let handshakeLen = be24 a b c in
           if length data < 4 + handshakeLen then GoErr ''ClientHello handshake length exceeds data''
           else subslice data 4 (4 + handshakeLen))))
       else GoOk data))"

definition clientHelloBody :: "bytes \<Rightarrow> (string, bytes) gores" where
  "clientHelloBody data =
    (if length data = 0 then GoErr ''ClientHello empty''
     else go_bind (idx data 0) (\<lambda>b0.
       if b0 = 0x16 then
         if length data < 5 then GoErr ''TLS record too short''
         else go_bind (idx data 3) (\<lambda>h. go_bind (idx data 4) (\<lambda>l.
           let recordLen = be16 h l in
           if length data < 5 + recordLen then GoErr ''TLS record length exceeds data''
           else go_bind (subslice data 5 (5 + recordLen)) handshakeBody))
       else handshakeBody data))"

text \<open>The source reads each length-prefixed vector the same way: check the prefix, read the
  length, check the body, advance the subslice. \<open>skip8\<close> and \<open>skip16\<close> are that pattern for a one
  and a two byte prefix, with the two error messages as arguments.\<close>

definition skip8 :: "'e \<Rightarrow> 'e \<Rightarrow> bytes \<Rightarrow> ('e, bytes) gores" where
  "skip8 missing truncated body =
    (if length body < 1 then GoErr missing
     else go_bind (idx body 0) (\<lambda>l. let n = unat l in
       if length body < 1 + n then GoErr truncated else slice_from body (1 + n)))"

definition skip16 :: "'e \<Rightarrow> 'e \<Rightarrow> bytes \<Rightarrow> ('e, bytes) gores" where
  "skip16 missing truncated body =
    (if length body < 2 then GoErr missing
     else go_bind (idx body 0) (\<lambda>h. go_bind (idx body 1) (\<lambda>l. let n = be16 h l in
       if length body < 2 + n then GoErr truncated else slice_from body (2 + n))))"

definition vec16 :: "'e \<Rightarrow> 'e \<Rightarrow> bytes \<Rightarrow> ('e, bytes) gores" where
  "vec16 missing truncated body =
    (if length body < 2 then GoErr missing
     else go_bind (idx body 0) (\<lambda>h. go_bind (idx body 1) (\<lambda>l. let n = be16 h l in
       if length body < 2 + n then GoErr truncated else subslice body 2 (2 + n))))"

text \<open>The inner loop over the \<open>client_shares\<close> list.\<close>

function keyShareList :: "bytes \<Rightarrow> (string, bytes) gores" where
  "keyShareList list =
    (if length list < 4 then GoErr ''key_share has no standalone X25519 entry''
     else go_bind (idx list 0) (\<lambda>g1. go_bind (idx list 1) (\<lambda>g0.
       go_bind (idx list 2) (\<lambda>k1. go_bind (idx list 3) (\<lambda>k0.
       let group = be16 g1 g0; keLen = be16 k1 k0 in
       if length list < 4 + keLen then GoErr ''key_share entry truncated''
       else go_bind (subslice list 4 (4 + keLen)) (\<lambda>keyExchange.
         if group = 0x001D \<and> length keyExchange = 32 then GoOk keyExchange
         else go_bind (slice_from list (4 + keLen)) keyShareList))))))"
  by pat_completeness auto
termination
  by (relation "measure length") (auto dest: slice_from_GoOk_length)

text \<open>The loop over the extensions; the first \<open>key_share\<close> extension decides.\<close>

function keyShareExts :: "bytes \<Rightarrow> (string, bytes) gores" where
  "keyShareExts exts =
    (if length exts < 4 then GoErr ''key_share extension not present''
     else go_bind (idx exts 0) (\<lambda>t1. go_bind (idx exts 1) (\<lambda>t0.
       go_bind (idx exts 2) (\<lambda>l1. go_bind (idx exts 3) (\<lambda>l0.
       let extType = be16 t1 t0; eLen = be16 l1 l0 in
       if length exts < 4 + eLen then GoErr ''extension truncated''
       else go_bind (subslice exts 4 (4 + eLen)) (\<lambda>extBody.
         go_bind (slice_from exts (4 + eLen)) (\<lambda>exts'.
         if extType \<noteq> 0x0033 then keyShareExts exts'
         else go_bind (vec16 ''key_share extension empty'' ''key_share list truncated'' extBody)
                keyShareList)))))))"
  by pat_completeness auto
termination
  by (relation "measure length") (auto dest: slice_from_GoOk_length)

definition ExtractX25519FromKeyShare :: "bytes \<Rightarrow> (string, bytes) gores" where
  "ExtractX25519FromKeyShare payload =
    go_bind (clientHelloBody payload) (\<lambda>body.
      if length body < 34 then GoErr ''clientHello body truncated (header)''
      else go_bind (slice_from body 34) (\<lambda>body.
        go_bind (skip8 ''clientHello: missing session_id length'' ''clientHello: session_id truncated'' body) (\<lambda>body.
        go_bind (skip16 ''clientHello: missing cipher_suites length'' ''clientHello: cipher_suites truncated'' body) (\<lambda>body.
        go_bind (skip8 ''clientHello: missing compression length'' ''clientHello: compression truncated'' body) (\<lambda>body.
        go_bind (vec16 ''clientHello: missing extensions length'' ''clientHello: extensions truncated'' body)
          keyShareExts)))))"

declare keyShareList.simps [simp del] keyShareExts.simps [simp del]

section \<open>sni\_parse.go: the server name\<close>

function sniNameList :: "bytes \<Rightarrow> (string, string) gores" where
  "sniNameList list =
    (if length list < 3 then GoOk ''''
     else go_bind (idx list 0) (\<lambda>nameType. go_bind (idx list 1) (\<lambda>h. go_bind (idx list 2) (\<lambda>l.
       let nameLen = be16 h l in
       if length list < 3 + nameLen then GoErr ''SNI name truncated''
       else go_bind (subslice list 3 (3 + nameLen)) (\<lambda>nameVal.
         go_bind (slice_from list (3 + nameLen)) (\<lambda>list'.
         if nameType = 0 then GoOk (str_of_bytes nameVal) else sniNameList list'))))))"
  by pat_completeness auto
termination
  by (relation "measure length") (auto dest: slice_from_GoOk_length)

function sniExts :: "bytes \<Rightarrow> (string, string) gores" where
  "sniExts exts =
    (if length exts < 4 then GoOk ''''
     else go_bind (idx exts 0) (\<lambda>t1. go_bind (idx exts 1) (\<lambda>t0.
       go_bind (idx exts 2) (\<lambda>l1. go_bind (idx exts 3) (\<lambda>l0.
       let extType = be16 t1 t0; eLen = be16 l1 l0 in
       if length exts < 4 + eLen then GoErr ''clientHello: extension truncated''
       else go_bind (subslice exts 4 (4 + eLen)) (\<lambda>extBody.
         go_bind (slice_from exts (4 + eLen)) (\<lambda>exts'.
         if extType \<noteq> 0 then sniExts exts'
         else go_bind (vec16 ''SNI extension empty'' ''SNI list truncated'' extBody)
                sniNameList)))))))"
  by pat_completeness auto
termination
  by (relation "measure length") (auto dest: slice_from_GoOk_length)

declare sniNameList.simps [simp del] sniExts.simps [simp del]

text \<open>A body that ends after the compression methods has no extensions: the empty name,
  no error.\<close>

definition parseSNIFromClientHello :: "bytes \<Rightarrow> (string, string) gores" where
  "parseSNIFromClientHello payload =
    (if length payload < 4 then GoErr ''clientHello: payload too short''
     else go_bind (idx payload 0) (\<lambda>ty. if ty \<noteq> 1 then GoErr ''clientHello: not a ClientHello message''
     else go_bind (idx payload 1) (\<lambda>a. go_bind (idx payload 2) (\<lambda>b. go_bind (idx payload 3) (\<lambda>c.
     let chLen = be24 a b c in
     go_bind (slice_from payload 4) (\<lambda>body.
     if length body < chLen then GoErr ''clientHello: body truncated''
     else go_bind (subslice body 0 chLen) (\<lambda>body.
     if length body < 34 then GoErr ''clientHello: header truncated''
     else go_bind (slice_from body 34) (\<lambda>body.
       go_bind (skip8 ''clientHello: missing session_id'' ''clientHello: session_id truncated'' body) (\<lambda>body.
       go_bind (skip16 ''clientHello: missing cipher_suites'' ''clientHello: cipher_suites truncated'' body) (\<lambda>body.
       go_bind (skip8 ''clientHello: missing compression_methods'' ''clientHello: compression_methods truncated'' body) (\<lambda>body.
       if length body < 2 then GoOk ''''
       else go_bind (vec16 '''' ''clientHello: extensions truncated'' body) sniExts)))))))))))"

section \<open>internal/sniff/tls.go: the sniffer\<close>

text \<open>\<open>(string, bool)\<close> results: the second component says whether a name was found. The
  scanners keep an offset \<open>p\<close> into the block, as the source does.\<close>

function parseSNI_loop :: "bytes \<Rightarrow> nat \<Rightarrow> (string, string \<times> bool) gores" where
  "parseSNI_loop list p =
    (if length list < p + 3 then GoOk ('''', False)
     else go_bind (idx list p) (\<lambda>nameType.
       go_bind (idx list (p + 1)) (\<lambda>h. go_bind (idx list (p + 2)) (\<lambda>l.
       let nameLen = be16 h l; q = p + 3 in
       if length list < q + nameLen then GoOk ('''', False)
       else if nameType = 0x00 then
         go_bind (subslice list q (q + nameLen)) (\<lambda>raw.
           let name = to_lower (trim_space (str_of_bytes raw)) in
           if name = '''' then GoOk ('''', False) else GoOk (name, True))
       else parseSNI_loop list (q + nameLen)))))"
  by pat_completeness auto
termination
  by (relation "measure (\<lambda>(list, p). length list - p)") auto

definition parseSNI :: "bytes \<Rightarrow> (string, string \<times> bool) gores" where
  "parseSNI ext =
    (if length ext < 2 then GoOk ('''', False)
     else go_bind (idx ext 0) (\<lambda>h. go_bind (idx ext 1) (\<lambda>l. let listLen = be16 h l in
       if length ext < listLen + 2 then GoOk ('''', False)
       else go_bind (subslice ext 2 (2 + listLen)) (\<lambda>list. parseSNI_loop list 0))))"

function sniffExts :: "bytes \<Rightarrow> nat \<Rightarrow> nat \<Rightarrow> (string, string \<times> bool) gores" where
  "sniffExts hello extEnd p =
    (if extEnd < p + 4 then GoOk ('''', False)
     else go_bind (idx hello p) (\<lambda>t1. go_bind (idx hello (p + 1)) (\<lambda>t0.
       go_bind (idx hello (p + 2)) (\<lambda>l1. go_bind (idx hello (p + 3)) (\<lambda>l0.
       let extType = be16 t1 t0; extDataLen = be16 l1 l0; q = p + 4 in
       if extEnd < q + extDataLen then GoOk ('''', False)
       else if extType = 0x0000 then
         go_bind (subslice hello q (q + extDataLen)) (\<lambda>ext. go_bind (parseSNI ext) (\<lambda>(name, ok).
           if ok then GoOk (name, True) else GoOk ('''', False)))
       else sniffExts hello extEnd (q + extDataLen))))))"
  by pat_completeness auto
termination
  by (relation "measure (\<lambda>(hello, extEnd, p). extEnd - p)") auto

declare parseSNI_loop.simps [simp del] sniffExts.simps [simp del]

definition parseClientHelloExtensions :: "bytes \<Rightarrow> (string, string \<times> bool) gores" where
  "parseClientHelloExtensions hello =
    (let none = GoOk ('''', False); p = 34 in
     if length hello < 34 then none
     else if length hello \<le> p then none
     else go_bind (idx hello p) (\<lambda>s. let p = p + 1 in
       if length hello < p + unat s then none
       else let p = p + unat s in if length hello < p + 2 then none
       else go_bind (idx hello p) (\<lambda>h. go_bind (idx hello (p + 1)) (\<lambda>l. let csLen = be16 h l; p = p + 2 in
       if length hello < p + csLen then none
       else let p = p + csLen in if length hello < p + 1 then none
       else go_bind (idx hello p) (\<lambda>c. let p = p + 1 in
       if length hello < p + unat c then none
       else let p = p + unat c in if length hello < p + 2 then none
       else go_bind (idx hello p) (\<lambda>h. go_bind (idx hello (p + 1)) (\<lambda>l. let extLen = be16 h l; p = p + 2 in
       let extEnd = (if length hello < p + extLen then length hello else p + extLen) in
       sniffExts hello extEnd p)))))))"

definition TLSClientHello :: "bytes \<Rightarrow> (string, string \<times> bool) gores" where
  "TLSClientHello data =
    (let none = GoOk ('''', False) in
     if length data < 5 then none
     else go_bind (idx data 0) (\<lambda>ct. if ct \<noteq> 0x16 then none
     else go_bind (idx data 1) (\<lambda>ver. if ver \<noteq> 0x03 then none
     else go_bind (idx data 3) (\<lambda>h. go_bind (idx data 4) (\<lambda>l.
     let recordLen = (let n = be16 h l in if n < 4 \<or> length data < 5 + n then length data - 5 else n) in
     go_bind (subslice data 5 (5 + recordLen)) (\<lambda>body.
     if length body < 4 then none
     else go_bind (idx body 0) (\<lambda>mt. if mt \<noteq> 0x01 then none
     else go_bind (idx body 1) (\<lambda>a. go_bind (idx body 2) (\<lambda>b. go_bind (idx body 3) (\<lambda>c.
     let hsLen = be24 a b c in
     go_bind (slice_from body 4) (\<lambda>hello.
     go_bind (if hsLen < length hello then subslice hello 0 hsLen else GoOk hello)
       parseClientHelloExtensions)))))))))))"

section \<open>No input makes a parser panic\<close>

declare length_greater_0_conv [simp del]

lemma ExtractSessionID_no_panic: "no_panic (ExtractSessionID d)"
  by (auto simp: ExtractSessionID_def go_simps Let_def)

lemma handshakeBody_no_panic: "no_panic (handshakeBody d)"
  by (auto simp: handshakeBody_def go_simps Let_def)

lemma clientHelloBody_no_panic: "no_panic (clientHelloBody d)"
  by (auto simp: clientHelloBody_def go_simps Let_def handshakeBody_no_panic)

lemma skip8_no_panic: "no_panic (skip8 e1 e2 d)"
  by (auto simp: skip8_def go_simps Let_def)

lemma skip16_no_panic: "no_panic (skip16 e1 e2 d)"
  by (auto simp: skip16_def go_simps Let_def)

lemma vec16_no_panic: "no_panic (vec16 e1 e2 d)"
  by (auto simp: vec16_def go_simps Let_def)

lemma keyShareList_no_panic: "no_panic (keyShareList d)"
  by (induction d rule: keyShareList.induct)
    (subst keyShareList.simps, auto simp: go_simps Let_def)

lemma keyShareExts_no_panic: "no_panic (keyShareExts d)"
  by (induction d rule: keyShareExts.induct)
    (subst keyShareExts.simps,
      auto simp: go_simps Let_def vec16_no_panic keyShareList_no_panic intro!: no_panic_bind)

lemma ExtractX25519_no_panic: "no_panic (ExtractX25519FromKeyShare d)"
  by (auto simp: ExtractX25519FromKeyShare_def go_simps clientHelloBody_no_panic skip8_no_panic
      skip16_no_panic vec16_no_panic keyShareExts_no_panic intro!: no_panic_bind)

lemma sniNameList_no_panic: "no_panic (sniNameList d)"
  by (induction d rule: sniNameList.induct)
    (subst sniNameList.simps, auto simp: go_simps Let_def)

lemma sniExts_no_panic: "no_panic (sniExts d)"
  by (induction d rule: sniExts.induct)
    (subst sniExts.simps,
      auto simp: go_simps Let_def vec16_no_panic sniNameList_no_panic intro!: no_panic_bind)

lemma parseSNI_no_panic_server: "no_panic (parseSNIFromClientHello d)"
  by (auto simp: parseSNIFromClientHello_def go_simps Let_def skip8_no_panic
      skip16_no_panic vec16_no_panic sniExts_no_panic intro!: no_panic_bind)

lemma parseSNI_loop_no_panic: "no_panic (parseSNI_loop d p)"
  by (induction d p rule: parseSNI_loop.induct)
    (subst parseSNI_loop.simps, auto simp: go_simps Let_def)

lemma parseSNI_no_panic: "no_panic (parseSNI d)"
  by (auto simp: parseSNI_def go_simps Let_def parseSNI_loop_no_panic)

lemma sniffExts_no_panic: "e \<le> length d \<Longrightarrow> no_panic (sniffExts d e p)"
  by (induction d e p rule: sniffExts.induct)
    (subst sniffExts.simps, auto simp: go_simps Let_def parseSNI_no_panic intro!: no_panic_bind)

lemma parseClientHelloExtensions_no_panic: "no_panic (parseClientHelloExtensions d)"
  by (auto simp: parseClientHelloExtensions_def go_simps Let_def sniffExts_no_panic)

lemma TLSClientHello_no_panic: "no_panic (TLSClientHello d)"
  by (auto simp: TLSClientHello_def go_simps Let_def parseClientHelloExtensions_no_panic)

declare length_greater_0_conv [simp]

section \<open>The wire layout of a ClientHello\<close>

text \<open>The TLS presentation language: vectors with a one or two byte length prefix, a list of
  tagged vectors (extensions and key shares have the same shape), the server name list.\<close>

definition enc_vec8 :: "bytes \<Rightarrow> bytes" where
  "enc_vec8 xs = word_of_nat (length xs) # xs"

definition enc_vec16 :: "bytes \<Rightarrow> bytes" where
  "enc_vec16 xs = put16 (length xs) @ xs"

definition enc_tagged :: "(nat \<times> bytes) list \<Rightarrow> bytes" where
  "enc_tagged es = concat (map (\<lambda>(t, b). put16 t @ enc_vec16 b) es)"

definition enc_names :: "(byte \<times> bytes) list \<Rightarrow> bytes" where
  "enc_names ns = concat (map (\<lambda>(t, b). t # enc_vec16 b) ns)"

record client_hello =
  legacy_version :: nat
  random :: bytes
  session_id :: bytes
  cipher_suites :: bytes
  compression_methods :: bytes
  extensions :: "(nat \<times> bytes) list"

definition enc_body :: "client_hello \<Rightarrow> bytes" where
  "enc_body h = put16 (legacy_version h) @ random h @ enc_vec8 (session_id h) @
     enc_vec16 (cipher_suites h) @ enc_vec8 (compression_methods h) @ enc_vec16 (enc_tagged (extensions h))"

definition enc_handshake :: "client_hello \<Rightarrow> bytes" where
  "enc_handshake h = 1 # put24 (length (enc_body h)) @ enc_body h"

definition enc_record :: "bytes \<Rightarrow> bytes" where
  "enc_record payload = [22, 3, 1] @ put16 (length payload) @ payload"

definition wf_tagged :: "(nat \<times> bytes) list \<Rightarrow> bool" where
  "wf_tagged es = (length (enc_tagged es) < 65536 \<and> (\<forall>(t, b) \<in> set es. t < 65536))"

definition wf_hello :: "client_hello \<Rightarrow> bool" where
  "wf_hello h = (length (random h) = 32 \<and> length (session_id h) < 256 \<and>
     length (cipher_suites h) < 65536 \<and> length (compression_methods h) < 256 \<and> wf_tagged (extensions h))"

subsection \<open>Reading back one vector\<close>

lemma skip8_enc [simp]: "length xs < 256 \<Longrightarrow> skip8 e1 e2 (enc_vec8 xs @ ys) = GoOk ys"
  by (simp add: skip8_def enc_vec8_def go_simps unat_word_of_nat_byte)

lemma skip16_enc [simp]: "length xs < 65536 \<Longrightarrow> skip16 e1 e2 (enc_vec16 xs @ ys) = GoOk ys"
  by (simp add: skip16_def enc_vec16_def put16_def go_simps be_simps)

lemma vec16_enc [simp]: "length xs < 65536 \<Longrightarrow> vec16 e1 e2 (enc_vec16 xs @ ys) = GoOk xs"
  by (simp add: vec16_def enc_vec16_def put16_def go_simps be_simps numeral_2_eq_2)

lemma vec16_enc' [simp]: "length xs < 65536 \<Longrightarrow> vec16 e1 e2 (enc_vec16 xs) = GoOk xs"
  using vec16_enc [of xs e1 e2 "[]"] by simp

subsection \<open>Walking the tagged lists\<close>

lemma drop_head:
  "drop (3 + n) (a # b # c # xs) = drop n xs"
  "drop (4 + n) (a # b # c # d # xs) = drop n xs"
  "drop 3 (a # b # c # xs) = xs"
  "drop 4 (a # b # c # d # xs) = xs"
  by (simp_all add: eval_nat_numeral)

lemma enc_tagged_simps [simp]:
  "enc_tagged [] = []"
  "enc_tagged ((t, b) # es) = put16 t @ enc_vec16 b @ enc_tagged es"
  by (simp_all add: enc_tagged_def)

lemma enc_names_simps [simp]:
  "enc_names [] = []"
  "enc_names ((ty, b) # ns) = ty # enc_vec16 b @ enc_names ns"
  by (simp_all add: enc_names_def)

lemma length_enc_vec16 [simp]: "length (enc_vec16 b) = 2 + length b"
  by (simp add: enc_vec16_def)

lemma wf_tagged_Cons [dest]:
  "wf_tagged ((t, b) # es) \<Longrightarrow> t < 65536 \<and> length b < 65536 \<and> wf_tagged es"
  by (auto simp: wf_tagged_def)

lemma keyShareExts_enc:
  "wf_tagged es \<Longrightarrow> keyShareExts (enc_tagged es) =
    (case find (\<lambda>(t, b). t = 0x0033) es of
       None \<Rightarrow> GoErr ''key_share extension not present''
     | Some (t, b) \<Rightarrow> go_bind (vec16 ''key_share extension empty'' ''key_share list truncated'' b) keyShareList)"
proof (induction es)
  case (Cons e es)
  obtain t b where e: "e = (t, b)" by (cases e)
  with Cons.prems have "t < 65536" "length b < 65536" "wf_tagged es" by auto
  with Cons.IH show ?case
    unfolding e by (subst keyShareExts.simps)
      (simp add: enc_vec16_def put16_def go_simps be_simps drop_head)
qed (subst keyShareExts.simps, simp)

lemma keyShareList_enc:
  "wf_tagged ss \<Longrightarrow> keyShareList (enc_tagged ss) =
    (case find (\<lambda>(g, k). g = 0x001D \<and> length k = 32) ss of
       None \<Rightarrow> GoErr ''key_share has no standalone X25519 entry''
     | Some (g, k) \<Rightarrow> GoOk k)"
proof (induction ss)
  case (Cons e es)
  obtain t b where e: "e = (t, b)" by (cases e)
  with Cons.prems have "t < 65536" "length b < 65536" "wf_tagged es" by auto
  with Cons.IH show ?case
    unfolding e by (subst keyShareList.simps)
      (simp add: enc_vec16_def put16_def go_simps be_simps drop_head Let_def)
qed (subst keyShareList.simps, simp)

lemma sniExts_enc:
  "wf_tagged es \<Longrightarrow> sniExts (enc_tagged es) =
    (case find (\<lambda>(t, b). t = 0) es of
       None \<Rightarrow> GoOk ''''
     | Some (t, b) \<Rightarrow> go_bind (vec16 ''SNI extension empty'' ''SNI list truncated'' b) sniNameList)"
proof (induction es)
  case (Cons e es)
  obtain t b where e: "e = (t, b)" by (cases e)
  with Cons.prems have "t < 65536" "length b < 65536" "wf_tagged es" by auto
  with Cons.IH show ?case
    unfolding e by (subst sniExts.simps)
      (simp add: enc_vec16_def put16_def go_simps be_simps drop_head)
qed (subst sniExts.simps, simp)

lemma sniNameList_enc:
  "length (enc_names ns) < 65536 \<Longrightarrow> sniNameList (enc_names ns) =
    (case find (\<lambda>(ty, b). ty = 0) ns of None \<Rightarrow> GoOk '''' | Some (ty, b) \<Rightarrow> GoOk (str_of_bytes b))"
proof (induction ns)
  case (Cons e es)
  obtain t b where e: "e = (t, b)" by (cases e)
  with Cons show ?case
    by (subst sniNameList.simps)
      (simp add: enc_vec16_def put16_def go_simps be_simps drop_head)
qed (subst sniNameList.simps, simp)

text \<open>The sniffer walks by offset; what lies before the cursor plays no part.\<close>

lemma parseSNI_loop_shift: "parseSNI_loop (pre @ xs) (length pre + p) = parseSNI_loop xs p"
proof (induction xs p rule: parseSNI_loop.induct)
  case (1 xs p)
  then show ?case
    by (subst (1 2) parseSNI_loop.simps)
      (simp add: Let_def idx_shift subslice_shift add.assoc cong: go_bind_cong if_cong)
qed

lemma sniffExts_shift: "sniffExts (pre @ xs) (length pre + e) (length pre + p) = sniffExts xs e p"
proof (induction xs e p rule: sniffExts.induct)
  case (1 xs e p)
  then show ?case
    by (subst (1 2) sniffExts.simps)
      (simp add: Let_def idx_shift subslice_shift add.assoc cong: go_bind_cong if_cong)
qed

definition sniff_name :: "bytes \<Rightarrow> string \<times> bool" where
  "sniff_name b = (let name = to_lower (trim_space (str_of_bytes b)) in
     if name = '''' then ('''', False) else (name, True))"

lemma parseSNI_loop_from: "n = length pre \<Longrightarrow> parseSNI_loop (pre @ xs) n = parseSNI_loop xs 0"
  using parseSNI_loop_shift [of pre xs 0] by simp

lemma sniffExts_from:
  "n = length pre \<Longrightarrow> sniffExts (pre @ xs) (length (pre @ xs)) n = sniffExts xs (length xs) 0"
  using sniffExts_shift [of pre xs "length xs" 0] by simp

lemma parseSNI_loop_enc:
  "length (enc_names ns) < 65536 \<Longrightarrow> parseSNI_loop (enc_names ns) 0 =
    (case find (\<lambda>(ty, b). ty = 0) ns of
       None \<Rightarrow> GoOk ('''', False) | Some (ty, b) \<Rightarrow> GoOk (sniff_name b))"
proof (induction ns)
  case (Cons e es)
  obtain t b where e: "e = (t, b)" by (cases e)
  show ?case
    using Cons parseSNI_loop_from [of "3 + length b" "t # enc_vec16 b" "enc_names es"] unfolding e
    by (subst parseSNI_loop.simps)
      (simp add: enc_vec16_def put16_def go_simps be_simps drop_head Let_def sniff_name_def)
qed (subst parseSNI_loop.simps, simp)

lemma parseSNI_enc:
  "length (enc_names ns) < 65536 \<Longrightarrow> parseSNI (enc_vec16 (enc_names ns)) =
    (case find (\<lambda>(ty, b). ty = 0) ns of
       None \<Rightarrow> GoOk ('''', False) | Some (ty, b) \<Rightarrow> GoOk (sniff_name b))"
  using parseSNI_loop_enc [of ns]
  by (simp add: parseSNI_def enc_vec16_def put16_def go_simps be_simps numeral_2_eq_2)

lemma sniffExts_enc:
  "wf_tagged es \<Longrightarrow> sniffExts (enc_tagged es) (length (enc_tagged es)) 0 =
    (case find (\<lambda>(t, b). t = 0) es of
       None \<Rightarrow> GoOk ('''', False)
     | Some (t, b) \<Rightarrow> go_bind (parseSNI b) (\<lambda>(name, ok). if ok then GoOk (name, True) else GoOk ('''', False)))"
proof (induction es)
  case (Cons e es)
  obtain t b where e: "e = (t, b)" by (cases e)
  with Cons.prems have "t < 65536" "length b < 65536" "wf_tagged es" by auto
  with Cons.IH show ?case
    using sniffExts_from [of "4 + length b" "put16 t @ enc_vec16 b" "enc_tagged es"] unfolding e
    by (subst sniffExts.simps)
      (simp add: enc_vec16_def put16_def go_simps be_simps drop_head Let_def)
qed (subst sniffExts.simps, simp)

subsection \<open>Reading back a whole message\<close>

lemma length_enc_body:
  assumes "wf_hello h"
  shows "length (enc_body h) < 16777216" "34 \<le> length (enc_body h)"
proof -
  have "length (enc_tagged (extensions h)) < 65536"
    using assms by (simp add: wf_hello_def wf_tagged_def)
  moreover have "length (enc_body h) = 40 + length (session_id h) + length (cipher_suites h) +
      length (compression_methods h) + length (enc_tagged (extensions h))"
    using assms by (simp add: wf_hello_def enc_body_def enc_vec8_def)
  ultimately show "length (enc_body h) < 16777216" "34 \<le> length (enc_body h)"
    using assms by (simp_all only: wf_hello_def) linarith+
qed

lemma clientHelloBody_enc: "wf_hello h \<Longrightarrow> clientHelloBody (enc_handshake h) = GoOk (enc_body h)"
  using length_enc_body [of h]
  by (simp add: clientHelloBody_def handshakeBody_def enc_handshake_def put24_def go_simps be_simps
      drop_head)

lemma drop_enc_body:
  "wf_hello h \<Longrightarrow> drop 34 (enc_body h) = enc_vec8 (session_id h) @ enc_vec16 (cipher_suites h) @
     enc_vec8 (compression_methods h) @ enc_vec16 (enc_tagged (extensions h))"
  by (simp add: wf_hello_def enc_body_def put16_def)

lemma ExtractSessionID_enc:
  assumes "wf_hello h"
  shows "ExtractSessionID (enc_handshake h) = GoOk (session_id h)"
proof -
  let ?pre = "1 # put24 (length (enc_body h)) @ put16 (legacy_version h) @ random h"
  let ?post = "enc_vec16 (cipher_suites h) @ enc_vec8 (compression_methods h) @ enc_vec16 (enc_tagged (extensions h))"
  have m: "enc_handshake h = ?pre @ enc_vec8 (session_id h) @ ?post"
    by (simp add: enc_handshake_def enc_body_def)
  have l: "length ?pre = 38" "length (session_id h) < 256"
    using assms by (simp_all add: wf_hello_def)
  have "(idx (enc_handshake h) 38 :: (string, byte) gores) = GoOk (word_of_nat (length (session_id h)))"
    unfolding m using l by (subst idx_shift) (simp_all add: enc_vec8_def go_simps)
  moreover have "(subslice (enc_handshake h) 39 (39 + length (session_id h)) :: (string, bytes) gores) = GoOk (session_id h)"
    unfolding m using l by (subst subslice_shift) (simp_all add: enc_vec8_def go_simps)
  moreover have "(idx (enc_handshake h) 0 :: (string, byte) gores) = GoOk 1" "39 + length (session_id h) \<le> length (enc_handshake h)"
    using l unfolding m by (simp_all add: go_simps enc_vec8_def)
  ultimately show ?thesis
    using l by (simp add: ExtractSessionID_def unat_word_of_nat_byte)
qed

lemma idx_at: "p = length pre \<Longrightarrow> idx (pre @ x # ys) p = GoOk x"
  by (simp add: go_simps)

lemma idx_at_Suc: "p = Suc (length pre) \<Longrightarrow> idx (pre @ x # y # ys) p = GoOk y"
  by (simp add: go_simps nth_append)

text \<open>Where the fields of a message stand, by offset from the start of its body.\<close>

lemma enc_body_layout:
  fixes h :: client_hello
  assumes "wf_hello h"
  defines "es \<equiv> enc_tagged (extensions h)"
    and "n \<equiv> length (session_id h)" and "c \<equiv> length (cipher_suites h)" and "m \<equiv> length (compression_methods h)"
  shows "(idx (enc_body h) 34 :: (string, byte) gores) = GoOk (word_of_nat n)"
    "(idx (enc_body h) (35 + n) :: (string, byte) gores) = GoOk (word_of_nat (drop_bit 8 c))"
    "(idx (enc_body h) (36 + n) :: (string, byte) gores) = GoOk (word_of_nat c)"
    "(idx (enc_body h) (37 + n + c) :: (string, byte) gores) = GoOk (word_of_nat m)"
    "(idx (enc_body h) (38 + n + c + m) :: (string, byte) gores) = GoOk (word_of_nat (drop_bit 8 (length es)))"
    "(idx (enc_body h) (39 + n + c + m) :: (string, byte) gores) = GoOk (word_of_nat (length es))"
    "length (enc_body h) = 40 + n + c + m + length es"
    "\<exists>pre. enc_body h = pre @ es \<and> length pre = 40 + n + c + m"
    "length es < 65536" "n < 256" "c < 65536" "m < 256"
proof -
  define p1 where "p1 = put16 (legacy_version h) @ random h"
  define p2 where "p2 = p1 @ enc_vec8 (session_id h)"
  define p3 where "p3 = p2 @ enc_vec16 (cipher_suites h)"
  define p4 where "p4 = p3 @ enc_vec8 (compression_methods h)"
  note defs = n_def c_def m_def es_def
  have len: "length p1 = 34" "length p2 = 35 + n" "length p3 = 37 + n + c" "length p4 = 38 + n + c + m"
    using assms(1) by (simp_all add: p1_def p2_def p3_def p4_def wf_hello_def enc_vec8_def defs)
  have b: "enc_body h = p1 @ word_of_nat n # session_id h @ enc_vec16 (cipher_suites h) @ enc_vec8 (compression_methods h) @ enc_vec16 es"
     "enc_body h = p2 @ word_of_nat (drop_bit 8 c) # word_of_nat c # cipher_suites h @ enc_vec8 (compression_methods h) @ enc_vec16 es"
     "enc_body h = p3 @ word_of_nat m # compression_methods h @ enc_vec16 es"
     "enc_body h = p4 @ word_of_nat (drop_bit 8 (length es)) # word_of_nat (length es) # es"
    by (simp_all add: enc_body_def p1_def p2_def p3_def p4_def enc_vec8_def enc_vec16_def put16_def defs)
  show "length es < 65536" "n < 256" "c < 65536" "m < 256"
    using assms(1) by (simp_all add: wf_hello_def wf_tagged_def defs)
  show "(idx (enc_body h) 34 :: (string, byte) gores) = GoOk (word_of_nat n)" by (subst b(1), rule idx_at, simp add: len)
  show "(idx (enc_body h) (35 + n) :: (string, byte) gores) = GoOk (word_of_nat (drop_bit 8 c))" by (subst b(2), rule idx_at, simp add: len)
  show "(idx (enc_body h) (36 + n) :: (string, byte) gores) = GoOk (word_of_nat c)" by (subst b(2), rule idx_at_Suc, simp add: len)
  show "(idx (enc_body h) (37 + n + c) :: (string, byte) gores) = GoOk (word_of_nat m)" by (subst b(3), rule idx_at, simp add: len)
  show "(idx (enc_body h) (38 + n + c + m) :: (string, byte) gores) = GoOk (word_of_nat (drop_bit 8 (length es)))"
    by (subst b(4), rule idx_at, simp add: len)
  show "(idx (enc_body h) (39 + n + c + m) :: (string, byte) gores) = GoOk (word_of_nat (length es))"
    by (subst b(4), rule idx_at_Suc, simp add: len)
  show "length (enc_body h) = 40 + n + c + m + length es" by (simp add: b(4) len)
  show "\<exists>pre. enc_body h = pre @ es \<and> length pre = 40 + n + c + m"
    using b(4) len by (intro exI [of _ "p4 @ put16 (length es)"]) (simp add: put16_def)
qed

lemma parseClientHelloExtensions_enc:
  assumes "wf_hello h"
  shows "parseClientHelloExtensions (enc_body h) =
    sniffExts (enc_tagged (extensions h)) (length (enc_tagged (extensions h))) 0"
proof -
  note l = enc_body_layout [OF assms]
  obtain pre where pre: "enc_body h = pre @ enc_tagged (extensions h)"
    "length pre = 40 + length (session_id h) + length (cipher_suites h) + length (compression_methods h)"
    using l(8) by blast
  have "sniffExts (enc_body h) (length (enc_body h)) (length pre) =
      sniffExts (enc_tagged (extensions h)) (length (enc_tagged (extensions h))) 0"
    unfolding pre(1) by (rule sniffExts_from [OF refl])
  then show ?thesis
    using l(1-7, 9-) pre(2)
    by (simp add: parseClientHelloExtensions_def Let_def unat_word_of_nat_byte be_simps ac_simps)
qed

lemma TLSClientHello_record:
  assumes "4 \<le> length p" and "length p < 65536"
  shows "TLSClientHello (enc_record p) =
    (if p ! 0 \<noteq> 1 then GoOk ('''', False)
     else parseClientHelloExtensions (take (be24 (p ! 1) (p ! 2) (p ! 3)) (drop 4 p)))"
proof -
  have "drop 5 (a # b # c # d # e # xs) = xs" for a b c d e :: byte and xs
    by (simp add: eval_nat_numeral)
  moreover have "p \<noteq> []"
    using assms(1) by auto
  ultimately show ?thesis
    using assms
    by (simp add: TLSClientHello_def enc_record_def put16_def go_simps be_simps Let_def)
qed

lemma TLSClientHello_enc:
  assumes "wf_hello h" and "length (enc_handshake h) < 65536"
  shows "TLSClientHello (enc_record (enc_handshake h)) = parseClientHelloExtensions (enc_body h)"
  using TLSClientHello_record [of "enc_handshake h"] length_enc_body [OF assms(1)] assms(2)
  by (simp add: enc_handshake_def put24_def be_simps drop_head)

lemma auth_parsers_enc:
  assumes "wf_hello h"
    and "find (\<lambda>(t, b). t = 0x0033) (extensions h) = Some (t, enc_vec16 (enc_tagged shares))"
    and "wf_tagged shares"
    and "find (\<lambda>(g, k). g = 0x001D \<and> length k = 32) shares = Some (g, key)"
  shows "ExtractSessionID (enc_handshake h) = GoOk (session_id h) \<and>
         ExtractX25519FromKeyShare (enc_handshake h) = GoOk key"
proof -
  have w: "length (session_id h) < 256" "length (cipher_suites h) < 65536"
      "length (compression_methods h) < 256" "wf_tagged (extensions h)"
      "length (enc_tagged (extensions h)) < 65536" "length (enc_tagged shares) < 65536"
    using assms(1,3) by (simp_all add: wf_hello_def wf_tagged_def)
  show ?thesis
    using assms length_enc_body [OF assms(1)] w
    by (simp add: ExtractSessionID_enc ExtractX25519FromKeyShare_def clientHelloBody_enc
        slice_from_in drop_enc_body keyShareExts_enc keyShareList_enc)
qed

section \<open>Properties\<close>

text \<open>C22. No byte string, however truncated or inconsistent in its length fields, makes any of
  the ClientHello parsers of the program index or slice out of range.\<close>

theorem clienthello_parsers_never_panic:
  "no_panic (ExtractSessionID d) \<and> no_panic (ExtractX25519FromKeyShare d) \<and>
   no_panic (parseSNIFromClientHello d) \<and> no_panic (TLSClientHello d)"
  by (simp add: ExtractSessionID_no_panic ExtractX25519_no_panic parseSNI_no_panic_server
      TLSClientHello_no_panic)

text \<open>C21. On every well-formed ClientHello message the authentication parsers read back the
  session identifier that was sent and the first standalone X25519 share of the first
  \<open>key_share\<close> extension, whatever other extensions and (hybrid) shares surround it.\<close>

theorem auth_parsers_read_back:
  assumes "wf_hello h"
    and "find (\<lambda>(t, b). t = 0x0033) (extensions h) = Some (t, enc_vec16 (enc_tagged shares))"
    and "wf_tagged shares"
    and "find (\<lambda>(g, k). g = 0x001D \<and> length k = 32) shares = Some (g, key)"
  shows "ExtractSessionID (enc_handshake h) = GoOk (session_id h) \<and>
         ExtractX25519FromKeyShare (enc_handshake h) = GoOk key"
  using auth_parsers_enc [OF assms] .

definition sample_hello :: client_hello where
  "sample_hello = \<lparr> legacy_version = 0x0303, random = replicate 32 7, session_id = replicate 32 9,
     cipher_suites = [0x13, 0x01], compression_methods = [0],
     extensions = [(10, [0, 2, 0, 29]), (0, enc_vec16 (enc_names [(0, bytes_of_str ''Ya.RU'')])),
       (0x33, enc_vec16 (enc_tagged [(0x11EC, [1, 2, 3]), (0x1D, replicate 32 5)]))] \<rparr>"

theorem auth_parsers_read_back_witness:
  "ExtractSessionID (enc_handshake sample_hello) = GoOk (replicate 32 9) \<and>
   ExtractX25519FromKeyShare (enc_handshake sample_hello) = GoOk (replicate 32 5)"
  using auth_parsers_read_back [of sample_hello 51 "[(0x11EC, [1, 2, 3]), (0x1D, replicate 32 5)]" 29 "replicate 32 5"]
  by (simp add: sample_hello_def wf_hello_def wf_tagged_def enc_names_def)



end
