(* ===== verification/SessionAuth.thy ===== *)
theory SessionAuth
  imports Prelude
begin

text \<open>
  pkg/tamizdat/auth.go: key derivation and the authenticated SessionID. The primitives the file
  calls are arguments: \<open>hmac\<close> (HMAC-SHA256), \<open>hkdf\<close> (HKDF-SHA256 read for 32 bytes, \<open>None\<close> when the
  reader fails), \<open>x25519\<close> (\<open>priv.ECDH(pub)\<close> with the key parsing before it, \<open>None\<close> on any of its
  errors) and \<open>pubkey\<close>. A \<open>[8]byte\<close> short identifier is a byte list of length 8.
\<close>

definition authLabel :: bytes where
  "authLabel = bytes_of_str ''TAMIZDAT v1''"

definition sessionIDVersionV1 :: byte where "sessionIDVersionV1 = 0x01"
definition sessionIDVersionV2 :: byte where "sessionIDVersionV2 = 0x02"

section \<open>Key derivation\<close>

definition ECDHSharedSecret ::
  "(bytes \<Rightarrow> bytes \<Rightarrow> bytes option) \<Rightarrow> bytes \<Rightarrow> bytes \<Rightarrow> (string, bytes) gores" where
  "ECDHSharedSecret x25519 privateKey peerPublicKey =
    (if length privateKey \<noteq> 32 then GoErr ''X25519 private key length''
     else if length peerPublicKey \<noteq> 32 then GoErr ''X25519 public key length''
     else case x25519 privateKey peerPublicKey of
       None \<Rightarrow> GoErr ''X25519 ECDH'' | Some shared \<Rightarrow> GoOk shared)"

definition derivePSK ::
  "(bytes \<Rightarrow> bytes \<Rightarrow> bytes \<Rightarrow> bytes option) \<Rightarrow> bytes \<Rightarrow> bytes \<Rightarrow> (string, bytes) gores" where
  "derivePSK hkdf sharedSecret shortID =
    (if length sharedSecret \<noteq> 32 then GoErr ''shared secret length''
     else case hkdf sharedSecret shortID authLabel of
       None \<Rightarrow> GoErr ''HKDF failed'' | Some key \<Rightarrow> GoOk key)"

definition DeriveClientPSK where
  "DeriveClientPSK x25519 hkdf ephemeralPrivateKey serverPublicKey shortID =
    go_bind (ECDHSharedSecret x25519 ephemeralPrivateKey serverPublicKey)
      (\<lambda>shared. derivePSK hkdf shared shortID)"

definition DeriveServerPSK where
  "DeriveServerPSK x25519 hkdf serverPrivateKey ephemeralPublicKey shortID =
    go_bind (ECDHSharedSecret x25519 serverPrivateKey ephemeralPublicKey)
      (\<lambda>shared. derivePSK hkdf shared shortID)"

section \<open>Building and verifying a SessionID\<close>

definition sessionIDTag ::
  "(bytes \<Rightarrow> bytes \<Rightarrow> bytes) \<Rightarrow> bytes \<Rightarrow> bytes \<Rightarrow> bytes \<Rightarrow> bytes \<Rightarrow> byte \<Rightarrow> bytes" where
  "sessionIDTag hmac psk shortID nonce ephemeralPublicKey version =
    take 16 (hmac psk ([version] @ shortID @ nonce @ ephemeralPublicKey))"

text \<open>\<open>nonce = None\<close> is Go's nil; then \<open>rand\<close> is what \<open>rand.Reader\<close> delivers (\<open>None\<close>: a read error).\<close>

definition buildSessionID ::
  "(bytes \<Rightarrow> bytes \<Rightarrow> bytes) \<Rightarrow> bytes option \<Rightarrow> bytes \<Rightarrow> bytes \<Rightarrow> bytes \<Rightarrow> bytes option \<Rightarrow> byte \<Rightarrow> (string, bytes) gores" where
  "buildSessionID hmac rand psk shortID ephemeralPublicKey nonce version =
    (if length psk \<noteq> 32 then GoErr ''PSK length''
     else if length ephemeralPublicKey \<noteq> 32 then GoErr ''ephemeral public key length''
     else go_bind
       (case nonce of
          None \<Rightarrow> (case rand of None \<Rightarrow> GoErr ''generating nonce'' | Some r \<Rightarrow> GoOk r)
        | Some n \<Rightarrow> if length n \<noteq> 8 then GoErr ''nonce length'' else GoOk n)
       (\<lambda>nonceDst. GoOk (shortID @ nonceDst @ sessionIDTag hmac psk shortID nonceDst ephemeralPublicKey version)))"

definition BuildSessionIDv1 where
  "BuildSessionIDv1 hmac rand psk shortID eph nonce = buildSessionID hmac rand psk shortID eph nonce sessionIDVersionV1"

definition BuildSessionIDv2 where
  "BuildSessionIDv2 hmac rand psk shortID eph nonce = buildSessionID hmac rand psk shortID eph nonce sessionIDVersionV2"

definition verifySessionIDExact ::
  "(bytes \<Rightarrow> bytes \<Rightarrow> bytes) \<Rightarrow> bytes \<Rightarrow> bytes \<Rightarrow> bytes \<Rightarrow> bytes \<Rightarrow> byte \<Rightarrow> (string, bool) gores" where
  "verifySessionIDExact hmac sessionID psk ephemeralPublicKey expectedShortID version =
    (if length sessionID \<noteq> 32 then GoOk False
     else if length psk \<noteq> 32 then GoErr ''PSK length''
     else if length ephemeralPublicKey \<noteq> 32 then GoErr ''ephemeral public key length''
     else go_bind (subslice sessionID 0 8) (\<lambda>candidateShortID.
       if candidateShortID \<noteq> expectedShortID then GoOk False
       else go_bind (subslice sessionID 8 16) (\<lambda>nonce. go_bind (slice_from sessionID 16) (\<lambda>tag.
         let expectedTag = sessionIDTag hmac psk candidateShortID nonce ephemeralPublicKey version in
         GoOk (tag = expectedTag)))))"

definition VerifySessionIDv1Single where
  "VerifySessionIDv1Single hmac sessionID psk eph expected = verifySessionIDExact hmac sessionID psk eph expected sessionIDVersionV1"

definition VerifySessionIDv2Single where
  "VerifySessionIDv2Single hmac sessionID psk eph expected = verifySessionIDExact hmac sessionID psk eph expected sessionIDVersionV2"

text \<open>The loop \<open>for v := minAccepted; v <= maxAccepted; v++\<close> over the list of its values.\<close>

primrec verifyVersions ::
  "(bytes \<Rightarrow> bytes \<Rightarrow> bytes) \<Rightarrow> bytes \<Rightarrow> bytes \<Rightarrow> bytes \<Rightarrow> bytes \<Rightarrow> int list \<Rightarrow> (string, byte \<times> bool) gores" where
  "verifyVersions hmac sessionID psk eph expected [] = GoOk (0, False)"
| "verifyVersions hmac sessionID psk eph expected (v # vs) =
    go_bind (verifySessionIDExact hmac sessionID psk eph expected (word_of_int v)) (\<lambda>ok.
      if ok then GoOk (word_of_int v, True) else verifyVersions hmac sessionID psk eph expected vs)"

definition VerifySessionIDAny ::
  "(bytes \<Rightarrow> bytes \<Rightarrow> bytes) \<Rightarrow> bytes \<Rightarrow> bytes \<Rightarrow> bytes \<Rightarrow> bytes \<Rightarrow> int \<Rightarrow> int \<Rightarrow> (string, byte \<times> bool) gores" where
  "VerifySessionIDAny hmac sessionID psk eph expected minAccepted maxAccepted =
    (let lo = (if minAccepted < uint sessionIDVersionV1 then uint sessionIDVersionV1 else minAccepted);
         hi = (if maxAccepted > uint sessionIDVersionV2 then uint sessionIDVersionV2 else maxAccepted) in
     if lo > hi then GoOk (0, False)
     else verifyVersions hmac sessionID psk eph expected [lo..hi])"

primrec shortIDAllowed :: "bytes \<Rightarrow> bytes list \<Rightarrow> bool" where
  "shortIDAllowed candidate [] = False"
| "shortIDAllowed candidate (a # as) = (if candidate = a then True else shortIDAllowed candidate as)"

definition zeroShortID :: bytes where
  "zeroShortID = replicate 8 0"

definition verifySessionIDSlice ::
  "(bytes \<Rightarrow> bytes \<Rightarrow> bytes) \<Rightarrow> bytes \<Rightarrow> bytes \<Rightarrow> bytes \<Rightarrow> bytes list \<Rightarrow> byte \<Rightarrow> (string, bytes \<times> bool) gores" where
  "verifySessionIDSlice hmac sessionID psk ephemeralPublicKey allowedShortIDs version =
    (if length sessionID \<noteq> 32 then GoOk (zeroShortID, False)
     else if length psk \<noteq> 32 then GoErr ''PSK length''
     else if length ephemeralPublicKey \<noteq> 32 then GoErr ''ephemeral public key length''
     else go_bind (subslice sessionID 0 8) (\<lambda>candidateShortID.
       if \<not> shortIDAllowed candidateShortID allowedShortIDs then GoOk (zeroShortID, False)
       else go_bind (subslice sessionID 8 16) (\<lambda>nonce. go_bind (slice_from sessionID 16) (\<lambda>tag.
         let expectedTag = sessionIDTag hmac psk candidateShortID nonce ephemeralPublicKey version in
         if tag \<noteq> expectedTag then GoOk (zeroShortID, False) else GoOk (candidateShortID, True)))))"

definition VerifySessionIDv1 where
  "VerifySessionIDv1 hmac sessionID psk eph allowed = verifySessionIDSlice hmac sessionID psk eph allowed sessionIDVersionV1"

definition VerifySessionIDv1WithServerKey where
  "VerifySessionIDv1WithServerKey hmac x25519 hkdf sessionID serverPrivateKey ephemeralPublicKey allowedShortIDs =
    (if length sessionID \<noteq> 32 then GoOk (zeroShortID, False)
     else go_bind (subslice sessionID 0 8) (\<lambda>candidateShortID.
       go_bind (DeriveServerPSK x25519 hkdf serverPrivateKey ephemeralPublicKey candidateShortID) (\<lambda>psk.
       go_bind (subslice sessionID 8 16) (\<lambda>nonce. go_bind (slice_from sessionID 16) (\<lambda>tag.
         let expectedTag = sessionIDTag hmac psk candidateShortID nonce ephemeralPublicKey sessionIDVersionV1;
             tagOK = (tag = expectedTag);
             allowed = shortIDAllowed candidateShortID allowedShortIDs in
         if \<not> tagOK \<or> \<not> allowed then GoOk (zeroShortID, False) else GoOk (candidateShortID, True))))))"

section \<open>Facts\<close>

lemmas session_parts = subslice_def slice_from_def Let_def

lemma verifySessionIDExact_True:
  "verifySessionIDExact hmac sid psk eph expected v = GoOk True \<longleftrightarrow>
     length sid = 32 \<and> length psk = 32 \<and> length eph = 32 \<and> take 8 sid = expected \<and>
     drop 16 sid = sessionIDTag hmac psk expected (take 8 (drop 8 sid)) eph v"
  by (auto simp: verifySessionIDExact_def session_parts)

lemma verifySessionIDExact_total:
  "length psk = 32 \<Longrightarrow> length eph = 32 \<Longrightarrow> \<exists>b. verifySessionIDExact hmac sid psk eph expected v = GoOk b"
  by (auto simp: verifySessionIDExact_def session_parts)

lemma version_window:
  fixes lo hi :: int
  assumes "1 \<le> lo" "hi \<le> 2" "lo \<le> hi"
  shows "[lo..hi] = [1] \<and> lo = 1 \<and> hi = 1 \<or> [lo..hi] = [1, 2] \<and> lo = 1 \<and> hi = 2 \<or> [lo..hi] = [2] \<and> lo = 2 \<and> hi = 2"
proof -
  have "lo = 1 \<and> hi = 1 \<or> lo = 1 \<and> hi = 2 \<or> lo = 2 \<and> hi = 2"
    using assms by presburger
  then show ?thesis
    by (auto simp: upto.simps)
qed

lemma VerifySessionIDAny_window:
  assumes "max 1 lo \<le> min 2 hi"
  shows "VerifySessionIDAny hmac sid psk eph expected lo hi =
    verifyVersions hmac sid psk eph expected [max 1 lo..min 2 hi]"
  using assms
  by (auto simp: VerifySessionIDAny_def sessionIDVersionV1_def sessionIDVersionV2_def Let_def max_def min_def
      split: if_splits)

lemma verifySessionIDExact_eq:
  "length psk = 32 \<Longrightarrow> length eph = 32 \<Longrightarrow> verifySessionIDExact hmac sid psk eph expected v =
     GoOk (length sid = 32 \<and> take 8 sid = expected \<and>
       drop 16 sid = sessionIDTag hmac psk expected (take 8 (drop 8 sid)) eph v)"
  by (auto simp: verifySessionIDExact_def session_parts)

lemma verifyVersions_sound:
  "verifyVersions hmac sid psk eph expected vs = GoOk (w, True) \<Longrightarrow>
     verifySessionIDExact hmac sid psk eph expected w = GoOk True"
proof (induction vs)
  case (Cons v vs)
  then show ?case
    by (cases "verifySessionIDExact hmac sid psk eph expected (word_of_int v)") (auto split: if_splits)
qed simp

lemma buildSessionID_GoOk:
  assumes "buildSessionID hmac rand psk shortID eph nonce v = GoOk sid"
  obtains n where "sid = shortID @ n @ sessionIDTag hmac psk shortID n eph v"
    and "length psk = 32" and "length eph = 32"
    and "nonce = Some n \<and> length n = 8 \<or> nonce = None \<and> rand = Some n"
  using assms by (auto simp: buildSessionID_def split: if_splits option.splits)

lemma length_sessionIDTag:
  "(\<And>k m. length (hmac k m) = 32) \<Longrightarrow> length (sessionIDTag hmac psk s n e v) = 16"
  by (simp add: sessionIDTag_def)

lemma build_verifies_exact:
  assumes "buildSessionID hmac rand psk shortID eph nonce v = GoOk sid"
    and "length shortID = 8" and "\<And>r. rand = Some r \<Longrightarrow> length r = 8"
    and "\<And>k m. length (hmac k m) = 32"
  shows "verifySessionIDExact hmac sid psk eph shortID v = GoOk True"
proof -
  obtain n where n: "sid = shortID @ n @ sessionIDTag hmac psk shortID n eph v" "length psk = 32"
      "length eph = 32" "length n = 8"
    using assms(1,3) by (elim buildSessionID_GoOk) auto
  then show ?thesis
    using assms(2) length_sessionIDTag [OF assms(4)] by (simp add: verifySessionIDExact_True)
qed

lemma verifyVersions_accepts:
  assumes "verifySessionIDExact hmac sid psk eph expected (word_of_int v) = GoOk True" and "v \<in> set vs"
  shows "\<exists>w \<in> set vs. verifyVersions hmac sid psk eph expected vs = GoOk (word_of_int w, True)"
  using assms(2)
proof (induction vs)
  case (Cons w vs)
  have "length psk = 32" "length eph = 32"
    using assms(1) by (simp_all add: verifySessionIDExact_True)
  then obtain b where b: "verifySessionIDExact hmac sid psk eph expected (word_of_int w) = GoOk b"
    using verifySessionIDExact_total by blast
  show ?case
    using Cons b assms(1) by (cases b) auto
qed simp

lemma VerifySessionIDAny_True_iff:
  "VerifySessionIDAny hmac sid psk eph expected lo hi = GoOk (v, True) \<longleftrightarrow>
     (v = 1 \<or> v = 2) \<and> lo \<le> uint v \<and> uint v \<le> hi \<and>
     length sid = 32 \<and> length psk = 32 \<and> length eph = 32 \<and> take 8 sid = expected \<and>
     drop 16 sid = sessionIDTag hmac psk expected (take 8 (drop 8 sid)) eph v \<and>
     \<not> (v = 2 \<and> lo \<le> 1 \<and> drop 16 sid = sessionIDTag hmac psk expected (take 8 (drop 8 sid)) eph 1)"
    (is "?L \<longleftrightarrow> ?R")
proof (cases "length psk = 32 \<and> length eph = 32 \<and> max 1 lo \<le> min 2 hi")
  case False
  then show ?thesis
    using verifyVersions_sound [of hmac sid psk eph expected "[max 1 lo..min 2 hi]" v]
    by (cases "max 1 lo \<le> min 2 hi")
      (auto simp: VerifySessionIDAny_window verifySessionIDExact_True VerifySessionIDAny_def
        sessionIDVersionV1_def sessionIDVersionV2_def Let_def)
next
  case True
  note eq = verifySessionIDExact_eq [of psk eph hmac sid expected]
  consider "[max 1 lo..min 2 hi] = [1]" "lo \<le> 1" "hi = 1" | "[max 1 lo..min 2 hi] = [1, 2]" "lo \<le> 1" "2 \<le> hi"
    | "[max 1 lo..min 2 hi] = [2]" "lo = 2" "2 \<le> hi"
    using version_window [of "max 1 lo" "min 2 hi"] True by fastforce
  then show ?thesis
    using True by cases (auto simp: VerifySessionIDAny_window eq)
qed

section \<open>Properties\<close>

text \<open>C1. The version-tolerant check accepts exactly the SessionIDs whose tag matches under an
  admitted wire version: the result is \<open>(v, true)\<close> if and only if \<open>v\<close> is 1 or 2, lies in the
  operator's window, all three lengths are right, the first eight bytes are the expected short
  identifier, the tag is the truncated HMAC for \<open>v\<close>, and no lower admitted version matches.\<close>

theorem VerifySessionIDAny_accepts_iff:
  "VerifySessionIDAny hmac sid psk eph expected lo hi = GoOk (v, True) \<longleftrightarrow>
     (v = 1 \<or> v = 2) \<and> lo \<le> uint v \<and> uint v \<le> hi \<and>
     length sid = 32 \<and> length psk = 32 \<and> length eph = 32 \<and> take 8 sid = expected \<and>
     drop 16 sid = sessionIDTag hmac psk expected (take 8 (drop 8 sid)) eph v \<and>
     \<not> (v = 2 \<and> lo \<le> 1 \<and> drop 16 sid = sessionIDTag hmac psk expected (take 8 (drop 8 sid)) eph 1)"
  by (rule VerifySessionIDAny_True_iff)

text \<open>C2. What the client builds, the server accepts. When the primitives behave as documented
  (Diffie-Hellman commutes, HMAC-SHA256 yields 32 bytes, the random reader fills the nonce),
  the server derives the client's key from its own private key and the client's ephemeral public
  key, and the SessionID built with wire version 1 or 2 passes \<open>VerifySessionIDAny\<close> whenever that
  version is in the accepted window.\<close>

theorem client_session_verifies_on_server:
  assumes dh: "x25519 ephPriv (pubkey srvPriv) = x25519 srvPriv (pubkey ephPriv)"
    and len: "length ephPriv = 32" "length srvPriv = 32" "length (pubkey ephPriv) = 32" "length (pubkey srvPriv) = 32"
    and hmac_len: "\<And>k m. length (hmac k m) = 32"
    and rand_len: "\<And>r. rand = Some r \<Longrightarrow> length r = 8"
    and client: "DeriveClientPSK x25519 hkdf ephPriv (pubkey srvPriv) shortID = GoOk psk"
    and build: "buildSessionID hmac rand psk shortID (pubkey ephPriv) nonce v = GoOk sid"
    and v: "v = 1 \<or> v = 2" "lo \<le> uint v" "uint v \<le> hi" and short: "length shortID = 8"
  shows "DeriveServerPSK x25519 hkdf srvPriv (pubkey ephPriv) shortID = GoOk psk \<and>
    (\<exists>w. VerifySessionIDAny hmac sid psk (pubkey ephPriv) shortID lo hi = GoOk (w, True)) \<and>
    take 8 sid = shortID"
proof -
  have "verifySessionIDExact hmac sid psk (pubkey ephPriv) shortID v = GoOk True"
    by (rule build_verifies_exact [OF build short rand_len hmac_len])
  moreover from this have "take 8 sid = shortID"
    by (simp add: verifySessionIDExact_True)
  moreover have "uint v \<in> set [max 1 lo..min 2 hi]" "max 1 lo \<le> min 2 hi"
    using v by auto
  moreover have "DeriveServerPSK x25519 hkdf srvPriv (pubkey ephPriv) shortID = GoOk psk"
    using client dh len by (simp add: DeriveClientPSK_def DeriveServerPSK_def ECDHSharedSecret_def)
  ultimately show ?thesis
    using verifyVersions_accepts [of hmac sid psk "pubkey ephPriv" shortID "uint v" "[max 1 lo..min 2 hi]"]
    by (fastforce simp: VerifySessionIDAny_window)
qed

theorem client_session_verifies_on_server_witness:
  "\<exists>w. VerifySessionIDAny (\<lambda>k m. replicate 32 (foldr (+) (k @ m) 0))
      (replicate 8 3 @ replicate 8 4 @ replicate 16 (foldr (+) (replicate 32 9 @ [2] @ replicate 8 3 @ replicate 8 4 @ replicate 32 1) 0))
      (replicate 32 9) (replicate 32 1) (replicate 8 3) 1 2 = GoOk (w, True)"
  using client_session_verifies_on_server [of "\<lambda>a b. Some (replicate 32 9)" "replicate 32 1" id "replicate 32 2"
      "\<lambda>k m. replicate 32 (foldr (+) (k @ m) 0)" None "\<lambda>s i l. Some s" "replicate 8 3" "replicate 32 9"
      "Some (replicate 8 4)" 2
      "replicate 8 3 @ replicate 8 4 @ replicate 16 (foldr (+) (replicate 32 9 @ [2] @ replicate 8 3 @ replicate 8 4 @ replicate 32 1) 0)" 1 2]
  by (simp add: DeriveClientPSK_def ECDHSharedSecret_def derivePSK_def buildSessionID_def sessionIDTag_def)

text \<open>The allowlist form and the exact form agree: for the slice \<open>[{shortID}]\<close> that the
  server used to pass, \<open>verifySessionIDSlice\<close> accepts exactly when \<open>verifySessionIDExact\<close> does, and
  \<open>VerifySessionIDv1WithServerKey\<close>, which consults the allowlist last, decides as the derivation
  followed by \<open>VerifySessionIDv1\<close> would.\<close>

lemma verify_forms_equivalent:
  assumes "\<And>s i l k. hkdf s i l = Some k \<Longrightarrow> length k = 32"
  shows "verifySessionIDSlice hmac sid psk eph [s] v =
      go_bind (verifySessionIDExact hmac sid psk eph s v) (\<lambda>ok. GoOk (if ok then (s, True) else (zeroShortID, False)))
    \<and> VerifySessionIDv1WithServerKey hmac x25519 hkdf sid srvPriv eph allowed =
      (if length sid \<noteq> 32 then GoOk (zeroShortID, False)
       else go_bind (DeriveServerPSK x25519 hkdf srvPriv eph (take 8 sid))
              (\<lambda>psk. VerifySessionIDv1 hmac sid psk eph allowed))"
proof
  show "verifySessionIDSlice hmac sid psk eph [s] v =
      go_bind (verifySessionIDExact hmac sid psk eph s v) (\<lambda>ok. GoOk (if ok then (s, True) else (zeroShortID, False)))"
    by (auto simp: verifySessionIDSlice_def verifySessionIDExact_def session_parts)
  show "VerifySessionIDv1WithServerKey hmac x25519 hkdf sid srvPriv eph allowed =
      (if length sid \<noteq> 32 then GoOk (zeroShortID, False)
       else go_bind (DeriveServerPSK x25519 hkdf srvPriv eph (take 8 sid))
              (\<lambda>psk. VerifySessionIDv1 hmac sid psk eph allowed))"
    using assms
    by (auto simp: VerifySessionIDv1WithServerKey_def VerifySessionIDv1_def verifySessionIDSlice_def
        session_parts DeriveServerPSK_def ECDHSharedSecret_def derivePSK_def split: option.splits)
qed

lemma verify_forms_equivalent_witness:
  "verifySessionIDSlice (\<lambda>k m. k) (replicate 32 1) (replicate 32 1) (replicate 32 3) [replicate 8 1] 1 =
     GoOk (replicate 8 1, True)"
  using verify_forms_equivalent [of "\<lambda>s i l. Some (replicate 32 0)" "\<lambda>k m. k" "replicate 32 1"
      "replicate 32 1" "replicate 32 3" "replicate 8 1" 1]
  by (simp add: verifySessionIDExact_def sessionIDTag_def subslice_def slice_from_def)

end
