(* ===== verification/GoHeap.thy ===== *)
theory GoHeap
  imports Prelude "HOL-Library.Multiset"
begin

text \<open>
  The part of Go's \<open>container/heap\<close> the program uses: \<open>heap.Push\<close> and \<open>heap.Pop\<close> over a slice, with
  the sift-up and sift-down loops of the library and the client's \<open>Less\<close> as an argument. The
  locale \<open>heap_interface\<close> is the contract a client of the library must meet (\<open>Less\<close> compares by a
  linearly ordered key); under it, pushes and pops keep the heap order and a pop returns a
  least element.
\<close>

definition swap :: "'a list \<Rightarrow> nat \<Rightarrow> nat \<Rightarrow> 'a list" where
  "swap xs i j = xs[i := xs ! j, j := xs ! i]"

text \<open>Go's \<open>(j-1)/2\<close> truncates towards zero, so the parent of slot 0 is slot 0.\<close>

fun heap_up :: "('a \<Rightarrow> 'a \<Rightarrow> bool) \<Rightarrow> 'a list \<Rightarrow> nat \<Rightarrow> 'a list" where
  "heap_up lt h j =
    (let i = (j - 1) div 2 in
     if i = j \<or> \<not> lt (h ! j) (h ! i) then h else heap_up lt (swap h i j) i)"

function heap_down :: "('a \<Rightarrow> 'a \<Rightarrow> bool) \<Rightarrow> 'a list \<Rightarrow> nat \<Rightarrow> nat \<Rightarrow> 'a list" where
  "heap_down lt h i n =
    (let j1 = 2 * i + 1 in
     if n \<le> j1 then h
     else let j2 = j1 + 1;
              j = (if j2 < n \<and> lt (h ! j2) (h ! j1) then j2 else j1) in
       if \<not> lt (h ! j) (h ! i) then h else heap_down lt (swap h i j) j n)"
  by pat_completeness auto
termination
  by (relation "measure (\<lambda>(lt, h, i, n). n - i)") (auto split: if_splits)

declare heap_up.simps [simp del] heap_down.simps [simp del]

definition heap_Push :: "('a \<Rightarrow> 'a \<Rightarrow> bool) \<Rightarrow> 'a list \<Rightarrow> 'a \<Rightarrow> 'a list" where
  "heap_Push lt h x = heap_up lt (h @ [x]) (length h)"

text \<open>\<open>heap.Pop\<close> swaps the root with the last slot, sifts down over the rest and removes the last
  slot; on an empty slice the client's \<open>Pop\<close> indexes \<open>old[-1]\<close> and panics.\<close>

definition heap_Pop :: "('a \<Rightarrow> 'a \<Rightarrow> bool) \<Rightarrow> 'a list \<Rightarrow> (string, 'a \<times> 'a list) gores" where
  "heap_Pop lt h =
    (if h = [] then GoPanic
     else let n = length h - 1; h' = heap_down lt (swap h 0 n) 0 n in GoOk (last h', butlast h'))"

section \<open>Swaps\<close>

lemma length_swap [simp]: "length (swap xs i j) = length xs"
  by (simp add: swap_def)

lemma mset_swap' [simp]: "i < length xs \<Longrightarrow> j < length xs \<Longrightarrow> mset (swap xs i j) = mset xs"
  by (simp add: swap_def mset_swap)

lemma nth_swap:
  "i < length xs \<Longrightarrow> j < length xs \<Longrightarrow> k < length xs \<Longrightarrow>
     swap xs i j ! k = (if k = j then xs ! i else if k = i then xs ! j else xs ! k)"
  by (auto simp: swap_def nth_list_update)

lemma length_heap_up [simp]: "length (heap_up lt h j) = length h"
  by (induction lt h j rule: heap_up.induct) (subst heap_up.simps, simp add: Let_def)

lemma mset_heap_up [simp]: "j < length h \<Longrightarrow> mset (heap_up lt h j) = mset h"
  by (induction lt h j rule: heap_up.induct) (subst heap_up.simps, auto simp: Let_def)

lemma length_heap_down [simp]: "length (heap_down lt h i n) = length h"
  by (induction lt h i n rule: heap_down.induct) (subst heap_down.simps, simp add: Let_def)

lemma mset_heap_down [simp]: "n \<le> length h \<Longrightarrow> mset (heap_down lt h i n) = mset h"
  by (induction lt h i n rule: heap_down.induct) (subst heap_down.simps, auto simp: Let_def)

text \<open>Sifting down below \<open>n\<close> leaves the slots from \<open>n\<close> on alone.\<close>

lemma heap_down_above: "n \<le> k \<Longrightarrow> k < length h \<Longrightarrow> heap_down lt h i n ! k = h ! k"
  by (induction lt h i n rule: heap_down.induct) (subst heap_down.simps, auto simp: Let_def nth_swap)

section \<open>Heap order\<close>

definition heap_ordered :: "('a \<Rightarrow> 'k::linorder) \<Rightarrow> 'a list \<Rightarrow> nat \<Rightarrow> bool" where
  "heap_ordered key h n = (\<forall>i. 0 < i \<and> i < n \<longrightarrow> key (h ! ((i - 1) div 2)) \<le> key (h ! i))"

lemma heap_ordered_root:
  assumes "heap_ordered key h n" and "i < n"
  shows "key (h ! 0) \<le> key (h ! i)"
  using assms(2)
proof (induction i rule: less_induct)
  case (less i)
  show ?case
  proof (cases "i = 0")
    case False
    then have "key (h ! 0) \<le> key (h ! ((i - 1) div 2))"
      using less by (intro less.IH) auto
    also have "\<dots> \<le> key (h ! i)"
      using assms(1) less.prems False by (auto simp: heap_ordered_def)
    finally show ?thesis .
  qed simp
qed

locale heap_interface =
  fixes lt :: "'a \<Rightarrow> 'a \<Rightarrow> bool" and key :: "'a \<Rightarrow> 'k::linorder"
  assumes lt_key: "lt a b = (key a < key b)"
begin

lemma up_ordered:
  assumes "j < length h"
    and "\<And>i. 0 < i \<Longrightarrow> i < length h \<Longrightarrow> i \<noteq> j \<Longrightarrow> key (h ! ((i - 1) div 2)) \<le> key (h ! i)"
    and "\<And>c. 0 < c \<Longrightarrow> c < length h \<Longrightarrow> (c - 1) div 2 = j \<Longrightarrow> 0 < j \<Longrightarrow> key (h ! ((j - 1) div 2)) \<le> key (h ! c)"
  shows "heap_ordered key (heap_up lt h j) (length h)"
  using assms
proof (induction j arbitrary: h rule: less_induct)
  case (less j)
  define p where "p = (j - 1) div 2"
  show ?case
  proof (cases "p = j \<or> \<not> lt (h ! j) (h ! p)")
    case True
    then have "heap_up lt h j = h"
      by (subst heap_up.simps) (auto simp: p_def)
    moreover have "key (h ! ((j - 1) div 2)) \<le> key (h ! j)"
      using True unfolding p_def [symmetric] by (auto simp: lt_key)
    ultimately show ?thesis
      using less.prems(2) by (auto simp: heap_ordered_def)
  next
    case False
    then have p: "p < j" "p < length h"
      using less.prems(1) by (auto simp: p_def)
    have pj: "(j - 1) div 2 = p"
      by (simp add: p_def)
    have gt: "key (h ! j) < key (h ! p)"
      using False by (simp add: lt_key)
    have up: "heap_up lt h j = heap_up lt (swap h p j) p"
      using False by (subst heap_up.simps) (simp add: Let_def pj del: One_nat_def)
    have "heap_ordered key (heap_up lt (swap h p j) p) (length (swap h p j))"
    proof (rule less.IH)
      fix i assume i: "0 < i" "i < length (swap h p j)" "i \<noteq> p"
      have "i \<noteq> j \<Longrightarrow> key (h ! ((i - 1) div 2)) \<le> key (h ! i)"
        using i less.prems(2) by simp
      moreover have "(i - 1) div 2 = j \<Longrightarrow> key (h ! p) \<le> key (h ! i)"
        using i p less.prems(3) [of i] pj by simp
      moreover have "(i - 1) div 2 < length h"
        using i by auto
      ultimately show "key (swap h p j ! ((i - 1) div 2)) \<le> key (swap h p j ! i)"
        using i(2,3) p gt less.prems(1) pj
        by (cases "i = j"; cases "(i - 1) div 2 = j"; cases "(i - 1) div 2 = p") (simp_all add: nth_swap)
    next
      fix c assume c: "0 < c" "c < length (swap h p j)" "(c - 1) div 2 = p" "0 < p"
      have "key (h ! ((p - 1) div 2)) \<le> key (h ! p)"
        using c p less.prems(2) [of p] by auto
      moreover have "c \<noteq> j \<Longrightarrow> key (h ! p) \<le> key (h ! c)"
        using c less.prems(2) [of c] by auto
      moreover define g where "g = (p - 1) div 2"
      moreover have "g < p" "c \<noteq> p"
        using c by (auto simp: g_def)
      ultimately show "key (swap h p j ! ((p - 1) div 2)) \<le> key (swap h p j ! c)"
        using c(2) p less.prems(1) unfolding g_def [symmetric]
        by (cases "c = j") (simp_all add: nth_swap)
    qed (use p in simp_all)
    then show ?thesis
      using up by simp
  qed
qed

lemma push_ordered:
  assumes "heap_ordered key h (length h)"
  shows "heap_ordered key (heap_Push lt h x) (Suc (length h))"
proof -
  have "heap_ordered key (heap_up lt (h @ [x]) (length h)) (length (h @ [x]))"
    using assms by (intro up_ordered) (auto simp: heap_ordered_def nth_append)
  then show ?thesis
    by (simp add: heap_Push_def)
qed

lemma down_ordered:
  assumes "n \<le> length h" and "i < n"
    and "\<And>k. 0 < k \<Longrightarrow> k < n \<Longrightarrow> (k - 1) div 2 \<noteq> i \<Longrightarrow> key (h ! ((k - 1) div 2)) \<le> key (h ! k)"
    and "\<And>c. 0 < c \<Longrightarrow> c < n \<Longrightarrow> (c - 1) div 2 = i \<Longrightarrow> 0 < i \<Longrightarrow> key (h ! ((i - 1) div 2)) \<le> key (h ! c)"
  shows "heap_ordered key (heap_down lt h i n) n"
  using assms
proof (induction "n - i" arbitrary: h i rule: less_induct)
  case less
  define j where "j = (if 2 * i + 2 < n \<and> lt (h ! (2 * i + 2)) (h ! (2 * i + 1)) then 2 * i + 2 else 2 * i + 1)"
  have kids: "(k - 1) div 2 = i \<Longrightarrow> 0 < k \<Longrightarrow> k = 2 * i + 1 \<or> k = 2 * i + 2" for k :: nat
    by presburger
  show ?case
  proof (cases "n \<le> 2 * i + 1 \<or> \<not> lt (h ! j) (h ! i)")
    case True
    then have "heap_down lt h i n = h"
      by (subst heap_down.simps) (auto simp: Let_def j_def)
    moreover have "key (h ! i) \<le> key (h ! k)" if "(k - 1) div 2 = i" "0 < k" "k < n" for k
      using True kids [OF that(1,2)] that(3) by (auto simp: lt_key j_def split: if_splits)
    ultimately show ?thesis
      using less.prems(3) by (auto simp: heap_ordered_def)
  next
    case False
    then have j: "i < j" "j < n" "(j - 1) div 2 = i" and lt: "key (h ! j) < key (h ! i)"
      by (auto simp: j_def lt_key split: if_splits)
    have sib: "key (h ! j) \<le> key (h ! k)" if "(k - 1) div 2 = i" "0 < k" "k < n" for k
      using kids [OF that(1,2)] that(3) by (auto simp: lt_key j_def split: if_splits)
    have down: "heap_down lt h i n = heap_down lt (swap h i j) j n"
      using False by (subst heap_down.simps) (auto simp: Let_def j_def)
    have len: "i < length h" "j < length h"
      using j less.prems(1,2) by auto
    have "heap_ordered key (heap_down lt (swap h i j) j n) n"
    proof (rule less.hyps)
      fix k assume k: "0 < k" "k < n" "(k - 1) div 2 \<noteq> j"
      have kl: "k < length h" "(k - 1) div 2 < length h"
        using k less.prems(1) by auto
      show "key (swap h i j ! ((k - 1) div 2)) \<le> key (swap h i j ! k)"
      proof (cases "(k - 1) div 2 = i")
        case True
        then show ?thesis
          using sib [OF True k(1,2)] lt kl len j by (auto simp: nth_swap)
      next
        case ne: False
        then have "key (h ! ((k - 1) div 2)) \<le> key (h ! k)"
          using k less.prems(3) by blast
        moreover have "k = i \<Longrightarrow> key (h ! ((k - 1) div 2)) \<le> key (h ! j)"
          using less.prems(4) [of j] j k by auto
        moreover have "k \<noteq> j" using ne j by auto
        ultimately show ?thesis
          using ne k kl len by (auto simp: nth_swap)
      qed
    next
      fix c assume c: "0 < c" "c < n" "(c - 1) div 2 = j" "0 < j"
      then have "key (h ! j) \<le> key (h ! c)"
        using less.prems(3) [of c] j by auto
      moreover have "c \<noteq> i" "c \<noteq> j" using c j by auto
      ultimately show "key (swap h i j ! ((j - 1) div 2)) \<le> key (swap h i j ! c)"
        using c j len less.prems(1) by (auto simp: nth_swap)
    qed (use j less.prems(1,2) in simp_all)
    then show ?thesis
      using down by simp
  qed
qed


lemma pop_down_ordered:
  assumes "heap_ordered key h (length h)" and "h \<noteq> []"
  shows "heap_ordered key (heap_down lt (swap h 0 (length h - 1)) 0 (length h - 1)) (length h - 1)"
proof (cases "length h - 1 = 0")
  case False
  then show ?thesis
    using assms by (intro down_ordered) (auto simp: heap_ordered_def nth_swap)
qed (simp add: heap_ordered_def)

lemma pop_least:
  assumes "heap_ordered key h (length h)" and "h \<noteq> []"
  obtains h' where "heap_Pop lt h = GoOk (h ! 0, h')" and "heap_ordered key h' (length h')"
    and "mset h = add_mset (h ! 0) (mset h')" and "\<And>y. y \<in> set h \<Longrightarrow> key (h ! 0) \<le> key y"
proof -
  let ?n = "length h - 1"
  define d where "d = heap_down lt (swap h 0 ?n) 0 ?n"
  have l: "length d = length h"
    by (simp add: d_def)
  have len: "length d = length h" "d \<noteq> []"
    using l assms(2) by (metis l length_0_conv)+
  have n: "?n < length h"
    using assms(2) by (cases h) auto
  have "last d = d ! ?n"
    using len by (simp add: last_conv_nth)
  also have "\<dots> = h ! 0"
    using n assms(2) by (simp add: d_def heap_down_above nth_swap)
  finally have last: "last d = h ! 0" .
  have "heap_ordered key (butlast d) (length (butlast d))"
    using pop_down_ordered [OF assms] len by (auto simp: d_def heap_ordered_def nth_butlast)
  moreover have "mset h = add_mset (h ! 0) (mset (butlast d))"
  proof -
    have "mset h = mset d"
      using n assms(2) by (simp add: d_def)
    also have "\<dots> = mset (butlast d @ [last d])"
      using len by simp
    finally show ?thesis
      by (simp add: last)
  qed
  moreover have "heap_Pop lt h = GoOk (h ! 0, butlast d)"
    using assms(2) last by (simp add: heap_Pop_def d_def Let_def)
  moreover have "key (h ! 0) \<le> key y" if "y \<in> set h" for y
    using that heap_ordered_root [OF assms(1)] by (auto simp: in_set_conv_nth)
  ultimately show thesis
    using that by blast
qed

end

end
