(* ===== verification/ReplayGuard.thy ===== *)
theory ReplayGuard
  imports GoHeap
begin

text \<open>
  pkg/tamizdat/replay_guard.go: the sliding window of recently seen replay keys. The Go map
  \<open>seen\<close> is an association list with distinct keys, the eviction heap a slice kept by
  \<open>container/heap\<close>, an instant an integer of nanoseconds (\<open>None\<close> is the zero \<open>time.Time\<close>). The clock
  \<open>g.now()\<close> is an argument of each call, the three expvar counters are fields.
\<close>

type_synonym replayKey = bytes

record replayHeapEntry =
  insertTime :: nanos
  key :: replayKey

record replayGuard =
  seen :: "(replayKey \<times> nanos) list"
  evictionHeap :: "replayHeapEntry list"
  window :: nanos
  hardCap :: int
  lastReap :: "nanos option"
  replayHits :: nat
  replayEvictions :: nat
  replayWindowSize :: nat

definition defaultReplayWindow :: nanos where "defaultReplayWindow = 5 * minute"
definition replayHardCap :: int where "replayHardCap = 65536"

definition Less :: "replayHeapEntry \<Rightarrow> replayHeapEntry \<Rightarrow> bool" where
  "Less a b = (insertTime a < insertTime b)"

definition newReplayGuard :: "nanos \<Rightarrow> replayGuard" where
  "newReplayGuard w = \<lparr> seen = [], evictionHeap = [], window = (if w \<le> 0 then defaultReplayWindow else w),
     hardCap = replayHardCap, lastReap = None, replayHits = 0, replayEvictions = 0, replayWindowSize = 0 \<rparr>"

definition publishWindowSizeLocked :: "replayGuard \<Rightarrow> replayGuard" where
  "publishWindowSizeLocked g = g\<lparr>replayWindowSize := length (seen g)\<rparr>"

lemma heap_Pop_shorter: "heap_Pop lt h = GoOk (x, h') \<Longrightarrow> length h' < length h"
  by (auto simp: heap_Pop_def Let_def split: if_splits simp flip: length_greater_0_conv)

text \<open>The drain of stale heap entries at the end of \<open>reapLocked\<close>.\<close>

function reapHeap :: "nanos \<Rightarrow> nanos \<Rightarrow> replayHeapEntry list \<Rightarrow> (string, replayHeapEntry list) gores" where
  "reapHeap now w h =
    (if h = [] then GoOk h
     else go_bind (idx h 0) (\<lambda>front.
       if now - insertTime front \<le> w then GoOk h
       else go_bind (heap_Pop Less h) (\<lambda>popped. reapHeap now w (snd popped))))"
  by pat_completeness auto
termination
  by (relation "measure (\<lambda>(now, w, h). length h)") (auto dest: heap_Pop_shorter)

definition reapLocked :: "nanos \<Rightarrow> bool \<Rightarrow> replayGuard \<Rightarrow> (string, replayGuard) gores" where
  "reapLocked now throttle g0 =
    (let g = (if window g0 \<le> 0 then g0\<lparr>window := defaultReplayWindow\<rparr> else g0) in
     if throttle \<and> (case lastReap g of None \<Rightarrow> False | Some l \<Rightarrow> now - l \<le> window g div 4) then GoOk g
     else
       let kept = filter (\<lambda>(k, v). \<not> now - v > window g) (seen g);
           evicted = length (seen g) - length kept in
       go_bind (reapHeap now (window g) (evictionHeap g)) (\<lambda>h.
         let g = g\<lparr>seen := kept, evictionHeap := h, lastReap := Some now\<rparr> in
         GoOk (if evicted > 0
           then publishWindowSizeLocked (g\<lparr>replayEvictions := replayEvictions g + evicted\<rparr>)
           else g)))"

function evictLoop ::
  "int \<Rightarrow> (replayKey \<times> nanos) list \<Rightarrow> replayHeapEntry list \<Rightarrow> nat \<Rightarrow>
   (string, (replayKey \<times> nanos) list \<times> replayHeapEntry list \<times> nat) gores" where
  "evictLoop cap sn h evicted =
    (if int (length sn) > cap then
       if length h = 0 then GoOk (sn, h, evicted)
       else go_bind (heap_Pop Less h) (\<lambda>popped. let oldest = fst popped; h' = snd popped in
         case map_of sn (key oldest) of
           None \<Rightarrow> evictLoop cap sn h' evicted
         | Some t \<Rightarrow> if t \<noteq> insertTime oldest then evictLoop cap sn h' evicted
             else evictLoop cap (AList.delete (key oldest) sn) h' (evicted + 1))
     else GoOk (sn, h, evicted))"
  by pat_completeness auto
termination
  by (relation "measure (\<lambda>(cap, sn, h, evicted). length h)") (auto dest: heap_Pop_shorter)

declare reapHeap.simps [simp del] evictLoop.simps [simp del]

definition evictOverCapLocked :: "replayGuard \<Rightarrow> (string, replayGuard) gores" where
  "evictOverCapLocked g0 =
    (let g = (if hardCap g0 \<le> 0 then g0\<lparr>hardCap := replayHardCap\<rparr> else g0) in
     go_bind (evictLoop (hardCap g) (seen g) (evictionHeap g) 0) (\<lambda>(sn, h, evicted).
       let g = g\<lparr>seen := sn, evictionHeap := h\<rparr> in
       GoOk (if evicted > 0 then g\<lparr>replayEvictions := replayEvictions g + evicted\<rparr> else g)))"

definition markSeen :: "nanos \<Rightarrow> replayKey \<Rightarrow> replayGuard \<Rightarrow> (string, replayGuard) gores" where
  "markSeen t k g =
    go_bind (evictOverCapLocked (g\<lparr>seen := AList.update k t (seen g),
        evictionHeap := heap_Push Less (evictionHeap g) \<lparr>insertTime = t, key = k\<rparr>\<rparr>))
      (\<lambda>g. GoOk (publishWindowSizeLocked g))"

definition Seen :: "nanos \<Rightarrow> replayKey \<Rightarrow> replayGuard \<Rightarrow> (string, replayGuard \<times> bool) gores" where
  "Seen now k g =
    go_bind (reapLocked now False g) (\<lambda>g.
      if map_of (seen g) k \<noteq> None then GoOk (g\<lparr>replayHits := replayHits g + 1\<rparr>, True) else GoOk (g, False))"

definition Insert :: "nanos \<Rightarrow> replayKey \<Rightarrow> nanos option \<Rightarrow> replayGuard \<Rightarrow> (string, replayGuard) gores" where
  "Insert now k t g =
    (let t = (case t of None \<Rightarrow> now | Some t \<Rightarrow> t) in
     go_bind (reapLocked t True g) (markSeen t k))"

definition checkKey :: "nanos \<Rightarrow> replayKey \<Rightarrow> replayGuard \<Rightarrow> (string, replayGuard \<times> bool) gores" where
  "checkKey now k g =
    go_bind (reapLocked now False g) (\<lambda>g.
      if map_of (seen g) k \<noteq> None then GoOk (g\<lparr>replayHits := replayHits g + 1\<rparr>, False)
      else go_bind (markSeen now k g) (\<lambda>g. GoOk (g, True)))"

definition legacyReplayKey :: "(bytes \<Rightarrow> bytes) \<Rightarrow> bytes \<Rightarrow> replayKey" where
  "legacyReplayKey sha256 sessionID = take 16 (sha256 sessionID)"

definition guard_size :: "replayGuard option \<Rightarrow> nat" where
  "guard_size g = (case g of None \<Rightarrow> 0 | Some g \<Rightarrow> length (seen g))"

text \<open>\<open>checkV1\<close> and \<open>check\<close> on a possibly nil guard.\<close>

definition checkV1 :: "nanos \<Rightarrow> replayKey \<Rightarrow> replayGuard option \<Rightarrow> (string, replayGuard option \<times> bool) gores" where
  "checkV1 now k g = (case g of None \<Rightarrow> GoOk (None, True)
     | Some g \<Rightarrow> go_bind (checkKey now k g) (\<lambda>(g, ok). GoOk (Some g, ok)))"

definition check_legacy ::
  "(bytes \<Rightarrow> bytes) \<Rightarrow> nanos \<Rightarrow> bytes \<Rightarrow> replayGuard option \<Rightarrow> (string, replayGuard option \<times> bool) gores" where
  "check_legacy sha256 now sessionID g = checkV1 now (legacyReplayKey sha256 sessionID) g"

interpretation rheap: heap_interface Less insertTime
  by unfold_locales (simp add: Less_def)

section \<open>Invariant\<close>

definition guard_wf :: "replayGuard \<Rightarrow> bool" where
  "guard_wf g = (distinct (map fst (seen g)) \<and>
     heap_ordered insertTime (evictionHeap g) (length (evictionHeap g)) \<and>
     (\<forall>(k, t) \<in> set (seen g). \<lparr>insertTime = t, key = k\<rparr> \<in> set (evictionHeap g)) \<and>
     0 < window g \<and> 0 < hardCap g \<and> int (length (seen g)) \<le> hardCap g)"

lemma newReplayGuard_wf: "guard_wf (newReplayGuard w)"
  by (simp add: guard_wf_def newReplayGuard_def heap_ordered_def defaultReplayWindow_def replayHardCap_def
      minute_def second_def)

lemma reapHeap_spec:
  "heap_ordered insertTime h (length h) \<Longrightarrow>
   \<exists>h'. reapHeap now w h = GoOk h' \<and> heap_ordered insertTime h' (length h') \<and>
     set h' = {e \<in> set h. now - insertTime e \<le> w}"
proof (induction now w h rule: reapHeap.induct)
  case (1 now w h)
  show ?case
  proof (cases "h = [] \<or> now - insertTime (h ! 0) \<le> w")
    case True
    then have "reapHeap now w h = GoOk h"
      by (subst reapHeap.simps) (auto simp: go_simps)
    moreover have "now - insertTime e \<le> w" if "e \<in> set h" for e
      using that True heap_ordered_root [OF 1(2)] by (fastforce simp: in_set_conv_nth)
    ultimately show ?thesis
      using 1(2) by auto
  next
    case False
    then obtain h' where h': "heap_Pop Less h = GoOk (h ! 0, h')" "heap_ordered insertTime h' (length h')"
        "mset h = add_mset (h ! 0) (mset h')"
      using rheap.pop_least [OF 1(2)] by metis
    then have "set h = insert (h ! 0) (set h')"
      by (metis set_mset_add_mset_insert set_mset_mset)
    with False h' 1 show ?thesis
      by (subst reapHeap.simps) (auto simp: go_simps)
  qed
qed

lemma reapLocked_spec:
  assumes "guard_wf g"
  obtains g' where "reapLocked now False g = GoOk g'" and "guard_wf g'"
    and "seen g' = filter (\<lambda>(k, v). now - v \<le> window g) (seen g)"
    and "window g' = window g" and "hardCap g' = hardCap g"
proof -
  from assms have h: "heap_ordered insertTime (evictionHeap g) (length (evictionHeap g))"
    by (simp add: guard_wf_def)
  obtain h' where h': "reapHeap now (window g) (evictionHeap g) = GoOk h'"
      "heap_ordered insertTime h' (length h')"
      "set h' = {e \<in> set (evictionHeap g). now - insertTime e \<le> window g}"
    using reapHeap_spec [OF h] by blast
  define kept where "kept = filter (\<lambda>(k, v). now - v \<le> window g) (seen g)"
  have "length kept \<le> length (seen g)"
    by (simp add: kept_def)
  then have len: "int (length kept) \<le> hardCap g"
    using assms by (simp add: guard_wf_def)
  have dist: "distinct (map fst kept)"
    using assms by (simp add: kept_def guard_wf_def distinct_map_filter)
  define g0 where "g0 = g\<lparr>seen := kept, evictionHeap := h', lastReap := Some now\<rparr>"
  have wf: "guard_wf g0"
    using assms h' len dist by (auto simp: guard_wf_def g0_def kept_def)
  have w: "\<not> window g \<le> 0"
    using assms by (simp add: guard_wf_def)
  have *: "reapLocked now False g = GoOk (if length (seen g) - length kept > 0
      then publishWindowSizeLocked (g0\<lparr>replayEvictions := replayEvictions g0 + (length (seen g) - length kept)\<rparr>)
      else g0)"
    using w h'(1) by (simp add: reapLocked_def g0_def kept_def Let_def not_less)
  show thesis
    by (rule that [OF *]) (use wf in \<open>simp_all add: g0_def kept_def guard_wf_def publishWindowSizeLocked_def\<close>)
qed

text \<open>Evicting over the cap: the loop keeps the link from \<open>seen\<close> to the heap, never runs dry before
  the cap is met, and never drops an entry while at most \<open>cap\<close> entries are at least as new.\<close>

definition linked :: "(replayKey \<times> nanos) list \<Rightarrow> replayHeapEntry list \<Rightarrow> bool" where
  "linked sn h = (heap_ordered insertTime h (length h) \<and> distinct (map fst sn) \<and>
     (\<forall>k t. (k, t) \<in> set sn \<longrightarrow> \<lparr>insertTime = t, key = k\<rparr> \<in> set h))"

definition newer :: "nanos \<Rightarrow> (replayKey \<times> nanos) list \<Rightarrow> int" where
  "newer t sn = int (length (filter (\<lambda>(k', t'). t \<le> t') sn))"

lemma guard_wf_linked:
  "guard_wf g = (linked (seen g) (evictionHeap g) \<and> 0 < window g \<and> 0 < hardCap g \<and> int (length (seen g)) \<le> hardCap g)"
  by (auto simp: guard_wf_def linked_def)

lemma newer_delete: "newer t (AList.delete k sn) \<le> newer t sn"
proof -
  have "filter (\<lambda>(k', t'). t \<le> t') (AList.delete k sn) =
      filter (\<lambda>p. k \<noteq> fst p) (filter (\<lambda>(k', t'). t \<le> t') sn)"
    by (auto simp: AList.delete_eq intro!: filter_cong)
  then show ?thesis
    unfolding newer_def by (metis length_filter_le of_nat_le_iff)
qed

lemma entry_eq: "\<lparr>insertTime = t, key = k\<rparr> = e \<longleftrightarrow> insertTime e = t \<and> key e = k"
  by (cases e) auto

lemma evict_step:
  assumes l: "linked sn h" and big: "int (length sn) > cap" and cap: "0 < cap"
  obtains sn' h' n' where "evictLoop cap sn h n = evictLoop cap sn' h' n'" and "length h' < length h"
    and "linked sn' h'" and "set sn' \<subseteq> set sn" and "\<And>t. newer t sn' \<le> newer t sn"
    and "\<And>k t. (k, t) \<in> set sn \<Longrightarrow> newer t sn \<le> cap \<Longrightarrow> (k, t) \<in> set sn'"
proof -
  obtain k t where "(k, t) \<in> set sn"
    using big cap by (cases sn) auto
  then have "h \<noteq> []"
    using l by (auto simp: linked_def)
  then obtain h' where h': "heap_Pop Less h = GoOk (h ! 0, h')" "heap_ordered insertTime h' (length h')"
      "mset h = add_mset (h ! 0) (mset h')" "\<And>y. y \<in> set h \<Longrightarrow> insertTime (h ! 0) \<le> insertTime y"
    using rheap.pop_least [of h] l unfolding linked_def by metis
  have sub: "set h = insert (h ! 0) (set h')"
    using h'(3) by (metis set_mset_add_mset_insert set_mset_mset)
  have len: "length h' < length h"
    by (rule heap_Pop_shorter [OF h'(1)])
  let ?hit = "map_of sn (key (h ! 0)) = Some (insertTime (h ! 0))"
  have loop: "evictLoop cap sn h n = (if ?hit then evictLoop cap (AList.delete (key (h ! 0)) sn) h' (n + 1)
      else evictLoop cap sn h' n)"
    using big h'(1) \<open>h \<noteq> []\<close> by (subst evictLoop.simps) (auto simp: Let_def split: option.split)
  show thesis
  proof (cases ?hit)
    case True
    have all: "newer (insertTime (h ! 0)) sn = int (length sn)"
    proof -
      have "insertTime (h ! 0) \<le> t" if "(k, t) \<in> set sn" for k t
        using h'(4) l that by (fastforce simp: linked_def)
      then have "filter (\<lambda>(k', t'). insertTime (h ! 0) \<le> t') sn = sn"
        by (auto simp: filter_id_conv)
      then show ?thesis
        by (simp add: newer_def)
    qed
    show thesis
    proof (rule that)
      show "evictLoop cap sn h n = evictLoop cap (AList.delete (key (h ! 0)) sn) h' (n + 1)"
        using loop True by simp
      show "linked (AList.delete (key (h ! 0)) sn) h'"
        using l h'(2) sub by (auto simp: linked_def set_delete_alist distinct_delete entry_eq)
      show "(k, t) \<in> set (AList.delete (key (h ! 0)) sn)" if "(k, t) \<in> set sn" "newer t sn \<le> cap" for k t
        using that True all big l by (auto simp: set_delete_alist linked_def dest: eq_key_imp_eq_value)
    qed (use len in \<open>auto simp: set_delete_alist newer_delete\<close>)
  next
    case False
    have "linked sn h'"
      using l h'(2) sub False by (auto simp: linked_def entry_eq)
    then show thesis
      using loop False len by (intro that [of sn h' n]) auto
  qed
qed

lemma evictLoop_spec:
  assumes "linked sn h" and "0 < cap"
  shows "\<exists>sn' h' n'. evictLoop cap sn h n = GoOk (sn', h', n') \<and> linked sn' h' \<and>
     int (length sn') \<le> cap \<and> set sn' \<subseteq> set sn \<and> (\<forall>t. newer t sn' \<le> newer t sn) \<and>
     (\<forall>k t. (k, t) \<in> set sn \<longrightarrow> newer t sn \<le> cap \<longrightarrow> (k, t) \<in> set sn')"
  using assms(1)
proof (induction "length h" arbitrary: sn h n rule: less_induct)
  case less
  show ?case
  proof (cases "int (length sn) \<le> cap")
    case True
    then have "evictLoop cap sn h n = GoOk (sn, h, n)"
      by (subst evictLoop.simps) simp
    then show ?thesis
      using True less.prems by auto
  next
    case False
    then obtain sn1 h1 n1 where s: "evictLoop cap sn h n = evictLoop cap sn1 h1 n1" "length h1 < length h"
        "linked sn1 h1" "set sn1 \<subseteq> set sn" "\<And>t. newer t sn1 \<le> newer t sn"
        "\<And>k t. (k, t) \<in> set sn \<Longrightarrow> newer t sn \<le> cap \<Longrightarrow> (k, t) \<in> set sn1"
      using evict_step [OF less.prems _ assms(2)] by (metis not_le)
    show ?thesis
      using less.hyps [OF s(2,3), of n1] s(1,4,5,6) by (fastforce intro: order_trans)
  qed
qed

lemma linked_push:
  assumes "linked sn h"
  shows "linked (AList.update k t sn) (heap_Push Less h \<lparr>insertTime = t, key = k\<rparr>)" (is "linked _ ?h")
proof -
  have "mset ?h = add_mset \<lparr>insertTime = t, key = k\<rparr> (mset h)"
    by (simp add: heap_Push_def)
  then have "set ?h = insert \<lparr>insertTime = t, key = k\<rparr> (set h)"
    by (metis set_mset_add_mset_insert set_mset_mset)
  moreover have "length ?h = Suc (length h)"
    by (simp add: heap_Push_def)
  ultimately show ?thesis
    using assms rheap.push_ordered [of h] distinct_update [of sn k t]
    by (auto simp: linked_def set_update_alist)
qed

lemma markSeen_eval:
  assumes "0 < hardCap g"
    and "evictLoop (hardCap g) (AList.update k t (seen g)) (heap_Push Less (evictionHeap g) \<lparr>insertTime = t, key = k\<rparr>) 0
      = GoOk (sn, h, n)"
  obtains e where "markSeen t k g = GoOk (publishWindowSizeLocked (g\<lparr>seen := sn, evictionHeap := h, replayEvictions := e\<rparr>))"
proof
  show "markSeen t k g = GoOk (publishWindowSizeLocked (g\<lparr>seen := sn, evictionHeap := h,
      replayEvictions := replayEvictions g + n\<rparr>))"
    using assms by (cases "n > 0") (simp_all add: markSeen_def evictOverCapLocked_def Let_def)
qed

lemma markSeen_wf:
  assumes "guard_wf g"
  shows "\<exists>g'. markSeen t k g = GoOk g' \<and> guard_wf g' \<and> window g' = window g \<and> hardCap g' = hardCap g"
proof -
  have l: "linked (seen g) (evictionHeap g)" and c: "0 < hardCap g"
    using assms by (auto simp: guard_wf_linked)
  obtain sn h n where e: "evictLoop (hardCap g) (AList.update k t (seen g))
      (heap_Push Less (evictionHeap g) \<lparr>insertTime = t, key = k\<rparr>) 0 = GoOk (sn, h, n)"
      "linked sn h" "int (length sn) \<le> hardCap g"
    using evictLoop_spec [OF linked_push [OF l] c] by metis
  obtain x where "markSeen t k g = GoOk (publishWindowSizeLocked (g\<lparr>seen := sn, evictionHeap := h, replayEvictions := x\<rparr>))"
    by (rule markSeen_eval [OF c e(1)])
  then show ?thesis
    using e(2,3) assms by (simp add: guard_wf_linked publishWindowSizeLocked_def)
qed

lemma markSeen_spec:
  assumes wf: "guard_wf g" and new: "map_of (seen g) k = None"
  obtains g' where "markSeen t k g = GoOk g'" and "guard_wf g'" and "window g' = window g"
    and "hardCap g' = hardCap g" and "\<And>s. newer s (seen g') \<le> newer s (seen g) + (if s \<le> t then 1 else 0)"
    and "\<And>k' s. (k', s) \<in> set ((k, t) # seen g) \<Longrightarrow>
      newer s (seen g) + (if s \<le> t then 1 else 0) \<le> hardCap g \<Longrightarrow> (k', s) \<in> set (seen g')"
proof -
  define h where "h = heap_Push Less (evictionHeap g) \<lparr>insertTime = t, key = k\<rparr>"
  have upd: "AList.update k t (seen g) = seen g @ [(k, t)]"
    by (rule update_new [OF new])
  have c: "0 < hardCap g" and "linked (seen g) (evictionHeap g)"
    using wf by (simp_all add: guard_wf_linked)
  then have l: "linked (seen g @ [(k, t)]) h"
    using linked_push [of "seen g" "evictionHeap g" k t] by (simp add: upd h_def)
  obtain sn' h' n where e: "evictLoop (hardCap g) (seen g @ [(k, t)]) h 0 = GoOk (sn', h', n)" "linked sn' h'"
      "int (length sn') \<le> hardCap g" "set sn' \<subseteq> set (seen g @ [(k, t)])" "\<And>s. newer s sn' \<le> newer s (seen g @ [(k, t)])"
      "\<And>k' s. (k', s) \<in> set (seen g @ [(k, t)]) \<Longrightarrow> newer s (seen g @ [(k, t)]) \<le> hardCap g \<Longrightarrow> (k', s) \<in> set sn'"
    using evictLoop_spec [OF l, of "hardCap g" 0] wf unfolding guard_wf_def by metis
  have nw: "newer s (seen g @ [(k, t)]) = newer s (seen g) + (if s \<le> t then 1 else 0)" for s
    by (simp add: newer_def)
  have "evictLoop (hardCap g) (AList.update k t (seen g))
      (heap_Push Less (evictionHeap g) \<lparr>insertTime = t, key = k\<rparr>) 0 = GoOk (sn', h', n)"
    using e(1) by (simp add: upd h_def)
  then obtain x where m: "markSeen t k g = GoOk (publishWindowSizeLocked (g\<lparr>seen := sn', evictionHeap := h', replayEvictions := x\<rparr>))"
    by (rule markSeen_eval [OF c])
  show thesis
  proof (rule that [OF m])
    show "newer s (seen (publishWindowSizeLocked (g\<lparr>seen := sn', evictionHeap := h', replayEvictions := x\<rparr>))) \<le>
        newer s (seen g) + (if s \<le> t then 1 else 0)" for s
      using e(5) [of s] nw [of s] by (simp add: publishWindowSizeLocked_def)
    show "(k', s) \<in> set (seen (publishWindowSizeLocked (g\<lparr>seen := sn', evictionHeap := h', replayEvictions := x\<rparr>)))"
      if "(k', s) \<in> set ((k, t) # seen g)" "newer s (seen g) + (if s \<le> t then 1 else 0) \<le> hardCap g" for k' s
      using e(6) [of k' s] that nw [of s] by (auto simp: publishWindowSizeLocked_def)
  qed (use e(2,3) wf in \<open>simp_all add: publishWindowSizeLocked_def guard_wf_linked\<close>)
qed

lemma checkKey_spec:
  assumes wf: "guard_wf g"
  obtains g' ok where "checkKey now k g = GoOk (g', ok)" and "guard_wf g'"
    and "ok = (\<not> (\<exists>t. (k, t) \<in> set (seen g) \<and> now - t \<le> window g))"
    and "window g' = window g" and "hardCap g' = hardCap g"
    and "\<And>s. newer s (seen g') \<le> newer s (seen g) + 1"
    and "\<And>k' s. (k', s) \<in> set (seen g) \<Longrightarrow> now - s \<le> window g \<Longrightarrow> newer s (seen g) < hardCap g \<Longrightarrow>
      (k', s) \<in> set (seen g')"
    and "ok \<Longrightarrow> newer now (seen g) < hardCap g \<Longrightarrow> (k, now) \<in> set (seen g')"
proof -
  obtain g1 where g1: "reapLocked now False g = GoOk g1" "guard_wf g1"
      "seen g1 = filter (\<lambda>(k, v). now - v \<le> window g) (seen g)" "window g1 = window g" "hardCap g1 = hardCap g"
    using reapLocked_spec [OF wf] by blast
  have nw: "newer s (seen g1) \<le> newer s (seen g)" for s
    unfolding newer_def g1(3) filter_filter by (simp add: conj_commute flip: filter_filter)
  have known: "map_of (seen g1) k \<noteq> None \<longleftrightarrow> (\<exists>t. (k, t) \<in> set (seen g) \<and> now - t \<le> window g)"
    by (force simp: g1(3) map_of_eq_None_iff)
  show thesis
  proof (cases "map_of (seen g1) k = None")
    case False
    show thesis
    proof (rule that [of "g1\<lparr>replayHits := replayHits g1 + 1\<rparr>" False])
      show "checkKey now k g = GoOk (g1\<lparr>replayHits := replayHits g1 + 1\<rparr>, False)"
        using g1(1) False by (simp add: checkKey_def)
      show "newer s (seen (g1\<lparr>replayHits := replayHits g1 + 1\<rparr>)) \<le> newer s (seen g) + 1" for s
        using nw [of s] by simp
    qed (use g1 known False in \<open>auto simp: guard_wf_def\<close>)
  next
    case True
    obtain g2 where g2: "markSeen now k g1 = GoOk g2" "guard_wf g2" "window g2 = window g1"
      "hardCap g2 = hardCap g1" "\<And>s. newer s (seen g2) \<le> newer s (seen g1) + (if s \<le> now then 1 else 0)"
      "\<And>k' s. (k', s) \<in> set ((k, now) # seen g1) \<Longrightarrow>
        newer s (seen g1) + (if s \<le> now then 1 else 0) \<le> hardCap g1 \<Longrightarrow> (k', s) \<in> set (seen g2)"
      using markSeen_spec [OF g1(2) True] by metis
    show thesis
    proof (rule that [of g2 True])
      show "checkKey now k g = GoOk (g2, True)"
        using g1(1) g2(1) True by (simp add: checkKey_def)
      show "newer s (seen g2) \<le> newer s (seen g) + 1" for s
        using g2(5) [of s] nw [of s] by (simp split: if_splits)
      show "(k', s) \<in> set (seen g2)" if "(k', s) \<in> set (seen g)" "now - s \<le> window g" "newer s (seen g) < hardCap g" for k' s
        using that g2(6) [of k' s] nw [of s] g1 by (simp split: if_splits)
      show "(k, now) \<in> set (seen g2)" if "newer now (seen g) < hardCap g"
        using that g2(6) [of k now] nw [of now] g1 by simp
    qed (use g1 g2 known True in auto)
  qed
qed

lemma reapLocked_any:
  assumes "guard_wf g"
  shows "\<exists>g'. reapLocked now th g = GoOk g' \<and> guard_wf g' \<and> window g' = window g \<and> hardCap g' = hardCap g"
proof -
  obtain g' where "reapLocked now False g = GoOk g'" "guard_wf g'" "window g' = window g" "hardCap g' = hardCap g"
    using reapLocked_spec [OF assms] by metis
  moreover have "reapLocked now th g = GoOk g \<or> reapLocked now th g = reapLocked now False g"
    using assms by (simp add: reapLocked_def guard_wf_def)
  ultimately show ?thesis
    using assms by auto
qed

section \<open>Runs of the guard\<close>

inductive guard_reach :: "nanos \<Rightarrow> replayGuard \<Rightarrow> bool" for w :: nanos where
  start: "guard_reach w (newReplayGuard w)"
| seen: "guard_reach w g \<Longrightarrow> Seen now k g = GoOk (g', hit) \<Longrightarrow> guard_reach w g'"
| insert: "guard_reach w g \<Longrightarrow> Insert now k t g = GoOk g' \<Longrightarrow> guard_reach w g'"
| check: "guard_reach w g \<Longrightarrow> checkKey now k g = GoOk (g', fresh) \<Longrightarrow> guard_reach w g'"

primrec run_checks :: "replayGuard \<Rightarrow> (nanos \<times> replayKey) list \<Rightarrow> (string, replayGuard) gores" where
  "run_checks g [] = GoOk g"
| "run_checks g (c # cs) = go_bind (checkKey (fst c) (snd c) g) (\<lambda>r. run_checks (fst r) cs)"

lemma Seen_wf:
  assumes "guard_wf g"
  shows "\<exists>g' hit. Seen now k g = GoOk (g', hit) \<and> guard_wf g' \<and> window g' = window g \<and> hardCap g' = hardCap g"
  using reapLocked_any [OF assms, of now False] by (auto simp: Seen_def guard_wf_def)

lemma Insert_wf:
  assumes "guard_wf g"
  shows "\<exists>g'. Insert now k t g = GoOk g' \<and> guard_wf g' \<and> window g' = window g \<and> hardCap g' = hardCap g"
proof -
  define s where "s = (case t of None \<Rightarrow> now | Some t \<Rightarrow> t)"
  obtain g1 where "reapLocked s True g = GoOk g1" "guard_wf g1" "window g1 = window g" "hardCap g1 = hardCap g"
    using reapLocked_any [OF assms, of s True] by blast
  then show ?thesis
    using markSeen_wf [of g1 s k] by (auto simp: Insert_def s_def)
qed

lemma guard_reach_wf:
  "guard_reach w g \<Longrightarrow> guard_wf g \<and> window g = (if w \<le> 0 then defaultReplayWindow else w) \<and> hardCap g = replayHardCap"
proof (induction rule: guard_reach.induct)
  case start
  then show ?case
    using newReplayGuard_wf by (simp add: newReplayGuard_def)
next
  case (seen g now k g' hit)
  then show ?case using Seen_wf [of g now k] by auto
next
  case (insert g now k t g')
  then show ?case using Insert_wf [of g now k t] by auto
next
  case (check g now k g' fresh)
  then have wf: "guard_wf g" by simp
  show ?case
    by (rule checkKey_spec [OF wf, of now k]) (use check in auto)
qed

lemma run_keeps_entry:
  assumes "guard_wf g" and "(k, t0) \<in> set (seen g)" and "newer t0 (seen g) + int (length cs) \<le> hardCap g"
    and "\<forall>c \<in> set cs. fst c - t0 \<le> window g"
  shows "\<exists>g'. run_checks g cs = GoOk g' \<and> guard_wf g' \<and> (k, t0) \<in> set (seen g') \<and> window g' = window g"
  using assms
proof (induction cs arbitrary: g)
  case (Cons c cs)
  obtain g1 ok where g1: "checkKey (fst c) (snd c) g = GoOk (g1, ok)" "guard_wf g1" "window g1 = window g"
      "hardCap g1 = hardCap g" "\<And>s. newer s (seen g1) \<le> newer s (seen g) + 1"
      "\<And>k' s. (k', s) \<in> set (seen g) \<Longrightarrow> fst c - s \<le> window g \<Longrightarrow> newer s (seen g) < hardCap g \<Longrightarrow> (k', s) \<in> set (seen g1)"
    by (rule checkKey_spec [OF Cons.prems(1), of "fst c" "snd c"]) blast
  have "(k, t0) \<in> set (seen g1)"
    using g1(6) [of k t0] Cons.prems(2-4) by simp
  moreover have "newer t0 (seen g1) + int (length cs) \<le> hardCap g1"
    using g1(4) g1(5) [of t0] Cons.prems(3) by simp
  ultimately show ?case
    using Cons.IH [of g1] Cons.prems(4) g1(1-3) by simp
qed auto

section \<open>Properties\<close>

text \<open>A replayed handshake is refused: once \<open>checkKey\<close> has accepted a key at time \<open>t0\<close>, every
  further \<open>checkKey\<close> of that key at a time at most \<open>window\<close> later reports a replay, whatever other
  handshakes the guard has checked in between, as long as the entries at least as new as \<open>t0\<close>
  stay below the hard cap (each intermediate handshake adds at most one). The intermediate
  calls themselves never fail.\<close>

lemma replay_rejected_within_window:
  assumes "guard_wf g" and "checkKey t0 k g = GoOk (g1, True)"
    and "newer t0 (seen g) + int (length cs) < hardCap g"
    and "\<forall>c \<in> set cs. fst c - t0 \<le> window g" and "t - t0 \<le> window g"
  shows "\<exists>g2 g3. run_checks g1 cs = GoOk g2 \<and> checkKey t k g2 = GoOk (g3, False)"
proof -
  obtain g' ok where g': "checkKey t0 k g = GoOk (g', ok)" "guard_wf g'" "window g' = window g"
      "hardCap g' = hardCap g" "newer t0 (seen g') \<le> newer t0 (seen g) + 1"
      "ok \<Longrightarrow> newer t0 (seen g) < hardCap g \<Longrightarrow> (k, t0) \<in> set (seen g')"
    by (rule checkKey_spec [OF assms(1), of t0 k]) blast
  then have g1: "guard_wf g1" "window g1 = window g" "hardCap g1 = hardCap g" "newer t0 (seen g1) \<le> newer t0 (seen g) + 1"
      "(k, t0) \<in> set (seen g1)"
    using assms(2,3) by simp_all
  have "newer t0 (seen g1) + int (length cs) \<le> hardCap g1"
    using g1(3,4) assms(3) by linarith
  then obtain g2 where g2: "run_checks g1 cs = GoOk g2" "guard_wf g2" "(k, t0) \<in> set (seen g2)" "window g2 = window g1"
    using run_keeps_entry [OF g1(1,5)] assms(4) g1(2) by auto
  obtain g3 ok3 where "checkKey t k g2 = GoOk (g3, ok3)"
      "ok3 = (\<not> (\<exists>t'. (k, t') \<in> set (seen g2) \<and> t - t' \<le> window g2))"
    by (rule checkKey_spec [OF g2(2), of t k]) blast
  then have "\<exists>g3. checkKey t k g2 = GoOk (g3, False)"
    using g2(3,4) g1(2) assms(5) by auto
  with g2(1) show ?thesis
    by blast
qed

lemma replay_rejected_within_window_witness:
  "\<exists>g2 g3. run_checks (fst (case checkKey 10 [1] (newReplayGuard 100) of GoOk r \<Rightarrow> r)) [(20, [2]), (30, [1])] = GoOk g2 \<and>
     checkKey 110 [1] g2 = GoOk (g3, False)"
proof -
  obtain g1 where "checkKey 10 [1] (newReplayGuard 100) = GoOk (g1, True)"
    by (rule checkKey_spec [OF newReplayGuard_wf, of 10 "[1]" 100]) (simp add: newReplayGuard_def)
  then show ?thesis
    using replay_rejected_within_window [OF newReplayGuard_wf, of 10 "[1]" 100 g1 "[(20, [2]), (30, [1])]" 110]
    by (simp add: newReplayGuard_def newer_def replayHardCap_def)
qed

text \<open>A fresh key is never refused: \<open>checkKey\<close> reports a replay exactly when the key is in the
  map with a time at most \<open>window\<close> before now; in particular entries older than the window do not
  block a reconnecting client.\<close>

lemma checkKey_rejects_iff:
  assumes "guard_wf g"
  shows "\<exists>g' ok. checkKey now k g = GoOk (g', ok) \<and>
    (ok = False) = (\<exists>t. map_of (seen g) k = Some t \<and> now - t \<le> window g)"
proof -
  have d: "distinct (map fst (seen g))"
    using assms by (simp add: guard_wf_def)
  show ?thesis
    by (rule checkKey_spec [OF assms, of now k]) (auto simp: map_of_eq_Some_iff [OF d])
qed

lemma checkKey_rejects_iff_witness:
  "\<exists>g' ok. checkKey 10 [1] (newReplayGuard 0) = GoOk (g', ok) \<and> ok"
  using checkKey_rejects_iff [OF newReplayGuard_wf, of 10 "[1]" 0] by (auto simp: newReplayGuard_def)

text \<open>C8. In every state reached by \<open>Seen\<close>, \<open>Insert\<close> (with any timestamps, in any order) and
  \<open>checkKey\<close> from a new guard, the three operations run to completion (no heap underflow), the map
  holds at most 65536 entries, and every map entry is backed by a heap entry with the same time.\<close>

theorem guard_reach_bounded_and_total:
  assumes "guard_reach w g"
  shows "guard_size (Some g) \<le> 65536 \<and>
    (\<forall>k' t'. map_of (seen g) k' = Some t' \<longrightarrow> \<lparr>insertTime = t', key = k'\<rparr> \<in> set (evictionHeap g)) \<and>
    no_panic (Seen now k g) \<and> no_panic (Insert now k t g) \<and> no_panic (checkKey now k g)"
proof -
  have wf: "guard_wf g" and cap: "hardCap g = 65536"
    using guard_reach_wf [OF assms] by (simp_all add: replayHardCap_def)
  have "no_panic (checkKey now k g)"
    by (rule checkKey_spec [OF wf, of now k]) simp
  moreover have "no_panic (Seen now k g)" "no_panic (Insert now k t g)"
    using Seen_wf [OF wf, of now k] Insert_wf [OF wf, of now k t] by auto
  moreover have "\<lparr>insertTime = t', key = k'\<rparr> \<in> set (evictionHeap g)" if "map_of (seen g) k' = Some t'" for k' t'
    using wf map_of_SomeD [OF that] by (auto simp: guard_wf_def)
  ultimately show ?thesis
    using wf cap by (auto simp: guard_wf_def guard_size_def)
qed

theorem guard_reach_bounded_and_total_witness:
  "guard_size (Some (newReplayGuard 5)) \<le> 65536"
  using guard_reach_bounded_and_total [OF guard_reach.start, of 5] by simp

end
