(* ===== verification/LRUContract.thy ===== *)
theory LRUContract
  imports Prelude
begin

text \<open>
  The contract of a bounded table that keeps its keys in recency order and drops the least
  recently touched one when it is over capacity. Both per-key limiters of the program
  (handshake_limiter.go, handshake_limiter_server.go) are built this way on \<open>container/list\<close>;
  they interpret the locale in their own theories.
\<close>

definition lru_touch :: "nat \<Rightarrow> 'k \<Rightarrow> 'k list \<Rightarrow> 'k list" where
  "lru_touch cap k ks = take cap (k # removeAll k ks)"

definition run_calls :: "(nanos \<Rightarrow> 'k \<Rightarrow> 's \<Rightarrow> 's) \<Rightarrow> (nanos \<times> 'k) list \<Rightarrow> 's \<Rightarrow> 's" where
  "run_calls call cs s = foldl (\<lambda>s c. call (fst c) (snd c) s) s cs"

lemma run_calls_simps [simp]:
  "run_calls call [] s = s"
  "run_calls call (c # cs) s = run_calls call cs (call (fst c) (snd c) s)"
  "run_calls call (cs @ ds) s = run_calls call ds (run_calls call cs s)"
  by (simp_all add: run_calls_def)

text \<open>Position of a key in the recency order: everything before it was touched later.\<close>

definition before :: "'k \<Rightarrow> 'k list \<Rightarrow> 'k set" where
  "before k ks = set (takeWhile (\<lambda>x. x \<noteq> k) ks)"

lemma before_touch:
  assumes "distinct ks" and "k \<in> set ks" and "card (insert j (before k ks)) < cap" and "j \<noteq> k"
  shows "k \<in> set (lru_touch cap j ks) \<and> before k (lru_touch cap j ks) \<subseteq> insert j (before k ks)"
proof -
  obtain as bs where ks: "ks = as @ k # bs" "k \<notin> set as"
    using assms(2) by (meson split_list_first)
  then have b: "before k ks = set as"
    unfolding before_def by (subst ks(1), subst takeWhile_append2) auto
  have "distinct (j # removeAll j as)"
    using assms(1) ks by (simp add: distinct_removeAll)
  then have "length (j # removeAll j as) = card (insert j (set as))"
    using distinct_card [of "j # removeAll j as"] by (simp add: insert_Diff_single)
  then have len: "length (j # removeAll j as) < cap"
    using assms(3) b by simp
  define pre where "pre = j # removeAll j as"
  have "j # removeAll j ks = pre @ k # removeAll j bs"
    using ks assms(4) by (simp add: pre_def)
  moreover have "take cap (pre @ k # removeAll j bs) = pre @ k # take (cap - length pre - 1) (removeAll j bs)"
    using len unfolding pre_def [symmetric] by (cases "cap - length pre") simp_all
  ultimately have t: "lru_touch cap j ks = pre @ k # take (cap - length pre - 1) (removeAll j bs)"
    by (simp add: lru_touch_def)
  moreover have "k \<notin> set pre"
    using ks assms(4) by (simp add: pre_def)
  then have "takeWhile (\<lambda>x. x \<noteq> k) (pre @ k # take (cap - length pre - 1) (removeAll j bs)) = pre"
    by (subst takeWhile_append2) auto
  ultimately show ?thesis
    using b by (auto simp: before_def pre_def)
qed

locale lru_table =
  fixes call :: "nanos \<Rightarrow> 'k \<Rightarrow> 's \<Rightarrow> 's" and lru :: "'s \<Rightarrow> 'k list" and cap :: "'s \<Rightarrow> nat"
    and wf :: "'s \<Rightarrow> bool"
  assumes wf_lru: "wf s \<Longrightarrow> distinct (lru s) \<and> length (lru s) \<le> cap s \<and> 0 < cap s"
    and wf_call: "wf s \<Longrightarrow> wf (call t k s)"
    and cap_call: "wf s \<Longrightarrow> cap (call t k s) = cap s"
    and lru_call: "wf s \<Longrightarrow> lru (call t k s) = lru_touch (cap s) k (lru s)"
begin

lemma wf_run: "wf s \<Longrightarrow> wf (run_calls call cs s) \<and> cap (run_calls call cs s) = cap s"
  by (induction cs arbitrary: s) (simp_all add: wf_call cap_call)

lemma bounded_run: "wf s \<Longrightarrow> length (lru (run_calls call cs s)) \<le> cap s"
  using wf_run [of s cs] wf_lru by force

lemma most_recent: "wf s \<Longrightarrow> k \<in> set (lru (call t k s)) \<and> before k (lru (call t k s)) = {}"
  using wf_lru [of s] by (cases "cap s") (auto simp: lru_call lru_touch_def before_def)

text \<open>A key survives as long as fewer than \<open>cap\<close> different keys are in play.\<close>

lemma survives:
  assumes "wf s" and "k \<in> set (lru s)" and "before k (lru s) \<subseteq> K" and "k \<in> K"
    and "snd ` set cs \<subseteq> K" and "finite K" and "card K \<le> cap s"
  shows "k \<in> set (lru (run_calls call cs s)) \<and> before k (lru (run_calls call cs s)) \<subseteq> K"
  using assms
proof (induction cs arbitrary: s)
  case (Cons c cs)
  let ?s = "call (fst c) (snd c) s"
  have "k \<in> set (lru ?s) \<and> before k (lru ?s) \<subseteq> K"
  proof (cases "snd c = k")
    case True
    then show ?thesis
      using most_recent [OF Cons.prems(1), of k "fst c"] by simp
  next
    case False
    have "k \<notin> before k (lru s)"
      by (auto simp: before_def dest: set_takeWhileD)
    then have "insert (snd c) (before k (lru s)) \<subset> K"
      using Cons.prems(3-5) False by auto
    then have "card (insert (snd c) (before k (lru s))) < cap s"
      using psubset_card_mono [OF Cons.prems(6)] Cons.prems(7) by (meson less_le_trans)
    then have "k \<in> set (lru_touch (cap s) (snd c) (lru s)) \<and>
        before k (lru_touch (cap s) (snd c) (lru s)) \<subseteq> insert (snd c) (before k (lru s))"
      using before_touch Cons.prems(2) False wf_lru [OF Cons.prems(1)] by metis
    moreover have "insert (snd c) (before k (lru s)) \<subseteq> K"
      using Cons.prems(3,5) by simp
    ultimately show ?thesis
      using lru_call [OF Cons.prems(1)] by auto
  qed
  then show ?case
    using Cons.IH [of ?s] Cons.prems(4-7) wf_call [OF Cons.prems(1)] cap_call [OF Cons.prems(1)] by simp
qed simp

end

end
