(* ===== verification/ShortIDLimiter.thy ===== *)
theory ShortIDLimiter
  imports LRUContract Complex_Main
begin

text \<open>
  pkg/tamizdat/handshake_limiter_server.go: the server's token bucket per short identifier. Token
  counts, the rate and the burst are \<open>float64\<close> in the source and exact rationals here. The recency
  list holds the keys, most recent first.
\<close>

record shortIDBucketEntry =
  tokens :: rat
  lastFill :: nanos

record shortIDLimiter =
  buckets :: "(bytes \<times> shortIDBucketEntry) list"
  lruList :: "bytes list"
  capacity :: int
  rate :: rat
  burst :: rat

definition defaultShortIDLimiterRate :: rat where "defaultShortIDLimiterRate = 100 / 60"
definition defaultShortIDLimiterBurst :: rat where "defaultShortIDLimiterBurst = 20"
definition defaultShortIDLimiterCapacity :: int where "defaultShortIDLimiterCapacity = 65536"

definition newShortIDLimiterWithConfig :: "rat \<Rightarrow> rat \<Rightarrow> int \<Rightarrow> shortIDLimiter" where
  "newShortIDLimiterWithConfig r b c =
    \<lparr> buckets = [], lruList = [],
      capacity = (if c \<le> 0 then defaultShortIDLimiterCapacity else c),
      rate = (if r \<le> 0 then defaultShortIDLimiterRate else r),
      burst = (if b \<le> 0 then defaultShortIDLimiterBurst else b) \<rparr>"

definition newShortIDLimiter :: shortIDLimiter where
  "newShortIDLimiter = newShortIDLimiterWithConfig defaultShortIDLimiterRate defaultShortIDLimiterBurst defaultShortIDLimiterCapacity"

function evictLocked :: "shortIDLimiter \<Rightarrow> shortIDLimiter" where
  "evictLocked l =
    (if int (length (buckets l)) > capacity l then
       if lruList l = [] then l
       else evictLocked (l\<lparr>lruList := butlast (lruList l), buckets := AList.delete (last (lruList l)) (buckets l)\<rparr>)
     else l)"
  by pat_completeness auto
termination
  by (relation "measure (\<lambda>l. length (lruList l))") (auto simp flip: length_greater_0_conv)

declare evictLocked.simps [simp del]

definition seconds_between :: "nanos \<Rightarrow> nanos \<Rightarrow> rat" where
  "seconds_between a b = rat_of_int (b - a) / 1000000000"

definition refill :: "rat \<Rightarrow> rat \<Rightarrow> nanos \<Rightarrow> shortIDBucketEntry \<Rightarrow> shortIDBucketEntry" where
  "refill r b now e =
    (let elapsed = seconds_between (lastFill e) now in
     if elapsed > 0 then
       let t = tokens e + elapsed * r in e\<lparr>tokens := (if t > b then b else t), lastFill := now\<rparr>
     else e)"

definition Allow :: "nanos \<Rightarrow> bytes \<Rightarrow> shortIDLimiter \<Rightarrow> shortIDLimiter \<times> bool" where
  "Allow now shortID l =
    (case map_of (buckets l) shortID of
       None \<Rightarrow>
         (evictLocked (l\<lparr>buckets := AList.update shortID \<lparr>tokens = burst l - 1, lastFill = now\<rparr> (buckets l),
            lruList := shortID # lruList l\<rparr>), True)
     | Some e0 \<Rightarrow>
         let e = refill (rate l) (burst l) now e0;
             l' = l\<lparr>lruList := shortID # removeAll shortID (lruList l)\<rparr> in
         if tokens e \<ge> 1 then (l'\<lparr>buckets := AList.update shortID (e\<lparr>tokens := tokens e - 1\<rparr>) (buckets l)\<rparr>, True)
         else (l'\<lparr>buckets := AList.update shortID e (buckets l)\<rparr>, False))"

text \<open>The nil receiver lets everything pass.\<close>

definition Allow_opt :: "nanos \<Rightarrow> bytes \<Rightarrow> shortIDLimiter option \<Rightarrow> shortIDLimiter option \<times> bool" where
  "Allow_opt now shortID l = (case l of None \<Rightarrow> (None, True)
     | Some l \<Rightarrow> (let (l', ok) = Allow now shortID l in (Some l', ok)))"

definition limiter_size :: "shortIDLimiter option \<Rightarrow> nat" where
  "limiter_size l = (case l of None \<Rightarrow> 0 | Some l \<Rightarrow> length (buckets l))"

section \<open>The table\<close>

definition sid_wf :: "shortIDLimiter \<Rightarrow> bool" where
  "sid_wf l = (distinct (lruList l) \<and> distinct (map fst (buckets l)) \<and> fst ` set (buckets l) = set (lruList l) \<and>
     int (length (buckets l)) \<le> capacity l \<and> 0 < capacity l \<and> 0 < rate l \<and> 0 < burst l)"

definition allow_state :: "nanos \<Rightarrow> bytes \<Rightarrow> shortIDLimiter \<Rightarrow> shortIDLimiter" where
  "allow_state now k l = fst (Allow now k l)"

lemma new_sid_wf: "sid_wf (newShortIDLimiterWithConfig r b c)"
  by (simp add: sid_wf_def newShortIDLimiterWithConfig_def defaultShortIDLimiterCapacity_def
      defaultShortIDLimiterRate_def defaultShortIDLimiterBurst_def)

lemma lengths_agree:
  "distinct ks \<Longrightarrow> distinct (map fst al) \<Longrightarrow> fst ` set al = set ks \<Longrightarrow> length al = length ks"
  by (metis distinct_card length_map list.set_map)

lemma evictLocked_full:
  assumes "distinct (k # ks)" "distinct (map fst al)" "fst ` set al = set ks" "lruList l = k # ks"
    "buckets l = al @ [(k, e)]" "int (length al) \<le> capacity l" "0 < capacity l"
  shows "evictLocked l = (if int (length al) < capacity l then l
     else l\<lparr>lruList := k # butlast ks, buckets := AList.delete (last ks) (buckets l)\<rparr>)"
proof (cases "int (length al) < capacity l")
  case True
  then show ?thesis
    using assms by (subst evictLocked.simps) simp
next
  case False
  have len: "length al = length ks"
    using assms by (intro lengths_agree) auto
  then have ne: "ks \<noteq> []"
    using assms False by auto
  let ?l = "l\<lparr>lruList := butlast (lruList l), buckets := AList.delete (last (lruList l)) (buckets l)\<rparr>"
  have "last ks \<in> fst ` set al"
    using ne assms(3) by simp
  then obtain v where "(last ks, v) \<in> set al"
    by force
  then have "length (AList.delete (last ks) (buckets l)) < length (buckets l)"
    unfolding AList.delete_eq assms(5) by (intro length_filter_less [of "(last ks, v)"]) auto
  then have "evictLocked ?l = ?l"
    using assms False ne by (subst evictLocked.simps) auto
  then show ?thesis
    using assms False ne by (subst evictLocked.simps) auto
qed

lemma take_full_butlast: "ks \<noteq> [] \<Longrightarrow> take (length ks) (k # ks) = k # butlast ks"
  by (cases "length ks") (simp_all add: butlast_conv_take)

lemma butlast_distinct: "ks \<noteq> [] \<Longrightarrow> distinct ks \<Longrightarrow> set (butlast ks) = set ks - {last ks}"
  by (induction ks rule: rev_induct) auto

lemma Allow_new:
  assumes "sid_wf l" and "map_of (buckets l) k = None"
  shows "snd (Allow t k l) \<and> sid_wf (allow_state t k l) \<and>
    lruList (allow_state t k l) = lru_touch (nat (capacity l)) k (lruList l) \<and>
    (\<forall>j \<in> set (lruList (allow_state t k l)). map_of (buckets (allow_state t k l)) j =
       (if j = k then Some \<lparr>tokens = burst l - 1, lastFill = t\<rparr> else map_of (buckets l) j))"
proof -
  let ?e = "\<lparr>tokens = burst l - 1, lastFill = t\<rparr>"
  let ?l = "l\<lparr>buckets := buckets l @ [(k, ?e)], lruList := k # lruList l\<rparr>"
  have k: "k \<notin> set (lruList l)"
    using assms by (auto simp: sid_wf_def map_of_eq_None_iff)
  have a: "allow_state t k l = evictLocked ?l" "snd (Allow t k l)"
    using assms(2) by (simp_all add: allow_state_def Allow_def update_new)
  have len: "length (buckets l) = length (lruList l)"
    using assms(1) by (intro lengths_agree) (auto simp: sid_wf_def)
  have ev: "evictLocked ?l = (if int (length (buckets l)) < capacity l then ?l
     else ?l\<lparr>lruList := k # butlast (lruList l), buckets := AList.delete (last (lruList l)) (buckets ?l)\<rparr>)"
    using assms(1) k evictLocked_full [of k "lruList l" "buckets l" ?l ?e] by (simp add: sid_wf_def)
  show ?thesis
  proof (cases "int (length (buckets l)) < capacity l")
    case True
    then show ?thesis
      using a ev assms k len by (auto simp: sid_wf_def lru_touch_def map_add_def split: option.splits)
  next
    case False
    then have cap: "nat (capacity l) = length (lruList l)" and ne: "lruList l \<noteq> []"
      using assms(1) len by (auto simp: sid_wf_def)
    have last: "last (lruList l) \<noteq> k" and d: "distinct (lruList l)"
      using ne k assms(1) by (auto simp: sid_wf_def)
    define D where "D = AList.delete (last (lruList l)) (buckets l @ [(k, ?e)])"
    have st: "allow_state t k l = ?l\<lparr>lruList := k # butlast (lruList l), buckets := D\<rparr>"
      using a ev False by (simp add: D_def)
    have D1: "distinct (map fst D)"
      unfolding D_def using assms(1) k by (intro distinct_delete) (auto simp: sid_wf_def)
    have D2: "fst ` set D = set (k # butlast (lruList l))"
      using assms(1) last k butlast_distinct [OF ne d] by (auto simp: D_def dom_delete_alist sid_wf_def)
    have D3: "distinct (k # butlast (lruList l))"
      using d k by (auto simp: distinct_butlast dest: in_set_butlastD)
    have D4: "length D = length (k # butlast (lruList l))"
      by (rule lengths_agree [OF D3 D1 D2])
    have D5: "map_of D j = (if j = k then Some ?e else map_of (buckets l) j)" if "j \<in> set (k # butlast (lruList l))" for j
      using that last assms(2) butlast_distinct [OF ne d]
      by (auto simp: D_def map_of_delete_alist map_add_def split: option.splits)
    show ?thesis
      using a(2) st D1 D2 D3 D4 D5 assms(1) cap len ne
      by (simp add: sid_wf_def lru_touch_def take_full_butlast removeAll_id k)
  qed
qed

lemma dom_update_alist: "fst ` set (AList.update k v al) = insert k (fst ` set al)"
  by (simp add: dom_update)

lemma Allow_known:
  assumes "sid_wf l" and "map_of (buckets l) k = Some e0"
    and e_def: "e = refill (rate l) (burst l) t e0" and ok_def: "ok = (tokens e \<ge> 1)"
  shows "snd (Allow t k l) = ok \<and> sid_wf (allow_state t k l) \<and>
    lruList (allow_state t k l) = lru_touch (nat (capacity l)) k (lruList l) \<and>
    (\<forall>j. map_of (buckets (allow_state t k l)) j =
       (if j = k then Some (if ok then e\<lparr>tokens := tokens e - 1\<rparr> else e) else map_of (buckets l) j))"
proof -
  define v where "v = (if ok then e\<lparr>tokens := tokens e - 1\<rparr> else e)"
  have a: "Allow t k l = (l\<lparr>lruList := k # removeAll k (lruList l), buckets := AList.update k v (buckets l)\<rparr>, ok)"
    using assms(2) by (simp add: Allow_def e_def ok_def v_def Let_def)
  have k: "k \<in> set (lruList l)"
    using assms(1) map_of_SomeD [OF assms(2)] unfolding sid_wf_def by (metis fst_conv image_eqI)
  have len: "length (buckets l) = length (lruList l)"
    using assms(1) by (intro lengths_agree) (auto simp: sid_wf_def)
  have d: "distinct (k # removeAll k (lruList l))" "set (k # removeAll k (lruList l)) = set (lruList l)"
    using assms(1) k by (auto simp: sid_wf_def distinct_removeAll)
  have u: "distinct (map fst (AList.update k v (buckets l)))" "fst ` set (AList.update k v (buckets l)) = set (lruList l)"
    using assms(1) k by (simp_all add: sid_wf_def distinct_update dom_update_alist insert_absorb)
  have dl: "distinct (lruList l)"
    using assms(1) by (simp add: sid_wf_def)
  have lens: "length (k # removeAll k (lruList l)) = length (lruList l)"
    using distinct_card [OF d(1)] distinct_card [OF dl] d(2) by simp
  have lenu: "length (AList.update k v (buckets l)) = length (lruList l)"
    by (rule lengths_agree [OF dl u])
  have t: "lru_touch (nat (capacity l)) k (lruList l) = k # removeAll k (lruList l)"
    using lens len assms(1) unfolding lru_touch_def by (intro take_all) (simp add: sid_wf_def le_nat_iff)
  show ?thesis
    using a t d(1) d(2) [unfolded list.set] u lenu len assms(1)
    by (simp add: allow_state_def sid_wf_def map_of_update_alist v_def)
qed

lemma allow_state_fields:
  assumes "sid_wf l"
  shows "capacity (allow_state t k l) = capacity l" "rate (allow_state t k l) = rate l" "burst (allow_state t k l) = burst l"
proof -
  have ev: "capacity (evictLocked l') = capacity l' \<and> rate (evictLocked l') = rate l' \<and> burst (evictLocked l') = burst l'" for l'
  proof (induction l' rule: evictLocked.induct)
    case (1 l)
    then show ?case
      by (simp add: evictLocked.simps [of l])
  qed
  show "capacity (allow_state t k l) = capacity l" "rate (allow_state t k l) = rate l" "burst (allow_state t k l) = burst l"
    by (auto simp: allow_state_def Allow_def Let_def ev split: option.splits)
qed

lemma allow_state_wf:
  assumes "sid_wf l"
  shows "sid_wf (allow_state t k l) \<and> lruList (allow_state t k l) = lru_touch (nat (capacity l)) k (lruList l)"
  using Allow_new [OF assms, of k t] Allow_known [OF assms _ refl refl, of k _ t] by (cases "map_of (buckets l) k") auto

interpretation sid: lru_table allow_state lruList "\<lambda>l. nat (capacity l)" sid_wf
proof unfold_locales
  fix l assume "sid_wf l"
  moreover from this have "length (buckets l) = length (lruList l)"
    by (intro lengths_agree) (auto simp: sid_wf_def)
  ultimately show "distinct (lruList l) \<and> length (lruList l) \<le> nat (capacity l) \<and> 0 < nat (capacity l)"
    by (auto simp: sid_wf_def)
qed (simp_all add: allow_state_wf allow_state_fields)

section \<open>The rate\<close>

text \<open>The verdicts for \<open>k\<close> in a run of calls for any short identifiers.\<close>

primrec verdicts :: "bytes \<Rightarrow> (nanos \<times> bytes) list \<Rightarrow> shortIDLimiter \<Rightarrow> bool list" where
  "verdicts k [] l = []"
| "verdicts k (c # cs) l =
    (let (l', ok) = Allow (fst c) (snd c) l in (if snd c = k then [ok] else []) @ verdicts k cs l')"

definition passed :: "bool list \<Rightarrow> nat" where
  "passed vs = length (filter id vs)"

text \<open>\<open>n\<close> passes so far, the first at \<open>t0\<close>: what is left in the bucket bounds them.\<close>

definition budget :: "bytes \<Rightarrow> bytes set \<Rightarrow> nanos \<Rightarrow> nanos \<Rightarrow> nat \<Rightarrow> shortIDLimiter \<Rightarrow> bool" where
  "budget k K t0 now n l = (sid_wf l \<and> 1 \<le> burst l \<and>
     ((map_of (buckets l) k = None \<and> n = 0) \<or>
      (k \<in> set (lruList l) \<and> before k (lruList l) \<subseteq> K \<and>
       (\<exists>e. map_of (buckets l) k = Some e \<and> t0 \<le> lastFill e \<and> lastFill e \<le> now \<and> 0 \<le> tokens e \<and> tokens e \<le> burst l \<and>
          rat_of_nat n + tokens e \<le> burst l + rate l * seconds_between t0 (lastFill e)))))"

lemma seconds_between_add: "seconds_between a b + seconds_between b c = seconds_between a c"
  by (simp add: seconds_between_def add_divide_distrib [symmetric])

lemma seconds_between_nonneg: "a \<le> b \<Longrightarrow> 0 \<le> seconds_between a b"
  by (simp add: seconds_between_def)

lemma seconds_between_mono: "b \<le> c \<Longrightarrow> seconds_between a b \<le> seconds_between a c"
  by (simp add: seconds_between_def divide_right_mono)

lemma refill_budget:
  assumes "0 < r" and "lastFill e \<le> now" and "0 \<le> tokens e" and "tokens e \<le> b"
    and "n + tokens e \<le> b + r * seconds_between t0 (lastFill e)"
  defines "e' \<equiv> refill r b now e"
  shows "lastFill e' = now \<and> 0 \<le> tokens e' \<and> tokens e' \<le> b \<and> n + tokens e' \<le> b + r * seconds_between t0 now"
proof (cases "lastFill e = now")
  case True
  then show ?thesis
    using assms by (simp add: refill_def seconds_between_def)
next
  case False
  then have pos: "0 < seconds_between (lastFill e) now"
    using assms(2) by (simp add: seconds_between_def)
  let ?t = "tokens e + seconds_between (lastFill e) now * r"
  have e': "e' = e\<lparr>tokens := (if ?t > b then b else ?t), lastFill := now\<rparr>"
    using pos by (simp add: e'_def refill_def)
  have "r * seconds_between t0 now = r * seconds_between t0 (lastFill e) + seconds_between (lastFill e) now * r"
    unfolding seconds_between_add [of t0 "lastFill e" now, symmetric] by (simp add: distrib_left mult.commute)
  moreover have "0 < seconds_between (lastFill e) now * r"
    using pos assms(1) by simp
  ultimately show ?thesis
    using e' assms(3-5) by auto
qed

lemma budget_step:
  assumes b: "budget k K t0 now n l" and t: "now \<le> t" "t0 \<le> t" and K: "k \<in> K" "j \<in> K" "finite K" "int (card K) \<le> capacity l"
  shows "budget k K (if n = 0 \<and> map_of (buckets l) k = None then t else t0) t
    (n + (if j = k \<and> snd (Allow t j l) then 1 else 0)) (allow_state t j l)"
proof -
  have wf: "sid_wf l" and burst: "1 \<le> burst l"
    using b by (simp_all add: budget_def)
  show ?thesis
  proof (cases "j = k")
    case True
    show ?thesis
    proof (cases "map_of (buckets l) k")
      case None
      moreover have "k \<in> set (lruList (allow_state t k l)) \<and> before k (lruList (allow_state t k l)) = {}"
        by (rule sid.most_recent [OF wf])
      moreover have "n = 0"
        using b None by (auto simp: budget_def)
      ultimately show ?thesis
        using True Allow_new [OF wf None, of t] burst
        by (auto simp: budget_def allow_state_fields [OF wf] seconds_between_def)
    next
      case (Some e)
      let ?e = "refill (rate l) (burst l) t e"
      have e: "lastFill e \<le> t" "0 \<le> tokens e" "tokens e \<le> burst l" "t0 \<le> lastFill e"
          "rat_of_nat n + tokens e \<le> burst l + rate l * seconds_between t0 (lastFill e)"
        using b Some t by (auto simp: budget_def)
      have "0 < rate l"
        using wf by (simp add: sid_wf_def)
      note r = refill_budget [OF this e(1-3,5)]
      have mru: "k \<in> set (lruList (allow_state t k l)) \<and> before k (lruList (allow_state t k l)) = {}"
        by (rule sid.most_recent [OF wf])
      show ?thesis
        using True Some r mru Allow_known [OF wf Some refl refl, of t] burst e t
        by (auto simp: budget_def allow_state_fields [OF wf])
    qed
  next
    case False
    have keep: "map_of (buckets (allow_state t j l)) k = map_of (buckets l) k"
      if "k \<in> set (lruList (allow_state t j l))"
      using that False Allow_new [OF wf, of j t] Allow_known [OF wf _ refl refl, of j _ t]
      by (cases "map_of (buckets l) j") auto
    show ?thesis
    proof (cases "map_of (buckets l) k")
      case None
      have "k \<notin> set (lruList l)"
        using None wf by (auto simp: sid_wf_def map_of_eq_None_iff)
      then have "k \<notin> set (lruList (allow_state t j l))"
        using False allow_state_wf [OF wf, of t j] by (auto simp: lru_touch_def dest: in_set_takeD)
      then have "map_of (buckets (allow_state t j l)) k = None"
        using allow_state_wf [OF wf, of t j] by (auto simp: sid_wf_def map_of_eq_None_iff)
      then show ?thesis
        using False b None allow_state_wf [OF wf, of t j] by (auto simp: budget_def allow_state_fields [OF wf])
    next
      case (Some e)
      have "k \<in> set (lruList (allow_state t j l)) \<and> before k (lruList (allow_state t j l)) \<subseteq> K"
        using sid.survives [OF wf, of k K "[(t, j)]"] K b Some by (auto simp: budget_def)
      then show ?thesis
        using False b Some keep t allow_state_wf [OF wf, of t j] by (auto simp: budget_def allow_state_fields [OF wf])
    qed
  qed
qed

lemma verdicts_bound:
  assumes "budget k K t0 now n l" and "s \<le> t0" and "t0 \<le> now" and "now \<le> u" and "sorted (map fst cs)"
    and "\<forall>c \<in> set cs. now \<le> fst c \<and> fst c \<le> u"
    and "k \<in> K" "snd ` set cs \<subseteq> K" "finite K" "int (card K) \<le> capacity l"
  shows "rat_of_nat (n + passed (verdicts k cs l)) \<le> burst l + rate l * seconds_between s u"
  using assms
proof (induction cs arbitrary: t0 now n l)
  case Nil
  have r: "0 < rate l" "1 \<le> burst l"
    using Nil(1) by (simp_all add: budget_def sid_wf_def)
  show ?case
  proof (cases "map_of (buckets l) k")
    case None
    then have "n = 0" using Nil(1) by (auto simp: budget_def)
    then show ?thesis
      using r seconds_between_nonneg [of s u] Nil(2-4) by (simp add: passed_def)
  next
    case (Some e)
    then have e: "rat_of_nat n + tokens e \<le> burst l + rate l * seconds_between t0 (lastFill e)" "0 \<le> tokens e" "lastFill e \<le> u"
      using Nil by (auto simp: budget_def)
    have "seconds_between t0 (lastFill e) \<le> seconds_between s u"
      using e(3) Nil(2) by (simp add: seconds_between_def divide_right_mono)
    then have "rate l * seconds_between t0 (lastFill e) \<le> rate l * seconds_between s u"
      using r by simp
    then show ?thesis
      using e by (simp add: passed_def)
  qed
next
  case (Cons c cs)
  let ?l = "allow_state (fst c) (snd c) l"
  let ?t0 = "if n = 0 \<and> map_of (buckets l) k = None then fst c else t0"
  let ?n = "n + (if snd c = k \<and> snd (Allow (fst c) (snd c) l) then 1 else 0)"
  have wf: "sid_wf l" using Cons.prems(1) by (simp add: budget_def)
  have b: "budget k K ?t0 (fst c) ?n ?l"
    using Cons.prems by (intro budget_step) auto
  have "rat_of_nat (?n + passed (verdicts k cs ?l)) \<le> burst ?l + rate ?l * seconds_between s u"
    using Cons.prems by (intro Cons.IH [OF b]) (auto simp: allow_state_fields [OF wf])
  moreover have "passed (verdicts k (c # cs) l) = (if snd c = k \<and> snd (Allow (fst c) (snd c) l) then 1 else 0) + passed (verdicts k cs ?l)"
    by (simp add: passed_def allow_state_def split: prod.split)
  ultimately show ?case
    by (simp add: allow_state_fields [OF wf] add.assoc)
qed

section \<open>Properties\<close>



text \<open>Legitimate spacing is never refused: in every well-formed state with a burst of at least one,
  a handshake of a known short identifier that comes at least \<open>1 / rate\<close> seconds after the last
  refill of its bucket passes, and a handshake of an unknown one always passes.\<close>

lemma shortID_spaced_calls_pass:
  assumes "sid_wf l" and "1 \<le> burst l"
    and "\<forall>e. map_of (buckets l) k = Some e \<longrightarrow> 0 \<le> tokens e \<and> 1 \<le> rate l * seconds_between (lastFill e) t"
  shows "snd (Allow t k l)"
proof (cases "map_of (buckets l) k")
  case None
  then show ?thesis
    using Allow_new [OF assms(1) None, of t] by simp
next
  case (Some e)
  then have e: "0 \<le> tokens e" "1 \<le> rate l * seconds_between (lastFill e) t"
    using assms(3) by auto
  moreover have "0 < rate l"
    using assms(1) by (simp add: sid_wf_def)
  ultimately have "0 < seconds_between (lastFill e) t"
    by (metis less_le_trans zero_less_mult_pos zero_less_one)
  then have "1 \<le> tokens (refill (rate l) (burst l) t e)"
    using e assms(2) by (simp add: refill_def mult.commute Let_def)
  then show ?thesis
    using Allow_known [OF assms(1) Some refl refl, of t] by simp
qed

lemma shortID_spaced_calls_pass_witness:
  "snd (Allow (2 * second) [1] (allow_state 0 [1] (newShortIDLimiterWithConfig 1 1 5)))"
proof -
  have st: "allow_state 0 [1] (newShortIDLimiterWithConfig 1 1 5) =
      \<lparr>buckets = [([1], \<lparr>tokens = 0, lastFill = 0\<rparr>)], lruList = [[1]], capacity = 5, rate = 1, burst = 1\<rparr>"
    by (simp add: allow_state_def Allow_def newShortIDLimiterWithConfig_def evictLocked.simps)
  show ?thesis
    unfolding st by (rule shortID_spaced_calls_pass) (simp_all add: sid_wf_def seconds_between_def second_def)
qed

end
