(* ===== verification/UserRegistry.thy ===== *)
theory UserRegistry
  imports Prelude
begin

text \<open>
  The user registry: internal/userdb/registry.go and the identifier helpers of helpers.go. \<open>Reload\<close>
  works on the rows the query returns, with the query's \<open>COALESCE\<close> defaults applied; an error of the
  database is an argument. Columns that are only copied are grouped in records of their own. \<open>int64\<close>
  columns are integers, and the one sum over them wraps as Go's does.
\<close>

section \<open>Identifiers\<close>

definition hexDigit :: "nat \<Rightarrow> char" where
  "hexDigit n = ''0123456789abcdef'' ! n"

definition hexEncode :: "bytes \<Rightarrow> string" where
  "hexEncode bs = concat (map (\<lambda>b. [hexDigit (unat b div 16), hexDigit (unat b mod 16)]) bs)"

definition isHexChar :: "char \<Rightarrow> bool" where
  "isHexChar c = (let n = (of_char c :: nat) in 48 \<le> n \<and> n \<le> 57 \<or> 97 \<le> n \<and> n \<le> 102 \<or> 65 \<le> n \<and> n \<le> 70)"

text \<open>\<open>hex.DecodeString\<close> fails on other characters and on odd lengths.\<close>

definition NormalizeShortIDHex :: "string \<Rightarrow> (string, string) gores" where
  "NormalizeShortIDHex s =
    (let s = to_lower (trim_space s) in
     if length s \<noteq> 16 then GoErr ''shortid must be 16 hex chars''
     else if \<not> list_all isHexChar s then GoErr ''shortid must be hex'' else GoOk s)"

section \<open>Rows and users\<close>

record localRow =
  lEnabled :: int
  lInterface :: string
  lTunName :: string
  lTunAddress :: string
  lTunMTU :: int
  lAutoRoute :: int
  lBypassPrivate :: int
  lBlockQUIC :: int
  lSniff :: int
  lFailClosed :: int

record localOptions =
  LocalEnabled :: bool
  LocalInterface :: string
  LocalTunName :: string
  LocalTunAddress :: string
  LocalTunMTU :: int
  LocalAutoRoute :: bool
  LocalBypassPrivate :: bool
  LocalBlockQUIC :: bool
  LocalSniff :: bool
  LocalFailClosed :: bool

record h2Peak =
  PeakStreams :: int
  PeakTCPStreams :: int
  PeakUDPStreams :: int
  PeakAt :: int

record turnRow =
  tRoomLink :: string
  tRoomHash :: string
  tProfilePending :: int
  tProfileVersion :: int
  tProfileUpdatedAt :: int

record turnProfile =
  TurnRoomLink :: string
  TurnRoomHash :: string
  TurnProfilePending :: bool
  TurnProfileVersion :: int
  TurnProfileUpdatedAt :: int

record userRow =
  rID :: string
  rName :: string
  rShortID :: string
  rKind :: string
  rLocal :: localRow
  rOutboundTag :: string
  rPoolSize :: int
  rExpiresAt :: int
  rBandwidthCap :: int
  rRateLimitMbps :: int
  rBytesUp :: int
  rBytesDown :: int
  rBytesResetAt :: int
  rQuotaBaseline :: int
  rLastSeenAt :: int
  rH2Peak :: h2Peak
  rH2RelayPeak :: h2Peak
  rNotificationText :: string
  rNotificationPending :: int
  rTurn :: turnRow

record User =
  uID :: string
  uName :: string
  MasterShortID :: string
  Kind :: string
  Local :: localOptions
  OutboundTag :: string
  PoolSize :: int
  ExpiresAt :: int
  BandwidthCap :: int
  RateLimitMbps :: int
  BytesUp :: int
  BytesDown :: int
  BytesResetAt :: int
  QuotaBaseline :: int
  LastSeenAt :: int
  H2Peak :: h2Peak
  H2RelayPeak :: h2Peak
  NotificationText :: string
  NotificationPending :: bool
  Turn :: turnProfile

type_synonym Lookup = "string \<times> int"

record UserRegistry =
  byShortID :: "(string \<times> Lookup) list"
  byUserID :: "(string \<times> User) list"
  generation :: "64 word"

definition NewRegistry :: UserRegistry where
  "NewRegistry = \<lparr>byShortID = [], byUserID = [], generation = 0\<rparr>"

section \<open>Reload\<close>

definition scanLocal :: "localRow \<Rightarrow> localOptions" where
  "scanLocal l = \<lparr>LocalEnabled = lEnabled l \<noteq> 0, LocalInterface = lInterface l, LocalTunName = lTunName l, LocalTunAddress = lTunAddress l,
     LocalTunMTU = lTunMTU l, LocalAutoRoute = lAutoRoute l \<noteq> 0, LocalBypassPrivate = lBypassPrivate l \<noteq> 0, LocalBlockQUIC = lBlockQUIC l \<noteq> 0,
     LocalSniff = lSniff l \<noteq> 0, LocalFailClosed = lFailClosed l \<noteq> 0\<rparr>"

definition scanTurn :: "turnRow \<Rightarrow> turnProfile" where
  "scanTurn r = \<lparr>TurnRoomLink = tRoomLink r, TurnRoomHash = tRoomHash r, TurnProfilePending = tProfilePending r \<noteq> 0,
     TurnProfileVersion = tProfileVersion r, TurnProfileUpdatedAt = tProfileUpdatedAt r\<rparr>"

text \<open>The body of the loop up to the duplicate check: the normalised user, or the error.\<close>

definition scanUser :: "userRow \<Rightarrow> (string, User) gores" where
  "scanUser r = go_bind (NormalizeShortIDHex (rShortID r)) (\<lambda>sid.
     let name = trim_space (rName r);
         kind = to_lower (trim_space (rKind r));
         kind = (if kind = [] then ''remote'' else kind)
     in if kind \<noteq> ''remote'' \<and> kind \<noteq> ''local_tun'' then GoErr ''unsupported kind''
     else if name = [] then GoErr ''empty name''
     else GoOk \<lparr>uID = rID r, uName = name, MasterShortID = sid, Kind = kind, Local = scanLocal (rLocal r),
       OutboundTag = (if rOutboundTag r = [] then ''direct'' else rOutboundTag r), PoolSize = rPoolSize r, ExpiresAt = rExpiresAt r,
       BandwidthCap = rBandwidthCap r, RateLimitMbps = rRateLimitMbps r, BytesUp = rBytesUp r, BytesDown = rBytesDown r,
       BytesResetAt = rBytesResetAt r, QuotaBaseline = rQuotaBaseline r, LastSeenAt = rLastSeenAt r, H2Peak = rH2Peak r,
       H2RelayPeak = rH2RelayPeak r, NotificationText = rNotificationText r, NotificationPending = rNotificationPending r \<noteq> 0, Turn = scanTurn (rTurn r)\<rparr>)"

primrec loadRows :: "userRow list \<Rightarrow> (string \<times> User) list \<Rightarrow> (string \<times> Lookup) list \<Rightarrow> (string, (string \<times> User) list \<times> (string \<times> Lookup) list) gores" where
  "loadRows [] byID byShort = GoOk (byID, byShort)"
| "loadRows (r # rs) byID byShort =
    go_bind (scanUser r) (\<lambda>u.
      if Kind u = ''remote'' \<and> map_of byShort (MasterShortID u) \<noteq> None then GoErr ''shortid collision''
      else loadRows rs (AList.update (uID u) u byID)
        (if Kind u = ''remote'' then AList.update (MasterShortID u) (uID u, -1) byShort else byShort))"

definition Reload :: "(string, userRow list) gores \<Rightarrow> UserRegistry \<Rightarrow> UserRegistry \<times> (string, unit) gores" where
  "Reload rows reg =
    (case go_bind rows (\<lambda>rs. loadRows rs [] []) of
       GoOk (byID, byShort) \<Rightarrow> (reg\<lparr>byShortID := byShort, byUserID := byID, generation := generation reg + 1\<rparr>, GoOk ())
     | GoErr e \<Rightarrow> (reg, GoErr e)
     | GoPanic \<Rightarrow> (reg, GoPanic))"

section \<open>Queries and updates\<close>

definition LookupHex :: "string \<Rightarrow> UserRegistry \<Rightarrow> (Lookup \<times> User) option" where
  "LookupHex shortID reg =
    (case map_of (byShortID reg) (to_lower (trim_space shortID)) of None \<Rightarrow> None
     | Some lk \<Rightarrow> (case map_of (byUserID reg) (fst lk) of None \<Rightarrow> None | Some u \<Rightarrow> Some (lk, u)))"

definition LookupBytes :: "bytes \<Rightarrow> UserRegistry \<Rightarrow> (Lookup \<times> User) option" where
  "LookupBytes shortID reg = LookupHex (hexEncode shortID) reg"

definition getUser :: "string \<Rightarrow> UserRegistry \<Rightarrow> User option" where
  "getUser i reg = map_of (byUserID reg) i"

definition observe :: "int \<Rightarrow> int \<Rightarrow> int \<Rightarrow> int \<Rightarrow> h2Peak \<Rightarrow> h2Peak" where
  "observe streams tcp udp at p =
    p\<lparr>PeakStreams := (if streams > PeakStreams p then streams else PeakStreams p),
      PeakTCPStreams := (if tcp > PeakTCPStreams p then tcp else PeakTCPStreams p),
      PeakUDPStreams := (if udp > PeakUDPStreams p then udp else PeakUDPStreams p),
      PeakAt := (if at > 0 then at else PeakAt p)\<rparr>"

definition ObserveH2Peak :: "string \<Rightarrow> int \<Rightarrow> int \<Rightarrow> int \<Rightarrow> int \<Rightarrow> UserRegistry \<Rightarrow> UserRegistry" where
  "ObserveH2Peak userID streams tcp udp at reg =
    (if userID = [] then reg
     else case map_of (byUserID reg) userID of None \<Rightarrow> reg
       | Some u \<Rightarrow> reg\<lparr>byUserID := AList.update userID (u\<lparr>H2Peak := observe streams tcp udp at (H2Peak u)\<rparr>) (byUserID reg)\<rparr>)"

definition ObserveH2RelayPeak :: "string \<Rightarrow> int \<Rightarrow> int \<Rightarrow> int \<Rightarrow> int \<Rightarrow> UserRegistry \<Rightarrow> UserRegistry" where
  "ObserveH2RelayPeak userID streams tcp udp at reg =
    (if userID = [] then reg
     else case map_of (byUserID reg) userID of None \<Rightarrow> reg
       | Some u \<Rightarrow> reg\<lparr>byUserID := AList.update userID (u\<lparr>H2RelayPeak := observe streams tcp udp at (H2RelayPeak u)\<rparr>) (byUserID reg)\<rparr>)"

definition Count :: "UserRegistry \<Rightarrow> nat" where
  "Count reg = length (byUserID reg)"

definition ShortIDCount :: "UserRegistry \<Rightarrow> nat" where
  "ShortIDCount reg = length (byShortID reg)"

section \<open>Quota\<close>

definition QuotaWindowSeconds :: int where
  "QuotaWindowSeconds = 30 * 24 * 3600"

text \<open>Go's 64 bit signed arithmetic.\<close>

definition wrap64 :: "int \<Rightarrow> int" where
  "wrap64 i = (i + 2 ^ 63) mod 2 ^ 64 - 2 ^ 63"

definition isOverQuota :: "int \<Rightarrow> User \<Rightarrow> bool" where
  "isOverQuota nowUnix u =
    (if BandwidthCap u \<le> 0 then False
     else if BytesResetAt u > 0 \<and> wrap64 (nowUnix - BytesResetAt u) > QuotaWindowSeconds then False
     else let used = wrap64 (wrap64 (BytesUp u + BytesDown u) - QuotaBaseline u);
              used = (if used < 0 then 0 else used)
          in used \<ge> BandwidthCap u)"

definition accountable :: "userRow \<Rightarrow> string \<Rightarrow> bool" where
  "accountable r sid = (\<exists>u. scanUser r = GoOk u \<and> Kind u = ''remote'' \<and> MasterShortID u = sid)"

definition loaded :: "userRow list \<Rightarrow> (string \<times> User) list \<Rightarrow> (string \<times> Lookup) list \<Rightarrow> bool" where
  "loaded rs byID byShort = (
     (\<forall>i u. map_of byID i = Some u \<longleftrightarrow> (\<exists>r \<in> set rs. scanUser r = GoOk u \<and> uID u = i)) \<and>
     (\<forall>s lk. map_of byShort s = Some lk \<longleftrightarrow> (\<exists>r \<in> set rs. accountable r s \<and> lk = (rID r, -1))))"

text \<open>A row to evaluate on.\<close>

definition sampleRow :: userRow where
  "sampleRow = (let pk = \<lparr>PeakStreams = 0, PeakTCPStreams = 0, PeakUDPStreams = 0, PeakAt = 0\<rparr> in
     \<lparr>rID = ''u1'', rName = '' Ann '', rShortID = ''00FF00ff00ff00ff'', rKind = [],
       rLocal = \<lparr>lEnabled = 0, lInterface = [], lTunName = ''taml0'', lTunAddress = [], lTunMTU = 1280, lAutoRoute = 1, lBypassPrivate = 1, lBlockQUIC = 1,
         lSniff = 1, lFailClosed = 0\<rparr>, rOutboundTag = [], rPoolSize = 1, rExpiresAt = 0,
       rBandwidthCap = 0, rRateLimitMbps = 0, rBytesUp = 0, rBytesDown = 0, rBytesResetAt = 0, rQuotaBaseline = 0, rLastSeenAt = 0, rH2Peak = pk,
       rH2RelayPeak = pk, rNotificationText = [], rNotificationPending = 0,
       rTurn = \<lparr>tRoomLink = [], tRoomHash = [], tProfilePending = 0, tProfileVersion = 0, tProfileUpdatedAt = 0\<rparr>\<rparr>)"

section \<open>Reload builds the lookup table\<close>

lemma hex_chars: "n < 16 \<Longrightarrow> lower_char (hexDigit n) = hexDigit n \<and> \<not> is_space (hexDigit n)"
proof -
  assume "n < 16"
  then have "n \<in> set [0..<16]" by simp
  moreover have "list_all (\<lambda>n. lower_char (hexDigit n) = hexDigit n \<and> \<not> is_space (hexDigit n)) [0..<16]" by code_simp
  ultimately show ?thesis by (simp add: list_all_iff)
qed

lemma hexEncode_chars: "c \<in> set (hexEncode bs) \<Longrightarrow> lower_char c = c \<and> \<not> is_space c"
proof -
  assume "c \<in> set (hexEncode bs)"
  then obtain b where "c = hexDigit (unat (b :: byte) div 16) \<or> c = hexDigit (unat b mod 16)" by (auto simp: hexEncode_def)
  moreover have "unat b div 16 < 16" proof -
    have "unat b < 2 ^ LENGTH(8)" by (rule unsigned_less)
    then show ?thesis by simp
  qed
  ultimately show ?thesis using hex_chars by force
qed

lemma trim_no_space: "\<forall>c \<in> set s. \<not> is_space c \<Longrightarrow> trim_space s = s"
  proof -
  assume a: "\<forall>c \<in> set s. \<not> is_space c"
  have "dropWhile is_space xs = xs" if "set xs \<subseteq> set s" for xs
    using a that by (cases xs) auto
  then show ?thesis by (simp add: trim_space_def)
qed

lemma hexEncode_normal: "to_lower (trim_space (hexEncode bs)) = hexEncode bs"
  using hexEncode_chars by (simp add: trim_no_space to_lower_def map_idI)

lemma scanUser_id: "scanUser r = GoOk u \<Longrightarrow> uID u = rID r"
  by (cases "NormalizeShortIDHex (rShortID r)") (auto simp: scanUser_def Let_def split: if_splits)

lemma loadRows_loaded:
  assumes "loadRows rs byID byShort = GoOk (byID', byShort')" "loaded done byID byShort" "distinct (map rID (done @ rs))"
  shows "loaded (done @ rs) byID' byShort'"
  using assms
proof (induction rs arbitrary: "done" byID byShort)
  case (Cons r rs)
  obtain u where u: "scanUser r = GoOk u" and nc: "\<not> (Kind u = ''remote'' \<and> map_of byShort (MasterShortID u) \<noteq> None)"
    and rest: "loadRows rs (AList.update (uID u) u byID) (if Kind u = ''remote'' then AList.update (MasterShortID u) (uID u, -1) byShort else byShort)
      = GoOk (byID', byShort')"
    using Cons.prems(1) by (cases "scanUser r") (auto split: if_splits)
  have i: "uID u = rID r" by (rule scanUser_id [OF u])
  have fresh: "rID r \<notin> rID ` set done" using Cons.prems(3) by auto
  have l1: "map_of byID i = Some x \<longleftrightarrow> (\<exists>r \<in> set done. scanUser r = GoOk x \<and> uID x = i)" for i x
    using Cons.prems(2) unfolding loaded_def by blast
  have l2: "map_of byShort s = Some lk \<longleftrightarrow> (\<exists>r \<in> set done. accountable r s \<and> lk = (rID r, -1))" for s lk
    using Cons.prems(2) unfolding loaded_def by blast
  have acc: "accountable r s \<longleftrightarrow> Kind u = ''remote'' \<and> MasterShortID u = s" for s using u by (auto simp: accountable_def)
  have "loaded (done @ [r]) (AList.update (uID u) u byID) (if Kind u = ''remote'' then AList.update (MasterShortID u) (uID u, -1) byShort else byShort)"
    unfolding loaded_def
  proof (intro conjI allI)
    fix j x
    have "\<not> (\<exists>r \<in> set done. scanUser r = GoOk x \<and> uID x = rID r')" if "rID r' \<notin> rID ` set done" for r'
      using that scanUser_id by force
    then show "(map_of (AList.update (uID u) u byID) j = Some x) = (\<exists>r \<in> set (done @ [r]). scanUser r = GoOk x \<and> uID x = j)"
      using l1 [of j x] u i fresh scanUser_id by (auto simp: update_conv')
  next
    fix s and lk :: Lookup
    have "\<not> (\<exists>r \<in> set done. accountable r (MasterShortID u) \<and> lk = (rID r, -1))" if "Kind u = ''remote''"
      using nc that l2 [of "MasterShortID u" lk] by auto
    then show "(map_of (if Kind u = ''remote'' then AList.update (MasterShortID u) (uID u, -1) byShort else byShort) s = Some lk) =
        (\<exists>r \<in> set (done @ [r]). accountable r s \<and> lk = (rID r, -1))"
      using l2 [of s lk] acc [of s] i by (auto simp: update_conv')
  qed
  from Cons.IH [OF rest this] show ?case using Cons.prems(3) by simp
qed simp

text \<open>C20. A successful reload makes the registry answer exactly from the table: provided the ids of the
  rows are distinct (they are the primary key), an 8 byte short identifier resolves to a user if and only if
  some row of kind remote (blank counts as remote, local TUN users never) has that identifier as its
  normalised master short id, the answer is that row's normalised user under its id, and no two rows claim
  the same identifier. Any error (of the database, a bad short id, kind or name, or a collision) leaves the
  registry exactly as it was.\<close>

theorem reload_lookup_exact:
  assumes "distinct (map rID rows)"
  shows "case Reload (GoOk rows) reg of
      (reg', GoOk _) \<Rightarrow> generation reg' = generation reg + 1 \<and>
        (\<forall>sid lk u. LookupBytes sid reg' = Some (lk, u) \<longleftrightarrow>
          (\<exists>r \<in> set rows. scanUser r = GoOk u \<and> Kind u = ''remote'' \<and> MasterShortID u = hexEncode sid \<and> lk = (rID r, -1))) \<and>
        (\<forall>r \<in> set rows. \<forall>r' \<in> set rows. \<forall>sid. accountable r (hexEncode sid) \<and> accountable r' (hexEncode sid) \<longrightarrow> r = r')
    | (reg', _) \<Rightarrow> reg' = reg"
proof (cases "loadRows rows [] []")
  case (GoOk m)
  obtain byID byShort where m: "m = (byID, byShort)" by fastforce
  have "loaded [] [] []" by (simp add: loaded_def)
  then have l: "loaded rows byID byShort" using loadRows_loaded [of rows "[]" "[]" byID byShort "[]"] GoOk m assms by simp
  let ?reg = "reg\<lparr>byShortID := byShort, byUserID := byID, generation := generation reg + 1\<rparr>"
  have one: "r = r'" if "r \<in> set rows" "r' \<in> set rows" "rID r = rID r'" for r r'
    using assms that by (auto simp: distinct_map dest: inj_onD)
  have look: "LookupBytes sid ?reg = Some (lk, u) \<longleftrightarrow>
      (\<exists>r \<in> set rows. scanUser r = GoOk u \<and> Kind u = ''remote'' \<and> MasterShortID u = hexEncode sid \<and> lk = (rID r, -1))" for sid lk u
  proof
    assume "LookupBytes sid ?reg = Some (lk, u)"
    then have *: "map_of byShort (hexEncode sid) = Some lk" "map_of byID (fst lk) = Some u"
      by (auto simp: LookupBytes_def LookupHex_def hexEncode_normal split: option.splits)
    then obtain r r' where r: "r \<in> set rows" "accountable r (hexEncode sid)" "lk = (rID r, -1)"
      and r': "r' \<in> set rows" "scanUser r' = GoOk u" "uID u = fst lk" using l unfolding loaded_def by metis
    then have "r = r'" using one scanUser_id [OF r'(2)] by simp
    then show "\<exists>r \<in> set rows. scanUser r = GoOk u \<and> Kind u = ''remote'' \<and> MasterShortID u = hexEncode sid \<and> lk = (rID r, -1)"
      using r r' by (auto simp: accountable_def)
  next
    assume "\<exists>r \<in> set rows. scanUser r = GoOk u \<and> Kind u = ''remote'' \<and> MasterShortID u = hexEncode sid \<and> lk = (rID r, -1)"
    then obtain r where r: "r \<in> set rows" "scanUser r = GoOk u" "Kind u = ''remote''" "MasterShortID u = hexEncode sid" "lk = (rID r, -1)" by blast
    then have "accountable r (hexEncode sid)" by (auto simp: accountable_def)
    then have "map_of byShort (hexEncode sid) = Some lk" using l r(1, 5) unfolding loaded_def by blast
    moreover have "map_of byID (rID r) = Some u" using l r(1, 2) scanUser_id [OF r(2)] unfolding loaded_def by blast
    ultimately show "LookupBytes sid ?reg = Some (lk, u)" using r(5) by (simp add: LookupBytes_def LookupHex_def hexEncode_normal)
  qed
  have "r = r'" if "r \<in> set rows" "r' \<in> set rows" "accountable r s" "accountable r' s" for r r' s
  proof -
    have "map_of byShort s = Some (rID r, -1)" "map_of byShort s = Some (rID r', -1)" using l that unfolding loaded_def by blast+
    then show ?thesis using one that(1, 2) by simp
  qed
  then show ?thesis using look GoOk m by (simp add: Reload_def) blast
qed (simp_all add: Reload_def)

theorem reload_lookup_exact_witness:
  "distinct (map rID [sampleRow]) \<and>
   map_option (\<lambda>(lk, u). (lk, uName u)) (LookupBytes [0, 255, 0, 255, 0, 255, 0, 255] (fst (Reload (GoOk [sampleRow]) NewRegistry))) = Some ((''u1'', -1), ''Ann'') \<and>
   (\<exists>reg' u. Reload (GoOk [sampleRow]) NewRegistry = (reg', GoOk ()) \<and>
     (LookupBytes [0, 255, 0, 255, 0, 255, 0, 255] reg' = Some ((''u1'', -1), u)) = (scanUser sampleRow = GoOk u \<and> Kind u = ''remote'' \<and>
       MasterShortID u = hexEncode [0, 255, 0, 255, 0, 255, 0, 255] \<and> (''u1'', -1) = (rID sampleRow, -1)))"
proof -
  have "snd (Reload (GoOk [sampleRow]) NewRegistry) = GoOk ()" by code_simp
  then obtain reg' where r: "Reload (GoOk [sampleRow]) NewRegistry = (reg', GoOk ())" by (metis prod.collapse)
  moreover have "map_option (\<lambda>(lk, u). (lk, uName u)) (LookupBytes [0, 255, 0, 255, 0, 255, 0, 255] (fst (Reload (GoOk [sampleRow]) NewRegistry))) = Some ((''u1'', -1), ''Ann'')"
    by code_simp
  moreover have "distinct (map rID [sampleRow])" by simp
  ultimately show ?thesis using reload_lookup_exact [of "[sampleRow]" NewRegistry] by (simp, metis)
qed

end
