(* ===== verification/AuthGate.thy ===== *)
theory AuthGate
  imports ClientHello SessionAuth ReplayGuard ShortIDLimiter UserRegistry
begin

text \<open>
  The gate of the server: \<open>handleConnection\<close> in pkg/tamizdat/server.go from the first TLS record to
  the decision what becomes of the connection. It composes the ClientHello parsers, the per short id
  limiter, key derivation and verification, the user registry and the replay guard. Stripping the PROXY
  header and the same-port demultiplexer come before it; what it decides for (masquerading, the aborted
  handshake, proxying) comes after it and is the outcome here. The primitives of crypto are a record of
  functions, every reading of the clock is an argument, and statements sent to the database are
  recorded in the state.
\<close>

record crypto =
  cX25519 :: "bytes \<Rightarrow> bytes \<Rightarrow> bytes option"
  cHKDF :: "bytes \<Rightarrow> bytes \<Rightarrow> bytes \<Rightarrow> bytes option"
  cHMAC :: "bytes \<Rightarrow> bytes \<Rightarrow> bytes"
  cSHA256 :: "bytes \<Rightarrow> bytes"

record readings =
  atAllow :: nanos
  atLookup :: nanos
  atQuota :: nanos
  atCheck :: nanos

record serverConfig =
  PrivateKey :: bytes
  MinAcceptedWireVersion :: int
  MaxAcceptedWireVersion :: int
  cfgMasterShortID :: bytes
  BundleEnabled :: bool

record authIdentity =
  ShortID :: bytes
  UserID :: string
  UserName :: string
  SessionID :: string
  PoolIndex :: int
  DataPlaneBlocked :: bool

record server =
  cfg :: serverConfig
  limiter :: "shortIDLimiter option"
  registry :: "UserRegistry option"
  guard :: "replayGuard option"
  hasDB :: bool
  connectShortIDLimited :: nat
  connectReplay :: nat
  connectAuthOK :: nat
  notified :: "string list"
  started :: "(string \<times> string) list"

datatype outcome = Dropped | Masquerade bytes | ReplayReject bytes | Proxy bytes authIdentity

definition readClientHelloRecord :: "bytes \<Rightarrow> (string, bytes \<times> bytes) gores" where
  "readClientHelloRecord stream =
    (if length stream < 5 then GoErr ''reading TLS record header''
     else let header = take 5 stream in
     go_bind (idx header 0) (\<lambda>h0.
     if h0 \<noteq> 22 then GoErr ''expected handshake record''
     else go_bind (idx header 3) (\<lambda>h3. go_bind (idx header 4) (\<lambda>h4.
       let recordLen = be16 h3 h4 in
       if recordLen > 16384 then GoErr ''TLS record too large''
       else if length (drop 5 stream) < recordLen then GoErr ''reading TLS record payload''
       else let payload = take recordLen (drop 5 stream) in GoOk (header @ payload, payload)))))"

text \<open>From the verified short id to the identity; \<open>None\<close> is the branch that masquerades.\<close>

definition lookupIdentity :: "readings \<Rightarrow> bytes \<Rightarrow> server \<Rightarrow> server \<times> authIdentity option" where
  "lookupIdentity t shortID s =
    (let identity = \<lparr>ShortID = shortID, UserID = [], UserName = [], SessionID = [], PoolIndex = -1, DataPlaneBlocked = False\<rparr> in
     case registry s of
       Some reg \<Rightarrow>
         (case LookupBytes shortID reg of
            None \<Rightarrow> (s, None)
          | Some (lk, user) \<Rightarrow>
              let now = atLookup t div second;
                  expired = (ExpiresAt user > 0 \<and> now > ExpiresAt user);
                  overQuota = (\<not> expired \<and> isOverQuota (atQuota t div second) user);
                  s = (if (expired \<or> overQuota) \<and> hasDB s then s\<lparr>notified := notified s @ [uID user]\<rparr> else s)
              in if (expired \<or> overQuota) \<and> \<not> BundleEnabled (cfg s) then (s, None)
                 else (s, Some (identity\<lparr>UserID := fst lk, UserName := uName user, PoolIndex := snd lk, DataPlaneBlocked := expired \<or> overQuota\<rparr>)))
     | None \<Rightarrow> (s, if shortID = cfgMasterShortID (cfg s) then Some identity else None))"

text \<open>\<open>sid\<close> is what \<open>GenerateHex\<close> returns.\<close>

definition startSession :: "string option \<Rightarrow> authIdentity \<Rightarrow> server \<Rightarrow> server \<times> authIdentity" where
  "startSession sid identity s =
    (if UserID identity = [] then (s, identity)
     else case sid of None \<Rightarrow> (s, identity)
       | Some x \<Rightarrow> (s\<lparr>started := started s @ [(UserID identity, x)]\<rparr>, identity\<lparr>SessionID := x\<rparr>))"

definition replayKeyOf :: "crypto \<Rightarrow> bytes \<Rightarrow> bytes \<Rightarrow> replayKey" where
  "replayKeyOf C sessionID ephPub = take 16 (cSHA256 C (sessionID @ ephPub))"

text \<open>After the tag has verified.\<close>

definition admitVerified :: "crypto \<Rightarrow> readings \<Rightarrow> string option \<Rightarrow> bytes \<Rightarrow> bytes \<Rightarrow> bytes \<Rightarrow> server \<Rightarrow> (string, server \<times> outcome) gores" where
  "admitVerified C t sid hello sessionID ephPub s =
    (case lookupIdentity t (take 8 sessionID) s of
       (s, None) \<Rightarrow> GoOk (s, Masquerade hello)
     | (s, Some identity) \<Rightarrow>
        go_bind (checkV1 (atCheck t) (replayKeyOf C sessionID ephPub) (guard s)) (\<lambda>(g, fresh).
          if \<not> fresh then GoOk (s\<lparr>guard := g, connectReplay := connectReplay s + 1\<rparr>, ReplayReject hello)
          else let (s, identity) = startSession sid identity (s\<lparr>guard := g\<rparr>) in
               GoOk (s\<lparr>connectAuthOK := connectAuthOK s + 1\<rparr>, Proxy hello identity)))"

definition authenticate :: "crypto \<Rightarrow> readings \<Rightarrow> string option \<Rightarrow> bytes \<Rightarrow> bytes \<Rightarrow> bytes \<Rightarrow> server \<Rightarrow> (string, server \<times> outcome) gores" where
  "authenticate C t sid hello sessionID ephPub s =
    (if length sessionID \<noteq> 32 then GoOk (s, Masquerade hello)
     else let shortID = take 8 sessionID; (l, ok) = Allow_opt (atAllow t) shortID (limiter s); s = s\<lparr>limiter := l\<rparr> in
     if \<not> ok then GoOk (s\<lparr>connectShortIDLimited := connectShortIDLimited s + 1\<rparr>, ReplayReject hello)
     else (case DeriveServerPSK (cX25519 C) (cHKDF C) (PrivateKey (cfg s)) ephPub shortID of
       GoPanic \<Rightarrow> GoPanic
     | GoErr _ \<Rightarrow> GoOk (s, Masquerade hello)
     | GoOk psk \<Rightarrow>
        (case VerifySessionIDAny (cHMAC C) sessionID psk ephPub shortID (MinAcceptedWireVersion (cfg s)) (MaxAcceptedWireVersion (cfg s)) of
           GoPanic \<Rightarrow> GoPanic
         | GoErr _ \<Rightarrow> GoOk (s, Masquerade hello)
         | GoOk (matchedVersion, authenticated) \<Rightarrow>
             if \<not> authenticated then GoOk (s, Masquerade hello)
             else admitVerified C t sid hello sessionID ephPub s)))"

definition handleConnection :: "crypto \<Rightarrow> readings \<Rightarrow> string option \<Rightarrow> bytes \<Rightarrow> server \<Rightarrow> (string, server \<times> outcome) gores" where
  "handleConnection C t sid stream s =
    (case readClientHelloRecord stream of
       GoPanic \<Rightarrow> GoPanic
     | GoErr _ \<Rightarrow> GoOk (s, Dropped)
     | GoOk (hello, handshakeMsg) \<Rightarrow>
        (case ExtractSessionID handshakeMsg of
           GoPanic \<Rightarrow> GoPanic
         | GoErr _ \<Rightarrow> GoOk (s, Masquerade hello)
         | GoOk sessionID \<Rightarrow>
            (case ExtractX25519FromKeyShare handshakeMsg of
               GoPanic \<Rightarrow> GoPanic
             | GoErr _ \<Rightarrow> GoOk (s, Masquerade hello)
             | GoOk ephPub \<Rightarrow> authenticate C t sid hello sessionID ephPub s)))"

text \<open>A history of connections, each with its clock readings and random session id.\<close>

primrec runConnections :: "crypto \<Rightarrow> (readings \<times> string option \<times> bytes) list \<Rightarrow> server \<Rightarrow> (string, server) gores" where
  "runConnections C [] s = GoOk s"
| "runConnections C (c # cs) s = go_bind (handleConnection C (fst c) (fst (snd c)) (snd (snd c)) s) (\<lambda>r. runConnections C cs (fst r))"

section \<open>Vocabulary of the properties\<close>

text \<open>What the server reads out of the hello.\<close>

definition hello_ids :: "bytes \<Rightarrow> (bytes \<times> bytes \<times> bytes) option" where
  "hello_ids stream = (case readClientHelloRecord stream of
     GoOk (hello, m) \<Rightarrow> (case (ExtractSessionID m, ExtractX25519FromKeyShare m) of
        (GoOk sid, GoOk eph) \<Rightarrow> Some (hello, sid, eph) | _ \<Rightarrow> None)
   | _ \<Rightarrow> None)"

text \<open>The tag of the hello was made with the key that only the holder of the server's or the
  ephemeral private key can derive.\<close>

definition genuine :: "crypto \<Rightarrow> serverConfig \<Rightarrow> bytes \<Rightarrow> bytes \<Rightarrow> bool" where
  "genuine C c sid eph = (\<exists>psk v. DeriveServerPSK (cX25519 C) (cHKDF C) (PrivateKey c) eph (take 8 sid) = GoOk psk \<and>
     (v = 1 \<or> v = 2) \<and> MinAcceptedWireVersion c \<le> uint v \<and> uint v \<le> MaxAcceptedWireVersion c \<and>
     length sid = 32 \<and> length psk = 32 \<and> length eph = 32 \<and>
     drop 16 sid = sessionIDTag (cHMAC C) psk (take 8 sid) (take 8 (drop 8 sid)) eph v)"

text \<open>A connection to evaluate on.\<close>

definition sampleCrypto :: crypto where
  "sampleCrypto = \<lparr>cX25519 = \<lambda>a b. Some (replicate 32 0), cHKDF = \<lambda>s i l. Some (replicate 32 1), cHMAC = \<lambda>k m. replicate 32 7, cSHA256 = \<lambda>m. m\<rparr>"

definition sampleReadings :: "nanos \<Rightarrow> readings" where
  "sampleReadings n = \<lparr>atAllow = n, atLookup = n, atQuota = n, atCheck = n\<rparr>"

definition sampleHello :: client_hello where
  "sampleHello = sample_hello\<lparr>session_id := replicate 8 9 @ replicate 8 4 @ replicate 16 7\<rparr>"

definition sampleStream :: bytes where
  "sampleStream = enc_record (enc_handshake sampleHello)"

definition sampleServer :: server where
  "sampleServer = \<lparr>cfg = \<lparr>PrivateKey = replicate 32 3, MinAcceptedWireVersion = 1, MaxAcceptedWireVersion = 2,
       cfgMasterShortID = replicate 8 9, BundleEnabled = False\<rparr>, limiter = None, registry = None, guard = Some (newReplayGuard 0),
     hasDB = False, connectShortIDLimited = 0, connectReplay = 0, connectAuthOK = 0, notified = [], started = []\<rparr>"

section \<open>Facts about one connection\<close>

lemma verify_iff_genuine:
  assumes "DeriveServerPSK (cX25519 C) (cHKDF C) (PrivateKey c) eph (take 8 sid) = GoOk psk"
  shows "genuine C c sid eph \<longleftrightarrow>
    (\<exists>v. VerifySessionIDAny (cHMAC C) sid psk eph (take 8 sid) (MinAcceptedWireVersion c) (MaxAcceptedWireVersion c) = GoOk (v, True))"
proof
  let ?tag = "\<lambda>v. drop 16 sid = sessionIDTag (cHMAC C) psk (take 8 sid) (take 8 (drop 8 sid)) eph v"
  assume "genuine C c sid eph"
  then obtain v where v: "v = 1 \<or> v = 2" "MinAcceptedWireVersion c \<le> uint v" "uint v \<le> MaxAcceptedWireVersion c"
    "length sid = 32" "length psk = 32" "length eph = 32" "?tag v"
    using assms by (auto simp: genuine_def)
  show "\<exists>v. VerifySessionIDAny (cHMAC C) sid psk eph (take 8 sid) (MinAcceptedWireVersion c) (MaxAcceptedWireVersion c) = GoOk (v, True)"
  proof (cases "v = 2 \<and> MinAcceptedWireVersion c \<le> 1 \<and> ?tag 1")
    case True
    then have "VerifySessionIDAny (cHMAC C) sid psk eph (take 8 sid) (MinAcceptedWireVersion c) (MaxAcceptedWireVersion c) = GoOk (1, True)"
      using v by (subst VerifySessionIDAny_True_iff) auto
    then show ?thesis by blast
  next
    case False
    then have "VerifySessionIDAny (cHMAC C) sid psk eph (take 8 sid) (MinAcceptedWireVersion c) (MaxAcceptedWireVersion c) = GoOk (v, True)"
      using v by (subst VerifySessionIDAny_True_iff) auto
    then show ?thesis by blast
  qed
next
  assume "\<exists>v. VerifySessionIDAny (cHMAC C) sid psk eph (take 8 sid) (MinAcceptedWireVersion c) (MaxAcceptedWireVersion c) = GoOk (v, True)"
  then show "genuine C c sid eph" using assms unfolding genuine_def VerifySessionIDAny_True_iff by blast
qed

lemma readClientHelloRecord_no_panic: "readClientHelloRecord stream \<noteq> GoPanic"
  by (simp add: readClientHelloRecord_def go_simps Let_def)

lemma derive_no_panic: "DeriveServerPSK x h k e s \<noteq> GoPanic"
  by (simp add: DeriveServerPSK_def ECDHSharedSecret_def derivePSK_def split: option.split)

lemma verifyExact_no_panic: "verifySessionIDExact hm sid psk eph e v \<noteq> GoPanic"
  by (simp add: verifySessionIDExact_def session_parts)

lemma verify_no_panic: "VerifySessionIDAny hm sid psk eph e lo hi \<noteq> GoPanic"
proof -
  have "verifyVersions hm sid psk eph e vs \<noteq> GoPanic" for vs
  proof (induction vs)
    case (Cons v vs)
    then show ?case using verifyExact_no_panic [of hm sid psk eph e "word_of_int v"]
      by (cases "verifySessionIDExact hm sid psk eph e (word_of_int v)") auto
  qed simp
  then show ?thesis by (simp add: VerifySessionIDAny_def Let_def)
qed

lemma handle_unreadable:
  assumes "hello_ids stream = None"
  shows "\<exists>o'. handleConnection C t sid stream s = GoOk (s, o') \<and> (o' = Dropped \<or> (\<exists>h. o' = Masquerade h))"
proof (cases "readClientHelloRecord stream")
  case (GoOk m)
  obtain hello msg where m: "m = (hello, msg)" by fastforce
  have np: "ExtractSessionID msg \<noteq> GoPanic" "ExtractX25519FromKeyShare msg \<noteq> GoPanic"
    using ExtractSessionID_no_panic [of msg] ExtractX25519_no_panic [of msg] by (auto simp: no_panic_def)
  show ?thesis
    using GoOk m np assms by (cases "ExtractSessionID msg"; cases "ExtractX25519FromKeyShare msg") (auto simp: handleConnection_def hello_ids_def)
qed (use readClientHelloRecord_no_panic in \<open>auto simp: handleConnection_def\<close>)

lemma handle_readable:
  assumes "hello_ids stream = Some (hello, sessionID, eph)"
  shows "handleConnection C t sid stream s = authenticate C t sid hello sessionID eph s"
  using assms by (auto simp: handleConnection_def hello_ids_def split: gores.splits prod.splits)

text \<open>The gate on a readable hello, by cases.\<close>

lemma authenticate_cases:
  "authenticate C t sid hello sessionID eph s =
    (if length sessionID \<noteq> 32 then GoOk (s, Masquerade hello)
     else let s' = s\<lparr>limiter := fst (Allow_opt (atAllow t) (take 8 sessionID) (limiter s))\<rparr> in
     if \<not> snd (Allow_opt (atAllow t) (take 8 sessionID) (limiter s))
       then GoOk (s'\<lparr>connectShortIDLimited := connectShortIDLimited s + 1\<rparr>, ReplayReject hello)
     else if genuine C (cfg s) sessionID eph then admitVerified C t sid hello sessionID eph s'
     else GoOk (s', Masquerade hello))"
proof (cases "DeriveServerPSK (cX25519 C) (cHKDF C) (PrivateKey (cfg s)) eph (take 8 sessionID)")
  case (GoOk psk)
  show ?thesis
    using GoOk verify_iff_genuine [OF GoOk] verify_no_panic [of "cHMAC C" sessionID psk eph "take 8 sessionID" "MinAcceptedWireVersion (cfg s)" "MaxAcceptedWireVersion (cfg s)"]
    by (cases "VerifySessionIDAny (cHMAC C) sessionID psk eph (take 8 sessionID) (MinAcceptedWireVersion (cfg s)) (MaxAcceptedWireVersion (cfg s))")
      (auto simp: authenticate_def Let_def case_prod_beta)
next
  case (GoErr e)
  then have "\<not> genuine C (cfg s) sessionID eph" by (simp add: genuine_def)
  then show ?thesis using GoErr by (simp add: authenticate_def Let_def case_prod_beta)
qed (use derive_no_panic in blast)

lemma lookup_same:
  "lookupIdentity t k s = (s', r) \<Longrightarrow> guard s' = guard s \<and> cfg s' = cfg s \<and> registry s' = registry s \<and> limiter s' = limiter s"
  by (auto simp: lookupIdentity_def Let_def split: option.splits if_splits)

lemma startSession_same:
  "startSession sid i s = (s', i') \<Longrightarrow> guard s' = guard s \<and> cfg s' = cfg s \<and> registry s' = registry s \<and> limiter s' = limiter s"
  by (auto simp: startSession_def split: option.splits if_splits)

lemma admit_guard:
  assumes "guard s = Some g" "guard_wf g"
  shows "\<exists>s' o' cs g'. admitVerified C t sid hello sessionID eph s = GoOk (s', o') \<and> cfg s' = cfg s \<and> guard s' = Some g' \<and>
    run_checks g cs = GoOk g' \<and> length cs \<le> 1 \<and> (\<forall>c \<in> set cs. fst c = atCheck t)"
proof -
  obtain s1 r where l: "lookupIdentity t (take 8 sessionID) s = (s1, r)" by fastforce
  have s1: "guard s1 = Some g" "cfg s1 = cfg s" using lookup_same [OF l] assms by simp_all
  show ?thesis
  proof (cases r)
    case None
    then have "admitVerified C t sid hello sessionID eph s = GoOk (s1, Masquerade hello)" "run_checks g [] = GoOk g"
      using l by (simp_all add: admitVerified_def)
    then show ?thesis using s1 by (intro exI [of _ s1] exI [of _ "Masquerade hello"] exI [of _ "[]"] exI [of _ g]) simp
  next
    case (Some i)
    let ?k = "replayKeyOf C sessionID eph"
    obtain g' ok where g': "checkKey (atCheck t) ?k g = GoOk (g', ok)"
      by (rule checkKey_spec [OF assms(2), of "atCheck t" ?k]) blast
    then have r: "run_checks g [(atCheck t, ?k)] = GoOk g'" by simp
    obtain s2 i2 where st: "startSession sid i (s1\<lparr>guard := Some g'\<rparr>) = (s2, i2)" by fastforce
    have s2: "guard s2 = Some g'" "cfg s2 = cfg s" using startSession_same [OF st] s1 by simp_all
    have a: "admitVerified C t sid hello sessionID eph s = (if ok then GoOk (s2\<lparr>connectAuthOK := connectAuthOK s2 + 1\<rparr>, Proxy hello i2)
        else GoOk (s1\<lparr>guard := Some g', connectReplay := connectReplay s1 + 1\<rparr>, ReplayReject hello))"
      using l Some g' s1(1) st by (simp add: admitVerified_def checkV1_def)
    show ?thesis
    proof (cases ok)
      case True
      then show ?thesis unfolding a using s2 r
        by (intro exI [of _ "s2\<lparr>connectAuthOK := connectAuthOK s2 + 1\<rparr>"] exI [of _ "Proxy hello i2"] exI [of _ "[(atCheck t, ?k)]"] exI [of _ g']) simp
    next
      case False
      then show ?thesis unfolding a using s1 r
        by (intro exI [of _ "s1\<lparr>guard := Some g', connectReplay := connectReplay s1 + 1\<rparr>"] exI [of _ "ReplayReject hello"] exI [of _ "[(atCheck t, ?k)]"] exI [of _ g']) simp
    qed
  qed
qed

lemma handle_guard:
  assumes "guard s = Some g" "guard_wf g"
  shows "\<exists>s' o' cs g'. handleConnection C t sid stream s = GoOk (s', o') \<and> cfg s' = cfg s \<and> guard s' = Some g' \<and>
    run_checks g cs = GoOk g' \<and> length cs \<le> 1 \<and> (\<forall>c \<in> set cs. fst c = atCheck t)"
proof -
  have none: ?thesis if "handleConnection C t sid stream s = GoOk (s', o')" "cfg s' = cfg s" "guard s' = guard s" for s' o'
    using that assms(1) by (intro exI [of _ s'] exI [of _ o'] exI [of _ "[]"] exI [of _ g]) simp
  show ?thesis
  proof (cases "hello_ids stream")
    case None
    then show ?thesis using handle_unreadable [OF None, of C t sid s] none by blast
  next
    case (Some h)
    obtain hello sessionID eph where h: "h = (hello, sessionID, eph)" by (metis prod_cases3)
    let ?s = "s\<lparr>limiter := fst (Allow_opt (atAllow t) (take 8 sessionID) (limiter s))\<rparr>"
    have e: "handleConnection C t sid stream s = authenticate C t sid hello sessionID eph s" using handle_readable Some h by simp
    show ?thesis
    proof (cases "length sessionID = 32 \<and> snd (Allow_opt (atAllow t) (take 8 sessionID) (limiter s)) \<and> genuine C (cfg s) sessionID eph")
      case True
      then show ?thesis using admit_guard [of ?s g C t sid hello sessionID eph] assms unfolding e authenticate_cases by (simp add: Let_def)
    next
      case False
      then have "\<exists>s' o'. authenticate C t sid hello sessionID eph s = GoOk (s', o') \<and> cfg s' = cfg s \<and> guard s' = guard s"
        unfolding authenticate_cases by (auto simp: Let_def)
      then show ?thesis using none e by metis
    qed
  qed
qed

lemma run_checks_append: "run_checks g (xs @ ys) = go_bind (run_checks g xs) (\<lambda>g. run_checks g ys)"
proof (induction xs arbitrary: g)
  case (Cons x xs)
  then show ?case by (cases "checkKey (fst x) (snd x) g") auto
qed simp

lemma run_checks_wf: "guard_wf g \<Longrightarrow> run_checks g cs = GoOk g' \<Longrightarrow> guard_wf g'"
proof (induction cs arbitrary: g)
  case (Cons c cs)
  obtain g1 ok where "checkKey (fst c) (snd c) g = GoOk (g1, ok)" "guard_wf g1"
    by (rule checkKey_spec [OF Cons.prems(1), of "fst c" "snd c"]) blast
  then show ?case using Cons by simp
qed simp

lemma run_connections_guard:
  assumes "guard s = Some g" "guard_wf g"
  shows "\<exists>s' ks g'. runConnections C cs s = GoOk s' \<and> cfg s' = cfg s \<and> guard s' = Some g' \<and> guard_wf g' \<and>
    run_checks g ks = GoOk g' \<and> length ks \<le> length cs \<and> (\<forall>k \<in> set ks. \<exists>c \<in> set cs. fst k = atCheck (fst c))"
  using assms
proof (induction cs arbitrary: s g)
  case Nil
  then show ?case by (intro exI [of _ s] exI [of _ "[]"] exI [of _ g]) simp
next
  case (Cons c cs)
  obtain s1 o1 ks1 g1 where 1: "handleConnection C (fst c) (fst (snd c)) (snd (snd c)) s = GoOk (s1, o1)" "cfg s1 = cfg s" "guard s1 = Some g1"
    "run_checks g ks1 = GoOk g1" "length ks1 \<le> 1" "\<forall>k \<in> set ks1. fst k = atCheck (fst c)"
    using handle_guard [OF Cons.prems, of C "fst c" "fst (snd c)" "snd (snd c)"] by blast
  obtain s2 ks2 g2 where 2: "runConnections C cs s1 = GoOk s2" "cfg s2 = cfg s1" "guard s2 = Some g2" "guard_wf g2" "run_checks g1 ks2 = GoOk g2"
    "length ks2 \<le> length cs" "\<forall>k \<in> set ks2. \<exists>c \<in> set cs. fst k = atCheck (fst c)"
    using Cons.IH [OF 1(3) run_checks_wf [OF Cons.prems(2) 1(4)]] by blast
  have "run_checks g (ks1 @ ks2) = GoOk g2" using 1(4) 2(5) by (simp add: run_checks_append)
  then show ?case using 1 2 by (intro exI [of _ s2] exI [of _ "ks1 @ ks2"] exI [of _ g2]) (auto simp: le_Suc_eq)
qed

lemma admit_Proxy:
  assumes "admitVerified C t rnd hello sessionID eph s = GoOk (s', Proxy h identity)"
  obtains s1 i g where "lookupIdentity t (take 8 sessionID) s = (s1, Some i)" "checkV1 (atCheck t) (replayKeyOf C sessionID eph) (guard s) = GoOk (g, True)"
    "h = hello" "guard s' = g" "ShortID identity = ShortID i" "UserID identity = UserID i" "UserName identity = UserName i" "DataPlaneBlocked identity = DataPlaneBlocked i"
proof -
  obtain s1 r where l: "lookupIdentity t (take 8 sessionID) s = (s1, r)" by fastforce
  then obtain i where i: "r = Some i" using assms by (cases r) (auto simp: admitVerified_def)
  have g: "guard s1 = guard s" using lookup_same [OF l] by simp
  obtain g fresh where c: "checkV1 (atCheck t) (replayKeyOf C sessionID eph) (guard s) = GoOk (g, fresh)"
    using assms l i g by (cases "checkV1 (atCheck t) (replayKeyOf C sessionID eph) (guard s)") (auto simp: admitVerified_def)
  obtain s2 i2 where st: "startSession rnd i (s1\<lparr>guard := g\<rparr>) = (s2, i2)" by fastforce
  have f: "fresh" "h = hello" "identity = i2" "guard s' = guard s2" using assms l i c g st by (auto simp: admitVerified_def split: if_splits)
  have "guard s2 = g" using startSession_same [OF st] by simp
  moreover have "ShortID i2 = ShortID i" "UserID i2 = UserID i" "UserName i2 = UserName i" "DataPlaneBlocked i2 = DataPlaneBlocked i"
    using st by (auto simp: startSession_def split: if_splits option.splits)
  ultimately show thesis using that [of s1 i g] l i c f by simp
qed

lemma handle_Proxy:
  assumes "handleConnection C t rnd stream s = GoOk (s', Proxy h identity)"
  obtains sid eph s0 where "hello_ids stream = Some (h, sid, eph)" "length sid = 32" "genuine C (cfg s) sid eph"
    "s0 = s\<lparr>limiter := fst (Allow_opt (atAllow t) (take 8 sid) (limiter s))\<rparr>"
    "admitVerified C t rnd h sid eph s0 = GoOk (s', Proxy h identity)"
proof -
  obtain hello sid eph where h: "hello_ids stream = Some (hello, sid, eph)"
    using assms handle_unreadable [of stream C t rnd s] by (cases "hello_ids stream") auto
  let ?s = "s\<lparr>limiter := fst (Allow_opt (atAllow t) (take 8 sid) (limiter s))\<rparr>"
  have "length sid = 32 \<and> genuine C (cfg s) sid eph \<and> admitVerified C t rnd hello sid eph ?s = GoOk (s', Proxy h identity)"
    using assms unfolding handle_readable [OF h] authenticate_cases by (simp add: Let_def split: if_splits)
  moreover from this have "h = hello" by (auto elim: admit_Proxy)
  ultimately show thesis using that [of sid eph ?s] h by simp
qed

lemma lookup_some:
  assumes "lookupIdentity t k s = (s1, Some i)"
  shows "ShortID i = k \<and> (case registry s of
      None \<Rightarrow> k = cfgMasterShortID (cfg s) \<and> UserID i = [] \<and> \<not> DataPlaneBlocked i
    | Some reg \<Rightarrow> \<exists>lk u. LookupBytes k reg = Some (lk, u) \<and> UserID i = fst lk \<and> UserName i = uName u \<and>
        (DataPlaneBlocked i \<longleftrightarrow> ExpiresAt u > 0 \<and> atLookup t div second > ExpiresAt u \<or> isOverQuota (atQuota t div second) u) \<and>
        (DataPlaneBlocked i \<longrightarrow> BundleEnabled (cfg s)))"
  using assms by (auto simp: lookupIdentity_def Let_def split: option.splits if_splits)

lemma read_record:
  assumes "length p \<le> 16384"
  shows "readClientHelloRecord (enc_record p @ rest) = GoOk (enc_record p, p)"
proof -
  have "drop 5 (a # b # c # d # e # xs) = xs" "take 5 (a # b # c # d # e # xs) = [a, b, c, d, e]" for a b c d e :: byte and xs
    by (simp_all add: eval_nat_numeral)
  then show ?thesis
    using assms by (simp add: readClientHelloRecord_def enc_record_def put16_def go_simps be_simps Let_def)
qed

lemma hello_ids_enc:
  assumes "wf_hello h" "find (\<lambda>(t, b). t = 0x0033) (extensions h) = Some (x, enc_vec16 (enc_tagged shares))" "wf_tagged shares"
    "find (\<lambda>(g, k). g = 0x001D \<and> length k = 32) shares = Some (y, eph)" "length (enc_handshake h) \<le> 16384"
  shows "hello_ids (enc_record (enc_handshake h) @ rest) = Some (enc_record (enc_handshake h), session_id h, eph)"
  using auth_parsers_enc [OF assms(1-4)] read_record [OF assms(5)] by (simp add: hello_ids_def)

lemma handle_admits:
  assumes "hello_ids stream = Some (hello, sid, eph)" "length sid = 32" "genuine C (cfg s) sid eph"
    "snd (Allow_opt (atAllow t) (take 8 sid) (limiter s))"
    "lookupIdentity t (take 8 sid) (s\<lparr>limiter := fst (Allow_opt (atAllow t) (take 8 sid) (limiter s))\<rparr>) = (s1, Some i)"
    "guard s = Some g" "guard_wf g" "\<not> (\<exists>tm. (replayKeyOf C sid eph, tm) \<in> set (seen g) \<and> atCheck t - tm \<le> window g)"
  shows "\<exists>s' i'. handleConnection C t rnd stream s = GoOk (s', Proxy hello i') \<and> UserID i' = UserID i \<and> DataPlaneBlocked i' = DataPlaneBlocked i \<and>
    ShortID i' = ShortID i \<and> connectAuthOK s' = connectAuthOK s1 + 1 \<and>
    (\<forall>x. UserID i \<noteq> [] \<and> rnd = Some x \<longrightarrow> SessionID i' = x \<and> started s' = started s1 @ [(UserID i, x)])"
proof -
  let ?s = "s\<lparr>limiter := fst (Allow_opt (atAllow t) (take 8 sid) (limiter s))\<rparr>"
  have g: "guard s1 = Some g" using lookup_same [OF assms(5)] assms(6) by simp
  obtain g' where k: "checkKey (atCheck t) (replayKeyOf C sid eph) g = GoOk (g', True)"
    by (rule checkKey_spec [OF assms(7), of "atCheck t" "replayKeyOf C sid eph"]) (use assms(8) in auto)
  obtain s2 i2 where st: "startSession rnd i (s1\<lparr>guard := Some g'\<rparr>) = (s2, i2)" by fastforce
  have "handleConnection C t rnd stream s = admitVerified C t rnd hello sid eph ?s"
    using assms(2-4) unfolding handle_readable [OF assms(1)] authenticate_cases by (simp add: Let_def)
  also have "\<dots> = GoOk (s2\<lparr>connectAuthOK := connectAuthOK s2 + 1\<rparr>, Proxy hello i2)"
    using assms(5) g k st by (simp add: admitVerified_def checkV1_def)
  finally show ?thesis using st by (auto simp: startSession_def split: if_splits option.splits)
qed

lemma sample_ids: "hello_ids sampleStream = Some (sampleStream, replicate 8 9 @ replicate 8 4 @ replicate 16 7, replicate 32 5)"
proof -
  have "hello_ids (enc_record (enc_handshake sampleHello) @ []) = Some (enc_record (enc_handshake sampleHello), session_id sampleHello, replicate 32 5)"
    by (rule hello_ids_enc [of _ 51 "[(0x11EC, [1, 2, 3]), (0x1D, replicate 32 5)]" 29])
      (simp_all add: sampleHello_def sample_hello_def wf_hello_def wf_tagged_def enc_names_def enc_handshake_def enc_body_def enc_vec8_def enc_vec16_def enc_tagged_def put24_def put16_def bytes_of_str_def)
  then show ?thesis by (simp add: sampleStream_def sampleHello_def)
qed

lemma sample_genuine: "genuine sampleCrypto (cfg sampleServer) (replicate 8 9 @ replicate 8 4 @ replicate 16 7) (replicate 32 5)"
  unfolding genuine_def
  by (rule exI [of _ "replicate 32 1"], rule exI [of _ 1])
    (simp add: sampleCrypto_def sampleServer_def DeriveServerPSK_def ECDHSharedSecret_def derivePSK_def sessionIDTag_def)

lemma sample_admitted: "\<exists>s' i. handleConnection sampleCrypto (sampleReadings 0) None sampleStream sampleServer = GoOk (s', Proxy sampleStream i)"
proof -
  have "\<exists>s1 i. lookupIdentity (sampleReadings 0) (replicate 8 9) (sampleServer\<lparr>limiter := fst (Allow_opt 0 (replicate 8 9) (limiter sampleServer))\<rparr>) = (s1, Some i)"
    by (simp add: lookupIdentity_def sampleServer_def)
  then show ?thesis
    using handle_admits [OF sample_ids _ sample_genuine, of "sampleReadings 0"] newReplayGuard_wf [of 0]
    by (fastforce simp: sampleServer_def sampleReadings_def Allow_opt_def newReplayGuard_def)
qed

section \<open>Properties\<close>

text \<open>C4. The gate lets only genuine clients through. When a connection is handed to the proxy, its
  ClientHello carries a 32 byte session id whose tag is, for an accepted wire version, the HMAC under the
  key the server derives for that very short id and ephemeral key; the short id is the one of the resulting
  identity and belongs to a user of the registry (or, without a registry, is the configured master id); the
  data plane is blocked exactly for expired or over-quota users, who get this far only when the config bundle
  is enabled; and the pair of session id and ephemeral key had not been recorded within the replay window.\<close>

theorem gate_admits_only_genuine:
  assumes "handleConnection C t rnd stream s = GoOk (s', Proxy hello identity)"
  shows "\<exists>sid eph. hello_ids stream = Some (hello, sid, eph) \<and> genuine C (cfg s) sid eph \<and> ShortID identity = take 8 sid \<and>
    (case registry s of
       None \<Rightarrow> take 8 sid = cfgMasterShortID (cfg s) \<and> UserID identity = [] \<and> \<not> DataPlaneBlocked identity
     | Some reg \<Rightarrow> \<exists>lk u. LookupBytes (take 8 sid) reg = Some (lk, u) \<and> UserID identity = fst lk \<and> UserName identity = uName u \<and>
         (DataPlaneBlocked identity \<longleftrightarrow> ExpiresAt u > 0 \<and> atLookup t div second > ExpiresAt u \<or> isOverQuota (atQuota t div second) u) \<and>
         (DataPlaneBlocked identity \<longrightarrow> BundleEnabled (cfg s))) \<and>
    (\<forall>g. guard s = Some g \<and> guard_wf g \<longrightarrow>
       \<not> (\<exists>tm. (replayKeyOf C sid eph, tm) \<in> set (seen g) \<and> atCheck t - tm \<le> window g))"
proof -
  obtain sid eph s0 where h: "hello_ids stream = Some (hello, sid, eph)" "genuine C (cfg s) sid eph"
    "s0 = s\<lparr>limiter := fst (Allow_opt (atAllow t) (take 8 sid) (limiter s))\<rparr>" "admitVerified C t rnd hello sid eph s0 = GoOk (s', Proxy hello identity)"
    using assms by (rule handle_Proxy) blast
  obtain s1 i g where a: "lookupIdentity t (take 8 sid) s0 = (s1, Some i)" "checkV1 (atCheck t) (replayKeyOf C sid eph) (guard s0) = GoOk (g, True)"
    "ShortID identity = ShortID i" "UserID identity = UserID i" "UserName identity = UserName i" "DataPlaneBlocked identity = DataPlaneBlocked i"
    using h(4) by (rule admit_Proxy) blast
  have s0: "registry s0 = registry s" "cfg s0 = cfg s" "guard s0 = guard s" using h(3) by simp_all
  have "\<not> (\<exists>tm. (replayKeyOf C sid eph, tm) \<in> set (seen gg) \<and> atCheck t - tm \<le> window gg)" if gg: "guard s = Some gg" "guard_wf gg" for gg
  proof -
    obtain g' ok where "checkKey (atCheck t) (replayKeyOf C sid eph) gg = GoOk (g', ok)"
      "ok = (\<not> (\<exists>tm. (replayKeyOf C sid eph, tm) \<in> set (seen gg) \<and> atCheck t - tm \<le> window gg))"
      by (rule checkKey_spec [OF gg(2)]) blast
    then show ?thesis using a(2) gg(1) s0(3) by (simp add: checkV1_def)
  qed
  then show ?thesis using h(1, 2) lookup_some [OF a(1)] unfolding s0 a(3-6) by (intro exI [of _ sid] exI [of _ eph]) blast
qed

theorem gate_admits_only_genuine_witness:
  "\<exists>s' i sid eph. handleConnection sampleCrypto (sampleReadings 0) None sampleStream sampleServer = GoOk (s', Proxy sampleStream i) \<and>
    hello_ids sampleStream = Some (sampleStream, sid, eph) \<and> genuine sampleCrypto (cfg sampleServer) sid eph \<and> ShortID i = take 8 sid"
  using sample_admitted gate_admits_only_genuine [of sampleCrypto "sampleReadings 0" None sampleStream sampleServer _ sampleStream] by blast

lemma limited_server:
  "s\<lparr>limiter := l, connectShortIDLimited := n, registry := r\<rparr> = s\<lparr>registry := r, limiter := l, connectShortIDLimited := n\<rparr>"
  "s\<lparr>limiter := l, registry := r\<rparr> = s\<lparr>registry := r, limiter := l\<rparr>"
  by (cases s, simp)+

text \<open>C7. Probing learns nothing about the users. Whatever bytes a prober sends, as long as they do not
  carry a genuine tag, the outcome and the whole server state afterwards (limiter, replay guard, counters,
  database statements) are the same for any two contents of the user registry, so a guessed short id is treated
  as an unknown one; and the outcome is one of the three that look like the masqueraded site or the plain
  server: dropped before a TLS record is complete, masqueraded, or the aborted handshake when rate limited.\<close>

theorem probes_learn_nothing:
  assumes "\<And>hello sid eph. hello_ids stream = Some (hello, sid, eph) \<Longrightarrow> \<not> genuine C (cfg s) sid eph"
  shows "\<exists>s' o'. (\<forall>reg. handleConnection C t rnd stream (s\<lparr>registry := reg\<rparr>) = GoOk (s'\<lparr>registry := reg\<rparr>, o')) \<and>
    (o' = Dropped \<or> (\<exists>hello. o' = Masquerade hello \<or> o' = ReplayReject hello)) \<and> guard s' = guard s \<and> notified s' = notified s \<and> started s' = started s"
proof (cases "hello_ids stream")
  case None
  have "\<exists>o'. (\<forall>s. handleConnection C t rnd stream s = GoOk (s, o')) \<and> (o' = Dropped \<or> (\<exists>h. o' = Masquerade h))"
  proof (cases "readClientHelloRecord stream")
    case (GoOk m)
    obtain hello msg where m: "m = (hello, msg)" by fastforce
    have np: "ExtractSessionID msg \<noteq> GoPanic" "ExtractX25519FromKeyShare msg \<noteq> GoPanic"
      using ExtractSessionID_no_panic [of msg] ExtractX25519_no_panic [of msg] by (auto simp: no_panic_def)
    show ?thesis
      using GoOk m np None by (cases "ExtractSessionID msg"; cases "ExtractX25519FromKeyShare msg") (auto simp: handleConnection_def hello_ids_def)
  qed (use readClientHelloRecord_no_panic in \<open>auto simp: handleConnection_def\<close>)
  then obtain o' where "\<forall>s. handleConnection C t rnd stream s = GoOk (s, o')" "o' = Dropped \<or> (\<exists>h. o' = Masquerade h)" by blast
  then show ?thesis by (intro exI [of _ s] exI [of _ o']) auto
next
  case (Some h)
  obtain hello sid eph where h: "h = (hello, sid, eph)" by (metis prod_cases3)
  have ng: "\<not> genuine C (cfg s) sid eph" using assms Some h by blast
  define l where "l = Allow_opt (atAllow t) (take 8 sid) (limiter s)"
  define s' where "s' = (if length sid \<noteq> 32 then s else if snd l then s\<lparr>limiter := fst l\<rparr>
    else s\<lparr>limiter := fst l, connectShortIDLimited := connectShortIDLimited s + 1\<rparr>)"
  define o' where "o' = (if length sid = 32 \<and> \<not> snd l then ReplayReject hello else Masquerade hello)"
  have "handleConnection C t rnd stream (s\<lparr>registry := reg\<rparr>) = GoOk (s'\<lparr>registry := reg\<rparr>, o')" for reg
    using handle_readable [OF Some [unfolded h], of C t rnd "s\<lparr>registry := reg\<rparr>"] ng
    by (simp add: authenticate_cases Let_def s'_def o'_def l_def limited_server)
  moreover have "guard s' = guard s" "notified s' = notified s" "started s' = started s" by (simp_all add: s'_def)
  ultimately show ?thesis by (intro exI [of _ s'] exI [of _ o']) (auto simp: o'_def)
qed

theorem probes_learn_nothing_witness:
  "\<exists>s' o'. (\<forall>reg. handleConnection sampleCrypto (sampleReadings 0) None [22, 3, 1, 0, 1, 1] (sampleServer\<lparr>registry := reg\<rparr>) = GoOk (s'\<lparr>registry := reg\<rparr>, o')) \<and>
    guard s' = guard sampleServer"
proof -
  have "hello_ids [22, 3, 1, 0, 1, 1] = None" by code_simp
  then show ?thesis using probes_learn_nothing [of "[22, 3, 1, 0, 1, 1]" sampleCrypto sampleServer "sampleReadings 0" None] by auto
qed



lemma built_is_genuine:
  assumes "cX25519 C ephPriv (pubkey srvPriv) = cX25519 C srvPriv (pubkey ephPriv)"
    and len: "length ephPriv = 32" "length srvPriv = 32" "length (pubkey ephPriv) = 32" "length (pubkey srvPriv) = 32"
    and hm: "\<And>k m. length (cHMAC C k m) = 32" and rn: "\<And>r. nonceRand = Some r \<Longrightarrow> length r = 8"
    and client: "DeriveClientPSK (cX25519 C) (cHKDF C) ephPriv (pubkey srvPriv) shortID = GoOk psk"
    and build: "buildSessionID (cHMAC C) nonceRand psk shortID (pubkey ephPriv) nonce v = GoOk sid"
    and v: "v = 1 \<or> v = 2" "MinAcceptedWireVersion c \<le> uint v" "uint v \<le> MaxAcceptedWireVersion c"
    and short: "length shortID = 8" and key: "PrivateKey c = srvPriv"
  shows "genuine C c sid (pubkey ephPriv)" "take 8 sid = shortID" "length sid = 32"
proof -
  have "verifySessionIDExact (cHMAC C) sid psk (pubkey ephPriv) shortID v = GoOk True"
    by (rule build_verifies_exact [OF build short rn hm])
  then have e: "length sid = 32" "length psk = 32" "take 8 sid = shortID" "drop 16 sid = sessionIDTag (cHMAC C) psk shortID (take 8 (drop 8 sid)) (pubkey ephPriv) v"
    by (auto simp: verifySessionIDExact_True)
  have "DeriveServerPSK (cX25519 C) (cHKDF C) srvPriv (pubkey ephPriv) shortID = GoOk psk"
    using client assms(1) len by (simp add: DeriveClientPSK_def DeriveServerPSK_def ECDHSharedSecret_def)
  then show "genuine C c sid (pubkey ephPriv)" using e v key len(3) unfolding genuine_def by blast
  show "take 8 sid = shortID" "length sid = 32" using e by simp_all
qed

lemma lookup_active:
  assumes "registry s = Some reg" "LookupBytes k reg = Some (lk, u)" "\<not> (ExpiresAt u > 0 \<and> atLookup t div second > ExpiresAt u)"
    "\<not> isOverQuota (atQuota t div second) u"
  shows "\<exists>i. lookupIdentity t k s = (s, Some i) \<and> UserID i = fst lk \<and> \<not> DataPlaneBlocked i \<and> ShortID i = k"
  using assms by (auto simp: lookupIdentity_def)

text \<open>C6. Every real client gets in. A client that derives its key from the server's public key, builds its
  session id with an accepted wire version and sends it in any well-formed ClientHello (of at most 16384
  bytes, with its ephemeral key as the X25519 share) is handed to the proxy as its user, with the data plane
  open, when the registry knows its short id, the user is neither expired nor over quota, the limiter lets
  the short id pass and the guard has not recorded this session id and key within the window; the crypto
  primitives are only assumed to behave as documented. A session is started under the id drawn for it.\<close>

theorem client_is_admitted:
  assumes dh: "cX25519 C ephPriv (pubkey srvPriv) = cX25519 C srvPriv (pubkey ephPriv)"
    and len: "length ephPriv = 32" "length srvPriv = 32" "length (pubkey ephPriv) = 32" "length (pubkey srvPriv) = 32"
    and hm: "\<And>k m. length (cHMAC C k m) = 32" and rn: "\<And>r. nonceRand = Some r \<Longrightarrow> length r = 8"
    and client: "DeriveClientPSK (cX25519 C) (cHKDF C) ephPriv (pubkey srvPriv) shortID = GoOk psk"
    and build: "buildSessionID (cHMAC C) nonceRand psk shortID (pubkey ephPriv) nonce v = GoOk (session_id h)"
    and v: "v = 1 \<or> v = 2" "MinAcceptedWireVersion (cfg s) \<le> uint v" "uint v \<le> MaxAcceptedWireVersion (cfg s)"
    and short: "length shortID = 8" and key: "PrivateKey (cfg s) = srvPriv"
    and hello: "wf_hello h" "find (\<lambda>(t, b). t = 0x0033) (extensions h) = Some (x, enc_vec16 (enc_tagged shares))" "wf_tagged shares"
      "find (\<lambda>(g, k). g = 0x001D \<and> length k = 32) shares = Some (y, pubkey ephPriv)" "length (enc_handshake h) \<le> 16384"
    and user: "registry s = Some reg" "LookupBytes shortID reg = Some (lk, u)" "\<not> (ExpiresAt u > 0 \<and> atLookup t div second > ExpiresAt u)"
      "\<not> isOverQuota (atQuota t div second) u"
    and lim: "snd (Allow_opt (atAllow t) shortID (limiter s))"
    and fresh: "guard s = Some g" "guard_wf g"
      "\<not> (\<exists>tm. (replayKeyOf C (session_id h) (pubkey ephPriv), tm) \<in> set (seen g) \<and> atCheck t - tm \<le> window g)"
  shows "\<exists>s' i. handleConnection C t rnd (enc_record (enc_handshake h) @ rest) s = GoOk (s', Proxy (enc_record (enc_handshake h)) i) \<and>
    UserID i = fst lk \<and> \<not> DataPlaneBlocked i \<and> ShortID i = shortID \<and>
    (\<forall>sess. fst lk \<noteq> [] \<and> rnd = Some sess \<longrightarrow> SessionID i = sess \<and> started s' = started s @ [(fst lk, sess)])"
proof -
  note b = built_is_genuine [OF dh len hm rn client build v short key]
  let ?s = "s\<lparr>limiter := fst (Allow_opt (atAllow t) (take 8 (session_id h)) (limiter s))\<rparr>"
  obtain i where i: "lookupIdentity t (take 8 (session_id h)) ?s = (?s, Some i)" "UserID i = fst lk" "\<not> DataPlaneBlocked i" "ShortID i = shortID"
    using lookup_active [of ?s reg shortID lk u t] user b(2) by auto
  have l: "snd (Allow_opt (atAllow t) (take 8 (session_id h)) (limiter s))" using lim b(2) by simp
  show ?thesis
    using handle_admits [OF hello_ids_enc [OF hello] b(3, 1) l i(1) fresh, of rnd rest] i(2-4) by auto
qed

theorem client_is_admitted_witness:
  "let reg = fst (Reload (GoOk [sampleRow]) NewRegistry); h = sampleHello\<lparr>session_id := [0, 255, 0, 255, 0, 255, 0, 255] @ replicate 8 4 @ replicate 16 7\<rparr> in
   \<exists>s' i. handleConnection sampleCrypto (sampleReadings 0) (Some ''abc'') (enc_record (enc_handshake h)) (sampleServer\<lparr>registry := Some reg\<rparr>) =
     GoOk (s', Proxy (enc_record (enc_handshake h)) i) \<and> UserID i = ''u1'' \<and> SessionID i = ''abc''"
proof -
  let ?sid = "[0, 255, 0, 255, 0, 255, 0, 255] :: bytes"
  let ?h = "sampleHello\<lparr>session_id := ?sid @ replicate 8 4 @ replicate 16 7\<rparr>"
  let ?reg = "fst (Reload (GoOk [sampleRow]) NewRegistry)"
  let ?s = "sampleServer\<lparr>registry := Some ?reg\<rparr>"
  have "map_option (\<lambda>(lk, u). (lk, ExpiresAt u, BandwidthCap u)) (LookupBytes ?sid ?reg) = Some ((''u1'', -1), 0, 0)" by code_simp
  then obtain u where u: "LookupBytes ?sid ?reg = Some ((''u1'', -1), u)" "ExpiresAt u = 0" "BandwidthCap u = 0" by auto
  have "\<exists>s' i. handleConnection sampleCrypto (sampleReadings 0) (Some ''abc'') (enc_record (enc_handshake ?h) @ []) ?s =
      GoOk (s', Proxy (enc_record (enc_handshake ?h)) i) \<and> UserID i = fst (''u1'', -1 :: int) \<and> \<not> DataPlaneBlocked i \<and> ShortID i = ?sid \<and>
      (\<forall>sess. fst (''u1'', -1 :: int) \<noteq> [] \<and> Some ''abc'' = Some sess \<longrightarrow> SessionID i = sess \<and> started s' = started ?s @ [(fst (''u1'', -1 :: int), sess)])"
  proof (rule client_is_admitted [where ephPriv = "replicate 32 5" and pubkey = id and srvPriv = "replicate 32 3" and nonceRand = None and
        psk = "replicate 32 1" and nonce = "Some (replicate 8 4)" and v = 1 and x = 51 and y = 29 and u = u and
        shares = "[(0x11EC, [1, 2, 3]), (0x1D, replicate 32 5)]" and reg = ?reg and g = "newReplayGuard 0"])
    show "LookupBytes ?sid ?reg = Some ((''u1'', -1), u)" by (rule u(1))
  qed (simp_all add: u sampleCrypto_def sampleServer_def sampleHello_def sample_hello_def sampleReadings_def DeriveClientPSK_def ECDHSharedSecret_def derivePSK_def
      buildSessionID_def sessionIDTag_def wf_hello_def wf_tagged_def enc_names_def enc_handshake_def enc_body_def enc_vec8_def enc_vec16_def enc_tagged_def
      put24_def put16_def bytes_of_str_def isOverQuota_def Allow_opt_def newReplayGuard_wf, simp add: newReplayGuard_def)
  then show ?thesis by (simp add: Let_def) blast
qed

end
