(* ===== verification/NetAddr.thy ===== *)
theory NetAddr
  imports Prelude
begin

text \<open>
  The pieces of Go's \<open>net/netip\<close>, \<open>net\<close> and \<open>strings\<close> that routing relies on, as executable
  definitions: textual addresses and prefixes, containment, splitting and searching strings.
\<close>

section \<open>Strings\<close>

fun split_on :: "char \<Rightarrow> string \<Rightarrow> string list" where
  "split_on c [] = [[]]"
| "split_on c (x # xs) = (if x = c then [] # split_on c xs
     else (case split_on c xs of [] \<Rightarrow> [[x]] | p # ps \<Rightarrow> (x # p) # ps))"

primrec has_prefix :: "string \<Rightarrow> string \<Rightarrow> bool" where
  "has_prefix s [] = True"
| "has_prefix s (c # cs) = (s \<noteq> [] \<and> hd s = c \<and> has_prefix (tl s) cs)"

fun contains :: "string \<Rightarrow> string \<Rightarrow> bool" where
  "contains [] p = (p = [])"
| "contains (c # cs) p = (has_prefix (c # cs) p \<or> contains cs p)"

definition trim_suffix :: "string \<Rightarrow> string \<Rightarrow> string" where
  "trim_suffix s t = (if length t \<le> length s \<and> drop (length s - length t) s = t then take (length s - length t) s else s)"

definition index_byte :: "char \<Rightarrow> string \<Rightarrow> nat option" where
  "index_byte c s = (if c \<in> set s then Some (length (takeWhile (\<lambda>x. x \<noteq> c) s)) else None)"

section \<open>Addresses\<close>

text \<open>An IPv6 address carries its zone.\<close>

datatype addr = V4 "32 word" | V6 "128 word" string

definition hex_value :: "char \<Rightarrow> int option" where
  "hex_value c = (let n = (of_char c :: int) in
     if 48 \<le> n \<and> n \<le> 57 then Some (n - 48) else if 97 \<le> n \<and> n \<le> 102 then Some (n - 87)
     else if 65 \<le> n \<and> n \<le> 70 then Some (n - 55) else None)"

definition v4_field :: "string \<Rightarrow> int option" where
  "v4_field s = (if s = [] \<or> \<not> list_all is_digit s \<or> length s > 1 \<and> hd s = CHR ''0'' \<or> digits_value s > 255 then None
     else Some (digits_value s))"

definition parseIPv4 :: "string \<Rightarrow> int option" where
  "parseIPv4 s = (case map v4_field (split_on (CHR ''.'') s) of
     [Some a, Some b, Some c, Some d] \<Rightarrow> Some (((a * 256 + b) * 256 + c) * 256 + d) | _ \<Rightarrow> None)"

definition hex_group :: "string \<Rightarrow> int" where
  "hex_group s = foldl (\<lambda>v c. 16 * v + (case hex_value c of Some d \<Rightarrow> d | None \<Rightarrow> 0)) 0 s"

text \<open>The loop of \<open>parseIPv6\<close> over at most eight groups: groups read, position of the ellipsis, rest.\<close>

primrec parseGroups :: "nat \<Rightarrow> string \<Rightarrow> int list \<Rightarrow> nat option \<Rightarrow> (int list \<times> nat option \<times> string) option" where
  "parseGroups 0 s gs ell = Some (gs, ell, s)"
| "parseGroups (Suc n) s gs ell =
    (let hex = takeWhile (\<lambda>c. hex_value c \<noteq> None) s; rest = drop (length hex) s; gs' = gs @ [hex_group hex] in
     if hex = [] \<or> length hex > 4 then None
     else case rest of
       [] \<Rightarrow> Some (gs', ell, [])
     | c # r \<Rightarrow>
        if c = CHR ''.'' then
          (if ell = None \<and> length gs \<noteq> 6 \<or> length gs > 6 then None
           else case parseIPv4 s of None \<Rightarrow> None | Some w \<Rightarrow> Some (gs @ [w div 65536, w mod 65536], ell, []))
        else if c \<noteq> CHR '':'' \<or> r = [] then None
        else if hd r = CHR '':'' then
          (if ell \<noteq> None then None
           else if tl r = [] then Some (gs', Some (length gs'), [])
           else parseGroups n (tl r) gs' (Some (length gs')))
        else parseGroups n r gs' ell)"

definition expandGroups :: "int list \<Rightarrow> nat option \<Rightarrow> int list option" where
  "expandGroups gs ell =
    (if length gs < 8 then (case ell of None \<Rightarrow> None | Some i \<Rightarrow> Some (take i gs @ replicate (8 - length gs) 0 @ drop i gs))
     else if ell = None then Some gs else None)"

definition parseIPv6 :: "string \<Rightarrow> addr option" where
  "parseIPv6 input =
    (let s = takeWhile (\<lambda>c. c \<noteq> CHR ''%'') input; z = drop (length s) input in
     if z \<noteq> [] \<and> tl z = [] then None
     else let zone = (if z = [] then [] else tl z);
              (ell, s) = (if has_prefix s ''::'' then (Some 0, drop 2 s) else (None, s))
          in if ell = Some 0 \<and> s = [] then Some (V6 0 zone)
             else case parseGroups 8 s [] ell of None \<Rightarrow> None
               | Some (gs, ell, rest) \<Rightarrow>
                   if rest \<noteq> [] then None
                   else map_option (\<lambda>gs. V6 (word_of_int (foldl (\<lambda>v g. 65536 * v + g) 0 gs)) zone) (expandGroups gs ell))"

definition ParseAddr :: "string \<Rightarrow> addr option" where
  "ParseAddr s = (case dropWhile (\<lambda>c. c \<noteq> CHR ''.'' \<and> c \<noteq> CHR '':'' \<and> c \<noteq> CHR ''%'') s of
     [] \<Rightarrow> None
   | c # _ \<Rightarrow> if c = CHR ''.'' then map_option (\<lambda>w. V4 (word_of_int w)) (parseIPv4 s)
       else if c = CHR '':'' then parseIPv6 s else None)"

definition is4In6 :: "addr \<Rightarrow> bool" where
  "is4In6 a = (case a of V4 _ \<Rightarrow> False | V6 w _ \<Rightarrow> drop_bit 32 w = 0xffff)"

definition Unmap :: "addr \<Rightarrow> addr" where
  "Unmap a = (case a of V4 w \<Rightarrow> V4 w | V6 w z \<Rightarrow> if is4In6 a then V4 (ucast w) else V6 w z)"

text \<open>\<open>net.ParseIP\<close> and \<open>netip.AddrFromSlice\<close> on its 16 byte result: a zone is refused, an IPv4 address
  comes back mapped.\<close>

definition map4 :: "32 word \<Rightarrow> addr" where
  "map4 w = V6 (push_bit 32 0xffff OR ucast w) []"

definition ParseIP :: "string \<Rightarrow> addr option" where
  "ParseIP s = (case ParseAddr s of None \<Rightarrow> None
     | Some (V4 w) \<Rightarrow> Some (map4 w)
     | Some (V6 w z) \<Rightarrow> if z = [] then Some (V6 w []) else None)"

section \<open>Prefixes\<close>

type_synonym prefix = "addr \<times> nat"

definition zone_of :: "addr \<Rightarrow> string" where
  "zone_of a = (case a of V4 _ \<Rightarrow> [] | V6 _ z \<Rightarrow> z)"

definition max_bits :: "addr \<Rightarrow> nat" where
  "max_bits a = (case a of V4 _ \<Rightarrow> 32 | V6 _ _ \<Rightarrow> 128)"

definition ParsePrefix :: "string \<Rightarrow> prefix option" where
  "ParsePrefix s =
    (if CHR ''/'' \<notin> set s then None
     else let bits = rev (takeWhile (\<lambda>c. c \<noteq> CHR ''/'') (rev s)); host = take (length s - length bits - 1) s in
     case ParseAddr host of None \<Rightarrow> None
     | Some a \<Rightarrow>
        if zone_of a \<noteq> [] then None
        else if length bits > 1 \<and> \<not> (is_digit (hd bits) \<and> hd bits \<noteq> CHR ''0'') then None
        else (case Atoi bits of None \<Rightarrow> None
          | Some n \<Rightarrow> if n < 0 \<or> n > int (max_bits a) then None else Some (a, nat n)))"

text \<open>\<open>Prefix.Contains\<close>: the leading bits agree; families never mix and a zone never matches.\<close>

fun prefix_contains :: "prefix \<Rightarrow> addr \<Rightarrow> bool" where
  "prefix_contains (V4 p, b) (V4 a) = (drop_bit (32 - b) (p XOR a) = 0)"
| "prefix_contains (V6 p z, b) (V6 a z') = (z' = [] \<and> drop_bit (128 - b) (p XOR a) = 0)"
| "prefix_contains (p, b) a = False"

definition be_value :: "bytes \<Rightarrow> int" where
  "be_value bs = foldl (\<lambda>v b. 256 * v + uint b) 0 bs"

text \<open>Big-endian bytes of a number.\<close>

primrec encBE :: "nat \<Rightarrow> int \<Rightarrow> bytes" where
  "encBE 0 v = []"
| "encBE (Suc n) v = encBE n (v div 256) @ [word_of_int v]"

definition AddrFromSlice :: "bytes \<Rightarrow> addr option" where
  "AddrFromSlice bs = (if length bs = 4 then Some (V4 (word_of_int (be_value bs)))
     else if length bs = 16 then Some (V6 (word_of_int (be_value bs)) []) else None)"

section \<open>Facts\<close>

lemma be_value_snoc: "be_value (bs @ [b]) = 256 * be_value bs + uint b"
  by (simp add: be_value_def)

lemma encBE_inverse: "0 \<le> v \<Longrightarrow> v < 256 ^ n \<Longrightarrow> be_value (encBE n v) = v"
proof (induction n arbitrary: v)
  case (Suc n)
  have "v div 256 < 256 ^ n" using Suc.prems by (simp add: div_less_iff_less_mult mult.commute)
  then show ?case using Suc by (simp add: be_value_snoc uint_word_of_int)
qed (simp add: be_value_def)

lemma length_encBE [simp]: "length (encBE n v) = n"
  by (induction n arbitrary: v) simp_all

lemma Unmap_map4 [simp]: "Unmap (map4 w) = V4 w"
proof -
  have e: "(0xffff :: 128 word) = mask 16" by (simp add: mask_eq_exp_minus_1)
  have "drop_bit 32 (push_bit 32 (mask 16) OR (ucast w :: 128 word)) = mask 16"
    by (rule bit_word_eqI) (auto simp: bit_simps dest: bit_imp_le_length)
  moreover have "ucast (push_bit 32 (mask 16) OR (ucast w :: 128 word)) = w"
    by (rule bit_word_eqI) (auto simp: bit_simps)
  ultimately show ?thesis unfolding Unmap_def is4In6_def map4_def e by simp
qed

lemma has_prefix_take: "has_prefix s p \<longleftrightarrow> take (length p) s = p"
proof (induction p arbitrary: s)
  case (Cons c p)
  then show ?case by (cases s) auto
qed simp

lemma contains_iff: "contains s p \<longleftrightarrow> (\<exists>a b. s = a @ p @ b)"
proof (induction s)
  case (Cons c s)
  have "has_prefix (c # s) p \<longleftrightarrow> (\<exists>b. c # s = p @ b)" by (metis append_take_drop_id append_eq_conv_conj has_prefix_take)
  then show ?case using Cons by (auto simp: Cons_eq_append_conv)
qed simp

end
