(* ===== verification/Balancer.thy ===== *)
theory Balancer
  imports NetAddr "HOL-Library.Signed_Division" "HOL-Library.Multiset"
begin

text \<open>
  internal/outbounds/balancer.go: the configuration of a balancer, the order in which it tries its
  members, and the memory it keeps of slow and failing ones. Members are positions in the list of the
  configuration. The decoded JSON or URI, the RTT probes of the members and the clock are arguments;
  64-bit arithmetic wraps as in Go. Dialling through members is in the theory \<open>OutboundRegistry\<close>,
  because it takes and returns leases.
\<close>

section \<open>Configuration\<close>

record BalancerConfig =
  cfgMode :: string
  cfgOutbounds :: "string list"
  cfgFailover :: bool
  cfgRTT :: int

record rawBalancerConfig =
  rcMode :: string
  rcOutbounds :: "string list"
  rcMembers :: "string list"
  rcTargets :: "string list"
  rcFailover :: bool
  rcRTTThresholdMs :: int
  rcHighRTTMs :: int
  rcMaxRTTMs :: int

text \<open>A parsed \<open>balancer://\<close> URI: host, path and the first value of each query key (empty when absent).\<close>

record balancerURI =
  uHost :: string
  uPath :: string
  uQuery :: "string \<Rightarrow> string"

definition parseBoolish :: "string \<Rightarrow> bool" where
  "parseBoolish raw = (to_lower (trim_space raw) \<in> {''1'', ''true'', ''yes'', ''y'', ''on'', ''enabled''})"

definition parsePositiveInt64 :: "string \<Rightarrow> int" where
  "parsePositiveInt64 raw = (case Atoi (trim_space raw) of None \<Rightarrow> 0 | Some v \<Rightarrow> if v \<le> 0 \<or> v \<ge> 2 ^ 63 then 0 else v)"

primrec firstPositiveInt64 :: "int list \<Rightarrow> int" where
  "firstPositiveInt64 [] = 0"
| "firstPositiveInt64 (v # vs) = (if v > 0 then v else firstPositiveInt64 vs)"

definition normalizeBalancerMode :: "string \<Rightarrow> (string, string) gores" where
  "normalizeBalancerMode mode =
    (let m = to_lower (trim_space mode) in
     if m \<in> {'''', ''alive'', ''failover'', ''first_alive'', ''first-alive''} then GoOk ''alive''
     else if m \<in> {''round_robin'', ''round-robin'', ''rr''} then GoOk ''round_robin''
     else GoErr ''unsupported balancer mode'')"

definition splitBalancerMembers :: "string \<Rightarrow> string list" where
  "splitBalancerMembers raw = (if trim_space raw = [] then [] else split_on (CHR '','') raw)"

definition normalizeBalancerMembers :: "string list \<Rightarrow> string list" where
  "normalizeBalancerMembers ts = filter (\<lambda>t. t \<noteq> []) (map trim_space ts)"

text \<open>\<open>strings.Trim(strings.TrimSpace(s), "/")\<close>.\<close>

definition trimSlashes :: "string \<Rightarrow> string" where
  "trimSlashes s = (let slash = (\<lambda>c. c = CHR ''/'') in rev (dropWhile slash (rev (dropWhile slash (trim_space s)))))"

definition fromJSON :: "rawBalancerConfig \<Rightarrow> BalancerConfig" where
  "fromJSON rc = \<lparr>cfgMode = rcMode rc,
     cfgOutbounds = (if length (rcOutbounds rc) > 0 then rcOutbounds rc else if length (rcMembers rc) > 0 then rcMembers rc
       else if length (rcTargets rc) > 0 then rcTargets rc else []),
     cfgFailover = rcFailover rc, cfgRTT = firstPositiveInt64 [rcRTTThresholdMs rc, rcHighRTTMs rc, rcMaxRTTMs rc]\<rparr>"

definition fromURI :: "balancerURI \<Rightarrow> BalancerConfig" where
  "fromURI u =
    (let q = uQuery u;
         m = q ''mode''; m = (if m = [] then trimSlashes (uHost u) else m); m = (if m = [] then trimSlashes (uPath u) else m);
         ms = q ''outbounds''; ms = (if ms = [] then q ''members'' else ms); ms = (if ms = [] then q ''targets'' else ms) in
     \<lparr>cfgMode = m, cfgOutbounds = splitBalancerMembers ms, cfgFailover = parseBoolish (q ''failover_on_high_rtt''),
      cfgRTT = firstPositiveInt64 [parsePositiveInt64 (q ''rtt_threshold_ms''), parsePositiveInt64 (q ''high_rtt_ms''), parsePositiveInt64 (q ''max_rtt_ms'')]\<rparr>)"

definition ParseBalancerConfig ::
  "(string \<Rightarrow> rawBalancerConfig option) \<Rightarrow> (string \<Rightarrow> balancerURI option) \<Rightarrow> string \<Rightarrow> (string, BalancerConfig) gores" where
  "ParseBalancerConfig json uri raw0 =
    (let raw = trim_space raw0 in
     if raw = [] then GoErr ''balancer config is empty''
     else go_bind
       (if has_prefix raw ''{'' then (case json raw of None \<Rightarrow> GoErr ''parse balancer json'' | Some rc \<Rightarrow> GoOk (fromJSON rc))
        else if has_prefix raw ''balancer://'' then (case uri raw of None \<Rightarrow> GoErr ''parse balancer uri'' | Some u \<Rightarrow> GoOk (fromURI u))
        else GoErr ''balancer config must be JSON or balancer:// URI'') (\<lambda>cfg.
     go_bind (normalizeBalancerMode (cfgMode cfg)) (\<lambda>mode.
     let members = normalizeBalancerMembers (cfgOutbounds cfg) in
     if length members = 0 then GoErr ''balancer must reference at least one outbound''
     else GoOk \<lparr>cfgMode = mode, cfgOutbounds = members, cfgFailover = cfgFailover cfg, cfgRTT = (if cfgRTT cfg < 0 then 0 else cfgRTT cfg)\<rparr>)))"

section \<open>The balancer\<close>

text \<open>\<open>'d\<close> is what a member refers to.\<close>

record 'd BalancerDialer =
  bTag :: string
  bMode :: string
  members :: "(string \<times> 'd) list"
  bnext :: "64 word"
  aliveCooldown :: nanos
  failoverOnHighRTT :: bool
  rttThresholdMs :: int
  cooldowns :: "int list"
  highRTTStates :: "bool list"

record RTTSnapshot =
  P50Ms :: int
  LastMs :: int

text \<open>\<open>nested d\<close>: the dialer is itself a balancer.\<close>

primrec collectMembers :: "('d \<Rightarrow> bool) \<Rightarrow> (string \<Rightarrow> 'd option) \<Rightarrow> string \<Rightarrow> string list \<Rightarrow> (string, (string \<times> 'd) list) gores" where
  "collectMembers nested byTag tag [] = GoOk []"
| "collectMembers nested byTag tag (m # ms) =
    (if m = tag then GoErr ''balancer cannot reference itself''
     else case byTag m of None \<Rightarrow> GoErr ''balancer references missing outbound''
       | Some d \<Rightarrow> if nested d then GoErr ''balancer cannot reference nested balancer''
           else go_bind (collectMembers nested byTag tag ms) (\<lambda>r. GoOk ((m, d) # r)))"

definition newBalancerDialer :: "('d \<Rightarrow> bool) \<Rightarrow> (string \<Rightarrow> 'd option) \<Rightarrow> string \<Rightarrow> BalancerConfig \<Rightarrow> (string, 'd BalancerDialer) gores" where
  "newBalancerDialer nested byTag tag0 cfg =
    (let tag = trim_space tag0 in
     if tag = [] then GoErr ''balancer tag is empty''
     else go_bind (normalizeBalancerMode (cfgMode cfg)) (\<lambda>mode.
     let memberTags = normalizeBalancerMembers (cfgOutbounds cfg) in
     if length memberTags = 0 then GoErr ''balancer must reference at least one outbound''
     else go_bind (collectMembers nested byTag tag memberTags) (\<lambda>ms.
     let rtt = (if cfgRTT cfg < 0 then 0 else cfgRTT cfg) in
     GoOk \<lparr>bTag = tag, bMode = mode, members = ms, bnext = 0, aliveCooldown = 30 * second,
       failoverOnHighRTT = (cfgFailover cfg \<and> rtt > 0), rttThresholdMs = rtt,
       cooldowns = replicate (length ms) 0, highRTTStates = replicate (length ms) False\<rparr>)))"

text \<open>\<open>int64\<close> arithmetic.\<close>

definition wrap64 :: "int \<Rightarrow> int" where
  "wrap64 x = sint (word_of_int x :: 64 word)"

definition rttRecoveryThresholdMs :: "'d BalancerDialer \<Rightarrow> int" where
  "rttRecoveryThresholdMs b =
    (if rttThresholdMs b \<le> 1 then 0
     else let recovery = wrap64 (rttThresholdMs b * 9) sdiv 10;
              recovery = (if recovery \<ge> rttThresholdMs b then rttThresholdMs b - 1 else recovery)
          in if recovery < 1 then 1 else recovery)"

definition balancerRTTMetricMs :: "RTTSnapshot \<Rightarrow> int option" where
  "balancerRTTMetricMs st =
    (if P50Ms st < 0 \<and> LastMs st < 0 then None
     else if P50Ms st < 0 then Some (LastMs st)
     else if LastMs st < 0 then Some (P50Ms st)
     else if LastMs st > P50Ms st then Some (LastMs st) else Some (P50Ms st))"

text \<open>\<open>rtt d\<close>: the probe of a dialer, \<open>None\<close> when it has none. The first result is the metric when the member is
  to be held back.\<close>

definition noteHighRTTIfUnhealthy :: "('d \<Rightarrow> RTTSnapshot option) \<Rightarrow> nat \<Rightarrow> 'd BalancerDialer \<Rightarrow> 'd BalancerDialer \<times> int option" where
  "noteHighRTTIfUnhealthy rtt i b =
    (if bMode b \<noteq> ''alive'' \<or> \<not> failoverOnHighRTT b \<or> rttThresholdMs b \<le> 0 then (b, None)
     else if i \<ge> length (members b) \<or> i \<ge> length (highRTTStates b) then (b, None)
     else let clear = b\<lparr>highRTTStates := (highRTTStates b)[i := False]\<rparr> in
     case rtt (snd (members b ! i)) of
       None \<Rightarrow> (clear, None)
     | Some st \<Rightarrow>
        (case balancerRTTMetricMs st of
           None \<Rightarrow> (clear, None)
         | Some rttMs \<Rightarrow>
             if highRTTStates b ! i then
               if rttMs > rttRecoveryThresholdMs b then (b, Some rttMs) else (clear, None)
             else if rttMs > rttThresholdMs b then (b\<lparr>highRTTStates := (highRTTStates b)[i := True]\<rparr>, Some rttMs)
             else (b, None)))"

text \<open>The loop over the members: healthy ones, slow ones with their metric, cooling ones.\<close>

primrec classify :: "('d \<Rightarrow> RTTSnapshot option) \<Rightarrow> int \<Rightarrow> nat list \<Rightarrow> 'd BalancerDialer \<Rightarrow> 'd BalancerDialer \<times> nat list \<times> (nat \<times> int) list \<times> nat list" where
  "classify rtt nowNS [] b = (b, [], [], [])"
| "classify rtt nowNS (i # is) b =
    (if i < length (cooldowns b) \<and> cooldowns b ! i > nowNS then
       (case classify rtt nowNS is b of (b, healthy, high, cooling) \<Rightarrow> (b, healthy, high, i # cooling))
     else case noteHighRTTIfUnhealthy rtt i b of
       (b, Some rttMs) \<Rightarrow> (case classify rtt nowNS is b of (b, healthy, high, cooling) \<Rightarrow> (b, healthy, (i, rttMs) # high, cooling))
     | (b, None) \<Rightarrow> (case classify rtt nowNS is b of (b, healthy, high, cooling) \<Rightarrow> (b, i # healthy, high, cooling)))"

definition orderedAliveMembers :: "('d \<Rightarrow> RTTSnapshot option) \<Rightarrow> int \<Rightarrow> 'd BalancerDialer \<Rightarrow> 'd BalancerDialer \<times> nat list" where
  "orderedAliveMembers rtt nowNS b =
    (case classify rtt nowNS [0..<length (members b)] b of
       (b, healthy, high, cooling) \<Rightarrow> (b, healthy @ map fst (if length high > 1 then sort_key snd high else high) @ cooling))"

definition orderedMembers :: "('d \<Rightarrow> RTTSnapshot option) \<Rightarrow> int \<Rightarrow> 'd BalancerDialer \<Rightarrow> 'd BalancerDialer \<times> nat list" where
  "orderedMembers rtt nowNS b =
    (let n = length (members b) in
     if n = 0 then (b, [])
     else if bMode b = ''alive'' then orderedAliveMembers rtt nowNS b
     else let b = b\<lparr>bnext := bnext b + 1\<rparr>; start = unat (bnext b - 1) mod n in
       (b, map (\<lambda>i. (start + i) mod n) [0..<n]))"

definition noteFailure :: "int \<Rightarrow> nat \<Rightarrow> 'd BalancerDialer \<Rightarrow> 'd BalancerDialer" where
  "noteFailure nowNS i b =
    (if bMode b \<noteq> ''alive'' \<or> aliveCooldown b \<le> 0 \<or> i \<ge> length (cooldowns b) then b
     else b\<lparr>cooldowns := (cooldowns b)[i := nowNS + aliveCooldown b]\<rparr>)"

definition noteSuccess :: "nat \<Rightarrow> 'd BalancerDialer \<Rightarrow> 'd BalancerDialer" where
  "noteSuccess i b = (if bMode b \<noteq> ''alive'' \<or> i \<ge> length (cooldowns b) then b else b\<lparr>cooldowns := (cooldowns b)[i := 0]\<rparr>)"

section \<open>Facts\<close>

definition slow :: "('d \<Rightarrow> RTTSnapshot option) \<Rightarrow> 'd BalancerDialer \<Rightarrow> nat \<Rightarrow> int option" where
  "slow rtt b i = snd (noteHighRTTIfUnhealthy rtt i b)"

definition coolingAt :: "int \<Rightarrow> 'd BalancerDialer \<Rightarrow> nat \<Rightarrow> bool" where
  "coolingAt nowNS b i \<longleftrightarrow> i < length (cooldowns b) \<and> cooldowns b ! i > nowNS"

text \<open>What \<open>noteHighRTTIfUnhealthy\<close> leaves alone.\<close>

definition same_but_states :: "'d BalancerDialer \<Rightarrow> 'd BalancerDialer \<Rightarrow> bool" where
  "same_but_states b b' \<longleftrightarrow> (\<exists>hs. length hs = length (highRTTStates b) \<and> b' = b\<lparr>highRTTStates := hs\<rparr>)"

lemma same_refl [simp]: "same_but_states b b"
  by (auto simp: same_but_states_def intro!: exI [of _ "highRTTStates b"])

lemma same_trans: "same_but_states a b \<Longrightarrow> same_but_states b c \<Longrightarrow> same_but_states a c"
  by (auto simp: same_but_states_def)

lemma same_fields:
  assumes "same_but_states b b'"
  shows "members b' = members b" "cooldowns b' = cooldowns b" "bMode b' = bMode b" "length (highRTTStates b') = length (highRTTStates b)"
    "coolingAt nowNS b' i = coolingAt nowNS b i"
  using assms by (auto simp: same_but_states_def coolingAt_def)

lemma note_form: "\<exists>v. fst (noteHighRTTIfUnhealthy rtt i b) = b\<lparr>highRTTStates := (highRTTStates b)[i := v]\<rparr>"
proof -
  have "fst (noteHighRTTIfUnhealthy rtt i b) \<in> {b, b\<lparr>highRTTStates := (highRTTStates b)[i := False]\<rparr>, b\<lparr>highRTTStates := (highRTTStates b)[i := True]\<rparr>}"
    unfolding noteHighRTTIfUnhealthy_def Let_def by (simp split: option.split)
  then show ?thesis
  proof (elim insertE emptyE)
    assume "fst (noteHighRTTIfUnhealthy rtt i b) = b"
    then show ?thesis by (intro exI [of _ "highRTTStates b ! i"]) simp
  qed (rule exI, assumption)+
qed

lemma note_same: "same_but_states b (fst (noteHighRTTIfUnhealthy rtt i b))"
proof -
  obtain v where "fst (noteHighRTTIfUnhealthy rtt i b) = b\<lparr>highRTTStates := (highRTTStates b)[i := v]\<rparr>" using note_form by blast
  then show ?thesis unfolding same_but_states_def by (intro exI [of _ "(highRTTStates b)[i := v]"]) simp
qed

lemma recovery_states [simp]: "rttRecoveryThresholdMs (b\<lparr>highRTTStates := x\<rparr>) = rttRecoveryThresholdMs b"
  by (simp add: rttRecoveryThresholdMs_def Let_def)

lemma slow_other: "i \<noteq> j \<Longrightarrow> slow rtt (b\<lparr>highRTTStates := (highRTTStates b)[i := v]\<rparr>) j = slow rtt b j"
  by (simp add: slow_def noteHighRTTIfUnhealthy_def Let_def split: option.split)

lemma note_other:
  assumes "i \<noteq> j"
  shows "slow rtt (fst (noteHighRTTIfUnhealthy rtt i b)) j = slow rtt b j"
  using note_form [of rtt i b] slow_other [OF assms] by auto

text \<open>The three classes of members.\<close>

definition classes :: "('d \<Rightarrow> RTTSnapshot option) \<Rightarrow> int \<Rightarrow> 'd BalancerDialer \<Rightarrow> nat set \<Rightarrow> (nat \<times> int) set \<Rightarrow> nat set \<Rightarrow> bool" where
  "classes rtt nowNS b h hi c \<longleftrightarrow> (\<forall>i \<in> h. \<not> coolingAt nowNS b i \<and> slow rtt b i = None) \<and>
    (\<forall>p \<in> hi. \<not> coolingAt nowNS b (fst p) \<and> slow rtt b (fst p) = Some (snd p)) \<and> (\<forall>i \<in> c. coolingAt nowNS b i)"

lemma classes_cong:
  assumes "classes rtt nowNS b' h hi c" "\<And>i. coolingAt nowNS b' i = coolingAt nowNS b i"
    "\<And>i. i \<in> h \<union> fst ` hi \<union> c \<Longrightarrow> slow rtt b' i = slow rtt b i"
  shows "classes rtt nowNS b h hi c"
  using assms(1) unfolding classes_def assms(2) using assms(3) by simp

lemma classify_spec:
  assumes "classify rtt nowNS is b = (b', healthy, high, cooling)" "distinct is"
  shows "same_but_states b b' \<and> mset is = mset healthy + mset (map fst high) + mset cooling \<and>
    classes rtt nowNS b (set healthy) (set high) (set cooling)"
  using assms
proof (induction "is" arbitrary: b b' healthy high cooling)
  case (Cons i "is")
  show ?case
  proof (cases "coolingAt nowNS b i")
    case True
    obtain b2 h hi c where r: "classify rtt nowNS is b = (b2, h, hi, c)" by (cases "classify rtt nowNS is b")
    then have e: "b' = b2" "healthy = h" "high = hi" "cooling = i # c" using Cons.prems(1) True by (simp_all add: coolingAt_def)
    show ?thesis using Cons.IH [OF r] Cons.prems(2) True unfolding e by (simp add: classes_def)
  next
    case False
    then have g: "\<not> (i < length (cooldowns b) \<and> cooldowns b ! i > nowNS)" by (simp add: coolingAt_def)
    define b1 where "b1 = fst (noteHighRTTIfUnhealthy rtt i b)"
    have s: "same_but_states b b1" unfolding b1_def by (rule note_same)
    have o: "slow rtt b1 j = slow rtt b j" if "j \<in> set is" for j
      unfolding b1_def using note_other [of i j] that Cons.prems(2) by auto
    obtain b2 h hi c where r: "classify rtt nowNS is b1 = (b2, h, hi, c)" by (cases "classify rtt nowNS is b1")
    have e: "noteHighRTTIfUnhealthy rtt i b = (b1, slow rtt b i)" by (simp add: b1_def slow_def)
    have ih: "same_but_states b1 b2" "mset is = mset h + mset (map fst hi) + mset c" "classes rtt nowNS b1 (set h) (set hi) (set c)"
      using Cons.IH [OF r] Cons.prems(2) by simp_all
    have m: "set h \<union> fst ` set hi \<union> set c = set is" using arg_cong [OF ih(2), of set_mset] by simp
    have q: "classes rtt nowNS b (set h) (set hi) (set c)"
      by (rule classes_cong [OF ih(3) same_fields(5) [OF s]]) (use o m in blast)
    have s': "same_but_states b b2" using s ih(1) by (rule same_trans)
    show ?thesis
    proof (cases "slow rtt b i")
      case None
      then have "b' = b2" "healthy = i # h" "high = hi" "cooling = c"
        using Cons.prems(1) unfolding classify.simps if_not_P [OF g] e by (simp_all add: r)
      then show ?thesis using q s' ih(2) False None by (simp add: classes_def)
    next
      case (Some m)
      then have "b' = b2" "healthy = h" "high = (i, m) # hi" "cooling = c"
        using Cons.prems(1) unfolding classify.simps if_not_P [OF g] e by (simp_all add: r)
      then show ?thesis using q s' ih(2) False Some by (simp add: classes_def)
    qed
  qed
qed (simp add: classes_def)

lemma mset_rotate': "mset (rotate k xs) = mset xs"
  by (simp only: rotate_drop_take mset_append) (metis add.commute append_take_drop_id mset_append)

lemma orderedMembers_perm:
  assumes "orderedMembers rtt nowNS b = (b', ord)"
  shows "mset ord = mset [0..<length (members b)]"
proof -
  let ?n = "length (members b)"
  consider "?n = 0" | "?n > 0" "bMode b = ''alive''" | "?n > 0" "bMode b \<noteq> ''alive''" by blast
  then show ?thesis
  proof cases
    case 2
    obtain b2 h hi c where r: "classify rtt nowNS [0..<?n] b = (b2, h, hi, c)" by (cases "classify rtt nowNS [0..<?n] b")
    have "mset ord = mset h + mset (map fst hi) + mset c" using assms 2 r by (auto simp: orderedMembers_def orderedAliveMembers_def Let_def)
    then show ?thesis using classify_spec [OF r] by simp
  next
    case 3
    let ?s = "unat (bnext b) mod ?n"
    have ord: "ord = map (\<lambda>i. (?s + i) mod ?n) [0..<?n]" using assms 3 by (auto simp: orderedMembers_def Let_def)
    have m: "[0..<?n] ! (k mod ?n) = k mod ?n" for k using 3 by (subst nth_upt) simp_all
    have "ord = rotate ?s [0..<?n]" by (rule nth_equalityI) (simp_all add: ord nth_rotate m)
    then show ?thesis by (simp only: mset_rotate')
  qed (use assms in \<open>simp add: orderedMembers_def\<close>)
qed

lemma recovery_bounds:
  assumes "1 < rttThresholdMs b"
  shows "1 \<le> rttRecoveryThresholdMs b" "rttRecoveryThresholdMs b < rttThresholdMs b"
  using assms by (simp_all add: rttRecoveryThresholdMs_def Let_def)

text \<open>Every member is tried exactly once per dial, and a balancer in alive mode tries first the members
  that are neither cooling down after a failure nor slow, then the slow ones from the fastest to the
  slowest, and last those that are cooling down; a member once called slow stays so until its round
  trip is below a recovery threshold that lies strictly below the one that made it slow, whatever the
  64-bit arithmetic does.\<close>

lemma balancer_order:
  assumes "orderedMembers rtt nowNS b = (b', ord)"
  shows "mset ord = mset [0..<length (members b)] \<and>
    (bMode b = ''alive'' \<longrightarrow>
      (\<exists>healthy high cooling. ord = healthy @ map fst high @ cooling \<and> sorted (map snd high) \<and>
         (\<forall>i \<in> set healthy. \<not> coolingAt nowNS b i \<and> slow rtt b i = None) \<and>
         (\<forall>(i, r) \<in> set high. \<not> coolingAt nowNS b i \<and> slow rtt b i = Some r) \<and> (\<forall>i \<in> set cooling. coolingAt nowNS b i))) \<and>
    (1 < rttThresholdMs b \<longrightarrow> rttRecoveryThresholdMs b < rttThresholdMs b)"
proof (intro conjI impI)
  show "mset ord = mset [0..<length (members b)]" using assms by (rule orderedMembers_perm)
  show "rttRecoveryThresholdMs b < rttThresholdMs b" if "1 < rttThresholdMs b" using recovery_bounds [OF that] by simp
  assume a: "bMode b = ''alive''"
  let ?n = "length (members b)"
  obtain b2 h hi c where r: "classify rtt nowNS [0..<?n] b = (b2, h, hi, c)" by (cases "classify rtt nowNS [0..<?n] b")
  let ?s = "if length hi > 1 then sort_key snd hi else hi"
  have "set ?s = set hi" by simp
  moreover have "sorted (map snd ?s)" by (cases "length hi > 1") (simp_all add: sorted01)
  moreover have "ord = h @ map fst ?s @ c" using assms a r by (auto simp: orderedMembers_def orderedAliveMembers_def Let_def split: if_split_asm)
  moreover have "classes rtt nowNS b (set h) (set hi) (set c)" using classify_spec [OF r] by simp
  ultimately show "\<exists>healthy high cooling. ord = healthy @ map fst high @ cooling \<and> sorted (map snd high) \<and>
         (\<forall>i \<in> set healthy. \<not> coolingAt nowNS b i \<and> slow rtt b i = None) \<and>
         (\<forall>(i, r) \<in> set high. \<not> coolingAt nowNS b i \<and> slow rtt b i = Some r) \<and> (\<forall>i \<in> set cooling. coolingAt nowNS b i)"
    by (intro exI [of _ h] exI [of _ ?s] exI [of _ c]) (auto simp: classes_def)
qed

definition exampleBalancer :: "nat BalancerDialer" where
  "exampleBalancer = \<lparr>bTag = ''b'', bMode = ''alive'', members = [(''x'', 0), (''y'', 1), (''z'', 2)], bnext = 0, aliveCooldown = 30 * second,
     failoverOnHighRTT = True, rttThresholdMs = 100, cooldowns = [50, 0, 0], highRTTStates = [False, False, False]\<rparr>"

definition exampleRTT :: "nat \<Rightarrow> RTTSnapshot option" where
  "exampleRTT d = (if d = 1 then Some \<lparr>P50Ms = 200, LastMs = 150\<rparr> else None)"

lemma balancer_order_witness:
  "snd (orderedMembers exampleRTT 10 exampleBalancer) = [2, 1, 0] \<and> mset [2, 1, 0] = mset [0..<length (members exampleBalancer)] \<and>
   rttRecoveryThresholdMs exampleBalancer < 100"
proof -
  have "snd (orderedMembers exampleRTT 10 exampleBalancer) = [2, 1, 0]" by code_simp
  then obtain b' where "orderedMembers exampleRTT 10 exampleBalancer = (b', [2, 1, 0])" by (metis prod.collapse)
  from balancer_order [OF this] show ?thesis using \<open>snd _ = _\<close> by (simp add: exampleBalancer_def)
qed

end
