(* ===== verification/BondFrames.thy ===== *)
theory BondFrames
  imports Prelude
begin

text \<open>
  The bond v2 datagrams: internal/wgturn/bond.go (server) and internal/wgturnclient/bondv2.go
  (client) each have their own encoder and decoder. Both are modelled, so that the two ends can
  be related: what one encodes the other decodes.
\<close>

unbundle bit_operations_syntax

record bondFrame =
  bType :: byte
  bFlags :: "16 word"
  bSeq :: "64 word"
  bPayload :: bytes

definition bondMagic :: bytes where "bondMagic = [0x54, 0x5A, 0x42, 0x32]"
definition bondVersion :: byte where "bondVersion = 2"
definition bondHeaderSize :: nat where "bondHeaderSize = 16"
definition bondMaxBindPayload :: nat where "bondMaxBindPayload = 4096"
definition bondMaxDataPayload :: nat where "bondMaxDataPayload = 4096"
definition bondSmallPacketMax :: nat where "bondSmallPacketMax = 384"

definition bondFrameBind :: byte where "bondFrameBind = 1"
definition bondFrameBindWait :: byte where "bondFrameBindWait = 2"
definition bondFrameBindOK :: byte where "bondFrameBindOK = 3"
definition bondFrameBindConfig :: byte where "bondFrameBindConfig = 4"
definition bondFrameData :: byte where "bondFrameData = 5"
definition bondFrameKeepalive :: byte where "bondFrameKeepalive = 6"
definition bondFrameError :: byte where "bondFrameError = 7"
definition bondFlagLatency :: "16 word" where "bondFlagLatency = 1"

text \<open>\<open>binary.BigEndian.PutUint16\<close> and \<open>Uint16\<close> on a \<open>uint16\<close>.\<close>

definition put16w :: "16 word \<Rightarrow> bytes" where
  "put16w v = [ucast (drop_bit 8 v), ucast v]"

definition be16w :: "bytes \<Rightarrow> 16 word" where
  "be16w bs = (push_bit 8 (ucast (bs ! 0)) OR ucast (bs ! 1))"

definition payload_limit :: "byte \<Rightarrow> nat" where
  "payload_limit ty = (if ty = bondFrameBind then bondMaxBindPayload else bondMaxDataPayload)"

section \<open>The server's codec\<close>

definition isBondPacket :: "bytes \<Rightarrow> bool" where
  "isBondPacket p = (length p \<ge> length bondMagic \<and> take (length bondMagic) p = bondMagic)"

definition encodeBondFrame :: "byte \<Rightarrow> 16 word \<Rightarrow> 64 word \<Rightarrow> bytes \<Rightarrow> (string, bytes) gores" where
  "encodeBondFrame ty flags seq p =
    (if ty < bondFrameBind \<or> ty > bondFrameError then GoErr ''invalid bond frame type''
     else if length p > payload_limit ty then GoErr ''bond frame payload too large''
     else GoOk (bondMagic @ [bondVersion, ty] @ put16w flags @ put64 seq @ p))"

definition decodeBondFrame :: "bytes \<Rightarrow> (string, bondFrame) gores" where
  "decodeBondFrame p =
    (if length p < bondHeaderSize \<or> \<not> isBondPacket p then GoErr ''invalid bond frame magic or length''
     else go_bind (idx p 4) (\<lambda>ver. if ver \<noteq> bondVersion then GoErr ''unsupported bond frame version''
     else go_bind (idx p 5) (\<lambda>ty. if ty < bondFrameBind \<or> ty > bondFrameError then GoErr ''invalid bond frame type''
     else go_bind (slice_from p bondHeaderSize) (\<lambda>pl.
       if length pl > payload_limit ty then GoErr ''bond frame payload too large''
       else go_bind (subslice p 6 8) (\<lambda>fl. go_bind (subslice p 8 16) (\<lambda>sq.
         GoOk \<lparr>bType = ty, bFlags = be16w fl, bSeq = be64 sq, bPayload = pl\<rparr>))))))"

section \<open>The client's codec\<close>

definition client_encodeBondFrame :: "bondFrame \<Rightarrow> (string, bytes) gores" where
  "client_encodeBondFrame f =
    (if bType f < bondFrameBind \<or> bType f > bondFrameError then GoErr ''invalid bond frame type''
     else if length (bPayload f) > payload_limit (bType f) then GoErr ''bond frame payload too large''
     else GoOk (bondMagic @ [bondVersion, bType f] @ put16w (bFlags f) @ put64 (bSeq f) @ bPayload f))"

definition client_decodeBondFrame :: "bytes \<Rightarrow> (string, bondFrame) gores" where
  "client_decodeBondFrame buf =
    (if length buf < bondHeaderSize then GoErr ''bond frame too short''
     else go_bind (subslice buf 0 4) (\<lambda>m. if m \<noteq> bondMagic then GoErr ''bond bad magic''
     else go_bind (idx buf 4) (\<lambda>ver. if ver \<noteq> bondVersion then GoErr ''bond unsupported version''
     else go_bind (idx buf 5) (\<lambda>ft. if ft < bondFrameBind \<or> ft > bondFrameError then GoErr ''bond unknown frame type''
     else go_bind (slice_from buf bondHeaderSize) (\<lambda>pl.
       if length pl > payload_limit ft then GoErr ''bond frame payload too large''
       else go_bind (subslice buf 6 8) (\<lambda>fl. go_bind (subslice buf 8 16) (\<lambda>sq.
         GoOk \<lparr>bType = ft, bFlags = be16w fl, bSeq = be64 sq, bPayload = pl\<rparr>)))))))"

text \<open>\<open>bondFramePayload\<close>: a control frame carries the latency flag, others none.\<close>

definition bondFramePayload :: "byte \<Rightarrow> bytes \<Rightarrow> (string, bytes) gores" where
  "bondFramePayload ft pl = client_encodeBondFrame
     \<lparr>bType = ft, bFlags = (if ft \<in> {bondFrameBindWait, bondFrameBindOK, bondFrameBindConfig, bondFrameError} then bondFlagLatency else 0),
      bSeq = 0, bPayload = pl\<rparr>"

text \<open>The lane of a frame, and whether its flags are valid.\<close>

definition bondLatencyLane :: "16 word \<Rightarrow> bool \<times> bool" where
  "bondLatencyLane flags =
    (if flags AND NOT bondFlagLatency \<noteq> 0 then (False, False) else (flags AND bondFlagLatency \<noteq> 0, True))"

section \<open>The two codecs agree\<close>

lemma be16w_put16w: "be16w (put16w v) = v"
  unfolding be16w_def put16w_def
  by (rule bit_word_eqI) (auto simp: bit_simps)

lemma put16w_be16w: "length bs = 2 \<Longrightarrow> put16w (be16w bs) = bs"
proof -
  assume "length bs = 2"
  then obtain x y where b: "bs = [x, y]" by (auto simp: numeral_2_eq_2 length_Suc_conv)
  have "(ucast (drop_bit 8 (push_bit 8 (ucast x) OR ucast y :: 16 word)) :: byte) = x"
    by (rule bit_word_eqI) (auto simp: bit_simps dest: bit_imp_le_length)
  moreover have "(ucast (push_bit 8 (ucast x) OR ucast y :: 16 word) :: byte) = y"
    by (rule bit_word_eqI) (auto simp: bit_simps dest: bit_imp_le_length)
  ultimately show ?thesis by (simp add: b put16w_def be16w_def)
qed

lemma put64_step:
  "(ucast (drop_bit k (push_bit 8 v OR ucast (b :: byte) :: 64 word)) :: byte) = ucast (drop_bit (k - 8) v)" if "8 \<le> k" "k \<le> 56"
  using that by (intro bit_word_eqI) (auto simp: bit_simps algebra_simps dest: bit_imp_le_length)

lemma put64_last: "(ucast (push_bit 8 v OR ucast (b :: byte) :: 64 word) :: byte) = b"
  by (rule bit_word_eqI) (auto simp: bit_simps dest: bit_imp_le_length)

lemma put64_be64: "length bs = 8 \<Longrightarrow> put64 (be64 bs) = bs"
proof -
  assume "length bs = 8"
  then obtain b1 b2 b3 b4 b5 b6 b7 b8 where b: "bs = [b1, b2, b3, b4, b5, b6, b7, b8]"
    by (auto simp: eval_nat_numeral length_Suc_conv)
  have "(ucast (ucast b1 :: 64 word) :: byte) = b1"
    by (rule bit_word_eqI) (auto simp: bit_simps dest: bit_imp_le_length)
  then show ?thesis
    by (simp add: b be64_def put64_def put64_step put64_last del: push_bit_numeral push_bit_or drop_bit_or push_bit_push_bit drop_bit_push_bit)
qed

lemma be64_put64': "be64 (put64 v) = v"
  using be64_put64 [of v "[]"] by simp

text \<open>Both decoders accept exactly the encodings of the frames they return.\<close>

lemma header_parts:
  assumes "16 \<le> length p"
  shows "take 4 p @ [p ! 4, p ! 5] @ take 2 (drop 6 p) @ take 8 (drop 8 p) @ drop 16 p = p"
proof -
  have "drop 4 p = p ! 4 # p ! 5 # drop 6 p"
    using assms Cons_nth_drop_Suc [of 4 p] Cons_nth_drop_Suc [of 5 p] by simp
  moreover have "take 2 (drop 6 p) @ drop 8 p = drop 6 p" "take 8 (drop 8 p) @ drop 16 p = drop 8 p"
    using append_take_drop_id [of 2 "drop 6 p"] append_take_drop_id [of 8 "drop 8 p"] by simp_all
  ultimately show ?thesis
    using append_take_drop_id [of 4 p] by simp
qed

lemma length_bondMagic [simp]: "length bondMagic = 4"
  by (simp add: bondMagic_def)

definition parsed :: "bytes \<Rightarrow> bondFrame" where
  "parsed p = \<lparr>bType = p ! 5, bFlags = be16w (take 2 (drop 6 p)), bSeq = be64 (take 8 (drop 8 p)), bPayload = drop 16 p\<rparr>"

definition acceptable :: "bytes \<Rightarrow> bool" where
  "acceptable p = (16 \<le> length p \<and> take 4 p = bondMagic \<and> p ! 4 = bondVersion \<and>
     \<not> (p ! 5 < bondFrameBind \<or> p ! 5 > bondFrameError) \<and> length p - 16 \<le> payload_limit (p ! 5))"

lemmas decoder_defs = decodeBondFrame_def client_decodeBondFrame_def isBondPacket_def bondHeaderSize_def
  subslice_def slice_from_def idx_def acceptable_def parsed_def

lemma server_decode: "decodeBondFrame p = GoOk f \<longleftrightarrow> acceptable p \<and> f = parsed p"
  by (auto simp: decoder_defs not_less)

lemma client_decode: "client_decodeBondFrame p = GoOk f \<longleftrightarrow> acceptable p \<and> f = parsed p"
  by (auto simp: decoder_defs not_less)

lemma encode_acceptable:
  "client_encodeBondFrame f = GoOk p \<longleftrightarrow> acceptable p \<and> f = parsed p"
proof
  assume "client_encodeBondFrame f = GoOk p"
  then have "\<not> (bType f < bondFrameBind \<or> bType f > bondFrameError)" "length (bPayload f) \<le> payload_limit (bType f)"
    and p: "p = bondMagic @ [bondVersion, bType f] @ put16w (bFlags f) @ put64 (bSeq f) @ bPayload f"
    by (auto simp: client_encodeBondFrame_def split: if_splits)
  then show "acceptable p \<and> f = parsed p"
    by (simp add: p acceptable_def parsed_def put16w_def nth_append be64_put64' be16w_put16w [unfolded put16w_def])
next
  assume a: "acceptable p \<and> f = parsed p"
  then have "put16w (be16w (take 2 (drop 6 p))) = take 2 (drop 6 p)" "put64 (be64 (take 8 (drop 8 p))) = take 8 (drop 8 p)"
    by (auto simp: acceptable_def intro!: put16w_be16w put64_be64)
  with a header_parts [of p] show "client_encodeBondFrame f = GoOk p"
    by (simp add: acceptable_def parsed_def client_encodeBondFrame_def)
qed

text \<open>The two ends of a bond speak the same language: the server's decoder accepts a datagram as
  a frame exactly when the client's encoder produces that datagram for that frame, and the
  client's decoder likewise with the server's encoder. So decoding inverts encoding in both
  directions of the link, and no two datagrams decode to the same frame.\<close>

lemma bond_codecs_interoperate:
  "(decodeBondFrame p = GoOk f \<longleftrightarrow> client_encodeBondFrame f = GoOk p) \<and>
   (client_decodeBondFrame p = GoOk f \<longleftrightarrow> encodeBondFrame (bType f) (bFlags f) (bSeq f) (bPayload f) = GoOk p)"
  using encode_acceptable [of f p] server_decode [of p f] client_decode [of p f]
  by (simp add: encodeBondFrame_def client_encodeBondFrame_def)

end
