(* ===== verification/BondClaims.thy ===== *)
theory BondClaims
  imports BondFrames
begin

text \<open>
  Who owns a bond: the registry part of internal/wgturn/bond.go and the shutdown in
  internal/wgturn/server.go. Many connections run \<open>acquireBond\<close> at once; each of its
  sections under \<open>bondsMu\<close> is one atomic operation here, and a step relation interleaves the
  sections of all connections with removals and shutdown. Decoding JSON, authentication, device
  provisioning and dialling WireGuard are outcomes the environment chooses.
\<close>

section \<open>Requests\<close>

text \<open>\<open>LocalPort\<close> is raw JSON: absent, a number, a string or something else.\<close>

datatype rawPort = PortMissing | PortInt int | PortText string | PortOther

record bondBind =
  DeviceID :: string
  RunID :: string
  Token :: string
  Room :: int
  Worker :: int
  LocalPort :: rawPort
  WantConfig :: bool
  Password :: string

definition bondMaxRooms :: int where "bondMaxRooms = 6"
definition bondMaxWorkers :: int where "bondMaxWorkers = 120"
definition bondMaxRunsPerDevice :: nat where "bondMaxRunsPerDevice = 1"
definition bondMaxActiveAndClaims :: nat where "bondMaxActiveAndClaims = 512"

definition localPort :: "bondBind \<Rightarrow> (string, int) gores" where
  "localPort b = (case LocalPort b of
     PortMissing \<Rightarrow> GoErr ''missing local_port''
   | PortOther \<Rightarrow> GoErr ''invalid local_port''
   | PortInt p \<Rightarrow> if p < 1 \<or> p > 65535 then GoErr ''invalid local_port'' else GoOk p
   | PortText t \<Rightarrow> (case Atoi t of None \<Rightarrow> GoErr ''invalid local_port''
       | Some p \<Rightarrow> if p < 1 \<or> p > 65535 then GoErr ''invalid local_port'' else GoOk p))"

definition parseBondBind :: "(bytes \<Rightarrow> bondBind option) \<Rightarrow> bytes \<Rightarrow> (string, bondBind) gores" where
  "parseBondBind unmarshal payload =
    (if payload = [] \<or> length payload > bondMaxBindPayload then GoErr ''invalid BIND payload size''
     else case unmarshal payload of None \<Rightarrow> GoErr ''invalid BIND JSON''
     | Some b \<Rightarrow>
       if DeviceID b = '''' \<or> length (DeviceID b) > 256 \<or> length (RunID b) < 16 \<or> length (RunID b) > 128 \<or>
          length (Token b) < 32 \<or> length (Token b) > 256 then GoErr ''invalid BIND identity''
       else if Room b < 0 \<or> Room b \<ge> bondMaxRooms \<or> Worker b < 1 \<or> Worker b > bondMaxWorkers then GoErr ''invalid BIND slot''
       else go_bind (localPort b) (\<lambda>_. if \<not> WantConfig b \<and> Password b \<noteq> '''' then GoErr ''joiner must not send password'' else GoOk b))"

definition parseBondBindFrame :: "(bytes \<Rightarrow> bondBind option) \<Rightarrow> bytes \<Rightarrow> (string, bondBind) gores" where
  "parseBondBindFrame unmarshal packet =
    (case decodeBondFrame packet of GoPanic \<Rightarrow> GoPanic
     | GoErr _ \<Rightarrow> GoErr ''invalid BIND frame''
     | GoOk f \<Rightarrow> if bType f \<noteq> bondFrameBind \<or> bFlags f \<noteq> bondFlagLatency \<or> bSeq f \<noteq> 0 then GoErr ''invalid BIND frame''
         else parseBondBind unmarshal (bPayload f))"

definition bondTokenMatches :: "string \<Rightarrow> string \<Rightarrow> bool" where
  "bondTokenMatches a b = (length a = length b \<and> a = b)"

definition sameBondBindAttempt :: "bondBind \<Rightarrow> bondBind \<Rightarrow> bool" where
  "sameBondBindAttempt a b =
    (if DeviceID a \<noteq> DeviceID b \<or> RunID a \<noteq> RunID b \<or> \<not> bondTokenMatches (Token a) (Token b) \<or> Room a \<noteq> Room b \<or>
        Worker a \<noteq> Worker b \<or> WantConfig a \<noteq> WantConfig b \<or> Password a \<noteq> Password b then False
     else (case (localPort a, localPort b) of (GoOk p, GoOk q) \<Rightarrow> p = q | _ \<Rightarrow> False))"

section \<open>The registry\<close>

type_synonym bondKey = "string \<times> string"

text \<open>\<open>bid\<close> is the identity of the object, so that pointer comparison can be told from equality.\<close>

record bond =
  bid :: nat
  bkey :: bondKey
  btoken :: string
  bconfig :: string
  closing :: bool

record registry =
  bonds :: "(bondKey \<times> bond) list"
  bondClaims :: "(bondKey \<times> string) list"
  bondClosed :: bool

definition newRegistry :: registry where
  "newRegistry = \<lparr>bonds = [], bondClaims = [], bondClosed = False\<rparr>"

datatype acquireReply = Reply "bond option" byte string | Claimed

text \<open>\<open>acquireBond\<close> up to the end of its first locked section; \<open>Claimed\<close> is the path that goes on to
  authenticate. \<open>shutdownSeen\<close> is what the test of \<open>bondClosed\<close> and the context gave before the lock
  was taken; it may be out of date.\<close>

definition acquireBegin :: "bool \<Rightarrow> bondBind \<Rightarrow> registry \<Rightarrow> registry \<times> acquireReply" where
  "acquireBegin shutdownSeen b s =
    (if shutdownSeen then (s, Reply None bondFrameError ''server_shutdown'')
     else let k = (DeviceID b, RunID b) in
     case map_of (bonds s) k of
       Some bd \<Rightarrow>
         if \<not> bondTokenMatches (btoken bd) (Token b) then (s, Reply None bondFrameError ''token_mismatch'')
         else if closing bd then (s, Reply None bondFrameBindWait ''bond_device_busy'')
         else if WantConfig b then (s, Reply (Some bd) bondFrameBindConfig (bconfig bd))
         else (s, Reply (Some bd) bondFrameBindOK '''')
     | None \<Rightarrow>
       (case map_of (bondClaims s) k of
          Some t \<Rightarrow>
            if \<not> bondTokenMatches t (Token b) then (s, Reply None bondFrameError ''token_mismatch'')
            else (s, Reply None bondFrameBindWait '''')
        | None \<Rightarrow>
          if \<not> WantConfig b then (s, Reply None bondFrameBindWait '''')
          else if length (bonds s) + length (bondClaims s) \<ge> bondMaxActiveAndClaims then (s, Reply None bondFrameError ''bond_capacity'')
          else if length (filter (\<lambda>c. fst (fst c) = DeviceID b) (bondClaims s)) \<ge> bondMaxRunsPerDevice
            then (s, Reply None bondFrameBindWait ''bond_device_busy'')
          else (s\<lparr>bondClaims := AList.update k (Token b) (bondClaims s)\<rparr>, Claimed)))"

definition retireDeviceBonds :: "bondKey \<Rightarrow> registry \<Rightarrow> registry \<times> bond list" where
  "retireDeviceBonds keep s =
    (let retire = (\<lambda>e. fst (fst e) = fst keep \<and> fst e \<noteq> keep) in
     (s\<lparr>bonds := filter (\<lambda>e. \<not> retire e) (bonds s)\<rparr>, map (\<lambda>e. (snd e)\<lparr>closing := True\<rparr>) (filter retire (bonds s))))"

definition finishBondClaim :: "bondKey \<Rightarrow> bond option \<Rightarrow> registry \<Rightarrow> registry \<times> bond option" where
  "finishBondClaim k b s =
    (let s = s\<lparr>bondClaims := AList.delete k (bondClaims s)\<rparr> in
     case b of None \<Rightarrow> (s, None)
     | Some bd \<Rightarrow>
       if bondClosed s then (s, None)
       else (case map_of (bonds s) k of Some existing \<Rightarrow> (s, Some existing)
         | None \<Rightarrow> (s\<lparr>bonds := AList.update k bd (bonds s)\<rparr>, Some bd)))"

text \<open>The tail of \<open>acquireBond\<close> after \<open>finishBondClaim\<close>: what the claimant is told.\<close>

definition acquireEnd :: "registry \<Rightarrow> bond \<Rightarrow> string \<Rightarrow> bond option \<Rightarrow> acquireReply" where
  "acquireEnd s bd token winner =
    (if map_option bid winner \<noteq> Some (bid bd) then
       (if bondClosed s then Reply None bondFrameError ''server_shutdown''
        else (case winner of Some w \<Rightarrow> if bondTokenMatches (btoken w) token then Reply (Some w) bondFrameBindConfig (bconfig w)
               else Reply None bondFrameError ''bond_race''
          | None \<Rightarrow> Reply None bondFrameError ''bond_race''))
     else Reply (Some bd) bondFrameBindConfig (bconfig bd))"

definition removeBond :: "bond \<Rightarrow> registry \<Rightarrow> registry" where
  "removeBond b s = (case map_of (bonds s) (bkey b) of
     Some x \<Rightarrow> if bid x = bid b then s\<lparr>bonds := AList.delete (bkey b) (bonds s)\<rparr> else s
   | None \<Rightarrow> s)"

definition markClosing :: "bond \<Rightarrow> registry \<Rightarrow> registry" where
  "markClosing b s = s\<lparr>bonds := map (\<lambda>(k, x). (k, if bid x = bid b then x\<lparr>closing := True\<rparr> else x)) (bonds s)\<rparr>"

definition shutdownFlag :: "registry \<Rightarrow> registry" where
  "shutdownFlag s = s\<lparr>bondClosed := True\<rparr>"

definition shutdownClear :: "registry \<Rightarrow> registry" where
  "shutdownClear s = s\<lparr>bonds := [], bondClaims := []\<rparr>"

section \<open>Interleavings\<close>

text \<open>Beside the registry, the claimants in flight: the key and whether the older runs of the device
  have been retired.\<close>

type_synonym system = "registry \<times> (bondKey \<times> bool) list"

inductive bond_step :: "system \<Rightarrow> system \<Rightarrow> bool" where
  answered: "acquireBegin seen b s = (s', Reply r ty m) \<Longrightarrow> bond_step (s, fl) (s', fl)"
| claimed: "acquireBegin seen b s = (s', Claimed) \<Longrightarrow> bond_step (s, fl) (s', ((DeviceID b, RunID b), False) # fl)"
| abandoned: "(k, ph) \<in> set fl \<Longrightarrow> bond_step (s, fl) (fst (finishBondClaim k None s), remove1 (k, ph) fl)"
| retired: "(k, False) \<in> set fl \<Longrightarrow> bond_step (s, fl) (fst (retireDeviceBonds k s), (k, True) # remove1 (k, False) fl)"
| committed: "(k, True) \<in> set fl \<Longrightarrow> bkey bd = k \<Longrightarrow> bond_step (s, fl) (fst (finishBondClaim k (Some bd) s), remove1 (k, True) fl)"
| removed: "bond_step (s, fl) (removeBond b s, fl)"
| closing: "bond_step (s, fl) (markClosing b s, fl)"
| flagged: "bond_step (s, fl) (shutdownFlag s, fl)"
| cleared: "bondClosed s \<Longrightarrow> bond_step (s, fl) (shutdownClear s, fl)"

inductive bond_reach :: "system \<Rightarrow> bool" where
  start: "bond_reach (newRegistry, [])"
| step: "bond_reach s \<Longrightarrow> bond_step s s' \<Longrightarrow> bond_reach s'"

definition devices :: "((string \<times> 'r) \<times> 'v) list \<Rightarrow> string list" where
  "devices xs = map (\<lambda>e. fst (fst e)) xs"

definition open_inv :: "(bondKey \<times> bond) list \<Rightarrow> (bondKey \<times> string) list \<Rightarrow> (bondKey \<times> bool) list \<Rightarrow> bool" where
  "open_inv bs cs fl = (distinct (devices cs) \<and> distinct (map fst fl) \<and> fst ` set fl = fst ` set cs \<and>
     fst ` set fl \<inter> fst ` set bs = {} \<and> (\<forall>k. (k, True) \<in> set fl \<longrightarrow> fst k \<notin> set (devices bs)))"

fun registry_inv :: "system \<Rightarrow> bool" where
  "registry_inv (s, fl) = (length (bonds s) + length (bondClaims s) \<le> bondMaxActiveAndClaims \<and>
     distinct (map fst (bondClaims s)) \<and> distinct (devices (bonds s)) \<and> (\<not> bondClosed s \<longrightarrow> open_inv (bonds s) (bondClaims s) fl))"

section \<open>The invariant\<close>

lemma open_invD:
  assumes "open_inv bs cs fl"
  shows "distinct (devices cs)" "distinct (map fst fl)" "fst ` set fl = fst ` set cs"
    "fst ` set fl \<inter> fst ` set bs = {}" "\<And>k. (k, True) \<in> set fl \<Longrightarrow> fst k \<notin> set (devices bs)"
  using assms unfolding open_inv_def by blast+

lemma open_invI:
  assumes "distinct (devices cs)" "distinct (map fst fl)" "fst ` set fl = fst ` set cs"
    "fst ` set fl \<inter> fst ` set bs = {}" "\<And>k. (k, True) \<in> set fl \<Longrightarrow> fst k \<notin> set (devices bs)"
  shows "open_inv bs cs fl"
  using assms unfolding open_inv_def by simp

lemma disjoint_sub: "A \<inter> B = {} \<Longrightarrow> A' \<subseteq> A \<Longrightarrow> B' \<subseteq> B \<Longrightarrow> A' \<inter> B' = {}"
  by blast

lemma begin_claimed:
  assumes "acquireBegin seen b s = (s', Claimed)"
  shows "map_of (bonds s) (DeviceID b, RunID b) = None" "map_of (bondClaims s) (DeviceID b, RunID b) = None"
    "length (bonds s) + length (bondClaims s) < bondMaxActiveAndClaims" "DeviceID b \<notin> set (devices (bondClaims s))"
    "s' = s\<lparr>bondClaims := bondClaims s @ [((DeviceID b, RunID b), Token b)]\<rparr>" "WantConfig b"
proof -
  let ?k = "(DeviceID b, RunID b)"
  have *: "map_of (bonds s) ?k = None" "map_of (bondClaims s) ?k = None" "WantConfig b"
    "\<not> length (bonds s) + length (bondClaims s) \<ge> bondMaxActiveAndClaims"
    "\<not> length (filter (\<lambda>c. fst (fst c) = DeviceID b) (bondClaims s)) \<ge> bondMaxRunsPerDevice"
    "s' = s\<lparr>bondClaims := AList.update ?k (Token b) (bondClaims s)\<rparr>"
    using assms by (auto simp: acquireBegin_def Let_def split: if_splits option.splits)
  then show "map_of (bonds s) ?k = None" "map_of (bondClaims s) ?k = None" "length (bonds s) + length (bondClaims s) < bondMaxActiveAndClaims"
    "WantConfig b" "s' = s\<lparr>bondClaims := bondClaims s @ [(?k, Token b)]\<rparr>"
    by (auto simp: update_new)
  have "filter (\<lambda>c. fst (fst c) = DeviceID b) (bondClaims s) = []"
    using *(5) by (simp add: bondMaxRunsPerDevice_def not_less_eq_eq)
  then show "DeviceID b \<notin> set (devices (bondClaims s))"
    by (auto simp: devices_def filter_empty_conv)
qed

lemma begin_answered: "acquireBegin seen b s = (s', Reply r ty m) \<Longrightarrow> s' = s"
  by (auto simp: acquireBegin_def Let_def split: if_splits option.splits)

lemma open_claimed:
  assumes o: "open_inv bs cs fl" and k: "k \<notin> fst ` set cs" "k \<notin> fst ` set bs" "fst k \<notin> set (devices cs)"
  shows "open_inv bs (cs @ [(k, t)]) ((k, False) # fl)"
proof -
  note d = open_invD [OF o]
  have "k \<notin> fst ` set fl" using d(3) k(1) by blast
  then show ?thesis using d(1-4) k(2, 3) d(5) unfolding open_inv_def by (simp add: devices_def)
qed

lemma inv_claimed:
  assumes "registry_inv (s, fl)" "acquireBegin seen b s = (s', Claimed)"
  shows "registry_inv (s', ((DeviceID b, RunID b), False) # fl)"
proof -
  let ?k = "(DeviceID b, RunID b)"
  note c = begin_claimed [OF assms(2)]
  have k: "?k \<notin> fst ` set (bondClaims s)" "?k \<notin> fst ` set (bonds s)" "fst ?k \<notin> set (devices (bondClaims s))"
    using c(1, 2, 4) by (simp_all add: map_of_eq_None_iff)
  show ?thesis using assms(1) c(3) k(1) open_claimed [OF _ k] unfolding c(5) by simp
qed

lemma length_delete: "length (AList.delete k xs) \<le> length xs"
  by (simp add: AList.delete_eq)

lemma image_delete_keys: "fst ` set (AList.delete k xs) = fst ` set xs - {k}"
  by (auto simp: AList.delete_eq)

lemma distinct_delete_keys: "distinct (map f xs) \<Longrightarrow> distinct (map f (AList.delete k xs))"
  by (induction xs) (auto simp: set_delete_alist)

lemma distinct_map_remove1_sub: "distinct (map f xs) \<Longrightarrow> distinct (map f (remove1 x xs))"
  using set_remove1_subset [of x] by (induction xs) auto

lemma in_flight_remove:
  assumes "distinct (map fst fl)" "(k, ph) \<in> set fl"
  shows "fst ` set (remove1 (k, ph) fl) = fst ` set fl - {k}" "distinct (map fst (remove1 (k, ph) fl))"
    "set (remove1 (k, ph) fl) = {e \<in> set fl. fst e \<noteq> k}"
proof -
  have d: "distinct fl" using assms(1) by (simp add: distinct_map)
  show s: "set (remove1 (k, ph) fl) = {e \<in> set fl. fst e \<noteq> k}"
    using assms d eq_key_imp_eq_value [OF assms(1)] by (auto simp: set_remove1_eq)
  then show "fst ` set (remove1 (k, ph) fl) = fst ` set fl - {k}" by auto
  show "distinct (map fst (remove1 (k, ph) fl))" using assms(1) distinct_map_remove1_sub by fastforce
qed

lemma open_abandoned:
  assumes o: "open_inv bs cs fl" and m: "(k, ph) \<in> set fl"
  shows "open_inv bs (AList.delete k cs) (remove1 (k, ph) fl)"
proof -
  note d = open_invD [OF o] and f = in_flight_remove [OF open_invD(2) [OF o] m]
  show ?thesis
  proof (rule open_invI)
    show "distinct (devices (AList.delete k cs))" using d(1) unfolding devices_def by (rule distinct_delete_keys)
    show "fst ` set (remove1 (k, ph) fl) \<inter> fst ` set bs = {}" unfolding f(1) by (rule disjoint_sub [OF d(4)]) auto
    show "fst k' \<notin> set (devices bs)" if "(k', True) \<in> set (remove1 (k, ph) fl)" for k'
      using that d(5) unfolding f(3) by simp
    show "fst ` set (remove1 (k, ph) fl) = fst ` set (AList.delete k cs)" unfolding f(1) image_delete_keys d(3) ..
  qed (rule f(2))
qed

lemma inv_abandoned:
  assumes "registry_inv (s, fl)" "(k, ph) \<in> set fl"
  shows "registry_inv (fst (finishBondClaim k None s), remove1 (k, ph) fl)"
  using assms(1) length_delete [of k "bondClaims s"] open_abandoned [OF _ assms(2)]
  by (simp add: finishBondClaim_def Let_def distinct_delete_keys)

lemma open_fewer_bonds:
  assumes o: "open_inv bs cs fl" and sub: "fst ` set bs' \<subseteq> fst ` set bs"
  shows "open_inv bs' cs fl"
proof (rule open_invI [OF open_invD(1-3) [OF o] disjoint_sub [OF open_invD(4) [OF o] subset_refl sub]])
  have "set (devices bs') \<subseteq> set (devices bs)" using image_mono [OF sub, of fst] by (simp add: devices_def image_image)
  then show "fst k \<notin> set (devices bs')" if "(k, True) \<in> set fl" for k using open_invD(5) [OF o that] by auto
qed

lemma open_retired:
  assumes o: "open_inv bs cs fl" and m: "(k, False) \<in> set fl" and r: "fst k \<notin> set (devices bs)"
  shows "open_inv bs cs ((k, True) # remove1 (k, False) fl)"
proof -
  note d = open_invD [OF o] and f = in_flight_remove [OF open_invD(2) [OF o] m]
  have "k \<in> fst ` set fl" using m by force
  then have e: "fst ` set ((k, True) # remove1 (k, False) fl) = fst ` set fl" using f(1) by auto
  show ?thesis
  proof (rule open_invI, goal_cases)
    case 2
    then show ?case using f(1, 2) by auto
  next
    case (5 k')
    then show ?case using r d(5) [of k'] unfolding f(3) set_simps by auto
  qed (unfold e, rule d(1), rule d(3), rule d(4))
qed

lemma inv_retired:
  assumes "registry_inv (s, fl)" "(k, False) \<in> set fl"
  shows "registry_inv (fst (retireDeviceBonds k s), (k, True) # remove1 (k, False) fl)"
proof -
  let ?keep = "filter (\<lambda>e. \<not> (fst (fst e) = fst k \<and> fst e \<noteq> k)) (bonds s)"
  have r: "fst (retireDeviceBonds k s) = s\<lparr>bonds := ?keep\<rparr>" by (simp add: retireDeviceBonds_def Let_def)
  have "length ?keep \<le> length (bonds s)" by (rule length_filter_le)
  then have "length ?keep + length (bondClaims s) \<le> bondMaxActiveAndClaims" using assms(1) by (simp only: registry_inv.simps) linarith
  moreover have "distinct (devices ?keep)" using assms(1) by (simp add: devices_def distinct_map_filter)
  moreover have "open_inv ?keep (bondClaims s) ((k, True) # remove1 (k, False) fl)" if o: "open_inv (bonds s) (bondClaims s) fl"
  proof (rule open_retired [OF open_fewer_bonds [OF o] assms(2)])
    have "k \<in> fst ` set fl" using assms(2) by force
    then have "k \<notin> fst ` set (bonds s)" using open_invD(4) [OF o] by blast
    then show "fst k \<notin> set (devices ?keep)" by (auto simp: devices_def)
  qed auto
  ultimately show ?thesis using assms(1) unfolding r by simp
qed

lemma commit_open:
  assumes "open_inv (bonds s) (bondClaims s) fl" "(k, True) \<in> set fl" "\<not> bondClosed s"
  shows "finishBondClaim k (Some bd) s = (s\<lparr>bondClaims := AList.delete k (bondClaims s), bonds := bonds s @ [(k, bd)]\<rparr>, Some bd)"
proof -
  have "k \<in> fst ` set fl" using assms(2) by force
  then have "k \<notin> fst ` set (bonds s)" using open_invD(4) [OF assms(1)] by blast
  moreover from this have "map_of (bonds s) k = None" by (simp add: map_of_eq_None_iff)
  ultimately show ?thesis using assms(3) by (simp add: finishBondClaim_def Let_def update_new)
qed

lemma length_delete_key: "k \<in> fst ` set xs \<Longrightarrow> Suc (length (AList.delete k xs)) \<le> length xs"
proof (induction xs)
  case (Cons x xs)
  then show ?case using length_delete [of k xs] by (cases "fst x = k") auto
qed simp

lemma other_device:
  assumes "distinct (devices xs)" "k \<in> fst ` set xs" "k' \<in> fst ` set xs" "k \<noteq> k'"
  shows "fst k \<noteq> fst k'"
proof -
  have "inj_on (\<lambda>e. fst (fst e)) (set xs)" using assms(1) by (simp add: devices_def distinct_map)
  then show ?thesis using assms(2-4) by (auto dest: inj_onD)
qed

lemma open_committed:
  assumes o: "open_inv bs cs fl" and m: "(k, True) \<in> set fl"
  shows "open_inv (bs @ [(k, bd)]) (AList.delete k cs) (remove1 (k, True) fl)"
proof -
  note d = open_invD [OF o] and f = in_flight_remove [OF open_invD(2) [OF o] m]
  have k: "k \<in> fst ` set cs" unfolding d(3) [symmetric] using m by force
  show ?thesis
  proof (rule open_invI [OF open_invD(1-3) [OF open_abandoned [OF o m]]])
    show "fst k' \<notin> set (devices (bs @ [(k, bd)]))" if "(k', True) \<in> set (remove1 (k, True) fl)" for k'
    proof -
      have *: "(k', True) \<in> set fl" "k' \<noteq> k" using that unfolding f(3) by auto
      then have "k' \<in> fst ` set cs" unfolding d(3) [symmetric] by force
      then show ?thesis using other_device [OF d(1) _ k] * d(5) [of k'] by (simp add: devices_def)
    qed
    show "fst ` set (remove1 (k, True) fl) \<inter> fst ` set (bs @ [(k, bd)]) = {}" using d(4) unfolding f(1) by auto
  qed
qed

lemma inv_committed:
  assumes "registry_inv (s, fl)" "(k, True) \<in> set fl"
  shows "registry_inv (fst (finishBondClaim k (Some bd) s), remove1 (k, True) fl)"
proof (cases "bondClosed s")
  case True
  then show ?thesis
    using assms(1) length_delete [of k "bondClaims s"] by (auto simp: finishBondClaim_def Let_def intro: distinct_delete_keys)
next
  case False
  with assms(1) have o: "open_inv (bonds s) (bondClaims s) fl" by simp
  have k: "k \<in> fst ` set (bondClaims s)" using assms(2) open_invD(3) [OF o] by force
  have "distinct (devices (bonds s @ [(k, bd)]))" using assms(1) open_invD(5) [OF o assms(2)] by (simp add: devices_def)
  then show ?thesis
    using assms(1) length_delete_key [OF k] open_committed [OF o assms(2)] unfolding commit_open [OF o assms(2) False]
    by (simp add: distinct_delete_keys)
qed

lemma inv_fewer_bonds:
  assumes "registry_inv (s, fl)" "length bs \<le> length (bonds s)" "distinct (devices bs)" "fst ` set bs \<subseteq> fst ` set (bonds s)"
  shows "registry_inv (s\<lparr>bonds := bs\<rparr>, fl)"
  using assms(1-3) open_fewer_bonds [OF _ assms(4)] by simp

lemma inv_removed: "registry_inv (s, fl) \<Longrightarrow> registry_inv (removeBond b s, fl)"
  using inv_fewer_bonds [of s fl "AList.delete (bkey b) (bonds s)"] length_delete [of "bkey b" "bonds s"]
  by (auto simp: removeBond_def image_delete_keys devices_def distinct_delete_keys split: option.split)

lemma inv_closing: "registry_inv (s, fl) \<Longrightarrow> registry_inv (markClosing b s, fl)"
  unfolding markClosing_def
  by (rule inv_fewer_bonds) (auto simp: devices_def comp_def case_prod_beta image_image)

lemma inv_step: "bond_step x y \<Longrightarrow> registry_inv x \<Longrightarrow> registry_inv y"
proof (induction rule: bond_step.induct)
  case (answered seen b s s' r ty m fl)
  then show ?case using begin_answered by blast
qed (simp_all only: inv_claimed inv_abandoned inv_retired inv_committed inv_removed inv_closing, simp_all add: shutdownFlag_def shutdownClear_def devices_def)

lemma inv_reach: "bond_reach x \<Longrightarrow> registry_inv x"
proof (induction rule: bond_reach.induct)
  case start
  then show ?case by (simp add: newRegistry_def open_inv_def devices_def)
qed (rule inv_step)

section \<open>What the registry promises\<close>

lemma begin_attached:
  assumes "snd (acquireBegin seen b s) = Reply (Some bd) ty m"
  shows "map_of (bonds s) (DeviceID b, RunID b) = Some bd \<and> btoken bd = Token b \<and> \<not> closing bd"
  using assms by (auto simp: acquireBegin_def bondTokenMatches_def Let_def split: if_splits option.splits)

text \<open>C37. Whatever the interleaving of bind requests, authentications, retirements, removals, closings
  and the shutdown, in every reachable state: active bonds and outstanding claims together never exceed
  512; no two active bonds belong to one device; a bind request is attached to an existing bond only with
  that bond's identity and token, and not once the bond is closing; and while the server is not shut down
  no two claims belong to one device, and a claimant that has retired the older runs of its device and
  commits its bond always wins: the bond is then active and is the one it is answered with, so the
  \<open>bond_race\<close> error is never sent.\<close>

theorem bond_claims_exclusive:
  assumes "bond_reach (s, fl)"
  shows "length (bonds s) + length (bondClaims s) \<le> 512 \<and> distinct (devices (bonds s)) \<and>
    (\<forall>seen b bd ty m. snd (acquireBegin seen b s) = Reply (Some bd) ty m \<longrightarrow>
      map_of (bonds s) (DeviceID b, RunID b) = Some bd \<and> btoken bd = Token b \<and> \<not> closing bd) \<and>
    (\<not> bondClosed s \<longrightarrow> distinct (devices (bondClaims s)) \<and>
      (\<forall>k bd tok s' winner. (k, True) \<in> set fl \<and> finishBondClaim k (Some bd) s = (s', winner) \<longrightarrow>
        map_of (bonds s') k = Some bd \<and> acquireEnd s' bd tok winner = Reply (Some bd) bondFrameBindConfig (bconfig bd)))"
proof -
  have i: "registry_inv (s, fl)" by (rule inv_reach [OF assms])
  have "map_of (bonds s') k = Some bd \<and> acquireEnd s' bd tok winner = Reply (Some bd) bondFrameBindConfig (bconfig bd)"
    if c: "\<not> bondClosed s" "(k, True) \<in> set fl" "finishBondClaim k (Some bd) s = (s', winner)" for k bd tok s' winner
  proof -
    have o: "open_inv (bonds s) (bondClaims s) fl" using i c(1) by simp
    have "fst k \<notin> set (devices (bonds s))" using open_invD(5) [OF o c(2)] .
    then have "map_of (bonds s) k = None" by (auto simp: devices_def map_of_eq_None_iff)
    then show ?thesis using commit_open [OF o c(2, 1), of bd] c(3) by (auto simp: acquireEnd_def map_add_def)
  qed
  moreover have "length (bonds s) + length (bondClaims s) \<le> 512" "distinct (devices (bonds s))"
    using i by (simp_all add: bondMaxActiveAndClaims_def)
  moreover have "distinct (devices (bondClaims s))" if "\<not> bondClosed s" using i that open_invD(1) by auto
  ultimately show ?thesis using begin_attached by blast
qed

lemma sample_reach: "bond_reach (newRegistry\<lparr>bondClaims := [((''phone'', ''run''), ''token'')]\<rparr>, [((''phone'', ''run''), True)])"
proof -
  let ?b = "\<lparr>DeviceID = ''phone'', RunID = ''run'', Token = ''token'', Room = 0, Worker = 1, LocalPort = PortMissing, WantConfig = True, Password = ''secret''\<rparr>"
  have "acquireBegin False ?b newRegistry = (newRegistry\<lparr>bondClaims := [((''phone'', ''run''), ''token'')]\<rparr>, Claimed)"
    by (simp add: acquireBegin_def newRegistry_def bondMaxActiveAndClaims_def bondMaxRunsPerDevice_def)
  from bond_reach.step [OF bond_reach.step [OF bond_reach.start bond_step.claimed [OF this]] bond_step.retired]
  show ?thesis by (simp add: retireDeviceBonds_def newRegistry_def)
qed

theorem bond_claims_exclusive_witness:
  "bond_reach (newRegistry\<lparr>bondClaims := [((''phone'', ''run''), ''token'')]\<rparr>, [((''phone'', ''run''), True)]) \<and>
   distinct (devices (bondClaims (newRegistry\<lparr>bondClaims := [((''phone'', ''run''), ''token'')]\<rparr>)))"
  using sample_reach bond_claims_exclusive [OF sample_reach] by (simp add: newRegistry_def)

end
