(* ===== verification/BondReorder.thy ===== *)
theory BondReorder
  imports BondFrames
begin

text \<open>
  Putting the packets of a bond back in order. The contract \<open>reorder_buffer\<close> is shared by the
  server's \<open>packetReorder\<close> (internal/wgturn/bond.go), a ring of 256 slots, and the client's
  \<open>bondReorderBuffer\<close> (internal/wgturnclient/bondv2.go), a map. Sequence numbers are \<open>uint64\<close>
  with wrap-around; the code never looks into a payload, which is a type variable here, so that
  the theorems can attach to each payload the number it was sent under.
\<close>

definition bondReorderWindow :: "64 word" where "bondReorderWindow = 256"
definition bondReorderHold :: nanos where "bondReorderHold = 30 * millisecond"

section \<open>The server's ring\<close>

record 'p reorderPacket =
  sequence :: "64 word"
  pkt :: 'p

record 'p packetReorder =
  nextSeq :: "64 word"
  holdTime :: nanos
  gapSince :: "nanos option"
  slots :: "'p reorderPacket option list"
  buffered :: int
  gaps :: "64 word"
  late :: "64 word"
  duplicate :: "64 word"

definition newPacketReorder :: "nanos \<Rightarrow> 'p packetReorder" where
  "newPacketReorder h = \<lparr>nextSeq = 1, holdTime = h, gapSince = None, slots = replicate 256 None, buffered = 0,
     gaps = 0, late = 0, duplicate = 0\<rparr>"

text \<open>The array has 256 entries, so that an index reduced modulo 256 is in range; the length test
  only makes the function total.\<close>

definition slot_of :: "64 word \<Rightarrow> nat" where
  "slot_of s = unat (s mod bondReorderWindow)"

definition slot_at :: "'p packetReorder \<Rightarrow> nat \<Rightarrow> 'p reorderPacket option" where
  "slot_at r i = (if i < length (slots r) then slots r ! i else None)"

definition occupied :: "'p packetReorder \<Rightarrow> nat" where
  "occupied r = length (filter (\<lambda>x. x \<noteq> None) (slots r))"

lemma filter_update_less:
  "i < length xs \<Longrightarrow> P (xs ! i) \<Longrightarrow> \<not> P y \<Longrightarrow> length (filter P (xs[i := y])) < length (filter P xs)"
proof (induction xs arbitrary: i)
  case (Cons x xs)
  then show ?case by (cases i) auto
qed simp

function drain :: "'p packetReorder \<Rightarrow> 'p packetReorder \<times> 'p list" where
  "drain r = (case slot_at r (slot_of (nextSeq r)) of
     None \<Rightarrow> (r, [])
   | Some p \<Rightarrow> if sequence p \<noteq> nextSeq r then (r, [])
       else (case drain (r\<lparr>slots := (slots r)[slot_of (nextSeq r) := None], buffered := buffered r - 1, nextSeq := nextSeq r + 1\<rparr>) of
         (r', out) \<Rightarrow> (r', pkt p # out)))"
  by pat_completeness auto
termination
  by (relation "measure occupied") (auto simp: occupied_def slot_at_def intro!: filter_update_less split: if_splits)

declare drain.simps [simp del]

definition lowest :: "'p packetReorder \<Rightarrow> (64 word) option" where
  "lowest r = (let l = fold (\<lambda>p l. case p of None \<Rightarrow> l
       | Some p \<Rightarrow> if l = 0 \<or> sequence p < l then sequence p else l) (slots r) 0 in
     if l \<noteq> 0 then Some l else None)"

definition advanceTo :: "64 word \<Rightarrow> 'p packetReorder \<Rightarrow> 'p packetReorder" where
  "advanceTo s r = (if s > nextSeq r then r\<lparr>gaps := gaps r + (s - nextSeq r), nextSeq := s\<rparr> else r)"

text \<open>The loop that makes room for a packet beyond the window. Nothing in its shape bounds the
  number of iterations: \<open>None\<close> is a loop that does not end.\<close>

partial_function (option) makeRoom :: "64 word \<Rightarrow> 'p packetReorder \<Rightarrow> ('p packetReorder \<times> 'p list) option" where
  "makeRoom s r =
    (if s - nextSeq r \<ge> bondReorderWindow then
       (case lowest r of
          None \<Rightarrow> Some (r\<lparr>gaps := gaps r + (s - nextSeq r), nextSeq := s\<rparr>, [])
        | Some l \<Rightarrow> (case drain (advanceTo l r) of (r1, o1) \<Rightarrow>
            Option.bind (makeRoom s r1) (\<lambda>(r2, o2). Some (r2, o1 @ o2))))
     else Some (r, []))"

definition restamp :: "nanos \<Rightarrow> 'p packetReorder \<Rightarrow> 'p packetReorder" where
  "restamp now r = (let r = (if buffered r > 0 \<and> gapSince r = None then r\<lparr>gapSince := Some now\<rparr> else r) in
     if buffered r = 0 then r\<lparr>gapSince := None\<rparr> else r)"

definition storeSlot :: "64 word \<Rightarrow> 'p \<Rightarrow> 'p packetReorder \<Rightarrow> 'p packetReorder" where
  "storeSlot s p r = (let i = slot_of s;
       r = (if slot_at r i \<noteq> None then r\<lparr>buffered := buffered r - 1\<rparr> else r) in
     r\<lparr>slots := (slots r)[i := Some \<lparr>sequence = s, pkt = p\<rparr>], buffered := buffered r + 1\<rparr>)"

definition push :: "64 word \<Rightarrow> 'p \<Rightarrow> nanos \<Rightarrow> 'p packetReorder \<Rightarrow> ('p packetReorder \<times> 'p list) option" where
  "push s p now r =
    (if s = 0 \<or> s < nextSeq r then Some (r\<lparr>late := late r + 1\<rparr>, [])
     else case makeRoom s r of None \<Rightarrow> None
       | Some (r, out) \<Rightarrow>
           if (case slot_at r (slot_of s) of Some old \<Rightarrow> sequence old = s | None \<Rightarrow> False)
           then Some (r\<lparr>duplicate := duplicate r + 1\<rparr>, [])
           else (case drain (storeSlot s p r) of (r, out') \<Rightarrow> Some (restamp now r, out @ out')))"

definition flushExpired :: "nanos \<Rightarrow> 'p packetReorder \<Rightarrow> 'p packetReorder \<times> 'p list" where
  "flushExpired now r =
    (if buffered r = 0 \<or> (case gapSince r of None \<Rightarrow> True | Some g \<Rightarrow> now - g < holdTime r) then (r, [])
     else case lowest r of None \<Rightarrow> (r, [])
       | Some l \<Rightarrow> (case drain (advanceTo l r) of (r, out) \<Rightarrow>
           (r\<lparr>gapSince := (if buffered r > 0 then Some now else None)\<rparr>, out)))"

section \<open>The client's buffer\<close>

record 'p bondReorderBuffer =
  expect :: "64 word"
  rbuf :: "(64 word \<times> 'p) list"
  first :: "nanos option"
  BondReorderLate :: int
  BondReorderDuplicates :: int
  BondReorderGaps :: int

definition newBondReorderBuffer :: "'p bondReorderBuffer" where
  "newBondReorderBuffer = \<lparr>expect = 1, rbuf = [], first = None, BondReorderLate = 0, BondReorderDuplicates = 0, BondReorderGaps = 0\<rparr>"

lemma length_delete_less: "map_of xs k = Some v \<Longrightarrow> length (AList.delete k xs) < length xs"
  by (induction xs) (auto simp: AList.delete_eq intro: le_imp_less_Suc length_filter_le split: if_splits)

function drainContiguous :: "'p bondReorderBuffer \<Rightarrow> 'p bondReorderBuffer \<times> 'p list" where
  "drainContiguous r = (case map_of (rbuf r) (expect r) of
     None \<Rightarrow> (r, [])
   | Some p \<Rightarrow> (case drainContiguous (r\<lparr>rbuf := AList.delete (expect r) (rbuf r), expect := expect r + 1\<rparr>) of
       (r', out) \<Rightarrow> (r', p # out)))"
  by pat_completeness auto
termination
  by (relation "measure (\<lambda>r. length (rbuf r))") (auto intro: length_delete_less)

declare drainContiguous.simps [simp del]

definition pushExpected :: "'p \<Rightarrow> 'p bondReorderBuffer \<Rightarrow> 'p bondReorderBuffer \<times> 'p list" where
  "pushExpected p r = (case drainContiguous (r\<lparr>expect := expect r + 1\<rparr>) of (r, out) \<Rightarrow>
     (if rbuf r = [] then r\<lparr>first := None\<rparr> else r, p # out))"

text \<open>After an overflow the code calls itself with \<open>expect = seq\<close>, which is the in-order branch.\<close>

definition client_push :: "64 word \<Rightarrow> 'p \<Rightarrow> nanos \<Rightarrow> 'p bondReorderBuffer \<Rightarrow> 'p bondReorderBuffer \<times> 'p list" where
  "client_push s p now r =
    (if s = 0 \<or> s < expect r then (r\<lparr>BondReorderLate := BondReorderLate r + 1\<rparr>, [])
     else if s = expect r then pushExpected p r
     else if map_of (rbuf r) s \<noteq> None then (r\<lparr>BondReorderDuplicates := BondReorderDuplicates r + 1\<rparr>, [])
     else if s - expect r \<ge> bondReorderWindow then
       pushExpected p (r\<lparr>BondReorderGaps := BondReorderGaps r + 1, expect := s, rbuf := [], first := None\<rparr>)
     else (r\<lparr>rbuf := AList.update s p (rbuf r), first := (if first r = None then Some now else first r)\<rparr>, []))"

definition client_lowest :: "'p bondReorderBuffer \<Rightarrow> 64 word" where
  "client_lowest r = fold (\<lambda>e l. if l = 0 \<or> fst e < l then fst e else l) (rbuf r) 0"

definition client_flushExpired :: "nanos \<Rightarrow> 'p bondReorderBuffer \<Rightarrow> 'p bondReorderBuffer \<times> 'p list" where
  "client_flushExpired now r =
    (if rbuf r = [] \<or> (case first r of None \<Rightarrow> True | Some f \<Rightarrow> now - f < bondReorderHold) then (r, [])
     else let l = client_lowest r;
         r1 = (if l > expect r then r\<lparr>BondReorderGaps := BondReorderGaps r + uint (l - expect r), expect := l\<rparr> else r) in
       case map_of (rbuf r1) l of None \<Rightarrow> (r1, [])
       | Some p \<Rightarrow> (case drainContiguous (r1\<lparr>rbuf := AList.delete l (rbuf r1), expect := l + 1\<rparr>) of (r2, out) \<Rightarrow>
           (r2\<lparr>first := (if rbuf r2 = [] then None else Some now)\<rparr>, p # out)))"

section \<open>The contract\<close>

text \<open>\<open>tag p\<close> is the number a payload was sent under; a packet numbered with the largest \<open>uint64\<close> is
  excluded, since the cursor would wrap to 0 behind it.\<close>

datatype 'p reorderOp = Push 'p nanos | Flush nanos

primrec run_reorder :: "('p \<Rightarrow> nanos \<Rightarrow> 's \<Rightarrow> ('s \<times> 'p list) option) \<Rightarrow> (nanos \<Rightarrow> 's \<Rightarrow> 's \<times> 'p list) \<Rightarrow>
    'p reorderOp list \<Rightarrow> 's \<Rightarrow> ('s \<times> 'p list) option" where
  "run_reorder psh fl [] s = Some (s, [])"
| "run_reorder psh fl (x # xs) s =
    (case (case x of Push p now \<Rightarrow> psh p now s | Flush now \<Rightarrow> Some (fl now s)) of
       None \<Rightarrow> None
     | Some (s', out) \<Rightarrow> map_option (\<lambda>(s'', out'). (s'', out @ out')) (run_reorder psh fl xs s'))"

definition pushed :: "'p reorderOp list \<Rightarrow> 'p set" where
  "pushed xs = {p. \<exists>now. Push p now \<in> set xs}"

definition no_wrap :: "('p \<Rightarrow> 64 word) \<Rightarrow> 'p reorderOp list \<Rightarrow> bool" where
  "no_wrap tag xs = list_all (\<lambda>x. case x of Push p now \<Rightarrow> tag p \<noteq> - 1 | Flush _ \<Rightarrow> True) xs"

locale reorder_buffer =
  fixes init :: 's and psh :: "'p \<Rightarrow> nanos \<Rightarrow> 's \<Rightarrow> ('s \<times> 'p list) option" and fl :: "nanos \<Rightarrow> 's \<Rightarrow> 's \<times> 'p list"
    and tag :: "'p \<Rightarrow> 64 word" and nx :: "'s \<Rightarrow> nat" and held :: "'s \<Rightarrow> 'p set" and inv :: "'s \<Rightarrow> bool"
  assumes init: "inv init" "nx init = 1" "held init = {}"
    and above: "inv s \<Longrightarrow> p \<in> held s \<Longrightarrow> nx s < unat (tag p)"
    and push_total: "inv s \<Longrightarrow> tag p \<noteq> - 1 \<Longrightarrow> \<exists>s' out. psh p now s = Some (s', out)"
    and push_ok: "inv s \<Longrightarrow> tag p \<noteq> - 1 \<Longrightarrow> psh p now s = Some (s', out) \<Longrightarrow>
      inv s' \<and> sorted_wrt (<) (map (\<lambda>p. unat (tag p)) out) \<and> nx s \<le> nx s' \<and>
      (\<forall>q \<in> set out. nx s \<le> unat (tag q) \<and> unat (tag q) < nx s') \<and> set out \<union> held s' \<subseteq> insert p (held s)"
    and push_window: "inv s \<Longrightarrow> tag p \<noteq> - 1 \<Longrightarrow> psh p now s = Some (s', out) \<Longrightarrow>
      1 \<le> unat (tag p) \<Longrightarrow> nx s \<le> unat (tag p) \<Longrightarrow> unat (tag p) < nx s + 256 \<Longrightarrow> tag p \<notin> tag ` held s \<Longrightarrow>
      set out \<union> held s' = insert p (held s) \<and> map (\<lambda>p. unat (tag p)) out = [nx s ..< nx s']"
    and flush_ok: "inv s \<Longrightarrow> fl now s = (s', out) \<Longrightarrow>
      inv s' \<and> sorted_wrt (<) (map (\<lambda>p. unat (tag p)) out) \<and> nx s \<le> nx s' \<and>
      (\<forall>q \<in> set out. nx s \<le> unat (tag q) \<and> unat (tag q) < nx s') \<and> set out \<union> held s' \<subseteq> held s"
begin

lemma run_ok:
  assumes "inv s" "no_wrap tag xs"
  shows "\<exists>s' out. run_reorder psh fl xs s = Some (s', out) \<and> inv s' \<and> nx s \<le> nx s' \<and>
    sorted_wrt (<) (map (\<lambda>p. unat (tag p)) out) \<and> (\<forall>q \<in> set out. nx s \<le> unat (tag q)) \<and>
    set out \<union> held s' \<subseteq> pushed xs \<union> held s"
  using assms
proof (induction xs arbitrary: s)
  case Nil
  then show ?case by simp
next
  case (Cons x xs)
  let ?step = "case x of Push p now \<Rightarrow> psh p now s | Flush now \<Rightarrow> Some (fl now s)"
  let ?new = "case x of Push p now \<Rightarrow> insert p (held s) | Flush now \<Rightarrow> held s"
  obtain s1 o1 where step: "?step = Some (s1, o1)" and s1: "inv s1" "nx s \<le> nx s1" "sorted_wrt (<) (map (\<lambda>p. unat (tag p)) o1)"
    "\<forall>q \<in> set o1. nx s \<le> unat (tag q) \<and> unat (tag q) < nx s1" "set o1 \<union> held s1 \<subseteq> ?new"
  proof (cases x)
    case (Push p now)
    then have "tag p \<noteq> - 1" using Cons.prems by (simp add: no_wrap_def)
    with Cons.prems obtain s1 o1 where "psh p now s = Some (s1, o1)" using push_total by blast
    with push_ok [OF Cons.prems(1) \<open>tag p \<noteq> - 1\<close> this] Push that show ?thesis by simp
  next
    case (Flush now)
    with flush_ok [OF Cons.prems(1), of now "fst (fl now s)" "snd (fl now s)"] that [of "fst (fl now s)" "snd (fl now s)"]
    show ?thesis by simp
  qed
  obtain s2 o2 where r: "run_reorder psh fl xs s1 = Some (s2, o2)" "inv s2" "nx s1 \<le> nx s2" "sorted_wrt (<) (map (\<lambda>p. unat (tag p)) o2)"
    "\<forall>q \<in> set o2. nx s1 \<le> unat (tag q)" "set o2 \<union> held s2 \<subseteq> pushed xs \<union> held s1"
    using Cons.IH [OF s1(1)] Cons.prems by (auto simp: no_wrap_def)
  define new where "new = ?new"
  have "new \<subseteq> pushed (x # xs) \<union> held s" "pushed xs \<subseteq> pushed (x # xs)"
    by (auto simp: pushed_def new_def split: reorderOp.splits)
  moreover have "set o1 \<union> held s1 \<subseteq> new" using s1(5) by (simp add: new_def)
  ultimately have "set (o1 @ o2) \<union> held s2 \<subseteq> pushed (x # xs) \<union> held s"
    using r(6) unfolding set_append by blast
  moreover have "sorted_wrt (<) (map (\<lambda>p. unat (tag p)) (o1 @ o2))"
    using s1(3, 4) r(4, 5) by (fastforce simp: sorted_wrt_append)
  ultimately show ?case
    using step r s1 by (auto intro: order_trans)
qed

text \<open>Arrivals 1 to n in any order in which no packet overtakes another by a whole window.\<close>

lemma run_window:
  assumes "inv s" "distinct (map tag ps)" "list_all (\<lambda>p. tag p \<noteq> - 1 \<and> tag p \<noteq> 0) ps"
    and seen: "(\<lambda>p. unat (tag p)) ` held s \<union> {1 ..< nx s} = S" "1 \<le> nx s"
    and fresh: "(\<lambda>p. unat (tag p)) ` set ps \<inter> S = {}"
    and win: "\<forall>i < length ps. \<forall>k. 1 \<le> k \<and> k + 256 \<le> unat (tag (ps ! i)) \<longrightarrow> k \<in> S \<union> (\<lambda>p. unat (tag p)) ` set (take i ps)"
  shows "\<exists>s' out. run_reorder psh fl (map (\<lambda>p. Push p now) ps) s = Some (s', out) \<and> inv s' \<and> nx s \<le> nx s' \<and>
    map (\<lambda>p. unat (tag p)) out = [nx s ..< nx s'] \<and> set out \<union> held s' = set ps \<union> held s \<and>
    (\<lambda>p. unat (tag p)) ` held s' \<union> {1 ..< nx s'} = S \<union> (\<lambda>p. unat (tag p)) ` set ps"
  using assms
proof (induction ps arbitrary: s S)
  case Nil
  then show ?case by simp
next
  case (Cons p ps)
  let ?t = "\<lambda>p. unat (tag p)"
  have p: "tag p \<noteq> - 1" "1 \<le> unat (tag p)" "?t p \<notin> S"
    using Cons.prems(3, 6) by (simp_all add: Suc_le_eq unat_gt_0)
  have n: "nx s \<le> unat (tag p)" "tag p \<notin> tag ` held s"
    using p Cons.prems(4) by (auto simp: not_le)
  have "nx s \<notin> S" using above [OF Cons.prems(1)] Cons.prems(4) by fastforce
  then have w: "unat (tag p) < nx s + 256"
    using Cons.prems(5, 7) by (metis append.right_neutral le_add2 length_greater_0_conv linorder_not_le list.discI list.set(1) nth_Cons_0 take0 Un_empty_right image_empty)
  obtain s1 o1 where step: "psh p now s = Some (s1, o1)" using push_total [OF Cons.prems(1) p(1)] by blast
  note ok = push_ok [OF Cons.prems(1) p(1) step]
  note pw = push_window [OF Cons.prems(1) p(1) step p(2) n(1) w n(2)]
  have "?t ` set o1 = {nx s ..< nx s1}"
    using pw by (metis (no_types, lifting) list.set_map set_upt)
  moreover have "{1 ..< nx s1} = {1 ..< nx s} \<union> {nx s ..< nx s1}"
    using ok Cons.prems(5) by auto
  ultimately have "?t ` held s1 \<union> {1 ..< nx s1} = ?t ` (set o1 \<union> held s1) \<union> {1 ..< nx s}"
    by auto
  then have seen: "?t ` held s1 \<union> {1 ..< nx s1} = insert (?t p) S"
    using pw Cons.prems(4) by auto
  have "\<exists>s' out. run_reorder psh fl (map (\<lambda>p. Push p now) ps) s1 = Some (s', out) \<and> inv s' \<and> nx s1 \<le> nx s' \<and>
      map ?t out = [nx s1 ..< nx s'] \<and> set out \<union> held s' = set ps \<union> held s1 \<and>
      ?t ` held s' \<union> {1 ..< nx s'} = insert (?t p) S \<union> ?t ` set ps"
  proof (rule Cons.IH [OF _ _ _ seen])
    show "inv s1" "1 \<le> nx s1" using ok Cons.prems(5) by auto
    show "distinct (map tag ps)" "list_all (\<lambda>p. tag p \<noteq> - 1 \<and> tag p \<noteq> 0) ps" using Cons.prems by auto
    show "?t ` set ps \<inter> insert (?t p) S = {}" using Cons.prems(2, 6) by (auto simp flip: word_unat_eq_iff)
    show "\<forall>i<length ps. \<forall>k. 1 \<le> k \<and> k + 256 \<le> ?t (ps ! i) \<longrightarrow> k \<in> insert (?t p) S \<union> ?t ` set (take i ps)"
    proof (intro allI impI)
      fix i k assume "i < length ps" "1 \<le> k \<and> k + 256 \<le> ?t (ps ! i)"
      with Cons.prems(7) [rule_format, of "Suc i" k] show "k \<in> insert (?t p) S \<union> ?t ` set (take i ps)" by auto
    qed
  qed
  then obtain s2 o2 where r: "run_reorder psh fl (map (\<lambda>p. Push p now) ps) s1 = Some (s2, o2)" "inv s2" "nx s1 \<le> nx s2"
    "map ?t o2 = [nx s1 ..< nx s2]" "set o2 \<union> held s2 = set ps \<union> held s1"
    "?t ` held s2 \<union> {1 ..< nx s2} = insert (?t p) S \<union> ?t ` set ps" by blast
  have "map ?t (o1 @ o2) = [nx s ..< nx s2]"
    using pw ok r(3, 4) upt_add_eq_append [of "nx s" "nx s1" "nx s2 - nx s1"] by simp
  moreover have "set (o1 @ o2) \<union> held s2 = set (p # ps) \<union> held s" using pw r(5) by auto
  ultimately show ?case using step r ok by auto
qed

end

section \<open>The ring implements the contract\<close>

definition ring_held :: "'p packetReorder \<Rightarrow> 'p set" where
  "ring_held r = {q. \<exists>p. Some p \<in> set (slots r) \<and> pkt p = q}"

definition ring_nx :: "'p packetReorder \<Rightarrow> nat" where
  "ring_nx r = unat (nextSeq r)"

definition packet_ok :: "('p \<Rightarrow> 64 word) \<Rightarrow> nat \<Rightarrow> nat \<Rightarrow> 'p reorderPacket \<Rightarrow> bool" where
  "packet_ok tag n i p = (slot_of (sequence p) = i \<and> n \<le> unat (sequence p) \<and> unat (sequence p) < n + 256 \<and>
     sequence p \<noteq> - 1 \<and> tag (pkt p) = sequence p)"

definition ring_wf :: "('p \<Rightarrow> 64 word) \<Rightarrow> 'p packetReorder \<Rightarrow> bool" where
  "ring_wf tag r = (length (slots r) = 256 \<and> 1 \<le> ring_nx r \<and> buffered r = int (occupied r) \<and>
     (\<forall>i<256. \<forall>p. slots r ! i = Some p \<longrightarrow> packet_ok tag (ring_nx r) i p))"

definition ring_inv :: "('p \<Rightarrow> 64 word) \<Rightarrow> 'p packetReorder \<Rightarrow> bool" where
  "ring_inv tag r = (ring_wf tag r \<and> (\<forall>p. Some p \<in> set (slots r) \<longrightarrow> nextSeq r \<noteq> sequence p))"

lemma slot_of_nat: "slot_of s = unat s mod 256"
  by (simp add: slot_of_def bondReorderWindow_def unat_mod)

lemma slot_of_less [simp]: "slot_of s < 256"
  by (simp add: slot_of_nat)

lemma ring_wfD:
  assumes "ring_wf tag r"
  shows "length (slots r) = 256" "buffered r = int (occupied r)" "1 \<le> ring_nx r"
    "Some p \<in> set (slots r) \<Longrightarrow> packet_ok tag (ring_nx r) (slot_of (sequence p)) p"
    "slot_at r (slot_of s) = Some p \<Longrightarrow> Some p \<in> set (slots r) \<and> packet_ok tag (ring_nx r) (slot_of s) p"
proof -
  show l: "length (slots r) = 256" "buffered r = int (occupied r)" "1 \<le> ring_nx r"
    using assms by (simp_all add: ring_wf_def)
  show "packet_ok tag (ring_nx r) (slot_of (sequence p)) p" if "Some p \<in> set (slots r)"
    using assms that by (auto simp: ring_wf_def in_set_conv_nth packet_ok_def)
  show "Some p \<in> set (slots r) \<and> packet_ok tag (ring_nx r) (slot_of s) p" if "slot_at r (slot_of s) = Some p"
    using assms that nth_mem [of "slot_of s" "slots r"] l(1) by (auto simp: slot_at_def ring_wf_def)
qed

text \<open>Two numbers in one window that share a slot are equal.\<close>

lemma window_mod:
  "n \<le> a \<Longrightarrow> a < n + 256 \<Longrightarrow> n \<le> b \<Longrightarrow> b < n + 256 \<Longrightarrow> a mod 256 = b mod 256 \<Longrightarrow> a = (b :: nat)"
  using div_mult_mod_eq [of a 256] div_mult_mod_eq [of b 256]
  by (cases "a div 256" "b div 256" rule: linorder_cases) linarith+

lemma same_slot:
  assumes "packet_ok tag n (slot_of s) p" "n \<le> unat s" "unat s < n + 256"
  shows "sequence p = s"
  using assms window_mod [of n "unat (sequence p)" "unat s"] by (simp add: packet_ok_def slot_of_nat word_unat_eq_iff)

lemma filter_update_count:
  "i < length xs \<Longrightarrow> length (filter P (xs[i := y])) + (if P (xs ! i) then 1 else 0) =
    length (filter P xs) + (if P y then 1 else 0)"
proof (induction xs arbitrary: i)
  case (Cons x xs)
  then show ?case by (cases i) (auto split: if_splits)
qed simp

lemma unat_Suc: "s \<noteq> (- 1 :: 64 word) \<Longrightarrow> unat (s + 1) = unat s + 1"
  using unatSuc [of s] by (simp add: add.commute eq_neg_iff_add_eq_0)

lemma drain_step_wf:
  assumes "ring_wf tag r" "slot_at r (slot_of (nextSeq r)) = Some p" "sequence p = nextSeq r"
  defines "r1 \<equiv> r\<lparr>slots := (slots r)[slot_of (nextSeq r) := None], buffered := buffered r - 1, nextSeq := nextSeq r + 1\<rparr>"
  shows "ring_wf tag r1" "ring_nx r1 = ring_nx r + 1" "ring_held r = insert (pkt p) (ring_held r1)" "unat (tag (pkt p)) = ring_nx r"
proof -
  note wf = ring_wfD [OF assms(1)]
  let ?i = "slot_of (nextSeq r)"
  have i: "slots r ! ?i = Some p" "?i < length (slots r)" using assms(2) wf(1) by (auto simp: slot_at_def)
  have p: "packet_ok tag (ring_nx r) ?i p" using wf(5) assms(2) by blast
  then show n: "ring_nx r1 = ring_nx r + 1" "unat (tag (pkt p)) = ring_nx r"
    using assms(3) by (simp_all add: r1_def ring_nx_def packet_ok_def unat_Suc)
  have "packet_ok tag (ring_nx r1) j q" if "j < 256" "slots r1 ! j = Some q" for j q
  proof -
    have j: "j \<noteq> ?i" "slots r ! j = Some q" using that i wf(1) by (auto simp: r1_def nth_list_update split: if_splits)
    then have q: "packet_ok tag (ring_nx r) j q" using assms(1) that by (simp add: ring_wf_def)
    then have "sequence q \<noteq> nextSeq r" using j(1) by (auto simp: packet_ok_def)
    then have "unat (sequence q) \<noteq> ring_nx r" by (simp add: ring_nx_def word_unat_eq_iff)
    then show ?thesis using q by (auto simp: packet_ok_def n(1))
  qed
  moreover have "buffered r1 = int (occupied r1)"
    using wf(2) i filter_update_count [of ?i "slots r" "\<lambda>x. x \<noteq> None" None] by (simp add: r1_def occupied_def)
  ultimately show "ring_wf tag r1"
    using wf(1, 3) n by (simp add: ring_wf_def) (simp add: r1_def)
  show "ring_held r = insert (pkt p) (ring_held r1)"
    using i by (auto simp: ring_held_def r1_def in_set_conv_nth nth_list_update) (metis option.inject)+
qed

lemma drain_ok:
  assumes "ring_wf tag r"
  shows "drain r = (r', out) \<Longrightarrow> ring_inv tag r' \<and> map (\<lambda>p. unat (tag p)) out = [ring_nx r ..< ring_nx r'] \<and>
    ring_nx r \<le> ring_nx r' \<and> set out \<union> ring_held r' = ring_held r"
  using assms
proof (induction r arbitrary: r' out rule: drain.induct)
  case (1 r)
  show ?case
  proof (cases "\<exists>p. slot_at r (slot_of (nextSeq r)) = Some p \<and> sequence p = nextSeq r")
    case True
    then obtain p where p: "slot_at r (slot_of (nextSeq r)) = Some p" "sequence p = nextSeq r" by blast
    define r1 where "r1 = r\<lparr>slots := (slots r)[slot_of (nextSeq r) := None], buffered := buffered r - 1, nextSeq := nextSeq r + 1\<rparr>"
    obtain o1 where o1: "drain r1 = (r', o1)" "out = pkt p # o1"
      using "1.prems"(1) p by (subst (asm) drain.simps) (auto simp: r1_def split: prod.splits)
    note s = drain_step_wf [OF "1.prems"(2) p, folded r1_def]
    have "ring_inv tag r' \<and> map (\<lambda>p. unat (tag p)) o1 = [ring_nx r1 ..< ring_nx r'] \<and>
        ring_nx r1 \<le> ring_nx r' \<and> set o1 \<union> ring_held r' = ring_held r1"
      using "1.IH" [OF p(1)] p(2) o1(1) s(1) by (simp add: r1_def)
    then show ?thesis using s o1 by (auto simp: upt_conv_Cons)
  next
    case False
    then have "drain r = (r, [])" by (subst drain.simps) (auto split: option.split)
    moreover have "ring_inv tag r"
      using False "1.prems"(2) ring_wfD(1, 4) [OF "1.prems"(2)]
      by (auto simp: ring_inv_def slot_at_def ring_wf_def in_set_conv_nth packet_ok_def)
    ultimately show ?thesis using "1.prems"(1) by auto
  qed
qed

lemma lowest_fold:
  fixes l0 :: "64 word"
  defines "f \<equiv> \<lambda>p l. case p of None \<Rightarrow> l | Some p \<Rightarrow> if l = 0 \<or> sequence p < l then sequence p else l"
  assumes "\<forall>p. Some p \<in> set xs \<longrightarrow> sequence p \<noteq> 0"
  shows "(l0 = 0 \<longrightarrow> (fold f xs l0 = 0 \<longleftrightarrow> (\<forall>p. Some p \<notin> set xs))) \<and> (l0 \<noteq> 0 \<longrightarrow> fold f xs l0 \<noteq> 0) \<and>
    (fold f xs l0 \<noteq> 0 \<longrightarrow> (fold f xs l0 = l0 \<or> (\<exists>p. Some p \<in> set xs \<and> sequence p = fold f xs l0)) \<and>
      (\<forall>p. Some p \<in> set xs \<longrightarrow> fold f xs l0 \<le> sequence p) \<and> (l0 \<noteq> 0 \<longrightarrow> fold f xs l0 \<le> l0))"
  using assms(2)
proof (induction xs arbitrary: l0)
  case (Cons x xs)
  have IH: "\<forall>p. Some p \<in> set xs \<longrightarrow> sequence p \<noteq> 0" using Cons.prems by simp
  show ?case
  proof (cases x)
    case None
    then show ?thesis using Cons.IH [OF IH, of l0] by (simp add: f_def)
  next
    case (Some p)
    then have "sequence p \<noteq> 0" using Cons.prems by simp
    then show ?thesis
      using Cons.IH [OF IH, of "f x l0"] Some unfolding f_def by (auto split: if_splits intro: order_trans less_imp_le)
  qed
qed simp

lemma lowest_cases:
  assumes "ring_inv tag r"
  obtains "lowest r = None" "\<forall>p. Some p \<notin> set (slots r)"
  | p where "lowest r = Some (sequence p)" "Some p \<in> set (slots r)" "\<forall>q. Some q \<in> set (slots r) \<longrightarrow> sequence p \<le> sequence q"
proof -
  have "sequence p \<noteq> 0" if "Some p \<in> set (slots r)" for p
    using assms that ring_wfD(3) [of tag r] ring_wfD(4) [of tag r p] by (auto simp: ring_inv_def packet_ok_def)
  moreover define l where "l = fold (\<lambda>p l. case p of None \<Rightarrow> l
    | Some p \<Rightarrow> if l = 0 \<or> sequence p < l then sequence p else l) (slots r) 0"
  ultimately have "l = 0 \<longleftrightarrow> (\<forall>p. Some p \<notin> set (slots r))"
    "l \<noteq> 0 \<Longrightarrow> (\<exists>p. Some p \<in> set (slots r) \<and> sequence p = l) \<and> (\<forall>p. Some p \<in> set (slots r) \<longrightarrow> l \<le> sequence p)"
    using lowest_fold [of "slots r" 0] by auto
  moreover have "lowest r = (if l \<noteq> 0 then Some l else None)" by (simp add: lowest_def l_def Let_def)
  ultimately show ?thesis using that by (cases "l = 0") auto
qed

lemma advance_wf:
  assumes "ring_inv tag r" "Some p \<in> set (slots r)" "\<forall>q. Some q \<in> set (slots r) \<longrightarrow> sequence p \<le> sequence q"
  defines "r1 \<equiv> advanceTo (sequence p) r"
  shows "ring_wf tag r1" "ring_nx r1 = unat (sequence p)" "ring_nx r < ring_nx r1" "ring_held r1 = ring_held r"
    "occupied r1 = occupied r" "slots r1 = slots r" "unat (sequence p) < ring_nx r + 256"
proof -
  have wf: "ring_wf tag r" using assms(1) by (simp add: ring_inv_def)
  have p: "packet_ok tag (ring_nx r) (slot_of (sequence p)) p" using ring_wfD(4) [OF wf] assms(2) by blast
  then show "unat (sequence p) < ring_nx r + 256" by (simp add: packet_ok_def)
  have "sequence p \<noteq> nextSeq r" using assms(1, 2) by (auto simp: ring_inv_def)
  with p have gt: "nextSeq r < sequence p" by (auto simp: packet_ok_def ring_nx_def word_less_nat_alt word_unat_eq_iff)
  then show n: "ring_nx r1 = unat (sequence p)" "ring_nx r < ring_nx r1" "slots r1 = slots r" "occupied r1 = occupied r" "ring_held r1 = ring_held r"
    by (simp_all add: r1_def advanceTo_def ring_nx_def word_less_nat_alt occupied_def ring_held_def)
  have "packet_ok tag (ring_nx r1) i q" if "i < 256" "slots r ! i = Some q" for i q
  proof -
    have "Some q \<in> set (slots r)" using that ring_wfD(1) [OF wf] nth_mem [of i "slots r"] by simp
    then have "unat (sequence p) \<le> unat (sequence q)" using assms(3) by (simp add: word_le_nat_alt)
    moreover have "packet_ok tag (ring_nx r) i q" using wf that by (simp add: ring_wf_def)
    ultimately show ?thesis using n by (auto simp: packet_ok_def)
  qed
  moreover have "buffered r1 = buffered r" by (simp add: r1_def advanceTo_def)
  ultimately show "ring_wf tag r1"
    using wf n by (simp add: ring_wf_def)
qed

lemma held_tag:
  "ring_wf tag r \<Longrightarrow> q \<in> ring_held r \<Longrightarrow> ring_nx r \<le> unat (tag q) \<and> unat (tag q) < ring_nx r + 256 \<and> tag q \<noteq> - 1"
  using ring_wfD(4) [of tag r] by (auto simp: ring_held_def packet_ok_def)

lemma tags_upt: "map f xs = [a ..< b] \<Longrightarrow> sorted_wrt (<) (map f xs) \<and> (\<forall>q \<in> set xs. a \<le> f q \<and> f q < b) \<and> f ` set xs = {a ..< b}"
  by (metis atLeastLessThan_iff image_eqI list.set_map set_upt sorted_wrt_upt)

definition ring_step :: "('p \<Rightarrow> 64 word) \<Rightarrow> 'p packetReorder \<Rightarrow> 'p packetReorder \<Rightarrow> 'p list \<Rightarrow> bool" where
  "ring_step tag r r' out = (ring_inv tag r' \<and> sorted_wrt (<) (map (\<lambda>p. unat (tag p)) out) \<and> ring_nx r \<le> ring_nx r' \<and>
     (\<forall>q \<in> set out. ring_nx r \<le> unat (tag q) \<and> unat (tag q) < ring_nx r'))"

lemma ring_step_append:
  "ring_step tag r r1 o1 \<Longrightarrow> ring_step tag r1 r2 o2 \<Longrightarrow> ring_step tag r r2 (o1 @ o2)"
  by (fastforce simp: ring_step_def sorted_wrt_append)

lemma ring_step_refl: "ring_inv tag r \<Longrightarrow> ring_step tag r r []"
  by (simp add: ring_step_def)

lemma drain_ring_step:
  assumes "ring_wf tag ra" "drain ra = (r', out)" "ring_nx r \<le> ring_nx ra"
  shows "ring_step tag r r' out"
proof -
  note d = drain_ok [OF assms(1, 2)]
  from tags_upt [OF conjunct1 [OF conjunct2 [OF d]]] d assms(3) show ?thesis
    by (fastforce simp: ring_step_def)
qed

lemma empty_ring_jump:
  assumes "ring_inv tag r" "\<forall>p. Some p \<notin> set (slots r)" "ring_nx r \<le> unat s"
  shows "ring_step tag r (r\<lparr>gaps := g, nextSeq := s\<rparr>) []"
proof -
  have "slots r ! i \<noteq> Some p" if "i < 256" for i p
    using assms(1, 2) that by (metis nth_mem ring_inv_def ring_wf_def)
  then show ?thesis
    using assms by (simp add: ring_step_def ring_inv_def ring_wf_def ring_nx_def occupied_def)
qed

lemma makeRoom_ok:
  assumes "ring_inv tag r" "s \<noteq> - 1" "ring_nx r \<le> unat s"
  shows "\<exists>r' out. makeRoom s r = Some (r', out) \<and> ring_step tag r r' out \<and> ring_nx r' \<le> unat s \<and>
    unat s < ring_nx r' + 256 \<and> set out \<union> ring_held r' = ring_held r \<and> (unat s < ring_nx r + 256 \<longrightarrow> r' = r \<and> out = [])"
  using assms
proof (induction "unat s - ring_nx r" arbitrary: r rule: less_induct)
  case less
  have sub: "unat (s - nextSeq r) = unat s - ring_nx r"
    using less.prems(3) by (simp add: ring_nx_def unat_sub word_le_nat_alt)
  show ?case
  proof (cases "unat s < ring_nx r + 256")
    case True
    then have "\<not> s - nextSeq r \<ge> bondReorderWindow"
      using sub less.prems(3) by (simp add: bondReorderWindow_def word_le_nat_alt)
    then have "makeRoom s r = Some (r, [])" by (subst makeRoom.simps) simp
    then show ?thesis using less.prems True ring_step_refl by simp
  next
    case False
    then have big: "s - nextSeq r \<ge> bondReorderWindow"
      using sub by (simp add: bondReorderWindow_def word_le_nat_alt)
    from less.prems(1) show ?thesis
    proof (cases rule: lowest_cases)
      case 1
      define r1 where "r1 = r\<lparr>gaps := gaps r + (s - nextSeq r), nextSeq := s\<rparr>"
      have "makeRoom s r = Some (r1, [])" using big 1(1) by (subst makeRoom.simps) (simp add: r1_def)
      moreover have "ring_held r1 = {}" "ring_held r = {}" "ring_nx r1 = unat s"
        using 1(2) by (auto simp: ring_held_def r1_def ring_nx_def)
      ultimately show ?thesis
        using empty_ring_jump [OF less.prems(1) 1(2) less.prems(3), of "gaps r + (s - nextSeq r)"] False
        by (simp flip: r1_def)
    next
      case (2 p)
      obtain r1 o1 where d: "drain (advanceTo (sequence p) r) = (r1, o1)" by fastforce
      note a = advance_wf [OF less.prems(1) 2(2, 3)]
      note dr = drain_ok [OF a(1) d]
      have o1: "set o1 \<union> ring_held r1 = ring_held r" using dr a(4) by simp
      have st: "ring_step tag r r1 o1" using drain_ring_step [OF a(1) d] a(3) by simp
      have lt: "ring_nx r < ring_nx r1" using dr a(2, 3) by linarith
      have le: "ring_nx r1 \<le> unat s"
      proof (cases "ring_nx r1 = unat (sequence p)")
        case False
        then have "ring_nx r1 - 1 \<in> {ring_nx (advanceTo (sequence p) r) ..< ring_nx r1}"
          using dr a(2) by auto
        then obtain q where q: "q \<in> set o1" "unat (tag q) = ring_nx r1 - 1"
          using tags_upt [OF conjunct1 [OF conjunct2 [OF dr]]] by (metis (no_types, lifting) imageE)
        have "unat (tag q) < ring_nx r + 256"
          using held_tag [of tag r q] o1 q(1) less.prems(1) unfolding ring_inv_def by blast
        then show ?thesis using q(2) \<open>\<not> unat s < ring_nx r + 256\<close> by linarith
      qed (use a(7) False in simp)
      obtain r' o2 where r: "makeRoom s r1 = Some (r', o2)" "ring_step tag r1 r' o2" "ring_nx r' \<le> unat s"
        "unat s < ring_nx r' + 256" "set o2 \<union> ring_held r' = ring_held r1"
        using less.hyps [of r1] lt le less.prems(2) st unfolding ring_step_def by fastforce
      have "makeRoom s r = Some (r', o1 @ o2)"
        using big 2(1) d r(1) by (subst makeRoom.simps) simp
      moreover have "set (o1 @ o2) \<union> ring_held r' = ring_held r" using r(5) o1 by auto
      ultimately show ?thesis
        using ring_step_append [OF st r(2)] r(3, 4) False by blast
    qed
  qed
qed

lemma some_update:
  "i < length xs \<Longrightarrow> xs ! i = None \<Longrightarrow> Some q \<in> set (xs[i := Some v]) \<longleftrightarrow> q = v \<or> Some q \<in> set xs"
proof (induction xs arbitrary: i)
  case (Cons x xs)
  then show ?case by (cases i) auto
qed simp

lemma store_wf:
  assumes "ring_inv tag r" "s \<noteq> - 1" "ring_nx r \<le> unat s" "unat s < ring_nx r + 256" "tag p = s"
    and "\<not> (case slot_at r (slot_of s) of Some old \<Rightarrow> sequence old = s | None \<Rightarrow> False)"
  shows "ring_wf tag (storeSlot s p r)" "ring_nx (storeSlot s p r) = ring_nx r" "ring_held (storeSlot s p r) = insert p (ring_held r)"
proof -
  have wf: "ring_wf tag r" using assms(1) by (simp add: ring_inv_def)
  note len = ring_wfD(1) [OF wf]
  have free: "slot_at r (slot_of s) = None"
    using ring_wfD(5) [OF wf, of s] same_slot [OF _ assms(3, 4)] assms(6) by (auto split: option.splits)
  then have free': "slots r ! slot_of s = None" using len by (simp add: slot_at_def)
  let ?r = "r\<lparr>slots := (slots r)[slot_of s := Some \<lparr>sequence = s, pkt = p\<rparr>], buffered := buffered r + 1\<rparr>"
  have e: "storeSlot s p r = ?r" using free by (simp add: storeSlot_def Let_def)
  show n: "ring_nx (storeSlot s p r) = ring_nx r" by (simp add: e ring_nx_def)
  have "packet_ok tag (ring_nx r) (slot_of s) \<lparr>sequence = s, pkt = p\<rparr>"
    using assms by (simp add: packet_ok_def)
  then have "packet_ok tag (ring_nx r) i q" if "i < 256" "slots ?r ! i = Some q" for i q
    using that wf len by (cases "i = slot_of s") (auto simp: ring_wf_def)
  moreover have "occupied ?r = occupied r + 1"
    using filter_update_count [of "slot_of s" "slots r" "\<lambda>x. x \<noteq> None"] free' len by (simp add: occupied_def)
  ultimately show "ring_wf tag (storeSlot s p r)"
    using wf n unfolding e by (simp add: ring_wf_def)
  show "ring_held (storeSlot s p r) = insert p (ring_held r)"
    unfolding e using free' len some_update [of "slot_of s" "slots r"] by (auto simp: ring_held_def)
qed

lemma restamp_same:
  "ring_inv tag (restamp now r) = ring_inv tag r" "ring_nx (restamp now r) = ring_nx r" "ring_held (restamp now r) = ring_held r"
  by (simp_all add: restamp_def Let_def ring_inv_def ring_wf_def ring_nx_def ring_held_def occupied_def)

lemma counters_same:
  "ring_inv tag (r\<lparr>late := a\<rparr>) = ring_inv tag r" "ring_nx (r\<lparr>late := a\<rparr>) = ring_nx r" "ring_held (r\<lparr>late := a\<rparr>) = ring_held r"
  "ring_inv tag (r\<lparr>duplicate := a\<rparr>) = ring_inv tag r" "ring_nx (r\<lparr>duplicate := a\<rparr>) = ring_nx r" "ring_held (r\<lparr>duplicate := a\<rparr>) = ring_held r"
  "ring_inv tag (r\<lparr>gapSince := g\<rparr>) = ring_inv tag r" "ring_nx (r\<lparr>gapSince := g\<rparr>) = ring_nx r" "ring_held (r\<lparr>gapSince := g\<rparr>) = ring_held r"
  by (simp_all add: ring_inv_def ring_wf_def ring_nx_def ring_held_def occupied_def)

text \<open>A packet already buffered is within the window, so that making room never precedes the
  duplicate branch, which returns no packets.\<close>

lemma push_spec:
  assumes "ring_inv tag r" "s \<noteq> - 1" "tag p = s"
  obtains (late) "s = 0 \<or> unat s < ring_nx r" "push s p now r = Some (r\<lparr>late := late r + 1\<rparr>, [])"
  | (dup) "s \<in> tag ` ring_held r" "push s p now r = Some (r\<lparr>duplicate := duplicate r + 1\<rparr>, [])"
  | (stored) r1 o1 r2 o2 where "ring_nx r \<le> unat s" "s \<noteq> 0" "makeRoom s r = Some (r1, o1)" "ring_step tag r r1 o1"
      "set o1 \<union> ring_held r1 = ring_held r" "unat s < ring_nx r + 256 \<longrightarrow> r1 = r \<and> o1 = []"
      "ring_wf tag (storeSlot s p r1)" "ring_nx (storeSlot s p r1) = ring_nx r1" "ring_held (storeSlot s p r1) = insert p (ring_held r1)"
      "drain (storeSlot s p r1) = (r2, o2)" "push s p now r = Some (restamp now r2, o1 @ o2)"
proof (cases "s = 0 \<or> s < nextSeq r")
  case True
  then show thesis using that(1) by (auto simp: push_def ring_nx_def word_less_nat_alt)
next
  case False
  then have s: "s \<noteq> 0" "ring_nx r \<le> unat s" by (auto simp: ring_nx_def word_less_nat_alt)
  obtain r1 o1 where m: "makeRoom s r = Some (r1, o1)" "ring_step tag r r1 o1" "ring_nx r1 \<le> unat s"
    "unat s < ring_nx r1 + 256" "set o1 \<union> ring_held r1 = ring_held r" "unat s < ring_nx r + 256 \<longrightarrow> r1 = r \<and> o1 = []"
    using makeRoom_ok [OF assms(1, 2) s(2)] by blast
  have inv1: "ring_inv tag r1" using m(2) by (simp add: ring_step_def)
  show thesis
  proof (cases "case slot_at r1 (slot_of s) of Some old \<Rightarrow> sequence old = s | None \<Rightarrow> False")
    case True
    then obtain old where old: "slot_at r1 (slot_of s) = Some old" "sequence old = s" by (auto split: option.splits)
    have "Some old \<in> set (slots r1)" "tag (pkt old) = s"
      using ring_wfD(5) [OF _ old(1), of tag] inv1 old(2) by (auto simp: ring_inv_def packet_ok_def)
    then have held: "s \<in> tag ` ring_held r1" by (auto simp: ring_held_def)
    then have "s \<in> tag ` ring_held r" using m(5) by auto
    moreover from this have "unat s < ring_nx r + 256" using held_tag [of tag r] assms(1) by (auto simp: ring_inv_def)
    ultimately show thesis using that(2) False m(1, 6) True by (simp add: push_def)
  next
    case False
    obtain r2 o2 where d: "drain (storeSlot s p r1) = (r2, o2)" by fastforce
    have "push s p now r = Some (restamp now r2, o1 @ o2)"
      using \<open>\<not> (s = 0 \<or> s < nextSeq r)\<close> m(1) False d by (auto simp: push_def split: option.splits)
    with that(3) [OF s(2, 1) m(1, 2, 5, 6)] store_wf [OF inv1 assms(2) m(3, 4) assms(3) False] d show thesis by blast
  qed
qed

lemma push_ring:
  assumes "ring_inv tag r" "tag p \<noteq> - 1" "push (tag p) p now r = Some (r', out)"
  shows "ring_step tag r r' out" "set out \<union> ring_held r' \<subseteq> insert p (ring_held r)"
    "1 \<le> unat (tag p) \<Longrightarrow> ring_nx r \<le> unat (tag p) \<Longrightarrow> unat (tag p) < ring_nx r + 256 \<Longrightarrow> tag p \<notin> tag ` ring_held r \<Longrightarrow>
      set out \<union> ring_held r' = insert p (ring_held r) \<and> map (\<lambda>p. unat (tag p)) out = [ring_nx r ..< ring_nx r']"
proof -
  note spec = push_spec [OF assms(1, 2) refl, of now]
  have step: "ring_step tag r (restamp now r2) (o1 @ o2)"
    if "ring_step tag r r1 o1" "ring_wf tag (storeSlot (tag p) p r1)" "ring_nx (storeSlot (tag p) p r1) = ring_nx r1"
      "drain (storeSlot (tag p) p r1) = (r2, o2)" for r1 o1 r2 o2
    using ring_step_append [OF that(1) drain_ring_step [OF that(2, 4)]] that(3) by (simp add: ring_step_def restamp_same)
  show "ring_step tag r r' out"
  proof (cases rule: spec)
    case (3 r1 o1 r2 o2)
    with step [OF 3(4, 7, 8, 10)] assms(3) show ?thesis by simp
  qed (use assms(1, 3) in \<open>auto simp: ring_step_def counters_same\<close>)
  show "set out \<union> ring_held r' \<subseteq> insert p (ring_held r)"
  proof (cases rule: spec)
    case (3 r1 o1 r2 o2)
    have "set o2 \<union> ring_held r2 = insert p (ring_held r1)" using drain_ok [OF 3(7, 10)] 3(9) by simp
    moreover have "ring_held r' = ring_held r2" "out = o1 @ o2" using assms(3) 3(11) by (auto simp: restamp_same)
    ultimately have "set out \<union> ring_held r' = insert p (set o1 \<union> ring_held r1)" by (simp add: Un_assoc)
    then show ?thesis using 3(5) by simp
  qed (use assms(3) in \<open>auto simp: counters_same\<close>)
  assume w: "1 \<le> unat (tag p)" "ring_nx r \<le> unat (tag p)" "unat (tag p) < ring_nx r + 256" "tag p \<notin> tag ` ring_held r"
  show "set out \<union> ring_held r' = insert p (ring_held r) \<and> map (\<lambda>p. unat (tag p)) out = [ring_nx r ..< ring_nx r']"
  proof (cases rule: spec)
    case (3 r1 o1 r2 o2)
    have "r1 = r" "o1 = []" using 3(6) w(3) by simp_all
    moreover have "r' = restamp now r2" "out = o1 @ o2" using assms(3) 3(11) by simp_all
    ultimately show ?thesis using drain_ok [OF 3(7, 10)] 3(8, 9) by (simp add: restamp_same)
  qed (use w in auto)
qed

lemma flush_ring:
  assumes "ring_inv tag r" "flushExpired now r = (r', out)"
  shows "ring_step tag r r' out" "set out \<union> ring_held r' \<subseteq> ring_held r"
proof -
  have "ring_step tag r r' out \<and> set out \<union> ring_held r' \<subseteq> ring_held r"
  proof (cases "buffered r = 0 \<or> (case gapSince r of None \<Rightarrow> True | Some g \<Rightarrow> now - g < holdTime r)")
    case True
    then show ?thesis using assms ring_step_refl by (auto simp: flushExpired_def)
  next
    case False
    from assms(1) show ?thesis
    proof (cases rule: lowest_cases)
      case 1
      then show ?thesis using False assms ring_step_refl by (auto simp: flushExpired_def)
    next
      case (2 p)
      obtain r1 o1 where d: "drain (advanceTo (sequence p) r) = (r1, o1)" by fastforce
      note a = advance_wf [OF assms(1) 2(2, 3)]
      have "ring_step tag r r1 o1" using drain_ring_step [OF a(1) d] a(3) by simp
      moreover have "r' = r1\<lparr>gapSince := (if buffered r1 > 0 then Some now else None)\<rparr>" "out = o1"
        using False assms(2) 2(1) d by (auto simp: flushExpired_def)
      ultimately show ?thesis
        using drain_ok [OF a(1) d] a(4) by (simp add: ring_step_def counters_same)
    qed
  qed
  then show "ring_step tag r r' out" "set out \<union> ring_held r' \<subseteq> ring_held r" by auto
qed

lemma new_ring_inv: "ring_inv tag (newPacketReorder h)" "ring_nx (newPacketReorder h) = 1" "ring_held (newPacketReorder h) = {}"
  by (auto simp: newPacketReorder_def ring_inv_def ring_wf_def ring_nx_def ring_held_def occupied_def)

definition ring_push :: "64 word \<times> 'd \<Rightarrow> nanos \<Rightarrow> (64 word \<times> 'd) packetReorder \<Rightarrow> ((64 word \<times> 'd) packetReorder \<times> (64 word \<times> 'd) list) option" where
  "ring_push p now r = push (fst p) p now r"

interpretation ring: reorder_buffer "newPacketReorder bondReorderHold" ring_push flushExpired fst ring_nx ring_held "ring_inv fst"
proof unfold_locales
  fix s s' :: "(64 word \<times> 'd) packetReorder" and p now out
  show "ring_inv fst (newPacketReorder bondReorderHold :: (64 word \<times> 'd) packetReorder)"
    "ring_nx (newPacketReorder bondReorderHold :: (64 word \<times> 'd) packetReorder) = 1"
    "ring_held (newPacketReorder bondReorderHold :: (64 word \<times> 'd) packetReorder) = {}"
    by (rule new_ring_inv)+
  assume i: "ring_inv fst s"
  show "ring_nx s < unat (fst p)" if m: "p \<in> ring_held s"
  proof -
    obtain q where q: "Some q \<in> set (slots s)" "pkt q = p" using m unfolding ring_held_def by blast
    then have "nextSeq s \<noteq> sequence q" "packet_ok fst (ring_nx s) (slot_of (sequence q)) q"
      using i ring_wfD(4) [of fst s q] by (auto simp: ring_inv_def)
    then show ?thesis using q(2) by (auto simp: packet_ok_def ring_nx_def order_le_less word_unat_eq_iff)
  qed
  show "\<exists>s' out. ring_push p now s = Some (s', out)" if "fst p \<noteq> - 1"
    by (cases rule: push_spec [OF i that refl, of now]) (auto simp: ring_push_def)
  show "ring_inv fst s' \<and> sorted_wrt (<) (map (\<lambda>p. unat (fst p)) out) \<and> ring_nx s \<le> ring_nx s' \<and>
      (\<forall>q \<in> set out. ring_nx s \<le> unat (fst q) \<and> unat (fst q) < ring_nx s') \<and> set out \<union> ring_held s' \<subseteq> insert p (ring_held s)"
    if "fst p \<noteq> - 1" "ring_push p now s = Some (s', out)"
    using push_ring(1, 2) [OF i that(1), of now] that(2) by (simp add: ring_push_def ring_step_def)
  show "set out \<union> ring_held s' = insert p (ring_held s) \<and> map (\<lambda>p. unat (fst p)) out = [ring_nx s ..< ring_nx s']"
    if "fst p \<noteq> - 1" "ring_push p now s = Some (s', out)" "1 \<le> unat (fst p)" "ring_nx s \<le> unat (fst p)"
      "unat (fst p) < ring_nx s + 256" "fst p \<notin> fst ` ring_held s"
    using push_ring(3) [OF i that(1), of now] that(2-) by (simp add: ring_push_def)
  show "ring_inv fst s' \<and> sorted_wrt (<) (map (\<lambda>p. unat (fst p)) out) \<and> ring_nx s \<le> ring_nx s' \<and>
      (\<forall>q \<in> set out. ring_nx s \<le> unat (fst q) \<and> unat (fst q) < ring_nx s') \<and> set out \<union> ring_held s' \<subseteq> ring_held s"
    if "flushExpired now s = (s', out)"
    using flush_ring [OF i that] by (simp add: ring_step_def)
qed

section \<open>The map implements the contract\<close>

definition buf_held :: "'p bondReorderBuffer \<Rightarrow> 'p set" where
  "buf_held r = snd ` set (rbuf r)"

definition buf_nx :: "'p bondReorderBuffer \<Rightarrow> nat" where
  "buf_nx r = unat (expect r)"

definition buf_wf :: "('p \<Rightarrow> 64 word) \<Rightarrow> 'p bondReorderBuffer \<Rightarrow> bool" where
  "buf_wf tag r = (distinct (map fst (rbuf r)) \<and> 1 \<le> buf_nx r \<and>
     (\<forall>e \<in> set (rbuf r). tag (snd e) = fst e \<and> fst e \<noteq> - 1 \<and> buf_nx r \<le> unat (fst e)))"

definition buf_inv :: "('p \<Rightarrow> 64 word) \<Rightarrow> 'p bondReorderBuffer \<Rightarrow> bool" where
  "buf_inv tag r = (buf_wf tag r \<and> (\<forall>e \<in> set (rbuf r). fst e \<noteq> expect r))"

definition buf_step :: "('p \<Rightarrow> 64 word) \<Rightarrow> 'p bondReorderBuffer \<Rightarrow> 'p bondReorderBuffer \<Rightarrow> 'p list \<Rightarrow> bool" where
  "buf_step tag r r' out = (buf_inv tag r' \<and> sorted_wrt (<) (map (\<lambda>p. unat (tag p)) out) \<and> buf_nx r \<le> buf_nx r' \<and>
     (\<forall>q \<in> set out. buf_nx r \<le> unat (tag q) \<and> unat (tag q) < buf_nx r'))"

lemma next_above: "buf_nx r \<le> unat s \<Longrightarrow> s \<noteq> expect r \<Longrightarrow> buf_nx r + 1 \<le> unat s"
  by (auto simp: buf_nx_def word_unat_eq_iff)

lemma remove_head_wf:
  assumes "buf_wf tag r" "map_of (rbuf r) (expect r) = Some p"
  defines "r1 \<equiv> r\<lparr>rbuf := AList.delete (expect r) (rbuf r), expect := expect r + 1\<rparr>"
  shows "buf_wf tag r1" "buf_nx r1 = buf_nx r + 1" "buf_held r = insert p (buf_held r1)" "unat (tag p) = buf_nx r"
proof -
  have p: "(expect r, p) \<in> set (rbuf r)" using assms(2) by (rule map_of_SomeD)
  then have t: "tag p = expect r" "expect r \<noteq> - 1" using assms(1) by (auto simp: buf_wf_def)
  then show n: "buf_nx r1 = buf_nx r + 1" "unat (tag p) = buf_nx r" by (simp_all add: r1_def buf_nx_def unat_Suc)
  have d: "set (rbuf r1) = set (rbuf r) - {e. fst e = expect r}" by (auto simp: r1_def AList.delete_eq)
  have "buf_nx r + 1 \<le> unat (fst e)" if "e \<in> set (rbuf r)" "fst e \<noteq> expect r" for e
    using that(1) assms(1) next_above [OF _ that(2)] by (simp add: buf_wf_def)
  then have "\<forall>e \<in> set (rbuf r1). tag (snd e) = fst e \<and> fst e \<noteq> - 1 \<and> buf_nx r1 \<le> unat (fst e)"
    using assms(1) unfolding d n(1) by (simp add: buf_wf_def)
  moreover have "distinct (map fst (rbuf r1))"
    using assms(1) by (simp add: r1_def buf_wf_def AList.distinct_delete)
  ultimately show "buf_wf tag r1" using n assms(1) by (simp add: buf_wf_def)
  have "e = (expect r, p)" if "e \<in> set (rbuf r)" "fst e = expect r" for e
    using that p assms(1) unfolding buf_wf_def by (metis eq_key_imp_eq_value prod.collapse)
  then have "set (rbuf r) = insert (expect r, p) (set (rbuf r1))"
    using p unfolding d by blast
  then show "buf_held r = insert p (buf_held r1)"
    by (simp add: buf_held_def)
qed

lemma drainContiguous_ok:
  assumes "buf_wf tag r"
  shows "drainContiguous r = (r', out) \<Longrightarrow> buf_inv tag r' \<and> map (\<lambda>p. unat (tag p)) out = [buf_nx r ..< buf_nx r'] \<and>
    buf_nx r \<le> buf_nx r' \<and> set out \<union> buf_held r' = buf_held r"
  using assms
proof (induction r arbitrary: r' out rule: drainContiguous.induct)
  case (1 r)
  show ?case
  proof (cases "map_of (rbuf r) (expect r)")
    case None
    then have "drainContiguous r = (r, [])" by (subst drainContiguous.simps) simp
    moreover have "\<forall>e \<in> set (rbuf r). fst e \<noteq> expect r" using None unfolding map_of_eq_None_iff by (metis imageI)
    ultimately show ?thesis using 1 by (auto simp: buf_inv_def)
  next
    case (Some p)
    define r1 where "r1 = r\<lparr>rbuf := AList.delete (expect r) (rbuf r), expect := expect r + 1\<rparr>"
    obtain o1 where o1: "drainContiguous r1 = (r', o1)" "out = p # o1"
      using "1.prems"(1) Some by (subst (asm) drainContiguous.simps) (auto simp: r1_def split: prod.splits)
    note s = remove_head_wf [OF "1.prems"(2) Some, folded r1_def]
    have "buf_inv tag r' \<and> map (\<lambda>p. unat (tag p)) o1 = [buf_nx r1 ..< buf_nx r'] \<and> buf_nx r1 \<le> buf_nx r' \<and> set o1 \<union> buf_held r' = buf_held r1"
      using "1.IH" [OF Some] o1(1) s(1) by (simp add: r1_def)
    then show ?thesis using s o1 by (auto simp: upt_conv_Cons)
  qed
qed

text \<open>The packet at the cursor, whether just received or taken from the buffer, followed by the drain.\<close>

lemma deliver_head:
  assumes "buf_wf tag r1" "buf_nx r1 = unat (tag p) + 1" "buf_nx r \<le> unat (tag p)" "drainContiguous r1 = (r', out)"
  shows "buf_step tag r r' (p # out)" "set (p # out) \<union> buf_held r' = insert p (buf_held r1)"
    "map (\<lambda>p. unat (tag p)) (p # out) = [unat (tag p) ..< buf_nx r']"
proof -
  note d = drainContiguous_ok [OF assms(1, 4)]
  show m: "map (\<lambda>p. unat (tag p)) (p # out) = [unat (tag p) ..< buf_nx r']"
    using d assms(2) by (simp add: upt_conv_Cons)
  show "set (p # out) \<union> buf_held r' = insert p (buf_held r1)" using d by auto
  show "buf_step tag r r' (p # out)"
    using tags_upt [OF m] d assms(2, 3) by (fastforce simp: buf_step_def)
qed

lemma buf_first_same:
  "buf_inv tag (r\<lparr>first := f\<rparr>) = buf_inv tag r" "buf_nx (r\<lparr>first := f\<rparr>) = buf_nx r" "buf_held (r\<lparr>first := f\<rparr>) = buf_held r"
  "buf_inv tag (r\<lparr>BondReorderLate := n\<rparr>) = buf_inv tag r" "buf_nx (r\<lparr>BondReorderLate := n\<rparr>) = buf_nx r" "buf_held (r\<lparr>BondReorderLate := n\<rparr>) = buf_held r"
  "buf_inv tag (r\<lparr>BondReorderDuplicates := n\<rparr>) = buf_inv tag r" "buf_nx (r\<lparr>BondReorderDuplicates := n\<rparr>) = buf_nx r" "buf_held (r\<lparr>BondReorderDuplicates := n\<rparr>) = buf_held r"
  by (simp_all add: buf_inv_def buf_wf_def buf_nx_def buf_held_def)

lemma buf_step_first: "buf_step tag r (r'\<lparr>first := f\<rparr>) out = buf_step tag r r' out"
  by (simp add: buf_step_def buf_first_same)

lemma pushExpected_ok:
  assumes "buf_inv tag r" "tag p = expect r" "tag p \<noteq> - 1" "buf_nx r0 \<le> buf_nx r" "pushExpected p r = (r', out)"
  shows "buf_step tag r0 r' out" "set out \<union> buf_held r' = insert p (buf_held r)" "map (\<lambda>p. unat (tag p)) out = [buf_nx r ..< buf_nx r']"
proof -
  define r1 where "r1 = r\<lparr>expect := expect r + 1\<rparr>"
  have n: "buf_nx r1 = unat (tag p) + 1" "buf_nx r = unat (tag p)" using assms(2, 3) by (simp_all add: r1_def buf_nx_def unat_Suc)
  have "buf_nx r + 1 \<le> unat (fst e)" if "e \<in> set (rbuf r)" for e
  proof (rule next_above)
    show "buf_nx r \<le> unat (fst e)" using that assms(1) by (simp add: buf_wf_def buf_inv_def)
    show "fst e \<noteq> expect r" using that assms(1) by (simp add: buf_inv_def)
  qed
  moreover have "rbuf r1 = rbuf r" by (simp add: r1_def)
  ultimately have wf: "buf_wf tag r1"
    using assms(1) n by (simp add: buf_inv_def buf_wf_def)
  obtain r2 o2 where d: "drainContiguous r1 = (r2, o2)" by fastforce
  then have r': "out = p # o2" "r' = (if rbuf r2 = [] then r2\<lparr>first := None\<rparr> else r2)"
    using assms(5) by (auto simp: pushExpected_def r1_def)
  have "buf_nx r0 \<le> unat (tag p)" using assms(4) n by simp
  note dh = deliver_head [OF wf n(1) this d]
  have "buf_held r1 = buf_held r" by (simp add: r1_def buf_held_def)
  then show "buf_step tag r0 r' out" "set out \<union> buf_held r' = insert p (buf_held r)" "map (\<lambda>p. unat (tag p)) out = [buf_nx r ..< buf_nx r']"
    using dh r' n by (simp_all add: buf_first_same buf_step_first)
qed

lemma client_push_ok:
  assumes "buf_inv tag r" "tag p \<noteq> - 1" "client_push (tag p) p now r = (r', out)"
  shows "buf_step tag r r' out \<and> set out \<union> buf_held r' \<subseteq> insert p (buf_held r)"
    "1 \<le> unat (tag p) \<Longrightarrow> buf_nx r \<le> unat (tag p) \<Longrightarrow> unat (tag p) < buf_nx r + 256 \<Longrightarrow> tag p \<notin> tag ` buf_held r \<Longrightarrow>
      set out \<union> buf_held r' = insert p (buf_held r) \<and> map (\<lambda>p. unat (tag p)) out = [buf_nx r ..< buf_nx r']"
proof -
  let ?win = "1 \<le> unat (tag p) \<and> buf_nx r \<le> unat (tag p) \<and> unat (tag p) < buf_nx r + 256 \<and> tag p \<notin> tag ` buf_held r"
  let ?exact = "set out \<union> buf_held r' = insert p (buf_held r) \<and> map (\<lambda>p. unat (tag p)) out = [buf_nx r ..< buf_nx r']"
  have r: "buf_step tag r r []" using assms(1) by (simp add: buf_step_def)
  consider (late) "tag p = 0 \<or> tag p < expect r" | (exp) "tag p = expect r" "tag p \<noteq> 0"
    | (dup) "map_of (rbuf r) (tag p) \<noteq> None" "expect r < tag p" "tag p \<noteq> 0"
    | (far) "map_of (rbuf r) (tag p) = None" "expect r < tag p" "tag p \<noteq> 0" "tag p - expect r \<ge> bondReorderWindow"
    | (near) "map_of (rbuf r) (tag p) = None" "expect r < tag p" "tag p \<noteq> 0" "\<not> tag p - expect r \<ge> bondReorderWindow"
    by fastforce
  moreover have n: "\<not> tag p < expect r" "tag p \<noteq> expect r" "buf_nx r < unat (tag p)" "unat (tag p - expect r) = unat (tag p) - buf_nx r"
    if "expect r < tag p" using that by (auto simp: buf_nx_def word_less_nat_alt unat_sub word_le_nat_alt)
  ultimately have "buf_step tag r r' out \<and> set out \<union> buf_held r' \<subseteq> insert p (buf_held r) \<and> (?win \<longrightarrow> ?exact)"
  proof cases
    case late
    then show ?thesis
      using assms(3) r by (auto simp: client_push_def buf_step_def buf_first_same buf_nx_def word_less_nat_alt)
  next
    case exp
    then have "pushExpected p r = (r', out)" using assms(3) by (simp add: client_push_def)
    from pushExpected_ok [OF assms(1) exp(1) assms(2) order_refl this] show ?thesis by simp
  next
    case dup
    then obtain q where "(tag p, q) \<in> set (rbuf r)" by (auto dest: map_of_SomeD)
    then have "tag p \<in> tag ` buf_held r" using assms(1) by (force simp: buf_inv_def buf_wf_def buf_held_def image_image)
    moreover have "r' = r\<lparr>BondReorderDuplicates := BondReorderDuplicates r + 1\<rparr>" "out = []"
      using dup n assms(3) by (auto simp: client_push_def)
    ultimately show ?thesis using r by (auto simp: buf_step_def buf_first_same)
  next
    case far
    define r1 where "r1 = r\<lparr>BondReorderGaps := BondReorderGaps r + 1, expect := tag p, rbuf := [], first := None\<rparr>"
    have "pushExpected p r1 = (r', out)" using far n assms(3) by (simp add: client_push_def r1_def)
    moreover have "buf_inv tag r1" "expect r1 = tag p" "buf_held r1 = {}" "buf_nx r1 = unat (tag p)"
      using n(3) far(2) by (auto simp: r1_def buf_inv_def buf_wf_def buf_nx_def buf_held_def)
    moreover have "\<not> unat (tag p) < buf_nx r + 256"
      using far(2, 4) n(3, 4) by (simp add: bondReorderWindow_def word_le_nat_alt)
    ultimately show ?thesis
      using pushExpected_ok [of tag r1 p r r' out] far(2) n(3) assms(2) by simp
  next
    case near
    have o: "out = []" "rbuf r' = rbuf r @ [(tag p, p)]" "expect r' = expect r"
      using near n assms(3) by (auto simp: client_push_def update_new)
    then have "buf_nx r' = buf_nx r" "buf_held r' = insert p (buf_held r)" by (simp_all add: buf_nx_def buf_held_def)
    moreover have "tag p \<notin> fst ` set (rbuf r)" using near(1) by (simp add: map_of_eq_None_iff)
    ultimately have "buf_inv tag r'"
      using assms(1, 2) n [OF near(2)] o(2, 3) unfolding buf_inv_def buf_wf_def by auto
    then show ?thesis
      using o(1) \<open>buf_nx r' = buf_nx r\<close> \<open>buf_held r' = insert p (buf_held r)\<close> by (simp add: buf_step_def)
  qed
  then show "buf_step tag r r' out \<and> set out \<union> buf_held r' \<subseteq> insert p (buf_held r)"
    "1 \<le> unat (tag p) \<Longrightarrow> buf_nx r \<le> unat (tag p) \<Longrightarrow> unat (tag p) < buf_nx r + 256 \<Longrightarrow> tag p \<notin> tag ` buf_held r \<Longrightarrow> ?exact"
    by auto
qed

lemma client_lowest_min:
  assumes "\<forall>e \<in> set xs. fst e \<noteq> (0 :: 64 word)"
  defines "f \<equiv> \<lambda>e l. if l = 0 \<or> fst e < l then fst e else l"
  shows "xs \<noteq> [] \<or> l0 \<noteq> 0 \<Longrightarrow> (fold f xs l0 = l0 \<and> l0 \<noteq> 0 \<or> fold f xs l0 \<in> fst ` set xs) \<and>
    (\<forall>e \<in> set xs. fold f xs l0 \<le> fst e) \<and> (l0 \<noteq> 0 \<longrightarrow> fold f xs l0 \<le> l0)"
  using assms(1)
proof (induction xs arbitrary: l0)
  case (Cons x xs)
  have "f x l0 \<noteq> 0" "f x l0 \<le> fst x" "l0 \<noteq> 0 \<longrightarrow> f x l0 \<le> l0" "f x l0 = l0 \<and> l0 \<noteq> 0 \<or> f x l0 = fst x"
    using Cons.prems by (auto simp: f_def)
  with Cons.IH [of "f x l0"] Cons.prems(2) show ?case by (auto intro: order_trans)
qed simp

lemma client_flush_ok:
  assumes "buf_inv tag r" "client_flushExpired now r = (r', out)"
  shows "buf_step tag r r' out \<and> set out \<union> buf_held r' \<subseteq> buf_held r"
proof (cases "rbuf r = [] \<or> (case first r of None \<Rightarrow> True | Some f \<Rightarrow> now - f < bondReorderHold)")
  case True
  then show ?thesis using assms by (auto simp: client_flushExpired_def buf_step_def)
next
  case False
  define l where "l = client_lowest r"
  have wf: "buf_wf tag r" using assms(1) by (simp add: buf_inv_def)
  have "\<forall>e \<in> set (rbuf r). fst e \<noteq> 0" using wf by (auto simp: buf_wf_def)
  from client_lowest_min [OF this, of 0] False
  have l: "l \<in> fst ` set (rbuf r)" "\<forall>e \<in> set (rbuf r). l \<le> fst e" by (auto simp: l_def client_lowest_def)
  then obtain p where p: "map_of (rbuf r) l = Some p" by (metis map_of_eq_None_iff not_None_eq)
  define ra where "ra = (if l > expect r then r\<lparr>BondReorderGaps := BondReorderGaps r + uint (l - expect r), expect := l\<rparr> else r)"
  obtain e where e: "e \<in> set (rbuf r)" "fst e = l" using l(1) by blast
  then have "buf_nx r \<le> unat l" "l \<noteq> expect r" "l \<noteq> - 1" using assms(1) by (auto simp: buf_inv_def buf_wf_def)
  then have gt: "l > expect r" by (simp add: buf_nx_def word_less_nat_alt order_le_less word_unat_eq_iff)
  then have ra: "rbuf ra = rbuf r" "expect ra = l" "buf_nx ra = unat l" by (simp_all add: ra_def buf_nx_def)
  have wfa: "buf_wf tag ra"
    using wf l(2) gt by (auto simp: buf_wf_def ra buf_nx_def word_le_nat_alt word_less_nat_alt)
  note h = remove_head_wf [OF wfa, unfolded ra(1, 2), OF p]
  obtain r2 o2 where d: "drainContiguous (ra\<lparr>rbuf := AList.delete l (rbuf r), expect := l + 1\<rparr>) = (r2, o2)" by fastforce
  have "client_flushExpired now r = (r2\<lparr>first := (if rbuf r2 = [] then None else Some now)\<rparr>, p # o2)"
    using False p d by (simp add: client_flushExpired_def ra(1) flip: l_def ra_def)
  then have "r' = r2\<lparr>first := (if rbuf r2 = [] then None else Some now)\<rparr>" "out = p # o2" using assms(2) by simp_all
  moreover have "buf_nx r \<le> unat (tag p)" using h(4) ra(3) \<open>buf_nx r \<le> unat l\<close> by simp
  moreover have "buf_held ra = buf_held r" by (simp add: buf_held_def ra(1))
  ultimately show ?thesis
    using deliver_head [of tag _ p r, OF h(1) _ _ d] h(2-4) by (simp add: buf_step_first buf_first_same)
qed

lemma new_buf_inv: "buf_inv tag newBondReorderBuffer" "buf_nx newBondReorderBuffer = 1" "buf_held newBondReorderBuffer = {}"
  by (simp_all add: newBondReorderBuffer_def buf_inv_def buf_wf_def buf_nx_def buf_held_def)

definition buf_push :: "64 word \<times> 'd \<Rightarrow> nanos \<Rightarrow> (64 word \<times> 'd) bondReorderBuffer \<Rightarrow> ((64 word \<times> 'd) bondReorderBuffer \<times> (64 word \<times> 'd) list) option" where
  "buf_push p now r = Some (client_push (fst p) p now r)"

interpretation cbuf: reorder_buffer newBondReorderBuffer buf_push client_flushExpired fst buf_nx buf_held "buf_inv fst"
proof unfold_locales
  fix s s' :: "(64 word \<times> 'd) bondReorderBuffer" and p now out
  show "buf_inv fst (newBondReorderBuffer :: (64 word \<times> 'd) bondReorderBuffer)"
    "buf_nx (newBondReorderBuffer :: (64 word \<times> 'd) bondReorderBuffer) = 1"
    "buf_held (newBondReorderBuffer :: (64 word \<times> 'd) bondReorderBuffer) = {}"
    by (rule new_buf_inv)+
  assume i: "buf_inv fst s"
  show "buf_nx s < unat (fst p)" if m: "p \<in> buf_held s"
  proof -
    obtain e where e: "e \<in> set (rbuf s)" "snd e = p" using m unfolding buf_held_def by blast
    then have "fst p = fst e" "buf_nx s \<le> unat (fst e)" "fst e \<noteq> expect s" using i by (auto simp: buf_inv_def buf_wf_def)
    then show ?thesis using next_above [of s "fst e"] by simp
  qed
  show "\<exists>s' out. buf_push p now s = Some (s', out)"
    by (simp add: buf_push_def)
  show "buf_inv fst s' \<and> sorted_wrt (<) (map (\<lambda>p. unat (fst p)) out) \<and> buf_nx s \<le> buf_nx s' \<and>
      (\<forall>q \<in> set out. buf_nx s \<le> unat (fst q) \<and> unat (fst q) < buf_nx s') \<and> set out \<union> buf_held s' \<subseteq> insert p (buf_held s)"
    if "fst p \<noteq> - 1" "buf_push p now s = Some (s', out)"
    using client_push_ok(1) [OF i that(1), of now s' out] that(2) by (simp add: buf_push_def buf_step_def)
  show "set out \<union> buf_held s' = insert p (buf_held s) \<and> map (\<lambda>p. unat (fst p)) out = [buf_nx s ..< buf_nx s']"
    if "fst p \<noteq> - 1" "buf_push p now s = Some (s', out)" "1 \<le> unat (fst p)" "buf_nx s \<le> unat (fst p)"
      "unat (fst p) < buf_nx s + 256" "fst p \<notin> fst ` buf_held s"
    using client_push_ok(2) [OF i that(1), of now s' out] that(2-) by (simp add: buf_push_def)
  show "buf_inv fst s' \<and> sorted_wrt (<) (map (\<lambda>p. unat (fst p)) out) \<and> buf_nx s \<le> buf_nx s' \<and>
      (\<forall>q \<in> set out. buf_nx s \<le> unat (fst q) \<and> unat (fst q) < buf_nx s') \<and> set out \<union> buf_held s' \<subseteq> buf_held s"
    if "client_flushExpired now s = (s', out)"
    using client_flush_ok [OF i that] by (simp add: buf_step_def)
qed

context reorder_buffer
begin

lemma run_lossless:
  assumes "distinct (map tag ps)" and "(\<lambda>p. unat (tag p)) ` set ps = {1..n}" and "n < 2 ^ 64 - 1"
    and "\<forall>i < length ps. \<forall>k. 1 \<le> k \<and> k + 256 \<le> unat (tag (ps ! i)) \<longrightarrow> k \<in> (\<lambda>p. unat (tag p)) ` set (take i ps)"
  shows "\<exists>s out. run_reorder psh fl (map (\<lambda>p. Push p now) ps) init = Some (s, out) \<and>
    map (\<lambda>p. unat (tag p)) out = [1 ..< n + 1] \<and> set out = set ps"
proof -
  have ok: "list_all (\<lambda>p. tag p \<noteq> - 1 \<and> tag p \<noteq> 0) ps"
  proof (unfold list_all_iff, intro ballI)
    fix p assume "p \<in> set ps"
    then have "unat (tag p) \<in> {1..n}" using assms(2) by blast
    then show "tag p \<noteq> - 1 \<and> tag p \<noteq> 0" using assms(3) by (auto simp: unsigned_minus_1_eq_mask mask_eq_exp_minus_1)
  qed
  have "(\<lambda>p. unat (tag p)) ` held init \<union> {1 ..< nx init} = {}" by (simp add: init)
  from run_window [OF init(1) assms(1) ok this, of now] assms(4)
  obtain s out where r: "run_reorder psh fl (map (\<lambda>p. Push p now) ps) init = Some (s, out)" "inv s" "nx init \<le> nx s"
    "map (\<lambda>p. unat (tag p)) out = [nx init ..< nx s]" "set out \<union> held s = set ps \<union> held init"
    "(\<lambda>p. unat (tag p)) ` held s \<union> {1 ..< nx s} = {1..n}"
    using assms(2) by (auto simp: init)
  have T: "nx s < t" if "t \<in> (\<lambda>p. unat (tag p)) ` held s" for t using above [OF r(2)] that by blast
  have "nx s \<notin> {1..n}" using T unfolding r(6) [symmetric] by auto
  moreover have "1 \<le> nx s" using r(3) by (simp add: init)
  ultimately have "n < nx s" by auto
  moreover have "t \<le> n" if "t \<in> (\<lambda>p. unat (tag p)) ` held s" for t using that r(6) by auto
  ultimately have "held s = {}" using T by fastforce
  moreover have "nx s = n + 1"
  proof (rule ccontr)
    assume "nx s \<noteq> n + 1"
    then have "n + 1 \<in> {1 ..< nx s}" using \<open>n < nx s\<close> by auto
    then have "n + 1 \<in> {1..n}" using r(6) by blast
    then show False by simp
  qed
  ultimately show ?thesis using r by (auto simp: init)
qed

end

section \<open>Properties\<close>

text \<open>Packets leave a bond in order: whatever packets arrive in whatever order, with flushes in
  between, neither reorder buffer loops forever, and the packets each one releases have
  strictly increasing sequence numbers (so none is released twice) and were all received.\<close>

lemma bond_reorder_in_order:
  assumes "no_wrap fst xs"
  shows "(\<exists>r out. run_reorder ring_push flushExpired xs (newPacketReorder bondReorderHold) = Some (r, out) \<and>
      sorted_wrt (<) (map (\<lambda>p. unat (fst p)) out) \<and> set out \<subseteq> pushed xs) \<and>
    (\<exists>r out. run_reorder buf_push client_flushExpired xs newBondReorderBuffer = Some (r, out) \<and>
      sorted_wrt (<) (map (\<lambda>p. unat (fst p)) out) \<and> set out \<subseteq> pushed xs)"
  using ring.run_ok [OF ring.init(1) assms] cbuf.run_ok [OF cbuf.init(1) assms] by (auto simp: ring.init cbuf.init)

lemma bond_reorder_in_order_witness:
  "\<exists>r out. run_reorder buf_push client_flushExpired [Push (2, ''b'') 0, Push (1, ''a'') 5, Flush 9, Push (1, ''a'') 10] newBondReorderBuffer = Some (r, out) \<and>
     sorted_wrt (<) (map (\<lambda>p. unat (fst p)) out)"
  using bond_reorder_in_order [of "[Push (2, ''b'') 0, Push (1, ''a'') 5, Flush 9, Push (1, ''a'') 10]"]
  by (auto simp: no_wrap_def)



end
