(* ===== verification/BondWorkers.thy ===== *)
theory BondWorkers
  imports BondClaims BondReorder "HOL-Library.Multiset"
begin

text \<open>
  One running bond: the fields of \<open>serverBond\<close> in internal/wgturn/bond.go that are guarded by
  \<open>b.mu\<close>, the rooms and workers that join and leave, the scheduler that spreads frames over them,
  the two reorder lanes and the queue towards WireGuard. A Go map is an association list; a worker
  has an identity, since \<open>removeWorker\<close> compares pointers. A nil map entry that is dereferenced, an
  index out of range and a division by zero are \<open>GoPanic\<close>.
\<close>

definition bondWorkerQueue :: nat where "bondWorkerQueue = 128"
definition bondWGQueue :: nat where "bondWGQueue = 512"

record bondRoomMetrics =
  upPackets :: "64 word"
  upBytes :: "64 word"
  downPackets :: "64 word"
  downBytes :: "64 word"
  drops :: "64 word"

record bondWorker =
  wid :: nat
  wroom :: int
  wworker :: int
  sendq :: "bytes list"

record bondRoom =
  workers :: "(int \<times> bondWorker) list"
  workerOrder :: "int list"
  rr :: "64 word"
  metrics :: bondRoomMetrics

record serverBond =
  rooms :: "(int \<times> bondRoom) list"
  roomOrder :: "int list"
  primaryRoom :: int
  rrRoom :: "64 word"
  nworkers :: int
  emptyGen :: "64 word"
  cleanupTimer :: "64 word option"
  bulkReorder :: "bytes packetReorder"
  latencyReorder :: "bytes packetReorder"
  wgWrite :: "bytes list"
  outBulkSequence :: "64 word"
  outLatencySequence :: "64 word"
  wgWriteDrop :: "64 word"
  scheduleDrop :: "64 word"
  badFrames :: "64 word"

definition newServerBond :: "int \<Rightarrow> serverBond" where
  "newServerBond room = \<lparr>rooms = [], roomOrder = [], primaryRoom = room, rrRoom = 0, nworkers = 0, emptyGen = 0,
     cleanupTimer = None, bulkReorder = newPacketReorder bondReorderHold, latencyReorder = newPacketReorder bondReorderHold,
     wgWrite = [], outBulkSequence = 0, outLatencySequence = 0, wgWriteDrop = 0, scheduleDrop = 0, badFrames = 0\<rparr>"

definition newBondRoom :: bondRoom where
  "newBondRoom = \<lparr>workers = [], workerOrder = [], rr = 0, metrics = \<lparr>upPackets = 0, upBytes = 0, downPackets = 0, downBytes = 0, drops = 0\<rparr>\<rparr>"

section \<open>Joining and leaving\<close>

text \<open>The timer is the generation its callback was created with.\<close>

definition armEmptyCleanupLocked :: "serverBond \<Rightarrow> serverBond" where
  "armEmptyCleanupLocked b =
    (if nworkers b \<noteq> 0 then b
     else b\<lparr>emptyGen := emptyGen b + 1, cleanupTimer := Some (emptyGen b + 1)\<rparr>)"

text \<open>The callback of the timer of generation \<open>gen\<close>; the second result is whether it goes on to
  remove the bond.\<close>

definition cleanupFired :: "64 word \<Rightarrow> serverBond \<Rightarrow> serverBond \<times> bool" where
  "cleanupFired gen b =
    (let stillEmpty = (nworkers b = 0 \<and> emptyGen b = gen) in
     (if stillEmpty then b\<lparr>cleanupTimer := None\<rparr> else b, stillEmpty))"

definition addWorker :: "nat \<Rightarrow> int \<Rightarrow> int \<Rightarrow> serverBond \<Rightarrow> serverBond" where
  "addWorker i roomID workerID b =
    (let worker = \<lparr>wid = i, wroom = roomID, wworker = workerID, sendq = []\<rparr>;
         b = b\<lparr>cleanupTimer := None\<rparr>;
         b = (case map_of (rooms b) roomID of
                Some _ \<Rightarrow> b
              | None \<Rightarrow> b\<lparr>rooms := AList.update roomID newBondRoom (rooms b), roomOrder := sort (roomOrder b @ [roomID])\<rparr>);
         room = (case map_of (rooms b) roomID of Some r \<Rightarrow> r | None \<Rightarrow> newBondRoom);
         (b, room) = (case map_of (workers room) workerID of
                Some _ \<Rightarrow> (b, room)
              | None \<Rightarrow> (b\<lparr>nworkers := nworkers b + 1\<rparr>, room\<lparr>workerOrder := sort (workerOrder room @ [workerID])\<rparr>));
         room = room\<lparr>workers := AList.update workerID worker (workers room)\<rparr>
     in b\<lparr>rooms := AList.update roomID room (rooms b), emptyGen := emptyGen b + 1\<rparr>)"

definition removeWorker :: "bondWorker \<Rightarrow> serverBond \<Rightarrow> serverBond" where
  "removeWorker w b =
    (case map_of (rooms b) (wroom w) of
       None \<Rightarrow> b
     | Some room \<Rightarrow>
        if map_option wid (map_of (workers room) (wworker w)) \<noteq> Some (wid w) then b
        else
          let room = room\<lparr>workers := AList.delete (wworker w) (workers room), workerOrder := remove1 (wworker w) (workerOrder room)\<rparr>;
              b = b\<lparr>rooms := AList.update (wroom w) room (rooms b), nworkers := nworkers b - 1\<rparr>
          in if nworkers b = 0 then armEmptyCleanupLocked b else b)"

section \<open>Frames from the workers towards WireGuard\<close>

text \<open>\<open>push\<close> gives \<open>None\<close> where its loop would not end.\<close>

definition acceptDataFrame :: "int \<Rightarrow> bondFrame \<Rightarrow> nanos \<Rightarrow> serverBond \<Rightarrow> (serverBond \<times> bytes list \<times> bool) option" where
  "acceptDataFrame roomID frame now b =
    (let (latency, valid) = bondLatencyLane (bFlags frame) in
     if \<not> valid \<or> bSeq frame = 0 \<or> bPayload frame = [] then Some (b, [], False)
     else
       let b = (case map_of (rooms b) roomID of
              None \<Rightarrow> b
            | Some r \<Rightarrow> b\<lparr>rooms := AList.update roomID (r\<lparr>metrics := (metrics r)\<lparr>upPackets := upPackets (metrics r) + 1,
                upBytes := upBytes (metrics r) + of_nat (length (bPayload frame))\<rparr>\<rparr>) (rooms b)\<rparr>)
       in if latency
          then map_option (\<lambda>(q, ready). (b\<lparr>latencyReorder := q\<rparr>, ready, True)) (push (bSeq frame) (bPayload frame) now (latencyReorder b))
          else map_option (\<lambda>(q, ready). (b\<lparr>bulkReorder := q\<rparr>, ready, True)) (push (bSeq frame) (bPayload frame) now (bulkReorder b)))"

text \<open>\<open>ctxDone i\<close>: the bond's context is done when packet \<open>i\<close> is offered; \<open>pick i\<close>: Go's \<open>select\<close>
  takes that case although the queue has room.\<close>

primrec enqueueWG :: "(nat \<Rightarrow> bool) \<Rightarrow> (nat \<Rightarrow> bool) \<Rightarrow> nat \<Rightarrow> bytes list \<Rightarrow> serverBond \<Rightarrow> serverBond" where
  "enqueueWG ctxDone pick i [] b = b"
| "enqueueWG ctxDone pick i (p # ps) b =
    (if length (wgWrite b) < bondWGQueue \<and> \<not> (ctxDone i \<and> pick i)
     then enqueueWG ctxDone pick (i + 1) ps (b\<lparr>wgWrite := wgWrite b @ [p]\<rparr>)
     else if ctxDone i then b
     else enqueueWG ctxDone pick (i + 1) ps (b\<lparr>wgWriteDrop := wgWriteDrop b + 1\<rparr>))"

text \<open>One turn of the read loop of \<open>runWorker\<close>; the second result is whether it goes on reading.\<close>

definition workerFrame :: "(nat \<Rightarrow> bool) \<Rightarrow> (nat \<Rightarrow> bool) \<Rightarrow> int \<Rightarrow> bytes \<Rightarrow> nanos \<Rightarrow> serverBond \<Rightarrow> (serverBond \<times> bool) option" where
  "workerFrame ctxDone pick roomID packet now b =
    (case decodeBondFrame packet of
       GoOk frame \<Rightarrow>
         if bType frame = bondFrameKeepalive then Some (b, True)
         else if bType frame = bondFrameData then
           (case acceptDataFrame roomID frame now b of
              None \<Rightarrow> None
            | Some (b, ready, valid) \<Rightarrow>
                if \<not> valid then Some (b\<lparr>badFrames := badFrames b + 1\<rparr>, True)
                else Some (enqueueWG ctxDone pick 0 ready b, True))
         else Some (b\<lparr>badFrames := badFrames b + 1\<rparr>, False)
     | _ \<Rightarrow> Some (b\<lparr>badFrames := badFrames b + 1\<rparr>, False))"

text \<open>The tick of \<open>runWGWriter\<close>.\<close>

definition writerTick :: "(nat \<Rightarrow> bool) \<Rightarrow> (nat \<Rightarrow> bool) \<Rightarrow> nanos \<Rightarrow> serverBond \<Rightarrow> serverBond" where
  "writerTick ctxDone pick now b =
    (let (bq, ready1) = flushExpired now (bulkReorder b); (lq, ready2) = flushExpired now (latencyReorder b) in
     enqueueWG ctxDone pick 0 (ready1 @ ready2) (b\<lparr>bulkReorder := bq, latencyReorder := lq\<rparr>))"

section \<open>Packets from WireGuard towards the workers\<close>

definition nextOutboundFrameMeta :: "nat \<Rightarrow> serverBond \<Rightarrow> serverBond \<times> 16 word \<times> 64 word" where
  "nextOutboundFrameMeta payloadLen b =
    (if payloadLen \<le> bondSmallPacketMax
     then (b\<lparr>outLatencySequence := outLatencySequence b + 1\<rparr>, bondFlagLatency, outLatencySequence b + 1)
     else (b\<lparr>outBulkSequence := outBulkSequence b + 1\<rparr>, 0, outBulkSequence b + 1))"

definition room_at :: "serverBond \<Rightarrow> int \<Rightarrow> (string, bondRoom) gores" where
  "room_at b roomID = (case map_of (rooms b) roomID of None \<Rightarrow> GoPanic | Some r \<Rightarrow> GoOk r)"

primrec countActive :: "serverBond \<Rightarrow> int list \<Rightarrow> nat \<Rightarrow> (string, nat) gores" where
  "countActive b [] n = GoOk n"
| "countActive b (x # xs) n = go_bind (room_at b x) (\<lambda>r. countActive b xs (if length (workers r) > 0 then n + 1 else n))"

text \<open>The ordinal of the first active room at or above the primary one, 0 when there is none.\<close>

primrec primaryOrdinal :: "serverBond \<Rightarrow> int list \<Rightarrow> nat \<Rightarrow> (string, nat) gores" where
  "primaryOrdinal b [] n = GoOk 0"
| "primaryOrdinal b (x # xs) n = go_bind (room_at b x) (\<lambda>r.
     if length (workers r) = 0 then primaryOrdinal b xs n
     else if x \<ge> primaryRoom b then GoOk n
     else primaryOrdinal b xs (n + 1))"

primrec activeScan :: "serverBond \<Rightarrow> nat \<Rightarrow> int list \<Rightarrow> nat \<Rightarrow> (string, int option) gores" where
  "activeScan b want [] n = GoOk None"
| "activeScan b want (x # xs) n = go_bind (room_at b x) (\<lambda>r.
     if length (workers r) = 0 then activeScan b want xs n
     else if n = want then GoOk (Some x)
     else activeScan b want xs (n + 1))"

definition activeRoomAt :: "serverBond \<Rightarrow> nat \<Rightarrow> (string, int) gores" where
  "activeRoomAt b want = go_bind (activeScan b want (roomOrder b) 0) (\<lambda>f.
     case f of Some x \<Rightarrow> GoOk x | None \<Rightarrow> idx (roomOrder b) 0)"

text \<open>The loop over the workers of one room; the result tells whether a queue took the frame.\<close>

primrec tryWorkers :: "bytes \<Rightarrow> nat \<Rightarrow> nat \<Rightarrow> nat list \<Rightarrow> bondRoom \<Rightarrow> (string, bondRoom \<times> bool) gores" where
  "tryWorkers frame payloadLen workerStart [] r = GoOk (r, False)"
| "tryWorkers frame payloadLen workerStart (workerOffset # offs) r =
    (let workerIndex = (workerStart + workerOffset) mod length (workerOrder r) in
     go_bind (idx (workerOrder r) workerIndex) (\<lambda>workerID.
     case map_of (workers r) workerID of
       None \<Rightarrow> GoPanic
     | Some w \<Rightarrow>
        if length (sendq w) < bondWorkerQueue then
          GoOk (r\<lparr>workers := AList.update workerID (w\<lparr>sendq := sendq w @ [frame]\<rparr>) (workers r), rr := of_nat (workerIndex + 1),
            metrics := (metrics r)\<lparr>downPackets := downPackets (metrics r) + 1, downBytes := downBytes (metrics r) + of_nat payloadLen\<rparr>\<rparr>, True)
        else tryWorkers frame payloadLen workerStart offs (r\<lparr>metrics := (metrics r)\<lparr>drops := drops (metrics r) + 1\<rparr>\<rparr>)))"

primrec tryRooms :: "bytes \<Rightarrow> nat \<Rightarrow> nat \<Rightarrow> nat \<Rightarrow> nat list \<Rightarrow> serverBond \<Rightarrow> (string, serverBond \<times> bool) gores" where
  "tryRooms frame payloadLen activeRooms start [] b = GoOk (b\<lparr>scheduleDrop := scheduleDrop b + 1\<rparr>, False)"
| "tryRooms frame payloadLen activeRooms start (roomOffset # offs) b =
    (let roomIndex = (start + roomOffset) mod activeRooms in
     go_bind (activeRoomAt b roomIndex) (\<lambda>roomID.
     go_bind (room_at b roomID) (\<lambda>room.
     if length (workerOrder room) = 0 then GoPanic
     else go_bind (tryWorkers frame payloadLen (unat (rr room) mod length (workerOrder room)) [0..<length (workerOrder room)] room)
       (\<lambda>(room, sent).
        let b = b\<lparr>rooms := AList.update roomID room (rooms b)\<rparr> in
        if sent then GoOk (if payloadLen > bondSmallPacketMax then b\<lparr>rrRoom := of_nat (roomIndex + 1)\<rparr> else b, True)
        else tryRooms frame payloadLen activeRooms start offs b))))"

definition schedule :: "bytes \<Rightarrow> nat \<Rightarrow> serverBond \<Rightarrow> (string, serverBond \<times> bool) gores" where
  "schedule frame payloadLen b =
    go_bind (countActive b (roomOrder b) 0) (\<lambda>activeRooms.
    if activeRooms = 0 then GoOk (b\<lparr>scheduleDrop := scheduleDrop b + 1\<rparr>, False)
    else go_bind (if payloadLen \<le> bondSmallPacketMax then primaryOrdinal b (roomOrder b) 0
                  else GoOk (unat (rrRoom b) mod activeRooms)) (\<lambda>start.
      tryRooms frame payloadLen activeRooms start [0..<activeRooms] b))"

text \<open>One turn of \<open>runWGReader\<close> for a packet read from WireGuard.\<close>

definition readerPacket :: "bytes \<Rightarrow> serverBond \<Rightarrow> (string, serverBond) gores" where
  "readerPacket p b =
    (let (b, flags, sequence) = nextOutboundFrameMeta (length p) b in
     case encodeBondFrame bondFrameData flags sequence p of
       GoPanic \<Rightarrow> GoPanic
     | GoErr _ \<Rightarrow> GoOk b
     | GoOk frame \<Rightarrow> go_bind (schedule frame (length p) b) (\<lambda>(b, _). GoOk b))"

text \<open>The writing half of \<open>runWorker\<close> takes one frame from the worker's queue.\<close>

definition takeFrame :: "bondWorker \<Rightarrow> serverBond \<Rightarrow> serverBond" where
  "takeFrame w b =
    (case map_of (rooms b) (wroom w) of
       None \<Rightarrow> b
     | Some room \<Rightarrow> (case map_of (workers room) (wworker w) of
         None \<Rightarrow> b
       | Some x \<Rightarrow> if wid x \<noteq> wid w then b
           else b\<lparr>rooms := AList.update (wroom w) (room\<lparr>workers := AList.update (wworker w) (x\<lparr>sendq := tl (sendq x)\<rparr>) (workers room)\<rparr>) (rooms b)\<rparr>))"

section \<open>Runs of a bond\<close>

text \<open>\<open>Fresh\<close>: committed, the claimant has not armed the cleanup yet; \<open>Gone\<close>: a cleanup went on to
  remove the bond, whose workers are then cancelled and leave one by one.\<close>

datatype phase = Fresh | Live | Gone

inductive bond_run :: "serverBond \<times> phase \<Rightarrow> serverBond \<times> phase \<Rightarrow> bool" where
  arm: "bond_run (b, p) (armEmptyCleanupLocked b, if p = Fresh then Live else p)"
| join: "bond_run (b, p) (addWorker i r w b, p)"
| leave: "bond_run (b, p) (removeWorker w b, p)"
| fire: "cleanupFired g b = (b', gone) \<Longrightarrow> bond_run (b, p) (b', if gone then Gone else p)"
| receive: "workerFrame cd pk r packet now b = Some (b', goOn) \<Longrightarrow> bond_run (b, p) (b', p)"
| tick: "bond_run (b, p) (writerTick cd pk now b, p)"
| read: "readerPacket q b = GoOk b' \<Longrightarrow> bond_run (b, p) (b', p)"
| take: "bond_run (b, p) (takeFrame w b, p)"
| wrote: "bond_run (b, p) (b\<lparr>wgWrite := tl (wgWrite b)\<rparr>, p)"

inductive bond_runs :: "serverBond \<times> phase \<Rightarrow> bool" where
  start: "bond_runs (newServerBond room, Fresh)"
| step: "bond_runs s \<Longrightarrow> bond_run s s' \<Longrightarrow> bond_runs s'"

definition room_ok :: "int \<Rightarrow> bondRoom \<Rightarrow> bool" where
  "room_ok i r = (distinct (map fst (workers r)) \<and> workerOrder r = sort (map fst (workers r)) \<and>
     (\<forall>(k, w) \<in> set (workers r). wroom w = i \<and> wworker w = k \<and> length (sendq w) \<le> bondWorkerQueue))"

definition rooms_ok :: "(int \<times> bondRoom) list \<Rightarrow> int list \<Rightarrow> int \<Rightarrow> bool" where
  "rooms_ok rs order n = (distinct (map fst rs) \<and> order = sort (map fst rs) \<and> (\<forall>(i, r) \<in> set rs. room_ok i r) \<and>
     n = (\<Sum>(i, r)\<leftarrow>rs. int (length (workers r))))"

definition bond_ok :: "serverBond \<Rightarrow> bool" where
  "bond_ok b = (rooms_ok (rooms b) (roomOrder b) (nworkers b) \<and> length (wgWrite b) \<le> bondWGQueue \<and>
     (\<forall>g. cleanupTimer b = Some g \<longrightarrow> nworkers b = 0 \<and> g = emptyGen b))"

text \<open>The queue of a worker, by number in its room and in the bond; the rooms with workers.\<close>

definition room_queue :: "bondRoom \<Rightarrow> int \<Rightarrow> bytes list option" where
  "room_queue r k = map_option sendq (map_of (workers r) k)"

definition offered :: "bytes \<Rightarrow> ('k \<Rightarrow> bytes list option) \<Rightarrow> ('k \<Rightarrow> bytes list option) \<Rightarrow> bool \<Rightarrow> bool" where
  "offered frame Q Q' s =
    (if s then \<exists>k q. Q k = Some q \<and> length q < bondWorkerQueue \<and> Q' = Q(k \<mapsto> q @ [frame]) else Q' = Q)"

definition queue_of :: "serverBond \<Rightarrow> int \<times> int \<Rightarrow> bytes list option" where
  "queue_of b = (\<lambda>(i, k). case map_of (rooms b) i of None \<Rightarrow> None | Some r \<Rightarrow> room_queue r k)"

definition same_run :: "serverBond \<Rightarrow> serverBond \<Rightarrow> bool" where
  "same_run b b' = (roomOrder b' = roomOrder b \<and> nworkers b' = nworkers b \<and> emptyGen b' = emptyGen b \<and> cleanupTimer b' = cleanupTimer b \<and>
     wgWrite b' = wgWrite b \<and> outBulkSequence b' = outBulkSequence b \<and> outLatencySequence b' = outLatencySequence b)"

definition active_in :: "serverBond \<Rightarrow> int list \<Rightarrow> int list" where
  "active_in b xs = filter (\<lambda>x. case map_of (rooms b) x of None \<Rightarrow> False | Some r \<Rightarrow> workers r \<noteq> []) xs"

fun run_inv :: "serverBond \<times> phase \<Rightarrow> bool" where
  "run_inv (b, p) = (bond_ok b \<and> (p = Live \<and> nworkers b = 0 \<longrightarrow> cleanupTimer b = Some (emptyGen b)))"

section \<open>Bookkeeping\<close>

lemma sum_update_some:
  fixes f :: "'b \<Rightarrow> int"
  assumes "distinct (map fst xs)" "map_of xs k = Some v"
  shows "(\<Sum>(i, r)\<leftarrow>AList.update k v' xs. f r) = (\<Sum>(i, r)\<leftarrow>xs. f r) - f v + f v'"
  using assms
proof (induction xs)
  case (Cons x xs)
  then show ?case by (cases x) auto
qed simp

lemma sum_update_none:
  fixes f :: "'b \<Rightarrow> int"
  shows "map_of xs k = None \<Longrightarrow> (\<Sum>(i, r)\<leftarrow>AList.update k v' xs. f r) = (\<Sum>(i, r)\<leftarrow>xs. f r) + f v'"
  by (induction xs) (auto split: if_splits)

lemma keys_update_some: "map_of xs k = Some v \<Longrightarrow> map fst (AList.update k v' xs) = map fst xs"
  by (induction xs) (auto split: if_splits)

lemma update_absent: "map_of xs k = None \<Longrightarrow> AList.update k v xs = xs @ [(k, v)]"
  by (induction xs) (auto split: if_splits)

lemma set_update_sub: "set (AList.update k v xs) \<subseteq> insert (k, v) (set xs)"
  by (induction xs) auto

lemma sort_snoc: "sort (sort xs @ [x :: int]) = sort (xs @ [x])"
  by (rule properties_for_sort) auto

lemma sort_remove1: "distinct xs \<Longrightarrow> sort (remove1 x xs) = remove1 (x :: int) (sort xs)"
  by (rule properties_for_sort) (simp_all add: sorted_remove1)

lemma keys_delete_remove1: "distinct (map fst xs) \<Longrightarrow> map fst (AList.delete k xs) = remove1 k (map fst xs)"
  by (induction xs) (auto simp: remove1_idem delete_id)

lemma sum_nonneg_lengths: "0 \<le> (\<Sum>(i, r)\<leftarrow>rs. int (length (workers r)))"
  by (induction rs) auto

lemma rooms_okD:
  assumes "rooms_ok rs order n" "map_of rs i = Some r"
  shows "room_ok i r" "i \<in> set order"
  using assms map_of_SomeD [OF assms(2)] by (force simp: rooms_ok_def)+

lemma rooms_ok_update:
  assumes "rooms_ok rs order n" "map_of rs i = Some r" "room_ok i r'"
  shows "rooms_ok (AList.update i r' rs) order (n - int (length (workers r)) + int (length (workers r')))"
proof -
  have "\<forall>(j, x) \<in> set (AList.update i r' rs). room_ok j x"
    using set_update_sub [of i r' rs] assms(1, 3) by (fastforce simp: rooms_ok_def)
  then show ?thesis
    using assms(1) sum_update_some [of rs i r "\<lambda>r. int (length (workers r))" r'] assms(2) keys_update_some [OF assms(2), of r']
    by (simp add: rooms_ok_def)
qed

lemma rooms_ok_new:
  assumes "rooms_ok rs order n" "map_of rs i = None" "room_ok i r"
  shows "rooms_ok (AList.update i r rs) (sort (order @ [i])) (n + int (length (workers r)))"
  using assms by (auto simp: rooms_ok_def update_absent sort_snoc map_of_eq_None_iff)

lemma new_room_ok: "room_ok i newBondRoom"
  by (simp add: room_ok_def newBondRoom_def)

lemma room_ok_metrics [simp]: "room_ok i (r\<lparr>metrics := m\<rparr>) = room_ok i r" "room_ok i (r\<lparr>rr := x\<rparr>) = room_ok i r"
  by (simp_all add: room_ok_def)

lemma room_ok_worker:
  assumes "room_ok i r" "map_of (workers r) k = Some w" "length (sendq w') \<le> bondWorkerQueue" "wroom w' = i" "wworker w' = k"
  shows "room_ok i (r\<lparr>workers := AList.update k w' (workers r)\<rparr>)"
proof -
  have "\<forall>(j, x) \<in> set (AList.update k w' (workers r)). wroom x = i \<and> wworker x = j \<and> length (sendq x) \<le> bondWorkerQueue"
    using set_update_sub [of k w' "workers r"] assms(1, 3-5) by (fastforce simp: room_ok_def)
  then show ?thesis using assms(1) keys_update_some [OF assms(2)] by (simp add: room_ok_def)
qed

lemma length_update_some: "map_of xs k = Some v \<Longrightarrow> length (AList.update k v' xs) = length xs"
  by (induction xs) (auto split: if_splits)

lemma room_ok_join:
  assumes "room_ok i r" "map_of (workers r) k = None" "length (sendq w') \<le> bondWorkerQueue" "wroom w' = i" "wworker w' = k"
  shows "room_ok i (r\<lparr>workers := AList.update k w' (workers r), workerOrder := sort (workerOrder r @ [k])\<rparr>)"
  using assms by (auto simp: room_ok_def update_absent sort_snoc map_of_eq_None_iff)

lemma room_ok_leave:
  assumes "room_ok i r"
  shows "room_ok i (r\<lparr>workers := AList.delete k (workers r), workerOrder := remove1 k (workerOrder r)\<rparr>)"
  using assms by (auto simp: room_ok_def keys_delete_remove1 sort_remove1 set_delete_alist distinct_remove1)

lemma length_leave: "distinct (map fst xs) \<Longrightarrow> map_of xs k = Some v \<Longrightarrow> int (length (AList.delete k xs)) = int (length xs) - 1"
proof -
  assume a: "distinct (map fst xs)" "map_of xs k = Some v"
  have k: "k \<in> set (map fst xs)" using map_of_SomeD [OF a(2)] by force
  have "length (map fst (AList.delete k xs)) = length (map fst xs) - 1" unfolding keys_delete_remove1 [OF a(1)] using k by (simp add: length_remove1)
  moreover have "length xs > 0" using k by (cases xs) auto
  ultimately show ?thesis by (simp add: of_nat_diff Suc_leI)
qed

lemma sum_list_pos_member: "workers r \<noteq> [] \<Longrightarrow> (i, r) \<in> set rs \<Longrightarrow> 0 < (\<Sum>(i, r)\<leftarrow>rs. int (length (workers r)))"
proof (induction rs)
  case (Cons x rs)
  then show ?case using sum_nonneg_lengths [of rs] by (cases x) (auto simp: add_pos_nonneg add_nonneg_pos)
qed simp

lemma bond_okD:
  assumes "bond_ok b"
  shows "rooms_ok (rooms b) (roomOrder b) (nworkers b)" "length (wgWrite b) \<le> bondWGQueue"
    "cleanupTimer b = Some g \<Longrightarrow> nworkers b = 0 \<and> g = emptyGen b"
  using assms by (auto simp: bond_ok_def)

lemma ok_arm: "bond_ok b \<Longrightarrow> bond_ok (armEmptyCleanupLocked b)"
  by (auto simp: bond_ok_def armEmptyCleanupLocked_def)

lemma ok_fire: "bond_ok b \<Longrightarrow> bond_ok (fst (cleanupFired g b))"
  by (auto simp: bond_ok_def cleanupFired_def Let_def)

lemma ok_enqueue: "bond_ok b \<Longrightarrow> bond_ok (enqueueWG cd pk i ps b)"
  by (induction ps arbitrary: i b) (auto simp: bond_ok_def)

lemma ok_room_update:
  assumes "bond_ok b" "map_of (rooms b) i = Some r" "room_ok i r'" "length (workers r') = length (workers r)"
  shows "bond_ok (b\<lparr>rooms := AList.update i r' (rooms b)\<rparr>)"
  using rooms_ok_update [OF bond_okD(1) [OF assms(1)] assms(2, 3)] assms(1, 4) by (simp add: bond_ok_def)

lemma add_room_ok:
  assumes "rooms_ok rs order n"
  shows "rooms_ok (case map_of rs i of Some _ \<Rightarrow> rs | None \<Rightarrow> AList.update i newBondRoom rs)
      (case map_of rs i of Some _ \<Rightarrow> order | None \<Rightarrow> sort (order @ [i])) n"
    "\<exists>r. map_of (case map_of rs i of Some _ \<Rightarrow> rs | None \<Rightarrow> AList.update i newBondRoom rs) i = Some r"
  using assms(1) rooms_ok_new [OF assms(1) _ new_room_ok, of i]
  by (auto simp: newBondRoom_def update_conv' split: option.split)

lemma ok_add: 
  assumes "bond_ok b"
  shows "bond_ok (addWorker i roomID workerID b) \<and> nworkers (addWorker i roomID workerID b) > 0"
proof -
  define rs where "rs = (case map_of (rooms b) roomID of Some _ \<Rightarrow> rooms b | None \<Rightarrow> AList.update roomID newBondRoom (rooms b))"
  define ord where "ord = (case map_of (rooms b) roomID of Some _ \<Rightarrow> roomOrder b | None \<Rightarrow> sort (roomOrder b @ [roomID]))"
  let ?w = "\<lparr>wid = i, wroom = roomID, wworker = workerID, sendq = []\<rparr>"
  have rs: "rooms_ok rs ord (nworkers b)" "\<exists>r. map_of rs roomID = Some r"
    using add_room_ok [OF bond_okD(1) [OF assms]] unfolding rs_def ord_def by blast+
  then obtain r where r: "map_of rs roomID = Some r" by blast
  define r' where "r' = (case map_of (workers r) workerID of Some _ \<Rightarrow> r\<lparr>workers := AList.update workerID ?w (workers r)\<rparr>
    | None \<Rightarrow> r\<lparr>workers := AList.update workerID ?w (workers r), workerOrder := sort (workerOrder r @ [workerID])\<rparr>)"
  define n' where "n' = (case map_of (workers r) workerID of Some _ \<Rightarrow> nworkers b | None \<Rightarrow> nworkers b + 1)"
  have ok: "room_ok roomID r'"
    using room_ok_worker [OF rooms_okD(1) [OF rs(1) r], of workerID _ ?w] room_ok_join [OF rooms_okD(1) [OF rs(1) r], of workerID ?w]
    by (auto simp: r'_def split: option.split)
  have n: "n' = nworkers b - int (length (workers r)) + int (length (workers r'))"
    by (auto simp: n'_def r'_def length_update_some update_absent split: option.split)
  have eq: "addWorker i roomID workerID b =
      b\<lparr>cleanupTimer := None, rooms := AList.update roomID r' rs, roomOrder := ord, nworkers := n', emptyGen := emptyGen b + 1\<rparr>"
  proof -
    have "addWorker i roomID workerID b = b\<lparr>cleanupTimer := None, rooms := AList.update roomID (r\<lparr>workerOrder := workerOrder r', workers := workers r'\<rparr>) rs,
        roomOrder := ord, nworkers := n', emptyGen := emptyGen b + 1\<rparr>"
      using r by (cases "map_of (rooms b) roomID"; cases "map_of (workers r) workerID")
        (simp_all add: addWorker_def Let_def rs_def ord_def r'_def n'_def update_conv')
    moreover have "r\<lparr>workerOrder := workerOrder r', workers := workers r'\<rparr> = r'" by (simp add: r'_def split: option.split)
    ultimately show ?thesis by simp
  qed
  have "rooms_ok (AList.update roomID r' rs) ord n'" unfolding n by (rule rooms_ok_update [OF rs(1) r ok])
  moreover have "n' > 0"
  proof -
    have "workers r' \<noteq> []" by (auto simp: r'_def update_nonempty split: option.split)
    moreover have "map_of (AList.update roomID r' rs) roomID = Some r'" by (simp add: update_conv')
    then have "(roomID, r') \<in> set (AList.update roomID r' rs)" by (rule map_of_SomeD)
    moreover have "n' = (\<Sum>(i, r)\<leftarrow>AList.update roomID r' rs. int (length (workers r)))"
      using \<open>rooms_ok (AList.update roomID r' rs) ord n'\<close> by (simp add: rooms_ok_def)
    ultimately show ?thesis by (simp add: sum_list_pos_member)
  qed
  ultimately show ?thesis using assms unfolding eq by (simp add: bond_ok_def)
qed

lemma ok_remove:
  assumes "bond_ok b"
  shows "bond_ok (removeWorker w b)"
proof (cases "map_of (rooms b) (wroom w)")
  case None
  then show ?thesis using assms by (simp add: removeWorker_def)
next
  case (Some r)
  let ?r = "r\<lparr>workers := AList.delete (wworker w) (workers r), workerOrder := remove1 (wworker w) (workerOrder r)\<rparr>"
  let ?b = "b\<lparr>rooms := AList.update (wroom w) ?r (rooms b), nworkers := nworkers b - 1\<rparr>"
  show ?thesis
  proof (cases "map_option wid (map_of (workers r) (wworker w)) = Some (wid w)")
    case True
    then obtain x where x: "map_of (workers r) (wworker w) = Some x" by auto
    have r: "room_ok (wroom w) r" by (rule rooms_okD(1) [OF bond_okD(1) [OF assms] Some])
    then have l: "int (length (workers ?r)) = int (length (workers r)) - 1" using length_leave [OF _ x] by (simp add: room_ok_def)
    have "rooms_ok (rooms ?b) (roomOrder b) (nworkers b - int (length (workers r)) + int (length (workers ?r)))"
      using rooms_ok_update [OF bond_okD(1) [OF assms] Some room_ok_leave [OF r]] by simp
    then have "rooms_ok (rooms ?b) (roomOrder b) (nworkers b - 1)" unfolding l by simp
    moreover have "nworkers b > 0"
    proof -
      have "workers r \<noteq> []" using x by auto
      moreover have "nworkers b = (\<Sum>(i, r)\<leftarrow>rooms b. int (length (workers r)))" using bond_okD(1) [OF assms] by (simp add: rooms_ok_def)
      ultimately show ?thesis using map_of_SomeD [OF Some] by (simp add: sum_list_pos_member)
    qed
    ultimately have "bond_ok ?b" using assms by (auto simp: bond_ok_def)
    moreover have "removeWorker w b = (if nworkers ?b = 0 then armEmptyCleanupLocked ?b else ?b)"
      using True Some by (simp only: removeWorker_def Let_def option.case simp_thms if_False)
    ultimately show ?thesis using ok_arm [of ?b] by presburger
  qed (use Some assms in \<open>simp add: removeWorker_def\<close>)
qed

section \<open>The scheduler\<close>

lemma countActive_spec:
  "(\<forall>x \<in> set xs. map_of (rooms b) x \<noteq> None) \<Longrightarrow> countActive b xs n = GoOk (n + length (active_in b xs))"
  by (induction xs arbitrary: n) (auto simp: room_at_def active_in_def)

lemma primaryOrdinal_spec:
  "(\<forall>x \<in> set xs. map_of (rooms b) x \<noteq> None) \<Longrightarrow> \<exists>m. primaryOrdinal b xs n = GoOk m"
  by (induction xs arbitrary: n) (auto simp: room_at_def)

lemma activeScan_spec:
  "(\<forall>x \<in> set xs. map_of (rooms b) x \<noteq> None) \<Longrightarrow> n \<le> want \<Longrightarrow>
   activeScan b want xs n = GoOk (if want < n + length (active_in b xs) then Some (active_in b xs ! (want - n)) else None)"
proof (induction xs arbitrary: n)
  case (Cons x xs)
  then obtain r where r: "map_of (rooms b) x = Some r" by auto
  show ?case
  proof (cases "workers r = []")
    case True
    then show ?thesis using Cons r by (simp add: room_at_def active_in_def)
  next
    case False
    then have a: "active_in b (x # xs) = x # active_in b xs" using r by (simp add: active_in_def)
    show ?thesis
    proof (cases "n = want")
      case True
      then show ?thesis using False r a by (simp add: room_at_def)
    next
      case neq: False
      then have "want - n = Suc (want - Suc n)" using Cons.prems(2) by simp
      then show ?thesis using False r a neq Cons.IH [of "Suc n"] Cons.prems by (simp add: room_at_def)
    qed
  qed
qed (simp add: active_in_def)

lemma rooms_present: "bond_ok b \<Longrightarrow> \<forall>x \<in> set (roomOrder b). map_of (rooms b) x \<noteq> None"
  by (auto simp: bond_ok_def rooms_ok_def map_of_eq_None_iff)

lemma activeRoomAt_spec:
  "bond_ok b \<Longrightarrow> i < length (active_in b (roomOrder b)) \<Longrightarrow> activeRoomAt b i = GoOk (active_in b (roomOrder b) ! i)"
  using activeScan_spec [OF rooms_present, of b 0 i] by (simp add: activeRoomAt_def)

lemma active_inD: "i \<in> set (active_in b xs) \<Longrightarrow> \<exists>r. map_of (rooms b) i = Some r \<and> workers r \<noteq> []"
  by (auto simp: active_in_def split: option.splits)

lemma room_ok_index:
  assumes "room_ok i r" "j < length (workerOrder r)"
  shows "\<exists>w. map_of (workers r) (workerOrder r ! j) = Some w"
proof -
  have "workerOrder r ! j \<in> set (map fst (workers r))" using assms nth_mem [OF assms(2)] by (simp add: room_ok_def)
  then show ?thesis by (simp add: map_of_eq_None_iff flip: not_None_eq)
qed

lemma tryWorkers_spec:
  assumes "room_ok i r" "workerOrder r \<noteq> []"
  shows "\<exists>r' s. tryWorkers frame l st offs r = GoOk (r', s) \<and> room_ok i r' \<and> length (workers r') = length (workers r) \<and>
    offered frame (room_queue r) (room_queue r') s \<and>
    (s \<or> (\<forall>off \<in> set offs. \<forall>q. room_queue r (workerOrder r ! ((st + off) mod length (workerOrder r))) = Some q \<longrightarrow> \<not> length q < bondWorkerQueue))"
  using assms
proof (induction offs arbitrary: r)
  case (Cons off offs)
  let ?j = "(st + off) mod length (workerOrder r)"
  let ?k = "workerOrder r ! ?j"
  have j: "?j < length (workerOrder r)" using Cons.prems(2) by simp
  then obtain w where w: "map_of (workers r) ?k = Some w" using room_ok_index [OF Cons.prems(1)] by blast
  have x: "(idx (workerOrder r) ?j :: (string, int) gores) = GoOk ?k" using j by (simp add: idx_def)
  have wf: "wroom w = i" "wworker w = ?k" using Cons.prems(1) map_of_SomeD [OF w] by (auto simp: room_ok_def)
  have q: "room_queue r ?k = Some (sendq w)" using w by (simp add: room_queue_def)
  show ?case
  proof (cases "length (sendq w) < bondWorkerQueue")
    case True
    let ?w = "w\<lparr>sendq := sendq w @ [frame]\<rparr>"
    obtain a m where e: "tryWorkers frame l st (off # offs) r = GoOk (r\<lparr>workers := AList.update ?k ?w (workers r), rr := a, metrics := m\<rparr>, True)"
      (is "_ = GoOk (?r, True)") using True x w by (auto simp: Let_def)
    have "room_ok i ?r" using room_ok_worker [OF Cons.prems(1) w, of ?w] True wf by simp
    moreover have "offered frame (room_queue r) (room_queue ?r) True"
      using q True by (force simp: offered_def room_queue_def update_conv')
    ultimately show ?thesis using e length_update_some [OF w, of ?w] by fastforce
  next
    case False
    let ?r = "r\<lparr>metrics := (metrics r)\<lparr>drops := drops (metrics r) + 1\<rparr>\<rparr>"
    have q': "room_queue ?r = room_queue r" by (auto simp: room_queue_def)
    have e: "tryWorkers frame l st (off # offs) r = tryWorkers frame l st offs ?r" using False x w by (simp add: Let_def)
    have "room_ok i ?r" "workerOrder ?r \<noteq> []" using Cons.prems by simp_all
    from Cons.IH [OF this] show ?thesis unfolding e q' using False q by fastforce
  qed
qed (simp add: offered_def, blast)

lemma queue_of_room:
  "map_of (rooms b) i = Some r \<Longrightarrow> queue_of (b\<lparr>rooms := AList.update i r' (rooms b)\<rparr>) (i', k) = (if i' = i then room_queue r' k else queue_of b (i', k))"
  by (simp add: queue_of_def update_conv')

lemma offered_lift:
  assumes "offered frame (room_queue r) (room_queue r') s" "map_of (rooms b) i = Some r"
  shows "offered frame (queue_of b) (queue_of (b\<lparr>rooms := AList.update i r' (rooms b)\<rparr>)) s"
proof -
  have q: "queue_of b (i, k) = room_queue r k" for k using assms(2) by (simp add: queue_of_def)
  show ?thesis
  proof (cases s)
    case True
    then obtain k x where x: "room_queue r k = Some x" "length x < bondWorkerQueue" "room_queue r' = (room_queue r)(k \<mapsto> x @ [frame])"
      using assms(1) by (auto simp: offered_def)
    have "queue_of (b\<lparr>rooms := AList.update i r' (rooms b)\<rparr>) = (queue_of b)((i, k) \<mapsto> x @ [frame])"
      by (rule ext) (auto simp: queue_of_room [OF assms(2)] x(3) q split: if_splits)
    moreover have "queue_of b (i, k) = Some x" using q x(1) by simp
    ultimately show ?thesis using True x(2) unfolding offered_def by (simp only: if_True) blast
  next
    case False
    then have "queue_of (b\<lparr>rooms := AList.update i r' (rooms b)\<rparr>) = queue_of b"
      using assms(1) by (auto simp: offered_def queue_of_room [OF assms(2)] q fun_eq_iff)
    then show ?thesis using False by (simp add: offered_def)
  qed
qed

lemma offset_covers: "(j :: nat) < n \<Longrightarrow> \<exists>off < n. (st + off) mod n = j"
proof -
  assume j: "j < n"
  let ?off = "(j + (n - st mod n)) mod n"
  have "st mod n \<le> n" using j by (simp add: less_imp_le)
  have "(st + ?off) mod n = (st mod n + (j + (n - st mod n))) mod n" by (simp add: mod_simps)
  also have "st mod n + (j + (n - st mod n)) = j + n" using \<open>st mod n \<le> n\<close> by simp
  finally show ?thesis using j by (intro exI [of _ ?off]) simp
qed

lemma active_update:
  "map_of (rooms b) i = Some r \<Longrightarrow> length (workers r') = length (workers r) \<Longrightarrow>
   active_in (b\<lparr>rooms := AList.update i r' (rooms b)\<rparr>) xs = active_in b xs"
  by (auto simp: active_in_def update_conv' intro!: filter_cong split: option.splits)

lemma room_full:
  assumes "room_ok i r" "workerOrder r \<noteq> []"
    "\<forall>off \<in> set [0..<length (workerOrder r)]. \<forall>q. room_queue r (workerOrder r ! ((st + off) mod length (workerOrder r))) = Some q \<longrightarrow> \<not> length q < bondWorkerQueue"
    "room_queue r k = Some q"
  shows "\<not> length q < bondWorkerQueue"
proof -
  have "k \<in> fst ` set (workers r)" using assms(4) by (auto simp: room_queue_def dest: map_of_SomeD intro: rev_image_eqI)
  then have "k \<in> set (workerOrder r)" using assms(1) by (simp add: room_ok_def)
  then obtain j where j: "j < length (workerOrder r)" "workerOrder r ! j = k" by (auto simp: in_set_conv_nth)
  then obtain off where "off < length (workerOrder r)" "(st + off) mod length (workerOrder r) = j" using offset_covers by blast
  then show ?thesis using assms(3, 4) j(2) by auto
qed

lemma tryRooms_spec:
  assumes "bond_ok b" "active_in b (roomOrder b) = A" "A \<noteq> []"
  shows "\<exists>b' s. tryRooms frame l (length A) st offs b = GoOk (b', s) \<and> bond_ok b' \<and> same_run b b' \<and>
    offered frame (queue_of b) (queue_of b') s \<and>
    (s \<or> scheduleDrop b' = scheduleDrop b + 1 \<and>
      (\<forall>off \<in> set offs. \<forall>k q. queue_of b (A ! ((st + off) mod length A), k) = Some q \<longrightarrow> \<not> length q < bondWorkerQueue))"
  using assms
proof (induction offs arbitrary: b)
  case Nil
  have "bond_ok (b\<lparr>scheduleDrop := scheduleDrop b + 1\<rparr>)" "queue_of (b\<lparr>scheduleDrop := scheduleDrop b + 1\<rparr>) = queue_of b"
    using Nil(1) by (simp_all add: bond_ok_def queue_of_def)
  then show ?case by (fastforce simp: same_run_def offered_def)
next
  case (Cons off offs)
  let ?j = "(st + off) mod length A"
  let ?i = "A ! ?j"
  have j: "?j < length A" using Cons.prems(3) by simp
  then obtain r where r: "map_of (rooms b) ?i = Some r" "workers r \<noteq> []"
    using active_inD [of ?i b "roomOrder b"] Cons.prems(2) nth_mem by metis
  have ok: "room_ok ?i r" by (rule rooms_okD(1) [OF bond_okD(1) [OF Cons.prems(1)] r(1)])
  then have ne: "workerOrder r \<noteq> []" using r(2) by (auto simp: room_ok_def dest: arg_cong [where f = length])
  let ?st = "unat (rr r) mod length (workerOrder r)"
  obtain r' s where t: "tryWorkers frame l ?st [0..<length (workerOrder r)] r = GoOk (r', s)" "room_ok ?i r'"
    "length (workers r') = length (workers r)" "offered frame (room_queue r) (room_queue r') s"
    and full: "s \<or> (\<forall>off \<in> set [0..<length (workerOrder r)]. \<forall>q.
      room_queue r (workerOrder r ! ((?st + off) mod length (workerOrder r))) = Some q \<longrightarrow> \<not> length q < bondWorkerQueue)"
    using tryWorkers_spec [OF ok ne] by blast
  let ?b = "b\<lparr>rooms := AList.update ?i r' (rooms b)\<rparr>"
  have b: "bond_ok ?b" "active_in ?b (roomOrder ?b) = A"
    using ok_room_update [OF Cons.prems(1) r(1) t(2, 3)] active_update [OF r(1) t(3)] Cons.prems(2) by simp_all
  have o: "offered frame (queue_of b) (queue_of ?b) s" by (rule offered_lift [OF t(4) r(1)])
  have a: "activeRoomAt b ?j = GoOk ?i" "room_at b ?i = GoOk r"
    using activeRoomAt_spec [OF Cons.prems(1)] Cons.prems(2) j r(1) by (auto simp: room_at_def)
  have e: "tryRooms frame l (length A) st (off # offs) b =
      (if s then GoOk (if l > bondSmallPacketMax then ?b\<lparr>rrRoom := of_nat (?j + 1)\<rparr> else ?b, True) else tryRooms frame l (length A) st offs ?b)"
    using ne by (simp add: Let_def a t(1))
  show ?case
  proof (cases s)
    case True
    let ?b' = "if l > bondSmallPacketMax then ?b\<lparr>rrRoom := of_nat (?j + 1)\<rparr> else ?b"
    have "bond_ok ?b'" "queue_of ?b' = queue_of ?b" "same_run b ?b'" using b(1) by (simp_all add: bond_ok_def queue_of_def same_run_def)
    then show ?thesis unfolding e using True o by auto
  next
    case False
    then have q: "queue_of ?b = queue_of b" using o by (simp add: offered_def)
    have f: "\<forall>k x. queue_of b (?i, k) = Some x \<longrightarrow> \<not> length x < bondWorkerQueue"
      using room_full [OF ok ne] full False r(1) by (auto simp: queue_of_def)
    from Cons.IH [OF b Cons.prems(3)] obtain b' s' where *: "tryRooms frame l (length A) st offs ?b = GoOk (b', s')" "bond_ok b'"
      "same_run ?b b'" "offered frame (queue_of ?b) (queue_of b') s'" "s' \<or> scheduleDrop b' = scheduleDrop ?b + 1 \<and>
      (\<forall>off \<in> set offs. \<forall>k q. queue_of ?b (A ! ((st + off) mod length A), k) = Some q \<longrightarrow> \<not> length q < bondWorkerQueue)" by blast
    have "same_run b b'" "scheduleDrop ?b = scheduleDrop b" using *(3) by (simp_all add: same_run_def)
    then show ?thesis unfolding e using False * f unfolding q by (intro exI [of _ b'] exI [of _ s']) auto
  qed
qed

lemma schedule_spec:
  assumes "bond_ok b"
  shows "\<exists>b' s. schedule frame l b = GoOk (b', s) \<and> bond_ok b' \<and> same_run b b' \<and> offered frame (queue_of b) (queue_of b') s \<and>
    (s \<or> scheduleDrop b' = scheduleDrop b + 1 \<and> (\<forall>w q. queue_of b w = Some q \<longrightarrow> \<not> length q < bondWorkerQueue))"
proof -
  define A where "A = active_in b (roomOrder b)"
  have c: "countActive b (roomOrder b) 0 = GoOk (length A)"
    using countActive_spec [OF rooms_present [OF assms], of 0] by (simp add: A_def)
  have room: "i \<in> set A" if h: "queue_of b (i, k) = Some q" for i k q
  proof -
    obtain r where r: "map_of (rooms b) i = Some r" "room_queue r k = Some q" using h by (auto simp: queue_of_def split: option.splits)
    then have "workers r \<noteq> []" by (auto simp: room_queue_def)
    then show ?thesis using r(1) rooms_okD(2) [OF bond_okD(1) [OF assms] r(1)] by (simp add: A_def active_in_def)
  qed
  show ?thesis
  proof (cases "A = []")
    case True
    let ?b = "b\<lparr>scheduleDrop := scheduleDrop b + 1\<rparr>"
    have "bond_ok ?b" "queue_of ?b = queue_of b" "same_run b ?b" using assms by (simp_all add: bond_ok_def queue_of_def same_run_def)
    moreover have "\<forall>w q. queue_of b w = Some q \<longrightarrow> \<not> length q < bondWorkerQueue" using room True by fastforce
    moreover have "schedule frame l b = GoOk (?b, False)" using c True by (simp add: schedule_def)
    ultimately show ?thesis by (intro exI [of _ ?b] exI [of _ False]) (simp add: offered_def)
  next
    case False
    obtain m where m: "(if l \<le> bondSmallPacketMax then primaryOrdinal b (roomOrder b) 0 else GoOk (unat (rrRoom b) mod length A)) = GoOk m"
      using primaryOrdinal_spec [OF rooms_present [OF assms], of 0] by (cases "l \<le> bondSmallPacketMax") auto
    have e: "schedule frame l b = tryRooms frame l (length A) m [0..<length A] b" using c m False by (simp add: schedule_def)
    have f: "\<not> length q < bondWorkerQueue" if h: "queue_of b (i, k) = Some q"
      and t: "\<forall>off \<in> set [0..<length A]. \<forall>k q. queue_of b (A ! ((m + off) mod length A), k) = Some q \<longrightarrow> \<not> length q < bondWorkerQueue" for i k q
    proof -
      obtain j where j: "j < length A" "A ! j = i" using room [OF h] by (auto simp: in_set_conv_nth)
      then obtain off where "off < length A" "(m + off) mod length A = j" using offset_covers by blast
      then show ?thesis using t h j(2) by auto
    qed
    show ?thesis using tryRooms_spec [OF assms A_def [symmetric] False, of frame l m "[0..<length A]"] f unfolding e by fastforce
  qed
qed

section \<open>Every run keeps the books\<close>

lemma ok_reader:
  assumes "bond_ok b"
  shows "\<exists>b'. readerPacket p b = GoOk b' \<and> bond_ok b' \<and> nworkers b' = nworkers b \<and> emptyGen b' = emptyGen b \<and> cleanupTimer b' = cleanupTimer b"
proof -
  obtain b1 flags s where m: "nextOutboundFrameMeta (length p) b = (b1, flags, s)" by (metis prod_cases3)
  have b1: "bond_ok b1" "nworkers b1 = nworkers b" "emptyGen b1 = emptyGen b" "cleanupTimer b1 = cleanupTimer b"
    using m assms by (auto simp: nextOutboundFrameMeta_def bond_ok_def split: if_splits)
  show ?thesis
  proof (cases "encodeBondFrame bondFrameData flags s p")
    case (GoOk frame)
    then show ?thesis using m b1 schedule_spec [OF b1(1), of frame "length p"] by (auto simp: readerPacket_def same_run_def)
  next
    case (GoErr e)
    then show ?thesis using m b1 by (simp add: readerPacket_def)
  next
    case GoPanic
    then show ?thesis by (simp add: encodeBondFrame_def split: if_splits)
  qed
qed

lemma ok_take: "bond_ok b \<Longrightarrow> bond_ok (takeFrame w b)"
proof -
  assume a: "bond_ok b"
  show ?thesis
  proof (cases "map_of (rooms b) (wroom w)")
    case (Some r)
    show ?thesis
    proof (cases "map_of (workers r) (wworker w)")
      case (Some x)
      note r = \<open>map_of (rooms b) (wroom w) = Some r\<close>
      have ok: "room_ok (wroom w) r" by (rule rooms_okD(1) [OF bond_okD(1) [OF a] r])
      then have x: "wroom x = wroom w" "wworker x = wworker w" "length (sendq x) \<le> bondWorkerQueue"
        using map_of_SomeD [OF Some] by (auto simp: room_ok_def)
      have "room_ok (wroom w) (r\<lparr>workers := AList.update (wworker w) (x\<lparr>sendq := tl (sendq x)\<rparr>) (workers r)\<rparr>)"
        using room_ok_worker [OF ok Some, of "x\<lparr>sendq := tl (sendq x)\<rparr>"] x by simp
      from ok_room_update [OF a r this] show ?thesis
        using a r Some by (simp add: takeFrame_def length_update_some [OF Some])
    qed (use a Some in \<open>simp add: takeFrame_def\<close>)
  qed (use a in \<open>simp add: takeFrame_def\<close>)
qed

lemma ok_accept:
  assumes "bond_ok b" "acceptDataFrame i frame now b = Some (b', ready, valid)"
  shows "bond_ok b'" "nworkers b' = nworkers b" "emptyGen b' = emptyGen b" "cleanupTimer b' = cleanupTimer b"
proof -
  have lanes: "bond_ok (x\<lparr>latencyReorder := q\<rparr>) = bond_ok x" "bond_ok (x\<lparr>bulkReorder := q\<rparr>) = bond_ok x" for x q
    by (simp_all add: bond_ok_def)
  have "bond_ok (b\<lparr>rooms := AList.update i (r\<lparr>metrics := m\<rparr>) (rooms b)\<rparr>)" if r: "map_of (rooms b) i = Some r" for r m
    using ok_room_update [OF assms(1) r, of "r\<lparr>metrics := m\<rparr>"] rooms_okD(1) [OF bond_okD(1) [OF assms(1)] r] by simp
  then show "bond_ok b'" "nworkers b' = nworkers b" "emptyGen b' = emptyGen b" "cleanupTimer b' = cleanupTimer b"
    using assms by (auto simp: acceptDataFrame_def Let_def case_prod_beta lanes split: if_splits option.splits)
qed

lemma enqueue_same:
  "nworkers (enqueueWG cd pk i ps b) = nworkers b" "emptyGen (enqueueWG cd pk i ps b) = emptyGen b" "cleanupTimer (enqueueWG cd pk i ps b) = cleanupTimer b"
  by (induction ps arbitrary: i b) auto

lemma ok_frame:
  assumes "bond_ok b" "workerFrame cd pk i packet now b = Some (b', goOn)"
  shows "bond_ok b' \<and> nworkers b' = nworkers b \<and> emptyGen b' = emptyGen b \<and> cleanupTimer b' = cleanupTimer b"
proof -
  have bad: "bond_ok (x\<lparr>badFrames := n\<rparr>) = bond_ok x" for x n by (simp add: bond_ok_def)
  show ?thesis
    using assms ok_accept [OF assms(1)] ok_enqueue
    by (auto simp: workerFrame_def bad enqueue_same split: gores.splits if_splits option.splits)
qed

lemma ok_tick:
  assumes "bond_ok b"
  shows "bond_ok (writerTick cd pk now b) \<and> nworkers (writerTick cd pk now b) = nworkers b \<and> emptyGen (writerTick cd pk now b) = emptyGen b \<and>
    cleanupTimer (writerTick cd pk now b) = cleanupTimer b"
proof -
  have "bond_ok (b\<lparr>bulkReorder := x, latencyReorder := y\<rparr>)" for x y using assms by (simp add: bond_ok_def)
  then show ?thesis using ok_enqueue by (simp add: writerTick_def case_prod_beta Let_def enqueue_same)
qed

lemma remove_armed:
  "cleanupTimer b = Some (emptyGen b) \<or> nworkers b \<noteq> 0 \<Longrightarrow>
   nworkers (removeWorker w b) = 0 \<Longrightarrow> cleanupTimer (removeWorker w b) = Some (emptyGen (removeWorker w b))"
  by (auto simp: removeWorker_def armEmptyCleanupLocked_def Let_def split: option.splits if_splits)

lemma run_step: "bond_run x y \<Longrightarrow> run_inv x \<Longrightarrow> run_inv y"
proof (induction rule: bond_run.induct)
  case (arm b p)
  then show ?case using ok_arm [of b] by (auto simp: armEmptyCleanupLocked_def)
next
  case (join b p i r w)
  then show ?case using ok_add [of b i r w] by auto
next
  case (leave b p w)
  then show ?case using ok_remove [of b w] remove_armed [of b w] by auto
next
  case (fire g b b' gone p)
  then show ?case using ok_fire [of b g] by (auto simp: cleanupFired_def Let_def split: if_splits)
next
  case (receive cd pk r packet now b b' goOn p)
  then show ?case using ok_frame [of b cd pk r packet now b' goOn] by auto
next
  case (tick b p cd pk now)
  then show ?case using ok_tick [of b cd pk now] by auto
next
  case (read q b b' p)
  then show ?case using ok_reader [of b q] by auto
next
  case (take b p w)
  moreover have "nworkers (takeFrame w b) = nworkers b" "emptyGen (takeFrame w b) = emptyGen b" "cleanupTimer (takeFrame w b) = cleanupTimer b"
    by (auto simp: takeFrame_def split: option.split)
  ultimately show ?case using ok_take [of b w] by auto
next
  case (wrote b p)
  then have "bond_ok b" by simp
  note i = bond_okD(1, 2) [OF this] and t = bond_okD(3) [OF this]
  have "length (tl (wgWrite b)) \<le> bondWGQueue" using i(2) by simp
  then have "bond_ok (b\<lparr>wgWrite := tl (wgWrite b)\<rparr>)" using i(1) t unfolding bond_ok_def by simp
  then show ?case using wrote by simp
qed

lemma run_inv_runs: "bond_runs s \<Longrightarrow> run_inv s"
proof (induction rule: bond_runs.induct)
  case (start room)
  then show ?case by (simp add: newServerBond_def bond_ok_def rooms_ok_def)
qed (rule run_step)



text \<open>In every state a bond can reach, the scheduler never panics (no nil room or worker, no index out
  of range, no division by zero) and loses no capacity: the frame is taken exactly when some attached
  worker, in any room, has a free place in its queue, and then exactly one such queue grows by that frame
  at its end while all others are unchanged; otherwise every queue is unchanged and the drop is counted.\<close>

lemma schedule_work_conserving:
  assumes "bond_runs (b, p)"
  shows "\<exists>b' sent. schedule frame payloadLen b = GoOk (b', sent) \<and>
    (sent \<longleftrightarrow> (\<exists>w q. queue_of b w = Some q \<and> length q < 128)) \<and>
    (sent \<longrightarrow> (\<exists>w q. queue_of b w = Some q \<and> length q < 128 \<and> queue_of b' = (queue_of b)(w \<mapsto> q @ [frame]))) \<and>
    (\<not> sent \<longrightarrow> queue_of b' = queue_of b \<and> scheduleDrop b' = scheduleDrop b + 1)"
proof -
  have "bond_ok b" using run_inv_runs [OF assms] by simp
  from schedule_spec [OF this, of frame payloadLen] obtain b' s where *: "schedule frame payloadLen b = GoOk (b', s)"
    "offered frame (queue_of b) (queue_of b') s"
    "s \<or> scheduleDrop b' = scheduleDrop b + 1 \<and> (\<forall>w q. queue_of b w = Some q \<longrightarrow> \<not> length q < 128)"
    unfolding bondWorkerQueue_def by blast
  show ?thesis
  proof (cases s)
    case True
    then obtain w q where "queue_of b w = Some q \<and> length q < 128 \<and> queue_of b' = (queue_of b)(w \<mapsto> q @ [frame])"
      using *(2) unfolding offered_def bondWorkerQueue_def by (simp only: if_True) blast
    then show ?thesis using *(1) True by blast
  next
    case False
    then have "queue_of b' = queue_of b" using *(2) by (simp add: offered_def)
    then show ?thesis using *(1, 3) False by blast
  qed
qed

lemma schedule_work_conserving_witness:
  "\<exists>b' sent. schedule [1] 1 (addWorker 7 2 5 (newServerBond 0)) = GoOk (b', sent) \<and>
    (sent \<longleftrightarrow> (\<exists>w q. queue_of (addWorker 7 2 5 (newServerBond 0)) w = Some q \<and> length q < 128))"
  using schedule_work_conserving [OF bond_runs.step [OF bond_runs.start bond_run.join, of 7 2 5 0], of "[1]" 1] by blast

end
