(* ===== verification/BondDispatch.thy ===== *)
theory BondDispatch
  imports BondWorkers Complex_Main "HOL-Library.Sublist"
begin

text \<open>
  The client end of a bond: internal/wgturnclient/dispatcher.go, shaper.go and the scheduler of bondv2.go. Packets from
  WireGuard are given to one of several workers, each with a queue and a token bucket, in two lanes that are
  numbered separately; frames from the server go through the reorder buffers of \<open>BondReorder\<close>. Every call runs under
  the dispatcher's mutex and is one operation here; readings of the clock are arguments. A worker slot is identified
  by \<open>slotKey\<close>, the pointer of the source. Token counts are \<open>float64\<close> in the source and exact rationals here.
  \<open>BondLink\<close> composes the client with the server's end of \<open>BondWorkers\<close>.
\<close>

section \<open>Token buckets\<close>

definition DefaultWorkerRateBPS :: int where "DefaultWorkerRateBPS = 7250"
definition workerBurstBytes :: rat where "workerBurstBytes = 4500"

record workerTokenBucket =
  rateBytesPerSecond :: rat
  tokens :: rat
  lastRefill :: nanos

definition newWorkerTokenBucket :: "int \<Rightarrow> nanos \<Rightarrow> workerTokenBucket" where
  "newWorkerTokenBucket rateBPS now =
    \<lparr>rateBytesPerSecond = of_int (if rateBPS \<le> 0 then DefaultWorkerRateBPS else rateBPS), tokens = workerBurstBytes, lastRefill = now\<rparr>"

definition refill :: "nanos \<Rightarrow> workerTokenBucket \<Rightarrow> workerTokenBucket" where
  "refill now b =
    (let b = (if now > lastRefill b
        then b\<lparr>tokens := min workerBurstBytes (tokens b + of_int (now - lastRefill b) / of_int second * rateBytesPerSecond b)\<rparr> else b)
     in b\<lparr>lastRefill := now\<rparr>)"

definition admit :: "nanos \<Rightarrow> nat \<Rightarrow> bool \<Rightarrow> workerTokenBucket \<Rightarrow> workerTokenBucket \<times> bool" where
  "admit now sz latency b =
    (let b = refill now b; need = of_nat sz in
     if latency then (b\<lparr>tokens := tokens b - need\<rparr>, True)
     else if tokens b < need then (b, False)
     else (b\<lparr>tokens := tokens b - need\<rparr>, True))"

definition refund :: "nat \<Rightarrow> workerTokenBucket \<Rightarrow> workerTokenBucket" where
  "refund sz b = (if sz = 0 then b else b\<lparr>tokens := min workerBurstBytes (tokens b + of_nat sz)\<rparr>)"

section \<open>Workers and the scheduler\<close>

record WorkerSlot =
  slotKey :: nat
  slotID :: int
  RoomID :: int
  SendCh :: "bytes list"
  sendCap :: nat
  bucket :: "workerTokenBucket option"

definition workerQueueAvailable :: "WorkerSlot \<Rightarrow> bool" where
  "workerQueueAvailable w = (sendCap w > 0 \<and> length (SendCh w) < sendCap w)"

record bondScheduler =
  roomRR :: nat
  primary :: int
  workerRateBPS :: int
  workerRR :: "(int \<times> nat) list"

definition newBondScheduler :: "int \<Rightarrow> bondScheduler" where
  "newBondScheduler rate = \<lparr>roomRR = 0, primary = 0, workerRateBPS = (if rate > 0 then rate else DefaultWorkerRateBPS), workerRR = []\<rparr>"

definition activeRooms :: "WorkerSlot list \<Rightarrow> int list" where
  "activeRooms ws = sort (remdups (map RoomID ws))"

definition bucketOf :: "int \<Rightarrow> nanos \<Rightarrow> WorkerSlot \<Rightarrow> workerTokenBucket" where
  "bucketOf rate now w = (case bucket w of Some b \<Rightarrow> b | None \<Rightarrow> newWorkerTokenBucket rate now)"

text \<open>The loop of \<open>chooseInRoom\<close> over the positions still to try; a pair is a position in the list of the room and the
  position of that worker among all workers.\<close>

primrec tryWorkers :: "int \<Rightarrow> nanos \<Rightarrow> nat \<Rightarrow> (nat \<times> nat) list \<Rightarrow> WorkerSlot list \<Rightarrow> WorkerSlot list \<times> (nat \<times> nat) option" where
  "tryWorkers rate now sz [] ws = (ws, None)"
| "tryWorkers rate now sz (c # cs) ws =
    (let w = ws ! snd c in
     if \<not> workerQueueAvailable w then tryWorkers rate now sz cs ws
     else case admit now sz (sz \<le> bondSmallPacketMax) (bucketOf rate now w) of
       (b, ok) \<Rightarrow>
         let ws = ws[snd c := w\<lparr>bucket := Some b\<rparr>] in
         if \<not> ok then tryWorkers rate now sz cs ws else (ws, Some c))"

definition chooseInRoom :: "nanos \<Rightarrow> int \<Rightarrow> nat \<Rightarrow> bondScheduler \<Rightarrow> WorkerSlot list \<Rightarrow> bondScheduler \<times> WorkerSlot list \<times> nat option" where
  "chooseInRoom now room sz s ws =
    (let roomWorkers = filter (\<lambda>k. RoomID (ws ! k) = room) [0..<length ws]; n = length roomWorkers in
     if n = 0 then (s, ws, None)
     else let start = (case map_of (workerRR s) room of Some k \<Rightarrow> k | None \<Rightarrow> 0) mod n;
              order = map (\<lambda>i. ((start + i) mod n, roomWorkers ! ((start + i) mod n))) [0..<n] in
       (case tryWorkers (workerRateBPS s) now sz order ws of
          (ws, None) \<Rightarrow> (s, ws, None)
        | (ws, Some (i, k)) \<Rightarrow> (s\<lparr>workerRR := AList.update room ((i + 1) mod n) (workerRR s)\<rparr>, ws, Some k)))"

text \<open>The two loops of \<open>choose\<close>: \<open>onHit\<close> is what the scheduler remembers of the room that was taken.\<close>

primrec tryRooms :: "nanos \<Rightarrow> nat \<Rightarrow> (nat \<Rightarrow> int \<Rightarrow> bondScheduler \<Rightarrow> bondScheduler) \<Rightarrow> (nat \<times> int) list \<Rightarrow> bondScheduler \<Rightarrow> WorkerSlot list \<Rightarrow>
    bondScheduler \<times> WorkerSlot list \<times> nat option" where
  "tryRooms now sz onHit [] s ws = (s, ws, None)"
| "tryRooms now sz onHit (r # rs) s ws =
    (case chooseInRoom now (snd r) sz s ws of
       (s, ws, Some k) \<Rightarrow> (onHit (fst r) (snd r) s, ws, Some k)
     | (s, ws, None) \<Rightarrow> tryRooms now sz onHit rs s ws)"

definition chooseWorker :: "nanos \<Rightarrow> nat \<Rightarrow> bondScheduler \<Rightarrow> WorkerSlot list \<Rightarrow> bondScheduler \<times> WorkerSlot list \<times> nat option" where
  "chooseWorker now sz s ws =
    (let rooms = activeRooms ws; n = length rooms; fromRoom = (\<lambda>start. map (\<lambda>i. ((start + i) mod n, rooms ! ((start + i) mod n))) [0..<n]) in
     if n = 0 then (s, ws, None)
     else if sz \<le> bondSmallPacketMax then
       let start = (case find (\<lambda>i. rooms ! i = primary s) [0..<n] of Some i \<Rightarrow> i | None \<Rightarrow> 0) in
       tryRooms now sz (\<lambda>i room s. s\<lparr>primary := room\<rparr>) (fromRoom start) s ws
     else tryRooms now sz (\<lambda>i room s. s\<lparr>roomRR := (i + 1) mod n\<rparr>) (fromRoom (roomRR s mod n)) s ws)"

section \<open>The dispatcher\<close>

text \<open>The counters of stats.go that the dispatcher touches; those of the reorder buffers are in the buffers.\<close>

record Stats =
  TotalBytesUp :: int
  TotalBytesDown :: int
  BondFramesUp :: int
  BondFramesDown :: int
  BondBytesUp :: int
  BondBytesDown :: int
  BondQueueDrops :: int
  BondShaperDrops :: int
  BondUndecoded :: int
  BondInvalidFrames :: int
  BondLatencyFramesUp :: int
  BondLatencyFramesDown :: int
  BondWorkersActive :: "int list"
  BondRoomPackets :: "int list"
  BondRoomBytes :: "int list"
  BondRoomDrops :: "int list"

definition NewStats :: Stats where
  "NewStats = \<lparr>TotalBytesUp = 0, TotalBytesDown = 0, BondFramesUp = 0, BondFramesDown = 0, BondBytesUp = 0, BondBytesDown = 0, BondQueueDrops = 0,
     BondShaperDrops = 0, BondUndecoded = 0, BondInvalidFrames = 0, BondLatencyFramesUp = 0, BondLatencyFramesDown = 0,
     BondWorkersActive = replicate 6 0, BondRoomPackets = replicate 6 0, BondRoomBytes = replicate 6 0, BondRoomDrops = replicate 6 0\<rparr>"

definition roomAdd :: "int \<Rightarrow> int \<Rightarrow> int list \<Rightarrow> int list" where
  "roomAdd room x xs = (if room \<ge> 0 \<and> room < int (length xs) then xs[nat room := xs ! nat room + x] else xs)"

text \<open>\<open>dSent\<close> records, for every frame put into a queue, its lane and what was encoded; \<open>dLocal\<close> the packets written
  to WireGuard.\<close>

record Dispatcher =
  dWorkers :: "WorkerSlot list"
  rrIndex :: nat
  dRateBPS :: int
  bondV2 :: bool
  bondSched :: bondScheduler
  bondBulkSeq :: "64 word"
  bondLatencySeq :: "64 word"
  bondBulkReorder :: "bytes bondReorderBuffer"
  bondLatencyReorder :: "bytes bondReorderBuffer"
  clientKnown :: bool
  countGeneration :: "64 word"
  lastNotified :: "64 word"
  dNotified :: "nat list"
  stats :: Stats
  dSent :: "(bool \<times> bytes \<times> bytes) list"
  dLocal :: "bytes list"

text \<open>The scheduler and the two buffers exist in the source only when \<open>bondV2\<close> is set, and are not used otherwise.\<close>

definition NewDispatcherWithOptions :: "bool \<Rightarrow> int \<Rightarrow> Dispatcher" where
  "NewDispatcherWithOptions v2 rate =
    (let rate = (if rate \<le> 0 then DefaultWorkerRateBPS else rate) in
     \<lparr>dWorkers = [], rrIndex = 0, dRateBPS = rate, bondV2 = v2, bondSched = newBondScheduler rate, bondBulkSeq = 0, bondLatencySeq = 0,
      bondBulkReorder = newBondReorderBuffer, bondLatencyReorder = newBondReorderBuffer, clientKnown = False,
      countGeneration = 0, lastNotified = 0, dNotified = [], stats = NewStats, dSent = [], dLocal = []\<rparr>)"

definition notifyWorkerCount :: "64 word \<Rightarrow> nat \<Rightarrow> Dispatcher \<Rightarrow> Dispatcher" where
  "notifyWorkerCount generation cnt d =
    (if generation \<le> lastNotified d then d else d\<lparr>lastNotified := generation, dNotified := dNotified d @ [cnt]\<rparr>)"

text \<open>\<open>Register\<close> and \<open>Unregister\<close> under the mutex; the second result is the generation and count they then notify.\<close>

definition Register :: "nanos \<Rightarrow> WorkerSlot \<Rightarrow> Dispatcher \<Rightarrow> Dispatcher \<times> 64 word \<times> nat" where
  "Register now w d =
    (let d = d\<lparr>dWorkers := dWorkers d @ [w\<lparr>bucket := Some (newWorkerTokenBucket (dRateBPS d) now)\<rparr>], countGeneration := countGeneration d + 1,
          stats := (stats d)\<lparr>BondWorkersActive := (if bondV2 d then roomAdd (RoomID w) 1 (BondWorkersActive (stats d)) else BondWorkersActive (stats d))\<rparr>\<rparr>
     in (d, countGeneration d, length (dWorkers d)))"

definition Unregister :: "nat \<Rightarrow> Dispatcher \<Rightarrow> Dispatcher \<times> (64 word \<times> nat) option" where
  "Unregister key d =
    (case find (\<lambda>i. slotKey (dWorkers d ! i) = key) [0..<length (dWorkers d)] of
       None \<Rightarrow> (d, None)
     | Some i \<Rightarrow>
        let d = d\<lparr>dWorkers := take i (dWorkers d) @ drop (i + 1) (dWorkers d), countGeneration := countGeneration d + 1,
              stats := (stats d)\<lparr>BondWorkersActive := (if bondV2 d then roomAdd (RoomID (dWorkers d ! i)) (- 1) (BondWorkersActive (stats d)) else BondWorkersActive (stats d))\<rparr>\<rparr>
        in (d, Some (countGeneration d, length (dWorkers d))))"

text \<open>How many workers of a group are registered, and whether the required one is.\<close>

definition workerGroupState :: "int set \<Rightarrow> int \<Rightarrow> Dispatcher \<Rightarrow> nat \<times> bool" where
  "workerGroupState workerIDs requiredID d =
    (let ws = filter (\<lambda>w. slotID w \<in> workerIDs) (dWorkers d) in (length ws, list_ex (\<lambda>w. slotID w = requiredID) ws))"

primrec legacyLoop :: "nanos \<Rightarrow> bytes \<Rightarrow> nat list \<Rightarrow> Dispatcher \<Rightarrow> Dispatcher \<times> bool" where
  "legacyLoop now p [] d = (d, False)"
| "legacyLoop now p (i # is) d =
    (let w = dWorkers d ! i in
     if \<not> workerQueueAvailable w then legacyLoop now p is d
     else case admit now (length p) (length p \<le> bondSmallPacketMax) (bucketOf (dRateBPS d) now w) of
       (b, ok) \<Rightarrow>
         if \<not> ok then legacyLoop now p is (d\<lparr>dWorkers := (dWorkers d)[i := w\<lparr>bucket := Some b\<rparr>]\<rparr>)
         else (d\<lparr>dWorkers := (dWorkers d)[i := w\<lparr>bucket := Some b, SendCh := SendCh w @ [p]\<rparr>], rrIndex := (i + 1) mod length (dWorkers d)\<rparr>, True))"

definition dispatchLegacy :: "nanos \<Rightarrow> bytes \<Rightarrow> Dispatcher \<Rightarrow> Dispatcher" where
  "dispatchLegacy now p d =
    (let nw = length (dWorkers d) in
     if nw = 0 then d
     else let start = rrIndex d mod nw in
       (case legacyLoop now p (map (\<lambda>i. (start + i) mod nw) [0..<nw]) d of
          (d, True) \<Rightarrow> d
        | (d, False) \<Rightarrow> d\<lparr>rrIndex := (start + 1) mod nw, stats := (stats d)\<lparr>BondShaperDrops := BondShaperDrops (stats d) + 1\<rparr>\<rparr>))"

definition addSeq :: "bool \<Rightarrow> 64 word \<Rightarrow> Dispatcher \<Rightarrow> Dispatcher" where
  "addSeq latency x d =
    (if latency then d\<lparr>bondLatencySeq := bondLatencySeq d + x\<rparr> else d\<lparr>bondBulkSeq := bondBulkSeq d + x\<rparr>)"

definition seqOf :: "bool \<Rightarrow> Dispatcher \<Rightarrow> 64 word" where
  "seqOf latency d = (if latency then bondLatencySeq d else bondBulkSeq d)"

definition refundAt :: "nat \<Rightarrow> nat \<Rightarrow> Dispatcher \<Rightarrow> Dispatcher" where
  "refundAt k sz d = d\<lparr>dWorkers := (dWorkers d)[k := (dWorkers d ! k)\<lparr>bucket := map_option (refund sz) (bucket (dWorkers d ! k))\<rparr>]\<rparr>"

definition sentStats :: "bool \<Rightarrow> int \<Rightarrow> nat \<Rightarrow> Stats \<Rightarrow> Stats" where
  "sentStats latency room sz st =
    st\<lparr>BondFramesUp := BondFramesUp st + 1, BondBytesUp := BondBytesUp st + int sz,
       BondRoomPackets := roomAdd room 1 (BondRoomPackets st), BondRoomBytes := roomAdd room (int sz) (BondRoomBytes st),
       BondLatencyFramesUp := BondLatencyFramesUp st + of_bool latency\<rparr>"

text \<open>The number is taken before the frame is encoded and given back by adding the largest \<open>uint64\<close> when the frame is not sent.\<close>

definition dispatchBond :: "nanos \<Rightarrow> bytes \<Rightarrow> Dispatcher \<Rightarrow> Dispatcher" where
  "dispatchBond now payload d =
    (if dWorkers d = [] then d
     else case chooseWorker now (length payload) (bondSched d) (dWorkers d) of
       (s, ws, None) \<Rightarrow> d\<lparr>bondSched := s, dWorkers := ws, stats := (stats d)\<lparr>BondShaperDrops := BondShaperDrops (stats d) + 1,
         BondRoomDrops := fold (\<lambda>room. roomAdd room 1) (activeRooms ws) (BondRoomDrops (stats d))\<rparr>\<rparr>
     | (s, ws, Some k) \<Rightarrow>
        let latency = (length payload \<le> bondSmallPacketMax);
            d = addSeq latency 1 (d\<lparr>bondSched := s, dWorkers := ws\<rparr>);
            w = ws ! k in
        (case client_encodeBondFrame \<lparr>bType = bondFrameData, bFlags = (if latency then bondFlagLatency else 0), bSeq = seqOf latency d, bPayload = payload\<rparr> of
           GoOk frame \<Rightarrow>
             if length (SendCh w) < sendCap w then
               d\<lparr>dWorkers := ws[k := w\<lparr>SendCh := SendCh w @ [frame]\<rparr>], stats := sentStats latency (RoomID w) (length payload) (stats d), dSent := dSent d @ [(latency, payload, frame)]\<rparr>
             else (refundAt k (length payload) (addSeq latency (- 1) d))\<lparr>stats := (stats d)\<lparr>BondQueueDrops := BondQueueDrops (stats d) + 1,
               BondRoomDrops := roomAdd (RoomID w) 1 (BondRoomDrops (stats d))\<rparr>\<rparr>
         | _ \<Rightarrow> refundAt k (length payload) (addSeq latency (- 1) d)))"

text \<open>One turn of \<open>readLoop\<close> with a packet from WireGuard.\<close>

definition readPacket :: "nanos \<Rightarrow> bytes \<Rightarrow> Dispatcher \<Rightarrow> Dispatcher" where
  "readPacket now p d =
    (let d = d\<lparr>clientKnown := True, stats := (stats d)\<lparr>TotalBytesUp := TotalBytesUp (stats d) + int (length p)\<rparr>\<rparr> in
     if bondV2 d then dispatchBond now p d else dispatchLegacy now p d)"

text \<open>A worker takes the next frame from its queue.\<close>

definition workerTakes :: "nat \<Rightarrow> Dispatcher \<Rightarrow> Dispatcher" where
  "workerTakes k d = (if k < length (dWorkers d) then d\<lparr>dWorkers := (dWorkers d)[k := (dWorkers d ! k)\<lparr>SendCh := tl (SendCh (dWorkers d ! k))\<rparr>]\<rparr> else d)"

text \<open>\<open>wr p\<close>: the write of \<open>p\<close> to the local socket succeeds.\<close>

definition writeWGPacket :: "(bytes \<Rightarrow> bool) \<Rightarrow> bytes \<Rightarrow> Dispatcher \<Rightarrow> Dispatcher" where
  "writeWGPacket wr p d = (if clientKnown d \<and> wr p then d\<lparr>dLocal := dLocal d @ [p], stats := (stats d)\<lparr>TotalBytesDown := TotalBytesDown (stats d) + int (length p)\<rparr>\<rparr> else d)"

definition handleBondReturn :: "(bytes \<Rightarrow> bool) \<Rightarrow> nanos \<Rightarrow> bytes \<Rightarrow> Dispatcher \<Rightarrow> Dispatcher" where
  "handleBondReturn wr now p d =
    (case client_decodeBondFrame p of
       GoOk frame \<Rightarrow>
         if bType frame = bondFrameKeepalive \<or> bType frame = bondFrameError \<or> bType frame \<noteq> bondFrameData then d
         else (case bondLatencyLane (bFlags frame) of (latency, valid) \<Rightarrow>
           if \<not> valid \<or> bSeq frame = 0 \<or> bPayload frame = [] then d\<lparr>stats := (stats d)\<lparr>BondInvalidFrames := BondInvalidFrames (stats d) + 1\<rparr>\<rparr>
           else let d = d\<lparr>stats := (stats d)\<lparr>BondFramesDown := BondFramesDown (stats d) + 1, BondBytesDown := BondBytesDown (stats d) + int (length (bPayload frame)),
                 BondLatencyFramesDown := BondLatencyFramesDown (stats d) + of_bool latency\<rparr>\<rparr> in
             (case client_push (bSeq frame) (bPayload frame) now (if latency then bondLatencyReorder d else bondBulkReorder d) of
                (r, ready) \<Rightarrow> fold (writeWGPacket wr) ready (if latency then d\<lparr>bondLatencyReorder := r\<rparr> else d\<lparr>bondBulkReorder := r\<rparr>)))
     | _ \<Rightarrow> d\<lparr>stats := (stats d)\<lparr>BondUndecoded := BondUndecoded (stats d) + 1\<rparr>\<rparr>)"

text \<open>The cases of \<open>writeLoop\<close>: a datagram from a worker, and the tick.\<close>

definition returnPacket :: "(bytes \<Rightarrow> bool) \<Rightarrow> nanos \<Rightarrow> bytes \<Rightarrow> Dispatcher \<Rightarrow> Dispatcher" where
  "returnPacket wr now p d = (if bondV2 d then handleBondReturn wr now p d else writeWGPacket wr p d)"

definition reorderTick :: "(bytes \<Rightarrow> bool) \<Rightarrow> nanos \<Rightarrow> Dispatcher \<Rightarrow> Dispatcher" where
  "reorderTick wr now d =
    (case client_flushExpired now (bondBulkReorder d) of (b, ready1) \<Rightarrow>
     case client_flushExpired now (bondLatencyReorder d) of (l, ready2) \<Rightarrow>
       fold (writeWGPacket wr) (ready1 @ ready2) (d\<lparr>bondBulkReorder := b, bondLatencyReorder := l\<rparr>))"

section \<open>The reorder ring does not look into payloads\<close>

definition pmap :: "('a \<Rightarrow> 'b) \<Rightarrow> 'a reorderPacket \<Rightarrow> 'b reorderPacket" where
  "pmap f q = \<lparr>sequence = sequence q, pkt = f (pkt q)\<rparr>"

definition rmap :: "('a \<Rightarrow> 'b) \<Rightarrow> 'a packetReorder \<Rightarrow> 'b packetReorder" where
  "rmap f r = \<lparr>nextSeq = nextSeq r, holdTime = holdTime r, gapSince = gapSince r, slots = map (map_option (pmap f)) (slots r),
     buffered = buffered r, gaps = gaps r, late = late r, duplicate = duplicate r\<rparr>"

lemma pmap_fields [simp]: "sequence (pmap f q) = sequence q" "pkt (pmap f q) = f (pkt q)"
  by (simp_all add: pmap_def)

lemma rmap_fields [simp]: "nextSeq (rmap f r) = nextSeq r" "holdTime (rmap f r) = holdTime r" "gapSince (rmap f r) = gapSince r"
  "slots (rmap f r) = map (map_option (pmap f)) (slots r)" "buffered (rmap f r) = buffered r" "gaps (rmap f r) = gaps r" "late (rmap f r) = late r"
  "duplicate (rmap f r) = duplicate r"
  by (simp_all add: rmap_def)

lemma rmap_updates:
  "(rmap f r)\<lparr>nextSeq := a\<rparr> = rmap f (r\<lparr>nextSeq := a\<rparr>)" "(rmap f r)\<lparr>gapSince := g\<rparr> = rmap f (r\<lparr>gapSince := g\<rparr>)"
  "(rmap f r)\<lparr>buffered := n\<rparr> = rmap f (r\<lparr>buffered := n\<rparr>)" "(rmap f r)\<lparr>gaps := x\<rparr> = rmap f (r\<lparr>gaps := x\<rparr>)"
  "(rmap f r)\<lparr>late := x\<rparr> = rmap f (r\<lparr>late := x\<rparr>)" "(rmap f r)\<lparr>duplicate := x\<rparr> = rmap f (r\<lparr>duplicate := x\<rparr>)"
  "(rmap f r)\<lparr>slots := (map (map_option (pmap f)) (slots r))[i := map_option (pmap f) y]\<rparr> = rmap f (r\<lparr>slots := (slots r)[i := y]\<rparr>)"
  by (simp_all add: rmap_def map_update)

lemma slot_at_rmap [simp]: "slot_at (rmap f r) i = map_option (pmap f) (slot_at r i)"
  by (simp add: slot_at_def)

lemma drain_rmap: "drain r = (r', out) \<Longrightarrow> drain (rmap f r) = (rmap f r', map f out)"
proof (induction r arbitrary: r' out rule: drain.induct)
  case (1 r)
  show ?case
  proof (cases "\<exists>p. slot_at r (slot_of (nextSeq r)) = Some p \<and> sequence p = nextSeq r")
    case True
    then obtain p where p: "slot_at r (slot_of (nextSeq r)) = Some p" "sequence p = nextSeq r" by blast
    define r1 where "r1 = r\<lparr>slots := (slots r)[slot_of (nextSeq r) := None], buffered := buffered r - 1, nextSeq := nextSeq r + 1\<rparr>"
    obtain o1 where o1: "drain r1 = (r', o1)" "out = pkt p # o1"
      using "1.prems" p by (subst (asm) drain.simps) (auto simp: r1_def split: prod.splits)
    have IH: "drain (rmap f r1) = (rmap f r', map f o1)" using "1.IH" [OF p(1)] p(2) o1(1) by (simp add: r1_def)
    have e: "(rmap f r)\<lparr>slots := (slots (rmap f r))[slot_of (nextSeq (rmap f r)) := None], buffered := buffered (rmap f r) - 1, nextSeq := nextSeq (rmap f r) + 1\<rparr> = rmap f r1"
      by (simp add: r1_def rmap_def map_update)
    have "drain (rmap f r) = (case drain (rmap f r1) of (r', out) \<Rightarrow> (r', pkt (pmap f p) # out))"
      by (subst drain.simps) (simp only: slot_at_rmap rmap_fields(1) p option.map option.case pmap_fields simp_thms if_False e [simplified rmap_fields(1)] split: if_split)
    then show ?thesis using IH o1(2) by simp
  next
    case False
    then have "drain r = (r, [])" by (subst drain.simps) (auto split: option.split)
    moreover have "drain (rmap f r) = (rmap f r, [])" using False by (subst drain.simps) (auto split: option.split)
    ultimately show ?thesis using "1.prems" by simp
  qed
qed

lemma lowest_rmap [simp]: "lowest (rmap f r) = lowest r"
proof -
  have "fold (\<lambda>p l. case p of None \<Rightarrow> l | Some p \<Rightarrow> if l = 0 \<or> sequence p < l then sequence p else l) (map (map_option (pmap f)) xs) l0 =
      fold (\<lambda>p l. case p of None \<Rightarrow> l | Some p \<Rightarrow> if l = 0 \<or> sequence p < l then sequence p else l) xs l0" for xs and l0 :: "64 word"
    by (induction xs arbitrary: l0) (auto split: option.split)
  then show ?thesis by (simp add: lowest_def)
qed

lemma advanceTo_rmap: "advanceTo s (rmap f r) = rmap f (advanceTo s r)"
  by (simp add: advanceTo_def rmap_updates)

lemma makeRoom_rmap:
  assumes "makeRoom s r = Some (r', out)"
  shows "makeRoom s (rmap f r) = Some (rmap f r', map f out)"
proof -
  let ?P = "\<lambda>s r y. makeRoom s (rmap f r) = Some (rmap f (fst y), map f (snd y))"
  have "?P s r (r', out)"
  proof (rule makeRoom.raw_induct [where P = ?P, OF _ assms])
    fix mk s r y
    assume IH: "\<And>s r y. mk s r = Some y \<Longrightarrow> ?P s r y"
      and b: "(if bondReorderWindow \<le> s - nextSeq r then case lowest r of None \<Rightarrow> Some (r\<lparr>gaps := gaps r + (s - nextSeq r), nextSeq := s\<rparr>, [])
        | Some l \<Rightarrow> (case drain (advanceTo l r) of (r1, o1) \<Rightarrow> Option.bind (mk s r1) (\<lambda>(r2, o2). Some (r2, o1 @ o2))) else Some (r, [])) = Some y"
    show "?P s r y"
    proof (cases "bondReorderWindow \<le> s - nextSeq r \<and> lowest r \<noteq> None")
      case True
      then obtain l where l: "lowest r = Some l" by auto
      obtain r1 o1 where d: "drain (advanceTo l r) = (r1, o1)" by fastforce
      then obtain r2 o2 where m: "mk s r1 = Some (r2, o2)" "y = (r2, o1 @ o2)" using b True l by (auto simp: Option.bind_eq_Some_conv)
      have "drain (advanceTo l (rmap f r)) = (rmap f r1, map f o1)" using drain_rmap [OF d] by (simp add: advanceTo_rmap)
      then show ?thesis using True l m IH [OF m(1)] by (subst makeRoom.simps) simp
    next
      case False
      then show ?thesis using b by (subst makeRoom.simps) (auto simp: rmap_updates split: if_splits)
    qed
  qed
  then show ?thesis by simp
qed

lemma storeSlot_rmap: "storeSlot s (f p) (rmap f r) = rmap f (storeSlot s p r)"
proof -
  have "Some \<lparr>sequence = s, pkt = f p\<rparr> = map_option (pmap f) (Some \<lparr>sequence = s, pkt = p\<rparr>)" by (simp add: pmap_def)
  then show ?thesis by (simp add: storeSlot_def Let_def rmap_updates(3) rmap_updates(7) [symmetric] map_update) (simp add: rmap_def map_update pmap_def)
qed

lemma restamp_rmap: "restamp now (rmap f r) = rmap f (restamp now r)"
  by (simp add: restamp_def Let_def rmap_updates)

lemma push_rmap:
  assumes "push s p now r = Some (r', out)"
  shows "push s (f p) now (rmap f r) = Some (rmap f r', map f out)"
proof (cases "s = 0 \<or> s < nextSeq r")
  case True
  then show ?thesis using assms by (auto simp: push_def rmap_updates)
next
  case False
  then obtain r1 o1 where m: "makeRoom s r = Some (r1, o1)" using assms by (auto simp: push_def split: option.splits)
  have m': "makeRoom s (rmap f r) = Some (rmap f r1, map f o1)" by (rule makeRoom_rmap [OF m])
  have dup: "(case slot_at (rmap f r1) (slot_of s) of Some old \<Rightarrow> sequence old = s | None \<Rightarrow> False) \<longleftrightarrow>
      (case slot_at r1 (slot_of s) of Some old \<Rightarrow> sequence old = s | None \<Rightarrow> False)" by (simp split: option.split)
  obtain r2 o2 where d: "drain (storeSlot s p r1) = (r2, o2)" by fastforce
  have d': "drain (storeSlot s (f p) (rmap f r1)) = (rmap f r2, map f o2)" unfolding storeSlot_rmap by (rule drain_rmap [OF d])
  show ?thesis using assms False m m' d d' dup
    by (cases "case slot_at r1 (slot_of s) of Some old \<Rightarrow> sequence old = s | None \<Rightarrow> False")
      (auto simp: push_def rmap_updates restamp_rmap simp del: slot_at_rmap)
qed

lemma flushExpired_rmap:
  assumes "flushExpired now r = (r', out)"
  shows "flushExpired now (rmap f r) = (rmap f r', map f out)"
proof (cases "buffered r = 0 \<or> (case gapSince r of None \<Rightarrow> True | Some g \<Rightarrow> now - g < holdTime r) \<or> lowest r = None")
  case True
  then show ?thesis using assms by (auto simp: flushExpired_def split: option.splits if_splits)
next
  case False
  then obtain l where l: "lowest r = Some l" by auto
  obtain r1 o1 where d: "drain (advanceTo l r) = (r1, o1)" by fastforce
  have "drain (advanceTo l (rmap f r)) = (rmap f r1, map f o1)" using drain_rmap [OF d] by (simp add: advanceTo_rmap)
  moreover have "\<not> (buffered (rmap f r) = 0 \<or> (case gapSince (rmap f r) of None \<Rightarrow> True | Some g \<Rightarrow> now - g < holdTime (rmap f r)))"
    using False by (cases "gapSince r") simp_all
  ultimately show ?thesis using assms False l d unfolding flushExpired_def by (simp only: if_False lowest_rmap l option.case prod.case) (auto simp: rmap_updates split: if_splits)
qed

section \<open>Numbers without gaps\<close>

definition laneSent :: "bool \<Rightarrow> Dispatcher \<Rightarrow> (bytes \<times> bytes) list" where
  "laneSent lane d = map snd (filter (\<lambda>x. fst x = lane) (dSent d))"

definition laneFrame :: "bool \<Rightarrow> nat \<Rightarrow> bytes \<Rightarrow> bondFrame" where
  "laneFrame lane n payload = \<lparr>bType = bondFrameData, bFlags = (if lane then bondFlagLatency else 0), bSeq = of_nat n, bPayload = payload\<rparr>"

definition numbered :: "Dispatcher \<Rightarrow> bool" where
  "numbered d \<longleftrightarrow> (\<forall>lane. seqOf lane d = of_nat (length (laneSent lane d)) \<and>
     (\<forall>i < length (laneSent lane d). client_encodeBondFrame (laneFrame lane (i + 1) (fst (laneSent lane d ! i))) = GoOk (snd (laneSent lane d ! i))))"

lemma numbered_cong:
  "bondBulkSeq d' = bondBulkSeq d \<Longrightarrow> bondLatencySeq d' = bondLatencySeq d \<Longrightarrow> dSent d' = dSent d \<Longrightarrow> numbered d' = numbered d"
  by (simp add: numbered_def seqOf_def laneSent_def)

lemma addSeq_undo [simp]: "bondBulkSeq (addSeq l (- 1) (addSeq l 1 d)) = bondBulkSeq d" "bondLatencySeq (addSeq l (- 1) (addSeq l 1 d)) = bondLatencySeq d"
  "dSent (addSeq l x d) = dSent d"
  by (simp_all add: addSeq_def)

lemma numbered_send:
  assumes "numbered d" "client_encodeBondFrame (laneFrame lane (length (laneSent lane d) + 1) p) = GoOk frame"
    "bondBulkSeq d' = bondBulkSeq (addSeq lane 1 d)" "bondLatencySeq d' = bondLatencySeq (addSeq lane 1 d)" "dSent d' = dSent d @ [(lane, p, frame)]"
  shows "numbered d'"
proof -
  have "laneSent l d' = laneSent l d @ (if l = lane then [(p, frame)] else [])" for l by (simp add: laneSent_def assms(5))
  moreover have "seqOf l d' = seqOf l d + (if l = lane then 1 else 0)" for l using assms(3,4) by (simp add: seqOf_def addSeq_def)
  ultimately show ?thesis using assms(1,2) by (auto simp: numbered_def nth_append less_Suc_eq)
qed

lemma dispatchBond_numbered:
  assumes "numbered d"
  shows "numbered (dispatchBond now p d)"
proof (cases "dWorkers d = []")
  case True
  then show ?thesis using assms by (simp add: dispatchBond_def)
next
  case False
  obtain s ws x where c: "chooseWorker now (length p) (bondSched d) (dWorkers d) = (s, ws, x)" by (metis prod_cases3)
  show ?thesis
  proof (cases x)
    case None
    then show ?thesis using assms False c numbered_cong [of "dispatchBond now p d" d] by (simp add: dispatchBond_def)
  next
    case (Some k)
    define l where "l = (length p \<le> bondSmallPacketMax)"
    define d1 where "d1 = addSeq l 1 (d\<lparr>bondSched := s, dWorkers := ws\<rparr>)"
    have "seqOf l d = of_nat (length (laneSent l d))" using assms unfolding numbered_def by blast
    then have sq: "seqOf l d1 = of_nat (length (laneSent l d) + 1)" by (simp add: d1_def seqOf_def addSeq_def split: if_splits)
    have e: "dispatchBond now p d = (case client_encodeBondFrame (laneFrame l (length (laneSent l d) + 1) p) of
           GoOk frame \<Rightarrow>
             if length (SendCh (ws ! k)) < sendCap (ws ! k) then
               d1\<lparr>dWorkers := ws[k := (ws ! k)\<lparr>SendCh := SendCh (ws ! k) @ [frame]\<rparr>], stats := sentStats l (RoomID (ws ! k)) (length p) (stats d1),
                 dSent := dSent d1 @ [(l, p, frame)]\<rparr>
             else (refundAt k (length p) (addSeq l (- 1) d1))\<lparr>stats := (stats d1)\<lparr>BondQueueDrops := BondQueueDrops (stats d1) + 1,
               BondRoomDrops := roomAdd (RoomID (ws ! k)) 1 (BondRoomDrops (stats d1))\<rparr>\<rparr>
         | _ \<Rightarrow> refundAt k (length p) (addSeq l (- 1) d1))"
      unfolding dispatchBond_def c Some laneFrame_def sq [symmetric] using False by (simp only: option.case prod.case Let_def if_False l_def [symmetric] d1_def [symmetric])
    have d1: "bondBulkSeq d1 = bondBulkSeq (addSeq l 1 d)" "bondLatencySeq d1 = bondLatencySeq (addSeq l 1 d)" "dSent d1 = dSent d"
      "bondBulkSeq (addSeq l (- 1) d1) = bondBulkSeq d" "bondLatencySeq (addSeq l (- 1) d1) = bondLatencySeq d"
      by (simp_all add: d1_def addSeq_def)
    show ?thesis
    proof (cases "\<exists>frame. client_encodeBondFrame (laneFrame l (length (laneSent l d) + 1) p) = GoOk frame \<and> length (SendCh (ws ! k)) < sendCap (ws ! k)")
      case True
      then obtain frame where fr: "client_encodeBondFrame (laneFrame l (length (laneSent l d) + 1) p) = GoOk frame" "length (SendCh (ws ! k)) < sendCap (ws ! k)" by blast
      show ?thesis by (rule numbered_send [OF assms fr(1)]) (simp_all only: e fr gores.case if_True, simp_all add: d1)
    next
      case F: False
      have "bondBulkSeq (dispatchBond now p d) = bondBulkSeq d \<and> bondLatencySeq (dispatchBond now p d) = bondLatencySeq d \<and> dSent (dispatchBond now p d) = dSent d"
        using F unfolding e by (cases "client_encodeBondFrame (laneFrame l (length (laneSent l d) + 1) p)") (simp_all add: refundAt_def d1)
      then show ?thesis using assms numbered_cong by metis
    qed
  qed
qed

section \<open>Histories of the client\<close>

inductive disp_step :: "Dispatcher \<Rightarrow> Dispatcher \<Rightarrow> bool" where
  read: "disp_step d (readPacket now p d)"
| takes: "disp_step d (workerTakes k d)"
| register: "disp_step d (fst (Register now w d))"
| unregister: "disp_step d (fst (Unregister key d))"
| notify: "disp_step d (notifyWorkerCount g c d)"
| returned: "disp_step d (returnPacket wr now p d)"
| tick: "disp_step d (reorderTick wr now d)"

inductive disp_reach :: "Dispatcher \<Rightarrow> bool" where
  start: "disp_reach (NewDispatcherWithOptions v2 rate)"
| step: "disp_reach d \<Longrightarrow> disp_step d d' \<Longrightarrow> disp_reach d'"

definition upKept :: "Dispatcher \<Rightarrow> Dispatcher \<Rightarrow> bool" where
  "upKept d d' \<longleftrightarrow> bondBulkSeq d' = bondBulkSeq d \<and> bondLatencySeq d' = bondLatencySeq d \<and> dSent d' = dSent d"

lemma fold_write_kept: "upKept d (fold (writeWGPacket wr) ps d)"
  by (induction ps arbitrary: d) (auto simp: upKept_def writeWGPacket_def)

lemma return_kept: "upKept d (handleBondReturn wr now p d)"
proof -
  have l: "upKept d (fold (writeWGPacket wr) ps (d\<lparr>stats := st, bondLatencyReorder := r\<rparr>))" and b: "upKept d (fold (writeWGPacket wr) ps (d\<lparr>stats := st, bondBulkReorder := r\<rparr>))" for ps st r
    using fold_write_kept [of "d\<lparr>stats := st, bondLatencyReorder := r\<rparr>" wr ps] fold_write_kept [of "d\<lparr>stats := st, bondBulkReorder := r\<rparr>" wr ps] by (simp_all add: upKept_def)
  have s: "upKept d d" "upKept d (d\<lparr>stats := st\<rparr>)" for st by (simp_all add: upKept_def)
  show ?thesis unfolding handleBondReturn_def Let_def by (auto simp: l b s split: gores.split prod.split)
qed

lemma returnPacket_kept: "upKept d (returnPacket wr now p d)"
  using return_kept fold_write_kept [of d wr "[p]"] by (simp add: returnPacket_def)

lemma legacyLoop_kept: "upKept d (fst (legacyLoop now p is d))"
proof (induction "is" arbitrary: d)
  case (Cons i "is")
  show ?case using Cons.IH Cons.IH [of "d\<lparr>dWorkers := ws\<rparr>" for ws] by (auto simp: Let_def upKept_def split: prod.split)
qed (simp add: upKept_def)

lemma dispatchLegacy_kept: "upKept d (dispatchLegacy now p d)"
proof -
  have "upKept d (case legacyLoop now p js d of (d, True) \<Rightarrow> d | (d, False) \<Rightarrow> f d)" if "\<And>d. upKept d (f d)" for js f
    using legacyLoop_kept [of d now p js] that by (auto simp: upKept_def split: prod.split bool.split)
  then show ?thesis by (simp add: dispatchLegacy_def Let_def upKept_def)
qed

lemma upKept_numbered: "upKept d d' \<Longrightarrow> numbered d \<Longrightarrow> numbered d'"
  unfolding upKept_def using numbered_cong [of d' d] by blast

lemma tick_kept: "upKept d (reorderTick wr now d)"
proof -
  obtain b r1 l r2 where c: "client_flushExpired now (bondBulkReorder d) = (b, r1)" "client_flushExpired now (bondLatencyReorder d) = (l, r2)" by fastforce
  show ?thesis using fold_write_kept [of "d\<lparr>bondBulkReorder := b, bondLatencyReorder := l\<rparr>" wr "r1 @ r2"] by (simp add: reorderTick_def c upKept_def)
qed

lemma disp_step_numbered: "disp_step d d' \<Longrightarrow> numbered d \<Longrightarrow> numbered d'"
proof (induction rule: disp_step.induct)
  case (read d now p)
  let ?d = "d\<lparr>clientKnown := True, stats := (stats d)\<lparr>TotalBytesUp := TotalBytesUp (stats d) + int (length p)\<rparr>\<rparr>"
  have "numbered ?d" by (rule upKept_numbered [OF _ read]) (simp add: upKept_def)
  then show ?case by (simp add: readPacket_def Let_def dispatchBond_numbered upKept_numbered [OF dispatchLegacy_kept])
next
  case (takes d k) then show ?case by (rule upKept_numbered [rotated]) (simp add: upKept_def workerTakes_def)
next
  case (register d now w) then show ?case by (rule upKept_numbered [rotated]) (simp add: upKept_def Register_def Let_def)
next
  case (unregister d key) then show ?case by (rule upKept_numbered [rotated]) (simp add: upKept_def Unregister_def Let_def split: option.split)
next
  case (notify d g c) then show ?case by (rule upKept_numbered [rotated]) (simp add: upKept_def notifyWorkerCount_def)
next
  case (returned d wr now p) then show ?case by (rule upKept_numbered [OF returnPacket_kept])
next
  case (tick d wr now) then show ?case by (rule upKept_numbered [OF tick_kept])
qed

lemma disp_reach_numbered: "disp_reach d \<Longrightarrow> numbered d"
proof (induction rule: disp_reach.induct)
  case (start v2 rate) then show ?case by (simp add: numbered_def NewDispatcherWithOptions_def laneSent_def seqOf_def Let_def)
next
  case (step d d') then show ?case using disp_step_numbered by blast
qed

section \<open>The rate of a worker\<close>

text \<open>Requests \<open>(now, size, latency)\<close> made of one bucket in turn; the second result is the number of bytes it admitted.\<close>

primrec admitAll :: "(nanos \<times> nat \<times> bool) list \<Rightarrow> workerTokenBucket \<Rightarrow> workerTokenBucket \<times> nat" where
  "admitAll [] b = (b, 0)"
| "admitAll (r # rs) b = (case admit (fst r) (fst (snd r)) (snd (snd r)) b of (b, ok) \<Rightarrow>
     case admitAll rs b of (b, n) \<Rightarrow> (b, (if ok then fst (snd r) else 0) + n))"

definition earned :: "workerTokenBucket \<Rightarrow> nanos \<Rightarrow> rat" where
  "earned b now = of_int (now - lastRefill b) / of_int second * rateBytesPerSecond b"

lemma admit_spends:
  assumes "admit now sz latency b = (b', ok)" "lastRefill b \<le> now" "rateBytesPerSecond b \<ge> 0"
  shows "rateBytesPerSecond b' = rateBytesPerSecond b \<and> lastRefill b' = now \<and> of_nat (if ok then sz else 0) + tokens b' \<le> tokens b + earned b now \<and>
    (ok \<and> \<not> latency \<longrightarrow> tokens b' \<ge> 0)"
  using assms by (auto simp: admit_def refill_def Let_def earned_def second_def min_def split: if_splits)

lemma earned_split: "rateBytesPerSecond b' = rateBytesPerSecond b \<Longrightarrow> earned b (lastRefill b') + earned b' t = earned b t"
  by (simp add: earned_def ring_distribs(1) [symmetric] add_divide_distrib [symmetric] flip: distrib_right)

lemma admitAll_spends:
  assumes "admitAll rs b = (b', n)" "sorted (lastRefill b # map fst rs)" "rateBytesPerSecond b \<ge> 0"
  shows "rateBytesPerSecond b' = rateBytesPerSecond b \<and> lastRefill b' = (if rs = [] then lastRefill b else fst (last rs)) \<and>
    of_nat n + tokens b' \<le> tokens b + earned b (lastRefill b')"
  using assms
proof (induction rs arbitrary: b b' n)
  case Nil
  then show ?case by (simp add: earned_def)
next
  case (Cons r rs)
  obtain b1 ok where a: "admit (fst r) (fst (snd r)) (snd (snd r)) b = (b1, ok)" by fastforce
  obtain m where m: "admitAll rs b1 = (b', m)" "n = (if ok then fst (snd r) else 0) + m" using Cons.prems(1) a by (auto split: prod.splits)
  have s: "rateBytesPerSecond b1 = rateBytesPerSecond b" "lastRefill b1 = fst r" "of_nat (if ok then fst (snd r) else 0) + tokens b1 \<le> tokens b + earned b (fst r)"
    using admit_spends [OF a _ Cons.prems(3)] Cons.prems(2) by auto
  have "sorted (lastRefill b1 # map fst rs)" using Cons.prems(2) s(2) by simp
  then have i: "rateBytesPerSecond b' = rateBytesPerSecond b1" "lastRefill b' = (if rs = [] then lastRefill b1 else fst (last rs))" "of_nat m + tokens b' \<le> tokens b1 + earned b1 (lastRefill b')"
    using Cons.IH [OF m(1)] Cons.prems(3) s(1) by auto
  have "earned b (fst r) + earned b1 (lastRefill b') = earned b (lastRefill b')" using earned_split [OF s(1), of "lastRefill b'"] s(2) by simp
  then have "of_nat n + tokens b' \<le> tokens b + earned b (lastRefill b')" using i(3) s(3) m(2) by simp
  then show ?case using i s by auto
qed

lemma admitAll_append:
  "admitAll (rs @ qs) b = (case admitAll rs b of (b, n) \<Rightarrow> case admitAll qs b of (b, m) \<Rightarrow> (b, n + m))"
  by (induction rs arbitrary: b) (auto split: prod.split)

text \<open>The shaper bounds a worker's rate: on a clock that does not go back, the bytes a bucket has admitted up to and
  including a large packet that it admits are at most the burst and what the rate gives for the time since the worker
  registered. Small packets always pass, and are paid for by the large ones.\<close>

lemma shaper_rate_bound:
  assumes "sorted (t0 # map fst rs @ [t])" "admitAll rs (newWorkerTokenBucket rate t0) = (b, n)" "admit t sz False b = (b', True)"
  shows "of_nat (n + sz) \<le> workerBurstBytes + of_int (t - t0) / of_int second * of_int (if rate \<le> 0 then DefaultWorkerRateBPS else rate)"
proof -
  let ?b = "newWorkerTokenBucket rate t0"
  have b: "lastRefill ?b = t0" "rateBytesPerSecond ?b = of_int (if rate \<le> 0 then DefaultWorkerRateBPS else rate)" "tokens ?b = workerBurstBytes" "rateBytesPerSecond ?b \<ge> 0"
    by (simp_all add: newWorkerTokenBucket_def DefaultWorkerRateBPS_def)
  have r: "rateBytesPerSecond b = rateBytesPerSecond ?b" "lastRefill b = (if rs = [] then t0 else fst (last rs))" "of_nat n + tokens b \<le> tokens ?b + earned ?b (lastRefill b)"
    using admitAll_spends [OF assms(2) _ b(4)] assms(1) b(1) by (auto simp: sorted_append)
  have "lastRefill b \<le> t" using assms(1) r(2) by (auto simp: sorted_append)
  then have "of_nat sz + tokens b' \<le> tokens b + earned b t" "tokens b' \<ge> 0" using admit_spends [OF assms(3)] r(1) b(4) by auto
  moreover have "earned ?b (lastRefill b) + earned b t = earned ?b t" using earned_split r(1) by blast
  ultimately have "of_nat (n + sz) \<le> tokens ?b + earned ?b t" using r(3) by simp
  then show ?thesis by (simp add: earned_def b)
qed

lemma shaper_rate_bound_witness:
  "(of_nat (200 + 1200) :: rat) \<le> workerBurstBytes + of_int (10 - 3) / of_int second * of_int DefaultWorkerRateBPS"
proof -
  have "snd (admitAll [(4, 200, True)] (newWorkerTokenBucket 0 3)) = 200" 
    by (simp add: admit_def refill_def Let_def newWorkerTokenBucket_def workerBurstBytes_def DefaultWorkerRateBPS_def second_def min_def)
  moreover have "snd (admit 10 1200 False (fst (admitAll [(4, 200, True)] (newWorkerTokenBucket 0 3))))" 
    by (simp add: admit_def refill_def Let_def newWorkerTokenBucket_def workerBurstBytes_def DefaultWorkerRateBPS_def second_def min_def)
  ultimately show ?thesis
    using shaper_rate_bound [of 3 "[(4, 200, True)]" 10 0 "fst (admitAll [(4, 200, True)] (newWorkerTokenBucket 0 3))" 200 1200
      "fst (admit 10 1200 False (fst (admitAll [(4, 200, True)] (newWorkerTokenBucket 0 3))))"]
    by (auto simp: prod_eq_iff)
qed

end
