(* ===== verification/BondLink.thy ===== *)
theory BondLink
  imports BondDispatch
begin

text \<open>
  A bond from end to end: the client of \<open>BondDispatch\<close>, the server of \<open>BondWorkers\<close> and a network between them that
  loses, delays, duplicates and reorders datagrams. Both ends release what they receive through the reorder buffers
  of \<open>BondReorder\<close>, one per lane.
\<close>

section \<open>Lanes\<close>

text \<open>The lane of a packet is given by its length; \<open>True\<close> is the lane for small packets.\<close>

definition inLane :: "bool \<Rightarrow> bytes \<Rightarrow> bool" where
  "inLane lane p = ((length p \<le> bondSmallPacketMax) = lane)"

text \<open>The packets of a lane under their numbers, from 1.\<close>

definition numberFrom1 :: "bytes list \<Rightarrow> (64 word \<times> bytes) list" where
  "numberFrom1 xs = map (\<lambda>i. (of_nat (i + 1), xs ! i)) [0..<length xs]"

lemma run_reorder_append:
  "run_reorder psh fl (xs @ ys) s = (case run_reorder psh fl xs s of None \<Rightarrow> None
     | Some (s', out) \<Rightarrow> map_option (\<lambda>(s'', out'). (s'', out @ out')) (run_reorder psh fl ys s'))"
proof (induction xs arbitrary: s)
  case Nil
  then show ?case by (simp add: map_option.compositionality comp_def) (simp add: map_option_case split: option.split)
next
  case (Cons x xs)
  show ?case
  proof (cases "case x of Push p now \<Rightarrow> psh p now s | Flush now \<Rightarrow> Some (fl now s)")
    case (Some y)
    obtain s1 o1 where y: "y = (s1, o1)" by fastforce
    have st: "run_reorder psh fl (x # zs) s = map_option (\<lambda>(s'', out'). (s'', o1 @ out')) (run_reorder psh fl zs s1)" for zs using Some y by simp
    show ?thesis unfolding append_Cons st Cons.IH
      by (cases "run_reorder psh fl xs s1") (auto simp: option.map_comp comp_def case_prod_beta intro: option.map_cong)
  qed simp
qed

lemma strict_sorted_subseq:
  assumes "sorted_wrt (<) (map (\<lambda>p. unat (fst p)) out)" "set out \<subseteq> set xs" "sorted_wrt (<) (map (\<lambda>p. unat (fst (p :: 64 word \<times> 'a))) xs)"
  shows "subseq out xs"
  using assms
proof (induction xs arbitrary: out)
  case (Cons x xs)
  show ?case
  proof (cases out)
    case out: (Cons y ys)
    have ys: "\<forall>z \<in> set ys. unat (fst y) < unat (fst z)" using Cons.prems(1) out by simp
    have xs: "\<forall>z \<in> set xs. unat (fst x) < unat (fst z)" using Cons.prems(3) by simp
    show ?thesis
    proof (cases "y = x")
      case True
      then have "set ys \<subseteq> set xs" using Cons.prems(2) out ys by fastforce
      then show ?thesis using Cons.IH [of ys] Cons.prems out True by simp
    next
      case False
      then have "y \<in> set xs" using Cons.prems(2) out by simp
      then have "unat (fst x) < unat (fst z)" if "z \<in> set out" for z using that xs ys out by force
      then have "x \<notin> set out" by blast
      then have "set out \<subseteq> set xs" using Cons.prems(2) by auto
      then show ?thesis using Cons.IH [of out] Cons.prems by auto
    qed
  qed simp
qed simp

lemma unat_small: "n < 2 ^ 64 \<Longrightarrow> unat (of_nat n :: 64 word) = n"
  by (simp add: unat_of_nat take_bit_nat_eq_self)

lemma numberFrom1_snd: "map snd (numberFrom1 xs) = xs"
  by (rule nth_equalityI) (simp_all add: numberFrom1_def)

lemma numberFrom1_sorted:
  assumes "length xs < 2 ^ 64 - 1"
  shows "sorted_wrt (<) (map (\<lambda>p. unat (fst p)) (numberFrom1 xs))"
proof -
  have "map (\<lambda>p. unat (fst p)) (numberFrom1 xs) = map (\<lambda>i. i + 1) [0..<length xs]"
    using assms by (auto simp: numberFrom1_def simp del: of_nat_Suc of_nat_add intro!: unat_small)
  then show ?thesis by (simp add: sorted_wrt_map)
qed

lemma numberFrom1_mem: "i < length xs \<Longrightarrow> (of_nat (i + 1), xs ! i) \<in> set (numberFrom1 xs)"
  by (auto simp: numberFrom1_def image_iff intro!: bexI [of _ i])

lemma number_not_top:
  assumes "i < length xs" "length xs < 2 ^ 64 - 1"
  shows "(of_nat (i + 1) :: 64 word) \<noteq> - 1"
proof
  assume "(of_nat (i + 1) :: 64 word) = - 1"
  then have "unat (of_nat (i + 1) :: 64 word) = unat (- 1 :: 64 word)" by (rule arg_cong)
  then have "i + 1 = 2 ^ 64 - 1" using assms unat_small [of "i + 1"] by (simp add: unsigned_minus_1_eq_mask mask_eq_exp_minus_1)
  then show False using assms by simp
qed

lemma numberFrom1_prefix: "set (numberFrom1 xs) \<subseteq> set (numberFrom1 (xs @ ys))"
  by (auto simp: numberFrom1_def nth_append image_iff)

text \<open>\<open>b\<close> is a buffer of bare payloads that was given numbered payloads of \<open>S\<close> only, and has released \<open>ps\<close>: it is
  the image of a buffer that carries the numbers along.\<close>

definition delivers :: "(64 word \<times> bytes \<Rightarrow> nanos \<Rightarrow> 's \<Rightarrow> ('s \<times> (64 word \<times> bytes) list) option) \<Rightarrow> (nanos \<Rightarrow> 's \<Rightarrow> 's \<times> (64 word \<times> bytes) list) \<Rightarrow>
    's \<Rightarrow> ('s \<Rightarrow> 'b) \<Rightarrow> (64 word \<times> bytes) set \<Rightarrow> 'b \<Rightarrow> bytes list \<Rightarrow> bool" where
  "delivers psh fl init bare S b ps \<longleftrightarrow> (\<exists>ops r out. run_reorder psh fl ops init = Some (r, out) \<and> no_wrap fst ops \<and> pushed ops \<subseteq> S \<and>
     b = bare r \<and> ps = map snd out)"

text \<open>What was released towards WireGuard, with the lane it came from; some of it may have been dropped after that.\<close>

definition released :: "bool \<Rightarrow> (bool \<times> bytes) list \<Rightarrow> bytes list" where
  "released lane out = map snd (filter (\<lambda>x. fst x = lane) out)"

text \<open>Of the packets \<open>xs\<close> given to one end, the other end, whose buffers are \<open>lanes\<close>, has passed on \<open>ys\<close>.\<close>

definition carries :: "((64 word \<times> bytes) set \<Rightarrow> 'b \<Rightarrow> bytes list \<Rightarrow> bool) \<Rightarrow> bytes list \<Rightarrow> (bool \<Rightarrow> 'b) \<Rightarrow> bytes list \<Rightarrow> bool" where
  "carries D xs lanes ys \<longleftrightarrow> (\<exists>out. subseq ys (map snd out) \<and> (\<forall>lane. D (set (numberFrom1 (filter (inLane lane) xs))) (lanes lane) (released lane out)))"

lemma released_app: "released l (xs @ ys) = released l xs @ released l ys" "released l (map (Pair m) zs) = (if l = m then zs else [])"
  by (simp_all add: released_def filter_map comp_def)

lemma filter_lane: "(\<And>l. \<forall>p \<in> set (released l out). inLane l p) \<Longrightarrow> filter (inLane lane) (map snd out) = released lane out"
proof (induction out)
  case (Cons x out)
  have "inLane (fst x) (snd x)" using Cons.prems [of "fst x"] by (simp add: released_def)
  then have "inLane lane (snd x) \<longleftrightarrow> fst x = lane" by (auto simp: inLane_def)
  moreover have "filter (inLane lane) (map snd out) = released lane out"
    by (rule Cons.IH) (use Cons.prems in \<open>auto simp: released_def\<close>)
  ultimately show ?case by (auto simp: released_def)
qed (simp add: released_def)

lemma subseq_set: "subseq xs ys \<Longrightarrow> set xs \<subseteq> set ys"
  by (induction rule: list_emb.induct) auto

lemma numberFrom1_not_top: "(n, p) \<in> set (numberFrom1 xs) \<Longrightarrow> length xs < 2 ^ 64 - 1 \<Longrightarrow> n \<noteq> - 1"
  using number_not_top by (fastforce simp: numberFrom1_def)

locale lane_buffer = reorder_buffer init psh fl fst nx held inv
  for init :: 's and psh :: "64 word \<times> bytes \<Rightarrow> nanos \<Rightarrow> 's \<Rightarrow> ('s \<times> (64 word \<times> bytes) list) option" and fl nx held inv +
  fixes bare :: "'s \<Rightarrow> 'b" and bpsh :: "64 word \<Rightarrow> bytes \<Rightarrow> nanos \<Rightarrow> 'b \<Rightarrow> ('b \<times> bytes list) option" and bfl :: "nanos \<Rightarrow> 'b \<Rightarrow> 'b \<times> bytes list"
  assumes bare_push: "psh (n, p) now r = Some (r', out) \<Longrightarrow> bpsh n p now (bare r) = Some (bare r', map snd out)"
    and bare_flush: "fl now r = (r', out) \<Longrightarrow> bfl now (bare r) = (bare r', map snd out)"
begin

lemma delivers_init: "delivers psh fl init bare S (bare init) []"
  unfolding delivers_def by (rule exI [of _ "[]"]) (simp add: no_wrap_def pushed_def)

lemma delivers_more: "delivers psh fl init bare S b ps \<Longrightarrow> S \<subseteq> S' \<Longrightarrow> delivers psh fl init bare S' b ps"
  unfolding delivers_def by blast

lemma delivers_push:
  assumes "delivers psh fl init bare S b ps" "(n, p) \<in> S" "n \<noteq> - 1"
  shows "\<exists>b' out. bpsh n p now b = Some (b', out) \<and> delivers psh fl init bare S b' (ps @ out)"
proof -
  obtain ops r out where r: "run_reorder psh fl ops init = Some (r, out)" "no_wrap fst ops" "pushed ops \<subseteq> S" "b = bare r" "ps = map snd out"
    using assms(1) unfolding delivers_def by blast
  have "inv r" using run_ok [OF init(1) r(2)] r(1) by auto
  then obtain r' o' where p: "psh (n, p) now r = Some (r', o')" using push_total [of r "(n, p)" now] assms(3) by auto
  have "run_reorder psh fl (ops @ [Push (n, p) now]) init = Some (r', out @ o')" using r(1) p by (simp add: run_reorder_append)
  moreover have "no_wrap fst (ops @ [Push (n, p) now])" "pushed (ops @ [Push (n, p) now]) \<subseteq> S"
    using r(2,3) assms(2,3) by (auto simp: no_wrap_def pushed_def)
  ultimately have "delivers psh fl init bare S (bare r') (ps @ map snd o')" unfolding delivers_def using r(5) by (metis map_append)
  then show ?thesis using bare_push [OF p] r(4) by blast
qed

lemma delivers_flush:
  assumes "delivers psh fl init bare S b ps" "bfl now b = (b', out)"
  shows "delivers psh fl init bare S b' (ps @ out)"
proof -
  obtain ops r o1 where r: "run_reorder psh fl ops init = Some (r, o1)" "no_wrap fst ops" "pushed ops \<subseteq> S" "b = bare r" "ps = map snd o1"
    using assms(1) unfolding delivers_def by blast
  obtain r' o2 where f: "fl now r = (r', o2)" by fastforce
  have "run_reorder psh fl (ops @ [Flush now]) init = Some (r', o1 @ o2)" using r(1) f by (simp add: run_reorder_append)
  moreover have "no_wrap fst (ops @ [Flush now])" "pushed (ops @ [Flush now]) \<subseteq> S" using r(2,3) by (auto simp: no_wrap_def pushed_def)
  moreover have "b' = bare r'" "out = map snd o2" using bare_flush [OF f] assms(2) r(4) by simp_all
  ultimately show ?thesis unfolding delivers_def using r(5) by (metis map_append)
qed

lemma delivers_subseq:
  assumes "delivers psh fl init bare (set (numberFrom1 xs)) b ps" "length xs < 2 ^ 64 - 1"
  shows "subseq ps xs"
proof -
  obtain ops r out where r: "run_reorder psh fl ops init = Some (r, out)" "no_wrap fst ops" "pushed ops \<subseteq> set (numberFrom1 xs)" "ps = map snd out"
    using assms(1) unfolding delivers_def by blast
  have "sorted_wrt (<) (map (\<lambda>p. unat (fst p)) out)" "set out \<subseteq> pushed ops" using run_ok [OF init(1) r(2)] r(1) init(3) by auto
  then have "subseq out (numberFrom1 xs)" using strict_sorted_subseq numberFrom1_sorted [OF assms(2)] r(3) by blast
  then have "subseq (map snd out) (map snd (numberFrom1 xs))" by (rule subseq_map)
  then show ?thesis using r(4) by (simp add: numberFrom1_snd)
qed

lemma carries_init: "carries (delivers psh fl init bare) [] (\<lambda>_. bare init) []"
  unfolding carries_def using delivers_init by (intro exI [of _ "[]"]) (simp add: released_def)

lemma carries_more:
  assumes "carries (delivers psh fl init bare) xs lanes ys"
  shows "carries (delivers psh fl init bare) (xs @ zs) lanes ys"
proof -
  have "set (numberFrom1 (filter (inLane l) xs)) \<subseteq> set (numberFrom1 (filter (inLane l) (xs @ zs)))" for l
    using numberFrom1_prefix by simp
  then show ?thesis using assms delivers_more unfolding carries_def by meson
qed

lemma carries_push:
  assumes "carries (delivers psh fl init bare) xs lanes ys" "(n, p) \<in> set (numberFrom1 (filter (inLane l) xs))" "length xs < 2 ^ 64 - 1"
  shows "\<exists>b' out. bpsh n p now (lanes l) = Some (b', out) \<and> (\<forall>k. subseq k out \<longrightarrow> carries (delivers psh fl init bare) xs (lanes(l := b')) (ys @ k))"
proof -
  obtain o1 where o1: "subseq ys (map snd o1)" "\<And>lane. delivers psh fl init bare (set (numberFrom1 (filter (inLane lane) xs))) (lanes lane) (released lane o1)"
    using assms(1) unfolding carries_def by blast
  have "n \<noteq> - 1" using assms(2) numberFrom1_not_top [of n p "filter (inLane l) xs"] assms(3) length_filter_le [of "inLane l" xs] by linarith
  then obtain b' out where b': "bpsh n p now (lanes l) = Some (b', out)" "delivers psh fl init bare (set (numberFrom1 (filter (inLane l) xs))) b' (released l o1 @ out)"
    using delivers_push [OF o1(2) assms(2)] by blast
  have "carries (delivers psh fl init bare) xs (lanes(l := b')) (ys @ k)" if "subseq k out" for k
    unfolding carries_def
  proof (intro exI [of _ "o1 @ map (Pair l) out"] conjI allI)
    show "subseq (ys @ k) (map snd (o1 @ map (Pair l) out))" using o1(1) that by (simp add: comp_def list_emb_append_mono)
    show "delivers psh fl init bare (set (numberFrom1 (filter (inLane lane) xs))) ((lanes(l := b')) lane) (released lane (o1 @ map (Pair l) out))" for lane
      using o1(2) [of lane] b'(2) by (auto simp: released_app)
  qed
  then show ?thesis using b'(1) by blast
qed

lemma carries_flush:
  assumes "carries (delivers psh fl init bare) xs lanes ys" "bfl now (lanes False) = (b0, o0)" "bfl now (lanes True) = (b1, o1)" "subseq k (o0 @ o1)"
  shows "carries (delivers psh fl init bare) xs (\<lambda>l. if l then b1 else b0) (ys @ k)"
proof -
  obtain o' where o': "subseq ys (map snd o')" "\<And>lane. delivers psh fl init bare (set (numberFrom1 (filter (inLane lane) xs))) (lanes lane) (released lane o')"
    using assms(1) unfolding carries_def by blast
  show ?thesis unfolding carries_def
  proof (intro exI [of _ "o' @ map (Pair False) o0 @ map (Pair True) o1"] conjI allI)
    show "subseq (ys @ k) (map snd (o' @ map (Pair False) o0 @ map (Pair True) o1))" using o'(1) assms(4) by (simp add: comp_def list_emb_append_mono)
    show "delivers psh fl init bare (set (numberFrom1 (filter (inLane lane) xs))) (if lane then b1 else b0) (released lane (o' @ map (Pair False) o0 @ map (Pair True) o1))" for lane
      using delivers_flush [OF o'(2) assms(2)] delivers_flush [OF o'(2) assms(3)] by (cases lane) (simp_all add: released_app)
  qed
qed

lemma carries_in_order:
  assumes "carries (delivers psh fl init bare) xs lanes ys" "length xs < 2 ^ 64 - 1"
  shows "subseq (filter (inLane lane) ys) (filter (inLane lane) xs)"
proof -
  obtain out where o: "subseq ys (map snd out)" "\<And>lane. delivers psh fl init bare (set (numberFrom1 (filter (inLane lane) xs))) (lanes lane) (released lane out)"
    using assms(1) unfolding carries_def by blast
  have s: "subseq (released l out) (filter (inLane l) xs)" for l
    using delivers_subseq [OF o(2) [of l]] assms(2) length_filter_le [of "inLane l" xs] by linarith
  then have "\<forall>p \<in> set (released l out). inLane l p" for l using subseq_set [OF s [of l]] by auto
  then have "filter (inLane lane) (map snd out) = released lane out" by (rule filter_lane)
  then show ?thesis using subseq_filter [OF o(1), of "inLane lane"] s [of lane] subseq_order.trans by metis
qed

end

text \<open>The client's buffer does not look into payloads either.\<close>

definition bmap :: "('a \<Rightarrow> 'b) \<Rightarrow> 'a bondReorderBuffer \<Rightarrow> 'b bondReorderBuffer" where
  "bmap f r = \<lparr>expect = expect r, rbuf = map (\<lambda>e. (fst e, f (snd e))) (rbuf r), first = first r, BondReorderLate = BondReorderLate r,
     BondReorderDuplicates = BondReorderDuplicates r, BondReorderGaps = BondReorderGaps r\<rparr>"

lemma bmap_fields [simp]: "expect (bmap f r) = expect r" "first (bmap f r) = first r" "rbuf (bmap f r) = map (\<lambda>e. (fst e, f (snd e))) (rbuf r)"
  "BondReorderLate (bmap f r) = BondReorderLate r" "BondReorderDuplicates (bmap f r) = BondReorderDuplicates r" "BondReorderGaps (bmap f r) = BondReorderGaps r"
  by (simp_all add: bmap_def)

lemma bmap_eqI: "expect r' = expect r \<Longrightarrow> first r' = first r \<Longrightarrow> rbuf r' = map (\<lambda>e. (fst e, f (snd e))) (rbuf r) \<Longrightarrow>
   BondReorderLate r' = BondReorderLate r \<Longrightarrow> BondReorderDuplicates r' = BondReorderDuplicates r \<Longrightarrow> BondReorderGaps r' = BondReorderGaps r \<Longrightarrow> r' = bmap f r"
  by (cases r') (simp add: bmap_def)

lemma amap_of: "map_of (map (\<lambda>e. (fst e, f (snd e))) xs) k = map_option f (map_of xs k)"
  by (induction xs) auto

lemma amap_delete: "AList.delete k (map (\<lambda>e. (fst e, f (snd e))) xs) = map (\<lambda>e. (fst e, f (snd e))) (AList.delete k xs)"
  by (induction xs) (auto simp: AList.delete_eq)

lemma amap_update: "AList.update k (f v) (map (\<lambda>e. (fst e, f (snd e))) xs) = map (\<lambda>e. (fst e, f (snd e))) (AList.update k v xs)"
  by (induction xs) auto

lemma drainContiguous_bmap: "drainContiguous r = (r', out) \<Longrightarrow> drainContiguous (bmap f r) = (bmap f r', map f out)"
proof (induction r arbitrary: r' out rule: drainContiguous.induct)
  case (1 r)
  show ?case
  proof (cases "map_of (rbuf r) (expect r)")
    case None
    then have "drainContiguous r = (r, [])" by (subst drainContiguous.simps) simp
    moreover have "drainContiguous (bmap f r) = (bmap f r, [])" using None by (subst drainContiguous.simps) (simp add: amap_of)
    ultimately show ?thesis using "1.prems" by simp
  next
    case (Some p)
    obtain r1 o1 where d: "drainContiguous (r\<lparr>rbuf := AList.delete (expect r) (rbuf r), expect := expect r + 1\<rparr>) = (r1, o1)" by fastforce
    have o: "r' = r1" "out = p # o1" using "1.prems" Some d by (subst (asm) drainContiguous.simps; simp)+
    have "(bmap f r)\<lparr>rbuf := AList.delete (expect r) (rbuf (bmap f r)), expect := expect r + 1\<rparr> = bmap f (r\<lparr>rbuf := AList.delete (expect r) (rbuf r), expect := expect r + 1\<rparr>)"
      by (rule bmap_eqI) (simp_all add: amap_delete)
    then show ?thesis using "1.IH" [OF Some d] o Some by (subst drainContiguous.simps) (simp add: amap_of)
  qed
qed

lemma pushExpected_bmap:
  assumes "pushExpected p r = (r', out)"
  shows "pushExpected (f p) (bmap f r) = (bmap f r', map f out)"
proof -
  obtain r1 o1 where d: "drainContiguous (r\<lparr>expect := expect r + 1\<rparr>) = (r1, o1)" by fastforce
  have u: "(bmap f r)\<lparr>expect := expect r + 1\<rparr> = bmap f (r\<lparr>expect := expect r + 1\<rparr>)" by (rule bmap_eqI) simp_all
  have "drainContiguous ((bmap f r)\<lparr>expect := expect (bmap f r) + 1\<rparr>) = (bmap f r1, map f o1)" unfolding bmap_fields u by (rule drainContiguous_bmap [OF d])
  moreover have "(bmap f r1)\<lparr>first := None\<rparr> = bmap f (r1\<lparr>first := None\<rparr>)" by (rule bmap_eqI) simp_all
  ultimately show ?thesis using assms d by (auto simp: pushExpected_def)
qed

lemma client_push_bmap:
  assumes "client_push s p now r = (r', out)"
  shows "client_push s (f p) now (bmap f r) = (bmap f r', map f out)"
proof -
  have u: "(bmap f r)\<lparr>BondReorderLate := BondReorderLate r + 1\<rparr> = bmap f (r\<lparr>BondReorderLate := BondReorderLate r + 1\<rparr>)"
    "(bmap f r)\<lparr>BondReorderDuplicates := BondReorderDuplicates r + 1\<rparr> = bmap f (r\<lparr>BondReorderDuplicates := BondReorderDuplicates r + 1\<rparr>)"
    "(bmap f r)\<lparr>BondReorderGaps := BondReorderGaps r + 1, expect := s, rbuf := [], first := None\<rparr> = bmap f (r\<lparr>BondReorderGaps := BondReorderGaps r + 1, expect := s, rbuf := [], first := None\<rparr>)"
    "(bmap f r)\<lparr>rbuf := map (\<lambda>e. (fst e, f (snd e))) (AList.update s p (rbuf r)), first := g\<rparr> = bmap f (r\<lparr>rbuf := AList.update s p (rbuf r), first := g\<rparr>)" for g
    by (rule bmap_eqI; simp)+
  consider "s = 0 \<or> s < expect r" | "\<not> (s = 0 \<or> s < expect r)" "s = expect r" | "\<not> (s = 0 \<or> s < expect r)" "s \<noteq> expect r" "map_of (rbuf r) s \<noteq> None"
    | "\<not> (s = 0 \<or> s < expect r)" "s \<noteq> expect r" "map_of (rbuf r) s = None" "s - expect r \<ge> bondReorderWindow"
    | "\<not> (s = 0 \<or> s < expect r)" "s \<noteq> expect r" "map_of (rbuf r) s = None" "\<not> s - expect r \<ge> bondReorderWindow" by blast
  then show ?thesis
  proof cases
    case 1 then show ?thesis using assms u(1) by (auto simp: client_push_def)
  next
    case 2 then show ?thesis using assms pushExpected_bmap by (simp add: client_push_def)
  next
    case 3 then show ?thesis using assms u(2) by (auto simp: client_push_def amap_of)
  next
    case 4
    then have "pushExpected p (r\<lparr>BondReorderGaps := BondReorderGaps r + 1, expect := s, rbuf := [], first := None\<rparr>) = (r', out)"
      using assms by (simp add: client_push_def)
    then have "pushExpected (f p) ((bmap f r)\<lparr>BondReorderGaps := BondReorderGaps r + 1, expect := s, rbuf := [], first := None\<rparr>) = (bmap f r', map f out)"
      unfolding u(3) by (rule pushExpected_bmap)
    then show ?thesis using 4 by (simp add: client_push_def amap_of)
  next
    case 5 then show ?thesis using assms u(4) by (auto simp: client_push_def amap_of amap_update)
  qed
qed

lemma client_lowest_bmap [simp]: "client_lowest (bmap f r) = client_lowest r"
proof -
  have "fold (\<lambda>e l. if l = 0 \<or> fst e < l then fst e else l) (map (\<lambda>e. (fst e, f (snd e))) xs) l0 = fold (\<lambda>e l. if l = 0 \<or> fst e < l then fst e else l) xs l0" for xs and l0 :: "64 word"
    by (induction xs arbitrary: l0) auto
  then show ?thesis by (simp add: client_lowest_def)
qed

lemma client_flushExpired_bmap:
  assumes "client_flushExpired now r = (r', out)"
  shows "client_flushExpired now (bmap f r) = (bmap f r', map f out)"
proof (cases "rbuf r = [] \<or> (case first r of None \<Rightarrow> True | Some g \<Rightarrow> now - g < bondReorderHold)")
  case True
  then show ?thesis using assms by (auto simp: client_flushExpired_def)
next
  case False
  define l where "l = client_lowest r"
  define r1 where "r1 = (if l > expect r then r\<lparr>BondReorderGaps := BondReorderGaps r + uint (l - expect r), expect := l\<rparr> else r)"
  have r1: "(if l > expect r then (bmap f r)\<lparr>BondReorderGaps := BondReorderGaps r + uint (l - expect r), expect := l\<rparr> else bmap f r) = bmap f r1"
    by (rule bmap_eqI) (simp_all add: r1_def)
  have u: "(bmap f r1)\<lparr>rbuf := AList.delete l (rbuf (bmap f r1)), expect := l + 1\<rparr> = bmap f (r1\<lparr>rbuf := AList.delete l (rbuf r1), expect := l + 1\<rparr>)"
    "(bmap f x)\<lparr>first := g\<rparr> = bmap f (x\<lparr>first := g\<rparr>)" for x g
    by (rule bmap_eqI; simp add: amap_delete)+
  have e: "client_flushExpired now r = (case map_of (rbuf r1) l of None \<Rightarrow> (r1, [])
       | Some p \<Rightarrow> (case drainContiguous (r1\<lparr>rbuf := AList.delete l (rbuf r1), expect := l + 1\<rparr>) of (r2, out) \<Rightarrow>
           (r2\<lparr>first := (if rbuf r2 = [] then None else Some now)\<rparr>, p # out)))"
    unfolding client_flushExpired_def Let_def l_def [symmetric] r1_def [symmetric] using False by (simp only: if_False)
  have "\<not> (rbuf (bmap f r) = [] \<or> (case first (bmap f r) of None \<Rightarrow> True | Some g \<Rightarrow> now - g < bondReorderHold))" using False by simp
  then have e': "client_flushExpired now (bmap f r) = (case map_of (rbuf (bmap f r1)) l of None \<Rightarrow> (bmap f r1, [])
       | Some p \<Rightarrow> (case drainContiguous ((bmap f r1)\<lparr>rbuf := AList.delete l (rbuf (bmap f r1)), expect := l + 1\<rparr>) of (r2, out) \<Rightarrow>
           (r2\<lparr>first := (if rbuf r2 = [] then None else Some now)\<rparr>, p # out)))"
    unfolding client_flushExpired_def Let_def client_lowest_bmap l_def [symmetric] by (simp only: if_False bmap_fields(1) bmap_fields(6) r1)
  show ?thesis
  proof (cases "map_of (rbuf r1) l")
    case None
    then show ?thesis using assms e e' by (simp add: amap_of)
  next
    case (Some p)
    obtain r2 o2 where d: "drainContiguous (r1\<lparr>rbuf := AList.delete l (rbuf r1), expect := l + 1\<rparr>) = (r2, o2)" by fastforce
    have "r' = r2\<lparr>first := (if rbuf r2 = [] then None else Some now)\<rparr>" "out = p # o2" using assms e Some d by simp_all
    moreover have "client_flushExpired now (bmap f r) = ((bmap f r2)\<lparr>first := (if rbuf (bmap f r2) = [] then None else Some now)\<rparr>, f p # map f o2)"
      using Some unfolding e' u(1) drainContiguous_bmap [OF d] by (simp add: amap_of)
    ultimately show ?thesis by (simp add: u(2))
  qed
qed

interpretation up: lane_buffer "newPacketReorder bondReorderHold" ring_push flushExpired ring_nx ring_held "ring_inv fst" "rmap snd" push flushExpired
proof unfold_locales
  show "push n p now (rmap snd r) = Some (rmap snd r', map snd out)" if "ring_push (n, p) now r = Some (r', out)" for n p now and r r' :: "(64 word \<times> bytes) packetReorder" and out
    using push_rmap [of n "(n, p)" now r r' out snd] that by (simp add: ring_push_def)
qed (rule flushExpired_rmap)

interpretation down: lane_buffer newBondReorderBuffer buf_push client_flushExpired buf_nx buf_held "buf_inv fst" "bmap snd" "\<lambda>n p now r. Some (client_push n p now r)" client_flushExpired
proof unfold_locales
  show "Some (client_push n p now (bmap snd r)) = Some (bmap snd r', map snd out)" if "buf_push (n, p) now r = Some (r', out)" for n p now and r r' :: "(64 word \<times> bytes) bondReorderBuffer" and out
    using client_push_bmap [of n "(n, p)" now r r' out snd] that by (simp add: buf_push_def)
qed (rule client_flushExpired_bmap)

section \<open>The two ends and the network\<close>

text \<open>\<open>wgOut\<close> is what the server has written to WireGuard and \<open>wgIn\<close> what it has read from it; \<open>downNet\<close> holds every frame
  that was in the queue of a worker of the server, which the network may deliver at any time, any number of times or never.
  Likewise every frame the client has queued may arrive at the server.\<close>

record link =
  cli :: Dispatcher
  srv :: serverBond
  wgOut :: "bytes list"
  wgIn :: "bytes list"
  downNet :: "bytes set"

definition sentPackets :: "Dispatcher \<Rightarrow> bytes list" where
  "sentPackets d = map (fst \<circ> snd) (dSent d)"

definition sentFrames :: "Dispatcher \<Rightarrow> bytes set" where
  "sentFrames d = (snd \<circ> snd) ` set (dSent d)"

definition queued :: "serverBond \<Rightarrow> bytes set" where
  "queued b = (\<Union>r \<in> snd ` set (rooms b). \<Union>w \<in> snd ` set (workers r). set (sendq w))"

definition newLink :: "int \<Rightarrow> int \<Rightarrow> link" where
  "newLink rate room = \<lparr>cli = NewDispatcherWithOptions True rate, srv = newServerBond room, wgOut = [], wgIn = [], downNet = {}\<rparr>"

inductive link_step :: "link \<Rightarrow> link \<Rightarrow> bool" where
  read: "link_step n (n\<lparr>cli := readPacket now p (cli n)\<rparr>)"
| takes: "link_step n (n\<lparr>cli := workerTakes k (cli n)\<rparr>)"
| register: "link_step n (n\<lparr>cli := fst (Register now w (cli n))\<rparr>)"
| unregister: "link_step n (n\<lparr>cli := fst (Unregister key (cli n))\<rparr>)"
| notify: "link_step n (n\<lparr>cli := notifyWorkerCount g c (cli n)\<rparr>)"
| returned: "frame \<in> downNet n \<Longrightarrow> link_step n (n\<lparr>cli := returnPacket wr now frame (cli n)\<rparr>)"
| clientTick: "link_step n (n\<lparr>cli := reorderTick wr now (cli n)\<rparr>)"
| receive: "frame \<in> sentFrames (cli n) \<Longrightarrow> workerFrame cd pk room frame now (srv n) = Some (b, goOn) \<Longrightarrow> link_step n (n\<lparr>srv := b\<rparr>)"
| serverTick: "link_step n (n\<lparr>srv := writerTick cd pk now (srv n)\<rparr>)"
| written: "wgWrite (srv n) = p # ps \<Longrightarrow> link_step n (n\<lparr>srv := (srv n)\<lparr>wgWrite := ps\<rparr>, wgOut := wgOut n @ [p]\<rparr>)"
| serverRead: "readerPacket p (srv n) = GoOk b \<Longrightarrow> link_step n (n\<lparr>srv := b, wgIn := wgIn n @ [p], downNet := downNet n \<union> queued b\<rparr>)"
| serverTakes: "link_step n (n\<lparr>srv := takeFrame w (srv n)\<rparr>)"
| join: "link_step n (n\<lparr>srv := addWorker i room wk (srv n)\<rparr>)"
| leave: "link_step n (n\<lparr>srv := removeWorker w (srv n)\<rparr>)"
| arm: "link_step n (n\<lparr>srv := armEmptyCleanupLocked (srv n)\<rparr>)"
| fire: "link_step n (n\<lparr>srv := fst (cleanupFired g (srv n))\<rparr>)"

inductive link_reach :: "link \<Rightarrow> bool" where
  start: "link_reach (newLink rate room)"
| step: "link_reach n \<Longrightarrow> link_step n n' \<Longrightarrow> link_reach n'"

section \<open>Frames\<close>

text \<open>The frames of the packets \<open>xs\<close>: in each lane, packet number \<open>i + 1\<close> under that number.\<close>

definition framesOf :: "bytes list \<Rightarrow> bytes set" where
  "framesOf xs = {frame. \<exists>l i. i < length (filter (inLane l) xs) \<and> acceptable frame \<and> parsed frame = laneFrame l (i + 1) (filter (inLane l) xs ! i)}"

lemma framesOf_more: "framesOf xs \<subseteq> framesOf (xs @ ys)"
proof
  fix frame assume "frame \<in> framesOf xs"
  then obtain l i where i: "i < length (filter (inLane l) xs)" "acceptable frame" "parsed frame = laneFrame l (i + 1) (filter (inLane l) xs ! i)"
    unfolding framesOf_def by blast
  then show "frame \<in> framesOf (xs @ ys)" unfolding framesOf_def by (intro CollectI exI [of _ l] exI [of _ i]) (simp add: nth_append)
qed

lemma framesOf_last:
  assumes "acceptable frame" "parsed frame = laneFrame l (length (filter (inLane l) xs) + 1) p" "inLane l p"
  shows "frame \<in> framesOf (xs @ [p])"
  unfolding framesOf_def using assms by (intro CollectI exI [of _ l] exI [of _ "length (filter (inLane l) xs)"]) simp

lemma framesOf_lane:
  assumes "frame \<in> framesOf xs"
  obtains l n p where "decodeBondFrame frame = GoOk \<lparr>bType = bondFrameData, bFlags = (if l then bondFlagLatency else 0), bSeq = n, bPayload = p\<rparr>"
    "client_decodeBondFrame frame = GoOk \<lparr>bType = bondFrameData, bFlags = (if l then bondFlagLatency else 0), bSeq = n, bPayload = p\<rparr>"
    "(n, p) \<in> set (numberFrom1 (filter (inLane l) xs))"
proof -
  obtain l i where i: "i < length (filter (inLane l) xs)" "acceptable frame" "parsed frame = laneFrame l (i + 1) (filter (inLane l) xs ! i)"
    using assms unfolding framesOf_def by blast
  show thesis using that [of l "of_nat (i + 1)" "filter (inLane l) xs ! i"] numberFrom1_mem [OF i(1)] i
    by (simp add: server_decode client_decode laneFrame_def)
qed

lemma lane_flags [simp]: "bondLatencyLane (if l then bondFlagLatency else 0) = (l, True)"
  by (simp add: bondLatencyLane_def bondFlagLatency_def)

section \<open>The client's part\<close>

definition laned :: "Dispatcher \<Rightarrow> bool" where
  "laned d \<longleftrightarrow> (\<forall>x \<in> set (dSent d). inLane (fst x) (fst (snd x)))"

lemma laned_lane:
  assumes "laned d"
  shows "map fst (laneSent l d) = filter (inLane l) (sentPackets d)"
proof -
  have "map fst (map snd (filter (\<lambda>x. fst x = l) xs)) = filter (inLane l) (map (fst \<circ> snd) xs)" if "\<forall>x \<in> set xs. inLane (fst x) (fst (snd x))" for xs :: "(bool \<times> bytes \<times> bytes) list"
    using that by (induction xs) (auto simp: inLane_def)
  then show ?thesis using assms by (simp add: laned_def laneSent_def sentPackets_def)
qed

lemma sentFrames_framesOf:
  assumes "numbered d" "laned d"
  shows "sentFrames d \<subseteq> framesOf (sentPackets d)"
proof
  fix frame assume "frame \<in> sentFrames d"
  then obtain l p where "(l, p, frame) \<in> set (dSent d)" by (auto simp: sentFrames_def)
  then have "(p, frame) \<in> set (laneSent l d)" by (force simp: laneSent_def)
  then obtain i where i: "i < length (laneSent l d)" "laneSent l d ! i = (p, frame)" by (auto simp: in_set_conv_nth)
  then have "client_encodeBondFrame (laneFrame l (i + 1) p) = GoOk frame" using assms(1) unfolding numbered_def by force
  then have "acceptable frame" "parsed frame = laneFrame l (i + 1) p" by (simp_all add: encode_acceptable)
  moreover have "i < length (filter (inLane l) (sentPackets d))" "filter (inLane l) (sentPackets d) ! i = p"
    using i laned_lane [OF assms(2), of l, symmetric] by simp_all
  ultimately show "frame \<in> framesOf (sentPackets d)" unfolding framesOf_def by blast
qed

definition clientLane :: "Dispatcher \<Rightarrow> bool \<Rightarrow> bytes bondReorderBuffer" where
  "clientLane d l = (if l then bondLatencyReorder d else bondBulkReorder d)"

lemma clientLane_updates [simp]: "clientLane (d\<lparr>dWorkers := a\<rparr>) = clientLane d" "clientLane (d\<lparr>stats := b\<rparr>) = clientLane d" "clientLane (d\<lparr>dLocal := c\<rparr>) = clientLane d"
  "clientLane (d\<lparr>rrIndex := e\<rparr>) = clientLane d" "clientLane (d\<lparr>clientKnown := k\<rparr>) = clientLane d"
  by (simp_all add: clientLane_def fun_eq_iff)

text \<open>Steps that leave what comes down alone, and append at most packets of the right lane to what goes up.\<close>

definition upStep :: "Dispatcher \<Rightarrow> Dispatcher \<Rightarrow> bool" where
  "upStep d d' \<longleftrightarrow> bondV2 d' = bondV2 d \<and> clientLane d' = clientLane d \<and> dLocal d' = dLocal d \<and>
     (\<exists>xs. dSent d' = dSent d @ xs \<and> (\<forall>x \<in> set xs. inLane (fst x) (fst (snd x))))"

lemma upStep_same: "bondV2 d' = bondV2 d \<Longrightarrow> bondLatencyReorder d' = bondLatencyReorder d \<Longrightarrow> bondBulkReorder d' = bondBulkReorder d \<Longrightarrow> dLocal d' = dLocal d \<Longrightarrow>
   dSent d' = dSent d \<Longrightarrow> upStep d d'"
  by (simp add: upStep_def clientLane_def fun_eq_iff)

lemma upStep_sent: "bondV2 d' = bondV2 d \<Longrightarrow> bondLatencyReorder d' = bondLatencyReorder d \<Longrightarrow> bondBulkReorder d' = bondBulkReorder d \<Longrightarrow> dLocal d' = dLocal d \<Longrightarrow>
   dSent d' = dSent d @ [x] \<Longrightarrow> inLane (fst x) (fst (snd x)) \<Longrightarrow> upStep d d'"
  by (simp add: upStep_def clientLane_def fun_eq_iff)

lemma dispatchBond_up: "upStep d (dispatchBond now p d)"
proof -
  obtain s ws x where c: "chooseWorker now (length p) (bondSched d) (dWorkers d) = (s, ws, x)" by (metis prod_cases3)
  show ?thesis
    unfolding dispatchBond_def c Let_def
    by (cases "length p \<le> bondSmallPacketMax"; simp only: if_True if_False simp_thms;
      auto intro: upStep_same upStep_sent simp: addSeq_def refundAt_def inLane_def split: option.split gores.split)
qed

lemma legacyLoop_up: "upStep d (fst (legacyLoop now p is d))"
proof (induction "is" arbitrary: d)
  case (Cons i "is")
  show ?case using Cons.IH Cons.IH [of "d\<lparr>dWorkers := ws\<rparr>" for ws] by (auto simp: Let_def upStep_def clientLane_def split: prod.split)
qed (simp add: upStep_def)

lemma dispatchLegacy_up: "upStep d (dispatchLegacy now p d)"
proof -
  have "upStep d (case legacyLoop now p js d of (d, True) \<Rightarrow> d | (d, False) \<Rightarrow> f d)" if "\<And>d. upStep d (f d) \<and> dSent (f d) = dSent d" for js f
    using legacyLoop_up [of d now p js] that by (auto simp: upStep_def split: prod.split bool.split)
  then show ?thesis by (simp add: dispatchLegacy_def Let_def upStep_same)
qed

lemma readPacket_up: "upStep d (readPacket now p d)"
proof -
  let ?d = "d\<lparr>clientKnown := True, stats := (stats d)\<lparr>TotalBytesUp := TotalBytesUp (stats d) + int (length p)\<rparr>\<rparr>"
  have "upStep d d'" if "upStep ?d d'" for d' using that by (simp add: upStep_def clientLane_def fun_eq_iff)
  then show ?thesis using dispatchBond_up [of ?d now p] dispatchLegacy_up [of ?d now p] by (auto simp: readPacket_def Let_def)
qed

lemma fold_write_down:
  "\<exists>k. subseq k ps \<and> dLocal (fold (writeWGPacket wr) ps d) = dLocal d @ k \<and> clientLane (fold (writeWGPacket wr) ps d) = clientLane d \<and>
     bondV2 (fold (writeWGPacket wr) ps d) = bondV2 d"
proof (induction ps arbitrary: d)
  case (Cons p ps)
  show ?case
  proof (cases "clientKnown d \<and> wr p")
    case True
    let ?d = "writeWGPacket wr p d"
    obtain k where "subseq k ps" "dLocal (fold (writeWGPacket wr) ps ?d) = dLocal ?d @ k" "clientLane (fold (writeWGPacket wr) ps ?d) = clientLane ?d"
      "bondV2 (fold (writeWGPacket wr) ps ?d) = bondV2 ?d" using Cons.IH [of ?d] by blast
    moreover have "dLocal ?d = dLocal d @ [p]" "clientLane ?d = clientLane d" "bondV2 ?d = bondV2 d" using True by (simp_all add: writeWGPacket_def)
    ultimately show ?thesis by (intro exI [of _ "p # k"]) simp
  next
    case False
    then have "writeWGPacket wr p d = d" unfolding writeWGPacket_def by (simp only: if_False)
    moreover obtain k where "subseq k ps" "dLocal (fold (writeWGPacket wr) ps d) = dLocal d @ k" "clientLane (fold (writeWGPacket wr) ps d) = clientLane d"
      "bondV2 (fold (writeWGPacket wr) ps d) = bondV2 d" using Cons.IH [of d] by blast
    ultimately show ?thesis by (intro exI [of _ k]) (simp add: list_emb_Cons)
  qed
qed simp

abbreviation downDelivers :: "(64 word \<times> bytes) set \<Rightarrow> bytes bondReorderBuffer \<Rightarrow> bytes list \<Rightarrow> bool" where
  "downDelivers \<equiv> delivers buf_push client_flushExpired newBondReorderBuffer (bmap snd)"

abbreviation upDelivers :: "(64 word \<times> bytes) set \<Rightarrow> bytes packetReorder \<Rightarrow> bytes list \<Rightarrow> bool" where
  "upDelivers \<equiv> delivers ring_push flushExpired (newPacketReorder bondReorderHold) (rmap snd)"

lemma handleBondReturn_down:
  assumes "frame \<in> framesOf xs" "length xs < 2 ^ 64 - 1" "carries downDelivers xs (clientLane d) (dLocal d)"
  shows "carries downDelivers xs (clientLane (handleBondReturn wr now frame d)) (dLocal (handleBondReturn wr now frame d))"
proof -
  obtain l n p where f: "client_decodeBondFrame frame = GoOk \<lparr>bType = bondFrameData, bFlags = (if l then bondFlagLatency else 0), bSeq = n, bPayload = p\<rparr>"
    "(n, p) \<in> set (numberFrom1 (filter (inLane l) xs))" using framesOf_lane [OF assms(1)] by blast
  have t: "bondFrameData \<noteq> bondFrameKeepalive" "bondFrameData \<noteq> bondFrameError" by (simp_all add: bondFrameData_def bondFrameKeepalive_def bondFrameError_def)
  show ?thesis
  proof (cases "n = 0 \<or> p = []")
    case True
    then show ?thesis using assms(3) f t by (simp add: handleBondReturn_def)
  next
    case False
    obtain r ready where r: "client_push n p now (clientLane d l) = (r, ready)" "\<And>k. subseq k ready \<Longrightarrow> carries downDelivers xs ((clientLane d)(l := r)) (dLocal d @ k)"
      using down.carries_push [OF assms(3) f(2) assms(2), of now] by auto
    define st where "st = (stats d)\<lparr>BondFramesDown := BondFramesDown (stats d) + 1, BondBytesDown := BondBytesDown (stats d) + int (length p),
                 BondLatencyFramesDown := BondLatencyFramesDown (stats d) + of_bool l\<rparr>"
    define d1 where "d1 = (if l then d\<lparr>stats := st, bondLatencyReorder := r\<rparr> else d\<lparr>stats := st, bondBulkReorder := r\<rparr>)"
    have e: "handleBondReturn wr now frame d = fold (writeWGPacket wr) ready d1"
      using False f t r(1) by (cases l) (simp_all add: handleBondReturn_def clientLane_def d1_def st_def Let_def bondLatencyLane_def bondFlagLatency_def)
    have "clientLane d1 = (clientLane d)(l := r)" "dLocal d1 = dLocal d" by (auto simp: d1_def clientLane_def fun_eq_iff)
    then show ?thesis using fold_write_down [of ready wr d1] r(2) unfolding e by auto
  qed
qed

lemma handleBondReturn_v2: "bondV2 (handleBondReturn wr now frame d) = bondV2 d"
proof -
  have "bondV2 (fold (writeWGPacket wr) ps d) = bondV2 d" for ps d using fold_write_down [of ps wr d] by blast
  then show ?thesis by (simp add: handleBondReturn_def Let_def split: gores.split prod.split)
qed

lemma reorderTick_down:
  assumes "carries downDelivers xs (clientLane d) (dLocal d)"
  shows "carries downDelivers xs (clientLane (reorderTick wr now d)) (dLocal (reorderTick wr now d))"
proof -
  obtain b r1 l r2 where c: "client_flushExpired now (bondBulkReorder d) = (b, r1)" "client_flushExpired now (bondLatencyReorder d) = (l, r2)" by fastforce
  let ?d = "d\<lparr>bondBulkReorder := b, bondLatencyReorder := l\<rparr>"
  have e: "reorderTick wr now d = fold (writeWGPacket wr) (r1 @ r2) ?d" by (simp add: reorderTick_def c)
  obtain k where k: "subseq k (r1 @ r2)" "dLocal (reorderTick wr now d) = dLocal d @ k" "clientLane (reorderTick wr now d) = clientLane ?d"
    using fold_write_down [of "r1 @ r2" wr ?d] unfolding e by auto
  have "clientLane ?d = (\<lambda>x. if x then l else b)" by (simp add: clientLane_def fun_eq_iff)
  then show ?thesis using down.carries_flush [OF assms, of now b r1 l r2 k] c k by (simp add: clientLane_def)
qed

lemma reorderTick_v2: "bondV2 (reorderTick wr now d) = bondV2 d"
proof -
  have "bondV2 (fold (writeWGPacket wr) ps d) = bondV2 d" for ps d using fold_write_down [of ps wr d] by blast
  then show ?thesis by (simp add: reorderTick_def split: prod.split)
qed

section \<open>The server's part\<close>

definition laneOf :: "serverBond \<Rightarrow> bool \<Rightarrow> bytes packetReorder" where
  "laneOf b l = (if l then latencyReorder b else bulkReorder b)"

definition outSeq :: "bool \<Rightarrow> serverBond \<Rightarrow> 64 word" where
  "outSeq l b = (if l then outLatencySequence b else outBulkSequence b)"

lemma enqueueWG_up:
  "\<exists>k. subseq k ps \<and> wgWrite (enqueueWG cd pk i ps b) = wgWrite b @ k \<and> laneOf (enqueueWG cd pk i ps b) = laneOf b \<and>
     rooms (enqueueWG cd pk i ps b) = rooms b \<and> (\<forall>l. outSeq l (enqueueWG cd pk i ps b) = outSeq l b)"
proof (induction ps arbitrary: i b)
  case (Cons p ps)
  consider "length (wgWrite b) < bondWGQueue \<and> \<not> (cd i \<and> pk i)" | "\<not> (length (wgWrite b) < bondWGQueue \<and> \<not> (cd i \<and> pk i))" "cd i"
    | "\<not> (length (wgWrite b) < bondWGQueue \<and> \<not> (cd i \<and> pk i))" "\<not> cd i" by blast
  then show ?case
  proof cases
    case 1
    let ?b = "b\<lparr>wgWrite := wgWrite b @ [p]\<rparr>"
    obtain k where k: "subseq k ps" "wgWrite (enqueueWG cd pk (i + 1) ps ?b) = wgWrite ?b @ k" "laneOf (enqueueWG cd pk (i + 1) ps ?b) = laneOf ?b"
      "rooms (enqueueWG cd pk (i + 1) ps ?b) = rooms ?b" "\<forall>l. outSeq l (enqueueWG cd pk (i + 1) ps ?b) = outSeq l ?b" using Cons.IH [of "i + 1" ?b] by blast
    have e: "enqueueWG cd pk i (p # ps) b = enqueueWG cd pk (i + 1) ps ?b" using 1 by simp
    show ?thesis unfolding e using k by (intro exI [of _ "p # k"]) (simp add: laneOf_def outSeq_def fun_eq_iff)
  next
    case 2
    then have e: "enqueueWG cd pk i (p # ps) b = b" by auto
    show ?thesis unfolding e by (intro exI [of _ "[]"]) simp
  next
    case 3
    let ?b = "b\<lparr>wgWriteDrop := wgWriteDrop b + 1\<rparr>"
    obtain k where k: "subseq k ps" "wgWrite (enqueueWG cd pk (i + 1) ps ?b) = wgWrite ?b @ k" "laneOf (enqueueWG cd pk (i + 1) ps ?b) = laneOf ?b"
      "rooms (enqueueWG cd pk (i + 1) ps ?b) = rooms ?b" "\<forall>l. outSeq l (enqueueWG cd pk (i + 1) ps ?b) = outSeq l ?b" using Cons.IH [of "i + 1" ?b] by blast
    have e: "enqueueWG cd pk i (p # ps) b = enqueueWG cd pk (i + 1) ps ?b" using 3 by auto
    show ?thesis unfolding e using k by (intro exI [of _ k]) (simp add: laneOf_def outSeq_def fun_eq_iff list_emb_Cons)
  qed
qed simp

lemma set_alist_update: "set (AList.update k v xs) \<subseteq> insert (k, v) (set xs)"
  by (induction xs) auto

definition roomQueued :: "bondRoom \<Rightarrow> bytes set" where
  "roomQueued r = (\<Union>w \<in> snd ` set (workers r). set (sendq w))"

lemma queued_rooms: "queued b = (\<Union>r \<in> snd ` set (rooms b). roomQueued r)"
  by (simp add: queued_def roomQueued_def)

lemma roomQueued_map: "map_of (rooms b) i = Some r \<Longrightarrow> roomQueued r \<subseteq> queued b"
  using map_of_SomeD [of "rooms b" i r] by (force simp: queued_rooms)

lemma queued_update:
  assumes "rooms b' = AList.update i r (rooms b)" "roomQueued r \<subseteq> queued b \<union> F"
  shows "queued b' \<subseteq> queued b \<union> F"
  using set_alist_update [of i r "rooms b"] assms by (fastforce simp: queued_rooms)

lemma roomQueued_update: "roomQueued (r\<lparr>workers := AList.update i w (workers r)\<rparr>) \<subseteq> roomQueued r \<union> set (sendq w)"
  using set_alist_update [of i w "workers r"] by (fastforce simp: roomQueued_def)

lemma workerQueued: "map_of (workers r) i = Some w \<Longrightarrow> set (sendq w) \<subseteq> roomQueued r"
  using map_of_SomeD [of "workers r" i w] by (force simp: roomQueued_def)

lemma roomQueued_fields [simp]: "roomQueued (r\<lparr>metrics := m\<rparr>) = roomQueued r" "roomQueued (r\<lparr>rr := x\<rparr>) = roomQueued r" "roomQueued (r\<lparr>workerOrder := wo\<rparr>) = roomQueued r"
  by (simp_all add: roomQueued_def)

text \<open>Operations that leave the uplink alone and put nothing into a queue.\<close>

definition srvKept :: "serverBond \<Rightarrow> serverBond \<Rightarrow> bool" where
  "srvKept b b' \<longleftrightarrow> laneOf b' = laneOf b \<and> wgWrite b' = wgWrite b \<and> (\<forall>l. outSeq l b' = outSeq l b) \<and> queued b' \<subseteq> queued b"

lemma srvKeptI:
  "bulkReorder b' = bulkReorder b \<Longrightarrow> latencyReorder b' = latencyReorder b \<Longrightarrow> wgWrite b' = wgWrite b \<Longrightarrow> outBulkSequence b' = outBulkSequence b \<Longrightarrow>
   outLatencySequence b' = outLatencySequence b \<Longrightarrow> queued b' \<subseteq> queued b \<Longrightarrow> srvKept b b'"
  by (simp add: srvKept_def laneOf_def outSeq_def fun_eq_iff)

lemma queued_same: "rooms b' = rooms b \<Longrightarrow> queued b' = queued b"
  by (simp add: queued_def)

lemma arm_kept: "srvKept b (armEmptyCleanupLocked b)"
  by (rule srvKeptI) (simp_all add: armEmptyCleanupLocked_def queued_def)

lemma fire_kept: "srvKept b (fst (cleanupFired g b))"
  by (rule srvKeptI) (simp_all add: cleanupFired_def Let_def queued_def)

lemma take_kept: "srvKept b (takeFrame w b)"
proof (rule srvKeptI)
  show "queued (takeFrame w b) \<subseteq> queued b"
  proof (cases "\<exists>room x. map_of (rooms b) (wroom w) = Some room \<and> map_of (workers room) (wworker w) = Some x \<and> wid x = wid w")
    case True
    then obtain room x where x: "map_of (rooms b) (wroom w) = Some room" "map_of (workers room) (wworker w) = Some x" "wid x = wid w" by blast
    have "set (tl (sendq x)) \<subseteq> set (sendq x)" by (cases "sendq x") auto
    then have "set (sendq (x\<lparr>sendq := tl (sendq x)\<rparr>)) \<subseteq> roomQueued room" using workerQueued [OF x(2)] by simp
    then have "roomQueued (room\<lparr>workers := AList.update (wworker w) (x\<lparr>sendq := tl (sendq x)\<rparr>) (workers room)\<rparr>) \<subseteq> queued b \<union> {}"
      using roomQueued_update [of "wworker w" "x\<lparr>sendq := tl (sendq x)\<rparr>" room] roomQueued_map [OF x(1)] by blast
    then have "queued (takeFrame w b) \<subseteq> queued b \<union> {}" by (rule queued_update [rotated]) (simp add: takeFrame_def x)
    then show ?thesis by simp
  next
    case False
    then have "takeFrame w b = b" unfolding takeFrame_def by (simp split: option.split)
    then show ?thesis by simp
  qed
qed (simp_all add: takeFrame_def split: option.split)

lemma leave_kept: "srvKept b (removeWorker w b)"
proof (cases "\<exists>room x. map_of (rooms b) (wroom w) = Some room \<and> map_of (workers room) (wworker w) = Some x \<and> wid x = wid w")
  case True
  then obtain room x where x: "map_of (rooms b) (wroom w) = Some room" "map_of (workers room) (wworker w) = Some x" "wid x = wid w" by blast
  define b1 where "b1 = b\<lparr>rooms := AList.update (wroom w) (room\<lparr>workers := AList.delete (wworker w) (workers room), workerOrder := remove1 (wworker w) (workerOrder room)\<rparr>) (rooms b),
     nworkers := nworkers b - 1\<rparr>"
  have "roomQueued (room\<lparr>workers := AList.delete (wworker w) (workers room)\<rparr>) \<subseteq> roomQueued room" by (auto simp: roomQueued_def AList.delete_eq)
  then have "queued b1 \<subseteq> queued b \<union> {}"
    using roomQueued_map [OF x(1)]
    by (intro queued_update [of b1 "wroom w" "room\<lparr>workers := AList.delete (wworker w) (workers room), workerOrder := remove1 (wworker w) (workerOrder room)\<rparr>"])
      (auto simp: b1_def roomQueued_def)
  then have "srvKept b b1" by (intro srvKeptI) (simp_all add: b1_def)
  moreover have "removeWorker w b = (if nworkers b1 = 0 then armEmptyCleanupLocked b1 else b1)" by (simp add: removeWorker_def x Let_def b1_def)
  ultimately show ?thesis using arm_kept [of b1] unfolding srvKept_def by auto
next
  case False
  then have "removeWorker w b = b" by (auto simp: removeWorker_def split: option.split)
  then show ?thesis by (simp add: srvKept_def)
qed

lemma addWorker_fields:
  "bulkReorder (addWorker i room wk b) = bulkReorder b" "latencyReorder (addWorker i room wk b) = latencyReorder b" "wgWrite (addWorker i room wk b) = wgWrite b"
  "outBulkSequence (addWorker i room wk b) = outBulkSequence b" "outLatencySequence (addWorker i room wk b) = outLatencySequence b"
  by (simp_all add: addWorker_def Let_def split: option.split prod.split)

definition roomFor :: "int \<Rightarrow> serverBond \<Rightarrow> bondRoom" where
  "roomFor room b = (case map_of (rooms b) room of Some r \<Rightarrow> r | None \<Rightarrow> newBondRoom)"

definition joined :: "nat \<Rightarrow> int \<Rightarrow> int \<Rightarrow> bondRoom \<Rightarrow> bondRoom" where
  "joined i room wk r = (if map_of (workers r) wk = None then r\<lparr>workerOrder := sort (workerOrder r @ [wk])\<rparr> else r)
     \<lparr>workers := AList.update wk \<lparr>wid = i, wroom = room, wworker = wk, sendq = []\<rparr> (workers r)\<rparr>"

lemma addWorker_rooms:
  "rooms (addWorker i room wk b) = AList.update room (joined i room wk (roomFor room b)) (rooms b)"
proof (cases "map_of (rooms b) room")
  case None
  then show ?thesis by (simp add: addWorker_def Let_def roomFor_def joined_def update_conv' newBondRoom_def)
next
  case (Some r)
  then show ?thesis by (cases "map_of (workers r) wk") (simp_all add: addWorker_def Let_def roomFor_def joined_def)
qed

lemma joined_queued: "roomQueued (joined i room wk r) \<subseteq> roomQueued r"
  using set_alist_update [of wk "\<lparr>wid = i, wroom = room, wworker = wk, sendq = []\<rparr>" "workers r"]
  by (fastforce simp: joined_def roomQueued_def)

lemma roomFor_queued: "roomQueued (roomFor room b) \<subseteq> queued b"
  using roomQueued_map [of b room] by (simp add: roomFor_def roomQueued_def newBondRoom_def split: option.split)

lemma join_kept: "srvKept b (addWorker i room wk b)"
proof (rule srvKeptI)
  have "roomQueued (joined i room wk (roomFor room b)) \<subseteq> queued b \<union> {}" using joined_queued roomFor_queued by fastforce
  then have "queued (addWorker i room wk b) \<subseteq> queued b \<union> {}" by (rule queued_update [OF addWorker_rooms])
  then show "queued (addWorker i room wk b) \<subseteq> queued b" by simp
qed (rule addWorker_fields)+

lemma tryWorkers_queued:
  "BondWorkers.tryWorkers frame n st offs r = GoOk (r', sent) \<Longrightarrow> roomQueued r' \<subseteq> insert frame (roomQueued r)"
proof (induction offs arbitrary: r)
  case (Cons off offs)
  obtain wk where wk: "(idx (workerOrder r) ((st + off) mod length (workerOrder r)) :: (string, int) gores) = GoOk wk"
    using Cons.prems by (cases "idx (workerOrder r) ((st + off) mod length (workerOrder r)) :: (string, int) gores") (simp_all add: Let_def)
  obtain w where w: "map_of (workers r) wk = Some w" using Cons.prems wk by (cases "map_of (workers r) wk") (simp_all add: Let_def)
  show ?case
  proof (cases "length (sendq w) < bondWorkerQueue")
    case True
    then have "workers r' = AList.update wk (w\<lparr>sendq := sendq w @ [frame]\<rparr>) (workers r)" using Cons.prems wk w by (auto simp: Let_def)
    then have "roomQueued r' \<subseteq> roomQueued r \<union> set (sendq w @ [frame])"
      using set_alist_update [of wk "w\<lparr>sendq := sendq w @ [frame]\<rparr>" "workers r"] by (fastforce simp: roomQueued_def)
    then show ?thesis using workerQueued [OF w] by auto
  next
    case False
    then have "BondWorkers.tryWorkers frame n st offs (r\<lparr>metrics := (metrics r)\<lparr>drops := drops (metrics r) + 1\<rparr>\<rparr>) = GoOk (r', sent)"
      using Cons.prems wk w by (simp add: Let_def)
    then show ?thesis using Cons.IH by fastforce
  qed
qed auto

lemma tryRooms_queued:
  "BondWorkers.tryRooms frame n act st offs b = GoOk (b', sent) \<Longrightarrow> laneOf b' = laneOf b \<and> wgWrite b' = wgWrite b \<and> (\<forall>l. outSeq l b' = outSeq l b) \<and> queued b' \<subseteq> insert frame (queued b)"
proof (induction offs arbitrary: b)
  case Nil
  then show ?case by (auto simp: laneOf_def outSeq_def queued_def)
next
  case (Cons off offs)
  obtain roomID where ri: "activeRoomAt b ((st + off) mod act) = GoOk roomID"
    using Cons.prems by (cases "activeRoomAt b ((st + off) mod act)") (simp_all add: Let_def)
  obtain room where ro: "room_at b roomID = GoOk room" using Cons.prems ri by (cases "room_at b roomID") (simp_all add: Let_def)
  have ne: "length (workerOrder room) \<noteq> 0" using Cons.prems ri ro by (auto simp: Let_def)
  obtain x where x: "BondWorkers.tryWorkers frame n (unat (rr room) mod length (workerOrder room)) [0..<length (workerOrder room)] room = GoOk x"
    using Cons.prems ri ro ne by (cases "BondWorkers.tryWorkers frame n (unat (rr room) mod length (workerOrder room)) [0..<length (workerOrder room)] room") (simp_all add: Let_def)
  obtain room' snt where x': "x = (room', snt)" by fastforce
  define b1 where "b1 = b\<lparr>rooms := AList.update roomID room' (rooms b)\<rparr>"
  have "roomQueued room \<subseteq> queued b" using ro roomQueued_map [of b roomID room] by (simp add: room_at_def split: option.splits)
  then have "roomQueued room' \<subseteq> queued b \<union> {frame}" using tryWorkers_queued [of frame n _ _ room room' snt] x x' by blast
  then have q: "queued b1 \<subseteq> queued b \<union> {frame}" by (rule queued_update [rotated]) (simp add: b1_def)
  have k: "laneOf b1 = laneOf b" "wgWrite b1 = wgWrite b" "\<And>l. outSeq l b1 = outSeq l b" by (simp_all add: b1_def laneOf_def outSeq_def fun_eq_iff)
  show ?case
  proof (cases snt)
    case True
    then have "b' = (if n > bondSmallPacketMax then b1\<lparr>rrRoom := of_nat ((st + off) mod act + 1)\<rparr> else b1)"
      using Cons.prems ri ro ne x x' by (auto simp: Let_def b1_def)
    then have "laneOf b' = laneOf b1" "wgWrite b' = wgWrite b1" "\<And>l. outSeq l b' = outSeq l b1" "queued b' = queued b1"
      by (simp_all add: laneOf_def outSeq_def queued_def fun_eq_iff)
    then show ?thesis using q k by auto
  next
    case False
    then have "BondWorkers.tryRooms frame n act st offs b1 = GoOk (b', sent)" using Cons.prems ri ro ne x x' by (simp add: Let_def b1_def)
    from Cons.IH [OF this] show ?thesis using q k by auto
  qed
qed

lemma schedule_queued:
  assumes "schedule frame n b = GoOk (b', sent)"
  shows "laneOf b' = laneOf b \<and> wgWrite b' = wgWrite b \<and> (\<forall>l. outSeq l b' = outSeq l b) \<and> queued b' \<subseteq> insert frame (queued b)"
proof -
  obtain act where a: "countActive b (roomOrder b) 0 = GoOk act" using assms by (cases "countActive b (roomOrder b) 0") (simp_all add: schedule_def)
  show ?thesis
  proof (cases "act = 0")
    case True
    then show ?thesis using assms a by (auto simp: schedule_def laneOf_def outSeq_def queued_def)
  next
    case False
    then obtain st where "BondWorkers.tryRooms frame n act st [0..<act] b = GoOk (b', sent)"
      using assms a by (cases "primaryOrdinal b (roomOrder b) 0") (auto simp: schedule_def split: if_splits)
    then show ?thesis by (rule tryRooms_queued)
  qed
qed

lemma readerPacket_down:
  assumes "readerPacket p b = GoOk b'" "\<And>l. outSeq l b = of_nat (length (filter (inLane l) xs))" "queued b \<subseteq> framesOf xs"
  shows "laneOf b' = laneOf b" "wgWrite b' = wgWrite b" "\<And>l. outSeq l b' = of_nat (length (filter (inLane l) (xs @ [p])))" "queued b' \<subseteq> framesOf (xs @ [p])"
proof -
  define l where "l = (length p \<le> bondSmallPacketMax)"
  obtain b1 where m: "nextOutboundFrameMeta (length p) b = (b1, if l then bondFlagLatency else 0, outSeq l b + 1)" and
    b1: "laneOf b1 = laneOf b" "wgWrite b1 = wgWrite b" "queued b1 = queued b" "\<And>k. outSeq k b1 = outSeq k b + of_bool (k = l)"
    by (cases l) (auto simp: nextOutboundFrameMeta_def l_def laneOf_def outSeq_def queued_def fun_eq_iff)
  have l: "inLane k p \<longleftrightarrow> k = l" for k by (auto simp: inLane_def l_def)
  have seq: "outSeq k b1 = of_nat (length (filter (inLane k) (xs @ [p])))" for k using b1(4) assms(2) l by simp
  have q: "queued b \<subseteq> framesOf (xs @ [p])" using assms(3) framesOf_more by blast
  have "laneOf b' = laneOf b \<and> wgWrite b' = wgWrite b \<and> (\<forall>k. outSeq k b' = outSeq k b1) \<and> queued b' \<subseteq> framesOf (xs @ [p])"
  proof (cases "encodeBondFrame bondFrameData (if l then bondFlagLatency else 0) (outSeq l b + 1) p")
    case (GoOk frame)
    then have "client_encodeBondFrame (laneFrame l (length (filter (inLane l) xs) + 1) p) = GoOk frame"
      using assms(2) [of l] unfolding laneFrame_def encodeBondFrame_def client_encodeBondFrame_def by (simp only: bondFrame.select_convs of_nat_add of_nat_1)
    then have "frame \<in> framesOf (xs @ [p])" by (intro framesOf_last [of _ l]) (simp_all add: encode_acceptable l)
    moreover obtain sent where "schedule frame (length p) b1 = GoOk (b', sent)"
      using assms(1) m GoOk by (cases "schedule frame (length p) b1") (auto simp: readerPacket_def)
    ultimately show ?thesis using schedule_queued [of frame "length p" b1 b' sent] b1 q by auto
  qed (use assms(1) m b1 q in \<open>auto simp: readerPacket_def\<close>)
  then show "laneOf b' = laneOf b" "wgWrite b' = wgWrite b" "\<And>l. outSeq l b' = of_nat (length (filter (inLane l) (xs @ [p])))" "queued b' \<subseteq> framesOf (xs @ [p])"
    using seq by simp_all
qed

lemma laneOf_updates [simp]: "laneOf (b\<lparr>rooms := r\<rparr>) = laneOf b" "laneOf (b\<lparr>badFrames := n\<rparr>) = laneOf b" "laneOf (b\<lparr>wgWrite := w\<rparr>) = laneOf b"
  by (simp_all add: laneOf_def fun_eq_iff)

lemma down_updates [simp]: "outSeq l (b\<lparr>latencyReorder := q\<rparr>) = outSeq l b" "outSeq l (b\<lparr>bulkReorder := q\<rparr>) = outSeq l b" "outSeq l (b\<lparr>wgWrite := w\<rparr>) = outSeq l b"
  "outSeq l (b\<lparr>badFrames := n\<rparr>) = outSeq l b" "queued (b\<lparr>latencyReorder := q\<rparr>) = queued b" "queued (b\<lparr>bulkReorder := q\<rparr>) = queued b" "queued (b\<lparr>wgWrite := w\<rparr>) = queued b"
  "queued (b\<lparr>badFrames := n\<rparr>) = queued b"
  by (simp_all add: outSeq_def queued_def)

lemma acceptDataFrame_keeps:
  assumes "acceptDataFrame room f now b = Some (b', ready, v)"
  shows "(\<forall>l. outSeq l b' = outSeq l b) \<and> wgWrite b' = wgWrite b \<and> queued b' \<subseteq> queued b"
proof -
  define b1 where "b1 = (case map_of (rooms b) room of
              None \<Rightarrow> b
            | Some r \<Rightarrow> b\<lparr>rooms := AList.update room (r\<lparr>metrics := (metrics r)\<lparr>upPackets := upPackets (metrics r) + 1,
                upBytes := upBytes (metrics r) + of_nat (length (bPayload f))\<rparr>\<rparr>) (rooms b)\<rparr>)"
  have q: "queued b1 \<subseteq> queued b \<union> {}"
  proof (cases "map_of (rooms b) room")
    case (Some r)
    have "roomQueued (r\<lparr>metrics := m\<rparr>) \<subseteq> queued b \<union> {}" for m using roomQueued_map [OF Some] by simp
    then show ?thesis by (rule queued_update [rotated]) (simp add: b1_def Some)
  qed (simp add: b1_def)
  have "\<And>k. outSeq k b1 = outSeq k b" "wgWrite b1 = wgWrite b" by (simp_all add: b1_def outSeq_def split: option.split)
  moreover have "b' = b \<or> (\<exists>q. b' = b1\<lparr>latencyReorder := q\<rparr>) \<or> (\<exists>q. b' = b1\<lparr>bulkReorder := q\<rparr>)"
    using assms unfolding acceptDataFrame_def Let_def b1_def [symmetric] by (auto split: prod.splits if_splits)
  ultimately show ?thesis using q by auto
qed

lemma acceptDataFrame_up:
  assumes "carries upDelivers xs (laneOf b) ys" "(n, p) \<in> set (numberFrom1 (filter (inLane l) xs))" "length xs < 2 ^ 64 - 1" "n \<noteq> 0" "p \<noteq> []"
  shows "\<exists>b' ready. acceptDataFrame room \<lparr>bType = t, bFlags = (if l then bondFlagLatency else 0), bSeq = n, bPayload = p\<rparr> now b = Some (b', ready, True) \<and>
     (\<forall>k. subseq k ready \<longrightarrow> carries upDelivers xs (laneOf b') (ys @ k))"
proof -
  obtain q ready where q: "push n p now (laneOf b l) = Some (q, ready)" "\<And>k. subseq k ready \<Longrightarrow> carries upDelivers xs ((laneOf b)(l := q)) (ys @ k)"
    using up.carries_push [OF assms(1-3), of now] by blast
  define b1 where "b1 = (case map_of (rooms b) room of
              None \<Rightarrow> b
            | Some r \<Rightarrow> b\<lparr>rooms := AList.update room (r\<lparr>metrics := (metrics r)\<lparr>upPackets := upPackets (metrics r) + 1,
                upBytes := upBytes (metrics r) + of_nat (length p)\<rparr>\<rparr>) (rooms b)\<rparr>)"
  have lanes: "latencyReorder b1 = latencyReorder b" "bulkReorder b1 = bulkReorder b" by (simp_all add: b1_def split: option.split)
  define b2 where "b2 = (if l then b1\<lparr>latencyReorder := q\<rparr> else b1\<lparr>bulkReorder := q\<rparr>)"
  have "laneOf b2 = (laneOf b)(l := q)" using lanes by (simp add: b2_def laneOf_def fun_eq_iff)
  moreover have "acceptDataFrame room \<lparr>bType = t, bFlags = (if l then bondFlagLatency else 0), bSeq = n, bPayload = p\<rparr> now b = Some (b2, ready, True)"
    using q(1) lanes assms(4,5) unfolding acceptDataFrame_def Let_def bondFrame.select_convs lane_flags b1_def [symmetric]
    by (cases l) (auto simp: b2_def laneOf_def)
  ultimately show ?thesis using q(2) by (intro exI [of _ b2] exI [of _ ready]) auto
qed

lemma workerFrame_up:
  assumes "carries upDelivers xs (laneOf b) (w @ wgWrite b)" "frame \<in> framesOf xs" "length xs < 2 ^ 64 - 1"
  shows "\<exists>b' goOn. workerFrame cd pk room frame now b = Some (b', goOn) \<and> carries upDelivers xs (laneOf b') (w @ wgWrite b')"
proof -
  obtain l n p where f: "decodeBondFrame frame = GoOk \<lparr>bType = bondFrameData, bFlags = (if l then bondFlagLatency else 0), bSeq = n, bPayload = p\<rparr>"
    "(n, p) \<in> set (numberFrom1 (filter (inLane l) xs))" using framesOf_lane [OF assms(2)] by blast
  have t: "bondFrameData \<noteq> bondFrameKeepalive" by (simp add: bondFrameData_def bondFrameKeepalive_def)
  show ?thesis
  proof (cases "n = 0 \<or> p = []")
    case True
    let ?b = "b\<lparr>badFrames := badFrames b + 1\<rparr>"
    have "workerFrame cd pk room frame now b = Some (?b, True)" using True f(1) t by (auto simp: workerFrame_def acceptDataFrame_def)
    then show ?thesis using assms(1) by (intro exI [of _ ?b] exI [of _ True]) simp
  next
    case False
    then obtain b1 ready where b1: "acceptDataFrame room \<lparr>bType = bondFrameData, bFlags = (if l then bondFlagLatency else 0), bSeq = n, bPayload = p\<rparr> now b = Some (b1, ready, True)"
      "\<And>k. subseq k ready \<Longrightarrow> carries upDelivers xs (laneOf b1) ((w @ wgWrite b) @ k)"
      using acceptDataFrame_up [OF assms(1) f(2) assms(3), of room bondFrameData now] by blast
    let ?b = "enqueueWG cd pk 0 ready b1"
    have "workerFrame cd pk room frame now b = Some (?b, True)" using f(1) t b1(1) by (simp add: workerFrame_def)
    moreover obtain k where "subseq k ready" "wgWrite ?b = wgWrite b1 @ k" "laneOf ?b = laneOf b1"
      using enqueueWG_up [of ready cd pk 0 b1] by blast
    ultimately show ?thesis using b1(2) [of k] acceptDataFrame_keeps [OF b1(1)] by (intro exI [of _ ?b] exI [of _ True]) simp
  qed
qed

lemma workerFrame_keeps:
  assumes "workerFrame cd pk room frame now b = Some (b', goOn)"
  shows "(\<forall>l. outSeq l b' = outSeq l b) \<and> queued b' \<subseteq> queued b"
proof -
  have "outSeq l (enqueueWG cd pk 0 ready b) = outSeq l b" "queued (enqueueWG cd pk 0 ready b) = queued b" for l ready b
    using enqueueWG_up [of ready cd pk 0 b] queued_same [of "enqueueWG cd pk 0 ready b" b] by auto
  then show ?thesis using assms acceptDataFrame_keeps unfolding workerFrame_def
    by (auto split: gores.splits if_splits option.splits prod.splits) blast+
qed

lemma writerTick_keeps: "outSeq l (writerTick cd pk now b) = outSeq l b" "queued (writerTick cd pk now b) = queued b"
proof -
  obtain bq r1 lq r2 where c: "flushExpired now (bulkReorder b) = (bq, r1)" "flushExpired now (latencyReorder b) = (lq, r2)" by fastforce
  have "writerTick cd pk now b = enqueueWG cd pk 0 (r1 @ r2) (b\<lparr>bulkReorder := bq, latencyReorder := lq\<rparr>)" by (simp add: writerTick_def c)
  then show "outSeq l (writerTick cd pk now b) = outSeq l b" "queued (writerTick cd pk now b) = queued b"
    using enqueueWG_up [of "r1 @ r2" cd pk 0 "b\<lparr>bulkReorder := bq, latencyReorder := lq\<rparr>"] queued_same [of "writerTick cd pk now b" b] by auto
qed

lemma writerTick_up:
  assumes "carries upDelivers xs (laneOf b) (w @ wgWrite b)"
  shows "carries upDelivers xs (laneOf (writerTick cd pk now b)) (w @ wgWrite (writerTick cd pk now b))"
proof -
  obtain bq r1 lq r2 where c: "flushExpired now (bulkReorder b) = (bq, r1)" "flushExpired now (latencyReorder b) = (lq, r2)" by fastforce
  let ?b = "b\<lparr>bulkReorder := bq, latencyReorder := lq\<rparr>" and ?t = "writerTick cd pk now b"
  have e: "?t = enqueueWG cd pk 0 (r1 @ r2) ?b" by (simp add: writerTick_def c)
  obtain k where k: "subseq k (r1 @ r2)" "wgWrite ?t = wgWrite b @ k" "laneOf ?t = laneOf ?b"
    using enqueueWG_up [of "r1 @ r2" cd pk 0 ?b] unfolding e by auto
  have "laneOf ?b = (\<lambda>x. if x then lq else bq)" by (simp add: laneOf_def fun_eq_iff)
  then show ?thesis using up.carries_flush [OF assms, of now bq r1 lq r2 k] c k by (simp add: laneOf_def)
qed

section \<open>Both directions\<close>

definition linkInv :: "link \<Rightarrow> bool" where
  "linkInv n \<longleftrightarrow> numbered (cli n) \<and> laned (cli n) \<and> bondV2 (cli n) \<and>
     (\<forall>l. outSeq l (srv n) = of_nat (length (filter (inLane l) (wgIn n)))) \<and> queued (srv n) \<subseteq> downNet n \<and> downNet n \<subseteq> framesOf (wgIn n) \<and>
     (length (wgIn n) < 2 ^ 64 - 1 \<longrightarrow> carries downDelivers (wgIn n) (clientLane (cli n)) (dLocal (cli n))) \<and>
     (length (dSent (cli n)) < 2 ^ 64 - 1 \<longrightarrow> carries upDelivers (sentPackets (cli n)) (laneOf (srv n)) (wgOut n @ wgWrite (srv n)))"

lemma linkInv_start: "linkInv (newLink rate room)"
proof -
  define d where "d = NewDispatcherWithOptions True rate"
  define b where "b = newServerBond room"
  have d: "dSent d = []" "dLocal d = []" "bondV2 d" by (simp_all add: d_def NewDispatcherWithOptions_def Let_def)
  have b: "wgWrite b = []" "queued b = {}" "outSeq l b = 0" for l by (simp_all add: b_def newServerBond_def queued_def outSeq_def)
  have "clientLane d = (\<lambda>_. bmap snd (newBondReorderBuffer :: (64 word \<times> bytes) bondReorderBuffer))" "laneOf b = (\<lambda>_. rmap snd (newPacketReorder bondReorderHold :: (64 word \<times> bytes) packetReorder))"
    by (simp_all add: clientLane_def laneOf_def d_def NewDispatcherWithOptions_def b_def newServerBond_def Let_def fun_eq_iff bmap_def rmap_def newBondReorderBuffer_def newPacketReorder_def)
  then have "carries downDelivers [] (clientLane d) []" "carries upDelivers [] (laneOf b) []"
    using down.carries_init up.carries_init by simp_all
  moreover have "numbered d" unfolding d_def by (rule disp_reach_numbered) (rule disp_reach.start)
  ultimately show ?thesis using d b by (simp add: linkInv_def newLink_def laned_def sentPackets_def d_def [symmetric] b_def [symmetric])
qed

lemma linkInv_up:
  assumes "linkInv n" "upStep (cli n) d" "numbered d"
  shows "linkInv (n\<lparr>cli := d\<rparr>)"
proof -
  obtain xs where xs: "dSent d = dSent (cli n) @ xs" "\<forall>x \<in> set xs. inLane (fst x) (fst (snd x))" using assms(2) unfolding upStep_def by blast
  have "sentPackets d = sentPackets (cli n) @ map (fst \<circ> snd) xs" by (simp add: sentPackets_def xs(1))
  then have "carries upDelivers (sentPackets d) (laneOf (srv n)) (wgOut n @ wgWrite (srv n))" if "length (dSent d) < 2 ^ 64 - 1"
    using assms(1) that xs(1) up.carries_more unfolding linkInv_def by simp
  moreover have "laned d" using assms(1) xs unfolding linkInv_def laned_def by auto
  ultimately show ?thesis using assms unfolding linkInv_def upStep_def by simp
qed

lemma linkInv_quiet: "linkInv n \<Longrightarrow> disp_step (cli n) d \<Longrightarrow> upStep (cli n) d \<Longrightarrow> linkInv (n\<lparr>cli := d\<rparr>)"
  by (rule linkInv_up) (auto simp: linkInv_def intro: disp_step_numbered)

lemma linkInv_down:
  assumes "linkInv n" "upKept (cli n) d" "bondV2 d = bondV2 (cli n)" "length (wgIn n) < 2 ^ 64 - 1 \<Longrightarrow> carries downDelivers (wgIn n) (clientLane d) (dLocal d)"
  shows "linkInv (n\<lparr>cli := d\<rparr>)"
proof -
  have "dSent d = dSent (cli n)" using assms(2) by (simp add: upKept_def)
  moreover have "numbered d" using assms(1) upKept_numbered [OF assms(2)] by (simp add: linkInv_def)
  ultimately show ?thesis using assms(1,3,4) by (simp add: linkInv_def laned_def sentPackets_def)
qed

lemma linkInv_server:
  assumes "linkInv n" "\<And>l. outSeq l b = outSeq l (srv n)" "queued b \<subseteq> queued (srv n)"
    "length (dSent (cli n)) < 2 ^ 64 - 1 \<Longrightarrow> carries upDelivers (sentPackets (cli n)) (laneOf b) (w @ wgWrite b)"
  shows "linkInv (n\<lparr>srv := b, wgOut := w\<rparr>)"
  using assms unfolding linkInv_def by auto

lemma linkInv_kept:
  assumes "linkInv n" "srvKept (srv n) b"
  shows "linkInv (n\<lparr>srv := b\<rparr>)"
  using assms linkInv_server [of n b "wgOut n"] unfolding linkInv_def srvKept_def by auto

lemma linkInv_step:
  assumes "link_step n n'" "linkInv n"
  shows "linkInv n'"
  using assms
proof (induction rule: link_step.induct)
  case (read n now p) then show ?case by (rule linkInv_quiet [OF _ disp_step.read readPacket_up])
next
  case (takes n k)
  then show ?case by (rule linkInv_quiet [OF _ disp_step.takes]) (auto intro!: upStep_same simp: workerTakes_def)
next
  case (register n now w)
  then show ?case by (rule linkInv_quiet [OF _ disp_step.register]) (auto intro!: upStep_same simp: Register_def Let_def)
next
  case (unregister n key)
  then show ?case by (rule linkInv_quiet [OF _ disp_step.unregister]) (auto intro!: upStep_same simp: Unregister_def Let_def split: option.split)
next
  case (notify n g c)
  then show ?case by (rule linkInv_quiet [OF _ disp_step.notify]) (auto intro!: upStep_same simp: notifyWorkerCount_def)
next
  case (returned frame n wr now)
  then have f: "frame \<in> framesOf (wgIn n)" "bondV2 (cli n)" by (auto simp: linkInv_def)
  show ?case
  proof (rule linkInv_down [OF returned(2) returnPacket_kept])
    show "carries downDelivers (wgIn n) (clientLane (returnPacket wr now frame (cli n))) (dLocal (returnPacket wr now frame (cli n)))" if "length (wgIn n) < 2 ^ 64 - 1"
      using handleBondReturn_down [OF f(1) that] f(2) returned(2) that by (simp add: returnPacket_def linkInv_def)
  qed (simp add: returnPacket_def f(2) handleBondReturn_v2)
next
  case (clientTick n wr now)
  show ?case by (rule linkInv_down [OF clientTick tick_kept reorderTick_v2]) (use clientTick in \<open>auto simp: linkInv_def intro: reorderTick_down\<close>)
next
  case (receive frame n cd pk room now b goOn)
  then have f: "frame \<in> framesOf (sentPackets (cli n))" using sentFrames_framesOf by (auto simp: linkInv_def)
  have "carries upDelivers (sentPackets (cli n)) (laneOf b) (wgOut n @ wgWrite b)" if "length (dSent (cli n)) < 2 ^ 64 - 1"
  proof -
    have "length (sentPackets (cli n)) < 2 ^ 64 - 1" "carries upDelivers (sentPackets (cli n)) (laneOf (srv n)) (wgOut n @ wgWrite (srv n))"
      using receive(3) that by (simp_all add: sentPackets_def linkInv_def)
    then show ?thesis using workerFrame_up [OF _ f, of "srv n" "wgOut n" cd pk room now] receive(2) by auto
  qed
  then show ?case using linkInv_server [OF receive(3), of b "wgOut n"] workerFrame_keeps [OF receive(2)] by simp
next
  case (serverTick n cd pk now)
  have "linkInv (n\<lparr>srv := writerTick cd pk now (srv n), wgOut := wgOut n\<rparr>)"
    by (rule linkInv_server [OF serverTick]) (use serverTick in \<open>auto simp: writerTick_keeps linkInv_def intro: writerTick_up\<close>)
  then show ?case by simp
next
  case (written n p ps)
  then show ?case using linkInv_server [of n "(srv n)\<lparr>wgWrite := ps\<rparr>" "wgOut n @ [p]"] by (simp add: linkInv_def)
next
  case (serverRead p n b)
  then have i: "\<And>l. outSeq l (srv n) = of_nat (length (filter (inLane l) (wgIn n)))" "queued (srv n) \<subseteq> framesOf (wgIn n)" by (auto simp: linkInv_def)
  have "carries downDelivers (wgIn n @ [p]) (clientLane (cli n)) (dLocal (cli n))" if "length (wgIn n @ [p]) < 2 ^ 64 - 1"
    using serverRead(2) that down.carries_more by (simp add: linkInv_def)
  then show ?case using readerPacket_down [OF serverRead(1) i] serverRead(2) framesOf_more [of "wgIn n" "[p]"] by (auto simp: linkInv_def)
next
  case (serverTakes n w) then show ?case using linkInv_kept take_kept by blast
next
  case (join n i room wk) then show ?case using linkInv_kept join_kept by blast
next
  case (leave n w) then show ?case using linkInv_kept leave_kept by blast
next
  case (arm n) then show ?case using linkInv_kept arm_kept by blast
next
  case (fire n g) then show ?case using linkInv_kept fire_kept by blast
qed

lemma link_reach_inv: "link_reach n \<Longrightarrow> linkInv n"
  by (induction rule: link_reach.induct) (auto intro: linkInv_start linkInv_step)

text \<open>A client with one worker that has sent one packet, and the frame it made of it.\<close>

definition demoSlot :: WorkerSlot where
  "demoSlot = \<lparr>slotKey = 0, slotID = 1, RoomID = 0, SendCh = [], sendCap = 4, bucket = None\<rparr>"

definition demoFrame :: bytes where
  "demoFrame = bondMagic @ [bondVersion, bondFrameData] @ put16w bondFlagLatency @ put64 1 @ [7]"

lemma demo_sent: "dSent (readPacket 5 [7] (fst (Register 0 demoSlot (NewDispatcherWithOptions True 0)))) = [(True, [7], demoFrame)]"
  by code_simp

lemma first_push: "map_option snd (push 1 [7] 6 (newPacketReorder bondReorderHold)) = Some [[7 :: byte]]"
proof -
  have "makeRoom 1 (newPacketReorder bondReorderHold :: bytes packetReorder) = Some (newPacketReorder bondReorderHold, [])"
    by (subst makeRoom.simps) (simp add: newPacketReorder_def bondReorderWindow_def)
  moreover have "slot_at (newPacketReorder bondReorderHold :: bytes packetReorder) (slot_of 1) = None" by code_simp
  moreover have "snd (drain (storeSlot 1 [7 :: byte] (newPacketReorder bondReorderHold))) = [[7]]" by code_simp
  moreover have "nextSeq (newPacketReorder bondReorderHold :: bytes packetReorder) = 1" by (simp add: newPacketReorder_def)
  ultimately show ?thesis by (auto simp: push_def split: prod.split)
qed

lemma demo_written: "map_option (\<lambda>x. wgWrite (fst x)) (workerFrame (\<lambda>_. False) (\<lambda>_. False) 0 demoFrame 6 (newServerBond 0)) = Some [[7]]"
proof -
  have "decodeBondFrame demoFrame = GoOk \<lparr>bType = bondFrameData, bFlags = bondFlagLatency, bSeq = 1, bPayload = [7]\<rparr>" by code_simp
  moreover obtain q where "push 1 [7] 6 (newPacketReorder bondReorderHold) = Some (q, [[7 :: byte]])" using first_push by auto
  ultimately show ?thesis
    by (simp add: workerFrame_def acceptDataFrame_def newServerBond_def bondLatencyLane_def bondFlagLatency_def bondFrameData_def bondFrameKeepalive_def bondWGQueue_def)
qed



end
