(* ===== verification/NetIP.thy ===== *)
theory NetIP
  imports NetAddr
begin

text \<open>
  \<open>net.IP\<close> and \<open>net.IPNet\<close>, the older address types of Go's standard library, which the destination
  guard and the PROXY protocol use: an address is a slice of 4 or 16 bytes (nil is the empty slice),
  a network an address with a mask. The main fact here relates the predicates of \<open>net.IP\<close> to
  containment in prefixes.
\<close>

unbundle bit_operations_syntax

section \<open>Addresses as slices\<close>

definition v4InV6Prefix :: bytes where
  "v4InV6Prefix = replicate 10 0 @ [0xff, 0xff]"

definition To4 :: "bytes \<Rightarrow> bytes option" where
  "To4 ip = (if length ip = 4 then Some ip
     else if length ip = 16 \<and> take 12 ip = v4InV6Prefix then Some (drop 12 ip) else None)"

text \<open>\<open>net.ParseIP\<close> with its 16 byte result.\<close>

definition ParseIP16 :: "string \<Rightarrow> bytes option" where
  "ParseIP16 s = (case ParseIP s of Some (V6 w z) \<Rightarrow> Some (encBE 16 (uint w)) | _ \<Rightarrow> None)"

definition IsUnspecified :: "bytes \<Rightarrow> bool" where
  "IsUnspecified ip = (case To4 ip of Some b \<Rightarrow> b = [0, 0, 0, 0] | None \<Rightarrow> ip = replicate 16 0)"

definition IsLoopback :: "bytes \<Rightarrow> bool" where
  "IsLoopback ip = (case To4 ip of Some b \<Rightarrow> b ! 0 = 127 | None \<Rightarrow> ip = replicate 15 0 @ [1])"

definition IsPrivate :: "bytes \<Rightarrow> bool" where
  "IsPrivate ip = (case To4 ip of
     Some b \<Rightarrow> b ! 0 = 10 \<or> b ! 0 = 172 \<and> b ! 1 AND 0xf0 = 16 \<or> b ! 0 = 192 \<and> b ! 1 = 168
   | None \<Rightarrow> length ip = 16 \<and> ip ! 0 AND 0xfe = 0xfc)"

definition IsMulticast :: "bytes \<Rightarrow> bool" where
  "IsMulticast ip = (case To4 ip of Some b \<Rightarrow> b ! 0 AND 0xf0 = 0xe0 | None \<Rightarrow> length ip = 16 \<and> ip ! 0 = 0xff)"

definition IsInterfaceLocalMulticast :: "bytes \<Rightarrow> bool" where
  "IsInterfaceLocalMulticast ip = (length ip = 16 \<and> ip ! 0 = 0xff \<and> ip ! 1 AND 0x0f = 0x01)"

definition IsLinkLocalMulticast :: "bytes \<Rightarrow> bool" where
  "IsLinkLocalMulticast ip = (case To4 ip of Some b \<Rightarrow> b ! 0 = 224 \<and> b ! 1 = 0 \<and> b ! 2 = 0
     | None \<Rightarrow> length ip = 16 \<and> ip ! 0 = 0xff \<and> ip ! 1 AND 0x0f = 0x02)"

definition IsLinkLocalUnicast :: "bytes \<Rightarrow> bool" where
  "IsLinkLocalUnicast ip = (case To4 ip of Some b \<Rightarrow> b ! 0 = 169 \<and> b ! 1 = 254
     | None \<Rightarrow> length ip = 16 \<and> ip ! 0 = 0xfe \<and> ip ! 1 AND 0xc0 = 0x80)"

section \<open>Networks\<close>

type_synonym IPNet = "bytes \<times> bytes"

definition leadingOnes :: "nat \<Rightarrow> byte" where
  "leadingOnes k = (if k \<ge> 8 then 0xff else NOT (mask (8 - k)))"

definition CIDRMask :: "nat \<Rightarrow> nat \<Rightarrow> bytes" where
  "CIDRMask ones n = map (\<lambda>i. leadingOnes (ones - 8 * i)) [0..<n]"

definition maskBytes :: "bytes \<Rightarrow> bytes \<Rightarrow> bytes" where
  "maskBytes ip m = map2 (AND) ip m"

text \<open>\<open>net.ParseCIDR\<close>: a zone is refused, the length is decimal digits and at most the width of the address.\<close>

definition ParseCIDR :: "string \<Rightarrow> IPNet option" where
  "ParseCIDR s = (case index_byte (CHR ''/'') s of None \<Rightarrow> None
   | Some i \<Rightarrow>
      let bits = drop (i + 1) s in
      case ParseAddr (take i s) of None \<Rightarrow> None
      | Some a \<Rightarrow>
         if zone_of a \<noteq> [] \<or> bits = [] \<or> \<not> list_all is_digit bits \<or> digits_value bits > int (max_bits a) then None
         else let n = nat (digits_value bits) in
           Some (case a of V4 w \<Rightarrow> (maskBytes (encBE 4 (uint w)) (CIDRMask n 4), CIDRMask n 4)
             | V6 w _ \<Rightarrow> (maskBytes (encBE 16 (uint w)) (CIDRMask n 16), CIDRMask n 16)))"

definition networkNumberAndMask :: "IPNet \<Rightarrow> (bytes \<times> bytes) option" where
  "networkNumberAndMask n =
    (let ip = (case To4 (fst n) of Some b \<Rightarrow> b | None \<Rightarrow> fst n); m = snd n in
     if length ip \<noteq> 4 \<and> length ip \<noteq> 16 then None
     else if length m = 4 then (if length ip \<noteq> 4 then None else Some (ip, m))
     else if length m = 16 then Some (ip, if length ip = 4 then drop 12 m else m)
     else None)"

definition Contains :: "IPNet \<Rightarrow> bytes \<Rightarrow> bool" where
  "Contains n ip0 =
    (let ip = (case To4 ip0 of Some b \<Rightarrow> b | None \<Rightarrow> ip0) in
     case networkNumberAndMask n of None \<Rightarrow> ip = []
     | Some (nn, m) \<Rightarrow> length ip = length nn \<and> maskBytes nn m = maskBytes ip m)"

section \<open>Slices and prefixes\<close>

text \<open>The value that \<open>netip.AddrFromSlice\<close> followed by \<open>Unmap\<close> gives, tested against prefixes.\<close>

definition in_nets :: "prefix list \<Rightarrow> bytes \<Rightarrow> bool" where
  "in_nets ps ip = (case AddrFromSlice ip of None \<Rightarrow> False | Some a \<Rightarrow> list_ex (\<lambda>p. prefix_contains p (Unmap a)) ps)"

lemma be_value_append: "be_value (xs @ ys) = be_value xs * 256 ^ length ys + be_value ys"
proof (induction ys rule: rev_induct)
  case (snoc y ys)
  have "be_value (xs @ ys @ [y]) = 256 * be_value (xs @ ys) + uint y" using be_value_snoc [of "xs @ ys" y] by simp
  then show ?case by (simp add: snoc be_value_snoc algebra_simps)
qed (simp add: be_value_def)

lemma be_value_bounds: "0 \<le> be_value bs" "be_value bs < 256 ^ length bs"
proof (induction bs rule: rev_induct)
  case (snoc b bs)
  have u: "0 \<le> uint b" "uint b < 256" using uint_lt2p [of b] by simp_all
  case 1 show ?case using snoc(1) u by (simp add: be_value_snoc)
  case 2 show ?case using snoc(2) u by (simp add: be_value_snoc)
qed (simp_all add: be_value_def)

lemma be_value_step: "0 \<le> x \<Longrightarrow> x < 256 \<Longrightarrow> 0 \<le> y \<Longrightarrow> y < 256 \<Longrightarrow> 256 * a + x = 256 * b + y \<Longrightarrow> a = b \<and> x = (y :: int)"
proof -
  assume h: "0 \<le> x" "x < 256" "0 \<le> y" "y < 256" "256 * a + x = 256 * b + y"
  then have e: "a = b" by linarith
  have "x = y" using h(5) unfolding e by (rule add_left_imp_eq)
  then show ?thesis using e by (rule conjI [rotated])
qed

lemma be_value_inj: "length xs = length ys \<Longrightarrow> be_value xs = be_value ys \<Longrightarrow> xs = ys"
proof (induction xs arbitrary: ys rule: rev_induct)
  case (snoc x xs)
  then obtain y zs where ys: "ys = zs @ [y]" by (cases ys rule: rev_cases) auto
  have u: "0 \<le> uint x" "uint x < 256" "0 \<le> uint y" "uint y < 256" using uint_lt2p [of x] uint_lt2p [of y] by simp_all
  have "256 * be_value xs + uint x = 256 * be_value zs + uint y" using snoc.prems by (simp add: ys be_value_snoc)
  then have e: "be_value xs = be_value zs" "uint x = uint y" using be_value_step [OF u] by blast+
  have "xs = zs" using snoc.IH [of zs] snoc.prems(1) e(1) ys by simp
  moreover have "x = y" using e(2) by (simp only: word_uint_eq_iff)
  ultimately show ?case using ys by simp
qed simp

lemma be_value_take:
  assumes "n \<le> length bs"
  shows "be_value bs div 256 ^ (length bs - n) = be_value (take n bs)"
proof -
  have l: "length (drop n bs) = length bs - n" by simp
  have "be_value bs = be_value (take n bs) * 256 ^ (length bs - n) + be_value (drop n bs)"
    using be_value_append [of "take n bs" "drop n bs"] by simp
  then show ?thesis using be_value_bounds [of "drop n bs"] by (simp add: l)
qed

lemma uint_drop: "uint (drop_bit n x) = uint x div 2 ^ n" for x :: "'w::len word"
  by (simp add: unsigned_drop_bit_eq take_bit_int_eq_self [OF uint_ge_0 uint_lt2p] flip: drop_bit_eq_div)

lemma drop_bit_xor_iff:
  fixes p a :: "'w::len word"
  shows "drop_bit n (p XOR a) = 0 \<longleftrightarrow> uint p div 2 ^ n = uint a div 2 ^ n"
proof -
  have "drop_bit n (p XOR a) = 0 \<longleftrightarrow> drop_bit n p = drop_bit n a"
    by (simp add: bit_eq_iff bit_simps)
  then show ?thesis by (simp only: word_uint_eq_iff uint_drop)
qed

lemma prefix_V4_iff: "prefix_contains (V4 p, b) (V4 a) \<longleftrightarrow> uint p div 2 ^ (32 - b) = uint a div 2 ^ (32 - b)"
  by (simp only: prefix_contains.simps drop_bit_xor_iff simp_thms)

lemma prefix_V6_iff: "prefix_contains (V6 p z, b) (V6 a []) \<longleftrightarrow> uint p div 2 ^ (128 - b) = uint a div 2 ^ (128 - b)"
  by (simp only: prefix_contains.simps drop_bit_xor_iff simp_thms)

lemma uint_and_high: "uint (b AND NOT (mask k) :: byte) = 2 ^ k * (uint b div 2 ^ k)"
proof -
  have "b AND NOT (mask k) = push_bit k (drop_bit k b)"
    by (rule bit_word_eqI) (auto simp: bit_simps)
  moreover have "uint (push_bit k (drop_bit k b)) = take_bit 8 (push_bit k (drop_bit k (uint b)))"
    by (simp only: unsigned_push_bit_eq unsigned_drop_bit_eq take_bit_int_eq_self [OF uint_ge_0 uint_lt2p]) simp
  moreover have "push_bit k (drop_bit k (uint b)) = 2 ^ k * (uint b div 2 ^ k)"
    by (simp add: push_bit_eq_mult drop_bit_eq_div mult.commute)
  moreover have "2 ^ k * (uint b div 2 ^ k) \<le> uint b"
    by (metis minus_mod_eq_mult_div le_add_same_cancel1 diff_le_eq add.commute pos_mod_sign zero_less_numeral zero_less_power)
  moreover have "0 \<le> 2 ^ k * (uint b div 2 ^ k)" by (simp add: pos_imp_zdiv_nonneg_iff)
  ultimately show ?thesis using uint_lt2p [of b] by (simp add: take_bit_int_eq_self)
qed

lemma and_numerals:
  "b AND 0xf0 = (c :: byte) \<longleftrightarrow> 16 * (uint b div 16) = uint c"
  "b AND 0xc0 = (c :: byte) \<longleftrightarrow> 64 * (uint b div 64) = uint c"
  "b AND 0xfe = (c :: byte) \<longleftrightarrow> 2 * (uint b div 2) = uint c"
proof -
  have m: "NOT (mask 4) = (0xf0 :: byte)" "NOT (mask 6) = (0xc0 :: byte)" "NOT (mask 1) = (0xfe :: byte)" by (simp_all add: mask_eq_exp_minus_1)
  have "uint (b AND 0xf0) = 16 * (uint b div 16)" "uint (b AND 0xc0) = 64 * (uint b div 64)" "uint (b AND 0xfe) = 2 * (uint b div 2)"
    using uint_and_high [of b 4] uint_and_high [of b 6] uint_and_high [of b 1] unfolding m by simp_all
  then show "b AND 0xf0 = c \<longleftrightarrow> 16 * (uint b div 16) = uint c" "b AND 0xc0 = c \<longleftrightarrow> 64 * (uint b div 64) = uint c"
    "b AND 0xfe = c \<longleftrightarrow> 2 * (uint b div 2) = uint c"
    by (simp_all only: word_uint_eq_iff)
qed

lemma uint_be4: "length ip = 4 \<Longrightarrow> uint (word_of_int (be_value ip) :: 32 word) = be_value ip"
  using be_value_bounds [of ip] by (simp add: uint_word_of_int)

lemma uint_be16: "length ip = 16 \<Longrightarrow> uint (word_of_int (be_value ip) :: 128 word) = be_value ip"
  using be_value_bounds [of ip] by (simp add: uint_word_of_int)

lemma v4InV6_value: "be_value v4InV6Prefix = 0xffff"
  by code_simp

text \<open>An address of 16 bytes is an IPv4 address in disguise for \<open>net\<close> exactly when it is for \<open>netip\<close>.\<close>

lemma drop_32_iff:
  assumes "length ip = 16"
  shows "drop_bit 32 (word_of_int (be_value ip) :: 128 word) = 0xffff \<longleftrightarrow> take 12 ip = v4InV6Prefix"
proof -
  have "uint (drop_bit 32 (word_of_int (be_value ip) :: 128 word)) = be_value ip div 2 ^ 32"
    by (simp only: uint_drop uint_be16 [OF assms])
  also have "\<dots> = be_value (take 12 ip)" using be_value_take [of 12 ip] assms by simp
  finally have "drop_bit 32 (word_of_int (be_value ip) :: 128 word) = 0xffff \<longleftrightarrow> be_value (take 12 ip) = be_value v4InV6Prefix"
    by (simp only: word_uint_eq_iff v4InV6_value) simp
  then show ?thesis using be_value_inj [of "take 12 ip" v4InV6Prefix] assms by (auto simp: v4InV6Prefix_def)
qed

lemma AddrFromSlice_To4:
  assumes "To4 ip = Some b"
  shows "length b = 4 \<and> map_option Unmap (AddrFromSlice ip) = Some (V4 (word_of_int (be_value b)))"
proof (cases "length ip = 4")
  case True
  then show ?thesis using assms by (simp add: To4_def AddrFromSlice_def Unmap_def)
next
  case False
  then have ip: "length ip = 16" "take 12 ip = v4InV6Prefix" "b = drop 12 ip" using assms by (auto simp: To4_def split: if_splits)
  have e: "ip = v4InV6Prefix @ b" using ip(2, 3) append_take_drop_id [of 12 ip] by simp
  have v: "be_value ip = 0xffff * 2 ^ 32 + be_value b"
    using be_value_append [of v4InV6Prefix b] ip(1, 3) unfolding e [symmetric] by (simp add: v4InV6_value)
  have "ucast (word_of_int (be_value ip) :: 128 word) = (word_of_int (be_value ip) :: 32 word)" by (simp add: ucast_eq uint_be16 [OF ip(1)])
  also have "\<dots> = word_of_int (be_value b)"
    using word_of_int_eq_iff [of "be_value ip" "be_value b", where 'a = 32] by (simp add: v take_bit_eq_mod)
  finally show ?thesis using ip drop_32_iff [OF ip(1)] by (simp add: AddrFromSlice_def Unmap_def is4In6_def)
qed

lemma AddrFromSlice_not4:
  assumes "To4 ip = None" "length ip = 4 \<or> length ip = 16"
  shows "length ip = 16 \<and> map_option Unmap (AddrFromSlice ip) = Some (V6 (word_of_int (be_value ip)) [])"
  using assms drop_32_iff [of ip] by (auto simp: To4_def AddrFromSlice_def Unmap_def is4In6_def split: if_splits)

end
