(* ===== verification/DestinationGuard.thy ===== *)
theory DestinationGuard
  imports NetIP
begin

text \<open>
  pkg/tamizdat/ssrf_guard.go: which destinations an authenticated client may have dialled. The DNS
  resolver is an argument (\<open>None\<close>: the lookup fails); its answers are addresses of 4 or 16 bytes. The
  result keeps address and port apart, which the code prints into one string.
\<close>

definition isUnsafeIP :: "bytes \<Rightarrow> bool" where
  "isUnsafeIP ip =
    (if ip = [] then True
     else if IsLoopback ip \<or> IsLinkLocalUnicast ip \<or> IsLinkLocalMulticast ip \<or> IsInterfaceLocalMulticast ip \<or>
       IsMulticast ip \<or> IsUnspecified ip \<or> IsPrivate ip then True
     else (case To4 ip of
       Some ip4 \<Rightarrow>
         if ip4 ! 0 = 0 then True
         else if ip4 ! 0 = 100 \<and> ip4 ! 1 AND 0xC0 = 0x40 then True
         else if ip4 ! 0 \<ge> 240 then True
         else False
     | None \<Rightarrow> False))"

definition ResolveAndValidateDestination :: "(string \<Rightarrow> bytes list option) \<Rightarrow> string \<Rightarrow> string \<Rightarrow> (string, bytes \<times> string) gores" where
  "ResolveAndValidateDestination lookupDestinationIPAddr host port =
    (case Atoi port of
       None \<Rightarrow> GoErr ''unsafe: invalid port''
     | Some pn \<Rightarrow>
        if pn < 1 \<or> pn > 65535 then GoErr ''unsafe: invalid port''
        else (case ParseIP16 host of
          Some ip \<Rightarrow> if isUnsafeIP ip then GoErr ''unsafe: literal IP'' else GoOk (ip, port)
        | None \<Rightarrow>
           (case lookupDestinationIPAddr host of
              None \<Rightarrow> GoErr ''dns lookup''
            | Some ips \<Rightarrow>
                if length ips = 0 then GoErr ''dns lookup: no records''
                else (case find (\<lambda>ipa. \<not> isUnsafeIP ipa) ips of
                   Some ip \<Rightarrow> GoOk (ip, port)
                 | None \<Rightarrow> GoErr ''unsafe: all resolved IPs''))))"

section \<open>Reserved networks\<close>

text \<open>The ranges named in the comments of the source, as prefixes.\<close>

definition reservedNets :: "prefix list" where
  "reservedNets =
    [(V4 0, 8), (V4 0x0A000000, 8), (V4 0x64400000, 10), (V4 0x7F000000, 8), (V4 0xA9FE0000, 16),
     (V4 0xAC100000, 12), (V4 0xC0A80000, 16), (V4 0xE0000000, 4), (V4 0xF0000000, 4),
     (V6 0 [], 128), (V6 1 [], 128), (V6 0xFC000000000000000000000000000000 [], 7),
     (V6 0xFE800000000000000000000000000000 [], 10), (V6 0xFF000000000000000000000000000000 [], 8)]"

section \<open>The guard is the list of reserved networks\<close>

lemma byte_range: "0 \<le> uint b" "uint b < 256" for b :: byte
  using uint_lt2p [of b] by simp_all

lemma be4_take: "be_value [a, b, c, d] div 256 ^ 3 = uint a" "be_value [a, b, c, d] div 256 ^ 2 = 256 * uint a + uint b"
proof -
  have "be_value [a, b, c, d] div 256 ^ 3 = be_value [a]"
    using be_value_take [of 1 "[a, b, c, d]"] by (simp add: numeral_3_eq_3 del: power_Suc)
  then show "be_value [a, b, c, d] div 256 ^ 3 = uint a" by (simp add: be_value_def)
  have "be_value [a, b, c, d] div 256 ^ 2 = be_value [a, b]"
    using be_value_take [of 2 "[a, b, c, d]"] by (simp add: numeral_2_eq_2 del: power_Suc)
  then show "be_value [a, b, c, d] div 256 ^ 2 = 256 * uint a + uint b" by (simp add: be_value_def)
qed

lemma refine_div: "v div 256 ^ 3 = x \<Longrightarrow> v div 2 ^ 28 = x div (16 :: int)" "v div 256 ^ 2 = x \<Longrightarrow> v div 2 ^ 22 = x div (64 :: int)"
  "v div 256 ^ 2 = x \<Longrightarrow> v div 2 ^ 20 = x div (16 :: int)"
proof -
  have p: "(2 :: int) ^ 28 = 256 ^ 3 * 16" "(2 :: int) ^ 22 = 256 ^ 2 * 64" "(2 :: int) ^ 20 = 256 ^ 2 * 16" by simp_all
  show "v div 256 ^ 3 = x \<Longrightarrow> v div 2 ^ 28 = x div 16" unfolding p(1) by (simp only: zdiv_zmult2_eq zero_le_numeral)
  show "v div 256 ^ 2 = x \<Longrightarrow> v div 2 ^ 22 = x div 64" unfolding p(2) by (simp only: zdiv_zmult2_eq zero_le_numeral)
  show "v div 256 ^ 2 = x \<Longrightarrow> v div 2 ^ 20 = x div 16" unfolding p(3) by (simp only: zdiv_zmult2_eq zero_le_numeral)
qed

lemma byte_divs: "(256 * x + y) div 64 = 4 * x + y div 64" "(256 * x + y) div 16 = 16 * x + y div (16 :: int)"
  by simp_all

lemma be4_div:
  "be_value [a, b, c, d] div 2 ^ 24 = uint a" "be_value [a, b, c, d] div 2 ^ 16 = 256 * uint a + uint b"
  "be_value [a, b, c, d] div 2 ^ 28 = uint a div 16" "be_value [a, b, c, d] div 2 ^ 22 = 4 * uint a + uint b div 64"
  "be_value [a, b, c, d] div 2 ^ 20 = 16 * uint a + uint b div 16"
proof -
  have p: "(2 :: int) ^ 24 = 256 ^ 3" "(2 :: int) ^ 16 = 256 ^ 2" by simp_all
  show "be_value [a, b, c, d] div 2 ^ 24 = uint a" "be_value [a, b, c, d] div 2 ^ 16 = 256 * uint a + uint b"
    unfolding p by (rule be4_take)+
  show "be_value [a, b, c, d] div 2 ^ 28 = uint a div 16" by (rule refine_div(1) [OF be4_take(1)])
  show "be_value [a, b, c, d] div 2 ^ 22 = 4 * uint a + uint b div 64"
    unfolding byte_divs [symmetric] by (rule refine_div(2) [OF be4_take(2)])
  show "be_value [a, b, c, d] div 2 ^ 20 = 16 * uint a + uint b div 16"
    unfolding byte_divs [symmetric] by (rule refine_div(3) [OF be4_take(2)])
qed

lemma split_quotient:
  assumes "0 \<le> q" "q < n" "0 \<le> r" "r < (n :: int)"
  shows "n * x + q = n * k + r \<longleftrightarrow> x = k \<and> q = r"
proof
  assume h: "n * x + q = n * k + r"
  have "(n * x + q) div n = x" "(n * k + r) div n = k" using assms by simp_all
  then have "x = k" using h by simp
  then show "x = k \<and> q = r" using h by simp
qed simp

lemma To4_not_interface_local: "To4 ip = Some b \<Longrightarrow> \<not> IsInterfaceLocalMulticast ip"
proof
  assume a: "To4 ip = Some b" "IsInterfaceLocalMulticast ip"
  then have "take 12 ip = v4InV6Prefix" "ip ! 0 = 0xff" by (auto simp: To4_def IsInterfaceLocalMulticast_def split: if_splits)
  then show False using nth_take [of 0 12 ip] by (simp add: v4InV6Prefix_def nth_append)
qed

lemma nets4_iff:
  assumes "To4 ip = Some [a, b, c, d]"
  shows "in_nets reservedNets ip \<longleftrightarrow> uint a = 0 \<or> uint a = 10 \<or> uint a = 100 \<and> uint b div 64 = 1 \<or> uint a = 127 \<or> uint a = 169 \<and> uint b = 254 \<or>
      uint a = 172 \<and> uint b div 16 = 1 \<or> uint a = 192 \<and> uint b = 168 \<or> uint a div 16 = 14 \<or> uint a div 16 = 15"
proof -
  let ?A = "uint a" and ?B = "uint b"
  note r = byte_range [of a] byte_range [of b]
  have q: "0 \<le> ?B div 64" "?B div 64 < 4" "0 \<le> ?B div 16" "?B div 16 < 16"
    using r by (auto simp: div_less_iff_less_mult pos_imp_zdiv_nonneg_iff)
  have n: "(32 :: nat) - 8 = 24" "(32 :: nat) - 16 = 16" "(32 :: nat) - 4 = 28" "(32 :: nat) - 10 = 22" "(32 :: nat) - 12 = 20" by simp_all
  have be4: "be_value [a, b, c, d] div 2 ^ (32 - 8) = ?A" "be_value [a, b, c, d] div 2 ^ (32 - 16) = 256 * ?A + ?B"
    "be_value [a, b, c, d] div 2 ^ (32 - 4) = ?A div 16" "be_value [a, b, c, d] div 2 ^ (32 - 10) = 4 * ?A + ?B div 64"
    "be_value [a, b, c, d] div 2 ^ (32 - 12) = 16 * ?A + ?B div 16" unfolding n by (rule be4_div)+
  have s: "4 * ?A + ?B div 64 = 401 \<longleftrightarrow> ?A = 100 \<and> ?B div 64 = 1" "16 * ?A + ?B div 16 = 2753 \<longleftrightarrow> ?A = 172 \<and> ?B div 16 = 1"
    "256 * ?A + ?B = 43518 \<longleftrightarrow> ?A = 169 \<and> ?B = 254" "256 * ?A + ?B = 49320 \<longleftrightarrow> ?A = 192 \<and> ?B = 168"
    subgoal using split_quotient [OF q(1, 2), of 1 ?A 100] by simp
    subgoal using split_quotient [OF q(3, 4), of 1 ?A 172] by simp
    subgoal using split_quotient [OF r(3, 4), of 254 ?A 169] by simp
    subgoal using split_quotient [OF r(3, 4), of 168 ?A 192] by simp
    done
  obtain x where x: "AddrFromSlice ip = Some x" "Unmap x = V4 (word_of_int (be_value [a, b, c, d]))"
    using AddrFromSlice_To4 [OF assms] by auto
  have u: "uint (word_of_int (be_value [a, b, c, d]) :: 32 word) = be_value [a, b, c, d]" by (rule uint_be4) simp
  have e: "in_nets reservedNets ip \<longleftrightarrow> list_ex (\<lambda>p. prefix_contains p (V4 (word_of_int (be_value [a, b, c, d])))) reservedNets"
    by (simp add: in_nets_def x)
  let ?w = "V4 (word_of_int (be_value [a, b, c, d]))"
  have h: "prefix_contains (V4 0, 8) ?w \<longleftrightarrow> ?A = 0" "prefix_contains (V4 0x0A000000, 8) ?w \<longleftrightarrow> ?A = 10"
    "prefix_contains (V4 0x64400000, 10) ?w \<longleftrightarrow> ?A = 100 \<and> ?B div 64 = 1" "prefix_contains (V4 0x7F000000, 8) ?w \<longleftrightarrow> ?A = 127"
    "prefix_contains (V4 0xA9FE0000, 16) ?w \<longleftrightarrow> ?A = 169 \<and> ?B = 254" "prefix_contains (V4 0xAC100000, 12) ?w \<longleftrightarrow> ?A = 172 \<and> ?B div 16 = 1"
    "prefix_contains (V4 0xC0A80000, 16) ?w \<longleftrightarrow> ?A = 192 \<and> ?B = 168" "prefix_contains (V4 0xE0000000, 4) ?w \<longleftrightarrow> ?A div 16 = 14"
    "prefix_contains (V4 0xF0000000, 4) ?w \<longleftrightarrow> ?A div 16 = 15"
    unfolding s [symmetric] by (simp_all only: prefix_V4_iff u be4) auto
  have v: "prefix_contains (V6 p z, k) ?w = False" for p z k by simp
  show ?thesis unfolding e unfolding reservedNets_def by (simp only: list_ex_iff list.set bex_simps h v simp_thms)
qed

lemma unsafe4_iff:
  assumes "To4 ip = Some [a, b, c, d]"
  shows "isUnsafeIP ip \<longleftrightarrow> in_nets reservedNets ip"
proof -
  have ne: "ip \<noteq> []" "\<not> IsInterfaceLocalMulticast ip" using assms To4_not_interface_local [OF assms] by (auto simp: To4_def)
  have e: "a = 127 \<longleftrightarrow> uint a = 127" "a = 169 \<longleftrightarrow> uint a = 169" "b = 254 \<longleftrightarrow> uint b = 254" "a = 10 \<longleftrightarrow> uint a = 10" "a = 172 \<longleftrightarrow> uint a = 172"
    "a = 192 \<longleftrightarrow> uint a = 192" "b = 168 \<longleftrightarrow> uint b = 168" "a = 0 \<longleftrightarrow> uint a = 0" "a = 100 \<longleftrightarrow> uint a = 100" "240 \<le> a \<longleftrightarrow> 240 \<le> uint a"
    "a = 224 \<longleftrightarrow> uint a = 224"
    by (simp_all only: word_uint_eq_iff word_le_def) simp_all
  have m: "a AND 0xf0 = 0xe0 \<longleftrightarrow> uint a div 16 = 14" "b AND 0xf0 = 16 \<longleftrightarrow> uint b div 16 = 1" "b AND 0xC0 = 0x40 \<longleftrightarrow> uint b div 64 = 1"
    unfolding and_numerals by simp_all
  have n: "[a, b, c, d] ! 0 = a" "[a, b, c, d] ! 1 = b" "[a, b, c, d] ! 2 = c" by simp_all
  have p: "IsLoopback ip \<longleftrightarrow> uint a = 127" "IsLinkLocalUnicast ip \<longleftrightarrow> uint a = 169 \<and> uint b = 254" "IsMulticast ip \<longleftrightarrow> uint a div 16 = 14"
    "IsPrivate ip \<longleftrightarrow> uint a = 10 \<or> uint a = 172 \<and> uint b div 16 = 1 \<or> uint a = 192 \<and> uint b = 168"
    unfolding IsLoopback_def IsLinkLocalUnicast_def IsMulticast_def IsPrivate_def assms option.case n m e by (rule refl)+
  have q: "IsLinkLocalMulticast ip \<Longrightarrow> uint a div 16 = 14" "IsUnspecified ip \<Longrightarrow> uint a = 0"
    by (auto simp: IsLinkLocalMulticast_def IsUnspecified_def assms)
  have "isUnsafeIP ip \<longleftrightarrow> IsLoopback ip \<or> IsLinkLocalUnicast ip \<or> IsLinkLocalMulticast ip \<or> IsMulticast ip \<or> IsUnspecified ip \<or> IsPrivate ip \<or>
      a = 0 \<or> a = 100 \<and> b AND 0xC0 = 0x40 \<or> 240 \<le> a"
    using ne by (simp add: isUnsafeIP_def assms)
  then have "isUnsafeIP ip \<longleftrightarrow> uint a = 127 \<or> uint a = 169 \<and> uint b = 254 \<or> uint a div 16 = 14 \<or> uint a = 10 \<or>
      uint a = 172 \<and> uint b div 16 = 1 \<or> uint a = 192 \<and> uint b = 168 \<or> uint a = 0 \<or> uint a = 100 \<and> uint b div 64 = 1 \<or> 240 \<le> uint a"
    unfolding p e m using q by blast
  moreover have "240 \<le> uint a \<longleftrightarrow> uint a div 16 = 15" using byte_range [of a] by linarith
  ultimately show ?thesis unfolding nets4_iff [OF assms] by blast
qed

lemma be16_div:
  assumes "length ip = 16"
  shows "be_value ip div 2 ^ 120 = uint (ip ! 0)" "be_value ip div 2 ^ 121 = uint (ip ! 0) div 2"
    "be_value ip div 2 ^ 118 = 4 * uint (ip ! 0) + uint (ip ! 1) div 64"
proof -
  obtain a b r where ip: "ip = a # b # r" "length r = 14" using assms by (auto simp: numeral_eq_Suc length_Suc_conv)
  have t: "be_value ip div 256 ^ 15 = uint a" "be_value ip div 256 ^ 14 = 256 * uint a + uint b"
    using be_value_take [of 1 ip] be_value_take [of 2 ip] assms ip by (simp_all add: be_value_def numeral_2_eq_2 del: power_Suc)
  have p: "(2 :: int) ^ 120 = 256 ^ 15" "(2 :: int) ^ 121 = 256 ^ 15 * 2" "(2 :: int) ^ 118 = 256 ^ 14 * 64" by simp_all
  show "be_value ip div 2 ^ 120 = uint (ip ! 0)" "be_value ip div 2 ^ 121 = uint (ip ! 0) div 2"
    "be_value ip div 2 ^ 118 = 4 * uint (ip ! 0) + uint (ip ! 1) div 64"
    subgoal unfolding p(1) t(1) by (simp add: ip)
    subgoal unfolding p(2) by (simp only: zdiv_zmult2_eq zero_le_numeral t(1)) (simp add: ip)
    subgoal unfolding p(3) by (simp only: zdiv_zmult2_eq zero_le_numeral t(2) byte_divs) (simp add: ip)
    done
qed

lemma be16_exact:
  assumes "length ip = 16"
  shows "be_value ip = 0 \<longleftrightarrow> ip = replicate 16 0" "be_value ip = 1 \<longleftrightarrow> ip = replicate 15 0 @ [1]"
proof -
  have v: "be_value (replicate 16 0) = 0" "be_value (replicate 15 0 @ [1]) = 1" by code_simp+
  show "be_value ip = 0 \<longleftrightarrow> ip = replicate 16 0" using be_value_inj [of ip "replicate 16 0"] assms v(1) by auto
  show "be_value ip = 1 \<longleftrightarrow> ip = replicate 15 0 @ [1]" using be_value_inj [of ip "replicate 15 0 @ [1]"] assms v(2) by auto
qed

lemma nets6_iff:
  assumes "To4 ip = None" "length ip = 16"
  shows "in_nets reservedNets ip \<longleftrightarrow> ip = replicate 16 0 \<or> ip = replicate 15 0 @ [1] \<or> uint (ip ! 0) div 2 = 126 \<or>
    uint (ip ! 0) = 254 \<and> uint (ip ! 1) div 64 = 2 \<or> uint (ip ! 0) = 255"
proof -
  let ?A = "uint (ip ! 0)" and ?B = "uint (ip ! 1)"
  have q: "0 \<le> ?B div 64" "?B div 64 < 4" using byte_range [of "ip ! 1"] by (auto simp: div_less_iff_less_mult pos_imp_zdiv_nonneg_iff)
  have s: "4 * ?A + ?B div 64 = 1018 \<longleftrightarrow> ?A = 254 \<and> ?B div 64 = 2" using split_quotient [OF q, of 2 ?A 254] by simp
  obtain x where x: "AddrFromSlice ip = Some x" "Unmap x = V6 (word_of_int (be_value ip)) []"
    using AddrFromSlice_not4 [OF assms(1)] assms(2) by auto
  have e: "in_nets reservedNets ip \<longleftrightarrow> list_ex (\<lambda>p. prefix_contains p (V6 (word_of_int (be_value ip)) [])) reservedNets"
    by (simp add: in_nets_def x)
  let ?w = "V6 (word_of_int (be_value ip)) []"
  have n: "(128 :: nat) - 7 = 121" "(128 :: nat) - 10 = 118" "(128 :: nat) - 8 = 120" "(2 :: int) ^ (128 - 128) = 1" by simp_all
  have h: "prefix_contains (V6 0 [], 128) ?w \<longleftrightarrow> ip = replicate 16 0" "prefix_contains (V6 1 [], 128) ?w \<longleftrightarrow> ip = replicate 15 0 @ [1]"
    "prefix_contains (V6 0xFC000000000000000000000000000000 [], 7) ?w \<longleftrightarrow> ?A div 2 = 126"
    "prefix_contains (V6 0xFE800000000000000000000000000000 [], 10) ?w \<longleftrightarrow> ?A = 254 \<and> ?B div 64 = 2"
    "prefix_contains (V6 0xFF000000000000000000000000000000 [], 8) ?w \<longleftrightarrow> ?A = 255"
    unfolding s [symmetric] be16_exact [OF assms(2), symmetric]
    by (simp_all only: prefix_V6_iff uint_be16 [OF assms(2)] n be16_div [OF assms(2)]) auto
  have v: "prefix_contains (V4 p, k) ?w = False" for p k by simp
  show ?thesis unfolding e unfolding reservedNets_def by (simp only: list_ex_iff list.set bex_simps h v simp_thms)
qed

lemma unsafe6_iff:
  assumes "To4 ip = None" "length ip = 16"
  shows "isUnsafeIP ip \<longleftrightarrow> in_nets reservedNets ip"
proof -
  have ne: "ip \<noteq> []" using assms by auto
  have e: "ip ! 0 = 255 \<longleftrightarrow> uint (ip ! 0) = 255" "ip ! 0 = 254 \<longleftrightarrow> uint (ip ! 0) = 254"
    by (simp_all only: word_uint_eq_iff) simp_all
  have m: "ip ! 0 AND 0xfe = 0xfc \<longleftrightarrow> uint (ip ! 0) div 2 = 126" "ip ! 1 AND 0xC0 = 0x80 \<longleftrightarrow> uint (ip ! 1) div 64 = 2"
    unfolding and_numerals by simp_all
  have p: "IsLoopback ip \<longleftrightarrow> ip = replicate 15 0 @ [1]" "IsUnspecified ip \<longleftrightarrow> ip = replicate 16 0"
    "IsLinkLocalUnicast ip \<longleftrightarrow> uint (ip ! 0) = 254 \<and> uint (ip ! 1) div 64 = 2" "IsMulticast ip \<longleftrightarrow> uint (ip ! 0) = 255"
    "IsPrivate ip \<longleftrightarrow> uint (ip ! 0) div 2 = 126"
    unfolding IsLoopback_def IsUnspecified_def IsLinkLocalUnicast_def IsMulticast_def IsPrivate_def assms option.case m e by simp_all
  have q: "IsLinkLocalMulticast ip \<Longrightarrow> uint (ip ! 0) = 255" "IsInterfaceLocalMulticast ip \<Longrightarrow> uint (ip ! 0) = 255"
    unfolding IsLinkLocalMulticast_def IsInterfaceLocalMulticast_def assms option.case by simp_all
  have "isUnsafeIP ip \<longleftrightarrow> IsLoopback ip \<or> IsLinkLocalUnicast ip \<or> IsLinkLocalMulticast ip \<or> IsInterfaceLocalMulticast ip \<or> IsMulticast ip \<or>
      IsUnspecified ip \<or> IsPrivate ip"
    using ne by (simp add: isUnsafeIP_def assms)
  then show ?thesis unfolding nets6_iff [OF assms] p using q by blast
qed

lemma isUnsafeIP_iff:
  assumes "length ip = 4 \<or> length ip = 16"
  shows "isUnsafeIP ip \<longleftrightarrow> in_nets reservedNets ip"
proof (cases "To4 ip")
  case None
  then show ?thesis using unsafe6_iff [OF None] AddrFromSlice_not4 [OF None assms] by blast
next
  case (Some b)
  then obtain w x y z where "b = [w, x, y, z]"
    using AddrFromSlice_To4 [OF Some] by (auto simp: numeral_eq_Suc length_Suc_conv)
  then show ?thesis using unsafe4_iff Some by blast
qed

lemma ParseIP16_length: "ParseIP16 host = Some ip \<Longrightarrow> length ip = 16"
  by (auto simp: ParseIP16_def split: option.splits addr.splits)

definition candidates :: "(string \<Rightarrow> bytes list option) \<Rightarrow> string \<Rightarrow> bytes list" where
  "candidates lookup host = (case ParseIP16 host of Some ip \<Rightarrow> [ip] | None \<Rightarrow> case lookup host of Some ips \<Rightarrow> ips | None \<Rightarrow> [])"

definition port_ok :: "string \<Rightarrow> bool" where
  "port_ok port = (case Atoi port of None \<Rightarrow> False | Some pn \<Rightarrow> 1 \<le> pn \<and> pn \<le> 65535)"

text \<open>C10. No client reaches a reserved address: whatever host and port it asks for and whatever the resolver
  answers, the address handed to the dialler lies in none of the reserved networks (IPv4-mapped forms
  included) and is the literal or the first answer outside those networks; and an address outside them
  is only refused for its port.\<close>

theorem guard_blocks_exactly_reserved:
  assumes "\<And>ips ip. lookup host = Some ips \<Longrightarrow> ip \<in> set ips \<Longrightarrow> length ip = 4 \<or> length ip = 16"
  shows "case ResolveAndValidateDestination lookup host port of
      GoOk (ip, p) \<Rightarrow> port_ok port \<and> p = port \<and> find (\<lambda>ip. \<not> in_nets reservedNets ip) (candidates lookup host) = Some ip
    | GoErr _ \<Rightarrow> \<not> port_ok port \<or> (\<forall>ip \<in> set (candidates lookup host). in_nets reservedNets ip)
    | GoPanic \<Rightarrow> False"
proof -
  let ?c = "candidates lookup host"
  have "\<forall>ip \<in> set ?c. length ip = 4 \<or> length ip = 16"
    using assms ParseIP16_length by (auto simp: candidates_def split: option.splits) (metis)+
  then have c: "\<forall>ip \<in> set ?c. isUnsafeIP ip \<longleftrightarrow> in_nets reservedNets ip" using isUnsafeIP_iff by blast
  then have f: "find (\<lambda>ip. \<not> in_nets reservedNets ip) ?c = find (\<lambda>ip. \<not> isUnsafeIP ip) ?c"
    by (intro find_cong) auto
  have n: "find (\<lambda>ip. \<not> isUnsafeIP ip) ?c = None \<Longrightarrow> \<forall>ip \<in> set ?c. in_nets reservedNets ip"
    using c by (auto simp: find_None_iff)
  show ?thesis unfolding f using n
    by (auto simp: ResolveAndValidateDestination_def port_ok_def candidates_def split: option.splits if_splits)
qed

theorem guard_blocks_exactly_reserved_witness:
  "ResolveAndValidateDestination (\<lambda>_. Some [[10, 0, 0, 1], [1, 1, 1, 1]]) ''example.org'' ''443'' = GoOk ([1, 1, 1, 1], ''443'') \<and>
   find (\<lambda>ip. \<not> in_nets reservedNets ip) (candidates (\<lambda>_. Some [[10, 0, 0, 1], [1, 1, 1, 1]]) ''example.org'') = Some [1, 1, 1, 1]"
proof -
  have r: "ResolveAndValidateDestination (\<lambda>_. Some [[10, 0, 0, 1], [1, 1, 1, 1]]) ''example.org'' ''443'' = GoOk ([1, 1, 1, 1], ''443'')"
    by code_simp
  have "length ip = 4 \<or> length ip = 16" if "Some [[10, 0, 0, 1], [1, 1, 1, 1]] = Some ips" "ip \<in> set ips" for ips and ip :: bytes
    using that by auto
  from guard_blocks_exactly_reserved [of "\<lambda>_. Some [[10, 0, 0, 1], [1, 1, 1, 1]]" "''example.org''" "''443''", OF this] show ?thesis
    unfolding r by simp
qed

end
