(* ===== verification/Sniffing.thy ===== *)
theory Sniffing
  imports ClientHello NetAddr
begin

text \<open>
  internal/sniff/sniff.go and http.go: the host name of a forwarded stream is read out of its first
  bytes, either from a TLS ClientHello (\<open>TLSClientHello\<close> of the theory \<open>ClientHello\<close>) or from the Host
  header of a plain HTTP request, without taking the bytes away from the reader that follows.

  A connection is the bytes it still delivers and the error it ends with. A read of at most \<open>n\<close> bytes
  returns between one and \<open>n\<close> of them; \<open>k\<close> is how many arrive, \<open>early\<close> whether the error comes
  together with the last bytes or only with the next read.
\<close>

section \<open>The Host header\<close>

primrec find_crlf :: "bytes \<Rightarrow> nat option" where
  "find_crlf [] = None"
| "find_crlf (b # bs) = (if b = 13 \<and> (case bs of [] \<Rightarrow> False | c # _ \<Rightarrow> c = 10) then Some 0 else map_option Suc (find_crlf bs))"

primrec find_byte :: "byte \<Rightarrow> bytes \<Rightarrow> nat option" where
  "find_byte c [] = None"
| "find_byte c (b # bs) = (if b = c then Some 0 else map_option Suc (find_byte c bs))"

definition looksLikeHTTPMethod :: "bytes \<Rightarrow> bool" where
  "looksLikeHTTPMethod data = list_ex (\<lambda>m. take (length m) data = bytes_of_str m)
     [''GET '', ''POST '', ''HEAD '', ''PUT '', ''DELETE '', ''OPTIONS '', ''PATCH '', ''CONNECT '', ''TRACE '']"

text \<open>What the loop of \<open>HTTPHost\<close> does with one line: go on, or return.\<close>

definition hostLine :: "bytes \<Rightarrow> (string \<times> bool) option" where
  "hostLine line =
    (if length line = 0 then Some ([], False)
     else case find_byte 58 line of
       None \<Rightarrow> None
     | Some colon \<Rightarrow>
         if to_lower (trim_space (str_of_bytes (take colon line))) \<noteq> ''host'' then None
         else let val = trim_space (str_of_bytes (drop (colon + 1) line));
                  val = (case index_byte (CHR '':'') val of None \<Rightarrow> val | Some i \<Rightarrow> take i val);
                  val = to_lower val in
              if val = [] then Some ([], False) else Some (val, True))"

lemma find_crlf_less: "find_crlf bs = Some i \<Longrightarrow> i + 2 \<le> length bs"
  by (induction bs arbitrary: i) (auto split: if_splits list.splits)

function headerLoop :: "bytes \<Rightarrow> string \<times> bool" where
  "headerLoop headerBlock =
    (if length headerBlock = 0 then ([], False)
     else case find_crlf headerBlock of
       None \<Rightarrow> (case hostLine headerBlock of Some r \<Rightarrow> r | None \<Rightarrow> ([], False))
     | Some end' \<Rightarrow> (case hostLine (take end' headerBlock) of Some r \<Rightarrow> r | None \<Rightarrow> headerLoop (drop (end' + 2) headerBlock)))"
  by pat_completeness auto
termination
  by (relation "measure length") (auto dest: find_crlf_less)

declare headerLoop.simps [simp del]

definition HTTPHost :: "bytes \<Rightarrow> string \<times> bool" where
  "HTTPHost data =
    (if length data < 16 then ([], False)
     else if \<not> looksLikeHTTPMethod data then ([], False)
     else case find_crlf data of
       None \<Rightarrow> ([], False)
     | Some i \<Rightarrow> if i + 2 \<ge> length data then ([], False) else headerLoop (drop (i + 2) data))"

section \<open>Peeking\<close>

definition MaxPeekBytes :: nat where "MaxPeekBytes = 4096"

type_synonym conn = "bytes \<times> string"

definition connRead :: "nat \<Rightarrow> nat \<Rightarrow> bool \<Rightarrow> conn \<Rightarrow> conn \<times> bytes \<times> string option" where
  "connRead n k early c =
    (case c of (input, err) \<Rightarrow>
      if input = [] then (c, [], Some err)
      else let m = min n (Suc k) in ((drop m input, err), take m input, if early \<and> drop m input = [] then Some err else None))"

record BufferedConn =
  under :: conn
  buf :: bytes
  bgErr :: "string option"
  bgDone :: bool

definition newBufferedConn :: "conn \<Rightarrow> BufferedConn" where
  "newBufferedConn c = \<lparr>under = c, buf = [], bgErr = None, bgDone = False\<rparr>"

definition fill :: "nat \<Rightarrow> bool \<Rightarrow> BufferedConn \<Rightarrow> BufferedConn" where
  "fill k early b = (case connRead MaxPeekBytes k early (under b) of (c, chunk, err) \<Rightarrow>
     b\<lparr>under := c, buf := buf b @ chunk, bgErr := err, bgDone := True\<rparr>)"

text \<open>\<open>Read\<close> waits for the fill, which is \<open>None\<close> here.\<close>

definition bufferedRead :: "nat \<Rightarrow> nat \<Rightarrow> bool \<Rightarrow> BufferedConn \<Rightarrow> (BufferedConn \<times> bytes \<times> string option) option" where
  "bufferedRead n k early b =
    (if \<not> bgDone b then None
     else if length (buf b) > 0 then Some (b\<lparr>buf := drop n (buf b)\<rparr>, take n (buf b), None)
     else case bgErr b of
       Some e \<Rightarrow> Some (b, [], Some e)
     | None \<Rightarrow> (case connRead n k early (under b) of (c, p, e) \<Rightarrow> Some (b\<lparr>under := c\<rparr>, p, e)))"

text \<open>\<open>PeekConn\<close>: \<open>filled\<close> tells whether the background read came back within the timeout.\<close>

definition peekWait :: "BufferedConn \<Rightarrow> bytes" where
  "peekWait b = buf b"

primrec runSniffers :: "(bytes \<Rightarrow> (string, string \<times> bool) gores) list \<Rightarrow> bytes \<Rightarrow> (string, string) gores" where
  "runSniffers [] data = GoErr ''no sniffer matched''"
| "runSniffers (s # ss) data = (case s data of
     GoOk (host, True) \<Rightarrow> if host \<noteq> [] then GoOk host else runSniffers ss data
   | GoOk (_, False) \<Rightarrow> runSniffers ss data | GoErr e \<Rightarrow> GoErr e | GoPanic \<Rightarrow> GoPanic)"

definition PeekConn :: "(nat \<times> bool) option \<Rightarrow> (bytes \<Rightarrow> (string, string \<times> bool) gores) list \<Rightarrow> conn \<Rightarrow> BufferedConn \<times> (string, string) gores" where
  "PeekConn filled sniffers c =
    (let bc = newBufferedConn c; bc = (case filled of None \<Rightarrow> bc | Some (k, early) \<Rightarrow> fill k early bc); data = peekWait bc in
     (bc, if length data = 0 then GoErr ''no data within timeout'' else runSniffers sniffers data))"

section \<open>Nothing is lost\<close>

text \<open>Reads until the call blocks or reports an error; the result is what they returned.\<close>

primrec readAll :: "(nat \<times> nat \<times> bool) list \<Rightarrow> BufferedConn \<Rightarrow> bytes \<times> string option" where
  "readAll [] b = ([], None)"
| "readAll (r # rs) b = (case r of (n, k, early) \<Rightarrow>
     (case bufferedRead n k early b of
        None \<Rightarrow> ([], None)
      | Some (b, p, Some e) \<Rightarrow> (p, Some e)
      | Some (b, p, None) \<Rightarrow> (case readAll rs b of (q, e) \<Rightarrow> (p @ q, e))))"

definition faithful :: "conn \<Rightarrow> BufferedConn \<Rightarrow> bool" where
  "faithful c b \<longleftrightarrow> buf b @ fst (under b) = fst c \<and> snd (under b) = snd c \<and>
     (case bgErr b of None \<Rightarrow> True | Some e \<Rightarrow> e = snd c \<and> fst (under b) = [])"

lemma faithful_fill: "faithful c (fill k early (newBufferedConn c))"
  by (cases c) (simp add: faithful_def fill_def newBufferedConn_def connRead_def Let_def)

lemma readAll_faithful:
  assumes "faithful c b"
  shows "case readAll rs b of (p, None) \<Rightarrow> (\<exists>q. fst c = p @ q) | (p, Some e) \<Rightarrow> fst c = p \<and> e = snd c"
  using assms
proof (induction rs arbitrary: c b)
  case Nil
  then show ?case by simp
next
  case (Cons r rs)
  obtain n k early where r: "r = (n, k, early)" by (cases r)
  show ?case
  proof (cases "bufferedRead n k early b")
    case None
    then show ?thesis by (simp add: r)
  next
    case (Some x)
    obtain b' p e where x: "x = (b', p, e)" by (cases x)
    have step: "(e = None \<longrightarrow> (\<exists>rest. fst c = p @ rest \<and> faithful (rest, snd c) b')) \<and> (\<forall>e'. e = Some e' \<longrightarrow> fst c = p \<and> e' = snd c)"
    proof (cases "buf b = []")
      case False
      then have "b' = b\<lparr>buf := drop n (buf b)\<rparr>" "p = take n (buf b)" "e = None"
        using Some x by (auto simp: bufferedRead_def split: if_splits)
      moreover have "take n (buf b) @ drop n (buf b) @ fst (under b) = fst c" using Cons.prems by (simp add: faithful_def append_assoc [symmetric])
      ultimately show ?thesis using Cons.prems
        by (intro conjI impI exI [of _ "drop n (buf b) @ fst (under b)"]) (auto simp: faithful_def split: option.splits)
    next
      case True
      show ?thesis
      proof (cases "bgErr b")
        case (Some e')
        then show ?thesis using True Cons.prems \<open>bufferedRead n k early b = Some x\<close> x
          by (auto simp: bufferedRead_def faithful_def split: if_splits)
      next
        case None
        obtain input err where u: "under b = (input, err)" by (cases "under b")
        have c: "c = (input, err)" using Cons.prems True by (cases c) (simp add: faithful_def u)
        have "bgDone b" using Some by (simp add: bufferedRead_def split: if_splits)
        then show ?thesis using True None Cons.prems Some x
          by (auto simp: bufferedRead_def faithful_def connRead_def Let_def u c split: if_splits)
      qed
    qed
    show ?thesis
    proof (cases e)
      case (Some e')
      then show ?thesis using step x \<open>bufferedRead n k early b = Some x\<close> by (simp add: r)
    next
      case None
      then obtain rest where rest: "fst c = p @ rest" "faithful (rest, snd c) b'" using step by blast
      show ?thesis using Cons.IH [OF rest(2)] x None \<open>bufferedRead n k early b = Some x\<close> rest(1)
        by (auto simp: r split: prod.splits option.splits)
    qed
  qed
qed

text \<open>Sniffing is invisible to the reader that follows: whatever arrives in the first read and whatever the sniffers say,
  the reads after it return the bytes of the stream in order, and its end only after all of them.\<close>

lemma sniffing_transparent:
  assumes "PeekConn (Some f) sniffers c = (bc, r)"
  shows "case readAll rs bc of (p, None) \<Rightarrow> (\<exists>q. fst c = p @ q) | (p, Some e) \<Rightarrow> fst c = p \<and> e = snd c"
  using assms faithful_fill [of c "fst f" "snd f"]
  by (intro readAll_faithful) (cases f, simp add: PeekConn_def Let_def)

section \<open>The Host header is found\<close>

lemma find_crlf_line: "13 \<notin> set l \<Longrightarrow> find_crlf (l @ 13 # 10 # r) = Some (length l)"
  by (induction l) auto

lemma headerLoop_lines:
  assumes "\<forall>h \<in> set hs. 13 \<notin> set h \<and> hostLine h = None" "13 \<notin> set l" "hostLine l = Some r"
  shows "headerLoop (concat (map (\<lambda>h. h @ [13, 10]) hs) @ l @ 13 # 10 # rest) = r"
  using assms(1)
proof (induction hs)
  case Nil
  then show ?case using assms(2,3) by (subst headerLoop.simps) (simp add: find_crlf_line)
next
  case (Cons h hs)
  then show ?case
    by (subst headerLoop.simps) (simp add: find_crlf_line [of h])
qed

text \<open>The host of a request whose request line and headers before the Host header are whole lines.\<close>

lemma HTTPHost_request:
  assumes "13 \<notin> set start" "looksLikeHTTPMethod (start @ 13 # 10 # lines)"
    and "lines = concat (map (\<lambda>h. h @ [13, 10]) hs) @ l @ 13 # 10 # rest" "\<forall>h \<in> set hs. 13 \<notin> set h \<and> hostLine h = None"
    and "13 \<notin> set l" "hostLine l = Some r" "length (start @ 13 # 10 # lines) \<ge> 16"
  shows "HTTPHost (start @ 13 # 10 # lines) = r"
  using assms headerLoop_lines [OF assms(4-6), of rest] by (simp add: HTTPHost_def find_crlf_line)

lemma HTTPHost_example:
  "HTTPHost (bytes_of_str ''GET /x HTTP/1.1'' @ [13, 10] @ bytes_of_str ''Accept: */*'' @ [13, 10] @ bytes_of_str ''HOST: Example.COM:8080'' @ [13, 10, 13, 10]) =
    (''example.com'', True)"
  by code_simp

end
