(* ===== verification/Routing.thy ===== *)
theory Routing
  imports NetAddr
begin

text \<open>
  Routing of the node: node/rules.go and node/dispatcher.go. A \<open>Rule\<close> of the configuration is compiled
  to matchers and the dispatcher picks an outbound. The geo database is what its two lookups return,
  regular expressions and name resolution are arguments: \<open>rx\<close> gives for a pattern its matching function
  (\<open>None\<close>: it does not compile), \<open>resolve\<close> the textual addresses a name resolves to.
\<close>

section \<open>Rules\<close>

record Rule =
  rDomain :: "string list"
  rIP :: "string list"
  rGeoIP :: "string list"
  rGeosite :: "string list"
  rPort :: string
  rNetwork :: string
  rInboundTag :: "string list"
  rSource :: "string list"
  rUser :: "string list"
  rOutbound :: string

record Request =
  qNetwork :: string
  TargetHost :: string
  TargetPort :: int
  SourceIP :: "bytes option"
  qInboundTag :: string
  qUser :: string

datatype domainMatcher = FullMatch string | SuffixMatch string | KeywordMatch string | RegexMatch "string \<Rightarrow> bool"

record CompiledRule =
  tag :: string
  domains :: "domainMatcher list"
  cidrs :: "prefix list"
  srcCIDRs :: "prefix list"
  portRanges :: "(int \<times> int) list"
  network :: string
  inboundTags :: "string list"
  users :: "string list"

record geo =
  geoIPCIDRs :: "string \<Rightarrow> prefix list"
  geositeMatchers :: "string \<Rightarrow> (string, domainMatcher list) gores"

definition normalizeGeoName :: "string \<Rightarrow> string" where
  "normalizeGeoName name0 =
    (let name = trim_space (to_lower name0) in
     case index_byte (CHR '':'') name of None \<Rightarrow> name
     | Some i \<Rightarrow> if take i name = ''geoip'' \<or> take i name = ''geosite'' then trim_space (drop (i + 1) name) else name)"

section \<open>Matchers\<close>

text \<open>\<open>suffixMatch.match\<close> with its index and slice expressions.\<close>

definition suffixMatch :: "string \<Rightarrow> string \<Rightarrow> (string, bool) gores" where
  "suffixMatch s h =
    (if h = s then GoOk True
     else if length h < length s + 1 then GoOk False
     else go_bind (idx h (length h - length s - 1)) (\<lambda>c.
       if c \<noteq> CHR ''.'' then GoOk False
       else go_bind (slice_from h (length h - length s)) (\<lambda>t. GoOk (t = s))))"

definition domain_match :: "domainMatcher \<Rightarrow> string \<Rightarrow> bool" where
  "domain_match m h = (case m of FullMatch s \<Rightarrow> h = s | SuffixMatch s \<Rightarrow> suffixMatch s h = GoOk True
     | KeywordMatch s \<Rightarrow> contains h s | RegexMatch f \<Rightarrow> f h)"

definition parseDomainMatcher :: "(string \<Rightarrow> (string \<Rightarrow> bool) option) \<Rightarrow> string \<Rightarrow> (string, domainMatcher) gores" where
  "parseDomainMatcher rx s0 =
    (let s = trim_space s0 in
     if s = [] then GoErr ''empty domain pattern''
     else (case index_byte (CHR '':'') s of
       Some i \<Rightarrow>
         let ty = to_lower (take i s); val = to_lower (trim_space (drop (i + 1) s)) in
         if i = 0 then GoOk (FullMatch (to_lower s))
         else if ty = ''domain'' then GoOk (SuffixMatch val)
         else if ty = ''full'' then GoOk (FullMatch val)
         else if ty = ''keyword'' then GoOk (KeywordMatch val)
         else if ty = ''regexp'' \<or> ty = ''regex'' then
           (case rx val of None \<Rightarrow> GoErr ''regex compile'' | Some f \<Rightarrow> GoOk (RegexMatch f))
         else if ty = ''geosite'' \<or> ty = ''geoip'' then GoOk (RegexMatch (\<lambda>h. h = [CHR 0x00]))
         else GoOk (FullMatch (to_lower s))
     | None \<Rightarrow> GoOk (FullMatch (to_lower s))))"

definition geoPrefixValue :: "string \<Rightarrow> string \<Rightarrow> string option" where
  "geoPrefixValue s p =
    (let s = trim_space s in
     case index_byte (CHR '':'') s of None \<Rightarrow> None
     | Some i \<Rightarrow> if to_lower (take i s) \<noteq> to_lower p then None
         else let right = normalizeGeoName (drop (i + 1) s) in if right = [] then None else Some right)"

definition parseCIDR :: "string \<Rightarrow> prefix option" where
  "parseCIDR s0 =
    (let s = trim_space s0 in
     if CHR ''/'' \<notin> set s then
       (case ParseAddr s of None \<Rightarrow> None
        | Some a \<Rightarrow> Some (a, case a of V4 _ \<Rightarrow> 32 | V6 _ _ \<Rightarrow> if \<not> is4In6 a then 128 else 32))
     else ParsePrefix s)"

definition cidrsContain :: "prefix list \<Rightarrow> addr \<Rightarrow> bool" where
  "cidrsContain ps ip = (let a = Unmap ip in list_ex (\<lambda>p. prefix_contains p a) ps)"

primrec parsePorts :: "string list \<Rightarrow> (string, (int \<times> int) list) gores" where
  "parsePorts [] = GoOk []"
| "parsePorts (p # ps) =
    (let part = trim_space p in
     if part = [] then parsePorts ps
     else case index_byte (CHR ''-'') part of
       Some i \<Rightarrow>
         (case (Atoi (trim_space (take i part)), Atoi (trim_space (drop (i + 1) part))) of
            (Some lo, Some hi) \<Rightarrow> if lo < 1 \<or> hi > 65535 \<or> lo > hi then GoErr ''bad range''
               else go_bind (parsePorts ps) (\<lambda>rs. GoOk ((lo, hi) # rs))
          | _ \<Rightarrow> GoErr ''bad range'')
     | None \<Rightarrow>
         (case Atoi part of None \<Rightarrow> GoErr ''bad port''
          | Some x \<Rightarrow> if x < 1 \<or> x > 65535 then GoErr ''bad port'' else go_bind (parsePorts ps) (\<lambda>rs. GoOk ((x, x) # rs))))"

definition parsePortSpec :: "string \<Rightarrow> (string, (int \<times> int) list) gores" where
  "parsePortSpec s = go_bind (parsePorts (split_on (CHR '','') s)) (\<lambda>rs. if rs = [] then GoErr ''empty port spec'' else GoOk rs)"

definition portInRanges :: "int \<Rightarrow> (int \<times> int) list \<Rightarrow> bool" where
  "portInRanges p rs = list_ex (\<lambda>(lo, hi). p \<ge> lo \<and> p \<le> hi) rs"

definition networkMatches :: "string \<Rightarrow> string \<Rightarrow> bool" where
  "networkMatches spec nw = (spec = [] \<or> spec = nw \<or> contains spec '','' \<and> contains spec nw)"

section \<open>Compiling\<close>

definition appendGeoIPCIDRs :: "geo \<Rightarrow> string \<Rightarrow> CompiledRule \<Rightarrow> (string, CompiledRule) gores" where
  "appendGeoIPCIDRs g name cr = (let ps = geoIPCIDRs g name in
     if ps = [] then GoErr ''geoip not found'' else GoOk (cr\<lparr>cidrs := cidrs cr @ ps\<rparr>))"

definition appendGeositeMatchers :: "geo \<Rightarrow> string \<Rightarrow> CompiledRule \<Rightarrow> (string, CompiledRule) gores" where
  "appendGeositeMatchers g name cr = go_bind (geositeMatchers g name) (\<lambda>ms.
     if ms = [] then GoErr ''geosite not found'' else GoOk (cr\<lparr>domains := domains cr @ ms\<rparr>))"

text \<open>\<open>for ... \{ if err := f(x); err != nil \{ return err \} \}\<close>.\<close>

primrec each :: "('x \<Rightarrow> 's \<Rightarrow> (string, 's) gores) \<Rightarrow> 'x list \<Rightarrow> 's \<Rightarrow> (string, 's) gores" where
  "each f [] s = GoOk s"
| "each f (x # xs) s = go_bind (f x s) (each f xs)"

definition addDomain :: "(string \<Rightarrow> (string \<Rightarrow> bool) option) \<Rightarrow> geo \<Rightarrow> string \<Rightarrow> CompiledRule \<Rightarrow> (string, CompiledRule) gores" where
  "addDomain rx g d cr =
    (case geoPrefixValue d ''geosite'' of Some name \<Rightarrow> appendGeositeMatchers g name cr
     | None \<Rightarrow> (case geoPrefixValue d ''geoip'' of Some name \<Rightarrow> appendGeoIPCIDRs g name cr
        | None \<Rightarrow> go_bind (parseDomainMatcher rx d) (\<lambda>m. GoOk (cr\<lparr>domains := domains cr @ [m]\<rparr>))))"

definition addIP :: "geo \<Rightarrow> string \<Rightarrow> CompiledRule \<Rightarrow> (string, CompiledRule) gores" where
  "addIP g c cr =
    (case geoPrefixValue c ''geoip'' of Some name \<Rightarrow> appendGeoIPCIDRs g name cr
     | None \<Rightarrow> (case parseCIDR c of None \<Rightarrow> GoErr ''ip'' | Some p \<Rightarrow> GoOk (cr\<lparr>cidrs := cidrs cr @ [p]\<rparr>)))"

definition addSource :: "string \<Rightarrow> CompiledRule \<Rightarrow> (string, CompiledRule) gores" where
  "addSource c cr = (case parseCIDR c of None \<Rightarrow> GoErr ''source'' | Some p \<Rightarrow> GoOk (cr\<lparr>srcCIDRs := srcCIDRs cr @ [p]\<rparr>))"

definition compileRule :: "(string \<Rightarrow> (string \<Rightarrow> bool) option) \<Rightarrow> geo \<Rightarrow> Rule \<Rightarrow> (string, CompiledRule) gores" where
  "compileRule rx g r =
    (let cr = \<lparr>tag = rOutbound r, domains = [], cidrs = [], srcCIDRs = [], portRanges = [], network = [], inboundTags = [], users = []\<rparr> in
     go_bind (each (appendGeoIPCIDRs g) (rGeoIP r) cr) (\<lambda>cr.
     go_bind (each (appendGeositeMatchers g) (rGeosite r) cr) (\<lambda>cr.
     go_bind (each (addDomain rx g) (rDomain r) cr) (\<lambda>cr.
     go_bind (each (addIP g) (rIP r) cr) (\<lambda>cr.
     go_bind (each addSource (rSource r) cr) (\<lambda>cr.
     go_bind (if rPort r \<noteq> [] then go_bind (parsePortSpec (rPort r)) (\<lambda>rs. GoOk (cr\<lparr>portRanges := rs\<rparr>)) else GoOk cr) (\<lambda>cr.
     go_bind (if rNetwork r \<noteq> [] then
         let nw = to_lower (trim_space (rNetwork r)) in
         if nw = ''tcp'' \<or> nw = ''udp'' \<or> nw = ''tcp,udp'' \<or> nw = ''udp,tcp'' then GoOk (cr\<lparr>network := nw\<rparr>) else GoErr ''network''
       else GoOk cr) (\<lambda>cr.
     GoOk (cr\<lparr>inboundTags := rInboundTag r, users := rUser r\<rparr>)))))))))"

primrec CompileRules :: "(string \<Rightarrow> (string \<Rightarrow> bool) option) \<Rightarrow> geo \<Rightarrow> Rule list \<Rightarrow> (string, CompiledRule list) gores" where
  "CompileRules rx g [] = GoOk []"
| "CompileRules rx g (r # rs) = go_bind (compileRule rx g r) (\<lambda>cr. go_bind (CompileRules rx g rs) (\<lambda>crs. GoOk (cr # crs)))"

section \<open>Matching and dispatching\<close>

definition Match :: "CompiledRule \<Rightarrow> Request \<Rightarrow> bool" where
  "Match cr req =
    (if network cr \<noteq> [] \<and> \<not> networkMatches (network cr) (qNetwork req) then False
     else if length (inboundTags cr) > 0 \<and> qInboundTag req \<notin> set (inboundTags cr) then False
     else if length (users cr) > 0 \<and> qUser req \<notin> set (users cr) then False
     else if length (portRanges cr) > 0 \<and> \<not> portInRanges (TargetPort req) (portRanges cr) then False
     else if length (srcCIDRs cr) > 0 \<and> (case SourceIP req of None \<Rightarrow> True
         | Some b \<Rightarrow> (case AddrFromSlice b of None \<Rightarrow> True | Some a \<Rightarrow> \<not> cidrsContain (srcCIDRs cr) a)) then False
     else if length (domains cr) \<noteq> 0 \<and>
         \<not> list_ex (\<lambda>m. domain_match m (trim_suffix (to_lower (TargetHost req)) ''.'')) (domains cr) then False
     else if length (cidrs cr) \<noteq> 0 \<and> \<not> (case ParseIP (TargetHost req) of None \<Rightarrow> False | Some a \<Rightarrow> cidrsContain (cidrs cr) a) then False
     else True)"

record Dispatcher =
  rules :: "CompiledRule list"
  defaultOutbound :: string
  firstOutboundTag :: string
  outbounds :: "string list"
  domainStrategy :: string

text \<open>\<open>firstKey\<close> is the tag that ranging over the map gives first.\<close>

definition NewDispatcher :: "string \<Rightarrow> string list \<Rightarrow> CompiledRule list \<Rightarrow> string \<Rightarrow> string \<Rightarrow> string \<Rightarrow> (string, Dispatcher) gores" where
  "NewDispatcher firstKey obs rs dflt first strategy =
    (if length obs = 0 then GoErr ''no outbounds''
     else if dflt \<noteq> [] \<and> dflt \<notin> set obs then GoErr ''default_outbound not in outbounds''
     else GoOk \<lparr>rules = rs, defaultOutbound = dflt, firstOutboundTag = (if first = [] then firstKey else first), outbounds = obs,
       domainStrategy = (if strategy = [] then ''AsIs'' else strategy)\<rparr>)"

primrec firstMatch :: "Request \<Rightarrow> CompiledRule list \<Rightarrow> string option" where
  "firstMatch req [] = None"
| "firstMatch req (r # rs) = (if Match r req then Some (tag r) else firstMatch req rs)"

primrec firstMatchIPs :: "Request \<Rightarrow> string list \<Rightarrow> CompiledRule list \<Rightarrow> string option" where
  "firstMatchIPs req ips [] = None"
| "firstMatchIPs req ips (r # rs) = (if list_ex (\<lambda>ip. Match r (req\<lparr>TargetHost := ip\<rparr>)) ips then Some (tag r) else firstMatchIPs req ips rs)"

definition ResolveRule :: "(string \<Rightarrow> string list) \<Rightarrow> Dispatcher \<Rightarrow> Request \<Rightarrow> string option" where
  "ResolveRule resolve d req =
    (case firstMatch req (rules d) of
       Some t \<Rightarrow> Some t
     | None \<Rightarrow>
        if domainStrategy d = ''IPIfNonMatch'' \<or> domainStrategy d = ''IPOnDemand'' then
          (let ips = resolve (TargetHost req) in if length ips > 0 then firstMatchIPs req ips (rules d) else None)
        else None)"

definition Resolve :: "(string \<Rightarrow> string list) \<Rightarrow> Dispatcher \<Rightarrow> Request \<Rightarrow> string" where
  "Resolve resolve d req =
    (case ResolveRule resolve d req of Some t \<Rightarrow> t
     | None \<Rightarrow> if defaultOutbound d = [] then firstOutboundTag d else defaultOutbound d)"

text \<open>\<open>Dispatch\<close> up to the dial: the chosen tag, or the error when no outbound has it.\<close>

definition Dispatch :: "(string \<Rightarrow> string list) \<Rightarrow> Dispatcher \<Rightarrow> Request \<Rightarrow> (string, string) gores" where
  "Dispatch resolve d req = (let t = Resolve resolve d req in if t \<in> set (outbounds d) then GoOk t else GoErr ''no outbound'')"

text \<open>\<open>DispatchPacket\<close>, where \<open>udp\<close> says which outbounds implement \<open>UDPDialer\<close>.\<close>

definition DispatchPacket :: "(string \<Rightarrow> bool) \<Rightarrow> (string \<Rightarrow> string list) \<Rightarrow> Dispatcher \<Rightarrow> Request \<Rightarrow> (string, string) gores" where
  "DispatchPacket udp resolve d req = (let t = Resolve resolve d req in
     if t \<notin> set (outbounds d) then GoErr ''no outbound'' else if \<not> udp t then GoErr ''udp unsupported'' else GoOk t)"

section \<open>Facts\<close>

lemma suffixMatch_spec: "suffixMatch s h = GoOk (h = s \<or> (\<exists>p. h = p @ CHR ''.'' # s))"
proof (cases "h = s \<or> length h < length s + 1")
  case True
  then show ?thesis by (auto simp: suffixMatch_def)
next
  case False
  let ?n = "length h - length s - 1"
  have n: "?n < length h" "length h - length s = Suc ?n" using False by auto
  have split: "h = take ?n h @ h ! ?n # drop (Suc ?n) h" using id_take_nth_drop [OF n(1)] .
  have "(\<exists>p. h = p @ CHR ''.'' # s) \<longleftrightarrow> h ! ?n = CHR ''.'' \<and> drop (Suc ?n) h = s"
  proof
    assume "\<exists>p. h = p @ CHR ''.'' # s"
    then obtain p where p: "h = p @ CHR ''.'' # s" by blast
    then have "?n = length p" by simp
    then show "h ! ?n = CHR ''.'' \<and> drop (Suc ?n) h = s" using p by simp
  next
    assume a: "h ! ?n = CHR ''.'' \<and> drop (Suc ?n) h = s"
    have "h = take ?n h @ CHR ''.'' # s" using split a by metis
    then show "\<exists>p. h = p @ CHR ''.'' # s" by blast
  qed
  then show ?thesis using False n by (simp add: suffixMatch_def idx_def slice_from_in)
qed

lemma firstMatchIPs_set: "set ips = set ips' \<Longrightarrow> firstMatchIPs req ips rs = firstMatchIPs req ips' rs"
  by (induction rs) (simp_all add: list_ex_iff)

lemma firstMatch_none: "firstMatch req rs = None \<longleftrightarrow> (\<forall>r \<in> set rs. \<not> Match r req)"
  by (induction rs) auto

lemma firstMatchIPs_skip:
  "\<forall>r \<in> set pre. \<forall>ip \<in> set ips. \<not> Match r (req\<lparr>TargetHost := ip\<rparr>) \<Longrightarrow> \<exists>ip \<in> set ips. Match r (req\<lparr>TargetHost := ip\<rparr>) \<Longrightarrow>
   firstMatchIPs req ips (pre @ r # post) = Some (tag r)"
  by (induction pre) (auto simp: list_ex_iff)

text \<open>A rule that only lists prefixes matches exactly the addresses in them.\<close>

lemma Match_cidrs:
  assumes "network r = []" "inboundTags r = []" "users r = []" "portRanges r = []" "srcCIDRs r = []" "domains r = []" "cidrs r \<noteq> []"
  shows "Match r req \<longleftrightarrow> (\<exists>a. ParseIP (TargetHost req) = Some a \<and> (\<exists>p \<in> set (cidrs r). prefix_contains p (Unmap a)))"
  using assms by (auto simp: Match_def cidrsContain_def list_ex_iff split: option.splits)

section \<open>Properties\<close>

text \<open>The allocation-free domain matcher is the plain one: \<open>suffixMatch\<close> never indexes out of range and
  accepts a host exactly when it is the domain itself or ends in a dot and the domain.\<close>

lemma suffixMatch_equals_reference:
  "suffixMatch s h = GoOk (h = s \<or> (\<exists>prefix. h = prefix @ ''.'' @ s))"
  by (simp add: suffixMatch_spec)

text \<open>A block rule cannot be dodged by the order of DNS answers. With a strategy that resolves names, a
  request whose host matches no rule as written goes to the outbound of the first rule that lists a prefix
  containing any of the addresses the name resolves to (no earlier rule matching any of them), wherever in the
  answer that address stands; and the decision, made or not, is the same for any two answers with the same
  addresses.\<close>

lemma dispatch_ignores_answer_order:
  assumes "domainStrategy d = ''IPIfNonMatch'' \<or> domainStrategy d = ''IPOnDemand''" "set (resolve (TargetHost req)) = set (resolve' (TargetHost req))"
  shows "Dispatch resolve d req = Dispatch resolve' d req \<and>
    (\<forall>pre r post ip a p. rules d = pre @ r # post \<and> (\<forall>x \<in> set (rules d). \<not> Match x req) \<and>
       (\<forall>x \<in> set pre. \<forall>ip \<in> set (resolve (TargetHost req)). \<not> Match x (req\<lparr>TargetHost := ip\<rparr>)) \<and>
       network r = [] \<and> inboundTags r = [] \<and> users r = [] \<and> portRanges r = [] \<and> srcCIDRs r = [] \<and> domains r = [] \<and>
       ip \<in> set (resolve (TargetHost req)) \<and> ParseIP ip = Some a \<and> p \<in> set (cidrs r) \<and> prefix_contains p (Unmap a) \<longrightarrow>
       Resolve resolve d req = tag r)"
proof -
  have ne: "length (resolve (TargetHost req)) > 0 \<longleftrightarrow> length (resolve' (TargetHost req)) > 0" using assms(2) by (metis length_greater_0_conv set_empty)
  have "ResolveRule resolve d req = ResolveRule resolve' d req"
    unfolding ResolveRule_def Let_def ne firstMatchIPs_set [OF assms(2)] ..
  then have "Dispatch resolve d req = Dispatch resolve' d req" by (simp add: Dispatch_def Resolve_def)
  moreover have "Resolve resolve d req = tag r"
    if h: "rules d = pre @ r # post" "\<forall>x \<in> set (rules d). \<not> Match x req"
      "\<forall>x \<in> set pre. \<forall>ip \<in> set (resolve (TargetHost req)). \<not> Match x (req\<lparr>TargetHost := ip\<rparr>)"
      "network r = []" "inboundTags r = []" "users r = []" "portRanges r = []" "srcCIDRs r = []" "domains r = []"
      "ip \<in> set (resolve (TargetHost req))" "ParseIP ip = Some a" "p \<in> set (cidrs r)" "prefix_contains p (Unmap a)" for pre r post ip a p
  proof -
    have "cidrs r \<noteq> []" using h(12) by auto
    then have "Match r (req\<lparr>TargetHost := ip\<rparr>)" using h(4-13) Match_cidrs [of r "req\<lparr>TargetHost := ip\<rparr>"] by auto
    then have "firstMatchIPs req (resolve (TargetHost req)) (rules d) = Some (tag r)" unfolding h(1) using firstMatchIPs_skip [OF h(3)] h(10) by blast
    moreover have "firstMatch req (rules d) = None" using h(2) firstMatch_none by blast
    moreover have "length (resolve (TargetHost req)) > 0" using h(10) by auto
    ultimately show ?thesis using assms(1) by (simp add: Resolve_def ResolveRule_def)
  qed
  ultimately show ?thesis by blast
qed

lemma dispatch_ignores_answer_order_witness:
  "let r = \<lparr>tag = ''block'', domains = [], cidrs = [(V4 0x0A000000, 8)], srcCIDRs = [], portRanges = [], network = [], inboundTags = [], users = []\<rparr>;
       d = \<lparr>rules = [r], defaultOutbound = ''direct'', firstOutboundTag = [], outbounds = [''direct'', ''block''], domainStrategy = ''IPIfNonMatch''\<rparr>;
       q = \<lparr>qNetwork = ''tcp'', TargetHost = ''example.com'', TargetPort = 443, SourceIP = None, qInboundTag = [], qUser = []\<rparr>
   in Resolve (\<lambda>h. [''8.8.8.8'', ''10.1.2.3'']) d q = ''block'' \<and>
      Dispatch (\<lambda>h. [''8.8.8.8'', ''10.1.2.3'']) d q = Dispatch (\<lambda>h. [''10.1.2.3'', ''8.8.8.8'']) d q"
proof -
  let ?r = "\<lparr>tag = ''block'', domains = [], cidrs = [(V4 0x0A000000, 8)], srcCIDRs = [], portRanges = [], network = [], inboundTags = [], users = []\<rparr>"
  let ?d = "\<lparr>rules = [?r], defaultOutbound = ''direct'', firstOutboundTag = [], outbounds = [''direct'', ''block''], domainStrategy = ''IPIfNonMatch''\<rparr>"
  let ?q = "\<lparr>qNetwork = ''tcp'', TargetHost = ''example.com'', TargetPort = 443, SourceIP = None, qInboundTag = [], qUser = []\<rparr>"
  have p: "ParseIP ''10.1.2.3'' = Some (map4 0x0A010203)" "ParseIP ''example.com'' = None" by code_simp+
  have m: "\<not> Match ?r ?q" using Match_cidrs [of ?r ?q] p(2) by simp
  have s: "set [''8.8.8.8'', ''10.1.2.3''] = set [''10.1.2.3'', ''8.8.8.8'']" by auto
  have c: "prefix_contains (V4 0x0A000000, 8) (Unmap (map4 0x0A010203))" by simp
  note t = dispatch_ignores_answer_order [of ?d "\<lambda>h. [''8.8.8.8'', ''10.1.2.3'']" ?q "\<lambda>h. [''10.1.2.3'', ''8.8.8.8'']"]
  have "Resolve (\<lambda>h. [''8.8.8.8'', ''10.1.2.3'']) ?d ?q = tag ?r"
    by (rule t [THEN conjunct2, rule_format, of "[]" ?r "[]" "''10.1.2.3''" "map4 0x0A010203" "(V4 0x0A000000, 8)"])
      (use m p c s in simp_all)
  moreover have "Dispatch (\<lambda>h. [''8.8.8.8'', ''10.1.2.3'']) ?d ?q = Dispatch (\<lambda>h. [''10.1.2.3'', ''8.8.8.8'']) ?d ?q"
    by (rule t [THEN conjunct1]) (use s in simp_all)
  ultimately show ?thesis by (simp add: Let_def)
qed

text \<open>A bare IPv4-mapped address in a rule is compiled to the IPv6 prefix \<open>::/32\<close>, which does not contain that
  address: the check unmaps the address first, but the prefix keeps the mapped form with 32 bits.\<close>

lemma mapped_address_rule_misses:
  "(case parseCIDR ''::ffff:1.2.3.4'' of None \<Rightarrow> False | Some p \<Rightarrow>
     list_all (\<lambda>h. case ParseIP h of None \<Rightarrow> False | Some a \<Rightarrow> \<not> cidrsContain [p] a) [''1.2.3.4'', ''::ffff:1.2.3.4''])"
  by code_simp

end
