(* ===== verification/RulesDB.thy ===== *)
theory RulesDB
  imports Routing "HOL-Library.Product_Lexorder"
begin

text \<open>
  internal/rulesdb/rulesdb.go and \<open>publishRouting\<close> of cmd/tamizdat-server/main.go: the routing rules of the
  panel, read from the database in the order of its queue, compiled into a dispatcher and published as
  a snapshot that requests are resolved against.

  The tables are lists of rows and the two queries are written out as filters, a join and a sort. The
  decoder of the match column, the engine of regular expressions and the geo database are parameters,
  and so is \<open>firstTag\<close>, the tag that ranging over the set of tags happens to give first.
\<close>

record dbMatch =
  mGeoIP :: "string list"
  mGeosite :: "string list"
  mIP :: "string list"
  mDomain :: "string list"
  mSource :: "string list"
  mPort :: string
  mNetwork :: string
  mInboundTag :: "string list"
  mUser :: "string list"

definition emptyMatch :: dbMatch where
  "emptyMatch = \<lparr>mGeoIP = [], mGeosite = [], mIP = [], mDomain = [], mSource = [], mPort = [], mNetwork = [], mInboundTag = [], mUser = []\<rparr>"

record Loaded =
  Priority :: int
  OutboundTag :: string
  ruleMatch :: dbMatch

section \<open>Loading\<close>

record ruleRow =
  ruleId :: int
  ruleTag :: string
  matchJson :: string
  rulePriority :: int
  ruleEnabled :: bool
  folderId :: "int option"

record folderRow =
  folderKey :: int
  folderPriority :: int
  folderEnabled :: bool

datatype routingTables = NoRules | NoFolders "ruleRow list" | Folders "ruleRow list" "folderRow list"

text \<open>The rows of the two queries: priority shown, position in the queue and the row itself.\<close>

definition hierQuery :: "ruleRow list \<Rightarrow> folderRow list \<Rightarrow> (int \<times> int \<times> int \<times> ruleRow) list" where
  "hierQuery rs fs =
    (let ungrouped = map (\<lambda>r. (rulePriority r, 0, ruleId r, r)) (filter (\<lambda>r. ruleEnabled r \<and> folderId r = None) rs);
         grouped = concat (map (\<lambda>r. map (\<lambda>f. (folderPriority f, rulePriority r, ruleId r, r))
           (filter (\<lambda>f. folderId r = Some (folderKey f) \<and> ruleEnabled r \<and> folderEnabled f) fs)) rs)
     in sort_key (\<lambda>(gp, ip, i, _). (gp, ip, i)) (ungrouped @ grouped))"

definition flatQuery :: "ruleRow list \<Rightarrow> (int \<times> int \<times> int \<times> ruleRow) list" where
  "flatQuery rs = map (\<lambda>r. (rulePriority r, 0, ruleId r, r)) (sort_key (\<lambda>r. (rulePriority r, ruleId r)) (filter ruleEnabled rs))"

text \<open>The loops of \<open>Load\<close> and \<open>loadFlat\<close>.\<close>

primrec scanRules :: "(string \<Rightarrow> dbMatch option) \<Rightarrow> (int \<times> int \<times> int \<times> ruleRow) list \<Rightarrow> (string, Loaded list) gores" where
  "scanRules unmarshal [] = GoOk []"
| "scanRules unmarshal (x # xs) = (case x of (gp, ip, i, r) \<Rightarrow>
     let t = trim_space (ruleTag r) in
     if t = [] then scanRules unmarshal xs
     else case (if trim_space (matchJson r) = [] then Some emptyMatch else unmarshal (matchJson r)) of
       None \<Rightarrow> GoErr ''parse match_json''
     | Some m \<Rightarrow> go_bind (scanRules unmarshal xs) (\<lambda>out. GoOk (\<lparr>Priority = gp, OutboundTag = t, ruleMatch = m\<rparr> # out)))"

definition Load :: "(string \<Rightarrow> dbMatch option) \<Rightarrow> routingTables \<Rightarrow> (string, Loaded list) gores" where
  "Load unmarshal db = (case db of
     NoRules \<Rightarrow> GoOk []
   | NoFolders rs \<Rightarrow> scanRules unmarshal (flatQuery rs)
   | Folders rs fs \<Rightarrow> scanRules unmarshal (hierQuery rs fs))"

section \<open>Compiling and publishing\<close>

definition toRule :: "Loaded \<Rightarrow> Rule" where
  "toRule l = (let m = ruleMatch l in
     \<lparr>rDomain = mDomain m, rIP = mIP m, rGeoIP = mGeoIP m, rGeosite = mGeosite m, rPort = mPort m, rNetwork = mNetwork m,
      rInboundTag = mInboundTag m, rSource = mSource m, rUser = mUser m, rOutbound = OutboundTag l\<rparr>)"

definition tagSet :: "Loaded list \<Rightarrow> string list \<Rightarrow> string \<Rightarrow> string list" where
  "tagSet rs known dflt = remdups (filter (\<lambda>t. t \<noteq> []) known @ map OutboundTag rs @ (if dflt \<noteq> [] then [dflt] else []) @ [''block''])"

definition BuildWithGeoDB :: "(string \<Rightarrow> (string \<Rightarrow> bool) option) \<Rightarrow> geo \<Rightarrow> string \<Rightarrow> Loaded list \<Rightarrow> string list \<Rightarrow> string \<Rightarrow> (string, Dispatcher option) gores" where
  "BuildWithGeoDB re g firstTag rs known dflt =
    (if length rs = 0 then GoOk None
     else go_bind (CompileRules re g (map toRule rs)) (\<lambda>compiled.
       let obs = tagSet rs known dflt; d = (if dflt = [] then firstTag else dflt); d = (if d \<in> set obs then d else firstTag) in
       go_bind (NewDispatcher firstTag obs compiled d firstTag ''AsIs'') (\<lambda>disp. GoOk (Some disp))))"

record Snapshot =
  snapDispatcher :: "Dispatcher option"
  snapDefaultTag :: string
  snapRules :: "Loaded list"

definition ResolveRequest :: "(string \<Rightarrow> string list) \<Rightarrow> Snapshot option \<Rightarrow> Request \<Rightarrow> string" where
  "ResolveRequest dns snap req = (case snap of None \<Rightarrow> []
     | Some s \<Rightarrow> (case snapDispatcher s of None \<Rightarrow> [] | Some d \<Rightarrow> Resolve dns d req))"

definition ResolveMatchedRequest :: "(string \<Rightarrow> string list) \<Rightarrow> Snapshot option \<Rightarrow> Request \<Rightarrow> string" where
  "ResolveMatchedRequest dns snap req = (case snap of None \<Rightarrow> []
     | Some s \<Rightarrow> (case snapDispatcher s of None \<Rightarrow> []
       | Some d \<Rightarrow> (case ResolveRule dns d req of Some t \<Rightarrow> t | None \<Rightarrow> [])))"

text \<open>\<open>rulesdb.Resolve\<close> and \<open>ResolveTCP\<close>.\<close>

definition ResolveFor :: "(string \<Rightarrow> string list) \<Rightarrow> Snapshot option \<Rightarrow> string \<Rightarrow> string \<Rightarrow> int \<Rightarrow> string \<Rightarrow> string \<Rightarrow> string" where
  "ResolveFor dns snap net host port inboundTag user =
     ResolveRequest dns snap \<lparr>qNetwork = net, TargetHost = host, TargetPort = port, SourceIP = None, qInboundTag = inboundTag, qUser = user\<rparr>"

definition ResolveTCP :: "(string \<Rightarrow> string list) \<Rightarrow> Snapshot option \<Rightarrow> string \<Rightarrow> int \<Rightarrow> string \<Rightarrow> string \<Rightarrow> string" where
  "ResolveTCP dns snap host port inboundTag user = ResolveFor dns snap ''tcp'' host port inboundTag user"

text \<open>\<open>publishRouting\<close>: \<open>db\<close> is \<open>None\<close> when opening the database or its schema fails; \<open>dflt\<close> is the setting it reads.\<close>

definition publishRouting :: "(string \<Rightarrow> dbMatch option) \<Rightarrow> (string \<Rightarrow> (string \<Rightarrow> bool) option) \<Rightarrow> geo \<Rightarrow> string \<Rightarrow> string \<Rightarrow> routingTables option \<Rightarrow> string \<Rightarrow>
    string list \<Rightarrow> Snapshot option \<Rightarrow> Snapshot option \<times> (string, nat) gores" where
  "publishRouting unmarshal re g firstTag serverDB db dflt known store =
    (if trim_space serverDB = [] then (Some \<lparr>snapDispatcher = None, snapDefaultTag = [], snapRules = []\<rparr>, GoOk 0)
     else case db of None \<Rightarrow> (store, GoErr ''open routing DB'')
     | Some tables \<Rightarrow> (case Load unmarshal tables of
         GoPanic \<Rightarrow> (store, GoPanic) | GoErr e \<Rightarrow> (store, GoErr e)
       | GoOk rs \<Rightarrow> (case BuildWithGeoDB re g firstTag rs known dflt of
           GoPanic \<Rightarrow> (store, GoPanic) | GoErr e \<Rightarrow> (store, GoErr e)
         | GoOk disp \<Rightarrow> (Some \<lparr>snapDispatcher = disp, snapDefaultTag = dflt, snapRules = rs\<rparr>, GoOk (length rs)))))"

section \<open>The queue decides\<close>

lemma each_keeps:
  assumes "\<And>x s s'. f x s = GoOk s' \<Longrightarrow> P s \<Longrightarrow> P s'" "each f xs s = GoOk s'" "P s"
  shows "P s'"
  using assms(2,3)
proof (induction xs arbitrary: s)
  case (Cons x xs)
  then show ?case using assms(1) by (cases "f x s") auto
qed simp

lemma compileRule_tag:
  assumes "compileRule re g r = GoOk c"
  shows "tag c = rOutbound r" "network c = to_lower (trim_space (rNetwork r)) \<or> network c = [] \<and> rNetwork r = []"
proof -
  define cr where "cr = \<lparr>tag = rOutbound r, domains = [], cidrs = [], srcCIDRs = [], portRanges = [], network = [], inboundTags = [], users = []\<rparr>"
  define P where "P c \<longleftrightarrow> tag c = rOutbound r \<and> network c = []" for c :: CompiledRule
  have ip: "P c'" if "each (appendGeoIPCIDRs g) xs c = GoOk c'" "P c" for xs c c'
    by (rule each_keeps [of _ P, OF _ that]) (auto simp: P_def appendGeoIPCIDRs_def Let_def split: if_splits)
  have site: "P c'" if "each (appendGeositeMatchers g) xs c = GoOk c'" "P c" for xs c c'
    by (rule each_keeps [of _ P, OF _ that]) (auto simp: P_def appendGeositeMatchers_def go_bind_GoOk split: if_splits)
  have dom: "P c'" if "each (addDomain re g) xs c = GoOk c'" "P c" for xs c c'
    by (rule each_keeps [of _ P, OF _ that])
      (auto simp: P_def addDomain_def appendGeositeMatchers_def appendGeoIPCIDRs_def Let_def go_bind_GoOk split: if_splits option.splits)
  have addr: "P c'" if "each (addIP g) xs c = GoOk c'" "P c" for xs c c'
    by (rule each_keeps [of _ P, OF _ that]) (auto simp: P_def addIP_def appendGeoIPCIDRs_def Let_def split: if_splits option.splits)
  have src: "P c'" if "each addSource xs c = GoOk c'" "P c" for xs c c'
    by (rule each_keeps [of _ P, OF _ that]) (auto simp: P_def addSource_def split: option.splits)
  have "P cr" by (simp add: P_def cr_def)
  then obtain c' where "P c'" and c': "go_bind (if rPort r \<noteq> [] then go_bind (parsePortSpec (rPort r)) (\<lambda>rs. GoOk (c'\<lparr>portRanges := rs\<rparr>)) else GoOk c') (\<lambda>cr.
     go_bind (if rNetwork r \<noteq> [] then
         let nw = to_lower (trim_space (rNetwork r)) in
         if nw = ''tcp'' \<or> nw = ''udp'' \<or> nw = ''tcp,udp'' \<or> nw = ''udp,tcp'' then GoOk (cr\<lparr>network := nw\<rparr>) else GoErr ''network''
       else GoOk cr) (\<lambda>cr. GoOk (cr\<lparr>inboundTags := rInboundTag r, users := rUser r\<rparr>))) = GoOk c"
    using assms ip site dom addr src unfolding compileRule_def Let_def cr_def [symmetric] go_bind_GoOk by blast
  from c' obtain c'' where port: "(if rPort r \<noteq> [] then go_bind (parsePortSpec (rPort r)) (\<lambda>rs. GoOk (c'\<lparr>portRanges := rs\<rparr>)) else GoOk c') = GoOk c''"
    and c'': "go_bind (if rNetwork r \<noteq> [] then
         let nw = to_lower (trim_space (rNetwork r)) in
         if nw = ''tcp'' \<or> nw = ''udp'' \<or> nw = ''tcp,udp'' \<or> nw = ''udp,tcp'' then GoOk (c''\<lparr>network := nw\<rparr>) else GoErr ''network''
       else GoOk c'') (\<lambda>cr. GoOk (cr\<lparr>inboundTags := rInboundTag r, users := rUser r\<rparr>)) = GoOk c"
    unfolding go_bind_GoOk [of "if rPort r \<noteq> [] then _ else _"] by blast
  have "P c''" using port \<open>P c'\<close> by (auto simp: go_bind_GoOk P_def split: if_splits)
  show "tag c = rOutbound r" "network c = to_lower (trim_space (rNetwork r)) \<or> network c = [] \<and> rNetwork r = []"
    using c'' \<open>P c''\<close> by (auto simp: go_bind_GoOk P_def Let_def split: if_splits)
qed

lemma CompileRules_all: "CompileRules re g rs = GoOk cs \<longleftrightarrow> list_all2 (\<lambda>r c. compileRule re g r = GoOk c) rs cs"
  by (induction rs arbitrary: cs) (auto simp: go_bind_GoOk list_all2_Cons1)

text \<open>A loaded rule accepts a request when its compiled form does.\<close>

definition accepts :: "(string \<Rightarrow> (string \<Rightarrow> bool) option) \<Rightarrow> geo \<Rightarrow> Request \<Rightarrow> Loaded \<Rightarrow> bool" where
  "accepts re g req l = (case compileRule re g (toRule l) of GoOk c \<Rightarrow> Match c req | _ \<Rightarrow> False)"

lemma firstMatch_queue:
  assumes "list_all2 (\<lambda>l c. compileRule re g (toRule l) = GoOk c) ls cs"
  shows "firstMatch req cs = map_option OutboundTag (find (accepts re g req) ls)"
  using assms
proof (induction ls cs rule: list_all2_induct)
  case (Cons l ls c cs)
  then show ?case using compileRule_tag(1) [OF Cons(1)] by (simp add: accepts_def toRule_def Let_def)
qed simp

lemma NewDispatcher_fields:
  assumes "NewDispatcher firstKey obs rs d first strategy = GoOk disp"
  shows "rules disp = rs" "defaultOutbound disp = d" "firstOutboundTag disp = (if first = [] then firstKey else first)"
    "domainStrategy disp = (if strategy = [] then ''AsIs'' else strategy)"
  using assms by (auto simp: NewDispatcher_def split: if_splits)

lemma Build_fields:
  assumes "BuildWithGeoDB re g firstTag ls known dflt = GoOk (Some d)"
  shows "CompileRules re g (map toRule ls) = GoOk (rules d)" "domainStrategy d = ''AsIs''" "firstOutboundTag d = firstTag"
    "defaultOutbound d = (if dflt = [] then firstTag else dflt)"
proof -
  define d0 where "d0 = (if dflt = [] then firstTag else dflt)"
  have d0: "(if d0 \<in> set (tagSet ls known dflt) then d0 else firstTag) = d0" by (auto simp: d0_def tagSet_def)
  obtain cs where cs: "CompileRules re g (map toRule ls) = GoOk cs" and d: "NewDispatcher firstTag (tagSet ls known dflt) cs d0 firstTag ''AsIs'' = GoOk d"
    using assms unfolding BuildWithGeoDB_def Let_def d0_def [symmetric] d0 by (simp add: go_bind_GoOk split: if_splits) blast
  show "CompileRules re g (map toRule ls) = GoOk (rules d)" "domainStrategy d = ''AsIs''" "firstOutboundTag d = firstTag"
    "defaultOutbound d = (if dflt = [] then firstTag else dflt)"
    using cs NewDispatcher_fields [OF d] by (simp_all add: d0_def)
qed

lemma Resolve_queue:
  assumes "BuildWithGeoDB re g firstTag ls known dflt = GoOk (Some d)"
  shows "Resolve dns d req = (case find (accepts re g req) ls of Some l \<Rightarrow> OutboundTag l | None \<Rightarrow> if dflt = [] then firstTag else dflt)"
proof -
  note d = Build_fields [OF assms]
  have "firstMatch req (rules d) = map_option OutboundTag (find (accepts re g req) ls)"
    by (rule firstMatch_queue) (use d(1) in \<open>simp add: CompileRules_all list_all2_map1\<close>)
  then show ?thesis
    by (cases "find (accepts re g req) ls") (simp_all add: Resolve_def ResolveRule_def d(2-4))
qed

text \<open>Without folders both queries give the same rules.\<close>

lemma insort_key_map: "insort_key f (h x) (map h xs) = map h (insort_key (f \<circ> h) x xs)"
  by (induction xs) auto

lemma sort_key_map: "sort_key f (map h xs) = map h (sort_key (f \<circ> h) xs)"
  by (induction xs) (simp_all add: insort_key_map comp_def)

lemma insort_key_cong: "(\<And>a b. f a \<le> f b \<longleftrightarrow> g a \<le> g b) \<Longrightarrow> insort_key f x xs = insort_key g x xs"
  by (induction xs) auto

lemma sort_key_cong: "(\<And>a b. f a \<le> f b \<longleftrightarrow> g a \<le> g b) \<Longrightarrow> sort_key f xs = sort_key g xs"
  by (induction xs) (simp_all add: insort_key_cong [of f g])

lemma hierQuery_flat:
  assumes "\<forall>r \<in> set rs. folderId r = None"
  shows "hierQuery rs fs = flatQuery rs"
proof -
  have "filter (\<lambda>f. folderId r = Some (folderKey f) \<and> ruleEnabled r \<and> folderEnabled f) fs = []" if "r \<in> set rs" for r
    using assms that by simp
  then have grouped: "concat (map (\<lambda>r. map (\<lambda>f. (folderPriority f, rulePriority r, ruleId r, r))
      (filter (\<lambda>f. folderId r = Some (folderKey f) \<and> ruleEnabled r \<and> folderEnabled f) fs)) rs) = []"
    by simp
  have flat: "filter (\<lambda>r. ruleEnabled r \<and> folderId r = None) rs = filter ruleEnabled rs"
    using assms by (intro filter_cong) auto
  have key: "sort_key ((\<lambda>(gp, ip, i, _). (gp, ip, i)) \<circ> (\<lambda>r. (rulePriority r, 0 :: int, ruleId r, r))) xs = sort_key (\<lambda>r. (rulePriority r, ruleId r)) xs" for xs
    by (rule sort_key_cong) auto
  show ?thesis unfolding hierQuery_def flatQuery_def Let_def grouped append_Nil2 flat sort_key_map by (simp only: key)
qed

definition loads :: "(string \<Rightarrow> dbMatch option) \<Rightarrow> int \<times> int \<times> int \<times> ruleRow \<Rightarrow> Loaded \<Rightarrow> bool" where
  "loads unmarshal x l = (case x of (gp, ip, i, r) \<Rightarrow> Priority l = gp \<and> OutboundTag l = trim_space (ruleTag r) \<and>
     (if trim_space (matchJson r) = [] then ruleMatch l = emptyMatch else unmarshal (matchJson r) = Some (ruleMatch l)))"

definition tagged :: "int \<times> int \<times> int \<times> ruleRow \<Rightarrow> bool" where
  "tagged x = (case x of (gp, ip, i, r) \<Rightarrow> trim_space (ruleTag r) \<noteq> [])"

lemma scanRules_loads: "scanRules unmarshal xs = GoOk ls \<Longrightarrow> list_all2 (loads unmarshal) (filter tagged xs) ls"
proof (induction xs arbitrary: ls)
  case (Cons x xs)
  obtain gp ip i r where x: "x = (gp, ip, i, r)" by (cases x)
  show ?case
  proof (cases "trim_space (ruleTag r) = []")
    case True
    then show ?thesis using Cons by (simp add: x tagged_def)
  next
    case False
    then obtain m ls' where "(if trim_space (matchJson r) = [] then Some emptyMatch else unmarshal (matchJson r)) = Some m"
        "scanRules unmarshal xs = GoOk ls'" "ls = \<lparr>Priority = gp, OutboundTag = trim_space (ruleTag r), ruleMatch = m\<rparr> # ls'"
      using Cons.prems by (auto simp: x Let_def go_bind_GoOk split: option.splits)
    then show ?thesis using Cons.IH False by (auto simp: x tagged_def loads_def split: if_splits)
  qed
qed simp

lemma hierQuery_sorted: "sorted (map (\<lambda>(gp, ip, i, _). (gp, ip, i)) (hierQuery rs fs))"
  unfolding hierQuery_def Let_def by (rule sorted_sort_key)

lemma hierQuery_rows:
  "x \<in> set (hierQuery rs fs) \<longleftrightarrow> (case x of (gp, ip, i, r) \<Rightarrow> r \<in> set rs \<and> ruleEnabled r \<and> i = ruleId r \<and>
     (if folderId r = None then gp = rulePriority r \<and> ip = 0
      else ip = rulePriority r \<and> (\<exists>f \<in> set fs. folderId r = Some (folderKey f) \<and> folderEnabled f \<and> gp = folderPriority f)))"
  unfolding hierQuery_def Let_def set_sort set_append by (cases x) (auto simp: image_iff)


definition exampleRules :: "ruleRow list" where
  "exampleRules =
    [\<lparr>ruleId = 1, ruleTag = ''exit'', matchJson = [], rulePriority = 20, ruleEnabled = True, folderId = None\<rparr>,
     \<lparr>ruleId = 2, ruleTag = ''block'', matchJson = ''smtp'', rulePriority = 7, ruleEnabled = True, folderId = Some 3\<rparr>]"

definition exampleFolders :: "folderRow list" where
  "exampleFolders = [\<lparr>folderKey = 3, folderPriority = 10, folderEnabled = True\<rparr>]"

definition exampleMatches :: "string \<Rightarrow> dbMatch option" where
  "exampleMatches j = (if j = ''smtp'' then Some (emptyMatch\<lparr>mPort := ''25''\<rparr>) else None)"

definition noGeo :: geo where
  "noGeo = \<lparr>geoIPCIDRs = \<lambda>_. [], geositeMatchers = \<lambda>_. GoOk []\<rparr>"

definition exampleStore :: "Snapshot option \<times> (string, nat) gores" where
  "exampleStore = publishRouting exampleMatches (\<lambda>_. None) noGeo ''direct'' ''panel.db'' (Some (Folders exampleRules exampleFolders)) ''direct'' [''direct'', ''exit''] None"

lemma exampleStore_ok: "snd exampleStore = GoOk 2"
  by code_simp


end
