(* ===== verification/OutboundRegistry.thy ===== *)
theory OutboundRegistry
  imports Balancer
begin

text \<open>
  internal/outbounds/registry.go and the dialling half of balancer.go: the generations of outbound
  dialers that a reload swaps, and the leases that keep a dialer of an old generation open while a stream
  uses it. Dialers live in a heap (a list; references are positions). The rows of the outbounds table,
  whether a client can be built for a URI, the outcome of a dial and the clock are arguments.
\<close>

datatype dialerKind = Direct string | Tamizdat string | Blackhole | Balanced "nat BalancerDialer"

text \<open>\<open>closes\<close> counts the calls of \<open>Close\<close> on the underlying dialer.\<close>

record trackedDialer =
  tTag :: string
  dialer :: dialerKind
  active :: nat
  retired :: bool
  tclosed :: bool
  closes :: nat

text \<open>A lease: its dialer, and whether its \<open>once\<close> has run.\<close>

type_synonym leasedDialer = "nat \<times> bool"

record Registry =
  heap :: "trackedDialer list"
  leases :: "leasedDialer list"
  byTag :: "(string \<times> nat) list"
  defaultTag :: string

definition newTrackedDialer :: "string \<Rightarrow> dialerKind \<Rightarrow> trackedDialer" where
  "newTrackedDialer tag d = \<lparr>tTag = tag, dialer = d, active = 0, retired = False, tclosed = False, closes = 0\<rparr>"

definition NewRegistry :: Registry where
  "NewRegistry = \<lparr>heap = [newTrackedDialer ''direct'' (Direct [])], leases = [], byTag = [(''direct'', 0)], defaultTag = ''direct''\<rparr>"

section \<open>Tracked dialers\<close>

definition retire :: "trackedDialer \<Rightarrow> trackedDialer" where
  "retire t = (if retired t then t
     else let t = t\<lparr>retired := True\<rparr> in
       if active t > 0 \<or> tclosed t then t else t\<lparr>tclosed := True, closes := closes t + 1\<rparr>)"

definition release :: "trackedDialer \<Rightarrow> trackedDialer" where
  "release t = (let t = (if active t > 0 then t\<lparr>active := active t - 1\<rparr> else t) in
     if \<not> retired t \<or> active t > 0 \<or> tclosed t then t else t\<lparr>tclosed := True, closes := closes t + 1\<rparr>)"

text \<open>\<open>acquire\<close> returns the new lease, \<open>CloseLease\<close> is \<open>leasedDialer.Close\<close>.\<close>

definition acquire :: "nat \<Rightarrow> Registry \<Rightarrow> Registry \<times> nat" where
  "acquire i r = (r\<lparr>heap := (heap r)[i := (heap r ! i)\<lparr>active := active (heap r ! i) + 1\<rparr>], leases := leases r @ [(i, False)]\<rparr>, length (leases r))"

definition CloseLease :: "nat \<Rightarrow> Registry \<Rightarrow> Registry" where
  "CloseLease l r = (if l \<ge> length (leases r) then r
     else case leases r ! l of (i, done) \<Rightarrow>
       if done then r
       else r\<lparr>leases := (leases r)[l := (i, True)], heap := (heap r)[i := release (heap r ! i)]\<rparr>)"

section \<open>Resolving\<close>

definition lookupTag :: "Registry \<Rightarrow> string \<Rightarrow> nat option" where
  "lookupTag r tag = map_of (byTag r) tag"

text \<open>A private direct dialer, for a registry without one.\<close>

definition acquireFresh :: "Registry \<Rightarrow> Registry \<times> nat" where
  "acquireFresh r = acquire (length (heap r)) (r\<lparr>heap := heap r @ [newTrackedDialer ''direct'' (Direct [])]\<rparr>)"

definition Resolve :: "string \<Rightarrow> Registry \<Rightarrow> Registry \<times> nat \<times> string" where
  "Resolve tag r =
    (if length (byTag r) = 0 then case acquireFresh r of (r, l) \<Rightarrow> (r, l, ''direct'')
     else let resolved = trim_space tag; resolved = (if resolved = [] then defaultTag r else resolved) in
     case lookupTag r resolved of
       Some i \<Rightarrow> (case acquire i r of (r, l) \<Rightarrow> (r, l, resolved))
     | None \<Rightarrow>
        (case lookupTag r ''direct'' of
           Some i \<Rightarrow> (case acquire i r of (r, l) \<Rightarrow> (r, l, ''direct''))
         | None \<Rightarrow> (case acquireFresh r of (r, l) \<Rightarrow> (r, l, ''direct''))))"

definition ResolveExact :: "string \<Rightarrow> Registry \<Rightarrow> (string, Registry \<times> nat \<times> string) gores" where
  "ResolveExact tag r =
    (let resolved = trim_space tag in
     if resolved = [] then GoErr ''exact outbound tag is empty''
     else case lookupTag r resolved of None \<Rightarrow> GoErr ''outbound is unavailable''
       | Some i \<Rightarrow> (case acquire i r of (r, l) \<Rightarrow> GoOk (r, l, resolved)))"

definition DefaultTag :: "Registry \<Rightarrow> string" where
  "DefaultTag r = (if defaultTag r = [] then ''direct'' else defaultTag r)"

definition Tags :: "Registry \<Rightarrow> string list" where
  "Tags r = map fst (byTag r)"

section \<open>Reload\<close>

record outboundRow =
  rowTag :: string
  rowKind :: string
  rowUri :: "string option"
  rowIface :: string

text \<open>What decides on the URIs: \<open>NewTamizdatDialer\<close> accepts one or not (the parser of client URLs and whether there is
  a factory), and the JSON and URL decoders of balancer configurations.\<close>

record builders =
  clientOK :: "string \<Rightarrow> bool"
  json :: "string \<Rightarrow> rawBalancerConfig option"
  url :: "string \<Rightarrow> balancerURI option"

definition scanRow :: "outboundRow \<Rightarrow> (string, outboundRow) gores" where
  "scanRow row = (let row = row\<lparr>rowTag := trim_space (rowTag row), rowKind := trim_space (rowKind row), rowIface := trim_space (rowIface row)\<rparr> in
     if rowTag row = [] then GoErr ''outbound with empty tag'' else GoOk row)"

primrec scanRows :: "outboundRow list \<Rightarrow> (string, outboundRow list) gores" where
  "scanRows [] = GoOk []"
| "scanRows (row # rows) = go_bind (scanRow row) (\<lambda>row. go_bind (scanRows rows) (\<lambda>rows. GoOk (row # rows)))"

definition missing :: "string option \<Rightarrow> bool" where
  "missing uri = (case uri of None \<Rightarrow> True | Some u \<Rightarrow> trim_space u = [])"

definition buildPlain :: "builders \<Rightarrow> outboundRow \<Rightarrow> (string, dialerKind option) gores" where
  "buildPlain B row =
    (if rowKind row = ''direct'' then
       if rowTag row \<noteq> ''direct'' then GoErr ''direct outbound must use tag direct'' else GoOk (Some (Direct (rowIface row)))
     else if rowKind row = ''tamizdat'' then
       if missing (rowUri row) then GoErr ''tamizdat outbound missing uri''
       else if \<not> clientOK B (the (rowUri row)) then GoErr ''tamizdat outbound''
       else GoOk (Some (Tamizdat (the (rowUri row))))
     else if rowKind row = ''blackhole'' then GoOk (Some Blackhole)
     else if rowKind row = ''balancer'' then GoOk None
     else GoErr ''outbound has unsupported kind'')"

text \<open>The generation under construction: new dialers after the heap of \<open>base\<close> old ones, and the map of tags.\<close>

type_synonym generation = "trackedDialer list \<times> (string \<times> nat) list"

definition addDialer :: "nat \<Rightarrow> string \<Rightarrow> dialerKind \<Rightarrow> generation \<Rightarrow> generation" where
  "addDialer base tag d g = (case g of (ds, m) \<Rightarrow> (ds @ [newTrackedDialer tag d], AList.update tag (base + length ds) m))"

primrec buildPlains :: "builders \<Rightarrow> nat \<Rightarrow> outboundRow list \<Rightarrow> generation \<Rightarrow> (string, generation \<times> outboundRow list) gores" where
  "buildPlains B base [] g = GoOk (g, [])"
| "buildPlains B base (row # rows) g =
    go_bind (buildPlain B row) (\<lambda>d. case d of
       None \<Rightarrow> go_bind (buildPlains B base rows g) (\<lambda>(g, bs). GoOk (g, row # bs))
     | Some d \<Rightarrow> buildPlains B base rows (addDialer base (rowTag row) d g))"

definition nestedIn :: "nat \<Rightarrow> trackedDialer list \<Rightarrow> nat \<Rightarrow> bool" where
  "nestedIn base ds i = (case dialer (ds ! (i - base)) of Balanced _ \<Rightarrow> True | _ \<Rightarrow> False)"

primrec buildBalancers :: "builders \<Rightarrow> nat \<Rightarrow> outboundRow list \<Rightarrow> generation \<Rightarrow> (string, generation) gores" where
  "buildBalancers B base [] g = GoOk g"
| "buildBalancers B base (row # rows) g =
    (if missing (rowUri row) then GoErr ''balancer outbound missing config''
     else go_bind (ParseBalancerConfig (json B) (url B) (the (rowUri row))) (\<lambda>cfg.
       go_bind (newBalancerDialer (nestedIn base (fst g)) (map_of (snd g)) (rowTag row) cfg) (\<lambda>bd.
       buildBalancers B base rows (addDialer base (rowTag row) (Balanced bd) g))))"

definition retireAll :: "nat list \<Rightarrow> trackedDialer list \<Rightarrow> trackedDialer list" where
  "retireAll is h = fold (\<lambda>i h. h[i := retire (h ! i)]) is h"

text \<open>\<open>rows\<close> and \<open>dflt\<close> are what the two queries return (\<open>None\<close>: a query fails; \<open>Some None\<close>: no such setting).\<close>

definition chosenDefault :: "string option \<Rightarrow> string" where
  "chosenDefault v = (let d = trim_space (case v of None \<Rightarrow> ''direct'' | Some v \<Rightarrow> v) in if d = [] then ''direct'' else d)"

definition checkGeneration :: "string option option \<Rightarrow> generation \<Rightarrow> (string, generation \<times> string) gores" where
  "checkGeneration dflt g =
    (if map_of (snd g) ''direct'' = None then GoErr ''outbound registry missing required direct outbound''
     else case dflt of None \<Rightarrow> GoErr ''query'' | Some v \<Rightarrow>
       if map_of (snd g) (chosenDefault v) = None then GoErr ''default_outbound_tag does not reference an outbound''
       else GoOk (g, chosenDefault v))"

definition buildGeneration :: "builders \<Rightarrow> nat \<Rightarrow> outboundRow list option \<Rightarrow> string option option \<Rightarrow> (string, generation \<times> string) gores" where
  "buildGeneration B base rows dflt =
    (case rows of None \<Rightarrow> GoErr ''query'' | Some rows \<Rightarrow>
       go_bind (scanRows rows) (\<lambda>loaded.
       go_bind (buildPlains B base loaded ([], [])) (\<lambda>(g, balancers).
       go_bind (buildBalancers B base balancers g) (checkGeneration dflt))))"

definition Reload :: "builders \<Rightarrow> outboundRow list option \<Rightarrow> string option option \<Rightarrow> Registry \<Rightarrow> Registry \<times> (string, unit) gores" where
  "Reload B rows dflt r =
    (case buildGeneration B (length (heap r)) rows dflt of
       GoOk ((ds, m), d) \<Rightarrow> (r\<lparr>heap := retireAll (map snd (byTag r)) (heap r) @ ds, byTag := m, defaultTag := d\<rparr>, GoOk ())
     | GoErr e \<Rightarrow> (r, GoErr e)
     | GoPanic \<Rightarrow> (r, GoPanic))"

definition CloseRegistry :: "Registry \<Rightarrow> Registry" where
  "CloseRegistry r = r\<lparr>byTag := [], defaultTag := ''direct'', heap := retireAll (map snd (byTag r)) (heap r)\<rparr>"

section \<open>Dialling\<close>

text \<open>Outcomes per dialer: does the dial succeed, has the caller's context ended after it, when was that.\<close>

record dialEnv =
  succeeds :: "nat \<Rightarrow> bool"
  ctxErr :: "nat \<Rightarrow> bool"
  atFailure :: "nat \<Rightarrow> int"

definition setBalancer :: "nat \<Rightarrow> nat BalancerDialer \<Rightarrow> Registry \<Rightarrow> Registry" where
  "setBalancer i b r = r\<lparr>heap := (heap r)[i := (heap r ! i)\<lparr>dialer := Balanced b\<rparr>]\<rparr>"

text \<open>\<open>leasedDialer.DialContext\<close> on a dialer that is no balancer.\<close>

definition dials :: "dialEnv \<Rightarrow> Registry \<Rightarrow> nat \<Rightarrow> bool" where
  "dials E r m \<longleftrightarrow> \<not> tclosed (heap r ! m) \<and> dialer (heap r ! m) \<noteq> Blackhole \<and> succeeds E m"

text \<open>The loop of \<open>BalancerDialer.DialContext\<close> and \<open>DialPacket\<close>; \<open>i\<close> is the balancer, the result the lease that the
  returned connection owns.\<close>

primrec dialLoop :: "dialEnv \<Rightarrow> nat \<Rightarrow> nat list \<Rightarrow> nat BalancerDialer \<Rightarrow> Registry \<Rightarrow> Registry \<times> nat option" where
  "dialLoop E i [] b r = (setBalancer i b r, None)"
| "dialLoop E i (k # ks) b r =
    (let m = snd (members b ! k); (r, l) = acquire m r in
     if dials E r m then (setBalancer i (noteSuccess k b) r, Some l)
     else let r = CloseLease l r; b = noteFailure (atFailure E m) k b in
       if ctxErr E m then (setBalancer i b r, None) else dialLoop E i ks b r)"

datatype dialResult = Failed | Plain | Through nat

text \<open>\<open>leasedDialer.DialContext\<close>: a plain connection, or one through a member whose lease it owns.\<close>

definition dialLease :: "dialEnv \<Rightarrow> (nat \<Rightarrow> RTTSnapshot option) \<Rightarrow> int \<Rightarrow> nat \<Rightarrow> Registry \<Rightarrow> Registry \<times> dialResult" where
  "dialLease E rtt now l r =
    (if l \<ge> length (leases r) then (r, Failed)
     else let i = fst (leases r ! l) in
     if tclosed (heap r ! i) then (r, Failed)
     else case dialer (heap r ! i) of
       Balanced b \<Rightarrow> (case orderedMembers rtt now b of (b, ks) \<Rightarrow>
          (case dialLoop E i ks b r of (r, Some l) \<Rightarrow> (r, Through l) | (r, None) \<Rightarrow> (r, Failed)))
     | _ \<Rightarrow> (r, if dials E r i then Plain else Failed))"

section \<open>Histories\<close>

text \<open>Every way the registry changes, at the granularity of its critical sections: a dial through a balancer is a
  sequence of member acquisitions and lease releases, so that other calls interleave with it.\<close>

inductive reg_step :: "Registry \<Rightarrow> Registry \<Rightarrow> bool" where
  resolve: "reg_step r (fst (Resolve tag r))"
| exact: "ResolveExact tag r = GoOk (r', l, t) \<Longrightarrow> reg_step r r'"
| release: "reg_step r (CloseLease l r)"
| reload: "reg_step r (fst (Reload B rows dflt r))"
| close: "reg_step r (CloseRegistry r)"
| acquire_member: "i < length (heap r) \<Longrightarrow> dialer (heap r ! i) = Balanced b \<Longrightarrow> m \<in> snd ` set (members b) \<Longrightarrow> reg_step r (fst (acquire m r))"
| noted: "i < length (heap r) \<Longrightarrow> dialer (heap r ! i) = Balanced b \<Longrightarrow> members b' = members b \<Longrightarrow> reg_step r (setBalancer i b' r)"

inductive reg_reach :: "Registry \<Rightarrow> bool" where
  start: "reg_reach NewRegistry"
| step: "reg_reach r \<Longrightarrow> reg_step r r' \<Longrightarrow> reg_reach r'"

definition openLeases :: "nat \<Rightarrow> Registry \<Rightarrow> nat" where
  "openLeases i r = count_list (leases r) (i, False)"

section \<open>The state invariant\<close>

definition dialer_ok :: "nat \<Rightarrow> trackedDialer \<Rightarrow> bool" where
  "dialer_ok n t \<longleftrightarrow> closes t = of_bool (tclosed t) \<and> (tclosed t \<longrightarrow> retired t) \<and> (retired t \<and> active t = 0 \<longrightarrow> tclosed t) \<and>
    (case dialer t of Balanced b \<Rightarrow> \<forall>m \<in> snd ` set (members b). m < n | _ \<Rightarrow> True)"

definition heap_ok :: "trackedDialer list \<Rightarrow> bool" where
  "heap_ok h \<longleftrightarrow> (\<forall>t \<in> set h. dialer_ok (length h) t)"

definition leases_ok :: "leasedDialer list \<Rightarrow> trackedDialer list \<Rightarrow> bool" where
  "leases_ok ls h \<longleftrightarrow> (\<forall>(i, d) \<in> set ls. i < length h) \<and> (\<forall>i < length h. active (h ! i) = count_list ls (i, False))"

definition tags_ok :: "(string \<times> nat) list \<Rightarrow> trackedDialer list \<Rightarrow> bool" where
  "tags_ok m h \<longleftrightarrow> distinct (map fst m) \<and> (\<forall>i \<in> snd ` set m. i < length h \<and> \<not> retired (h ! i))"

definition reg_inv :: "Registry \<Rightarrow> bool" where
  "reg_inv r \<longleftrightarrow> heap_ok (heap r) \<and> leases_ok (leases r) (heap r) \<and> tags_ok (byTag r) (heap r)"

section \<open>Every operation keeps it\<close>

lemma heap_ok_update: "heap_ok h \<Longrightarrow> dialer_ok (length h) t \<Longrightarrow> heap_ok (h[i := t])"
  unfolding heap_ok_def using set_update_subset_insert [of h i t] by auto

lemma heap_ok_nth: "heap_ok h \<Longrightarrow> i < length h \<Longrightarrow> dialer_ok (length h) (h ! i)"
  by (simp add: heap_ok_def)

lemma dialer_ok_mono: "dialer_ok n t \<Longrightarrow> n \<le> k \<Longrightarrow> dialer_ok k t"
  by (fastforce simp: dialer_ok_def split: dialerKind.splits)

lemma heap_ok_append: "heap_ok h \<Longrightarrow> (\<And>t. t \<in> set ds \<Longrightarrow> dialer_ok (length h + length ds) t) \<Longrightarrow> heap_ok (h @ ds)"
  by (auto simp: heap_ok_def intro: dialer_ok_mono)

lemma retire_fields [simp]: "active (retire t) = active t" "retired (retire t)" "dialer (retire t) = dialer t" "tTag (retire t) = tTag t"
  by (simp_all add: retire_def Let_def)

lemma release_fields [simp]: "active (release t) = active t - 1" "retired (release t) = retired t" "dialer (release t) = dialer t" "tTag (release t) = tTag t"
  by (auto simp: release_def Let_def)

lemma retire_retire [simp]: "retire (retire t) = retire t"
  by (simp add: retire_def Let_def)

lemma dialer_ok_retire: "dialer_ok n t \<Longrightarrow> dialer_ok n (retire t)"
  by (auto simp: dialer_ok_def retire_def Let_def)

lemma dialer_ok_release: "dialer_ok n t \<Longrightarrow> dialer_ok n (release t)"
  by (auto simp: dialer_ok_def release_def Let_def)

lemma dialer_ok_active: "dialer_ok n t \<Longrightarrow> dialer_ok n (t\<lparr>active := active t + 1\<rparr>)"
  by (simp add: dialer_ok_def)

lemma dialer_ok_new: "(case d of Balanced b \<Rightarrow> \<forall>m \<in> snd ` set (members b). m < n | _ \<Rightarrow> True) \<Longrightarrow> dialer_ok n (newTrackedDialer tag d)"
  by (simp add: dialer_ok_def newTrackedDialer_def)

lemma retireAll_length [simp]: "length (retireAll is h) = length h"
  unfolding retireAll_def by (induction "is" arbitrary: h) simp_all

lemma retireAll_nth: "i < length h \<Longrightarrow> retireAll is h ! i = (if i \<in> set is then retire (h ! i) else h ! i)"
  unfolding retireAll_def
proof (induction "is" arbitrary: h)
  case (Cons a "is") then show ?case by (cases "a = i") (simp_all add: nth_list_update)
qed simp

lemma retireAll_ok: "heap_ok h \<Longrightarrow> heap_ok (retireAll is h)"
  unfolding heap_ok_def all_set_conv_all_nth by (auto simp: retireAll_nth dialer_ok_retire)

lemma leases_retireAll: "leases_ok ls h \<Longrightarrow> leases_ok ls (retireAll is h)"
  by (auto simp: leases_ok_def retireAll_nth)

lemma tags_ok_update: "tags_ok m h \<Longrightarrow> (i < length h \<Longrightarrow> retired t = retired (h ! i)) \<Longrightarrow> tags_ok m (h[i := t])"
  unfolding tags_ok_def by (cases "i < length h") (auto simp: nth_list_update list_update_beyond rev_image_eqI)

lemma tags_ok_append: "tags_ok m h \<Longrightarrow> tags_ok m (h @ ds)"
  by (auto simp: tags_ok_def nth_append)

lemma count_list_update:
  "l < length xs \<Longrightarrow> count_list (xs[l := y]) x + of_bool (xs ! l = x) = count_list xs x + of_bool (y = x)"
proof (induction xs arbitrary: l)
  case (Cons a xs) then show ?case by (cases l) auto
qed simp

lemma acquire_inv:
  assumes "reg_inv r" "i < length (heap r)"
  shows "reg_inv (fst (acquire i r))"
proof -
  have "dialer_ok (length (heap r)) ((heap r ! i)\<lparr>active := active (heap r ! i) + 1\<rparr>)"
    using assms heap_ok_nth dialer_ok_active unfolding reg_inv_def by blast
  moreover have "leases_ok (leases r @ [(i, False)]) ((heap r)[i := (heap r ! i)\<lparr>active := active (heap r ! i) + 1\<rparr>])"
    using assms unfolding reg_inv_def leases_ok_def by (auto simp: nth_list_update)
  ultimately show ?thesis using assms by (simp add: reg_inv_def acquire_def heap_ok_update tags_ok_update)
qed

lemma acquireFresh_inv:
  assumes "reg_inv r"
  shows "reg_inv (fst (acquireFresh r))"
proof -
  let ?t = "newTrackedDialer ''direct'' (Direct [])"
  have "count_list (leases r) (length (heap r), False) = 0"
    using assms unfolding reg_inv_def leases_ok_def by (fastforce simp: count_list_0_iff)
  then have "leases_ok (leases r) (heap r @ [?t])"
    using assms unfolding reg_inv_def leases_ok_def by (fastforce simp: nth_append newTrackedDialer_def less_Suc_eq)
  moreover have "heap_ok (heap r @ [?t])" using assms by (intro heap_ok_append) (auto simp: reg_inv_def intro: dialer_ok_new)
  ultimately have "reg_inv (r\<lparr>heap := heap r @ [?t]\<rparr>)" using assms by (simp add: reg_inv_def tags_ok_append)
  from acquire_inv [OF this] show ?thesis by (simp add: acquireFresh_def)
qed

lemma lookup_bound: "reg_inv r \<Longrightarrow> lookupTag r t = Some i \<Longrightarrow> i < length (heap r)"
  unfolding reg_inv_def tags_ok_def lookupTag_def by (auto dest!: map_of_SomeD simp: rev_image_eqI)

lemma Resolve_form:
  "fst (Resolve tag r) = fst (acquireFresh r) \<or> (\<exists>t i. lookupTag r t = Some i \<and> fst (Resolve tag r) = fst (acquire i r))"
  by (cases "length (byTag r) = 0"; cases "lookupTag r (if trim_space tag = [] then defaultTag r else trim_space tag)"; cases "lookupTag r ''direct''")
    (auto simp: Resolve_def Let_def case_prod_beta)

lemma Resolve_inv: "reg_inv r \<Longrightarrow> reg_inv (fst (Resolve tag r))"
  using Resolve_form [of tag r] lookup_bound acquire_inv acquireFresh_inv by metis

lemma ResolveExact_inv: "reg_inv r \<Longrightarrow> ResolveExact tag r = GoOk (r', l, t) \<Longrightarrow> reg_inv r'"
  using acquire_inv [OF _ lookup_bound, of r "trim_space tag"]
  by (fastforce simp: ResolveExact_def Let_def split: option.splits prod.splits if_splits)

lemma CloseLease_inv:
  assumes "reg_inv r"
  shows "reg_inv (CloseLease l r)"
proof (cases "l < length (leases r) \<and> \<not> snd (leases r ! l)")
  case False then show ?thesis using assms by (auto simp: CloseLease_def split: prod.splits)
next
  case True
  then obtain i where e: "leases r ! l = (i, False)" by (cases "leases r ! l") auto
  then have i: "i < length (heap r)" using assms True unfolding reg_inv_def leases_ok_def by (metis (mono_tags, lifting) case_prodD nth_mem)
  have "leases_ok ((leases r)[l := (i, True)]) ((heap r)[i := release (heap r ! i)])"
    unfolding leases_ok_def
  proof (intro conjI allI impI)
    show "\<forall>(j, d) \<in> set ((leases r)[l := (i, True)]). j < length ((heap r)[i := release (heap r ! i)])"
      using assms i set_update_subset_insert [of "leases r" l "(i, True)"] unfolding reg_inv_def leases_ok_def by auto
    fix j assume "j < length ((heap r)[i := release (heap r ! i)])"
    then show "active ((heap r)[i := release (heap r ! i)] ! j) = count_list ((leases r)[l := (i, True)]) (j, False)"
      using assms True e count_list_update [of l "leases r" "(i, True)" "(j, False)"] unfolding reg_inv_def leases_ok_def
      by (cases "j = i") auto
  qed
  then show ?thesis using assms True e i heap_ok_nth [of "heap r" i]
    by (simp add: CloseLease_def reg_inv_def heap_ok_update dialer_ok_release tags_ok_update)
qed

lemma CloseRegistry_inv: "reg_inv r \<Longrightarrow> reg_inv (CloseRegistry r)"
  by (simp add: reg_inv_def CloseRegistry_def retireAll_ok leases_retireAll) (simp add: tags_ok_def)

lemma setBalancer_inv:
  assumes "reg_inv r" "dialer (heap r ! i) = Balanced b" "members b' = members b"
  shows "reg_inv (setBalancer i b' r)"
proof (cases "i < length (heap r)")
  case True
  have "dialer_ok (length (heap r)) ((heap r ! i)\<lparr>dialer := Balanced b'\<rparr>)"
    using heap_ok_nth [of "heap r" i] True assms by (auto simp: reg_inv_def dialer_ok_def)
  then show ?thesis using assms True
    by (simp add: reg_inv_def setBalancer_def heap_ok_update tags_ok_update) (auto simp: leases_ok_def nth_list_update)
qed (use assms in \<open>simp add: setBalancer_def list_update_beyond\<close>)

lemma member_bound:
  assumes "reg_inv r" "i < length (heap r)" "dialer (heap r ! i) = Balanced b" "m \<in> snd ` set (members b)"
  shows "m < length (heap r)"
  using heap_ok_nth [of "heap r" i] assms by (auto simp: reg_inv_def dialer_ok_def)

section \<open>Reloading\<close>

lemma trim_space_idem [simp]: "trim_space (trim_space s) = trim_space s"
proof -
  define y where "y = dropWhile is_space s"
  define z where "z = dropWhile is_space (rev y)"
  have t: "trim_space s = rev z" by (simp add: trim_space_def y_def z_def)
  have "dropWhile is_space (rev z) = rev z"
  proof (cases "z = []")
    case False
    obtain p where "rev y = p @ z" using z_def by (metis takeWhile_dropWhile_id)
    then have y: "y = rev z @ rev p" by (metis rev_append rev_rev_ident)
    then have "y \<noteq> []" using False by simp
    then have "\<not> is_space (hd y)" using hd_dropWhile y_def by blast
    then have "\<not> is_space (hd (rev z))" using y False by (simp add: hd_append)
    then show ?thesis using False by (cases "rev z") simp_all
  qed simp
  moreover have "dropWhile is_space z = z" unfolding z_def by (rule dropWhile_idem)
  ultimately show ?thesis unfolding t by (simp add: trim_space_def)
qed

text \<open>The generation under construction.\<close>

definition gen_ok :: "nat \<Rightarrow> generation \<Rightarrow> bool" where
  "gen_ok base g \<longleftrightarrow> distinct (map fst (snd g)) \<and> (\<forall>i \<in> snd ` set (snd g). base \<le> i \<and> i < base + length (fst g)) \<and>
    (\<forall>t \<in> set (fst g). t = newTrackedDialer (tTag t) (dialer t) \<and> dialer_ok (base + length (fst g)) t)"

lemma gen_ok_map: "gen_ok base g \<Longrightarrow> map_of (snd g) t = Some i \<Longrightarrow> base \<le> i \<and> i < base + length (fst g)"
  unfolding gen_ok_def by (auto dest!: map_of_SomeD simp: rev_image_eqI)

lemma addDialer_ok:
  assumes "gen_ok base g" "case d of Balanced b \<Rightarrow> \<forall>m \<in> snd ` set (members b). m < base + length (fst g) | _ \<Rightarrow> True"
  shows "gen_ok base (addDialer base tag d g)"
proof -
  obtain ds m where g: "g = (ds, m)" by (cases g)
  have "dialer_ok (base + length ds + 1) (newTrackedDialer tag d)"
    using assms(2) g by (intro dialer_ok_new) (fastforce split: dialerKind.splits)
  moreover have "dialer_ok (base + length ds + 1) t" if "t \<in> set ds" for t
    using assms(1) that g dialer_ok_mono [of "base + length ds" t "base + length ds + 1"] by (simp add: gen_ok_def)
  moreover have "\<forall>i \<in> snd ` set (AList.update tag (base + length ds) m). base \<le> i \<and> i < base + length ds + 1"
  proof -
    have "snd ` set (AList.update tag (base + length ds) m) \<subseteq> insert (base + length ds) (snd ` set m)" by (induction m) auto
    moreover have "\<forall>i \<in> insert (base + length ds) (snd ` set m). base \<le> i \<and> i < base + length ds + 1"
      using assms(1) g by (auto simp: gen_ok_def)
    ultimately show ?thesis by blast
  qed
  ultimately show ?thesis using assms(1) g unfolding gen_ok_def
    by (simp add: addDialer_def AList.distinct_update newTrackedDialer_def subset_eq)
qed

lemma addDialer_map: "map_of (snd (addDialer base tag d g)) = (map_of (snd g))(tag \<mapsto> base + length (fst g))"
  by (cases g) (simp add: addDialer_def AList.update_conv')

lemma addDialer_nested:
  assumes "gen_ok base g" "i \<ge> base" "i \<le> base + length (fst g)"
  shows "nestedIn base (fst (addDialer base tag d g)) i =
    (if i = base + length (fst g) then (\<exists>b. d = Balanced b) else nestedIn base (fst g) i)"
  using assms by (cases g) (auto simp: addDialer_def nestedIn_def nth_append newTrackedDialer_def split: dialerKind.splits)

text \<open>The tags a balancer may name.\<close>

definition plainTags :: "nat \<Rightarrow> generation \<Rightarrow> string set" where
  "plainTags base g = {t. \<exists>i. map_of (snd g) t = Some i \<and> \<not> nestedIn base (fst g) i}"

lemma plainTags_add:
  assumes "gen_ok base g"
  shows "plainTags base (addDialer base tag d g) = (if \<exists>b. d = Balanced b then plainTags base g - {tag} else insert tag (plainTags base g))"
proof -
  have "nestedIn base (fst (addDialer base tag d g)) i = nestedIn base (fst g) i" if "map_of (snd g) t = Some i" for t i
    using addDialer_nested [OF assms] gen_ok_map [OF assms that] by auto
  moreover have "nestedIn base (fst (addDialer base tag d g)) (base + length (fst g)) = (\<exists>b. d = Balanced b)"
    using addDialer_nested [OF assms, of "base + length (fst g)"] by simp
  ultimately show ?thesis unfolding plainTags_def addDialer_map by auto
qed

definition isBalancerRow :: "outboundRow \<Rightarrow> bool" where
  "isBalancerRow row \<longleftrightarrow> rowKind row = ''balancer''"

definition plainRowOK :: "builders \<Rightarrow> outboundRow \<Rightarrow> bool" where
  "plainRowOK B row \<longleftrightarrow> rowKind row = ''direct'' \<and> rowTag row = ''direct'' \<or>
     rowKind row = ''tamizdat'' \<and> (\<exists>u. rowUri row = Some u \<and> trim_space u \<noteq> [] \<and> clientOK B u) \<or> rowKind row = ''blackhole''"

lemma buildPlain_cases:
  "(\<exists>d. buildPlain B row = GoOk (Some d) \<and> (\<nexists>b. d = Balanced b) \<and> plainRowOK B row \<and> \<not> isBalancerRow row) \<or>
   buildPlain B row = GoOk None \<and> isBalancerRow row \<or>
   (\<exists>e. buildPlain B row = GoErr e) \<and> \<not> isBalancerRow row \<and> \<not> plainRowOK B row"
  by (auto simp: buildPlain_def plainRowOK_def isBalancerRow_def missing_def split: option.splits)

text \<open>What the first pass yields.\<close>

definition plains_spec :: "builders \<Rightarrow> nat \<Rightarrow> outboundRow list \<Rightarrow> generation \<Rightarrow> (string, generation \<times> outboundRow list) gores \<Rightarrow> bool" where
  "plains_spec B base rows g res \<longleftrightarrow>
    (if \<forall>row \<in> set rows. isBalancerRow row \<or> plainRowOK B row then
       \<exists>g'. res = GoOk (g', filter isBalancerRow rows) \<and> gen_ok base g' \<and>
         plainTags base g' = plainTags base g \<union> {rowTag row |row. row \<in> set rows \<and> \<not> isBalancerRow row} \<and>
         dom (map_of (snd g')) = dom (map_of (snd g)) \<union> {rowTag row |row. row \<in> set rows \<and> \<not> isBalancerRow row}
     else \<exists>e. res = GoErr e)"

lemma buildPlains_spec: "gen_ok base g \<Longrightarrow> plains_spec B base rows g (buildPlains B base rows g)"
proof (induction rows arbitrary: g)
  case Nil then show ?case by (simp add: plains_spec_def)
next
  case (Cons row rows)
  consider (plain) d where "buildPlain B row = GoOk (Some d)" "\<nexists>b. d = Balanced b" "plainRowOK B row" "\<not> isBalancerRow row"
    | (bal) "buildPlain B row = GoOk None" "isBalancerRow row"
    | (err) e where "buildPlain B row = GoErr e" "\<not> isBalancerRow row" "\<not> plainRowOK B row"
    using buildPlain_cases [of B row] by blast
  then show ?case
  proof cases
    case plain
    let ?g = "addDialer base (rowTag row) d g"
    have ok: "gen_ok base ?g" using Cons.prems plain(2) by (intro addDialer_ok) (auto split: dialerKind.splits)
    have p: "plainTags base ?g = insert (rowTag row) (plainTags base g)" using plainTags_add [OF Cons.prems] plain(2) by simp
    have d: "dom (map_of (snd ?g)) = insert (rowTag row) (dom (map_of (snd g)))" by (simp add: addDialer_map)
    have e: "buildPlains B base (row # rows) g = buildPlains B base rows ?g" using plain(1) by simp
    show ?thesis using Cons.IH [OF ok] plain(3,4) unfolding e plains_spec_def p d by (auto split: if_split_asm)
  next
    case bal
    show ?thesis using Cons.IH [OF Cons.prems] bal unfolding plains_spec_def by (auto split: if_split_asm)
  next
    case err then show ?thesis by (simp add: plains_spec_def)
  qed
qed

lemma collectMembers_spec:
  "if \<forall>m \<in> set ms. m \<noteq> tag \<and> (\<exists>d. tagMap m = Some d \<and> \<not> nested d)
   then \<exists>r. collectMembers nested tagMap tag ms = GoOk r \<and> snd ` set r \<subseteq> ran tagMap
   else \<exists>e. collectMembers nested tagMap tag ms = GoErr e"
proof (induction ms)
  case (Cons m ms)
  show ?case
  proof (cases "tagMap m")
    case (Some d)
    then have "d \<in> ran tagMap" by (rule ranI)
    then show ?thesis using Cons.IH Some by (auto split: if_split_asm)
  qed auto
qed simp

lemma mode_normal: "normalizeBalancerMode ''alive'' = GoOk ''alive''" "normalizeBalancerMode ''round_robin'' = GoOk ''round_robin''"
  by code_simp+

lemma mode_idem: "normalizeBalancerMode m = GoOk m' \<Longrightarrow> normalizeBalancerMode m' = GoOk m'"
proof -
  assume "normalizeBalancerMode m = GoOk m'"
  then have "m' = ''alive'' \<or> m' = ''round_robin''" by (auto simp: normalizeBalancerMode_def Let_def split: if_split_asm)
  then show ?thesis using mode_normal by blast
qed

lemma members_idem: "normalizeBalancerMembers (normalizeBalancerMembers ts) = normalizeBalancerMembers ts"
  by (induction ts) (simp_all add: normalizeBalancerMembers_def)

definition normalConfig :: "BalancerConfig \<Rightarrow> bool" where
  "normalConfig cfg \<longleftrightarrow> normalizeBalancerMode (cfgMode cfg) = GoOk (cfgMode cfg) \<and>
    normalizeBalancerMembers (cfgOutbounds cfg) = cfgOutbounds cfg \<and> cfgOutbounds cfg \<noteq> []"

lemma normalizeBalancerMode_cases: "(\<exists>m. normalizeBalancerMode x = GoOk m) \<or> (\<exists>e. normalizeBalancerMode x = GoErr e)"
  by (simp add: normalizeBalancerMode_def Let_def)

definition okOrErr :: "(string, BalancerConfig) gores \<Rightarrow> bool" where
  "okOrErr res \<longleftrightarrow> (\<exists>cfg. res = GoOk cfg \<and> normalConfig cfg) \<or> (\<exists>e. res = GoErr e)"

lemma okOrErr_simps [simp]: "okOrErr (GoErr e)" "okOrErr (GoOk cfg) = normalConfig cfg"
  by (simp_all add: okOrErr_def)

lemma okOrErr_bind: "X \<noteq> GoPanic \<Longrightarrow> (\<And>c. X = GoOk c \<Longrightarrow> okOrErr (K c)) \<Longrightarrow> okOrErr (go_bind X K)"
  by (cases X) simp_all

lemma okOrErr_finish:
  "normalizeBalancerMode (cfgMode c) = GoOk mode \<Longrightarrow> ms = normalizeBalancerMembers (cfgOutbounds c) \<Longrightarrow> ms \<noteq> [] \<Longrightarrow>
   normalConfig \<lparr>cfgMode = mode, cfgOutbounds = ms, cfgFailover = f, cfgRTT = g\<rparr>"
  by (simp add: normalConfig_def members_idem mode_idem)

lemma normalizeBalancerMode_total: "normalizeBalancerMode x \<noteq> GoPanic"
  using normalizeBalancerMode_cases [of x] by auto

lemma ParseBalancerConfig_okOrErr: "okOrErr (ParseBalancerConfig js ur raw)"
  unfolding ParseBalancerConfig_def Let_def
  by (cases "trim_space raw = []") (auto intro!: okOrErr_bind okOrErr_finish normalizeBalancerMode_total split: option.splits)

lemmas ParseBalancerConfig_cases = ParseBalancerConfig_okOrErr [unfolded okOrErr_def]

lemma newBalancerDialer_spec:
  assumes "normalConfig cfg" "trim_space tag = tag" "tag \<noteq> []"
  shows "if \<forall>m \<in> set (cfgOutbounds cfg). m \<noteq> tag \<and> (\<exists>d. tagMap m = Some d \<and> \<not> nested d)
   then \<exists>bd. newBalancerDialer nested tagMap tag cfg = GoOk bd \<and> snd ` set (members bd) \<subseteq> ran tagMap
   else \<exists>e. newBalancerDialer nested tagMap tag cfg = GoErr e"
  using collectMembers_spec [of "cfgOutbounds cfg" tag tagMap nested] assms
  by (auto simp: newBalancerDialer_def normalConfig_def Let_def split: if_split_asm)

definition balancerRowOK :: "builders \<Rightarrow> string set \<Rightarrow> outboundRow \<Rightarrow> bool" where
  "balancerRowOK B P row \<longleftrightarrow> (\<exists>u cfg. rowUri row = Some u \<and> trim_space u \<noteq> [] \<and> ParseBalancerConfig (json B) (url B) u = GoOk cfg \<and> set (cfgOutbounds cfg) \<subseteq> P)"

lemma balancerRow_step:
  assumes "trim_space (rowTag row) = rowTag row" "rowTag row \<noteq> []" "rowTag row \<notin> plainTags base g"
  shows "if balancerRowOK B (plainTags base g) row
    then \<exists>bd. snd ` set (members bd) \<subseteq> ran (map_of (snd g)) \<and>
      buildBalancers B base (row # rows) g = buildBalancers B base rows (addDialer base (rowTag row) (Balanced bd) g)
    else \<exists>e. buildBalancers B base (row # rows) g = GoErr e"
proof (cases "missing (rowUri row)")
  case True then show ?thesis by (auto simp: balancerRowOK_def missing_def split: option.splits)
next
  case False
  then obtain u where u: "rowUri row = Some u" "trim_space u \<noteq> []" by (auto simp: missing_def split: option.splits)
  show ?thesis
  proof (cases "ParseBalancerConfig (json B) (url B) u")
    case (GoOk cfg)
    then have n: "normalConfig cfg" using ParseBalancerConfig_cases [of "json B" "url B" u] by auto
    have e: "balancerRowOK B (plainTags base g) row \<longleftrightarrow>
      (\<forall>m \<in> set (cfgOutbounds cfg). m \<noteq> rowTag row \<and> (\<exists>d. map_of (snd g) m = Some d \<and> \<not> nestedIn base (fst g) d))"
      using u GoOk assms(3) by (auto simp: balancerRowOK_def plainTags_def)
    note N = newBalancerDialer_spec [OF n assms(1,2), of "map_of (snd g)" "nestedIn base (fst g)", folded e]
    show ?thesis
    proof (cases "balancerRowOK B (plainTags base g) row")
      case True
      then obtain bd where "newBalancerDialer (nestedIn base (fst g)) (map_of (snd g)) (rowTag row) cfg = GoOk bd"
        "snd ` set (members bd) \<subseteq> ran (map_of (snd g))" using N by auto
      then show ?thesis using True False u(1) GoOk by (simp, blast)
    next
      case F: False
      then show ?thesis using N False u(1) GoOk by auto
    qed
  qed (use False u ParseBalancerConfig_cases [of "json B" "url B" u] in \<open>auto simp: balancerRowOK_def\<close>)
qed

definition balancers_spec :: "builders \<Rightarrow> nat \<Rightarrow> outboundRow list \<Rightarrow> generation \<Rightarrow> (string, generation) gores \<Rightarrow> bool" where
  "balancers_spec B base rows g res \<longleftrightarrow>
    (if \<forall>row \<in> set rows. balancerRowOK B (plainTags base g) row then
       \<exists>g'. res = GoOk g' \<and> gen_ok base g' \<and> dom (map_of (snd g')) = dom (map_of (snd g)) \<union> rowTag ` set rows
     else \<exists>e. res = GoErr e)"

lemma buildBalancers_spec:
  assumes "gen_ok base g" "\<forall>row \<in> set rows. trim_space (rowTag row) = rowTag row \<and> rowTag row \<noteq> [] \<and> rowTag row \<notin> plainTags base g"
  shows "balancers_spec B base rows g (buildBalancers B base rows g)"
  using assms
proof (induction rows arbitrary: g)
  case Nil then show ?case by (simp add: balancers_spec_def)
next
  case (Cons row rows)
  have t: "trim_space (rowTag row) = rowTag row" "rowTag row \<noteq> []" "rowTag row \<notin> plainTags base g" using Cons.prems(2) by simp_all
  show ?case
  proof (cases "balancerRowOK B (plainTags base g) row")
    case True
    then obtain bd where bd: "snd ` set (members bd) \<subseteq> ran (map_of (snd g))"
      and e: "buildBalancers B base (row # rows) g = buildBalancers B base rows (addDialer base (rowTag row) (Balanced bd) g)"
      using balancerRow_step [OF t, of B rows] by auto
    let ?g = "addDialer base (rowTag row) (Balanced bd) g"
    have "\<forall>m \<in> ran (map_of (snd g)). m < base + length (fst g)" using gen_ok_map [OF Cons.prems(1)] by (auto simp: ran_def)
    then have ok: "gen_ok base ?g" using Cons.prems(1) bd by (intro addDialer_ok) auto
    have p: "plainTags base ?g = plainTags base g" using plainTags_add [OF Cons.prems(1), of "rowTag row" "Balanced bd"] t(3) by simp
    have d: "dom (map_of (snd ?g)) = insert (rowTag row) (dom (map_of (snd g)))" by (simp add: addDialer_map)
    have "balancers_spec B base rows ?g (buildBalancers B base rows ?g)" using Cons.IH [OF ok] Cons.prems(2) unfolding p by simp
    then show ?thesis using True unfolding e balancers_spec_def p d by (auto split: if_split_asm)
  next
    case False
    then obtain e where "buildBalancers B base (row # rows) g = GoErr e" using balancerRow_step [OF t, of B rows] by auto
    then show ?thesis using False by (simp add: balancers_spec_def)
  qed
qed

lemma newBalancerDialer_members:
  assumes "newBalancerDialer nested tagMap tag cfg = GoOk bd"
  shows "snd ` set (members bd) \<subseteq> ran tagMap"
proof -
  obtain ms where ms: "collectMembers nested tagMap (trim_space tag) (normalizeBalancerMembers (cfgOutbounds cfg)) = GoOk ms" "members bd = ms"
    using assms by (fastforce simp: newBalancerDialer_def Let_def go_bind_GoOk split: if_split_asm)
  then show ?thesis using collectMembers_spec [of "normalizeBalancerMembers (cfgOutbounds cfg)" "trim_space tag" tagMap nested]
    by (auto split: if_split_asm)
qed

lemma buildBalancers_gen: "gen_ok base g \<Longrightarrow> buildBalancers B base rows g = GoOk g' \<Longrightarrow> gen_ok base g'"
proof (induction rows arbitrary: g)
  case (Cons row rows)
  from Cons.prems(2) obtain cfg bd where bd: "newBalancerDialer (nestedIn base (fst g)) (map_of (snd g)) (rowTag row) cfg = GoOk bd"
    and e: "buildBalancers B base rows (addDialer base (rowTag row) (Balanced bd) g) = GoOk g'"
    by (auto simp: go_bind_GoOk split: if_split_asm)
  have "\<forall>m \<in> ran (map_of (snd g)). m < base + length (fst g)" using gen_ok_map [OF Cons.prems(1)] by (auto simp: ran_def)
  then have "gen_ok base (addDialer base (rowTag row) (Balanced bd) g)"
    using Cons.prems(1) newBalancerDialer_members [OF bd] by (intro addDialer_ok) auto
  then show ?case using Cons.IH e by blast
qed simp

lemma gen_ok_empty [simp]: "gen_ok base ([], [])"
  by (simp add: gen_ok_def)

lemma buildPlains_gen: "gen_ok base g \<Longrightarrow> buildPlains B base rows g = GoOk (g', bs) \<Longrightarrow> gen_ok base g'"
  using buildPlains_spec [of base g B rows] by (auto simp: plains_spec_def split: if_split_asm)

lemma buildGeneration_gen:
  assumes "buildGeneration B base rows dflt = GoOk (g, d)"
  shows "gen_ok base g"
proof -
  obtain rs loaded g1 bs where "buildPlains B base loaded ([], []) = GoOk (g1, bs)" "buildBalancers B base bs g1 = GoOk g"
    using assms by (auto simp: buildGeneration_def checkGeneration_def go_bind_GoOk split: option.splits if_split_asm)
  then show ?thesis using buildPlains_gen [OF gen_ok_empty] buildBalancers_gen by blast
qed

lemma swap_inv:
  assumes "reg_inv r" "gen_ok (length (heap r)) (ds, m)"
  shows "reg_inv (r\<lparr>heap := retireAll is (heap r) @ ds, byTag := m, defaultTag := d\<rparr>)"
proof -
  let ?h = "retireAll is (heap r)"
  have "heap_ok (?h @ ds)" using assms retireAll_ok by (intro heap_ok_append) (auto simp: reg_inv_def gen_ok_def)
  moreover have "leases_ok (leases r) (?h @ ds)"
  proof -
    have b: "i < length (heap r)" if "(i, b) \<in> set (leases r)" for i b using assms(1) that unfolding reg_inv_def leases_ok_def by auto
    have c: "active (?h ! i) = count_list (leases r) (i, False)" if "i < length (heap r)" for i
      using leases_retireAll [of "leases r" "heap r" "is"] assms(1) that by (simp add: reg_inv_def leases_ok_def)
    have "active ((?h @ ds) ! i) = count_list (leases r) (i, False)" if "i < length (heap r) + length ds" for i
    proof (cases "i < length (heap r)")
      case False
      then have "ds ! (i - length (heap r)) \<in> set ds" using that by simp
      then have "active (ds ! (i - length (heap r))) = 0" using assms(2) unfolding gen_ok_def newTrackedDialer_def by (metis fst_conv trackedDialer.select_convs(3))
      moreover have "count_list (leases r) (i, False) = 0" using b False by (metis count_list_0_iff)
      ultimately show ?thesis using False by (simp add: nth_append)
    qed (simp add: nth_append c)
    then show ?thesis using b unfolding leases_ok_def by (auto intro: trans_less_add1)
  qed
  moreover have "tags_ok m (?h @ ds)"
  proof -
    have "\<not> retired ((?h @ ds) ! i)" if "length (heap r) \<le> i" "i < length (heap r) + length ds" for i
    proof -
      have "ds ! (i - length (heap r)) \<in> set ds" using that by simp
      then have "\<not> retired (ds ! (i - length (heap r)))" using assms(2) unfolding gen_ok_def newTrackedDialer_def by (metis fst_conv trackedDialer.select_convs(4))
      then show ?thesis using that by (simp add: nth_append)
    qed
    then show ?thesis using assms(2) unfolding tags_ok_def gen_ok_def by simp
  qed
  ultimately show ?thesis by (simp add: reg_inv_def)
qed

lemma Reload_inv:
  assumes "reg_inv r"
  shows "reg_inv (fst (Reload B rows dflt r))"
proof (cases "buildGeneration B (length (heap r)) rows dflt")
  case (GoOk x)
  obtain ds m d where x: "x = ((ds, m), d)" by (metis prod.exhaust)
  show ?thesis using swap_inv [OF assms buildGeneration_gen [OF GoOk [unfolded x]]] GoOk x by (simp add: Reload_def)
qed (use assms in \<open>simp_all add: Reload_def\<close>)

lemma reg_step_inv: "reg_step r r' \<Longrightarrow> reg_inv r \<Longrightarrow> reg_inv r'"
  by (induction rule: reg_step.induct)
    (auto intro: Resolve_inv ResolveExact_inv CloseLease_inv Reload_inv CloseRegistry_inv acquire_inv member_bound setBalancer_inv)

lemma NewRegistry_inv: "reg_inv NewRegistry"
  by (simp add: reg_inv_def NewRegistry_def heap_ok_def leases_ok_def tags_ok_def dialer_ok_def newTrackedDialer_def)

lemma reg_reach_inv: "reg_reach r \<Longrightarrow> reg_inv r"
  by (induction rule: reg_reach.induct) (auto intro: NewRegistry_inv reg_step_inv)

text \<open>A step that closes a dialer does so with no lease on it left.\<close>

lemma heap_update_closes:
  assumes "heap_ok h" "i < length h" "\<not> tclosed (h ! i)" "tclosed (h[j := t] ! i)" "tclosed t \<and> \<not> tclosed (h ! j) \<longrightarrow> active t = 0"
  shows "active (h[j := t] ! i) = 0"
  using assms by (cases "i = j") auto

lemma release_closes: "tclosed (release t) \<Longrightarrow> \<not> tclosed t \<Longrightarrow> active (release t) = 0"
  by (auto simp: release_def Let_def split: if_split_asm)

lemma retire_closes: "tclosed (retire t) \<Longrightarrow> \<not> tclosed t \<Longrightarrow> active (retire t) = 0"
  by (auto simp: retire_def Let_def split: if_split_asm)

lemma acquire_closes: "i < length (heap r) \<Longrightarrow> tclosed (heap (fst (acquire m r)) ! i) = tclosed (heap r ! i)"
  by (cases "i = m") (simp_all add: acquire_def)

lemma acquireFresh_closes: "i < length (heap r) \<Longrightarrow> tclosed (heap (fst (acquireFresh r)) ! i) = tclosed (heap r ! i)"
  by (simp add: acquireFresh_def acquire_closes nth_append)

lemma retireAll_closes:
  "i < length h \<Longrightarrow> \<not> tclosed (h ! i) \<Longrightarrow> tclosed (retireAll is h ! i) \<Longrightarrow> active (retireAll is h ! i) = 0"
  using retire_closes [of "h ! i"] by (simp add: retireAll_nth split: if_split_asm)

text \<open>Which tables a reload accepts.\<close>

definition trimRow :: "outboundRow \<Rightarrow> outboundRow" where
  "trimRow row = row\<lparr>rowTag := trim_space (rowTag row), rowKind := trim_space (rowKind row), rowIface := trim_space (rowIface row)\<rparr>"

definition tableTags :: "outboundRow list \<Rightarrow> string set" where
  "tableTags rows = (rowTag \<circ> trimRow) ` set rows"

definition table_ok :: "builders \<Rightarrow> outboundRow list \<Rightarrow> string option \<Rightarrow> bool" where
  "table_ok B rows dflt \<longleftrightarrow>
    (let rs = map trimRow rows; plain = {rowTag row |row. row \<in> set rs \<and> \<not> isBalancerRow row} in
     (\<forall>row \<in> set rs. rowTag row \<noteq> [] \<and> (if isBalancerRow row then balancerRowOK B plain row else plainRowOK B row)) \<and>
     ''direct'' \<in> tableTags rows \<and> chosenDefault dflt \<in> tableTags rows)"

lemma scanRows_spec:
  "if \<forall>row \<in> set rows. rowTag (trimRow row) \<noteq> [] then scanRows rows = GoOk (map trimRow rows) else \<exists>e. scanRows rows = GoErr e"
  by (induction rows) (auto simp: scanRow_def trimRow_def Let_def split: if_split_asm)

definition generation_spec :: "builders \<Rightarrow> nat \<Rightarrow> outboundRow list \<Rightarrow> string option \<Rightarrow> (string, generation \<times> string) gores \<Rightarrow> bool" where
  "generation_spec B base rows dflt res \<longleftrightarrow>
    (if table_ok B rows dflt then \<exists>ds m. res = GoOk ((ds, m), chosenDefault dflt) \<and> dom (map_of m) = tableTags rows else \<exists>e. res = GoErr e)"

lemma buildGeneration_spec:
  assumes "distinct (map (rowTag \<circ> trimRow) rows)"
  shows "generation_spec B base rows dflt (buildGeneration B base (Some rows) (Some dflt))"
proof (cases "\<forall>row \<in> set rows. rowTag (trimRow row) \<noteq> []")
  case False
  then obtain e where "scanRows rows = GoErr e" using scanRows_spec [of rows] unfolding if_not_P [OF False] by blast
  moreover have "\<not> table_ok B rows dflt" using False by (auto simp: table_ok_def Let_def)
  ultimately show ?thesis by (simp add: generation_spec_def buildGeneration_def)
next
  case True
  define rs where "rs = map trimRow rows"
  define plain where "plain = {rowTag row |row. row \<in> set rs \<and> \<not> isBalancerRow row}"
  have s: "scanRows rows = GoOk rs" using True scanRows_spec [of rows] rs_def by auto
  have tr: "trim_space (rowTag row) = rowTag row" "rowTag row \<noteq> []" if "row \<in> set rs" for row
    using that True by (auto simp: rs_def trimRow_def)
  have tt: "tableTags rows = plain \<union> rowTag ` set (filter isBalancerRow rs)" by (auto simp: tableTags_def plain_def rs_def)
  have tok: "table_ok B rows dflt \<longleftrightarrow> (\<forall>row \<in> set rs. isBalancerRow row \<or> plainRowOK B row) \<and> (\<forall>row \<in> set (filter isBalancerRow rs). balancerRowOK B plain row) \<and>
     ''direct'' \<in> tableTags rows \<and> chosenDefault dflt \<in> tableTags rows" using tr(2) by (auto simp: table_ok_def Let_def rs_def plain_def)
  note P = buildPlains_spec [OF gen_ok_empty, of B base rs, unfolded plains_spec_def]
  show ?thesis
  proof (cases "\<forall>row \<in> set rs. isBalancerRow row \<or> plainRowOK B row")
    case False
    then have "\<not> table_ok B rows dflt" using tok by blast
    moreover obtain e where "buildPlains B base rs ([], []) = GoErr e" using P unfolding if_not_P [OF False] by blast
    ultimately show ?thesis using s by (simp add: generation_spec_def buildGeneration_def)
  next
    case ok: True
    then obtain g where g: "buildPlains B base rs ([], []) = GoOk (g, filter isBalancerRow rs)" "gen_ok base g"
      "plainTags base g = plain" "dom (map_of (snd g)) = plain" using P by (auto simp: plain_def plainTags_def)
    have inj: "inj_on rowTag (set rs)" using assms unfolding rs_def map_map [symmetric] distinct_map [of rowTag] by blast
    then have "\<forall>row \<in> set (filter isBalancerRow rs). trim_space (rowTag row) = rowTag row \<and> rowTag row \<noteq> [] \<and> rowTag row \<notin> plainTags base g"
      using tr unfolding g(3) plain_def inj_on_def by auto
    note Bs = buildBalancers_spec [OF g(2) this, of B, unfolded balancers_spec_def g(3,4)]
    show ?thesis
    proof (cases "\<forall>row \<in> set (filter isBalancerRow rs). balancerRowOK B plain row")
      case False
      then have "\<not> table_ok B rows dflt" using tok by blast
      moreover obtain e where "buildBalancers B base (filter isBalancerRow rs) g = GoErr e" using Bs unfolding if_not_P [OF False] by blast
      ultimately show ?thesis using s g(1) by (simp add: generation_spec_def buildGeneration_def)
    next
      case b: True
      then obtain ds m where "buildBalancers B base (filter isBalancerRow rs) g = GoOk (ds, m)" "dom (map_of m) = tableTags rows" using Bs unfolding tt by auto
      then show ?thesis using s g(1) tok b ok domIff [of _ "map_of m"] by (auto simp: generation_spec_def buildGeneration_def checkGeneration_def)
    qed
  qed
qed

lemma CloseLease_heap: "\<exists>j t. heap (CloseLease l r) = (heap r)[j := t] \<and> (t = heap r ! j \<or> t = release (heap r ! j))"
  by (auto simp: CloseLease_def split: prod.splits) (metis list_update_id)+

lemma Reload_heap: "\<exists>ds. heap (fst (Reload B rows dflt r)) = heap r @ ds \<or> heap (fst (Reload B rows dflt r)) = retireAll (map snd (byTag r)) (heap r) @ ds"
  by (auto simp: Reload_def split: gores.split prod.split)

lemma reg_step_closes:
  assumes "reg_step r r'" "reg_inv r" "i < length (heap r)" "\<not> tclosed (heap r ! i)" "tclosed (heap r' ! i)"
  shows "active (heap r' ! i) = 0"
  using assms
proof (induction rule: reg_step.induct)
  case (resolve r tag)
  then show ?case using Resolve_form [of tag r] acquire_closes [of i r] acquireFresh_closes [of i r] by auto
next
  case (exact tag r r' l t)
  then obtain m where "r' = fst (acquire m r)" by (auto simp: ResolveExact_def Let_def acquire_def split: option.splits if_split_asm)
  then show ?case using exact.prems acquire_closes [of i r m] by simp
next
  case (release r l)
  obtain j t where h: "heap (CloseLease l r) = (heap r)[j := t]" "t = heap r ! j \<or> t = release (heap r ! j)" using CloseLease_heap by blast
  show ?case unfolding h(1)
    using heap_update_closes [of "heap r" i j t] release.prems h release_closes [of "heap r ! j"] by (auto simp: reg_inv_def)
next
  case (reload r B rows dflt)
  obtain ds where "heap (fst (Reload B rows dflt r)) = heap r @ ds \<or> heap (fst (Reload B rows dflt r)) = retireAll (map snd (byTag r)) (heap r) @ ds"
    using Reload_heap by blast
  then show ?case using reload.prems retireAll_closes [of i "heap r"] by (auto simp: nth_append)
next
  case (close r) then show ?case using retireAll_closes [of i "heap r"] by (simp add: CloseRegistry_def)
next
  case (acquire_member j r b m) then show ?case using acquire_closes [of i r m] by simp
next
  case (noted j r b b') then show ?case by (cases "i = j") (simp_all add: setBalancer_def)
qed

lemma reg_step_length: "reg_step r r' \<Longrightarrow> length (heap r) \<le> length (heap r')"
proof (induction rule: reg_step.induct)
  case (resolve r tag) then show ?case using Resolve_form [of tag r] by (auto simp: acquireFresh_def acquire_def)
next
  case (release r l) then show ?case using CloseLease_heap [of l r] by auto
next
  case (reload r B rows dflt) then show ?case using Reload_heap [of B rows dflt r] by auto
qed (auto simp: ResolveExact_def Let_def acquire_def CloseRegistry_def setBalancer_def split: option.splits if_split_asm)

lemma inv_leases: "reg_inv r \<Longrightarrow> i < length (heap r) \<Longrightarrow> active (heap r ! i) = openLeases i r"
  by (simp add: reg_inv_def leases_ok_def openLeases_def)

lemma inv_tag: "reg_inv r \<Longrightarrow> lookupTag r t = Some i \<Longrightarrow> \<not> retired (heap r ! i)"
  unfolding reg_inv_def tags_ok_def lookupTag_def by (auto dest!: map_of_SomeD simp: rev_image_eqI)

lemma inv_dialer: "reg_inv r \<Longrightarrow> i < length (heap r) \<Longrightarrow> dialer_ok (length (heap r)) (heap r ! i)"
  by (simp add: reg_inv_def heap_ok_nth)

text \<open>C14. In every history of resolves, dials, lease closes, reloads and shutdowns, a dialer's counter is the number
  of open leases on it, it is closed at most once, one that a tag currently names is open, one that has
  been retired and has no lease left is closed, and the step that closes it leaves no open lease on it.\<close>

theorem leases_keep_dialers_open:
  assumes "reg_reach r" "i < length (heap r)"
  shows "active (heap r ! i) = openLeases i r \<and> closes (heap r ! i) = of_bool (tclosed (heap r ! i)) \<and>
    (lookupTag r t = Some i \<longrightarrow> \<not> tclosed (heap r ! i)) \<and> (retired (heap r ! i) \<and> openLeases i r = 0 \<longrightarrow> tclosed (heap r ! i)) \<and>
    (reg_step r r' \<and> \<not> tclosed (heap r ! i) \<and> tclosed (heap r' ! i) \<longrightarrow> openLeases i r' = 0)"
proof -
  have inv: "reg_inv r" using assms(1) by (rule reg_reach_inv)
  note d = inv_dialer [OF inv assms(2), unfolded dialer_ok_def] and a = inv_leases [OF inv assms(2)]
  have "openLeases i r' = 0" if s: "reg_step r r'" and c: "\<not> tclosed (heap r ! i)" "tclosed (heap r' ! i)"
    using reg_step_closes [OF s inv assms(2) c] inv_leases [OF reg_step_inv [OF s inv]] reg_step_length [OF s] assms(2) by simp
  then show ?thesis using a d inv_tag [OF inv, of t i] by auto
qed

text \<open>C15. With distinct tags, a reload succeeds exactly on the tables that satisfy the rules: no blank tag, every row of a known
  kind with what the kind needs, every balancer naming only plain outbounds of the same table, a \<open>direct\<close>
  outbound and a default that exists. On any other table it reports an error and the registry is as before.
  On success the tags and the default are those of the table on fresh open dialers, the leases stay, and a
  dialer of the old generation is retired and closed at once unless it is leased.\<close>

theorem reload_all_or_nothing:
  assumes "reg_reach r" "distinct (map (rowTag \<circ> trimRow) rows)"
  shows "case Reload B (Some rows) (Some dflt) r of
      (r', GoOk _) \<Rightarrow> table_ok B rows dflt \<and> set (Tags r') = tableTags rows \<and> DefaultTag r' = chosenDefault dflt \<and> leases r' = leases r \<and>
        (\<forall>t i. lookupTag r' t = Some i \<longrightarrow> length (heap r) \<le> i \<and> \<not> tclosed (heap r' ! i)) \<and>
        (\<forall>t i. lookupTag r t = Some i \<longrightarrow> retired (heap r' ! i) \<and> (tclosed (heap r' ! i) \<longleftrightarrow> openLeases i r = 0))
    | (r', GoErr _) \<Rightarrow> \<not> table_ok B rows dflt \<and> r' = r
    | (_, GoPanic) \<Rightarrow> False"
proof (cases "table_ok B rows dflt")
  case False
  then obtain e where "buildGeneration B (length (heap r)) (Some rows) (Some dflt) = GoErr e"
    using buildGeneration_spec [OF assms(2), of B "length (heap r)" dflt] by (auto simp: generation_spec_def)
  then show ?thesis using False by (simp add: Reload_def)
next
  case True
  then obtain ds m where g: "buildGeneration B (length (heap r)) (Some rows) (Some dflt) = GoOk ((ds, m), chosenDefault dflt)"
    and m: "dom (map_of m) = tableTags rows"
    using buildGeneration_spec [OF assms(2), of B "length (heap r)" dflt] by (auto simp: generation_spec_def)
  let ?r = "r\<lparr>heap := retireAll (map snd (byTag r)) (heap r) @ ds, byTag := m, defaultTag := chosenDefault dflt\<rparr>"
  have inv: "reg_inv r" using assms(1) by (rule reg_reach_inv)
  have inv': "reg_inv ?r" using swap_inv [OF inv buildGeneration_gen [OF g]] .
  have e: "Reload B (Some rows) (Some dflt) r = (?r, GoOk ())" using g by (simp add: Reload_def)
  have new: "length (heap r) \<le> i \<and> \<not> tclosed (heap ?r ! i)" if "lookupTag ?r t = Some i" for t i
    using gen_ok_map [OF buildGeneration_gen [OF g], of t i] that inv_tag [OF inv' that] inv_dialer [OF inv' lookup_bound [OF inv' that]]
    by (auto simp: lookupTag_def dialer_ok_def)
  have old: "retired (heap ?r ! i) \<and> (tclosed (heap ?r ! i) \<longleftrightarrow> openLeases i r = 0)" if l: "lookupTag r t = Some i" for t i
  proof -
    have i: "i < length (heap r)" using lookup_bound [OF inv l] .
    have "i \<in> set (map snd (byTag r))" using l by (force simp: lookupTag_def dest!: map_of_SomeD)
    then have h: "heap ?r ! i = retire (heap r ! i)" using i by (simp add: nth_append retireAll_nth)
    show ?thesis using inv_leases [OF inv i] inv_tag [OF inv l] inv_dialer [OF inv i] unfolding h
      by (auto simp: retire_def dialer_ok_def Let_def)
  qed
  have "set (Tags ?r) = tableTags rows" using m by (simp add: Tags_def dom_map_of_conv_image_fst)
  moreover have "chosenDefault dflt \<noteq> []" by (simp add: chosenDefault_def Let_def)
  ultimately show ?thesis unfolding e using True new old by (simp add: DefaultTag_def)
qed

section \<open>Dialling through a balancer\<close>

lemma orderedMembers_members: "orderedMembers rtt nowNS b = (b', ord) \<Longrightarrow> members b' = members b"
proof (cases "bMode b = ''alive''")
  case True
  assume o: "orderedMembers rtt nowNS b = (b', ord)"
  obtain b2 h hi c where r: "classify rtt nowNS [0..<length (members b)] b = (b2, h, hi, c)" by (cases "classify rtt nowNS [0..<length (members b)] b")
  have "members b2 = members b" using classify_spec [OF r] same_fields(1) [of b b2] by simp
  then show ?thesis using o True r by (auto simp: orderedMembers_def orderedAliveMembers_def Let_def split: if_split_asm)
qed (auto simp: orderedMembers_def Let_def split: if_split_asm)

lemma note_members [simp]: "members (noteFailure t k b) = members b" "members (noteSuccess k b) = members b"
  by (simp_all add: noteFailure_def noteSuccess_def)

lemma release_acquired: "dialer_ok n t \<Longrightarrow> release (t\<lparr>active := active t + 1\<rparr>) = t"
  by (cases t) (auto simp: release_def dialer_ok_def Let_def)

text \<open>An attempt that fails leaves the registry as it was, but for a spent lease.\<close>

lemma acquire_close:
  assumes "reg_inv r" "m < length (heap r)"
  shows "CloseLease (length (leases r)) (fst (acquire m r)) = r\<lparr>leases := leases r @ [(m, True)]\<rparr>"
  using release_acquired [OF inv_dialer [OF assms]] assms(2) by (simp add: CloseLease_def acquire_def)

lemma spent_inv: "reg_inv r \<Longrightarrow> m < length (heap r) \<Longrightarrow> reg_inv (r\<lparr>leases := leases r @ [(m, True)]\<rparr>)"
  unfolding reg_inv_def leases_ok_def by auto

lemma dials_leases [simp]: "dials E (r\<lparr>leases := ls\<rparr>) m = dials E r m"
  by (simp add: dials_def)

lemma dials_acquire: "m < length (heap r) \<Longrightarrow> dials E (fst (acquire m r)) m = dials E r m"
  by (simp add: dials_def acquire_def)

definition member :: "nat BalancerDialer \<Rightarrow> nat \<Rightarrow> nat" where
  "member b k = snd (members b ! k)"

text \<open>What a loop over the choices \<open>ks\<close> leaves: spent leases on the members before the first that answers, and its lease.\<close>

definition dial_spec :: "dialEnv \<Rightarrow> (nat \<Rightarrow> nat) \<Rightarrow> nat list \<Rightarrow> Registry \<Rightarrow> Registry \<times> nat option \<Rightarrow> bool" where
  "dial_spec E mem ks r res \<longleftrightarrow>
    (case find (\<lambda>k. dials E r (mem k)) ks of
       None \<Rightarrow> snd res = None \<and> leases (fst res) = leases r @ map (\<lambda>k. (mem k, True)) ks
     | Some k \<Rightarrow> \<exists>pre. snd res = Some (length (leases r) + length pre) \<and> leases (fst res) = leases r @ map (\<lambda>k. (mem k, True)) pre @ [(mem k, False)])"

lemma setBalancer_leases [simp]: "leases (setBalancer i b r) = leases r"
  by (simp add: setBalancer_def)

lemma acquire_pair: "acquire m r = (fst (acquire m r), length (leases r))"
  by (simp add: acquire_def)

lemma dialLoop_step:
  assumes "reg_inv r" "member b k < length (heap r)" "\<forall>m. \<not> ctxErr E m"
  shows "dialLoop E i (k # ks) b r =
    (if dials E r (member b k) then (setBalancer i (noteSuccess k b) (fst (acquire (member b k) r)), Some (length (leases r)))
     else dialLoop E i ks (noteFailure (atFailure E (member b k)) k b) (r\<lparr>leases := leases r @ [(member b k, True)]\<rparr>))"
proof -
  have "dialLoop E i (k # ks) b r = (let (r', l) = acquire (member b k) r in
     if dials E r' (member b k) then (setBalancer i (noteSuccess k b) r', Some l)
     else let r = CloseLease l r'; b' = noteFailure (atFailure E (member b k)) k b in
       if ctxErr E (member b k) then (setBalancer i b' r, None) else dialLoop E i ks b' r)"
    unfolding member_def by (simp only: dialLoop.simps Let_def)
  also have "\<dots> = (if dials E (fst (acquire (member b k) r)) (member b k) then (setBalancer i (noteSuccess k b) (fst (acquire (member b k) r)), Some (length (leases r)))
     else dialLoop E i ks (noteFailure (atFailure E (member b k)) k b) (CloseLease (length (leases r)) (fst (acquire (member b k) r))))"
    using assms(3) by (subst acquire_pair) (simp add: Let_def)
  finally show ?thesis unfolding dials_acquire [OF assms(2)] acquire_close [OF assms(1,2)] .
qed

lemma dial_spec_later:
  assumes "dial_spec E mem ks (r\<lparr>leases := leases r @ [(mem k, True)]\<rparr>) res" "\<not> dials E r (mem k)"
  shows "dial_spec E mem (k # ks) r res"
proof (cases "find (\<lambda>k. dials E r (mem k)) ks")
  case None then show ?thesis using assms by (simp add: dial_spec_def)
next
  case (Some j)
  then obtain pre where "snd res = Some (length (leases r) + length (k # pre))"
    "leases (fst res) = leases r @ map (\<lambda>k. (mem k, True)) (k # pre) @ [(mem j, False)]"
    using assms by (auto simp: dial_spec_def)
  then show ?thesis using Some assms(2) unfolding dial_spec_def by (simp only: find.simps if_False option.case) blast
qed

lemma dialLoop_spec:
  assumes "reg_inv r" "\<forall>k \<in> set ks. member b k < length (heap r)" "\<forall>m. \<not> ctxErr E m"
  shows "dial_spec E (member b) ks r (dialLoop E i ks b r)"
  using assms
proof (induction ks arbitrary: r b)
  case Nil then show ?case by (simp add: dial_spec_def)
next
  case (Cons k ks)
  let ?m = "member b k"
  have m: "?m < length (heap r)" using Cons.prems(2) by simp
  note e = dialLoop_step [OF Cons.prems(1) m Cons.prems(3), of i ks]
  show ?case
  proof (cases "dials E r ?m")
    case True
    then have "dialLoop E i (k # ks) b r = (setBalancer i (noteSuccess k b) (fst (acquire ?m r)), Some (length (leases r)))"
      unfolding e by (rule if_P)
    then show ?thesis using True by (auto simp: dial_spec_def acquire_def intro: exI [of _ "[]"])
  next
    case False
    let ?r = "r\<lparr>leases := leases r @ [(?m, True)]\<rparr>" and ?b = "noteFailure (atFailure E ?m) k b"
    have "dialLoop E i (k # ks) b r = dialLoop E i ks ?b ?r"
      using False unfolding e by (rule if_not_P)
    moreover have mem: "member ?b = member b" by (simp add: fun_eq_iff member_def)
    moreover have "dial_spec E (member b) ks ?r (dialLoop E i ks ?b ?r)"
      using Cons.IH [of ?r ?b] spent_inv [OF Cons.prems(1) m] Cons.prems(2,3) unfolding mem by simp
    ultimately show ?thesis using dial_spec_later [of E "member b" ks r k, OF _ False] by simp
  qed
qed

text \<open>C34. A dial through a leased balancer whose context stays alive goes through the first member, in the balancer's
  order, that is open and answers, whenever any member does; the connection owns the one lease that the
  dial leaves open. When no member answers the dial fails and leaves no lease open.\<close>

theorem balancer_dial_finds_member:
  assumes "reg_reach r" "l < length (leases r)" "fst (leases r ! l) = i" "\<not> tclosed (heap r ! i)" "dialer (heap r ! i) = Balanced b"
    and "orderedMembers rtt nowNS b = (b', ord)" "\<forall>m. \<not> ctxErr E m"
  shows "case find (\<lambda>k. dials E r (member b k)) ord of
      Some k \<Rightarrow> \<exists>r' l'. dialLease E rtt nowNS l r = (r', Through l') \<and> l' < length (leases r') \<and> leases r' ! l' = (member b k, False) \<and>
        (\<forall>j. openLeases j r' = openLeases j r + of_bool (j = member b k))
    | None \<Rightarrow> (\<forall>k < length (members b). \<not> dials E r (member b k)) \<and>
        (\<exists>r'. dialLease E rtt nowNS l r = (r', Failed) \<and> (\<forall>j. openLeases j r' = openLeases j r))"
proof -
  have inv: "reg_inv r" using assms(1) by (rule reg_reach_inv)
  have i: "i < length (heap r)" using inv assms(2,3) nth_mem [OF assms(2)] by (cases "leases r ! l") (auto simp: reg_inv_def leases_ok_def)
  have o: "set ord = {0..<length (members b)}" using orderedMembers_perm [OF assms(6)] by (metis set_mset_mset set_upt)
  have mem: "member b' = member b" using orderedMembers_members [OF assms(6)] by (simp add: fun_eq_iff member_def)
  have "member b k < length (heap r)" if "k < length (members b)" for k
    using member_bound [OF inv i assms(5), of "member b k"] that by (simp add: member_def rev_image_eqI)
  then have S: "dial_spec E (member b) ord r (dialLoop E i ord b' r)"
    using dialLoop_spec [OF inv _ assms(7), of ord b' i] o unfolding mem by simp
  have D: "dialLease E rtt nowNS l r = (case dialLoop E i ord b' r of (r, Some l) \<Rightarrow> (r, Through l) | (r, None) \<Rightarrow> (r, Failed))"
    using assms(2-6) by (simp add: dialLease_def Let_def)
  have spent [simp]: "count_list (map (\<lambda>k. (member b k, True)) ks) (j, False) = 0" for ks j by (induction ks) simp_all
  show ?thesis
  proof (cases "find (\<lambda>k. dials E r (member b k)) ord")
    case None
    then have "snd (dialLoop E i ord b' r) = None" "leases (fst (dialLoop E i ord b' r)) = leases r @ map (\<lambda>k. (member b k, True)) ord"
      using S by (simp_all add: dial_spec_def)
    moreover have "\<forall>k < length (members b). \<not> dials E r (member b k)" using None o by (simp add: find_None_iff)
    ultimately show ?thesis using D None by (cases "dialLoop E i ord b' r") (simp add: openLeases_def)
  next
    case (Some k)
    then obtain pre where "snd (dialLoop E i ord b' r) = Some (length (leases r) + length pre)"
      "leases (fst (dialLoop E i ord b' r)) = leases r @ map (\<lambda>k. (member b k, True)) pre @ [(member b k, False)]"
      using S by (auto simp: dial_spec_def)
    then show ?thesis using D Some by (cases "dialLoop E i ord b' r") (auto simp: openLeases_def nth_append)
  qed
qed

definition exampleBuilders :: builders where
  "exampleBuilders = \<lparr>clientOK = (\<lambda>u. True),
     json = (\<lambda>s. Some \<lparr>rcMode = ''alive'', rcOutbounds = [''up'', ''direct''], rcMembers = [], rcTargets = [], rcFailover = False,
       rcRTTThresholdMs = 0, rcHighRTTMs = 0, rcMaxRTTMs = 0\<rparr>), url = (\<lambda>s. None)\<rparr>"

definition exampleRows :: "outboundRow list" where
  "exampleRows = [\<lparr>rowTag = ''direct'', rowKind = ''direct'', rowUri = None, rowIface = []\<rparr>,
     \<lparr>rowTag = ''pool'', rowKind = ''balancer'', rowUri = Some ''{}'', rowIface = []\<rparr>,
     \<lparr>rowTag = ''up'', rowKind = ''tamizdat'', rowUri = Some ''t://'', rowIface = []\<rparr>]"

definition reloadExample :: "Registry \<Rightarrow> Registry" where
  "reloadExample r = fst (Reload exampleBuilders (Some exampleRows) (Some None) r)"

definition leasedPool :: Registry where
  "leasedPool = fst (Resolve ''pool'' (reloadExample NewRegistry))"

lemma reach_reloadExample: "reg_reach r \<Longrightarrow> reg_reach (reloadExample r)"
  unfolding reloadExample_def by (intro reg_reach.step [OF _ reg_step.reload])

lemma reach_leasedPool: "reg_reach leasedPool"
  unfolding leasedPool_def by (intro reg_reach.step [OF _ reg_step.resolve] reach_reloadExample reg_reach.start)

theorem leases_keep_dialers_open_witness:
  "\<not> tclosed (heap (reloadExample leasedPool) ! 3) \<and> tclosed (heap (CloseLease 0 (reloadExample leasedPool)) ! 3) \<and>
   openLeases 3 (CloseLease 0 (reloadExample leasedPool)) = 0"
proof -
  have "reg_reach (reloadExample leasedPool)" by (intro reach_reloadExample reach_leasedPool)
  moreover have "3 < length (heap (reloadExample leasedPool))" by code_simp
  moreover have "\<not> tclosed (heap (reloadExample leasedPool) ! 3)" "tclosed (heap (CloseLease 0 (reloadExample leasedPool)) ! 3)" by code_simp+
  ultimately show ?thesis using leases_keep_dialers_open [of "reloadExample leasedPool" 3 _ "CloseLease 0 (reloadExample leasedPool)"] reg_step.release by blast
qed

theorem reload_all_or_nothing_witness:
  "snd (Reload exampleBuilders (Some exampleRows) (Some None) leasedPool) = GoOk () \<and> table_ok exampleBuilders exampleRows None \<and>
   set (Tags (fst (Reload exampleBuilders (Some exampleRows) (Some None) leasedPool))) = tableTags exampleRows"
proof -
  have "distinct (map (rowTag \<circ> trimRow) exampleRows)" by code_simp
  moreover have "snd (Reload exampleBuilders (Some exampleRows) (Some None) leasedPool) = GoOk ()" by code_simp
  ultimately show ?thesis using reload_all_or_nothing [OF reach_leasedPool, of exampleRows exampleBuilders None]
    by (cases "Reload exampleBuilders (Some exampleRows) (Some None) leasedPool") simp
qed

definition exampleDials :: dialEnv where
  "exampleDials = \<lparr>succeeds = (\<lambda>i. i = 1 \<or> i = 2), ctxErr = (\<lambda>i. False), atFailure = (\<lambda>i. 0)\<rparr>"

definition examplePool :: "nat BalancerDialer" where
  "examplePool = \<lparr>bTag = ''pool'', bMode = ''alive'', members = [(''up'', 2), (''direct'', 1)], bnext = 0, aliveCooldown = 30 * second,
     failoverOnHighRTT = False, rttThresholdMs = 0, cooldowns = [0, 0], highRTTStates = [False, False]\<rparr>"

theorem balancer_dial_finds_member_witness:
  "\<exists>r' l'. dialLease exampleDials (\<lambda>_. None) 0 0 leasedPool = (r', Through l') \<and> leases r' ! l' = (2, False)"
proof -
  have "0 < length (leases leasedPool)" "fst (leases leasedPool ! 0) = 3" "\<not> tclosed (heap leasedPool ! 3)" by code_simp+
  moreover have "dialer (heap leasedPool ! 3) = Balanced examplePool" by code_simp
  moreover have "orderedMembers (\<lambda>_. None) 0 examplePool = (examplePool, [0, 1])" by code_simp
  moreover have "find (\<lambda>k. dials exampleDials leasedPool (member examplePool k)) [0, 1] = Some 0" by code_simp
  moreover have "member examplePool 0 = 2" by code_simp
  moreover have "\<forall>m. \<not> ctxErr exampleDials m" by (simp add: exampleDials_def)
  ultimately show ?thesis using balancer_dial_finds_member [OF reach_leasedPool, of 0 3 examplePool "\<lambda>_. None" 0 examplePool "[0, 1]" exampleDials] by auto
qed

text \<open>A lease on a balancer does not hold its members: when a reload falls between resolving and dialling, the dial
  fails although every upstream answers, while a lease on a plain outbound still dials.\<close>

lemma balancer_lease_loses_members:
  "snd (dialLease \<lparr>succeeds = (\<lambda>i. True), ctxErr = (\<lambda>i. False), atFailure = (\<lambda>i. 0)\<rparr> (\<lambda>_. None) 0 0 (reloadExample leasedPool)) = Failed"
  "snd (dialLease \<lparr>succeeds = (\<lambda>i. True), ctxErr = (\<lambda>i. False), atFailure = (\<lambda>i. 0)\<rparr> (\<lambda>_. None) 0 0
     (reloadExample (fst (Resolve ''up'' (reloadExample NewRegistry))))) = Plain"
  by code_simp+

text \<open>\<open>ResolveExact\<close> fails closed, \<open>Resolve\<close> falls back.\<close>

lemma exact_fails_closed:
  "ResolveExact tag r = GoOk (r', l, t) \<Longrightarrow> t = trim_space tag \<and> l = length (leases r) \<and> (\<exists>i. lookupTag r t = Some i \<and> leases r' = leases r @ [(i, False)])"
  by (auto simp: ResolveExact_def acquire_def Let_def split: option.splits if_split_asm)

section \<open>Open leases\<close>

definition openSet :: "Registry \<Rightarrow> nat set" where
  "openSet r = {l. l < length (leases r) \<and> \<not> snd (leases r ! l)}"

definition spentSet :: "Registry \<Rightarrow> nat set" where
  "spentSet r = {l. l < length (leases r) \<and> snd (leases r ! l)}"

lemma openSet_finite [simp]: "finite (openSet r)"
  by (simp add: openSet_def)

lemma openSet_leases: "leases r' = leases r \<Longrightarrow> openSet r' = openSet r"
  by (simp add: openSet_def)

lemma openSet_fresh: "length (leases r) \<notin> openSet r"
  by (simp add: openSet_def)

lemma openSet_snoc: "leases r' = leases r @ [(i, d)] \<Longrightarrow> openSet r' = (if d then openSet r else insert (length (leases r)) (openSet r))"
  by (auto simp: openSet_def nth_append less_Suc_eq)

lemma spentSet_snoc: "leases r' = leases r @ [(i, d)] \<Longrightarrow> spentSet r \<subseteq> spentSet r'"
  by (auto simp: spentSet_def nth_append)

lemma spentSet_leases: "leases r' = leases r \<Longrightarrow> spentSet r' = spentSet r"
  by (simp add: spentSet_def)

lemma spentSet_CloseLease: "l < length (leases r) \<Longrightarrow> spentSet (CloseLease l r) = insert l (spentSet r)"
  by (cases "leases r ! l") (auto simp: spentSet_def CloseLease_def nth_list_update split: if_splits)

lemma openSet_CloseLease: "openSet (CloseLease l r) = openSet r - {l}"
  by (cases "l < length (leases r)"; cases "leases r ! l") (auto simp: openSet_def CloseLease_def nth_list_update split: if_splits)

lemma Resolve_leases:
  assumes "Resolve ob r = (r', l, t)"
  shows "l = length (leases r)" "\<exists>i. leases r' = leases r @ [(i, False)]"
  using assms
  by (auto simp: Resolve_def acquireFresh_def acquire_def Let_def split: if_splits option.splits)

lemma Reload_leases: "leases (fst (Reload B rows dflt r)) = leases r"
  by (simp add: Reload_def split: gores.split prod.split)

lemma dialLoop_unfold:
  assumes "reg_inv r" "snd (members b ! k) < length (heap r)"
  shows "dialLoop E i (k # ks) b r =
      (let m = snd (members b ! k); a = fst (acquire m r); s = r\<lparr>leases := leases r @ [(m, True)]\<rparr> in
       if dials E a m then (setBalancer i (noteSuccess k b) a, Some (length (leases r)))
       else if ctxErr E m then (setBalancer i (noteFailure (atFailure E m) k b) s, None)
       else dialLoop E i ks (noteFailure (atFailure E m) k b) s)"
proof -
  have "snd (acquire m r) = length (leases r)" for m by (simp add: acquire_def)
  then show ?thesis using acquire_close [OF assms] by (simp add: Let_def case_prod_beta)
qed

definition leases_after :: "Registry \<Rightarrow> nat option \<Rightarrow> Registry \<Rightarrow> bool" where
  "leases_after r res r' \<longleftrightarrow> reg_inv r' \<and> spentSet r \<subseteq> spentSet r' \<and>
     (case res of None \<Rightarrow> openSet r' = openSet r | Some m \<Rightarrow> m \<notin> openSet r \<and> openSet r' = insert m (openSet r))"

lemma dialLoop_open:
  assumes "reg_inv r" "\<forall>k \<in> set ks. snd (members b ! k) < length (heap r)" "dialer (heap r ! i) = Balanced b0" "members b = members b0"
    and "dialLoop E i ks b r = (r', res)"
  shows "leases_after r res r'"
  using assms
proof (induction ks arbitrary: r b)
  case Nil
  then have "r' = setBalancer i b r" "res = None" by simp_all
  then show ?case using setBalancer_inv [OF Nil.prems(1,3,4)] openSet_leases [of r' r] spentSet_leases [of r' r] by (simp add: leases_after_def)
next
  case (Cons k ks)
  define m where "m = snd (members b ! k)"
  define a where "a = fst (acquire m r)"
  define s where "s = r\<lparr>leases := leases r @ [(m, True)]\<rparr>"
  have m: "m < length (heap r)" using Cons.prems(2) by (simp add: m_def)
  have s: "reg_inv s" "openSet s = openSet r" "heap s = heap r" "spentSet r \<subseteq> spentSet s"
    using spent_inv [OF Cons.prems(1) m] openSet_snoc [of s r m True] spentSet_snoc [of s r m True] by (simp_all add: s_def)
  have l: "leases a = leases r @ [(m, False)]" "dialer (heap a ! i) = Balanced b0" "reg_inv a"
    using Cons.prems(3) m acquire_inv [OF Cons.prems(1) m] by (auto simp: a_def acquire_def nth_list_update)
  have e: "dialLoop E i (k # ks) b r =
      (if dials E a m then (setBalancer i (noteSuccess k b) a, Some (length (leases r)))
       else if ctxErr E m then (setBalancer i (noteFailure (atFailure E m) k b) s, None)
       else dialLoop E i ks (noteFailure (atFailure E m) k b) s)"
    unfolding dialLoop_unfold [OF Cons.prems(1) m [unfolded m_def]] by (simp only: m_def a_def s_def Let_def)
  have nb: "members (noteSuccess k b) = members b0" "members (noteFailure t k b) = members b0" for t using Cons.prems(4) by simp_all
  have ds: "dialer (heap s ! i) = Balanced b0" unfolding s(3) by (rule Cons.prems(3))
  consider "dials E a m" | "\<not> dials E a m" "ctxErr E m" | "\<not> dials E a m" "\<not> ctxErr E m" by blast
  then show ?case
  proof cases
    case 1
    then have "r' = setBalancer i (noteSuccess k b) a" "res = Some (length (leases r))" using Cons.prems(5) unfolding e by simp_all
    then show ?thesis using l(1) setBalancer_inv [OF l(3,2) nb(1)] openSet_snoc [of r' r m False] spentSet_snoc [of r' r m False] openSet_fresh [of r] by (simp add: leases_after_def)
  next
    case 2
    then have "r' = setBalancer i (noteFailure (atFailure E m) k b) s" "res = None" using Cons.prems(5) unfolding e by simp_all
    then show ?thesis using setBalancer_inv [OF s(1) ds nb(2)] s(2,4) openSet_leases [of r' s] spentSet_leases [of r' s] by (simp add: leases_after_def)
  next
    case 3
    then have d: "dialLoop E i ks (noteFailure (atFailure E m) k b) s = (r', res)" using Cons.prems(5) unfolding e by simp
    have "\<forall>j \<in> set ks. snd (members (noteFailure (atFailure E m) k b) ! j) < length (heap s)" using Cons.prems(2) by (simp add: s(3))
    from Cons.IH [OF s(1) this ds nb(2) d] show ?thesis using s(4) unfolding leases_after_def s(2) by blast
  qed
qed

lemma dialLease_open:
  assumes "reg_inv r" "dialLease E rtt nw l r = (r', res)"
  shows "leases_after r (case res of Through m \<Rightarrow> Some m | _ \<Rightarrow> None) r'"
proof (cases "l < length (leases r) \<and> \<not> tclosed (heap r ! fst (leases r ! l)) \<and> (\<exists>b. dialer (heap r ! fst (leases r ! l)) = Balanced b)")
  case True
  let ?i = "fst (leases r ! l)"
  from True obtain b where b: "dialer (heap r ! ?i) = Balanced b" by blast
  obtain b' ks where o: "orderedMembers rtt nw b = (b', ks)" by fastforce
  obtain r1 x where d: "dialLoop E ?i ks b' r = (r1, x)" by fastforce
  have i: "?i < length (heap r)" using assms(1) True nth_mem [of l "leases r"] by (cases "leases r ! l") (auto simp: reg_inv_def leases_ok_def)
  have ks: "set ks = {0..<length (members b)}" using orderedMembers_perm [OF o] by (metis set_mset_mset set_upt)
  have mm: "members b' = members b" by (rule orderedMembers_members [OF o])
  have "\<forall>k \<in> set ks. snd (members b' ! k) < length (heap r)"
    using member_bound [OF assms(1) i b] unfolding ks mm by (auto simp: rev_image_eqI)
  from dialLoop_open [OF assms(1) this b mm d] have "leases_after r x r1" .
  moreover have "(r', res) = (r1, case x of None \<Rightarrow> Failed | Some m \<Rightarrow> Through m)"
    using assms(2) True b o d by (auto simp: dialLease_def Let_def split: option.splits)
  ultimately show ?thesis by (cases x) auto
next
  case False
  then have "r' = r" "\<not> (\<exists>m. res = Through m)" using assms(2) by (auto simp: dialLease_def Let_def split: if_splits dialerKind.splits)
  then show ?thesis using assms(1) by (cases res) (simp_all add: leases_after_def)
qed

end
