(* ===== verification/StreamTracker.thy ===== *)
theory StreamTracker
  imports Prelude
begin

text \<open>
  The two per-key stream counters of the server, user_h2_stream_tracker.go and
  outbound_stream_tracker.go, and the contract they share. \<open>acquire\<close> returns a release closure
  guarded by \<open>sync.Once\<close>; the closures are the handles of a system state, so that a release can
  be called any number of times, in any order. The two interpretations are of the same locale.
\<close>

section \<open>The contract\<close>

text \<open>A tracker together with the closures handed out: key, network, already released?\<close>

record 's tracked =
  trk :: 's
  handles :: "(string \<times> string \<times> bool) list"

datatype streamEvent = Open string string | Close nat

fun ev_step :: "(string \<Rightarrow> string \<Rightarrow> 's \<Rightarrow> 's) \<Rightarrow> (string \<Rightarrow> string \<Rightarrow> 's \<Rightarrow> 's) \<Rightarrow> streamEvent \<Rightarrow> 's tracked \<Rightarrow> 's tracked" where
  "ev_step acq rel (Open k n) s = s\<lparr>trk := acq k n (trk s), handles := handles s @ [(k, n, False)]\<rparr>"
| "ev_step acq rel (Close i) s =
    (if i < length (handles s) \<and> \<not> snd (snd (handles s ! i)) then
       (let (k, n, _) = handles s ! i in s\<lparr>trk := rel k n (trk s), handles := (handles s)[i := (k, n, True)]\<rparr>)
     else s)"

definition run_events where
  "run_events acq rel evs s = foldl (\<lambda>s e. ev_step acq rel e s) s evs"

definition open_count :: "string \<Rightarrow> bool \<Rightarrow> (string \<times> string \<times> bool) list \<Rightarrow> int" where
  "open_count k udp hs = int (length (filter (\<lambda>(k', n, rel). k' = k \<and> (n = ''udp'') = udp \<and> \<not> rel) hs))"

definition open_total :: "string \<Rightarrow> (string \<times> string \<times> bool) list \<Rightarrow> int" where
  "open_total k hs = open_count k False hs + open_count k True hs"

definition fresh :: "'s \<Rightarrow> 's tracked" where
  "fresh s = \<lparr>trk = s, handles = []\<rparr>"

lemma run_events_snoc [simp]: "run_events acq rel (evs @ [e]) s = ev_step acq rel e (run_events acq rel evs s)"
  by (simp add: run_events_def)

locale stream_tracker =
  fixes init :: 's and acq rel :: "string \<Rightarrow> string \<Rightarrow> 's \<Rightarrow> 's"
    and live :: "'s \<Rightarrow> string \<Rightarrow> bool \<Rightarrow> int" and peaks :: "'s \<Rightarrow> string \<Rightarrow> int \<times> int \<times> int"
  assumes live_init: "live init k u = 0"
    and peaks_init: "peaks init k = (0, 0, 0)"
    and live_acq: "k \<noteq> '''' \<Longrightarrow> live (acq j n s) k u = live s k u + (if j = k \<and> (n = ''udp'') = u then 1 else 0)"
    and live_rel: "k \<noteq> '''' \<Longrightarrow> live (rel j n s) k u =
      (if j = k \<and> (n = ''udp'') = u \<and> live s k u > 0 then live s k u - 1 else live s k u)"
    and peaks_acq: "k \<noteq> '''' \<Longrightarrow> peaks (acq j n s) k = (if j \<noteq> k then peaks s k else
      (let s' = acq j n s; (t, a, b) = peaks s k in
       (max t (live s' k False + live s' k True), max a (live s' k False), max b (live s' k True))))"
    and peaks_rel: "k \<noteq> '''' \<Longrightarrow> peaks (rel j n s) k = peaks s k"
begin

lemma open_count_snoc:
  "open_count k u (hs @ [(j, n, False)]) = open_count k u hs + (if j = k \<and> (n = ''udp'') = u then 1 else 0)"
  by (simp add: open_count_def)

lemma open_count_close:
  assumes "i < length hs" and "hs ! i = (j, n, False)"
  shows "open_count k u (hs[i := (j, n, True)]) = open_count k u hs - (if j = k \<and> (n = ''udp'') = u then 1 else 0)"
proof -
  have hs: "hs = take i hs @ (j, n, False) # drop (Suc i) hs"
    using assms by (metis id_take_nth_drop)
  have "hs[i := (j, n, True)] = take i hs @ (j, n, True) # drop (Suc i) hs"
    using assms(1) by (simp add: upd_conv_take_nth_drop)
  then show ?thesis
    by (subst (2) hs) (simp add: open_count_def)
qed

lemma open_count_pos:
  "i < length hs \<Longrightarrow> hs ! i = (k, n, False) \<Longrightarrow> 0 < open_count k (n = ''udp'') hs"
  unfolding open_count_def using nth_mem [of i hs] by (auto simp: filter_empty_conv)

text \<open>The counters of a key are the streams of that key still open.\<close>

lemma live_is_open:
  "k \<noteq> '''' \<Longrightarrow> live (trk (run_events acq rel evs (fresh init))) k u =
    open_count k u (handles (run_events acq rel evs (fresh init)))"
proof (induction evs rule: rev_induct)
  case Nil
  then show ?case
    by (simp add: run_events_def live_init open_count_def fresh_def)
next
  case (snoc e evs)
  let ?s = "run_events acq rel evs (fresh init)"
  show ?case
  proof (cases e)
    case (Open j n)
    then show ?thesis
      using snoc by (simp add: live_acq open_count_snoc)
  next
    case (Close i)
    show ?thesis
    proof (cases "i < length (handles ?s) \<and> \<not> snd (snd (handles ?s ! i))")
      case True
      then obtain j n where h: "handles ?s ! i = (j, n, False)"
        by (metis prod.collapse)
      have "j = k \<Longrightarrow> 0 < open_count k (n = ''udp'') (handles ?s)"
        using True h by (intro open_count_pos) auto
      then show ?thesis
        using snoc True h Close by (auto simp: live_rel open_count_close)
    next
      case False
      then show ?thesis
        using snoc Close by auto
    qed
  qed
qed

text \<open>The peak of a key is the largest number of simultaneously open streams it ever had.\<close>

lemma peak_is_maximum:
  "k \<noteq> '''' \<Longrightarrow> fst (peaks (trk (run_events acq rel evs (fresh init))) k) =
    Max ((\<lambda>n. open_total k (handles (run_events acq rel (take n evs) (fresh init)))) ` {..length evs})"
proof (induction evs rule: rev_induct)
  case Nil
  then show ?case
    by (simp add: run_events_def peaks_init fresh_def open_total_def open_count_def)
next
  case (snoc e evs)
  let ?s = "run_events acq rel evs (fresh init)"
  let ?T = "\<lambda>evs. open_total k (handles (run_events acq rel evs (fresh init)))"
  let ?A = "(\<lambda>n. ?T (take n evs)) ` {..length evs}"
  have "(\<lambda>n. ?T (take n (evs @ [e]))) ` {..length (evs @ [e])} = insert (?T (evs @ [e])) ?A"
    by (auto simp: atMost_Suc)
  then have m: "Max ((\<lambda>n. ?T (take n (evs @ [e]))) ` {..length (evs @ [e])}) = max (?T (evs @ [e])) (Max ?A)"
    by (simp add: Max_insert)
  have cur: "?T evs \<le> Max ?A"
    by (rule Max_ge) (auto intro!: image_eqI [of _ _ "length evs"])
  have tot: "?T vs = live (trk (run_events acq rel vs (fresh init))) k False + live (trk (run_events acq rel vs (fresh init))) k True" for vs
    using snoc.prems by (simp add: open_total_def live_is_open)
  show ?case
  proof (cases "\<exists>n. e = Open k n")
    case True
    then obtain n where "e = Open k n" by blast
    then have "fst (peaks (trk (ev_step acq rel e ?s)) k) = max (fst (peaks (trk ?s) k)) (?T (evs @ [e]))"
      using snoc.prems by (simp only: tot) (simp add: peaks_acq Let_def split: prod.split)
    then show ?thesis
      unfolding m using snoc by (simp add: max.commute)
  next
    case False
    have "peaks (trk (ev_step acq rel e ?s)) k = peaks (trk ?s) k"
      using False snoc.prems by (cases e) (auto simp: peaks_acq peaks_rel split: prod.split)
    moreover have "?T (evs @ [e]) \<le> ?T evs"
      using False snoc.prems by (simp only: tot, cases e) (auto simp: live_acq live_rel split: prod.split)
    ultimately show ?thesis
      unfolding m using snoc cur by simp
  qed
qed

end

end
