(* ===== verification/UserH2Streams.thy ===== *)
theory UserH2Streams
  imports StreamTracker
begin

text \<open>
  pkg/tamizdat/user_h2_stream_tracker.go: live and peak HTTP/2 stream counts per user, and the
  persister that coalesces peak updates before writing them to the users table. The table is a
  map from user id to the three peak columns and their timestamp; the SQL statement is
  translated to the row update it performs.
\<close>

record userH2StreamCounts =
  tcp :: int
  udp :: int
  peakTotal :: int
  peakTCP :: int
  peakUDP :: int

record userH2Peak =
  p_total :: int
  p_tcp :: int
  p_udp :: int
  advanced :: bool

type_synonym userH2StreamTracker = "string \<Rightarrow> userH2StreamCounts option"

definition zeroCounts :: userH2StreamCounts where
  "zeroCounts = \<lparr>tcp = 0, udp = 0, peakTotal = 0, peakTCP = 0, peakUDP = 0\<rparr>"

definition zeroPeak :: userH2Peak where
  "zeroPeak = \<lparr>p_total = 0, p_tcp = 0, p_udp = 0, advanced = False\<rparr>"

definition newUserH2StreamTracker :: userH2StreamTracker where
  "newUserH2StreamTracker = (\<lambda>_. None)"

definition acquire :: "string \<Rightarrow> string \<Rightarrow> userH2StreamTracker \<Rightarrow> userH2StreamTracker \<times> userH2Peak" where
  "acquire k network t =
    (if k = '''' then (t, zeroPeak)
     else
       let c0 = (case t k of None \<Rightarrow> zeroCounts | Some c \<Rightarrow> c);
           c1 = (if network = ''udp'' then c0\<lparr>udp := udp c0 + 1\<rparr> else c0\<lparr>tcp := tcp c0 + 1\<rparr>);
           total = tcp c1 + udp c1;
           c2 = (if total > peakTotal c1 then c1\<lparr>peakTotal := total\<rparr> else c1);
           c3 = (if tcp c2 > peakTCP c2 then c2\<lparr>peakTCP := tcp c2\<rparr> else c2);
           c4 = (if udp c3 > peakUDP c3 then c3\<lparr>peakUDP := udp c3\<rparr> else c3);
           adv = (total > peakTotal c1 \<or> tcp c2 > peakTCP c2 \<or> udp c3 > peakUDP c3) in
       (t(k \<mapsto> c4), \<lparr>p_total = peakTotal c4, p_tcp = peakTCP c4, p_udp = peakUDP c4, advanced = adv\<rparr>))"

definition release :: "string \<Rightarrow> string \<Rightarrow> userH2StreamTracker \<Rightarrow> userH2StreamTracker" where
  "release k network t =
    (if k = '''' then t
     else case t k of None \<Rightarrow> t
       | Some c \<Rightarrow>
           if network = ''udp'' then (if udp c > 0 then t(k \<mapsto> c\<lparr>udp := udp c - 1\<rparr>) else t)
           else if tcp c > 0 then t(k \<mapsto> c\<lparr>tcp := tcp c - 1\<rparr>) else t)"

definition peak :: "string \<Rightarrow> userH2StreamTracker \<Rightarrow> userH2Peak" where
  "peak k t = (if k = '''' then zeroPeak else case t k of None \<Rightarrow> zeroPeak
     | Some c \<Rightarrow> \<lparr>p_total = peakTotal c, p_tcp = peakTCP c, p_udp = peakUDP c, advanced = False\<rparr>)"

text \<open>\<open>active\<close> returns total, tcp and udp.\<close>

definition active :: "string \<Rightarrow> userH2StreamTracker \<Rightarrow> int \<times> int \<times> int" where
  "active k t = (if k = '''' then (0, 0, 0) else case t k of None \<Rightarrow> (0, 0, 0)
     | Some c \<Rightarrow> (tcp c + udp c, tcp c, udp c))"

section \<open>Persisting peaks\<close>

record peakRow =
  h2_peak_streams :: int
  h2_peak_tcp_streams :: int
  h2_peak_udp_streams :: int
  h2_peak_at :: int

type_synonym usersTable = "string \<Rightarrow> peakRow option"

definition persistUserH2Peak :: "int \<Rightarrow> string \<Rightarrow> userH2Peak \<Rightarrow> usersTable \<Rightarrow> usersTable" where
  "persistUserH2Peak now userID pk db =
    (if userID = '''' \<or> \<not> advanced pk then db
     else case db userID of None \<Rightarrow> db
       | Some r \<Rightarrow>
           if p_total pk > h2_peak_streams r \<or> p_tcp pk > h2_peak_tcp_streams r \<or> p_udp pk > h2_peak_udp_streams r then
             db(userID \<mapsto> \<lparr>h2_peak_streams = max (h2_peak_streams r) (p_total pk),
               h2_peak_tcp_streams = max (h2_peak_tcp_streams r) (p_tcp pk),
               h2_peak_udp_streams = max (h2_peak_udp_streams r) (p_udp pk), h2_peak_at = now\<rparr>)
           else db)"

text \<open>One turn of the persister: an update from the channel is merged into \<open>pending\<close>, the ticker
  (or shutdown) writes everything out.\<close>

type_synonym pendingPeaks = "(string \<times> userH2Peak) list"

definition mergePeak :: "userH2Peak \<Rightarrow> userH2Peak \<Rightarrow> userH2Peak" where
  "mergePeak cur upd =
    \<lparr>p_total = (if p_total upd > p_total cur then p_total upd else p_total cur),
     p_tcp = (if p_tcp upd > p_tcp cur then p_tcp upd else p_tcp cur),
     p_udp = (if p_udp upd > p_udp cur then p_udp upd else p_udp cur), advanced = True\<rparr>"

definition persisterRecv :: "string \<times> userH2Peak \<Rightarrow> pendingPeaks \<Rightarrow> pendingPeaks" where
  "persisterRecv u pending =
    (if fst u = '''' then pending
     else AList.update (fst u) (mergePeak (case map_of pending (fst u) of None \<Rightarrow> zeroPeak | Some c \<Rightarrow> c) (snd u)) pending)"

definition persisterFlush :: "int \<Rightarrow> pendingPeaks \<Rightarrow> usersTable \<Rightarrow> usersTable" where
  "persisterFlush now pending db = fold (\<lambda>(userID, pk). persistUserH2Peak now userID pk) pending db"

definition enqueueUserH2Peak :: "nat \<Rightarrow> int \<Rightarrow> string \<Rightarrow> userH2Peak \<Rightarrow>
    (string \<times> userH2Peak) list \<times> usersTable \<Rightarrow> (string \<times> userH2Peak) list \<times> usersTable" where
  "enqueueUserH2Peak cap now userID pk qd =
    (if userID = '''' \<or> \<not> advanced pk then qd
     else if length (fst qd) < cap then (fst qd @ [(userID, pk)], snd qd)
     else (fst qd, persistUserH2Peak now userID pk (snd qd)))"

text \<open>The persister goroutine beside its producers: the buffered channel (capacity 4096 in
  \<open>startH2PeakPersister\<close>), the pending map and the table. A producer that finds the channel full
  writes the table itself.\<close>

record peakPersister =
  h2PeakUpdates :: "(string \<times> userH2Peak) list"
  pending :: pendingPeaks
  users :: usersTable

datatype persisterEvent = Enqueue string userH2Peak | Receive | Tick

fun startH2PeakPersister :: "nat \<Rightarrow> int \<Rightarrow> persisterEvent \<Rightarrow> peakPersister \<Rightarrow> peakPersister" where
  "startH2PeakPersister cap now (Enqueue u pk) s =
    (case enqueueUserH2Peak cap now u pk (h2PeakUpdates s, users s) of
       (q, db) \<Rightarrow> s\<lparr>h2PeakUpdates := q, users := db\<rparr>)"
| "startH2PeakPersister cap now Receive s =
    (case h2PeakUpdates s of [] \<Rightarrow> s
       | u # q \<Rightarrow> s\<lparr>h2PeakUpdates := q, pending := persisterRecv u (pending s)\<rparr>)"
| "startH2PeakPersister cap now Tick s = s\<lparr>pending := [], users := persisterFlush now (pending s) (users s)\<rparr>"

definition run_persister where
  "run_persister cap now evs s = foldl (\<lambda>s e. startH2PeakPersister cap now e s) s evs"

definition drained where
  "drained cap now s = run_persister cap now (replicate (length (h2PeakUpdates s)) Receive @ [Tick]) s"

text \<open>The reference: every update is written at once.\<close>

fun write_direct :: "int \<Rightarrow> persisterEvent \<Rightarrow> usersTable \<Rightarrow> usersTable" where
  "write_direct now (Enqueue u pk) db = persistUserH2Peak now u pk db"
| "write_direct now _ db = db"

definition columns :: "usersTable \<Rightarrow> string \<Rightarrow> (int \<times> int \<times> int) option" where
  "columns db u = map_option (\<lambda>r. (h2_peak_streams r, h2_peak_tcp_streams r, h2_peak_udp_streams r)) (db u)"

section \<open>The contract\<close>

definition user_live :: "userH2StreamTracker \<Rightarrow> string \<Rightarrow> bool \<Rightarrow> int" where
  "user_live t k u = (case active k t of (_, a, b) \<Rightarrow> if u then b else a)"

definition user_peaks :: "userH2StreamTracker \<Rightarrow> string \<Rightarrow> int \<times> int \<times> int" where
  "user_peaks t k = (p_total (peak k t), p_tcp (peak k t), p_udp (peak k t))"

definition acquire_state :: "string \<Rightarrow> string \<Rightarrow> userH2StreamTracker \<Rightarrow> userH2StreamTracker" where
  "acquire_state k n t = fst (acquire k n t)"

definition bump :: "string \<Rightarrow> userH2StreamCounts \<Rightarrow> userH2StreamCounts" where
  "bump n c = (let a = tcp c + (if n = ''udp'' then 0 else 1); b = udp c + (if n = ''udp'' then 1 else 0) in
     \<lparr>tcp = a, udp = b, peakTotal = max (peakTotal c) (a + b), peakTCP = max (peakTCP c) a, peakUDP = max (peakUDP c) b\<rparr>)"

definition counts_of :: "userH2StreamTracker \<Rightarrow> string \<Rightarrow> userH2StreamCounts" where
  "counts_of t k = (case t k of None \<Rightarrow> zeroCounts | Some c \<Rightarrow> c)"

lemma raise_peak:
  "(if x > peakTotal c then c\<lparr>peakTotal := x\<rparr> else c) = c\<lparr>peakTotal := max (peakTotal c) x\<rparr>"
  "(if x > peakTCP c then c\<lparr>peakTCP := x\<rparr> else c) = c\<lparr>peakTCP := max (peakTCP c) x\<rparr>"
  "(if x > peakUDP c then c\<lparr>peakUDP := x\<rparr> else c) = c\<lparr>peakUDP := max (peakUDP c) x\<rparr>"
  by (cases c; simp)+

lemma acquire_bump: "k \<noteq> [] \<Longrightarrow> acquire_state k n t = t(k \<mapsto> bump n (counts_of t k))"
  by (cases "counts_of t k")
    (simp add: acquire_state_def acquire_def raise_peak counts_of_def [symmetric] bump_def Let_def)

lemma user_live_counts: "k \<noteq> [] \<Longrightarrow> user_live t k u = (if u then udp (counts_of t k) else tcp (counts_of t k))"
  by (simp add: user_live_def active_def counts_of_def zeroCounts_def split: option.split)

lemma user_peaks_counts:
  "k \<noteq> [] \<Longrightarrow> user_peaks t k = (peakTotal (counts_of t k), peakTCP (counts_of t k), peakUDP (counts_of t k))"
  by (simp add: user_peaks_def peak_def counts_of_def zeroCounts_def zeroPeak_def split: option.split)

lemma counts_of_upd: "counts_of (t(j \<mapsto> c)) k = (if k = j then c else counts_of t k)"
  by (simp add: counts_of_def)

lemma acquire_Nil: "acquire_state [] n t = t"
  by (simp add: acquire_state_def acquire_def)

lemma release_counts:
  "counts_of (release j n t) k = (if j = k \<and> k \<noteq> [] then
     (if n = ''udp'' then (counts_of t k)\<lparr>udp := udp (counts_of t k) - (if 0 < udp (counts_of t k) then 1 else 0)\<rparr>
      else (counts_of t k)\<lparr>tcp := tcp (counts_of t k) - (if 0 < tcp (counts_of t k) then 1 else 0)\<rparr>)
     else counts_of t k)"
  by (simp add: release_def counts_of_def zeroCounts_def split: option.split)

lemmas user_tracker_facts = user_live_counts user_peaks_counts counts_of_upd release_counts

interpretation user: stream_tracker newUserH2StreamTracker acquire_state release user_live user_peaks
proof unfold_locales
  fix k j :: string and n s u
  show "user_live newUserH2StreamTracker k u = 0" "user_peaks newUserH2StreamTracker k = (0, 0, 0)"
    by (simp_all add: user_live_def user_peaks_def active_def peak_def newUserH2StreamTracker_def zeroPeak_def)
  assume k: "k \<noteq> []"
  show "user_live (acquire_state j n s) k u = user_live s k u + (if j = k \<and> (n = ''udp'') = u then 1 else 0)"
    using k by (cases "j = []") (simp_all add: acquire_Nil acquire_bump user_tracker_facts bump_def Let_def)
  show "user_live (release j n s) k u =
      (if j = k \<and> (n = ''udp'') = u \<and> 0 < user_live s k u then user_live s k u - 1 else user_live s k u)"
    using k by (simp add: user_tracker_facts)
  show "user_peaks (release j n s) k = user_peaks s k"
    using k by (simp add: user_tracker_facts)
  show "user_peaks (acquire_state j n s) k = (if j \<noteq> k then user_peaks s k else
      (let s' = acquire_state j n s; (t, a, b) = user_peaks s k in
       (max t (user_live s' k False + user_live s' k True), max a (user_live s' k False), max b (user_live s' k True))))"
    using k by (cases "j = []") (simp_all add: acquire_Nil acquire_bump user_tracker_facts bump_def Let_def)
qed

section \<open>Properties\<close>

text \<open>Stream accounting is exact: after any sequence of stream opens and closes (closing a
  stream twice, or one that is already closed, included), the live count of a user is the
  number of that user's streams still open, and the recorded peak is the largest number that
  were ever open at once.\<close>

lemma user_streams_exact:
  assumes "k \<noteq> ''''"
  defines "st \<equiv> \<lambda>evs. run_events acquire_state release evs (fresh newUserH2StreamTracker)"
  shows "active k (trk (st evs)) = (open_total k (handles (st evs)), open_count k False (handles (st evs)), open_count k True (handles (st evs))) \<and>
    p_total (peak k (trk (st evs))) = Max ((\<lambda>n. open_total k (handles (st (take n evs)))) ` {..length evs})"
proof
  have "(case active k (trk (st evs)) of (a, b, c) \<Rightarrow> a = b + c)"
    by (simp add: active_def split: option.split)
  moreover have "open_count k u (handles (st evs)) = user_live (trk (st evs)) k u" for u
    unfolding st_def by (rule user.live_is_open [OF assms(1), symmetric])
  ultimately show "active k (trk (st evs)) = (open_total k (handles (st evs)), open_count k False (handles (st evs)), open_count k True (handles (st evs)))"
    by (simp add: open_total_def user_live_def split: prod.splits)
  show "p_total (peak k (trk (st evs))) = Max ((\<lambda>n. open_total k (handles (st (take n evs)))) ` {..length evs})"
    using user.peak_is_maximum [OF assms(1)] by (simp add: st_def user_peaks_def)
qed

lemma user_streams_exact_witness:
  "active ''u'' (trk (run_events acquire_state release [Open ''u'' ''tcp'', Open ''u'' ''udp'', Close 0, Close 0] (fresh newUserH2StreamTracker))) = (1, 0, 1)"
  using user_streams_exact [of "''u''" "[Open ''u'' ''tcp'', Open ''u'' ''udp'', Close 0, Close 0]"]
  by (simp add: run_events_def fresh_def open_total_def open_count_def)

definition tmax :: "int \<times> int \<times> int \<Rightarrow> userH2Peak \<Rightarrow> int \<times> int \<times> int" where
  "tmax c pk = (case c of (a, b, d) \<Rightarrow> (max a (p_total pk), max b (p_tcp pk), max d (p_udp pk)))"

definition raise_by :: "string \<Rightarrow> (string \<times> userH2Peak) list \<Rightarrow> int \<times> int \<times> int \<Rightarrow> int \<times> int \<times> int" where
  "raise_by k us c = fold (\<lambda>u c. if fst u = k then tmax c (snd u) else c) us c"

definition good_update :: "string \<times> userH2Peak \<Rightarrow> bool" where
  "good_update u = (fst u \<noteq> '''' \<and> advanced (snd u) \<and> 0 \<le> p_total (snd u) \<and> 0 \<le> p_tcp (snd u) \<and> 0 \<le> p_udp (snd u))"

definition effective :: "peakPersister \<Rightarrow> string \<Rightarrow> (int \<times> int \<times> int) option" where
  "effective s k = map_option (raise_by k (pending s @ h2PeakUpdates s)) (columns (users s) k)"

lemma tmax_commute: "tmax (tmax c a) b = tmax (tmax c b) a"
  by (simp add: tmax_def ac_simps split: prod.splits)

lemma raise_by_simps [simp]:
  "raise_by k [] c = c" "raise_by k (u # us) c = raise_by k us (if fst u = k then tmax c (snd u) else c)"
  "raise_by k (us @ vs) c = raise_by k vs (raise_by k us c)"
  by (simp_all add: raise_by_def)

lemma raise_by_tmax: "raise_by k us (tmax c x) = tmax (raise_by k us c) x"
proof (induction us arbitrary: c)
  case (Cons u us)
  then show ?case by (simp add: tmax_commute [of c x])
qed simp

lemma raise_by_if: "raise_by k us (if b then tmax c x else c) = (if b then tmax (raise_by k us c) x else raise_by k us c)"
  by (simp add: raise_by_tmax)

lemma map_option_raise_Nil [simp]: "map_option (raise_by k []) c = c"
  by (simp add: option.map_ident cong: option.map_cong)

lemma columns_persist:
  "columns (persistUserH2Peak now u pk db) k =
    map_option (\<lambda>c. if u = k \<and> u \<noteq> [] \<and> advanced pk then tmax c pk else c) (columns db k)"
  by (cases "db k") (auto simp: persistUserH2Peak_def columns_def tmax_def split: option.split)

lemma columns_flush:
  "list_all good_update us \<Longrightarrow> columns (persisterFlush now us db) k = map_option (raise_by k us) (columns db k)"
proof (induction us arbitrary: db)
  case Nil
  show ?case by (simp add: persisterFlush_def option.map_ident)
next
  case (Cons u us)
  have "columns (persisterFlush now (u # us) db) k = columns (persisterFlush now us (persistUserH2Peak now (fst u) (snd u) db)) k"
    by (simp add: persisterFlush_def case_prod_beta)
  also have "\<dots> = map_option (raise_by k us) (columns (persistUserH2Peak now (fst u) (snd u) db) k)"
    using Cons by simp
  finally show ?case
    using Cons.prems by (simp add: columns_persist good_update_def option.map_comp comp_def)
qed

lemma merge_raises: "tmax c (mergePeak a b) = tmax (tmax c a) b"
  by (simp add: tmax_def mergePeak_def max_def split: prod.splits)

lemma merge_zero: "0 \<le> p_total b \<Longrightarrow> 0 \<le> p_tcp b \<Longrightarrow> 0 \<le> p_udp b \<Longrightarrow> tmax c (mergePeak zeroPeak b) = tmax c b"
  by (cases c) (simp add: tmax_def mergePeak_def zeroPeak_def max_def)

lemma raise_by_recv:
  "good_update u \<Longrightarrow> raise_by k (persisterRecv u us) c = raise_by k (us @ [u]) c"
proof (induction us arbitrary: c)
  case Nil
  then show ?case by (cases u) (simp add: persisterRecv_def merge_zero good_update_def)
next
  case (Cons v us)
  show ?case
  proof (cases "fst v = fst u")
    case True
    have "raise_by k (persisterRecv u (v # us)) c = raise_by k ((fst u, mergePeak (snd v) (snd u)) # us) c"
      using True Cons.prems by (cases v) (simp add: persisterRecv_def good_update_def)
    then show ?thesis using True by (simp add: merge_raises raise_by_tmax)
  next
    case False
    have "persisterRecv u (v # us) = v # persisterRecv u us"
      using False Cons.prems by (cases v) (simp add: persisterRecv_def good_update_def)
    then show ?thesis using Cons by simp
  qed
qed

lemma good_recv: "good_update u \<Longrightarrow> list_all good_update us \<Longrightarrow> list_all good_update (persisterRecv u us)"
proof (induction us)
  case (Cons v us)
  then show ?case
    by (cases v) (auto simp: persisterRecv_def good_update_def mergePeak_def)
qed (simp add: persisterRecv_def good_update_def mergePeak_def zeroPeak_def)

definition nonneg_event :: "persisterEvent \<Rightarrow> bool" where
  "nonneg_event e = (case e of Enqueue u pk \<Rightarrow> 0 \<le> p_total pk \<and> 0 \<le> p_tcp pk \<and> 0 \<le> p_udp pk | _ \<Rightarrow> True)"

lemma good_step:
  assumes "list_all good_update (pending s @ h2PeakUpdates s)" "nonneg_event e"
  shows "list_all good_update (pending (startH2PeakPersister cap now e s) @ h2PeakUpdates (startH2PeakPersister cap now e s))"
  using assms good_recv
  by (cases e) (auto simp: enqueueUserH2Peak_def nonneg_event_def good_update_def split: list.split)

lemma effective_step:
  assumes "list_all good_update (pending s @ h2PeakUpdates s)" "nonneg_event e"
    and "effective s = columns db"
  shows "effective (startH2PeakPersister cap now e s) = columns (write_direct now' e db)"
proof
  fix k
  have e: "columns db k = map_option (raise_by k (pending s @ h2PeakUpdates s)) (columns (users s) k)"
    using assms(3) [symmetric] by (simp add: effective_def)
  show "effective (startH2PeakPersister cap now e s) k = columns (write_direct now' e db) k"
  proof (cases e)
    case (Enqueue u pk)
    then show ?thesis
      by (cases "columns (users s) k")
        (simp_all add: effective_def enqueueUserH2Peak_def columns_persist e raise_by_if raise_by_tmax del: map_option_eq_Some)
  next
    case Receive
    then show ?thesis
      using assms(1) by (cases "h2PeakUpdates s"; cases "columns (users s) k") (simp_all add: effective_def e raise_by_recv)
  next
    case Tick
    then show ?thesis
      using assms(1) by (cases "columns (users s) k") (simp_all add: effective_def e columns_flush)
  qed
qed

lemma effective_run:
  assumes "list_all nonneg_event evs" and "list_all good_update (pending s @ h2PeakUpdates s)" "effective s = columns db"
  shows "effective (run_persister cap now evs s) = columns (fold (write_direct now') evs db) \<and>
    list_all good_update (pending (run_persister cap now evs s) @ h2PeakUpdates (run_persister cap now evs s))"
  using assms
proof (induction evs arbitrary: s db)
  case (Cons e evs)
  then show ?case
    using Cons.IH [of "startH2PeakPersister cap now e s" "write_direct now' e db"] good_step [of s e cap now]
      effective_step [of s e db cap now now']
    by (simp add: run_persister_def)
qed (simp add: run_persister_def)

lemma direct_receive: "fold (write_direct now) (replicate n Receive) d = d"
  by (induction n) (simp_all del: fold_replicate)

lemma receive_all:
  "h2PeakUpdates (run_persister cap now (replicate (length (h2PeakUpdates s)) Receive) s) = []"
proof (induction "length (h2PeakUpdates s)" arbitrary: s)
  case (Suc n)
  then obtain u q where "h2PeakUpdates s = u # q" by (metis length_Suc_conv)
  with Suc(1) [of "startH2PeakPersister cap now Receive s"] Suc(2) show ?case
    by (simp add: run_persister_def)
qed (simp add: run_persister_def)

text \<open>Coalescing loses nothing: however the channel fills, the persister merges and the ticker
  fires, once the queue is drained and flushed the three peak columns of every user are those
  that writing every update at once would leave.\<close>

lemma persister_equals_direct_writes:
  assumes "list_all nonneg_event evs"
  shows "columns (users (drained cap now (run_persister cap now evs \<lparr>h2PeakUpdates = [], pending = [], users = db\<rparr>))) =
    columns (fold (write_direct now') evs db)"
proof -
  let ?init = "\<lparr>h2PeakUpdates = [], pending = [], users = db\<rparr>" and ?run = "run_persister cap now evs"
  let ?drain = "replicate (length (h2PeakUpdates (?run ?init))) Receive @ [Tick]"
  have "effective ?init = columns db"
    by (simp add: effective_def fun_eq_iff)
  then have 1: "effective (?run ?init) = columns (fold (write_direct now') evs db)" "list_all good_update (pending (?run ?init) @ h2PeakUpdates (?run ?init))"
    using effective_run [OF assms, of ?init db] by simp_all
  have "fold (write_direct now') ?drain d = d" for d
    using direct_receive by (simp del: fold_replicate)
  moreover have "list_all nonneg_event ?drain"
    by (simp add: list_all_iff nonneg_event_def)
  ultimately have 2: "effective (drained cap now (?run ?init)) = columns (fold (write_direct now') evs db)"
    using effective_run [of ?drain "?run ?init" "fold (write_direct now') evs db" cap now now'] 1 by (simp add: drained_def del: fold_replicate)
  have "pending (drained cap now (?run ?init)) = []" "h2PeakUpdates (drained cap now (?run ?init)) = []"
    using receive_all by (simp_all add: drained_def run_persister_def)
  then show ?thesis using 2 by (simp add: effective_def fun_eq_iff option.map_ident)
qed

lemma persister_equals_direct_writes_witness:
  "columns (users (drained 1 7 (run_persister 1 7
      [Enqueue ''u'' \<lparr>p_total = 3, p_tcp = 2, p_udp = 1, advanced = True\<rparr>, Receive,
       Enqueue ''u'' \<lparr>p_total = 4, p_tcp = 1, p_udp = 3, advanced = True\<rparr>]
      \<lparr>h2PeakUpdates = [], pending = [], users = [''u'' \<mapsto> \<lparr>h2_peak_streams = 0, h2_peak_tcp_streams = 0, h2_peak_udp_streams = 0, h2_peak_at = 0\<rparr>]\<rparr>))) ''u''
    = Some (4, 2, 3)"
  by (subst persister_equals_direct_writes [where now' = 0])
    (simp_all add: nonneg_event_def persistUserH2Peak_def columns_def)

end
