(* ===== verification/OutboundStreams.thy ===== *)
theory OutboundStreams
  imports StreamTracker
begin

text \<open>
  pkg/tamizdat/outbound_stream_tracker.go: live and peak stream counts and dial failures per
  outbound tag. It implements the contract of \<open>StreamTracker\<close>, and recording a dial failure does
  not disturb it.
\<close>

record outboundStreamCounts =
  o_tcp :: int
  o_udp :: int
  o_peakTotal :: int
  o_peakTCP :: int
  o_peakUDP :: int
  dialFailedTCP :: "64 word"
  dialFailedUDP :: "64 word"
  lastFailedAt :: int
  lastFailedNet :: string
  lastFailedErr :: string

record outboundStreamPeak =
  op_total :: int
  op_tcp :: int
  op_udp :: int
  op_advanced :: bool

record outboundStreamSnapshot =
  liveTotal :: int
  liveTCP :: int
  liveUDP :: int
  s_peakTotal :: int
  s_peakTCP :: int
  s_peakUDP :: int
  s_dialFailedTCP :: "64 word"
  s_dialFailedUDP :: "64 word"
  s_lastFailedAt :: int
  s_lastFailedNet :: string
  s_lastFailedErr :: string

type_synonym outboundStreamTracker = "string \<Rightarrow> outboundStreamCounts option"

definition zeroOutboundCounts :: outboundStreamCounts where
  "zeroOutboundCounts = \<lparr>o_tcp = 0, o_udp = 0, o_peakTotal = 0, o_peakTCP = 0, o_peakUDP = 0,
     dialFailedTCP = 0, dialFailedUDP = 0, lastFailedAt = 0, lastFailedNet = '''', lastFailedErr = ''''\<rparr>"

definition zeroOutboundPeak :: outboundStreamPeak where
  "zeroOutboundPeak = \<lparr>op_total = 0, op_tcp = 0, op_udp = 0, op_advanced = False\<rparr>"

definition snapshot_of :: "outboundStreamCounts \<Rightarrow> outboundStreamSnapshot" where
  "snapshot_of c = \<lparr>liveTotal = o_tcp c + o_udp c, liveTCP = o_tcp c, liveUDP = o_udp c,
     s_peakTotal = o_peakTotal c, s_peakTCP = o_peakTCP c, s_peakUDP = o_peakUDP c,
     s_dialFailedTCP = dialFailedTCP c, s_dialFailedUDP = dialFailedUDP c,
     s_lastFailedAt = lastFailedAt c, s_lastFailedNet = lastFailedNet c, s_lastFailedErr = lastFailedErr c\<rparr>"

definition newOutboundStreamTracker :: outboundStreamTracker where
  "newOutboundStreamTracker = (\<lambda>_. None)"

definition acquireOutbound :: "string \<Rightarrow> string \<Rightarrow> outboundStreamTracker \<Rightarrow> outboundStreamTracker \<times> outboundStreamPeak" where
  "acquireOutbound tag network t =
    (if tag = '''' then (t, zeroOutboundPeak)
     else
       let c0 = (case t tag of None \<Rightarrow> zeroOutboundCounts | Some c \<Rightarrow> c);
           c1 = (if network = ''udp'' then c0\<lparr>o_udp := o_udp c0 + 1\<rparr> else c0\<lparr>o_tcp := o_tcp c0 + 1\<rparr>);
           total = o_tcp c1 + o_udp c1;
           c2 = (if total > o_peakTotal c1 then c1\<lparr>o_peakTotal := total\<rparr> else c1);
           c3 = (if o_tcp c2 > o_peakTCP c2 then c2\<lparr>o_peakTCP := o_tcp c2\<rparr> else c2);
           c4 = (if o_udp c3 > o_peakUDP c3 then c3\<lparr>o_peakUDP := o_udp c3\<rparr> else c3);
           adv = (total > o_peakTotal c1 \<or> o_tcp c2 > o_peakTCP c2 \<or> o_udp c3 > o_peakUDP c3) in
       (t(tag \<mapsto> c4), \<lparr>op_total = o_peakTotal c4, op_tcp = o_peakTCP c4, op_udp = o_peakUDP c4, op_advanced = adv\<rparr>))"

definition releaseOutbound :: "string \<Rightarrow> string \<Rightarrow> outboundStreamTracker \<Rightarrow> outboundStreamTracker" where
  "releaseOutbound tag network t =
    (if tag = '''' then t
     else case t tag of None \<Rightarrow> t
       | Some c \<Rightarrow>
           if network = ''udp'' then (if o_udp c > 0 then t(tag \<mapsto> c\<lparr>o_udp := o_udp c - 1\<rparr>) else t)
           else if o_tcp c > 0 then t(tag \<mapsto> c\<lparr>o_tcp := o_tcp c - 1\<rparr>) else t)"

text \<open>The error text is cut to 240 characters (\<open>%.240s\<close>); a nil error is \<open>None\<close>.\<close>

definition recordDialFailure :: "int \<Rightarrow> string \<Rightarrow> string \<Rightarrow> string option \<Rightarrow> outboundStreamTracker \<Rightarrow> outboundStreamTracker" where
  "recordDialFailure now tag network err t =
    (if tag = '''' then t
     else
       let c0 = (case t tag of None \<Rightarrow> zeroOutboundCounts | Some c \<Rightarrow> c);
           c1 = (if network = ''udp'' then c0\<lparr>dialFailedUDP := dialFailedUDP c0 + 1\<rparr>
                 else c0\<lparr>dialFailedTCP := dialFailedTCP c0 + 1\<rparr>) in
       t(tag \<mapsto> c1\<lparr>lastFailedAt := now, lastFailedNet := network,
          lastFailedErr := (case err of Some e \<Rightarrow> take 240 e | None \<Rightarrow> '''')\<rparr>))"

definition snapshot :: "string \<Rightarrow> outboundStreamTracker \<Rightarrow> outboundStreamSnapshot" where
  "snapshot tag t = (if tag = '''' then snapshot_of zeroOutboundCounts
     else case t tag of None \<Rightarrow> snapshot_of zeroOutboundCounts | Some c \<Rightarrow> snapshot_of c)"

record outboundPeakRow =
  ob_h2_peak_streams :: int
  ob_h2_peak_tcp_streams :: int
  ob_h2_peak_udp_streams :: int
  ob_h2_peak_at :: int

definition persistOutboundStreamPeak ::
    "int \<Rightarrow> string \<Rightarrow> outboundStreamPeak \<Rightarrow> (string \<Rightarrow> outboundPeakRow option) \<Rightarrow> (string \<Rightarrow> outboundPeakRow option)" where
  "persistOutboundStreamPeak now tag pk db =
    (if tag = '''' \<or> \<not> op_advanced pk then db
     else case db tag of None \<Rightarrow> db
       | Some r \<Rightarrow>
           if op_total pk > ob_h2_peak_streams r \<or> op_tcp pk > ob_h2_peak_tcp_streams r \<or> op_udp pk > ob_h2_peak_udp_streams r then
             db(tag \<mapsto> \<lparr>ob_h2_peak_streams = max (ob_h2_peak_streams r) (op_total pk),
               ob_h2_peak_tcp_streams = max (ob_h2_peak_tcp_streams r) (op_tcp pk),
               ob_h2_peak_udp_streams = max (ob_h2_peak_udp_streams r) (op_udp pk), ob_h2_peak_at = now\<rparr>)
           else db)"

definition trackOutboundStream where
  "trackOutboundStream now tag network t db =
    (case acquireOutbound tag network t of (t', pk) \<Rightarrow>
       (t', if op_advanced pk then persistOutboundStreamPeak now tag pk db else db))"

section \<open>The contract\<close>

definition ob_live :: "outboundStreamTracker \<Rightarrow> string \<Rightarrow> bool \<Rightarrow> int" where
  "ob_live t k u = (if u then liveUDP (snapshot k t) else liveTCP (snapshot k t))"

definition ob_peaks :: "outboundStreamTracker \<Rightarrow> string \<Rightarrow> int \<times> int \<times> int" where
  "ob_peaks t k = (s_peakTotal (snapshot k t), s_peakTCP (snapshot k t), s_peakUDP (snapshot k t))"

definition ob_acquire_state where
  "ob_acquire_state k n t = fst (acquireOutbound k n t)"

definition ob_counts :: "outboundStreamTracker \<Rightarrow> string \<Rightarrow> outboundStreamCounts" where
  "ob_counts t k = (case t k of None \<Rightarrow> zeroOutboundCounts | Some c \<Rightarrow> c)"

definition ob_bump :: "string \<Rightarrow> outboundStreamCounts \<Rightarrow> outboundStreamCounts" where
  "ob_bump n c = (let a = o_tcp c + (if n = ''udp'' then 0 else 1); b = o_udp c + (if n = ''udp'' then 1 else 0) in
     c\<lparr>o_tcp := a, o_udp := b, o_peakTotal := max (o_peakTotal c) (a + b),
       o_peakTCP := max (o_peakTCP c) a, o_peakUDP := max (o_peakUDP c) b\<rparr>)"

lemma ob_raise_peak:
  "(if x > o_peakTotal c then c\<lparr>o_peakTotal := x\<rparr> else c) = c\<lparr>o_peakTotal := max (o_peakTotal c) x\<rparr>"
  "(if x > o_peakTCP c then c\<lparr>o_peakTCP := x\<rparr> else c) = c\<lparr>o_peakTCP := max (o_peakTCP c) x\<rparr>"
  "(if x > o_peakUDP c then c\<lparr>o_peakUDP := x\<rparr> else c) = c\<lparr>o_peakUDP := max (o_peakUDP c) x\<rparr>"
  by (cases c; simp)+

lemma ob_acquire_bump: "k \<noteq> [] \<Longrightarrow> ob_acquire_state k n t = t(k \<mapsto> ob_bump n (ob_counts t k))"
  by (cases "ob_counts t k")
    (simp add: ob_acquire_state_def acquireOutbound_def ob_raise_peak ob_counts_def [symmetric] ob_bump_def Let_def)

lemma ob_acquire_Nil: "ob_acquire_state [] n t = t"
  by (simp add: ob_acquire_state_def acquireOutbound_def)

lemma snapshot_counts: "k \<noteq> [] \<Longrightarrow> snapshot k t = snapshot_of (ob_counts t k)"
  by (simp add: snapshot_def ob_counts_def split: option.split)

lemma ob_counts_upd: "ob_counts (t(j \<mapsto> c)) k = (if k = j then c else ob_counts t k)"
  by (simp add: ob_counts_def)

lemma ob_release_counts:
  "ob_counts (releaseOutbound j n t) k = (if j = k \<and> k \<noteq> [] then
     (if n = ''udp'' then (ob_counts t k)\<lparr>o_udp := o_udp (ob_counts t k) - (if 0 < o_udp (ob_counts t k) then 1 else 0)\<rparr>
      else (ob_counts t k)\<lparr>o_tcp := o_tcp (ob_counts t k) - (if 0 < o_tcp (ob_counts t k) then 1 else 0)\<rparr>)
     else ob_counts t k)"
  by (simp add: releaseOutbound_def ob_counts_def zeroOutboundCounts_def split: option.split)

lemmas ob_facts = snapshot_counts ob_counts_upd ob_release_counts ob_live_def ob_peaks_def snapshot_of_def

interpretation outb: stream_tracker newOutboundStreamTracker ob_acquire_state releaseOutbound ob_live ob_peaks
proof unfold_locales
  fix k j :: string and n s u
  show "ob_live newOutboundStreamTracker k u = 0" "ob_peaks newOutboundStreamTracker k = (0, 0, 0)"
    by (simp_all add: ob_live_def ob_peaks_def snapshot_def newOutboundStreamTracker_def snapshot_of_def zeroOutboundCounts_def)
  assume k: "k \<noteq> []"
  show "ob_live (ob_acquire_state j n s) k u = ob_live s k u + (if j = k \<and> (n = ''udp'') = u then 1 else 0)"
    using k by (cases "j = []") (simp_all add: ob_acquire_Nil ob_acquire_bump ob_facts ob_bump_def Let_def)
  show "ob_live (releaseOutbound j n s) k u =
      (if j = k \<and> (n = ''udp'') = u \<and> 0 < ob_live s k u then ob_live s k u - 1 else ob_live s k u)"
    using k by (simp add: ob_facts)
  show "ob_peaks (releaseOutbound j n s) k = ob_peaks s k"
    using k by (simp add: ob_facts)
  show "ob_peaks (ob_acquire_state j n s) k = (if j \<noteq> k then ob_peaks s k else
      (let s' = ob_acquire_state j n s; (t, a, b) = ob_peaks s k in
       (max t (ob_live s' k False + ob_live s' k True), max a (ob_live s' k False), max b (ob_live s' k True))))"
    using k by (cases "j = []") (simp_all add: ob_acquire_Nil ob_acquire_bump ob_facts ob_bump_def Let_def)
qed

section \<open>Properties\<close>

lemma dial_failure_counts:
  "k \<noteq> [] \<Longrightarrow> ob_live (recordDialFailure now tag n e t) k u = ob_live t k u"
  "k \<noteq> [] \<Longrightarrow> ob_peaks (recordDialFailure now tag n e t) k = ob_peaks t k"
  by (simp_all add: recordDialFailure_def ob_live_def ob_peaks_def snapshot_counts snapshot_of_def Let_def
      ob_counts_upd ob_counts_def [symmetric])

text \<open>The snapshot of an outbound is exact: after any sequence of stream opens and closes, its
  live fields count the streams of that tag still open and its peak is the largest number ever
  open at once, and a dial failure recorded afterwards changes neither.\<close>

lemma outbound_streams_exact:
  assumes "tag \<noteq> ''''"
  defines "st \<equiv> \<lambda>evs. run_events ob_acquire_state releaseOutbound evs (fresh newOutboundStreamTracker)"
  shows "let sn = snapshot tag (recordDialFailure now tag' n e (trk (st evs))) in
    liveTCP sn = open_count tag False (handles (st evs)) \<and> liveUDP sn = open_count tag True (handles (st evs)) \<and>
    s_peakTotal sn = Max ((\<lambda>n. open_total tag (handles (st (take n evs)))) ` {..length evs})"
proof -
  have "ob_live (trk (st evs)) tag u = open_count tag u (handles (st evs))" for u
    unfolding st_def by (rule outb.live_is_open [OF assms(1)])
  moreover have "liveTCP (snapshot tag t) = ob_live t tag False" "liveUDP (snapshot tag t) = ob_live t tag True"
    "s_peakTotal (snapshot tag t) = fst (ob_peaks t tag)" for t
    by (simp_all add: ob_live_def ob_peaks_def)
  ultimately show ?thesis
    using outb.peak_is_maximum [OF assms(1), of evs] dial_failure_counts [OF assms(1)] by (simp add: st_def Let_def)
qed

lemma outbound_streams_exact_witness:
  "liveTCP (snapshot ''t'' (recordDialFailure 9 ''t'' ''tcp'' None (trk (run_events ob_acquire_state releaseOutbound
     [Open ''t'' ''tcp'', Open ''t'' ''tcp'', Close 1, Close 1] (fresh newOutboundStreamTracker))))) = 1"
  using outbound_streams_exact [of "''t''" 9 "''t''" "''tcp''" None "[Open ''t'' ''tcp'', Open ''t'' ''tcp'', Close 1, Close 1]"]
  by (simp add: run_events_def fresh_def open_count_def Let_def)

end
