(* ===== verification/ConnectHandler.thy ===== *)
theory ConnectHandler
  imports AuthGate DestinationGuard Sniffing RulesDB OutboundRegistry UserH2Streams OutboundStreams Accounting
begin

text \<open>
  What the server does with a request of an admitted client: the handler of \<open>serveH2\<close>, \<open>handleTCPConnect\<close>,
  \<open>resolveRoutingTag\<close> and \<open>dialUDPViaRouting\<close> (pkg/tamizdat/server.go), \<open>handleUDPCONNECT\<close> (udp_server.go) and the stream
  accounting they call. It composes the destination guard, the sniffers, the routing rules, the outbound registry, the
  stream trackers and the byte accounting. A tunnel goes through the calls that other requests and reloads interleave with:
  opened (a lease is taken), dialled, first half done, upstream closed, ended. The name server, the peeked bytes, the
  outcomes of dials and the clock are the argument \<open>E\<close>.
\<close>

section \<open>Addresses\<close>

primrec find_char :: "char \<Rightarrow> string \<Rightarrow> nat option" where
  "find_char c [] = None"
| "find_char c (b # bs) = (if b = c then Some 0 else map_option Suc (find_char c bs))"

definition last_char :: "char \<Rightarrow> string \<Rightarrow> nat option" where
  "last_char c s = map_option (\<lambda>i. length s - 1 - i) (find_char c (rev s))"

text \<open>\<open>net.SplitHostPort\<close>.\<close>

definition SplitHostPort :: "string \<Rightarrow> (string \<times> string) option" where
  "SplitHostPort s =
    (case last_char CHR '':'' s of
       None \<Rightarrow> None
     | Some i \<Rightarrow>
        (case (if hd s = CHR ''['' then
                (case find_char CHR '']'' s of None \<Rightarrow> None
                 | Some e \<Rightarrow> if e + 1 = i then Some (take (e - 1) (drop 1 s), 1, e + 1) else None)
              else if CHR '':'' \<in> set (take i s) then None else Some (take i s, 0, 0)) of
           None \<Rightarrow> None
         | Some (host, j, k) \<Rightarrow>
             if CHR ''['' \<in> set (drop j s) \<or> CHR '']'' \<in> set (drop k s) then None else Some (host, drop (i + 1) s)))"

definition atoiPort :: "string \<Rightarrow> int option" where
  "atoiPort s = (if \<not> list_all is_digit s then None else if s = [] then None else Some (digits_value s))"

section \<open>The state\<close>

text \<open>\<open>attempts\<close> records the dials: network, address, outbound and what routing picked.\<close>

record attempt =
  aNet :: string
  aTarget :: "bytes \<times> string"
  aTag :: string
  aPick :: string
  aIdent :: authIdentity

record proxy =
  outReg :: "Registry option"
  RoutingResolver :: "(string \<Rightarrow> int \<Rightarrow> string \<Rightarrow> string \<Rightarrow> string) option"
  SniffEnabled :: bool
  users_of :: "UserRegistry option"
  h2Streams :: userH2StreamTracker
  relayStreams :: userH2StreamTracker
  outStreams :: outboundStreamTracker
  peakQueue :: "(string \<times> userH2Peak) list"
  userPeaks :: usersTable
  relayPeaks :: usersTable
  outPeaks :: "string \<Rightarrow> outboundPeakRow option"
  hasPeakDB :: bool
  accounts :: "Accounting option"
  ssrfRejectedTCP :: nat
  ssrfRejectedUDP :: nat
  tunnelsUDPOpened :: nat
  tunnelsUDPClosed :: nat
  attempts :: "attempt list"

record connectEnv =
  dnsOf :: "string \<Rightarrow> bytes list option"
  peeked :: "(nat \<times> bool) option"
  dialsOf :: dialEnv
  rttOf :: "nat \<Rightarrow> RTTSnapshot option"
  nowNS :: int
  nowSec :: int
  listens :: bool
  bundleStatus :: nat

record tunnel =
  tunNet :: string
  tunIdent :: authIdentity
  tunTarget :: "bytes \<times> string"
  tunPick :: string
  tunLease :: "nat option"
  outboundTag :: string
  tunMember :: "nat option"
  meterTag :: string
  relayReleased :: bool
  upstreamClosed :: bool

section \<open>Stream accounting\<close>

definition h2StreamTrackerKey :: "authIdentity \<Rightarrow> string" where
  "h2StreamTrackerKey a =
    (if UserID a \<noteq> [] then ''user:'' @ UserID a
     else if ShortID a \<noteq> replicate 8 0 then ''shortid:'' @ hexEncode (ShortID a)
     else [])"

definition trackUserH2Stream :: "int \<Rightarrow> authIdentity \<Rightarrow> string \<Rightarrow> proxy \<Rightarrow> proxy" where
  "trackUserH2Stream now i netw p =
    (case UserH2Streams.acquire (h2StreamTrackerKey i) netw (h2Streams p) of (t, pk) \<Rightarrow>
      let p = p\<lparr>h2Streams := t\<rparr> in
      if advanced pk \<and> UserID i \<noteq> [] \<and> hasPeakDB p then
        (case enqueueUserH2Peak 4096 now (UserID i) pk (peakQueue p, userPeaks p) of (q, db) \<Rightarrow> p\<lparr>peakQueue := q, userPeaks := db\<rparr>)
      else p)"

text \<open>The update of the relay columns has the shape of the one of the other columns.\<close>

definition persistUserH2RelayPeak :: "int \<Rightarrow> string \<Rightarrow> userH2Peak \<Rightarrow> proxy \<Rightarrow> proxy" where
  "persistUserH2RelayPeak now userID pk p =
    (if \<not> hasPeakDB p \<or> userID = [] \<or> \<not> advanced pk then p
     else let db = persistUserH2Peak now userID pk (relayPeaks p); rows = (db userID \<noteq> relayPeaks p userID) in
       p\<lparr>relayPeaks := db,
         users_of := (if rows then map_option (ObserveH2RelayPeak userID (p_total pk) (p_tcp pk) (p_udp pk) now) (users_of p) else users_of p)\<rparr>)"

definition trackUserRelayStream :: "int \<Rightarrow> authIdentity \<Rightarrow> string \<Rightarrow> proxy \<Rightarrow> proxy" where
  "trackUserRelayStream now i netw p =
    (if UserID i = [] then p
     else case UserH2Streams.acquire (''user:'' @ UserID i) netw (relayStreams p) of (t, pk) \<Rightarrow>
       let p = p\<lparr>relayStreams := t\<rparr> in if advanced pk then persistUserH2RelayPeak now (UserID i) pk p else p)"

definition trackOutbound :: "int \<Rightarrow> string \<Rightarrow> string \<Rightarrow> proxy \<Rightarrow> proxy" where
  "trackOutbound now ob netw p =
    (case acquireOutbound ob netw (outStreams p) of (t, pk) \<Rightarrow>
      p\<lparr>outStreams := t, outPeaks := (if op_advanced pk \<and> hasPeakDB p then persistOutboundStreamPeak now ob pk (outPeaks p) else outPeaks p)\<rparr>)"

section \<open>Routing\<close>

definition resolveRoutingTag :: "string \<Rightarrow> string \<Rightarrow> authIdentity \<Rightarrow> proxy \<Rightarrow> string" where
  "resolveRoutingTag host port i p =
    (case RoutingResolver p of
       None \<Rightarrow> []
     | Some resolve \<Rightarrow>
        let portNum = (case atoiPort port of Some n \<Rightarrow> n | None \<Rightarrow> 0);
            userName = (if UserID i \<noteq> [] then (case users_of p of Some reg \<Rightarrow> (case getUser (UserID i) reg of Some u \<Rightarrow> uName u | None \<Rightarrow> []) | None \<Rightarrow> []) else [])
        in resolve host portNum ''tamizdat-in'' userName)"

text \<open>The resolver that cmd/tamizdat-server/main.go installs; \<open>snap\<close> is the published snapshot.\<close>

definition mainResolver :: "(string \<Rightarrow> string list) \<Rightarrow> Snapshot option \<Rightarrow> string \<Rightarrow> int \<Rightarrow> string \<Rightarrow> string \<Rightarrow> string" where
  "mainResolver dns snap host port inboundTag user = ResolveTCP dns snap host port inboundTag user"

definition effectiveOutboundTag :: "string \<Rightarrow> string option \<Rightarrow> string" where
  "effectiveOutboundTag fallback endpoint =
    (case endpoint of None \<Rightarrow> fallback | Some ob \<Rightarrow> if trim_space ob \<noteq> [] then trim_space ob else fallback)"

definition routingHost :: "connectEnv \<Rightarrow> conn \<Rightarrow> string \<Rightarrow> proxy \<Rightarrow> string" where
  "routingHost E body host p =
    (if SniffEnabled p then
      (case snd (PeekConn (peeked E) [TLSClientHello, \<lambda>d. GoOk (HTTPHost d)] body) of
         GoOk sniffed \<Rightarrow> if sniffed \<noteq> [] then sniffed else host | _ \<Rightarrow> host)
     else host)"

section \<open>Opening\<close>

datatype opened = Answered nat | Handed | Tunnel tunnel

definition takeLease :: "string \<Rightarrow> authIdentity \<Rightarrow> bytes \<times> string \<Rightarrow> string \<Rightarrow> Registry \<Rightarrow> proxy \<Rightarrow> proxy \<times> opened" where
  "takeLease netw i target pick r p =
    (case OutboundRegistry.Resolve pick r of (r, l, ob) \<Rightarrow>
      (p\<lparr>outReg := Some r\<rparr>, Tunnel \<lparr>tunNet = netw, tunIdent = i, tunTarget = target, tunPick = pick, tunLease = Some l, outboundTag = ob,
         tunMember = None, meterTag = ob, relayReleased = False, upstreamClosed = False\<rparr>))"

definition openTCP :: "connectEnv \<Rightarrow> string \<Rightarrow> conn \<Rightarrow> authIdentity \<Rightarrow> proxy \<Rightarrow> proxy \<times> opened" where
  "openTCP E destination body i p =
    (case outReg p of
       None \<Rightarrow> (p, Handed)
     | Some r \<Rightarrow>
        (case (case SplitHostPort destination of Some hp \<Rightarrow> hp | None \<Rightarrow> (destination, ''443'')) of (host, port) \<Rightarrow>
          (case ResolveAndValidateDestination (dnsOf E) host port of
             GoOk target \<Rightarrow>
               (let tagPick = resolveRoutingTag (routingHost E body host p) port i p in
                if tagPick = ''block'' then (p, Answered 200)
                else takeLease ''tcp'' i target tagPick r p)
           | _ \<Rightarrow> (p\<lparr>ssrfRejectedTCP := ssrfRejectedTCP p + 1\<rparr>, Answered 200))))"

text \<open>\<open>dialUDPViaRouting\<close> up to the dial, with the answer of its caller when a rule blocks.\<close>

definition routeUDP :: "connectEnv \<Rightarrow> string \<Rightarrow> string \<Rightarrow> bytes \<times> string \<Rightarrow> authIdentity \<Rightarrow> proxy \<Rightarrow> proxy \<times> opened" where
  "routeUDP E host port target i p =
    (case outReg p of
       None \<Rightarrow> (p, Tunnel \<lparr>tunNet = ''udp'', tunIdent = i, tunTarget = target, tunPick = [], tunLease = None, outboundTag = ''direct'',
          tunMember = None, meterTag = ''direct'', relayReleased = False, upstreamClosed = False\<rparr>)
     | Some r \<Rightarrow>
        (let tagPick = resolveRoutingTag host port i p in
         if tagPick = ''block'' then
           (p\<lparr>outStreams := recordDialFailure (nowSec E) ''block'' ''udp'' (Some ''blocked by routing rule'') (outStreams p)\<rparr>, Answered 502)
         else takeLease ''udp'' i target tagPick r p))"

text \<open>\<open>net.ResolveUDPAddr\<close> succeeds on the address and port that the guard has accepted.\<close>

definition openUDP :: "connectEnv \<Rightarrow> string \<Rightarrow> authIdentity \<Rightarrow> proxy \<Rightarrow> proxy \<times> opened" where
  "openUDP E destination i p =
    (case SplitHostPort destination of
       None \<Rightarrow> (p, Answered 400)
     | Some (host, port) \<Rightarrow>
        (case ResolveAndValidateDestination (dnsOf E) host port of
           GoOk target \<Rightarrow> routeUDP E host port target i p
         | _ \<Rightarrow> (p\<lparr>ssrfRejectedUDP := ssrfRejectedUDP p + 1\<rparr>, Answered 400)))"

record request =
  rMethod :: string
  rHost :: string
  rProto :: string
  rBody :: conn

definition configAuthority :: string where "configAuthority = ''tamizdat-config.invalid:443''"

definition releaseH2Track :: "authIdentity \<Rightarrow> string \<Rightarrow> proxy \<Rightarrow> proxy" where
  "releaseH2Track i netw p = p\<lparr>h2Streams := UserH2Streams.release (h2StreamTrackerKey i) netw (h2Streams p)\<rparr>"

text \<open>The handler of \<open>serveH2\<close> up to the dial; the stream stays tracked while the request runs. \<open>serveConfigBundle\<close> answers
  the requests to \<open>configAuthority\<close>, with \<open>bundleStatus E\<close>.\<close>

definition serveRequest :: "connectEnv \<Rightarrow> request \<Rightarrow> authIdentity \<Rightarrow> proxy \<Rightarrow> proxy \<times> opened" where
  "serveRequest E q i p =
    (if rHost q = configAuthority then (p, Answered (bundleStatus E))
     else if DataPlaneBlocked i then (p, Answered 402)
     else if rMethod q \<noteq> ''CONNECT'' then (p, Answered 405)
     else if rHost q = [] then (p, Answered 400)
     else let netw = (if rProto q = ''udp/1'' then ''udp'' else ''tcp'') in
     if rProto q \<noteq> [] \<and> rProto q \<noteq> ''tcp/1'' \<and> rProto q \<noteq> ''udp/1'' then (p, Answered 400)
     else let p = trackUserH2Stream (nowSec E) i netw p in
       (case (if rProto q = ''udp/1'' then openUDP E (rHost q) i p else openTCP E (rHost q) (rBody q) i p) of
          (p, Answered st) \<Rightarrow> (releaseH2Track i netw p, Answered st)
        | (p, o') \<Rightarrow> (p, o')))"

section \<open>Dialling and relaying\<close>

definition logAttempt :: "tunnel \<Rightarrow> proxy \<Rightarrow> proxy" where
  "logAttempt t p = p\<lparr>attempts := attempts p @ [\<lparr>aNet = tunNet t, aTarget = tunTarget t, aTag = outboundTag t, aPick = tunPick t, aIdent = tunIdent t\<rparr>]\<rparr>"

definition dialFailed :: "connectEnv \<Rightarrow> tunnel \<Rightarrow> proxy \<Rightarrow> proxy" where
  "dialFailed E t p = releaseH2Track (tunIdent t) (tunNet t)
     (p\<lparr>outStreams := recordDialFailure (nowSec E) (outboundTag t) (tunNet t) (Some ''dial'') (outStreams p)\<rparr>)"

definition startRelay :: "connectEnv \<Rightarrow> tunnel \<Rightarrow> proxy \<Rightarrow> proxy \<times> tunnel option" where
  "startRelay E t p =
    (let p = trackUserRelayStream (nowSec E) (tunIdent t) (tunNet t) p; p = trackOutbound (nowSec E) (meterTag t) (tunNet t) p in
     (if tunNet t = ''udp'' then p\<lparr>tunnelsUDPOpened := tunnelsUDPOpened p + 1\<rparr> else p, Some t))"

definition dialTunnel :: "connectEnv \<Rightarrow> tunnel \<Rightarrow> proxy \<Rightarrow> proxy \<times> tunnel option" where
  "dialTunnel E t p =
    (let p = logAttempt t p in
     case (tunLease t, outReg p) of
       (Some l, Some r) \<Rightarrow>
         (case dialLease (dialsOf E) (rttOf E) (nowNS E) l r of
            (r, Failed) \<Rightarrow> (dialFailed E t (p\<lparr>outReg := Some (CloseLease l r)\<rparr>), None)
          | (r, Plain) \<Rightarrow> startRelay E t (p\<lparr>outReg := Some r\<rparr>)
          | (r, Through m) \<Rightarrow>
              startRelay E (t\<lparr>tunMember := Some m, meterTag := effectiveOutboundTag (outboundTag t) (Some (tTag (heap r ! fst (leases r ! m))))\<rparr>)
                (p\<lparr>outReg := Some r\<rparr>))
     | _ \<Rightarrow> if listens E then startRelay E t p else (dialFailed E t p, None))"

definition releaseRelayTrack :: "tunnel \<Rightarrow> proxy \<Rightarrow> proxy \<times> tunnel" where
  "releaseRelayTrack t p =
    (if relayReleased t then (p, t)
     else (p\<lparr>relayStreams := (if UserID (tunIdent t) = [] then relayStreams p else UserH2Streams.release (''user:'' @ UserID (tunIdent t)) (tunNet t) (relayStreams p)),
            outStreams := releaseOutbound (meterTag t) (tunNet t) (outStreams p)\<rparr>, t\<lparr>relayReleased := True\<rparr>))"

definition closeOpt :: "nat option \<Rightarrow> proxy \<Rightarrow> proxy" where
  "closeOpt l p = (case l of None \<Rightarrow> p | Some l \<Rightarrow> p\<lparr>outReg := map_option (CloseLease l) (outReg p)\<rparr>)"

text \<open>Closing the upstream connection releases the member it was dialled through; \<open>leasedPacketConn.Close\<close> also releases
  the lease of the dialer. The watchdogs close early, so it happens once or twice.\<close>

definition closeUpstream :: "tunnel \<Rightarrow> proxy \<Rightarrow> proxy \<times> tunnel" where
  "closeUpstream t p =
    (let p = closeOpt (tunMember t) p; p = (if tunNet t = ''udp'' then closeOpt (tunLease t) p else p) in (p, t\<lparr>upstreamClosed := True\<rparr>))"

definition meterTunnel :: "int \<Rightarrow> int \<Rightarrow> tunnel \<Rightarrow> proxy \<Rightarrow> proxy" where
  "meterTunnel up down t p =
    (case accounts p of
       None \<Rightarrow> p
     | Some a \<Rightarrow>
        let a = (if meterTag t \<noteq> [] then AddOutbound (meterTag t) up down a else a);
            a = (if tunNet t = ''udp'' \<and> UserID (tunIdent t) \<noteq> [] \<and> (up \<noteq> 0 \<or> down \<noteq> 0)
                 then Add (UserID (tunIdent t)) (SessionID (tunIdent t)) up down a else a)
        in p\<lparr>accounts := Some a\<rparr>)"

definition endTunnel :: "int \<Rightarrow> int \<Rightarrow> tunnel \<Rightarrow> proxy \<Rightarrow> proxy" where
  "endTunnel up down t p =
    (let p = meterTunnel up down t p;
         p = (if tunNet t = ''udp'' then p\<lparr>tunnelsUDPClosed := tunnelsUDPClosed p + 1\<rparr> else p);
         (p, t) = releaseRelayTrack t p;
         (p, t) = closeUpstream t p;
         p = (if tunNet t = ''udp'' then p else closeOpt (tunLease t) p)
     in releaseH2Track (tunIdent t) (tunNet t) p)"

end
