(* ===== verification/FragSizes.thy ===== *)
theory FragSizes
  imports Prelude
begin

text \<open>
  internal/transport/fragpoc/fragpoc.go: the limits of the fragmenting transport and how the configured numbers
  of workers, windows and payload bytes are brought into range.
\<close>

definition MaxPayload :: nat where "MaxPayload = 480"

definition MaxUpPayload :: nat where "MaxUpPayload = 640"

definition SIDLen :: nat where "SIDLen = 12"

definition ShortIDLen :: nat where "ShortIDLen = 8"

definition DownRequestSize :: nat where "DownRequestSize = 500"

definition maxPayload :: "int \<Rightarrow> nat" where
  "maxPayload n = (if n \<le> 0 \<or> n > int MaxPayload then MaxPayload else nat n)"

definition DefaultWorkers :: int where "DefaultWorkers = 64"

definition MaxWorkers :: int where "MaxWorkers = 120"

definition MaxDownWindow :: int where "MaxDownWindow = 16"

definition workerCount :: "int \<Rightarrow> int" where
  "workerCount n = (if n \<le> 0 then DefaultWorkers else if n > MaxWorkers then MaxWorkers else n)"

definition downWorkerCount :: "int \<Rightarrow> int" where
  "downWorkerCount workers =
    (if workers \<le> 1 then 1
     else let reserve = (if workers \<ge> 64 then workers div 5 else if workers \<ge> 32 then workers div 4 else if workers \<ge> 8 then 4 else if workers \<ge> 4 then 2 else 1);
              n = workers - reserve
          in if n < 1 then 1 else n)"

definition downWindowCount :: "int \<Rightarrow> int \<Rightarrow> int" where
  "downWindowCount workers configured =
    (if configured \<le> 0 then 1
     else let configured = (if configured > MaxDownWindow then MaxDownWindow else configured);
              downWorkers = downWorkerCount (workerCount workers);
              configured = (if configured > downWorkers then downWorkers else configured)
          in if configured < 1 then 1 else configured)"

text \<open>The window never exceeds the workers that can serve it, and a worker is always left for other operations
  unless there is only one.\<close>

lemma div_bounds: "5 * (w div 5) \<le> w" "w \<le> 5 * (w div 5) + 4" "4 * (w div 4) \<le> w" "w \<le> 4 * (w div 4) + 3" for w :: int
  by presburger+

lemma downWorkerCount_range:
  assumes "1 \<le> w" "w \<le> 120"
  shows "1 \<le> downWorkerCount w \<and> downWorkerCount w \<le> 96"
proof -
  show ?thesis using assms div_bounds [of w] unfolding downWorkerCount_def Let_def
    by (cases "w \<ge> 64"; cases "w \<ge> 32"; cases "w \<ge> 8"; cases "w \<ge> 4") simp_all
qed

lemma workerCount_range: "1 \<le> workerCount n \<and> workerCount n \<le> 120"
  by (simp add: workerCount_def DefaultWorkers_def MaxWorkers_def)

lemma downWorkerCount_bounds: "1 \<le> downWorkerCount (workerCount n) \<and> downWorkerCount (workerCount n) \<le> 96"
  using downWorkerCount_range workerCount_range by blast

lemma downWorkerCount_reserve: "1 < w \<Longrightarrow> downWorkerCount w < w"
proof -
  assume "1 < w"
  moreover note div_bounds [of w]
  ultimately show ?thesis unfolding downWorkerCount_def Let_def
    by (cases "w \<ge> 64"; cases "w \<ge> 32"; cases "w \<ge> 8"; cases "w \<ge> 4") simp_all
qed

lemma downWindowCount_bounds:
  "1 \<le> downWindowCount w c \<and> downWindowCount w c \<le> MaxDownWindow \<and> downWindowCount w c \<le> downWorkerCount (workerCount w)"
  using downWorkerCount_bounds [of w] by (simp add: downWindowCount_def MaxDownWindow_def Let_def)

lemma maxPayload_bounds: "1 \<le> maxPayload n \<and> maxPayload n \<le> MaxPayload"
  by (auto simp: maxPayload_def MaxPayload_def)

end
