(* ===== verification/DownScheduler.thy ===== *)
theory DownScheduler
  imports FragSizes
begin

text \<open>
  internal/transport/fragpoc/scheduler.go: which stream the next DOWN poll
  serves, how the window and the delay of a stream follow the outcome of its polls, and when a stream is
  given up. Streams are numbers; their scheduling fields are in a table. Each definition is one critical
  section. Times are nanoseconds; \<open>None\<close> is the zero time.
\<close>

section \<open>The scheduler\<close>

definition millisecond :: int where "millisecond = 1000000"

definition schedulerIdleInitial :: int where "schedulerIdleInitial = 100 * millisecond"

definition schedulerIdleMax :: int where "schedulerIdleMax = 2000 * millisecond"

definition schedulerErrorInitial :: int where "schedulerErrorInitial = 100 * millisecond"

definition schedulerErrorMax :: int where "schedulerErrorMax = 2000 * millisecond"

definition schedulerStuckTimeout :: int where "schedulerStuckTimeout = 75000 * millisecond"

definition schedulerAppStuckTimeout :: int where "schedulerAppStuckTimeout = 120000 * millisecond"

text \<open>The fields of a \<open>Conn\<close> the scheduler reads: \<open>dchLen\<close> and \<open>dchCap\<close> are the fill and the size of \<open>downCh\<close>, \<open>failed\<close> whether the
  stuck error was queued, \<open>connDone\<close> whether \<open>closeDone\<close> has run.\<close>

record schedConn =
  streamClosed :: bool
  streamEof :: bool
  schedInFlight :: int
  schedWindow :: int
  schedNextPoll :: "int option"
  schedIdleDelay :: int
  schedErrorDelay :: int
  schedLastProgress :: "int option"
  schedLastPayload :: "int option"
  dchLen :: int
  dchCap :: int
  failed :: bool
  connDone :: bool

record downScheduler =
  schedClosed :: bool
  nxt :: nat
  conns :: "nat list"
  act :: "nat set"
  tab :: "nat \<Rightarrow> schedConn"
  downWindow :: int

definition setConn :: "nat \<Rightarrow> (schedConn \<Rightarrow> schedConn) \<Rightarrow> downScheduler \<Rightarrow> downScheduler" where
  "setConn c f s = s\<lparr>tab := (tab s)(c := f (tab s c))\<rparr>"

definition addConn :: "int \<Rightarrow> nat \<Rightarrow> downScheduler \<Rightarrow> downScheduler" where
  "addConn now c s =
    (if schedClosed s \<or> streamClosed (tab s c) \<or> streamEof (tab s c) then s
     else if c \<in> act s then s
     else (setConn c (\<lambda>k. k\<lparr>schedIdleDelay := schedulerIdleInitial, schedErrorDelay := schedulerErrorInitial, schedNextPoll := None,
         schedInFlight := 0, schedWindow := 1, schedLastProgress := Some now, schedLastPayload := None\<rparr>) s)
       \<lparr>act := insert c (act s), conns := conns s @ [c]\<rparr>)"

definition stats :: "downScheduler \<Rightarrow> nat \<times> nat \<times> int" where
  "stats s = (card (act s), length (conns s), sum (\<lambda>c. schedInFlight (tab s c)) (act s))"

definition removeAtLocked :: "nat \<Rightarrow> downScheduler \<Rightarrow> downScheduler" where
  "removeAtLocked i s =
    (if i \<ge> length (conns s) then s
     else let s = s\<lparr>conns := take i (conns s) @ drop (i + 1) (conns s)\<rparr> in
       if length (conns s) = 0 then s\<lparr>nxt := 0\<rparr>
       else let s = (if nxt s > i then s\<lparr>nxt := nxt s - 1\<rparr> else s) in
         if nxt s \<ge> length (conns s) then s\<lparr>nxt := 0\<rparr> else s)"

text \<open>The loop that finds a stream and removes it.\<close>

primrec position :: "nat \<Rightarrow> nat list \<Rightarrow> nat option" where
  "position c [] = None"
| "position c (x # xs) = (if x = c then Some 0 else map_option Suc (position c xs))"

definition dropConn :: "nat \<Rightarrow> downScheduler \<Rightarrow> downScheduler" where
  "dropConn c s =
    (let s = s\<lparr>act := act s - {c}\<rparr> in
     case position c (conns s) of None \<Rightarrow> s | Some i \<Rightarrow> removeAtLocked i s)"

definition removeConn :: "nat \<Rightarrow> downScheduler \<Rightarrow> downScheduler" where
  "removeConn c s = (if c \<notin> act s then s else dropConn c s)"

definition closeScheduler :: "downScheduler \<Rightarrow> downScheduler" where
  "closeScheduler s = s\<lparr>schedClosed := True, act := {}, conns := []\<rparr>"

text \<open>\<open>Conn.closeDone\<close>.\<close>

definition closeDone :: "nat \<Rightarrow> downScheduler \<Rightarrow> downScheduler" where
  "closeDone c s = (if connDone (tab s c) then s else setConn c (\<lambda>k. k\<lparr>connDone := True\<rparr>) (removeConn c s))"

definition growDelay :: "int \<Rightarrow> int \<Rightarrow> int" where
  "growDelay current limit = (let current = (if current \<le> 0 then schedulerIdleInitial else current); n = current * 2 in if n > limit then limit else n)"

datatype pickResult = Picked nat | Earliest "int option"

text \<open>The window of a stream, brought into range.\<close>

definition clampWindow :: "nat \<Rightarrow> downScheduler \<Rightarrow> downScheduler" where
  "clampWindow c s =
    (let s = (if schedWindow (tab s c) \<le> 0 then setConn c (\<lambda>k. k\<lparr>schedWindow := 1\<rparr>) s else s) in
     if schedWindow (tab s c) > downWindow s then setConn c (\<lambda>k. k\<lparr>schedWindow := downWindow s\<rparr>) s else s)"

text \<open>The scan of \<open>pick\<close>: \<open>n\<close> streams were there at the start, less those removed on the way.\<close>

function scan :: "int \<Rightarrow> nat \<Rightarrow> nat \<Rightarrow> int option \<Rightarrow> downScheduler \<Rightarrow> downScheduler \<times> pickResult" where
  "scan now scanned n earliest s =
    (if scanned < n \<and> length (conns s) > 0 then
       let idx = (nxt s + scanned) mod length (conns s); c = conns s ! idx in
       if c \<notin> act s \<or> streamClosed (tab s c) \<or> streamEof (tab s c) then scan now scanned (n - 1) earliest (removeAtLocked idx s)
       else let s = clampWindow c s; k = tab s c in
         if schedInFlight k \<ge> schedWindow k then scan now (scanned + 1) n earliest s
         else if dchLen k + schedInFlight k \<ge> dchCap k then scan now (scanned + 1) n earliest s
         else case schedNextPoll k of
           Some t \<Rightarrow>
             if t > now then scan now (scanned + 1) n (case earliest of None \<Rightarrow> Some t | Some e \<Rightarrow> if t < e then Some t else Some e) s
             else ((setConn c (\<lambda>k. k\<lparr>schedInFlight := schedInFlight k + 1\<rparr>) s)\<lparr>nxt := (idx + 1) mod length (conns s)\<rparr>, Picked c)
         | None \<Rightarrow> ((setConn c (\<lambda>k. k\<lparr>schedInFlight := schedInFlight k + 1\<rparr>) s)\<lparr>nxt := (idx + 1) mod length (conns s)\<rparr>, Picked c)
     else (s, Earliest earliest))"
  by pat_completeness auto
termination
  by (relation "measure (\<lambda>(now, scanned, n, earliest, s). n - scanned)") auto

declare scan.simps [simp del]

datatype pickOutcome = Take nat | Stop | WaitCond | SleepFor int

text \<open>One round of \<open>pick\<close>: take a stream, stop, wait for a broadcast, or sleep.\<close>

definition pick :: "int \<Rightarrow> downScheduler \<Rightarrow> downScheduler \<times> pickOutcome" where
  "pick now s =
    (if \<not> schedClosed s \<and> length (conns s) = 0 then (s, WaitCond)
     else if schedClosed s then (s, Stop)
     else case scan now 0 (length (conns s)) None s of
       (s, Picked c) \<Rightarrow> (s, Take c)
     | (s, Earliest (Some t)) \<Rightarrow> (s, SleepFor (if t - now > 0 then t - now else 0))
     | (s, Earliest None) \<Rightarrow>
         if \<exists>c \<in> act s. schedInFlight (tab s c) > 0 then (s, WaitCond) else (s, SleepFor schedulerIdleInitial))"

datatype downPollOutcome = downPollData | downPollIdle | downPollEOF | downPollTransient | downPollFatal | downPollClosed

definition finish :: "int \<Rightarrow> nat \<Rightarrow> downPollOutcome \<Rightarrow> downScheduler \<Rightarrow> downScheduler" where
  "finish now c outcome s =
    (let s = (if schedInFlight (tab s c) > 0 then setConn c (\<lambda>k. k\<lparr>schedInFlight := schedInFlight k - 1\<rparr>) s else s) in
     if c \<notin> act s then s
     else case (case outcome of
         downPollData \<Rightarrow>
           (setConn c (\<lambda>k. let w = (if schedWindow k \<le> 0 then 1 else schedWindow k); w = (if w < downWindow s then w + 1 else w) in
              k\<lparr>schedWindow := w, schedIdleDelay := schedulerIdleInitial, schedErrorDelay := schedulerErrorInitial, schedNextPoll := Some now,
                schedLastProgress := Some now, schedLastPayload := Some now\<rparr>) s, False)
       | downPollIdle \<Rightarrow>
           (let s = setConn c (\<lambda>k. let delay = (if schedIdleDelay k \<le> 0 then schedulerIdleInitial else schedIdleDelay k) in
              k\<lparr>schedWindow := 1, schedErrorDelay := schedulerErrorInitial, schedNextPoll := Some (now + delay), schedIdleDelay := growDelay delay schedulerIdleMax,
                schedLastProgress := Some now, schedLastPayload := (case schedLastPayload k of None \<Rightarrow> Some now | Some t \<Rightarrow> Some t)\<rparr>) s;
              stuck = (now - the (schedLastPayload (tab s c)) \<ge> schedulerAppStuckTimeout)
            in (if stuck then dropConn c s else s, stuck))
       | downPollTransient \<Rightarrow>
           (let s = (if schedLastProgress (tab s c) = None then setConn c (\<lambda>k. k\<lparr>schedLastProgress := Some now\<rparr>) s else s) in
            if now - the (schedLastProgress (tab s c)) \<ge> schedulerStuckTimeout then (dropConn c s, True)
            else (setConn c (\<lambda>k. let delay = (if schedErrorDelay k \<le> 0 then schedulerErrorInitial else schedErrorDelay k) in
              k\<lparr>schedWindow := 1, schedIdleDelay := schedulerIdleInitial, schedNextPoll := Some (now + delay), schedErrorDelay := growDelay delay schedulerErrorMax\<rparr>) s, False))
       | _ \<Rightarrow> (dropConn c s, False))
     of (s, stuck) \<Rightarrow> if stuck then closeDone c (setConn c (\<lambda>k. k\<lparr>failed := True\<rparr>) s) else s)"

section \<open>The order of service\<close>

text \<open>The streams in the order in which the scan visits them.\<close>

definition order :: "downScheduler \<Rightarrow> nat list" where
  "order s = drop (nxt s) (conns s) @ take (nxt s) (conns s)"

definition in_range :: "downScheduler \<Rightarrow> bool" where
  "in_range s \<longleftrightarrow> (if conns s = [] then nxt s = 0 else nxt s < length (conns s))"

lemma in_range_le: "in_range s \<Longrightarrow> nxt s \<le> length (conns s)"
  by (simp add: in_range_def split: if_split_asm)

lemma length_order: "in_range s \<Longrightarrow> length (order s) = length (conns s)"
  using in_range_le by (simp add: order_def)

lemma set_order: "set (order s) = set (conns s)"
  unfolding order_def by (metis append_take_drop_id set_append sup_commute)

lemma distinct_order: "distinct (conns s) \<Longrightarrow> distinct (order s)"
  unfolding order_def by (metis append_take_drop_id distinct_append inf_commute)

text \<open>The scan position \<open>k\<close> in terms of the two halves of the list.\<close>

lemma order_split:
  assumes "in_range s" "k < length (conns s)"
  obtains (late) as b1 x b2 where "conns s = as @ b1 @ x # b2" "nxt s = length as" "order s = b1 @ x # b2 @ as" "k = length b1"
      "(nxt s + k) mod length (conns s) = length (as @ b1)"
    | (early) a1 x a2 bs where "conns s = a1 @ x # a2 @ bs" "nxt s = length (a1 @ x # a2)" "order s = bs @ a1 @ x # a2" "k = length (bs @ a1)" "bs \<noteq> []"
      "(nxt s + k) mod length (conns s) = length a1"
proof -
  define as where "as = take (nxt s) (conns s)"
  define bs where "bs = drop (nxt s) (conns s)"
  have n: "nxt s < length (conns s)" using assms by (auto simp: in_range_def split: if_split_asm)
  have c: "conns s = as @ bs" "nxt s = length as" "order s = bs @ as" "bs \<noteq> []" using n by (simp_all add: as_def bs_def order_def)
  show thesis
  proof (cases "k < length bs")
    case True
    then have "bs = take k bs @ bs ! k # drop (Suc k) bs" by (simp add: id_take_nth_drop)
    then show ?thesis using late [of as "take k bs" "bs ! k" "drop (Suc k) bs"] c True by simp
  next
    case False
    define j where "j = k - length bs"
    have j: "j < length as" "k = length bs + j" using False assms(2) c by (simp_all add: j_def)
    then have a: "as = take j as @ as ! j # drop (Suc j) as" by (simp add: id_take_nth_drop)
    have "(length as + (length bs + j)) mod (length as + length bs) = j" using j(1) by (simp flip: add.assoc)
    then show ?thesis using early [of "take j as" "as ! j" "drop (Suc j) as" bs] c j a by (metis (no_types, opaque_lifting) append.assoc append_Cons length_append length_take min.absorb4)
  qed
qed

lemma order_nth:
  assumes "in_range s" "k < length (conns s)"
  shows "conns s ! ((nxt s + k) mod length (conns s)) = order s ! k"
  using assms by (cases rule: order_split) (simp_all add: nth_append)

text \<open>Removing the stream that the scan has reached takes it out of the order and leaves the rest.\<close>

lemma remove_order:
  assumes "in_range s" "k < length (conns s)" "i = (nxt s + k) mod length (conns s)"
  shows "order (removeAtLocked i s) = take k (order s) @ drop (Suc k) (order s) \<and> in_range (removeAtLocked i s)"
  using assms(1,2)
proof (cases rule: order_split)
  case (late as b1 x b2)
  then have "take i (conns s) @ drop (i + 1) (conns s) = as @ b1 @ b2" using assms(3) by simp
  then show ?thesis using late assms(3) by (cases "b1 @ b2") (auto simp: removeAtLocked_def order_def in_range_def Let_def)
next
  case (early a1 x a2 bs)
  then have "take i (conns s) @ drop (i + 1) (conns s) = a1 @ a2 @ bs" using assms(3) by simp
  then show ?thesis using early assms(3) by (auto simp: removeAtLocked_def order_def in_range_def Let_def)
qed

lemma next_order:
  assumes "in_range s" "k < length (conns s)" "i = (nxt s + k) mod length (conns s)"
  shows "order (s\<lparr>nxt := (i + 1) mod length (conns s)\<rparr>) = drop (Suc k) (order s) @ take (Suc k) (order s) \<and>
    in_range (s\<lparr>nxt := (i + 1) mod length (conns s)\<rparr>)"
  using assms(1,2)
proof (cases rule: order_split)
  case (late as b1 x b2)
  then show ?thesis using assms(3) by (cases b2) (simp_all add: order_def in_range_def)
next
  case (early a1 x a2 bs)
  then have "(length a1 + 1) mod length (conns s) = length a1 + 1" by (cases bs) simp_all
  then show ?thesis using early assms(3) by (simp add: order_def in_range_def)
qed

definition live :: "downScheduler \<Rightarrow> nat \<Rightarrow> bool" where
  "live s c \<longleftrightarrow> c \<in> act s \<and> \<not> streamClosed (tab s c) \<and> \<not> streamEof (tab s c)"

definition windowOf :: "downScheduler \<Rightarrow> nat \<Rightarrow> int" where
  "windowOf s c = min (downWindow s) (if schedWindow (tab s c) \<le> 0 then 1 else schedWindow (tab s c))"

text \<open>A stream that may be polled now: live, with room in its window and its buffer, and its delay over.\<close>

definition eligible :: "int \<Rightarrow> downScheduler \<Rightarrow> nat \<Rightarrow> bool" where
  "eligible now s c \<longleftrightarrow> live s c \<and> schedInFlight (tab s c) < windowOf s c \<and> dchLen (tab s c) + schedInFlight (tab s c) < dchCap (tab s c) \<and>
    (case schedNextPoll (tab s c) of None \<Rightarrow> True | Some t \<Rightarrow> t \<le> now)"

text \<open>States that differ in the list of streams and in windows that are brought into range.\<close>

definition alike :: "downScheduler \<Rightarrow> downScheduler \<Rightarrow> bool" where
  "alike s t \<longleftrightarrow> act t = act s \<and> downWindow t = downWindow s \<and> schedClosed t = schedClosed s \<and>
    (\<forall>c. windowOf t c = windowOf s c \<and> (\<exists>w. tab t c = tab s c\<lparr>schedWindow := w\<rparr>))"

lemma window_same: "\<exists>w. k = k\<lparr>schedWindow := w\<rparr>"
  by (rule exI [of _ "schedWindow k"]) simp

lemma alike_refl [simp]: "alike s s"
  by (simp add: alike_def window_same)

lemma alike_trans:
  assumes "alike s t" "alike t u"
  shows "alike s u"
proof -
  have "\<exists>w. tab u c = tab s c\<lparr>schedWindow := w\<rparr>" for c
  proof -
    obtain v w where "tab t c = tab s c\<lparr>schedWindow := v\<rparr>" "tab u c = tab t c\<lparr>schedWindow := w\<rparr>" using assms unfolding alike_def by meson
    then show ?thesis by auto
  qed
  then show ?thesis using assms by (simp add: alike_def)
qed

lemma alike_views:
  assumes "alike s t"
  shows "live t c = live s c" "eligible now t c = eligible now s c" "schedInFlight (tab t c) = schedInFlight (tab s c)"
proof -
  obtain w where "tab t c = tab s c\<lparr>schedWindow := w\<rparr>" using assms by (auto simp: alike_def)
  then show "live t c = live s c" "schedInFlight (tab t c) = schedInFlight (tab s c)" "eligible now t c = eligible now s c"
    using assms by (simp_all add: alike_def live_def eligible_def)
qed

lemma remove_alike: "alike s (removeAtLocked i s)"
  by (auto simp: alike_def removeAtLocked_def windowOf_def Let_def window_same)

lemma clamp_fields [simp]:
  "conns (clampWindow c s) = conns s" "nxt (clampWindow c s) = nxt s" "act (clampWindow c s) = act s" "downWindow (clampWindow c s) = downWindow s"
  "schedWindow (tab (clampWindow c s) c) = windowOf s c"
  by (auto simp: clampWindow_def setConn_def windowOf_def Let_def)

lemma clamp_alike:
  assumes "1 \<le> downWindow s"
  shows "alike s (clampWindow c s)"
proof -
  have "\<exists>w. tab (clampWindow c s) d = tab s d\<lparr>schedWindow := w\<rparr>" for d
    by (cases "d = c") (auto simp: clampWindow_def setConn_def Let_def intro: exI [of _ "schedWindow (tab s d)"])
  moreover have "windowOf (clampWindow c s) d = windowOf s d" for d
    using assms by (cases "d = c") (auto simp: clampWindow_def setConn_def windowOf_def Let_def)
  ultimately show ?thesis by (simp add: alike_def clampWindow_def setConn_def Let_def)
qed

lemma clamp_order [simp]: "order (clampWindow c s) = order s" "in_range (clampWindow c s) = in_range s"
  by (simp_all add: order_def in_range_def)

text \<open>What a scan that has passed over \<open>k\<close> streams yields.\<close>

definition scan_spec :: "int \<Rightarrow> nat \<Rightarrow> downScheduler \<Rightarrow> downScheduler \<times> pickResult \<Rightarrow> bool" where
  "scan_spec now k s r \<longleftrightarrow>
    (case find (eligible now s) (drop k (order s)) of
       None \<Rightarrow> (\<exists>e. snd r = Earliest e) \<and> in_range (fst r) \<and> order (fst r) = take k (order s) @ filter (live s) (drop k (order s)) \<and> alike s (fst r)
     | Some c \<Rightarrow> snd r = Picked c \<and> in_range (fst r) \<and>
        (\<exists>pre suf t. drop k (order s) = pre @ c # suf \<and> order (fst r) = suf @ take k (order s) @ filter (live s) pre @ [c] \<and>
          alike s t \<and> tab (fst r) = (tab t)(c := tab t c\<lparr>schedInFlight := schedInFlight (tab t c) + 1\<rparr>) \<and> act (fst r) = act s \<and> downWindow (fst r) = downWindow s \<and>
          schedClosed (fst r) = schedClosed s))"

lemma scan_take:
  assumes "in_range s" "k < length (conns s)" "c = order s ! k" "alike s0 s" "order s = order s0" "eligible now s0 c"
  shows "scan_spec now k s0 ((setConn c (\<lambda>k. k\<lparr>schedInFlight := schedInFlight k + 1\<rparr>) s)\<lparr>nxt := ((nxt s + k) mod length (conns s) + 1) mod length (conns s)\<rparr>, Picked c)"
proof -
  let ?i = "(nxt s + k) mod length (conns s)"
  let ?r = "(setConn c (\<lambda>k. k\<lparr>schedInFlight := schedInFlight k + 1\<rparr>) s)\<lparr>nxt := (?i + 1) mod length (conns s)\<rparr>"
  have k: "k < length (order s0)" using assms(1,2,5) length_order by metis
  then have d: "drop k (order s0) = c # drop (Suc k) (order s0)" using assms(3,5) by (simp add: Cons_nth_drop_Suc)
  have "order ?r = order (s\<lparr>nxt := (?i + 1) mod length (conns s)\<rparr>)" "in_range ?r = in_range (s\<lparr>nxt := (?i + 1) mod length (conns s)\<rparr>)"
    by (simp_all add: order_def in_range_def setConn_def)
  then have "order ?r = drop (Suc k) (order s) @ take (Suc k) (order s)" "in_range ?r"
    using next_order [OF assms(1,2) refl] by simp_all
  moreover have "take (Suc k) (order s0) = take k (order s0) @ [c]" using k assms(3,5) by (simp add: take_Suc_conv_app_nth)
  ultimately have o: "in_range ?r" "order ?r = drop (Suc k) (order s0) @ take k (order s0) @ filter (live s0) [] @ [c]" using assms(5) by simp_all
  have t: "tab ?r = (tab s)(c := tab s c\<lparr>schedInFlight := schedInFlight (tab s c) + 1\<rparr>)" "act ?r = act s0" "downWindow ?r = downWindow s0" "schedClosed ?r = schedClosed s0"
    using assms(4) by (simp_all add: setConn_def alike_def)
  have f: "find (eligible now s0) (drop k (order s0)) = Some c" using d assms(6) by simp
  show ?thesis unfolding scan_spec_def f option.case fst_conv snd_conv
    by (intro conjI exI [of _ "[]"] exI [of _ "drop (Suc k) (order s0)"] exI [of _ s]) (use o t d assms(4) in \<open>simp_all only: append_Nil\<close>)
qed

lemma scan_spec_dead:
  assumes "scan_spec now k t r" "alike s t" "order t = take k (order s) @ drop (Suc k) (order s)" "k < length (order s)" "\<not> live s (order s ! k)"
  shows "scan_spec now k s r"
proof -
  let ?x = "order s ! k" and ?R = "drop (Suc k) (order s)"
  have d: "drop k (order s) = ?x # ?R" using assms(4) by (simp add: Cons_nth_drop_Suc)
  have t: "drop k (order t) = ?R" "take k (order t) = take k (order s)" using assms(3,4) by simp_all
  have v: "eligible now t = eligible now s" "live t = live s" using alike_views [OF assms(2)] by (auto simp: fun_eq_iff)
  have x: "\<not> eligible now s ?x" using assms(5) by (simp add: eligible_def)
  have f: "find (eligible now s) (drop k (order s)) = find (eligible now s) ?R" using d x by simp
  show ?thesis
  proof (cases "find (eligible now s) ?R")
    case None
    then show ?thesis using assms(1,5) alike_trans [OF assms(2)] unfolding scan_spec_def t v f by (simp add: d)
  next
    case (Some c)
    then obtain pre suf u where "?R = pre @ c # suf" "order (fst r) = suf @ take k (order s) @ filter (live s) pre @ [c]" "alike t u"
      and o: "tab (fst r) = (tab u)(c := tab u c\<lparr>schedInFlight := schedInFlight (tab u c) + 1\<rparr>)" "act (fst r) = act s" "downWindow (fst r) = downWindow s" "schedClosed (fst r) = schedClosed s"
        "snd r = Picked c" "in_range (fst r)"
      using assms(1,2) unfolding scan_spec_def t v by (auto simp: alike_def)
    then have "drop k (order s) = (?x # pre) @ c # suf" "order (fst r) = suf @ take k (order s) @ filter (live s) (?x # pre) @ [c]" "alike s u"
      using d assms(5) alike_trans [OF assms(2)] by simp_all
    then show ?thesis using Some o unfolding scan_spec_def f by (simp only: option.case) blast
  qed
qed

lemma scan_spec_pass:
  assumes "scan_spec now (Suc k) t r" "alike s t" "order t = order s" "k < length (order s)" "live s (order s ! k)" "\<not> eligible now s (order s ! k)"
  shows "scan_spec now k s r"
proof -
  let ?x = "order s ! k" and ?R = "drop (Suc k) (order s)"
  have d: "drop k (order s) = ?x # ?R" using assms(4) by (simp add: Cons_nth_drop_Suc)
  have t: "take (Suc k) (order s) = take k (order s) @ [?x]" using assms(4) by (simp add: take_Suc_conv_app_nth)
  have v: "eligible now t = eligible now s" "live t = live s" using alike_views [OF assms(2)] by (auto simp: fun_eq_iff)
  have f: "find (eligible now s) (drop k (order s)) = find (eligible now s) ?R" using d assms(6) by simp
  show ?thesis
  proof (cases "find (eligible now s) ?R")
    case None
    then show ?thesis using assms(1,5) alike_trans [OF assms(2)] unfolding scan_spec_def assms(3) t v f by (simp add: d)
  next
    case (Some c)
    then obtain pre suf u where "?R = pre @ c # suf" "order (fst r) = suf @ (take k (order s) @ [?x]) @ filter (live s) pre @ [c]" "alike t u"
      and o: "tab (fst r) = (tab u)(c := tab u c\<lparr>schedInFlight := schedInFlight (tab u c) + 1\<rparr>)" "act (fst r) = act s" "downWindow (fst r) = downWindow s" "schedClosed (fst r) = schedClosed s"
        "snd r = Picked c" "in_range (fst r)"
      using assms(1,2) unfolding scan_spec_def assms(3) t v by (auto simp: alike_def)
    then have "drop k (order s) = (?x # pre) @ c # suf" "order (fst r) = suf @ take k (order s) @ filter (live s) (?x # pre) @ [c]" "alike s u"
      using d assms(5) alike_trans [OF assms(2)] by simp_all
    then show ?thesis using Some o unfolding scan_spec_def f by (simp only: option.case) blast
  qed
qed

lemma scan_meets_spec:
  assumes "in_range s" "1 \<le> downWindow s" "k \<le> length (conns s)"
  shows "scan_spec now k s (scan now k (length (conns s)) e s)"
  using assms
proof (induction "length (conns s) - k" arbitrary: k e s)
  case 0
  then have "scan now k (length (conns s)) e s = (s, Earliest e)" by (simp add: scan.simps)
  then show ?case using 0 length_order [of s] by (simp add: scan_spec_def)
next
  case (Suc d)
  have k: "k < length (conns s)" "k < length (order s)" using Suc.hyps(2) length_order [OF Suc.prems(1)] by simp_all
  let ?i = "(nxt s + k) mod length (conns s)" and ?x = "order s ! k"
  have ne: "conns s \<noteq> []" and i: "?i < length (conns s)" using k(1) by (auto intro: mod_less_divisor)
  have x: "conns s ! ?i = ?x" using order_nth [OF Suc.prems(1) k(1)] .
  show ?case
  proof (cases "live s ?x")
    case False
    let ?t = "removeAtLocked ?i s"
    have l: "length (conns ?t) = length (conns s) - 1" using i by (auto simp: removeAtLocked_def Let_def)
    have t: "order ?t = take k (order s) @ drop (Suc k) (order s)" "in_range ?t" using remove_order [OF Suc.prems(1) k(1) refl] by simp_all
    have "scan now k (length (conns s)) e s = scan now k (length (conns ?t)) e ?t"
      using k(1) ne False x by (simp add: scan.simps [of now k "length (conns s)"] Let_def live_def l)
    moreover have "scan_spec now k ?t (scan now k (length (conns ?t)) e ?t)"
      using Suc.hyps(1) [of ?t k e] Suc.hyps(2) Suc.prems(2) l t(2) remove_alike [of s ?i] by (simp add: alike_def)
    ultimately show ?thesis using scan_spec_dead [OF _ remove_alike t(1) k(2) False] by simp
  next
    case True
    let ?t = "clampWindow ?x s"
    have a: "alike s ?t" using clamp_alike [OF Suc.prems(2)] .
    have tabx: "\<exists>w. tab ?t ?x = tab s ?x\<lparr>schedWindow := w\<rparr>" using a by (simp add: alike_def)
    show ?thesis
    proof (cases "eligible now s ?x")
      case el: True
      have "scan now k (length (conns s)) e s = ((setConn ?x (\<lambda>k. k\<lparr>schedInFlight := schedInFlight k + 1\<rparr>) ?t)\<lparr>nxt := (?i + 1) mod length (conns ?t)\<rparr>, Picked ?x)"
        using k(1) True x el tabx by (auto simp: scan.simps [of now k "length (conns s)"] Let_def live_def eligible_def split: option.splits)
      then show ?thesis using scan_take [of ?t k ?x s now] Suc.prems(1) k(1) a el by simp
    next
      case el: False
      have "\<exists>e'. scan now k (length (conns s)) e s = scan now (Suc k) (length (conns ?t)) e' ?t"
        using k(1) True x el tabx by (auto simp: scan.simps [of now k "length (conns s)"] Let_def live_def eligible_def split: option.splits)
      then obtain e' where "scan now k (length (conns s)) e s = scan now (Suc k) (length (conns ?t)) e' ?t" by blast
      moreover have "scan_spec now (Suc k) ?t (scan now (Suc k) (length (conns ?t)) e' ?t)"
        using Suc.hyps(1) [of ?t "Suc k" e'] Suc.hyps(2) Suc.prems k(1) by simp
      ultimately show ?thesis using scan_spec_pass [OF _ a _ k(2) True el] by simp
    qed
  qed
qed

section \<open>The state of the scheduler\<close>

definition flights_ok :: "downScheduler \<Rightarrow> bool" where
  "flights_ok s \<longleftrightarrow> (\<forall>c \<in> act s. 0 \<le> schedInFlight (tab s c) \<and> schedInFlight (tab s c) \<le> downWindow s)"

definition sched_inv :: "downScheduler \<Rightarrow> bool" where
  "sched_inv s \<longleftrightarrow> 1 \<le> downWindow s \<and> distinct (conns s) \<and> set (conns s) \<subseteq> act s \<and> (if schedClosed s then conns s = [] else in_range s) \<and> flights_ok s"

lemma remove_fields [simp]:
  "act (removeAtLocked i s) = act s" "tab (removeAtLocked i s) = tab s" "downWindow (removeAtLocked i s) = downWindow s" "schedClosed (removeAtLocked i s) = schedClosed s"
  by (simp_all add: removeAtLocked_def Let_def)

lemma remove_conns: "i < length (conns s) \<Longrightarrow> conns (removeAtLocked i s) = take i (conns s) @ drop (Suc i) (conns s)"
  by (auto simp: removeAtLocked_def Let_def)

lemma remove_in_range: "in_range s \<Longrightarrow> i < length (conns s) \<Longrightarrow> in_range (removeAtLocked i s)"
  by (auto simp: removeAtLocked_def in_range_def Let_def)

lemma position_Some: "position c xs = Some i \<Longrightarrow> i < length xs \<and> xs ! i = c"
  by (induction xs arbitrary: i) (auto split: if_split_asm)

lemma position_None: "position c xs = None \<longleftrightarrow> c \<notin> set xs"
  by (induction xs) auto

lemma remove_nth_set:
  assumes "distinct xs" "i < length xs"
  shows "distinct (take i xs @ drop (Suc i) xs) \<and> set (take i xs @ drop (Suc i) xs) = set xs - {xs ! i}"
proof -
  have e: "xs = take i xs @ xs ! i # drop (Suc i) xs" using assms(2) by (simp add: id_take_nth_drop)
  then have "distinct (take i xs @ xs ! i # drop (Suc i) xs)" using assms(1) by simp
  then have "distinct (take i xs @ drop (Suc i) xs)" "xs ! i \<notin> set (take i xs @ drop (Suc i) xs)" by auto
  moreover have "set xs = insert (xs ! i) (set (take i xs @ drop (Suc i) xs))" by (subst e) auto
  ultimately show ?thesis by auto
qed

lemma dropConn_fields [simp]:
  "act (dropConn c s) = act s - {c}" "tab (dropConn c s) = tab s" "downWindow (dropConn c s) = downWindow s" "schedClosed (dropConn c s) = schedClosed s"
  by (simp_all add: dropConn_def Let_def split: option.split)

lemma dropConn_conns:
  assumes "distinct (conns s)"
  shows "distinct (conns (dropConn c s)) \<and> set (conns (dropConn c s)) = set (conns s) - {c}"
proof (cases "position c (conns s)")
  case None
  then show ?thesis using assms position_None [THEN iffD1, OF None] by (simp add: dropConn_def Let_def)
next
  case (Some i)
  then show ?thesis using position_Some [OF Some] remove_nth_set [OF assms, of i] by (auto simp: dropConn_def Let_def remove_conns)
qed

lemma dropConn_in_range:
  assumes "in_range s"
  shows "in_range (dropConn c s)"
proof (cases "position c (conns s)")
  case None then show ?thesis using assms by (simp add: dropConn_def Let_def in_range_def)
next
  case (Some i)
  have "in_range (s\<lparr>act := act s - {c}\<rparr>)" using assms by (simp add: in_range_def)
  then show ?thesis using Some position_Some [OF Some] remove_in_range [of "s\<lparr>act := act s - {c}\<rparr>" i] by (simp add: dropConn_def Let_def)
qed

lemma dropConn_inv: "sched_inv s \<Longrightarrow> sched_inv (dropConn c s)"
  using dropConn_conns [of s c] dropConn_in_range [of s c] by (auto simp: sched_inv_def flights_ok_def)

lemma removeConn_inv: "sched_inv s \<Longrightarrow> sched_inv (removeConn c s)"
  by (simp add: removeConn_def dropConn_inv)

lemma setConn_fields [simp]:
  "conns (setConn c f s) = conns s" "nxt (setConn c f s) = nxt s" "act (setConn c f s) = act s" "downWindow (setConn c f s) = downWindow s"
  "schedClosed (setConn c f s) = schedClosed s" "tab (setConn c f s) c = f (tab s c)" "d \<noteq> c \<Longrightarrow> tab (setConn c f s) d = tab s d"
  by (simp_all add: setConn_def)

lemma in_range_setConn [simp]: "in_range (setConn c f s) = in_range s"
  by (simp add: in_range_def)

text \<open>A change of a stream's fields that keeps the number of its polls within the window.\<close>

lemma setConn_inv:
  assumes "sched_inv s" "c \<in> act s \<Longrightarrow> 0 \<le> schedInFlight (f (tab s c)) \<and> schedInFlight (f (tab s c)) \<le> downWindow s"
  shows "sched_inv (setConn c f s)"
proof -
  have "0 \<le> schedInFlight (tab (setConn c f s) d) \<and> schedInFlight (tab (setConn c f s) d) \<le> downWindow s" if "d \<in> act s" for d
    using assms that by (cases "d = c") (simp_all add: sched_inv_def flights_ok_def)
  then show ?thesis using assms(1) by (simp add: sched_inv_def flights_ok_def)
qed

lemma inv_flight: "sched_inv s \<Longrightarrow> c \<in> act s \<Longrightarrow> 0 \<le> schedInFlight (tab s c) \<and> schedInFlight (tab s c) \<le> downWindow s"
  by (simp add: sched_inv_def flights_ok_def)

lemma closeDone_inv: "sched_inv s \<Longrightarrow> sched_inv (closeDone c s)"
  unfolding closeDone_def using removeConn_inv [of s c] inv_flight [of "removeConn c s" c] by (simp add: setConn_inv)

lemma addConn_inv:
  assumes "sched_inv s"
  shows "sched_inv (addConn now c s)"
proof (cases "schedClosed s \<or> streamClosed (tab s c) \<or> streamEof (tab s c) \<or> c \<in> act s")
  case True then show ?thesis using assms by (auto simp: addConn_def)
next
  case False
  then have "c \<notin> set (conns s)" using assms by (auto simp: sched_inv_def)
  moreover have "0 \<le> schedInFlight (tab (addConn now c s) d) \<and> schedInFlight (tab (addConn now c s) d) \<le> downWindow s" if "d \<in> insert c (act s)" for d
    using False that assms by (cases "d = c") (auto simp: addConn_def sched_inv_def flights_ok_def)
  ultimately show ?thesis using False assms by (auto simp: sched_inv_def flights_ok_def addConn_def in_range_def split: if_split_asm)
qed

lemma close_inv: "sched_inv s \<Longrightarrow> sched_inv (closeScheduler s)"
  by (simp add: sched_inv_def closeScheduler_def flights_ok_def)

text \<open>The parts of \<open>finish\<close>.\<close>

lemma finish_inv:
  assumes "sched_inv s"
  shows "sched_inv (finish now c outcome s)"
proof -
  define t where "t = (if schedInFlight (tab s c) > 0 then setConn c (\<lambda>k. k\<lparr>schedInFlight := schedInFlight k - 1\<rparr>) s else s)"
  have t: "sched_inv t" unfolding t_def using assms inv_flight [OF assms, of c] by (auto intro!: setConn_inv)
  have keep: "sched_inv (setConn c f u)" if "sched_inv u" "\<And>k. schedInFlight (f k) = schedInFlight k" for f u
    using that inv_flight [OF that(1), of c] by (intro setConn_inv) simp_all
  show ?thesis
  proof (cases "c \<in> act t")
    case False
    then have "finish now c outcome s = t" unfolding finish_def Let_def t_def [symmetric] by simp
    then show ?thesis using t by simp
  next
    case True
    show ?thesis using True unfolding finish_def Let_def t_def [symmetric]
      by (cases outcome) (auto intro!: keep dropConn_inv closeDone_inv t simp: Let_def)
  qed
qed

lemma alike_inv:
  assumes "sched_inv s" "alike s t" "in_range t" "distinct (conns t)" "set (conns t) \<subseteq> act s" "\<not> schedClosed s"
  shows "sched_inv t"
  using assms alike_views(3) [OF assms(2)] by (simp add: sched_inv_def flights_ok_def alike_def)

text \<open>What \<open>pick\<close> does when it looks at the streams at all.\<close>

lemma pick_scan:
  assumes "sched_inv s" "\<not> schedClosed s" "conns s \<noteq> []"
  shows "case find (eligible now s) (order s) of
      Some c \<Rightarrow> \<exists>s' pre suf t. pick now s = (s', Take c) \<and> in_range s' \<and> order s = pre @ c # suf \<and> order s' = suf @ filter (live s) pre @ [c] \<and> \<not> schedClosed s' \<and>
        alike s t \<and> tab s' = (tab t)(c := tab t c\<lparr>schedInFlight := schedInFlight (tab t c) + 1\<rparr>) \<and> act s' = act s \<and> downWindow s' = downWindow s
    | None \<Rightarrow> \<exists>s' w. pick now s = (s', w) \<and> (\<forall>c. w \<noteq> Take c) \<and> w \<noteq> Stop \<and> in_range s' \<and> order s' = filter (live s) (order s) \<and> alike s s'"
proof -
  obtain s' res where r: "scan now 0 (length (conns s)) None s = (s', res)" by (cases "scan now 0 (length (conns s)) None s")
  have S: "scan_spec now 0 s (s', res)" using scan_meets_spec [of s 0 now None] assms r by (simp add: sched_inv_def)
  have p: "pick now s = (case (s', res) of (s, Picked c) \<Rightarrow> (s, Take c)
     | (s, Earliest (Some t)) \<Rightarrow> (s, SleepFor (if t - now > 0 then t - now else 0))
     | (s, Earliest None) \<Rightarrow> if \<exists>c \<in> act s. schedInFlight (tab s c) > 0 then (s, WaitCond) else (s, SleepFor schedulerIdleInitial))"
    using assms r by (simp add: pick_def)
  show ?thesis
  proof (cases "find (eligible now s) (order s)")
    case None
    then obtain e where "res = Earliest e" using S by (auto simp: scan_spec_def)
    then show ?thesis using None S p by (cases e) (auto simp: scan_spec_def)
  next
    case (Some d)
    then show ?thesis using S p assms(2) by (auto simp: scan_spec_def)
  qed
qed

lemma pick_inv:
  assumes "sched_inv s"
  shows "sched_inv (fst (pick now s))"
proof (cases "schedClosed s \<or> conns s = []")
  case True then show ?thesis using assms by (auto simp: pick_def)
next
  case False
  then have F: "\<not> schedClosed s" "conns s \<noteq> []" by simp_all
  have o: "distinct (order s)" "set (order s) \<subseteq> act s" using assms distinct_order set_order by (auto simp: sched_inv_def)
  have cs: "distinct (conns t) \<longleftrightarrow> distinct (order t)" for t
    unfolding order_def by (metis append_take_drop_id distinct_append inf_commute)
  note P = pick_scan [OF assms F, of now]
  show ?thesis
  proof (cases "find (eligible now s) (order s)")
    case None
    then obtain s' w where "pick now s = (s', w)" "in_range s'" "order s' = filter (live s) (order s)" "alike s s'" using P by auto
    then show ?thesis using alike_inv [OF assms, of s'] F(1) o cs [of s'] set_order [of s'] by auto
  next
    case (Some c)
    then obtain s' pre suf t where s': "pick now s = (s', Take c)" "in_range s'" "order s = pre @ c # suf" "order s' = suf @ filter (live s) pre @ [c]" "\<not> schedClosed s'"
        "alike s t" "tab s' = (tab t)(c := tab t c\<lparr>schedInFlight := schedInFlight (tab t c) + 1\<rparr>)" "act s' = act s" "downWindow s' = downWindow s" using P by auto
    have "eligible now s c" using Some by (auto simp: find_Some_iff)
    then have fl: "schedInFlight (tab s c) + 1 \<le> downWindow s" by (simp add: eligible_def windowOf_def)
    have "0 \<le> schedInFlight (tab s' d) \<and> schedInFlight (tab s' d) \<le> downWindow s" if "d \<in> act s" for d
      using inv_flight [OF assms that] fl s'(7) alike_views(3) [OF s'(6), of d] by (cases "d = c") simp_all
    then have f: "flights_ok s'" using s'(8,9) by (simp add: flights_ok_def)
    have "distinct (order s')" "set (order s') \<subseteq> act s" using o s'(3,4) by auto
    then have "distinct (conns s')" "set (conns s') \<subseteq> act s'" unfolding cs set_order [symmetric] s'(8) by simp_all
    then show ?thesis using f assms s'(1,2,5,9) by (simp add: sched_inv_def)
  qed
qed

inductive sched_step :: "downScheduler \<Rightarrow> downScheduler \<Rightarrow> bool" where
  added: "sched_step s (addConn now c s)"
| dropped: "sched_step s (closeDone c s)"
| taken: "sched_step s (fst (pick now s))"
| answered: "sched_step s (finish now c outcome s)"
| shut: "sched_step s (closeScheduler s)"
| stream: "(\<And>k. schedInFlight (f k) = schedInFlight k) \<Longrightarrow> sched_step s (setConn c f s)"

definition newDownScheduler :: "int \<Rightarrow> (nat \<Rightarrow> schedConn) \<Rightarrow> downScheduler" where
  "newDownScheduler w t = \<lparr>schedClosed = False, nxt = 0, conns = [], act = {}, tab = t, downWindow = w\<rparr>"

inductive sched_reach :: "downScheduler \<Rightarrow> bool" where
  start: "sched_reach (newDownScheduler (downWindowCount workers configured) t)"
| step: "sched_reach s \<Longrightarrow> sched_step s s' \<Longrightarrow> sched_reach s'"

lemma sched_reach_inv: "sched_reach s \<Longrightarrow> sched_inv s"
proof (induction rule: sched_reach.induct)
  case (start workers configured t)
  then show ?case using downWindowCount_bounds [of workers configured] by (simp add: sched_inv_def newDownScheduler_def in_range_def flights_ok_def)
next
  case (step s s')
  from step.hyps(2) step.IH show ?case
  proof (induction rule: sched_step.induct)
    case (stream f s c) then show ?case using inv_flight [of s c] by (intro setConn_inv) simp_all
  qed (auto intro: addConn_inv closeDone_inv pick_inv finish_inv close_inv setConn_inv dest: inv_flight)
qed

text \<open>Streams are served in turn: a worker that looks for work takes the first stream, in the order that starts after the last
  one served, that is live, has room in its window and its buffer and whose delay is over; that stream then
  goes to the end of the order, streams it passed over keep their places, dead ones leave, and every
  other stream that was ready moves up. So a stream that stays ready is served within as many picks as there
  are streams. When none is ready the worker waits or sleeps and takes none.\<close>

lemma scheduler_serves_in_turn:
  assumes "sched_reach s" "\<not> schedClosed s" "conns s \<noteq> []"
  shows "case find (eligible now s) (order s) of
      Some c \<Rightarrow> \<exists>s' pre suf. pick now s = (s', Take c) \<and> order s = pre @ c # suf \<and> order s' = suf @ filter (live s) pre @ [c] \<and>
        (\<forall>d \<in> set (order s). eligible now s d \<and> d \<noteq> c \<longrightarrow> d \<in> set suf) \<and>
        schedInFlight (tab s' c) = schedInFlight (tab s c) + 1 \<and> schedInFlight (tab s' c) \<le> downWindow s
    | None \<Rightarrow> \<exists>s' w. pick now s = (s', w) \<and> (\<forall>c. w \<noteq> Take c) \<and> w \<noteq> Stop \<and> order s' = filter (live s) (order s)"
proof -
  have inv: "sched_inv s" using assms(1) by (rule sched_reach_inv)
  note P = pick_scan [OF inv assms(2,3), of now]
  show ?thesis
  proof (cases "find (eligible now s) (order s)")
    case None then show ?thesis using P by auto
  next
    case (Some c)
    then obtain s' pre suf t where s': "pick now s = (s', Take c)" "order s = pre @ c # suf" "order s' = suf @ filter (live s) pre @ [c]"
        "alike s t" "tab s' = (tab t)(c := tab t c\<lparr>schedInFlight := schedInFlight (tab t c) + 1\<rparr>)" using P by auto
    have e: "eligible now s c" using Some by (auto simp: find_Some_iff)
    have "\<forall>d \<in> set pre. \<not> eligible now s d"
    proof -
      have "distinct (order s)" using inv distinct_order by (simp add: sched_inv_def)
      moreover obtain i where "i < length (order s)" "order s ! i = c" "\<forall>j<i. \<not> eligible now s (order s ! j)" using Some by (auto simp: find_Some_iff)
      moreover have "i = length pre" using calculation s'(2) nth_eq_iff_index_eq [of "order s" i "length pre"] by simp
      ultimately show ?thesis using s'(2) by (auto simp: in_set_conv_nth nth_append)
    qed
    then have "\<forall>d \<in> set (order s). eligible now s d \<and> d \<noteq> c \<longrightarrow> d \<in> set suf" using s'(2) by auto
    moreover have "schedInFlight (tab s' c) = schedInFlight (tab s c) + 1" using s'(5) alike_views(3) [OF s'(4)] by simp
    moreover have "schedInFlight (tab s c) + 1 \<le> downWindow s" using e by (simp add: eligible_def windowOf_def)
    ultimately show ?thesis using Some s'(1-3) by (simp, blast)
  qed
qed

definition idleStream :: schedConn where
  "idleStream = \<lparr>streamClosed = False, streamEof = False, schedInFlight = 0, schedWindow = 0, schedNextPoll = None, schedIdleDelay = 0, schedErrorDelay = 0,
     schedLastProgress = None, schedLastPayload = None, dchLen = 0, dchCap = 8, failed = False, connDone = False\<rparr>"

definition twoStreams :: downScheduler where
  "twoStreams = addConn 0 2 (addConn 0 1 (newDownScheduler (downWindowCount 64 4) (\<lambda>c. idleStream)))"

lemma scheduler_serves_in_turn_witness:
  "\<exists>s'. pick 5 twoStreams = (s', Take 1) \<and> order s' = [2, 1] \<and> schedInFlight (tab s' 1) = 1"
proof -
  have r: "sched_reach twoStreams" unfolding twoStreams_def by (intro sched_reach.step [OF _ sched_step.added] sched_reach.start)
  have w: "downWindowCount 64 4 = 4" by code_simp
  have o: "order twoStreams = [1, 2]" "\<not> schedClosed twoStreams" "conns twoStreams \<noteq> []" "schedInFlight (tab twoStreams 1) = 0"
    by (simp_all add: twoStreams_def w order_def addConn_def newDownScheduler_def idleStream_def setConn_def)
  have "eligible 5 twoStreams 1" by (simp add: eligible_def live_def windowOf_def twoStreams_def w addConn_def newDownScheduler_def idleStream_def setConn_def)
  then have "find (eligible 5 twoStreams) (order twoStreams) = Some 1" using o(1) by simp
  then obtain s' pre suf where "pick 5 twoStreams = (s', Take 1)" "[1, 2] = pre @ 1 # suf" "order s' = suf @ filter (live twoStreams) pre @ [1]" "schedInFlight (tab s' 1) = 1"
    using scheduler_serves_in_turn [OF r o(2,3), of 5] o(1,4) by auto
  moreover have "pre = []" using calculation(2) by (cases pre) (auto simp: Cons_eq_append_conv)
  ultimately show ?thesis by simp
qed

text \<open>A stream that has seen nothing but transient failures for 75 seconds is failed and forgotten; before that it is polled again
  within two seconds.\<close>

lemma transient_outcome:
  assumes "sched_inv s" "c \<in> act s" "\<not> connDone (tab s c)" "schedLastProgress (tab s c) = Some p" "schedErrorDelay (tab s c) \<le> schedulerErrorMax"
  shows "let t = finish now c downPollTransient s in
    if now - p \<ge> schedulerStuckTimeout then c \<notin> act t \<and> c \<notin> set (conns t) \<and> failed (tab t c) \<and> connDone (tab t c)
    else c \<in> act t \<and> (\<exists>q. schedNextPoll (tab t c) = Some q \<and> now < q \<and> q \<le> now + schedulerErrorMax) \<and> schedErrorDelay (tab t c) \<le> schedulerErrorMax"
proof -
  define s0 where "s0 = (if schedInFlight (tab s c) > 0 then setConn c (\<lambda>k. k\<lparr>schedInFlight := schedInFlight k - 1\<rparr>) s else s)"
  have f: "act s0 = act s" "distinct (conns s0)" "schedLastProgress (tab s0 c) = Some p" "connDone (tab s0 c) = connDone (tab s c)" "schedErrorDelay (tab s0 c) = schedErrorDelay (tab s c)"
    using assms by (simp_all add: s0_def sched_inv_def)
  show ?thesis
  proof (cases "now - p \<ge> schedulerStuckTimeout")
    case True
    then have "finish now c downPollTransient s = closeDone c (setConn c (\<lambda>k. k\<lparr>failed := True\<rparr>) (dropConn c s0))"
      using assms(2) f unfolding finish_def Let_def s0_def [symmetric] by simp
    then show ?thesis using True assms(3) f dropConn_conns [OF f(2), of c] by (simp add: closeDone_def removeConn_def)
  next
    case False
    then show ?thesis using assms(2,5) f unfolding finish_def Let_def s0_def [symmetric]
      by (simp add: growDelay_def Let_def schedulerErrorMax_def schedulerErrorInitial_def millisecond_def)
  qed
qed

end
