(* ===== verification/StreamFraming.thy ===== *)
theory StreamFraming
  imports Prelude
begin

text \<open>
  Messages over byte streams. The contract \<open>stream_codec\<close> says that a reader takes back exactly one
  encoded message and leaves the rest of the stream; its two providers are the frames of the
  stream multiplexer (internal/transport/vkturn/mux.go, server.go) and the datagram framing of
  pkg/tamizdat/udp_packetconn.go. A stream is the list of bytes still to be read followed by
  end of file; \<open>io.ReadFull\<close> is \<open>read_full\<close>.
\<close>

datatype ioError = EOF | ErrUnexpectedEOF | ErrProtocol | ErrClosed | ErrShortBuffer | ErrTimeout | ErrTooLarge | ErrWrongTarget

definition read_full :: "nat \<Rightarrow> bytes \<Rightarrow> (ioError, bytes \<times> bytes) gores" where
  "read_full n s = (if n \<le> length s then GoOk (take n s, drop n s)
     else GoErr (if s = [] then EOF else ErrUnexpectedEOF))"

section \<open>The contract\<close>

primrec read_many :: "(bytes \<Rightarrow> (ioError, 'f \<times> bytes) gores) \<Rightarrow> nat \<Rightarrow> bytes \<Rightarrow> (ioError, 'f list \<times> bytes) gores" where
  "read_many rd 0 s = GoOk ([], s)"
| "read_many rd (Suc n) s = go_bind (rd s) (\<lambda>(f, s'). go_bind (read_many rd n s') (\<lambda>(fs, s''). GoOk (f # fs, s'')))"

locale stream_codec =
  fixes enc :: "'f \<Rightarrow> bytes" and rd :: "bytes \<Rightarrow> (ioError, 'f \<times> bytes) gores" and ok :: "'f \<Rightarrow> bool"
  assumes read_enc: "ok f \<Longrightarrow> rd (enc f @ rest) = GoOk (f, rest)"
    and read_end: "rd [] = GoErr EOF"
begin

lemma read_many_enc:
  "list_all ok fs \<Longrightarrow> read_many rd (length fs) (concat (map enc fs) @ rest) = GoOk (fs, rest)"
  by (induction fs) (simp_all add: read_enc)

text \<open>No message is a prefix of the stream of another list of messages: the framing is unambiguous.\<close>

lemma enc_nonempty: "ok f \<Longrightarrow> enc f \<noteq> []"
  using read_enc [of f "[]"] read_end by auto

lemma framing_unique:
  "list_all ok fs \<Longrightarrow> list_all ok gs \<Longrightarrow> concat (map enc fs) = concat (map enc gs) \<Longrightarrow> fs = gs"
proof (induction fs arbitrary: gs)
  case Nil
  then show ?case using enc_nonempty by (cases gs) auto
next
  case (Cons f fs)
  then obtain g gs' where g: "gs = g # gs'" using enc_nonempty by (cases gs) auto
  have e: "enc f @ concat (map enc fs) = enc g @ concat (map enc gs')"
    using Cons.prems(3) g by simp
  have "rd (enc f @ concat (map enc fs)) = GoOk (f, concat (map enc fs))"
    by (rule read_enc) (use Cons.prems in simp)
  moreover have "rd (enc g @ concat (map enc gs')) = GoOk (g, concat (map enc gs'))"
    by (rule read_enc) (use Cons.prems g in simp)
  ultimately have "f = g" "concat (map enc fs) = concat (map enc gs')"
    unfolding e by simp_all
  with Cons.IH [of gs'] Cons.prems g show ?case by simp
qed

end

section \<open>The multiplexer's frames\<close>

record frame =
  ftype :: byte
  streamID :: "32 word"
  payload :: bytes

definition frameHello :: byte where "frameHello = 0x01"
definition frameOpen :: byte where "frameOpen = 0x10"
definition frameOpenOK :: byte where "frameOpenOK = 0x11"
definition frameOpenErr :: byte where "frameOpenErr = 0x12"
definition frameData :: byte where "frameData = 0x20"
definition frameClose :: byte where "frameClose = 0x21"
definition framePing :: byte where "framePing = 0x30"

definition encodeFrame :: "byte \<Rightarrow> 32 word \<Rightarrow> bytes \<Rightarrow> (ioError, bytes) gores" where
  "encodeFrame ty sid p =
    (if length p > 0xffff then GoErr ErrTooLarge
     else GoOk (ty # put32 sid @ put16 (length p) @ p))"

definition decodeFrame :: "bytes \<Rightarrow> (ioError, frame) gores" where
  "decodeFrame buf =
    (if length buf < 7 then GoErr ErrProtocol
     else go_bind (idx buf 5) (\<lambda>h. go_bind (idx buf 6) (\<lambda>l. let n = be16 h l in
       if length buf < 7 + n then GoErr ErrProtocol
       else go_bind (subslice buf 7 (7 + n)) (\<lambda>p. go_bind (idx buf 0) (\<lambda>t. go_bind (subslice buf 1 5) (\<lambda>sid.
         GoOk \<lparr>ftype = t, streamID = be32 sid, payload = p\<rparr>))))))"

definition readRawFrame :: "bytes \<Rightarrow> (ioError, frame \<times> bytes) gores" where
  "readRawFrame s =
    go_bind (read_full 7 s) (\<lambda>(hdr, s). go_bind (idx hdr 5) (\<lambda>h. go_bind (idx hdr 6) (\<lambda>l.
      let n = be16 h l in
      go_bind (if n > 0 then read_full n s else GoOk ([], s)) (\<lambda>(body, s).
        go_bind (decodeFrame (hdr @ body)) (\<lambda>f. GoOk (f, s))))))"

definition frame_bytes :: "frame \<Rightarrow> bytes" where
  "frame_bytes f = ftype f # put32 (streamID f) @ put16 (length (payload f)) @ payload f"

definition frame_ok :: "frame \<Rightarrow> bool" where
  "frame_ok f = (length (payload f) \<le> 0xffff)"

definition DefaultMaxFramePayload :: nat where "DefaultMaxFramePayload = 1150"

definition maxFramePayload :: "int \<Rightarrow> nat" where
  "maxFramePayload n = (if n \<le> 0 \<or> n > int DefaultMaxFramePayload then DefaultMaxFramePayload
     else if n < 256 then 256 else nat n)"

text \<open>The loop of \<open>muxStream.Write\<close>: the frames written for the bytes not yet sent.\<close>

function muxWrite :: "nat \<Rightarrow> 32 word \<Rightarrow> bytes \<Rightarrow> frame list" where
  "muxWrite mx sid p =
    (if p = [] \<or> mx = 0 then []
     else let n = (if length p > mx then mx else length p) in
       \<lparr>ftype = frameData, streamID = sid, payload = take n p\<rparr> # muxWrite mx sid (drop n p))"
  by pat_completeness auto
termination
  by (relation "measure (\<lambda>(mx, sid, p). length p)") auto

declare muxWrite.simps [simp del]

section \<open>Datagrams over a stream\<close>

text \<open>\<open>udpFramedPacketConn\<close>: \<open>inbuf\<close> is what the stream will deliver, \<open>outbuf\<close> what was written to it;
  the deadlines are nanoseconds, 0 for none; addresses are their string forms.\<close>

record udpFramedPacketConn =
  inbuf :: bytes
  outbuf :: bytes
  target :: "string option"
  is_closed :: bool
  rdl :: int
  wdl :: int

text \<open>The drain loop for a datagram larger than the caller's buffer: \<open>remaining\<close> bytes in chunks of
  at most 4096, copied while the buffer has room.\<close>

function drainLoop :: "nat \<Rightarrow> bytes \<Rightarrow> nat \<Rightarrow> bytes \<Rightarrow> (ioError, bytes \<times> bytes) gores" where
  "drainLoop cap got remaining s =
    (if remaining = 0 then GoOk (got, s)
     else let chunk = (if remaining > 4096 then 4096 else remaining) in
       go_bind (read_full chunk s) (\<lambda>(b, s').
         drainLoop cap (if length got < cap then got @ take (cap - length got) b else got) (remaining - chunk) s'))"
  by pat_completeness auto
termination
  by (relation "measure (\<lambda>(cap, got, remaining, s). remaining)") auto

declare drainLoop.simps [simp del]

text \<open>\<open>ReadFrom(p)\<close> with \<open>len(p) = cap\<close>: the bytes stored in \<open>p\<close>, the error if any, the state after.
  On every error path of the code the count is 0, except for a short buffer.\<close>

definition ReadFrom :: "int \<Rightarrow> nat \<Rightarrow> udpFramedPacketConn \<Rightarrow> (ioError, bytes \<times> ioError option \<times> udpFramedPacketConn) gores" where
  "ReadFrom now cap c =
    (if is_closed c then GoErr ErrClosed
     else if rdl c \<noteq> 0 \<and> rdl c \<le> now then GoErr ErrTimeout
     else go_bind (read_full 2 (inbuf c)) (\<lambda>(hdr, s). go_bind (idx hdr 0) (\<lambda>h. go_bind (idx hdr 1) (\<lambda>l.
       let n = be16 h l in
       if n > cap then go_bind (drainLoop cap [] n s) (\<lambda>(b, s'). GoOk (b, Some ErrShortBuffer, c\<lparr>inbuf := s'\<rparr>))
       else go_bind (read_full n s) (\<lambda>(b, s'). GoOk (b, None, c\<lparr>inbuf := s'\<rparr>))))))"

definition WriteTo :: "int \<Rightarrow> bytes \<Rightarrow> string option \<Rightarrow> udpFramedPacketConn \<Rightarrow> (ioError, nat \<times> udpFramedPacketConn) gores" where
  "WriteTo now p addr c =
    (if is_closed c then GoErr ErrClosed
     else if length p > 65000 then GoErr ErrTooLarge
     else if (case (addr, target c) of (Some a, Some t) \<Rightarrow> to_lower a \<noteq> to_lower t | _ \<Rightarrow> False) then GoErr ErrWrongTarget
     else if wdl c \<noteq> 0 \<and> wdl c \<le> now then GoErr ErrTimeout
     else GoOk (length p, c\<lparr>outbuf := outbuf c @ put16 (length p) @ p\<rparr>))"

definition CloseConn :: "udpFramedPacketConn \<Rightarrow> udpFramedPacketConn" where
  "CloseConn c = c\<lparr>is_closed := True\<rparr>"

definition datagram_bytes :: "bytes \<Rightarrow> bytes" where
  "datagram_bytes p = put16 (length p) @ p"

definition read_datagram :: "bytes \<Rightarrow> (ioError, bytes \<times> bytes) gores" where
  "read_datagram s = go_bind (ReadFrom 0 65535 \<lparr>inbuf = s, outbuf = [], target = None, is_closed = False, rdl = 0, wdl = 0\<rparr>)
     (\<lambda>(b, e, c). GoOk (b, inbuf c))"

section \<open>The frames implement the contract\<close>

lemma read_full_append [simp]: "read_full (length a) (a @ b) = GoOk (a, b)"
  by (simp add: read_full_def)

lemma header_split:
  assumes "length (payload f) \<le> 0xffff"
  shows "read_full 7 (frame_bytes f @ rest) = GoOk (ftype f # put32 (streamID f) @ put16 (length (payload f)), payload f @ rest)"
  by (simp add: read_full_def frame_bytes_def put32_def put16_def)

lemma decodeFrame_bytes: "frame_ok f \<Longrightarrow> decodeFrame (frame_bytes f) = GoOk f"
proof -
  assume "frame_ok f"
  then have l: "length (payload f) < 65536" by (simp add: frame_ok_def)
  have "(idx (frame_bytes f) 5 :: (ioError, byte) gores) = GoOk (word_of_nat (drop_bit 8 (length (payload f))))"
    "(idx (frame_bytes f) 6 :: (ioError, byte) gores) = GoOk (word_of_nat (length (payload f)))"
    "(idx (frame_bytes f) 0 :: (ioError, byte) gores) = GoOk (ftype f)"
    by (simp_all add: idx_def frame_bytes_def put32_def put16_def)
  moreover have "(subslice (frame_bytes f) 1 5 :: (ioError, bytes) gores) = GoOk (put32 (streamID f))"
    "(subslice (frame_bytes f) 7 (7 + length (payload f)) :: (ioError, bytes) gores) = GoOk (payload f)"
    "length (frame_bytes f) = 7 + length (payload f)"
    by (simp_all add: subslice_def frame_bytes_def put32_def put16_def)
  moreover have "be32 (put32 v) = v" for v
    using be32_put32 [of v "[]"] by simp
  ultimately show ?thesis
    using l by (simp add: decodeFrame_def be_simps Let_def)
qed

lemma readRawFrame_bytes: "frame_ok f \<Longrightarrow> readRawFrame (frame_bytes f @ rest) = GoOk (f, rest)"
proof -
  assume f: "frame_ok f"
  let ?hdr = "ftype f # put32 (streamID f) @ put16 (length (payload f))"
  have i: "(idx ?hdr 5 :: (ioError, byte) gores) = GoOk (word_of_nat (drop_bit 8 (length (payload f))))"
    "(idx ?hdr 6 :: (ioError, byte) gores) = GoOk (word_of_nat (length (payload f)))"
    by (simp_all add: idx_def put32_def put16_def)
  have l: "length (payload f) < 65536" using f by (simp add: frame_ok_def)
  have "readRawFrame (frame_bytes f @ rest) =
      go_bind (if length (payload f) > 0 then GoOk (payload f, rest) else GoOk ([], rest))
        (\<lambda>(body, s). go_bind (decodeFrame (?hdr @ body)) (\<lambda>f. GoOk (f, s)))"
    using header_split [of f rest] f l unfolding readRawFrame_def
    by (simp only: i be_simps Let_def frame_ok_def go_bind.simps prod.case) (simp add: be_simps)
  then show ?thesis
    using decodeFrame_bytes [OF f] by (cases "payload f = []") (simp_all add: frame_bytes_def)
qed

interpretation vk: stream_codec frame_bytes readRawFrame frame_ok
  by unfold_locales (simp_all add: readRawFrame_bytes, simp add: readRawFrame_def read_full_def)

lemma muxWrite_frames:
  "0 < mx \<Longrightarrow> mx \<le> 0xffff \<Longrightarrow> concat (map payload (muxWrite mx sid p)) = p \<and>
     list_all (\<lambda>f. frame_ok f \<and> 0 < length (payload f) \<and> length (payload f) \<le> mx \<and> streamID f = sid \<and> ftype f = frameData) (muxWrite mx sid p)"
proof (induction mx sid p rule: muxWrite.induct)
  case (1 mx sid p)
  then show ?case
    by (subst (1 2) muxWrite.simps) (auto simp: Let_def frame_ok_def)
qed

section \<open>The datagrams implement the contract\<close>

lemma drainLoop_all:
  "remaining \<le> length s \<Longrightarrow> length got \<le> cap \<Longrightarrow> drainLoop cap got remaining s = GoOk (take cap (got @ take remaining s), drop remaining s)"
proof (induction cap got remaining s rule: drainLoop.induct)
  case (1 cap got remaining s)
  show ?case
  proof (cases "remaining = 0")
    case True
    then show ?thesis using 1 by (subst drainLoop.simps) simp
  next
    case False
    define chunk where "chunk = (if remaining > 4096 then 4096 else remaining)"
    define got' where "got' = (if length got < cap then got @ take (cap - length got) (take chunk s) else got)"
    have c: "chunk \<le> remaining" "0 < chunk" using False by (auto simp: chunk_def)
    have g: "got' = take cap (got @ take chunk s)" using "1.prems" by (auto simp: got'_def)
    have "drainLoop cap got remaining s = drainLoop cap got' (remaining - chunk) (drop chunk s)"
      using False c "1.prems" by (subst drainLoop.simps) (simp add: Let_def read_full_def got'_def flip: chunk_def)
    also have "\<dots> = GoOk (take cap (got' @ take (remaining - chunk) (drop chunk s)), drop (remaining - chunk) (drop chunk s))"
      using False c "1.prems" g unfolding got'_def chunk_def
      by (intro "1.IH") (auto simp: read_full_def)
    also have "take cap (got' @ take (remaining - chunk) (drop chunk s)) = take cap (got @ take remaining s)"
      using c take_add [of chunk "remaining - chunk" s] unfolding g by (simp add: min_def) linarith
    finally show ?thesis using c by simp
  qed
qed

lemma be16_two: "n < 65536 \<Longrightarrow> be16 (word_of_nat (drop_bit 8 n)) (word_of_nat n) = n"
  by (simp add: be_simps)

lemma ReadFrom_datagram:
  assumes "length d < 65536" "\<not> is_closed c" "rdl c = 0 \<or> now < rdl c" "inbuf c = datagram_bytes d @ rest"
  shows "ReadFrom now cap c = GoOk (take cap d, if cap < length d then Some ErrShortBuffer else None, c\<lparr>inbuf := rest\<rparr>)"
proof -
  have "read_full 2 (inbuf c) = GoOk ([word_of_nat (drop_bit 8 (length d)), word_of_nat (length d)], d @ rest)"
    by (simp add: assms(4) datagram_bytes_def read_full_def put16_def)
  then show ?thesis
    using assms(1-3) drainLoop_all [of "length d" "d @ rest" "[]" cap]
    by (auto simp: ReadFrom_def Let_def go_simps be16_two)
qed

interpretation dg: stream_codec datagram_bytes read_datagram "\<lambda>d. length d < 65536"
proof unfold_locales
  show "read_datagram (datagram_bytes d @ rest) = GoOk (d, rest)" if "length d < 65536" for d rest
    using that ReadFrom_datagram [of d "\<lparr>inbuf = datagram_bytes d @ rest, outbuf = [], target = None, is_closed = False, rdl = 0, wdl = 0\<rparr>" 0 rest 65535]
    by (simp add: read_datagram_def)
  show "read_datagram [] = GoErr EOF"
    by (simp add: read_datagram_def ReadFrom_def read_full_def)
qed

text \<open>A run of writes on one end, and of reads with buffers of the given sizes on the other.\<close>

primrec run_writes :: "int \<Rightarrow> bytes list \<Rightarrow> udpFramedPacketConn \<Rightarrow> (ioError, udpFramedPacketConn) gores" where
  "run_writes now [] c = GoOk c"
| "run_writes now (d # ds) c = go_bind (WriteTo now d None c) (\<lambda>(n, c'). run_writes now ds c')"

primrec run_reads :: "int \<Rightarrow> nat list \<Rightarrow> udpFramedPacketConn \<Rightarrow> (ioError, (bytes \<times> ioError option) list) gores" where
  "run_reads now [] c = GoOk []"
| "run_reads now (cap # caps) c = go_bind (ReadFrom now cap c) (\<lambda>(b, e, c'). go_bind (run_reads now caps c') (\<lambda>rs. GoOk ((b, e) # rs)))"

lemma run_writes_out:
  "list_all (\<lambda>d. length d \<le> 65000) ds \<Longrightarrow> \<not> is_closed c \<Longrightarrow> wdl c = 0 \<Longrightarrow>
    run_writes now ds c = GoOk (c\<lparr>outbuf := outbuf c @ concat (map datagram_bytes ds)\<rparr>)"
  by (induction ds arbitrary: c) (auto simp: WriteTo_def datagram_bytes_def)

lemma run_reads_in:
  "length caps = length ds \<Longrightarrow> list_all (\<lambda>d. length d < 65536) ds \<Longrightarrow> \<not> is_closed c \<Longrightarrow> rdl c = 0 \<Longrightarrow>
    inbuf c = concat (map datagram_bytes ds) \<Longrightarrow>
    run_reads now caps c = GoOk (map2 (\<lambda>cap d. (take cap d, if cap < length d then Some ErrShortBuffer else None)) caps ds)"
proof (induction caps ds arbitrary: c rule: list_induct2)
  case (Cons cap caps d ds)
  then show ?case
    using ReadFrom_datagram [of d c now "concat (map datagram_bytes ds)" cap] by simp
qed simp

section \<open>Properties\<close>



text \<open>Multiplexed writes reassemble: the frames that a stream's \<open>Write\<close> emits, encoded back to
  back and followed by any other traffic, are read back by \<open>readRawFrame\<close> as the same frames,
  each within the payload limit, and their payloads concatenate to the data written.\<close>

lemma mux_write_reassembles:
  "let mx = maxFramePayload cfg; fs = muxWrite mx sid p in
    read_many readRawFrame (length fs) (concat (map frame_bytes fs) @ rest) = GoOk (fs, rest) \<and>
    concat (map payload fs) = p \<and> list_all (\<lambda>f. streamID f = sid \<and> ftype f = frameData \<and> length (payload f) \<le> mx \<and>
      encodeFrame (ftype f) (streamID f) (payload f) = GoOk (frame_bytes f)) fs"
proof -
  have "0 < maxFramePayload cfg" "maxFramePayload cfg \<le> 0xffff"
    by (auto simp: maxFramePayload_def DefaultMaxFramePayload_def)
  from muxWrite_frames [OF this, of sid p] show ?thesis
    using vk.read_many_enc [of "muxWrite (maxFramePayload cfg) sid p" rest]
    by (auto simp: Let_def list_all_iff encodeFrame_def frame_bytes_def frame_ok_def)
qed

end
