(* ===== verification/FragDown.thy ===== *)
theory FragDown
  imports FragSizes StreamFraming "HOL-Library.Sublist"
begin

text \<open>
  The downstream half of the fragmenting transport (internal/transport/fragpoc): on the server the producer
  that cuts a stream into numbered frames, the replay ring, the retransmission policy and the answer to a
  DOWN poll (server.go); on the client the decoding of an answer and the reader that puts frames back in
  order (client.go). Polls run on separate connections, so answers may be lost and may overtake each
  other. Between two critical sections of a handler other handlers and the producer may change the session:
  \<open>env k\<close> is what they do there. Sequence numbers keep their 32 bits.
\<close>

section \<open>The session\<close>

record downFrame =
  fseq :: "32 word"
  fdata :: bytes
  feof :: bool

text \<open>\<open>pseq\<close> and \<open>blocked\<close> are the locals of the producer: the next number and a frame that waits for room in the
  channel. \<open>touches\<close> counts the calls of \<open>touch\<close>.\<close>

record session =
  frameCh :: "downFrame list"
  producerDone :: bool
  replayRing :: "downFrame list"
  replayHead :: nat
  replayLen :: nat
  lastRetransmitAck :: "32 word"
  servedSinceAck :: int
  pseq :: "32 word"
  blocked :: "downFrame option"
  touches :: nat

definition replayRingSize :: nat where "replayRingSize = 32"

definition frameChCap :: nat where "frameChCap = 16"

definition retransmitGap :: "32 word" where "retransmitGap = 4"

definition retransmitAfter :: int where "retransmitAfter = MaxDownWindow"

definition newSession :: session where
  "newSession = \<lparr>frameCh = [], producerDone = False, replayRing = replicate replayRingSize \<lparr>fseq = 0, fdata = [], feof = False\<rparr>,
     replayHead = 0, replayLen = 0, lastRetransmitAck = 0, servedSinceAck = 0, pseq = 0, blocked = None, touches = 0\<rparr>"

definition pushReplay :: "downFrame \<Rightarrow> session \<Rightarrow> session" where
  "pushReplay frame s =
    (let i = (replayHead s + replayLen s) mod replayRingSize;
         s = (if replayLen s = replayRingSize then s\<lparr>replayHead := (replayHead s + 1) mod replayRingSize\<rparr> else s\<lparr>replayLen := replayLen s + 1\<rparr>)
     in s\<lparr>replayRing := (replayRing s)[i := frame]\<rparr>)"

text \<open>The frames of the ring, oldest first, as the loops of \<open>findReplay\<close> visit them.\<close>

definition ringFrames :: "session \<Rightarrow> downFrame list" where
  "ringFrames s = map (\<lambda>i. replayRing s ! ((replayHead s + i) mod replayRingSize)) [0..<replayLen s]"

definition findReplay :: "32 word \<Rightarrow> session \<Rightarrow> downFrame option" where
  "findReplay ack s =
    (if replayLen s = 0 then None
     else case find (\<lambda>f. fseq f = ack) (ringFrames s) of Some f \<Rightarrow> Some f
     | None \<Rightarrow> (case find (\<lambda>f. fseq f \<ge> ack) (ringFrames s) of Some f \<Rightarrow> Some f
       | None \<Rightarrow> Some (replayRing s ! ((replayHead s + replayLen s - 1) mod replayRingSize))))"

definition shouldRetransmit :: "32 word \<Rightarrow> session \<Rightarrow> session \<times> bool" where
  "shouldRetransmit ack s =
    (if ack > lastRetransmitAck s then (s\<lparr>lastRetransmitAck := ack, servedSinceAck := 1\<rparr>, False)
     else if ack = lastRetransmitAck s then
       (let s = s\<lparr>servedSinceAck := servedSinceAck s + 1\<rparr> in (s, servedSinceAck s > retransmitAfter))
     else (s, False))"

definition encodeDownFrame :: "downFrame \<Rightarrow> bytes" where
  "encodeDownFrame f = (if feof f then put32 (fseq f) @ put16 0xffff else put32 (fseq f) @ put16 (length (fdata f)) @ fdata f)"

definition recvCh :: "session \<Rightarrow> (downFrame \<times> session) option" where
  "recvCh s = (case frameCh s of [] \<Rightarrow> None | f # fs \<Rightarrow> Some (f, s\<lparr>frameCh := fs, touches := touches s + 1\<rparr>))"

definition trySend :: "downFrame \<Rightarrow> session \<Rightarrow> session" where
  "trySend f s = (if length (frameCh s) < frameChCap then s\<lparr>frameCh := frameCh s @ [f]\<rparr> else s)"

text \<open>A frame has been taken from the channel, which touches the session: answer with it, or put it back and answer with the one the client waits for.\<close>

definition serveFrame :: "(nat \<Rightarrow> session \<Rightarrow> session) \<Rightarrow> bool \<Rightarrow> 32 word \<Rightarrow> downFrame \<Rightarrow> session \<Rightarrow> session \<times> bytes" where
  "serveFrame env shouldRT ack frame s =
    (if shouldRT \<and> fseq frame \<ge> ack + retransmitGap then
       let s = env 1 s in
       (case findReplay ack s of
          Some rf \<Rightarrow> if fseq rf = ack then (trySend frame (env 2 s), encodeDownFrame rf) else (s, encodeDownFrame frame)
        | None \<Rightarrow> (s, encodeDownFrame frame))
     else (s, encodeDownFrame frame))"

text \<open>\<open>env 4\<close> is the long poll; \<open>frameFirst\<close> is the choice of the \<open>select\<close> when a frame and the timeout are both ready.\<close>

definition nextDownResponse :: "(nat \<Rightarrow> session \<Rightarrow> session) \<Rightarrow> bool \<Rightarrow> 32 word \<Rightarrow> session \<Rightarrow> session \<times> bytes" where
  "nextDownResponse env frameFirst ack s =
    (case shouldRetransmit ack s of (s, shouldRT) \<Rightarrow>
     let s = env 0 s in
     case recvCh s of
       Some (frame, s) \<Rightarrow> serveFrame env shouldRT ack frame s
     | None \<Rightarrow>
        let s = env 3 s in
        (case findReplay ack s of
           Some frame \<Rightarrow> (s, encodeDownFrame frame)
         | None \<Rightarrow>
            let s = env 4 s in
            (case (if frameFirst then recvCh s else None) of
               Some (frame, s) \<Rightarrow> serveFrame env shouldRT ack frame s
             | None \<Rightarrow>
                let s = env 5 s in
                (case recvCh s of
                   Some (frame, s) \<Rightarrow> (s, encodeDownFrame frame)
                 | None \<Rightarrow>
                    let s = env 6 s in
                    (case findReplay ack s of
                       Some frame \<Rightarrow> (s, encodeDownFrame frame)
                     | None \<Rightarrow> (s, put32 ack @ [0, 0]))))))"

text \<open>The producer: a successful read of the stream, its end, room in the channel, and a send that gives up.\<close>

definition produceData :: "bytes \<Rightarrow> session \<Rightarrow> session" where
  "produceData d s = (let frame = \<lparr>fseq = pseq s, fdata = d, feof = False\<rparr> in (pushReplay frame (s\<lparr>pseq := pseq s + 1, touches := touches s + 1\<rparr>))\<lparr>blocked := Some frame\<rparr>)"

definition produceEOF :: "session \<Rightarrow> session" where
  "produceEOF s = (let frame = \<lparr>fseq = pseq s, fdata = [], feof = True\<rparr> in (pushReplay frame s)\<lparr>blocked := Some frame\<rparr>)"

definition producerSend :: "session \<Rightarrow> session" where
  "producerSend s = (case blocked s of None \<Rightarrow> s
     | Some f \<Rightarrow> if length (frameCh s) < frameChCap then s\<lparr>frameCh := frameCh s @ [f], blocked := None, producerDone := producerDone s \<or> feof f\<rparr> else s)"

definition producerGiveUp :: "session \<Rightarrow> session" where
  "producerGiveUp s = (if blocked s = None then s else s\<lparr>blocked := None, producerDone := True\<rparr>)"

section \<open>The client\<close>

record downResult =
  rseq :: "32 word"
  rbuf :: bytes
  reof :: bool

text \<open>What \<open>Client.down\<close> makes of the bytes of an answer; \<open>secure\<close> answers arrive as one body, plain ones are read
  from the connection piece by piece.\<close>

definition decodeDown :: "bool \<Rightarrow> nat \<Rightarrow> bytes \<Rightarrow> (ioError, downResult) gores" where
  "decodeDown secure mp input =
    go_bind (if secure then GoOk (input, []) else read_full 6 input) (\<lambda>(plain, rest).
     if length plain < 6 then GoErr ErrProtocol
     else go_bind (subslice plain 0 4) (\<lambda>sq. go_bind (idx plain 4) (\<lambda>h. go_bind (idx plain 5) (\<lambda>l.
       let n = be16 h l in
       if n = 0xffff then GoOk \<lparr>rseq = be32 sq, rbuf = [], reof = True\<rparr>
       else if n > mp then GoErr ErrProtocol
       else if n = 0 then GoOk \<lparr>rseq = be32 sq, rbuf = [], reof = False\<rparr>
       else if secure then
         if length plain \<noteq> 6 + n then GoErr ErrProtocol
         else go_bind (slice_from plain 6) (\<lambda>b. GoOk \<lparr>rseq = be32 sq, rbuf = b, reof = False\<rparr>)
       else go_bind (read_full n rest) (\<lambda>(b, _). GoOk \<lparr>rseq = be32 sq, rbuf = b, reof = False\<rparr>)))))"

definition maxPendingFrames :: nat where "maxPendingFrames = 16"

record Conn =
  readBuf :: bytes
  downCh :: "downResult list"
  pendingFrames :: "(32 word \<times> bytes) list"
  nextSeq :: "32 word"
  eofSeq :: "32 word"
  haveEOF :: bool
  recvAck :: "32 word"
  eofSeen :: bool
  connClosed :: bool

definition newConn :: Conn where
  "newConn = \<lparr>readBuf = [], downCh = [], pendingFrames = [], nextSeq = 0, eofSeq = 0, haveEOF = False, recvAck = 0, eofSeen = False, connClosed = False\<rparr>"

datatype readStop = Ready | Ended | Failed ioError | Waiting

definition advance :: "Conn \<Rightarrow> Conn" where
  "advance c = c\<lparr>nextSeq := nextSeq c + 1, recvAck := nextSeq c + 1\<rparr>"

text \<open>What the reader does with one answer: \<open>Some\<close> ends the call.\<close>

definition takeResult :: "downResult \<Rightarrow> Conn \<Rightarrow> Conn \<times> readStop option" where
  "takeResult res c =
    (if reof res then
       if rseq res < nextSeq c then (c\<lparr>eofSeen := True\<rparr>, Some Ended)
       else (c\<lparr>haveEOF := True, eofSeq := rseq res\<rparr>, None)
     else if rbuf res = [] \<or> rseq res < nextSeq c then (c, None)
     else if rseq res = nextSeq c then ((advance c)\<lparr>readBuf := rbuf res\<rparr>, None)
     else if map_of (pendingFrames c) (rseq res) = None \<and> length (pendingFrames c) < maxPendingFrames then
       (c\<lparr>pendingFrames := AList.update (rseq res) (rbuf res) (pendingFrames c)\<rparr>, None)
     else (c, None))"

lemma takeResult_downCh [simp]: "downCh (fst (takeResult res c)) = downCh c"
  by (simp add: takeResult_def advance_def)

text \<open>The loop of \<open>Conn.Read\<close>. \<open>sel k\<close> tells which case the k-th \<open>select\<close> takes: an error, a closed connection or the
  deadline, or else the channel; \<open>Waiting\<close> is a call that blocks there.\<close>

function readLoop :: "(nat \<Rightarrow> ioError option) \<Rightarrow> Conn \<Rightarrow> Conn \<times> readStop" where
  "readLoop sel c =
    (if readBuf c \<noteq> [] then (c, Ready)
     else case map_of (pendingFrames c) (nextSeq c) of
       Some buf \<Rightarrow> ((advance (c\<lparr>pendingFrames := AList.delete (nextSeq c) (pendingFrames c)\<rparr>))\<lparr>readBuf := buf\<rparr>, Ready)
     | None \<Rightarrow>
        if haveEOF c \<and> eofSeq c = nextSeq c then ((advance c)\<lparr>eofSeen := True\<rparr>, Ended)
        else (case sel (length (downCh c)) of
          Some e \<Rightarrow> (c, Failed e)
        | None \<Rightarrow>
            (case downCh c of
               [] \<Rightarrow> (c, Waiting)
             | res # rest \<Rightarrow>
                (case takeResult res (c\<lparr>downCh := rest\<rparr>) of
                   (c, Some stop) \<Rightarrow> (c, stop)
                 | (c, None) \<Rightarrow> readLoop sel c))))"
  by pat_completeness auto
termination
proof (relation "measure (\<lambda>(sel, c). length (downCh c))")
  fix c :: Conn and res rest c' and b :: "readStop option" and sel
  assume "downCh c = res # rest" "(c', b) = takeResult res (c\<lparr>downCh := rest\<rparr>)"
  then have "downCh c' = rest" using takeResult_downCh [of res "c\<lparr>downCh := rest\<rparr>"] by (simp del: takeResult_downCh flip: \<open>(c', b) = _\<close>)
  then show "((sel, c'), sel, c) \<in> measure (\<lambda>(sel, c). length (downCh c))" using \<open>downCh c = res # rest\<close> by simp
qed auto

declare readLoop.simps [simp del]

definition Read :: "(nat \<Rightarrow> ioError option) \<Rightarrow> nat \<Rightarrow> Conn \<Rightarrow> Conn \<times> (ioError, bytes) gores option" where
  "Read sel n c =
    (if connClosed c then (c, Some (GoErr ErrClosed))
     else case readLoop sel c of
       (c, Ready) \<Rightarrow> (c\<lparr>readBuf := drop n (readBuf c)\<rparr>, Some (GoOk (take n (readBuf c))))
     | (c, Ended) \<Rightarrow> (c, Some (GoErr EOF))
     | (c, Failed e) \<Rightarrow> (c, Some (GoErr e))
     | (c, Waiting) \<Rightarrow> (c, None))"

section \<open>The replay ring is a bounded queue\<close>

definition ring_ok :: "session \<Rightarrow> bool" where
  "ring_ok s \<longleftrightarrow> length (replayRing s) = replayRingSize \<and> replayHead s < replayRingSize \<and> replayLen s \<le> replayRingSize"

lemma length_ringFrames [simp]: "length (ringFrames s) = replayLen s"
  by (simp add: ringFrames_def)

lemma ringFrames_cong:
  "replayRing s = replayRing t \<Longrightarrow> replayHead s = replayHead t \<Longrightarrow> replayLen s = replayLen t \<Longrightarrow> ringFrames s = ringFrames t"
  by (simp add: ringFrames_def)

lemma ringFrames_updates [simp]:
  "ringFrames (s\<lparr>frameCh := x\<rparr>) = ringFrames s" "ringFrames (s\<lparr>producerDone := p\<rparr>) = ringFrames s" "ringFrames (s\<lparr>lastRetransmitAck := a\<rparr>) = ringFrames s"
  "ringFrames (s\<lparr>servedSinceAck := n\<rparr>) = ringFrames s" "ringFrames (s\<lparr>pseq := a\<rparr>) = ringFrames s" "ringFrames (s\<lparr>blocked := b\<rparr>) = ringFrames s"
  "ringFrames (s\<lparr>touches := k\<rparr>) = ringFrames s"
  by (simp_all add: ringFrames_def)

lemma ring_ok_updates [simp]:
  "ring_ok (s\<lparr>frameCh := x\<rparr>) = ring_ok s" "ring_ok (s\<lparr>producerDone := p\<rparr>) = ring_ok s" "ring_ok (s\<lparr>lastRetransmitAck := a\<rparr>) = ring_ok s"
  "ring_ok (s\<lparr>servedSinceAck := n\<rparr>) = ring_ok s" "ring_ok (s\<lparr>pseq := a\<rparr>) = ring_ok s" "ring_ok (s\<lparr>blocked := b\<rparr>) = ring_ok s"
  "ring_ok (s\<lparr>touches := k\<rparr>) = ring_ok s"
  by (simp_all add: ring_ok_def)

lemma push_fields [simp]:
  "frameCh (pushReplay f s) = frameCh s" "blocked (pushReplay f s) = blocked s" "pseq (pushReplay f s) = pseq s" "producerDone (pushReplay f s) = producerDone s"
  by (simp_all add: pushReplay_def Let_def)

lemma push_ring_ok: "ring_ok s \<Longrightarrow> ring_ok (pushReplay f s)"
  by (simp add: ring_ok_def pushReplay_def Let_def replayRingSize_def)

lemma ring_index_inj:
  assumes "i < n" "j < n"
  shows "(h + i) mod n = (h + j) mod n \<longleftrightarrow> i = (j :: nat)"
proof -
  have "i = j" if "i \<le> j" "i < n" "j < n" "(h + i) mod n = (h + j) mod n" for i j
  proof -
    have "n dvd j - i" using that mod_eq_dvd_iff_nat [of "h + i" "h + j" n] by simp
    then show ?thesis using that by (auto dest: dvd_imp_le)
  qed
  then show ?thesis using assms by (metis nat_le_linear)
qed

text \<open>Pushing appends, and drops the oldest frame of a full ring.\<close>

lemma ringFrames_push:
  assumes "ring_ok s"
  shows "ringFrames (pushReplay f s) = (if replayLen s = replayRingSize then tl (ringFrames s) else ringFrames s) @ [f]"
proof (cases "replayLen s = replayRingSize")
  case True
  let ?h = "replayHead s" and ?n = "replayRingSize"
  have n: "0 < ?n" by (simp add: replayRingSize_def)
  have i: "(?h + ?n) mod ?n = ?h" using assms by (simp add: ring_ok_def)
  show ?thesis
  proof (rule nth_equalityI)
    show "length (ringFrames (pushReplay f s)) = length ((if replayLen s = ?n then tl (ringFrames s) else ringFrames s) @ [f])"
      using True n by (simp add: pushReplay_def Let_def)
    fix k assume k: "k < length (ringFrames (pushReplay f s))"
    then have k: "k < ?n" using True by (simp add: pushReplay_def Let_def)
    have e: "((?h + 1) mod ?n + k) mod ?n = (?h + (k + 1)) mod ?n" by (simp add: mod_add_left_eq)
    have L: "ringFrames (pushReplay f s) ! k = (replayRing s)[?h := f] ! ((?h + (k + 1)) mod ?n)"
      using True k i e by (simp add: ringFrames_def pushReplay_def Let_def)
    show "ringFrames (pushReplay f s) ! k = ((if replayLen s = ?n then tl (ringFrames s) else ringFrames s) @ [f]) ! k"
    proof (cases "k + 1 = ?n")
      case t: True
      then have "(?h + (k + 1)) mod ?n = ?h" using i by simp
      then show ?thesis using L t True assms by (simp add: nth_append ring_ok_def)
    next
      case False
      then have "k + 1 < ?n" using k by simp
      moreover have "(?h + (k + 1)) mod ?n \<noteq> (?h + 0) mod ?n" using ring_index_inj [of "k + 1" ?n 0 ?h] \<open>k + 1 < ?n\<close> n by simp
      ultimately show ?thesis using L True i assms by (simp add: nth_append nth_tl ringFrames_def ring_ok_def)
    qed
  qed
next
  case False
  let ?h = "replayHead s" and ?n = "replayRingSize" and ?l = "replayLen s"
  have l: "?l < ?n" using False assms by (simp add: ring_ok_def)
  have "ringFrames (pushReplay f s) = map (\<lambda>i. (replayRing s)[(?h + ?l) mod ?n := f] ! ((?h + i) mod ?n)) ([0..<?l] @ [?l])"
    using False by (simp add: ringFrames_def pushReplay_def Let_def)
  moreover have "(replayRing s)[(?h + ?l) mod ?n := f] ! ((?h + i) mod ?n) = replayRing s ! ((?h + i) mod ?n)" if "i < ?l" for i
    using ring_index_inj [of i ?n ?l ?h] that l by simp
  ultimately show ?thesis using False assms l by (simp add: ringFrames_def ring_ok_def)
qed

lemma findReplay_in: "findReplay ack s = Some f \<Longrightarrow> f \<in> set (ringFrames s)"
proof -
  assume a: "findReplay ack s = Some f"
  then have n: "0 < replayLen s" by (simp add: findReplay_def split: if_split_asm)
  have "replayRing s ! ((replayHead s + replayLen s - 1) mod replayRingSize) = ringFrames s ! (replayLen s - 1)"
    using n by (simp add: ringFrames_def)
  then have "replayRing s ! ((replayHead s + replayLen s - 1) mod replayRingSize) \<in> set (ringFrames s)" using n by simp
  then show ?thesis using a by (auto simp: findReplay_def find_Some_iff in_set_conv_nth split: if_split_asm option.splits)
qed

lemma findReplay_exact:
  assumes "f \<in> set (ringFrames s)" "fseq f = ack"
  obtains g where "findReplay ack s = Some g" "fseq g = ack" "g \<in> set (ringFrames s)"
proof -
  obtain g where g: "find (\<lambda>f. fseq f = ack) (ringFrames s) = Some g" using assms by (cases "find (\<lambda>f. fseq f = ack) (ringFrames s)") (auto simp: find_None_iff)
  moreover have "replayLen s \<noteq> 0" using assms(1) by (auto simp: ringFrames_def)
  ultimately show ?thesis using that [of g] g by (auto simp: findReplay_def find_Some_iff)
qed

section \<open>What every handler keeps\<close>

text \<open>The moves of the rest of the server on a session whose upstream delivers \<open>stream\<close>, chunk by chunk; \<open>H\<close> are
  the frames that other handlers hold and may put back.\<close>

inductive srv_move :: "bytes list \<Rightarrow> downFrame set \<Rightarrow> session \<Rightarrow> session \<Rightarrow> bool" for stream H where
  data: "blocked s = None \<Longrightarrow> \<not> producerDone s \<Longrightarrow> unat (pseq s) < length stream \<Longrightarrow> srv_move stream H s (produceData (stream ! unat (pseq s)) s)"
| finish: "blocked s = None \<Longrightarrow> \<not> producerDone s \<Longrightarrow> unat (pseq s) = length stream \<Longrightarrow> srv_move stream H s (produceEOF s)"
| send: "srv_move stream H s (producerSend s)"
| give_up: "srv_move stream H s (producerGiveUp s)"
| recv: "recvCh s = Some (f, s') \<Longrightarrow> srv_move stream H s s'"
| put_back: "f \<in> H \<Longrightarrow> srv_move stream H s (trySend f s)"
| served: "srv_move stream H s (fst (shouldRetransmit ack s))"

definition env_moves :: "bytes list \<Rightarrow> downFrame set \<Rightarrow> (nat \<Rightarrow> session \<Rightarrow> session) \<Rightarrow> bool" where
  "env_moves stream H env \<longleftrightarrow> (\<forall>k s. (srv_move stream H)\<^sup>*\<^sup>* s (env k s))"

text \<open>Every frame of a session satisfies \<open>P\<close>, and its next number \<open>C\<close>.\<close>

definition holds :: "(downFrame \<Rightarrow> bool) \<Rightarrow> (32 word \<Rightarrow> bool) \<Rightarrow> session \<Rightarrow> bool" where
  "holds P C s \<longleftrightarrow> ring_ok s \<and> C (pseq s) \<and> list_all P (frameCh s) \<and> list_all P (ringFrames s) \<and> pred_option P (blocked s)"

definition steady :: "bytes list \<Rightarrow> downFrame set \<Rightarrow> (downFrame \<Rightarrow> bool) \<Rightarrow> (32 word \<Rightarrow> bool) \<Rightarrow> bool" where
  "steady stream H P C \<longleftrightarrow>
    (\<forall>q. C q \<and> unat q < length stream \<longrightarrow> P \<lparr>fseq = q, fdata = stream ! unat q, feof = False\<rparr> \<and> C (q + 1)) \<and>
    (\<forall>q. C q \<and> unat q = length stream \<longrightarrow> P \<lparr>fseq = q, fdata = [], feof = True\<rparr>) \<and> (\<forall>f \<in> H. P f)"

lemma list_all_push: "ring_ok s \<Longrightarrow> list_all P (ringFrames s) \<Longrightarrow> P f \<Longrightarrow> list_all P (ringFrames (pushReplay f s))"
  by (cases "ringFrames s") (auto simp: ringFrames_push list_all_iff)

lemma holds_recv: "holds P C s \<Longrightarrow> recvCh s = Some (f, s') \<Longrightarrow> P f \<and> holds P C s'"
  by (auto simp: holds_def recvCh_def split: list.splits)

lemma holds_trySend: "holds P C s \<Longrightarrow> P f \<Longrightarrow> holds P C (trySend f s)"
  by (simp add: holds_def trySend_def)

lemma holds_retransmit: "holds P C s \<Longrightarrow> holds P C (fst (shouldRetransmit ack s))"
  by (simp add: holds_def shouldRetransmit_def Let_def)

lemma holds_replay: "holds P C s \<Longrightarrow> findReplay ack s = Some f \<Longrightarrow> P f"
  using findReplay_in [of ack s f] by (auto simp: holds_def list_all_iff)

lemma holds_move: "srv_move stream H s s' \<Longrightarrow> steady stream H P C \<Longrightarrow> holds P C s \<Longrightarrow> holds P C s'"
proof (induction rule: srv_move.induct)
  case (data s) then show ?case by (simp add: holds_def produceData_def Let_def steady_def list_all_push push_ring_ok)
next
  case (finish s) then show ?case by (simp add: holds_def produceEOF_def Let_def steady_def list_all_push push_ring_ok)
next
  case (send s) then show ?case by (cases "blocked s") (simp_all add: holds_def producerSend_def)
next
  case (give_up s) then show ?case by (simp add: holds_def producerGiveUp_def)
next
  case (recv s f s') then show ?case using holds_recv by blast
next
  case (put_back f s) then show ?case using holds_trySend by (simp add: steady_def)
next
  case (served s ack) then show ?case using holds_retransmit by blast
qed

lemma holds_moves: "(srv_move stream H)\<^sup>*\<^sup>* s s' \<Longrightarrow> steady stream H P C \<Longrightarrow> holds P C s \<Longrightarrow> holds P C s'"
  by (induction rule: rtranclp_induct) (auto intro: holds_move)

lemma holds_env: "env_moves stream H env \<Longrightarrow> steady stream H P C \<Longrightarrow> holds P C s \<Longrightarrow> holds P C (env k s)"
  using holds_moves [of stream H s "env k s" P C] by (simp add: env_moves_def)

text \<open>An answer carries a frame of the session or nothing.\<close>

definition answer :: "(downFrame \<Rightarrow> bool) \<Rightarrow> bytes \<Rightarrow> bool" where
  "answer P bs \<longleftrightarrow> (\<exists>f. P f \<and> bs = encodeDownFrame f) \<or> (\<exists>ack. bs = put32 ack @ [0, 0])"

lemma answer_frame: "P f \<Longrightarrow> answer P (encodeDownFrame f)"
  by (auto simp: answer_def)

definition handled :: "(downFrame \<Rightarrow> bool) \<Rightarrow> (32 word \<Rightarrow> bool) \<Rightarrow> session \<times> bytes \<Rightarrow> bool" where
  "handled P C r \<longleftrightarrow> holds P C (fst r) \<and> answer P (snd r)"

lemma handledI: "holds P C s \<Longrightarrow> P f \<Longrightarrow> handled P C (s, encodeDownFrame f)"
  by (simp add: handled_def answer_frame)

lemma serveFrame_handled:
  assumes "env_moves stream H env" "steady stream H P C" "holds P C s" "P f"
  shows "handled P C (serveFrame env rt ack f s)"
proof -
  have e: "holds P C (env 1 s)" "holds P C (env 2 (env 1 s))" using holds_env [OF assms(1,2)] assms(3) by blast+
  show ?thesis using e assms(3,4) holds_replay [OF e(1), of ack] holds_trySend [OF e(2), of f]
    unfolding serveFrame_def Let_def by (cases "findReplay ack (env 1 s)") (simp_all add: handledI)
qed

lemma nextDownResponse_handled:
  assumes "env_moves stream H env" "steady stream H P C" "holds P C s"
  shows "handled P C (nextDownResponse env ff ack s)"
proof -
  obtain s0 rt where r: "shouldRetransmit ack s = (s0, rt)" by (cases "shouldRetransmit ack s")
  have e: "holds P C (env k t)" if "holds P C t" for k t using holds_env [OF assms(1,2) that] .
  have "holds P C (env 0 s0)" using holds_retransmit [OF assms(3), of ack] r e by simp
  note e0 = this and e3 = e [OF this, of 3] and e4 = e [OF e [OF this, of 3], of 4]
  note e5 = e [OF e4, of 5] and e6 = e [OF e [OF e4, of 5], of 6]
  have sf: "handled P C (serveFrame env rt ack f t)" if "holds P C t'" "recvCh t' = Some (f, t)" for f t t'
    using serveFrame_handled [OF assms(1,2)] holds_recv [OF that] by blast
  have rf: "handled P C (t, encodeDownFrame f)" if "holds P C t'" "recvCh t' = Some (f, t)" for f t t'
    using holds_recv [OF that] handledI by blast
  have zf: "handled P C (t, put32 ack @ [0, 0])" if "holds P C t" for t using that by (auto simp: handled_def answer_def)
  show ?thesis unfolding nextDownResponse_def r
    using sf [OF e0] sf [OF e4] rf [OF e5] zf [OF e6] handledI [OF e3 holds_replay [OF e3, of ack]] handledI [OF e6 holds_replay [OF e6, of ack]]
    by (simp add: Let_def split: option.split)
qed

section \<open>The answer on the wire\<close>

lemma len_put32 [simp]: "length (put32 v) = 4"
  by (simp add: put32_def)

lemma len_put16 [simp]: "length (put16 n) = 2"
  by (simp add: put16_def)

lemma put16_nth: "(put32 v @ put16 n @ r) ! 4 = put16 n ! 0" "(put32 v @ put16 n @ r) ! 5 = put16 n ! 1"
  by (simp_all add: nth_append)

lemma be32_take: "be32 (take 4 (put32 v @ r)) = v"
  using be32_put32 [of v "[]"] by simp

lemma decode_split:
  assumes "input = put32 v @ put16 n @ d" "n < 65536"
  shows "decodeDown secure mp input =
    (if n = 65535 then GoOk \<lparr>rseq = v, rbuf = [], reof = True\<rparr>
     else if n > mp then GoErr ErrProtocol
     else if n = 0 then GoOk \<lparr>rseq = v, rbuf = [], reof = False\<rparr>
     else if secure then if length d \<noteq> n then GoErr ErrProtocol else GoOk \<lparr>rseq = v, rbuf = d, reof = False\<rparr>
     else go_bind (read_full n d) (\<lambda>(b, _). GoOk \<lparr>rseq = v, rbuf = b, reof = False\<rparr>))"
proof (cases secure)
  case True
  have "be16 (input ! 4) (input ! 5) = n" using be16_nth_put16 [of n] assms by (simp add: put16_nth)
  moreover have "be32 (take 4 input) = v" using be32_take assms by simp
  ultimately show ?thesis using True assms(1) by (simp add: decodeDown_def subslice_def slice_from_def idx_def Let_def)
next
  case False
  have r: "read_full 6 input = GoOk (put32 v @ put16 n, d)" using assms(1) by (simp add: read_full_def)
  have "be16 ((put32 v @ put16 n) ! 4) ((put32 v @ put16 n) ! 5) = n" using be16_nth_put16 [of n] assms(2) put16_nth [of v n "[]"] by simp
  moreover have "be32 (take 4 (put32 v @ put16 n)) = v" by (rule be32_take)
  ultimately show ?thesis using False unfolding decodeDown_def r by (simp add: subslice_def slice_from_def idx_def Let_def)
qed

text \<open>What an encoded frame decodes to, on both kinds of connection.\<close>

lemma decode_frame:
  assumes "length (fdata f) < 65535" "feof f \<longrightarrow> fdata f = []"
  shows "decodeDown secure mp (encodeDownFrame f) =
    (if feof f \<or> length (fdata f) \<le> mp then GoOk \<lparr>rseq = fseq f, rbuf = fdata f, reof = feof f\<rparr> else GoErr ErrProtocol)"
proof (cases "feof f")
  case True then show ?thesis using assms(2) decode_split [of "encodeDownFrame f" "fseq f" 65535 "[]"] by (simp add: encodeDownFrame_def)
next
  case False
  have "encodeDownFrame f = put32 (fseq f) @ put16 (length (fdata f)) @ fdata f" using False by (simp add: encodeDownFrame_def)
  from decode_split [OF this] show ?thesis using False assms(1) by (simp add: read_full_def)
qed

lemma decode_empty: "decodeDown secure mp (put32 ack @ [0, 0]) = GoOk \<lparr>rseq = ack, rbuf = [], reof = False\<rparr>"
  using decode_split [of "put32 ack @ [0, 0]" ack 0 "[]"] by (simp add: put16_def)

section \<open>The stream\<close>

definition genuine :: "bytes list \<Rightarrow> downFrame \<Rightarrow> bool" where
  "genuine stream f \<longleftrightarrow> (if feof f then unat (fseq f) = length stream \<and> fdata f = []
     else unat (fseq f) < length stream \<and> fdata f = stream ! unat (fseq f))"

definition stream_ok :: "bytes list \<Rightarrow> bool" where
  "stream_ok stream \<longleftrightarrow> length stream + 1 < 2 ^ 32 \<and> (\<forall>d \<in> set stream. d \<noteq> [] \<and> length d \<le> MaxPayload)"

definition result_ok :: "bytes list \<Rightarrow> downResult \<Rightarrow> bool" where
  "result_ok stream res \<longleftrightarrow> (if reof res then unat (rseq res) = length stream
     else rbuf res = [] \<or> unat (rseq res) < length stream \<and> rbuf res = stream ! unat (rseq res))"

lemma answer_decodes:
  assumes "stream_ok stream" "answer (\<lambda>f. genuine stream f \<and> P (fseq f)) bs" "decodeDown secure mp bs = GoOk res"
  shows "result_ok stream res \<and> (reof res \<or> rbuf res \<noteq> [] \<longrightarrow> P (rseq res))"
proof -
  consider f where "genuine stream f" "P (fseq f)" "bs = encodeDownFrame f" | ack where "bs = put32 ack @ [0, 0]"
    using assms(2) by (auto simp: answer_def)
  then show ?thesis
  proof cases
    case (1 f)
    have "length (fdata f) < 65535" "feof f \<longrightarrow> fdata f = []"
      using 1(1) assms(1) by (auto simp: genuine_def stream_ok_def MaxPayload_def dest!: nth_mem split: if_split_asm)
    from decode_frame [OF this, of secure mp] show ?thesis using 1 assms(3) by (auto simp: result_ok_def genuine_def split: if_split_asm)
  next
    case (2 ack) then show ?thesis using assms(3) decode_empty [of secure mp ack] by (auto simp: result_ok_def)
  qed
qed

text \<open>The client's state with respect to the bytes \<open>got\<close> that the reader has returned.\<close>

definition conn_ok :: "bytes list \<Rightarrow> Conn \<Rightarrow> bytes \<Rightarrow> bool" where
  "conn_ok stream c got \<longleftrightarrow> list_all (result_ok stream) (downCh c) \<and>
    list_all (\<lambda>(q, b). unat q < length stream \<and> b = stream ! unat q) (pendingFrames c) \<and>
    (haveEOF c \<longrightarrow> unat (eofSeq c) = length stream) \<and> unat (nextSeq c) \<le> length stream + 1 \<and>
    got @ readBuf c = concat (take (unat (nextSeq c)) stream) \<and> (eofSeen c \<longrightarrow> unat (nextSeq c) = length stream + 1)"

lemma seq_next:
  assumes "stream_ok stream" "unat q \<le> length stream"
  shows "unat (q + 1 :: 32 word) = unat q + 1"
proof -
  have "unat q + 1 < 2 ^ 32" using assms by (simp add: stream_ok_def)
  then show ?thesis using unat_word_ariths(1) [of q 1] by simp
qed

lemma advance_fields [simp]:
  "downCh (advance c) = downCh c" "pendingFrames (advance c) = pendingFrames c" "haveEOF (advance c) = haveEOF c" "eofSeq (advance c) = eofSeq c"
  "readBuf (advance c) = readBuf c" "eofSeen (advance c) = eofSeen c" "nextSeq (advance c) = nextSeq c + 1" "connClosed (advance c) = connClosed c"
  by (simp_all add: advance_def)

lemma conn_take_chunk:
  assumes "stream_ok stream" "conn_ok stream c got" "readBuf c = []" "unat (nextSeq c) < length stream"
  shows "conn_ok stream ((advance c)\<lparr>readBuf := stream ! unat (nextSeq c)\<rparr>) got"
  using assms seq_next [OF assms(1), of "nextSeq c"] by (auto simp: conn_ok_def take_Suc_conv_app_nth)

lemma takeResult_ok:
  assumes "stream_ok stream" "conn_ok stream c got" "readBuf c = []" "result_ok stream res"
  shows "conn_ok stream (fst (takeResult res c)) got"
proof -
  have upd: "list_all Q (AList.update k v al)" if "list_all Q al" "Q (k, v)" for Q k v and al :: "(32 word \<times> bytes) list"
    using that by (induction al) auto
  show ?thesis
  proof (cases "reof res")
    case True
    then have "length stream < unat (nextSeq c)" if "rseq res < nextSeq c" using assms(4) that by (simp add: result_ok_def word_less_nat_alt)
    then show ?thesis using True assms(2,4) by (cases "rseq res < nextSeq c") (simp_all add: takeResult_def conn_ok_def result_ok_def)
  next
    case False
    show ?thesis
    proof (cases "rbuf res = [] \<or> rseq res < nextSeq c")
      case True then show ?thesis using False assms(2) by (simp add: takeResult_def)
    next
      case new: False
      show ?thesis
      proof (cases "rseq res = nextSeq c")
        case True then show ?thesis using False new conn_take_chunk [OF assms(1-3)] assms(4) by (simp add: takeResult_def result_ok_def)
      next
        case ahead: False
        have "conn_ok stream (c\<lparr>pendingFrames := AList.update (rseq res) (rbuf res) (pendingFrames c)\<rparr>) got"
          using False new assms(2,4) by (simp add: conn_ok_def result_ok_def upd)
        then show ?thesis using False new ahead assms(2) by (simp add: takeResult_def)
      qed
    qed
  qed
qed

lemma conn_ok_rest: "conn_ok stream c got \<Longrightarrow> downCh c = res # rest \<Longrightarrow> conn_ok stream (c\<lparr>downCh := rest\<rparr>) got \<and> result_ok stream res"
  by (simp add: conn_ok_def)

lemma conn_pending:
  assumes "stream_ok stream" "conn_ok stream c got" "readBuf c = []" "map_of (pendingFrames c) (nextSeq c) = Some buf"
  shows "conn_ok stream ((advance (c\<lparr>pendingFrames := AList.delete (nextSeq c) (pendingFrames c)\<rparr>))\<lparr>readBuf := buf\<rparr>) got"
proof -
  have b: "unat (nextSeq c) < length stream" "buf = stream ! unat (nextSeq c)"
    using assms(2) map_of_SomeD [OF assms(4)] by (auto simp: conn_ok_def list_all_iff)
  have "conn_ok stream (c\<lparr>pendingFrames := AList.delete (nextSeq c) (pendingFrames c)\<rparr>) got"
    using assms(2) by (auto simp: conn_ok_def list_all_iff set_delete_alist)
  from conn_take_chunk [OF assms(1) this] show ?thesis using assms(3) b by simp
qed

lemma conn_end:
  assumes "stream_ok stream" "conn_ok stream c got" "haveEOF c" "eofSeq c = nextSeq c"
  shows "conn_ok stream ((advance c)\<lparr>eofSeen := True\<rparr>) got"
  using assms seq_next [OF assms(1), of "nextSeq c"] by (simp add: conn_ok_def)

text \<open>Which states a call of the loop ends in.\<close>

definition stop_ok :: "(nat \<Rightarrow> ioError option) \<Rightarrow> Conn \<times> readStop \<Rightarrow> bool" where
  "stop_ok sel r \<longleftrightarrow> (snd r = Ended \<longrightarrow> readBuf (fst r) = [] \<and> eofSeen (fst r)) \<and> (\<forall>e. snd r = Failed e \<longrightarrow> (\<exists>k. sel k = Some e))"

lemma takeResult_stop:
  "takeResult res c = (c', st) \<Longrightarrow> readBuf c = [] \<Longrightarrow> (\<exists>stop. st = Some stop) \<Longrightarrow> st = Some Ended \<and> readBuf c' = [] \<and> eofSeen c'"
  by (auto simp: takeResult_def split: if_split_asm)

lemma readLoop_ok:
  assumes "stream_ok stream" "conn_ok stream c got"
  shows "conn_ok stream (fst (readLoop sel c)) got \<and> stop_ok sel (readLoop sel c)"
  using assms(2)
proof (induction sel c rule: readLoop.induct)
  case (1 sel c)
  consider (buf) "readBuf c \<noteq> []" | (pend) buf where "readBuf c = []" "map_of (pendingFrames c) (nextSeq c) = Some buf"
    | (eof) "readBuf c = []" "map_of (pendingFrames c) (nextSeq c) = None" "haveEOF c \<and> eofSeq c = nextSeq c"
    | (err) e where "readBuf c = []" "map_of (pendingFrames c) (nextSeq c) = None" "\<not> (haveEOF c \<and> eofSeq c = nextSeq c)" "sel (length (downCh c)) = Some e"
    | (wait) "readBuf c = []" "map_of (pendingFrames c) (nextSeq c) = None" "\<not> (haveEOF c \<and> eofSeq c = nextSeq c)" "sel (length (downCh c)) = None" "downCh c = []"
    | (res) res rest where "readBuf c = []" "map_of (pendingFrames c) (nextSeq c) = None" "\<not> (haveEOF c \<and> eofSeq c = nextSeq c)" "sel (length (downCh c)) = None" "downCh c = res # rest"
    by (metis list.exhaust option.exhaust)
  then show ?case
  proof cases
    case buf then show ?thesis using 1 by (simp add: readLoop.simps [of sel c] stop_ok_def)
  next
    case (pend buf)
    then show ?thesis using conn_pending [OF assms(1) "1.prems"] by (simp add: readLoop.simps [of sel c] stop_ok_def)
  next
    case eof
    then show ?thesis using conn_end [OF assms(1) "1.prems"] by (simp add: readLoop.simps [of sel c] stop_ok_def)
  next
    case (err e) then show ?thesis using "1.prems" by (auto simp: readLoop.simps [of sel c] stop_ok_def)
  next
    case wait then show ?thesis using "1.prems" by (auto simp: readLoop.simps [of sel c] stop_ok_def)
  next
    case (res res rest)
    obtain c' st where t: "takeResult res (c\<lparr>downCh := rest\<rparr>) = (c', st)" by (cases "takeResult res (c\<lparr>downCh := rest\<rparr>)")
    have ok: "conn_ok stream c' got"
      using takeResult_ok [OF assms(1), of "c\<lparr>downCh := rest\<rparr>" got res] conn_ok_rest [OF "1.prems" res(5)] res(1) t by simp
    have e: "readLoop sel c = (case st of None \<Rightarrow> readLoop sel c' | Some stop \<Rightarrow> (c', stop))"
      using res t by (auto simp: readLoop.simps [of sel c] split: option.split)
    show ?thesis
    proof (cases st)
      case None
      then show ?thesis using "1.IH" [OF _ res(2,3,4,5) t [symmetric]] res(1) ok e by simp
    next
      case (Some stop)
      then show ?thesis using ok e takeResult_stop [OF t] res(1) by (simp add: stop_ok_def)
    qed
  qed
qed

section \<open>Client and server together\<close>

text \<open>\<open>wire\<close> are the answers under way, \<open>got\<close> what the application has read.\<close>

record fragSys =
  srv :: session
  wire :: "bytes list"
  cl :: Conn
  got :: bytes
  ended :: bool

definition fragStart :: fragSys where
  "fragStart = \<lparr>srv = newSession, wire = [], cl = newConn, got = [], ended = False\<rparr>"

text \<open>The end of \<open>runScheduledDownPoll\<close>: an empty answer goes nowhere.\<close>

definition deliver :: "downResult \<Rightarrow> Conn \<Rightarrow> Conn" where
  "deliver res c = (if \<not> reof res \<and> rbuf res = [] then c else c\<lparr>downCh := downCh c @ [res]\<rparr>)"

inductive frag_step :: "bytes list \<Rightarrow> downFrame set \<Rightarrow> fragSys \<Rightarrow> fragSys \<Rightarrow> bool" for stream H where
  server: "srv_move stream H (srv \<sigma>) s' \<Longrightarrow> frag_step stream H \<sigma> (\<sigma>\<lparr>srv := s'\<rparr>)"
| poll: "env_moves stream H env \<Longrightarrow> nextDownResponse env ff ack (srv \<sigma>) = (s', bs) \<Longrightarrow> frag_step stream H \<sigma> (\<sigma>\<lparr>srv := s', wire := bs # wire \<sigma>\<rparr>)"
| lose: "frag_step stream H \<sigma> (\<sigma>\<lparr>wire := remove1 bs (wire \<sigma>)\<rparr>)"
| arrive: "bs \<in> set (wire \<sigma>) \<Longrightarrow> decodeDown secure mp bs = GoOk res \<Longrightarrow> frag_step stream H \<sigma> (\<sigma>\<lparr>wire := remove1 bs (wire \<sigma>), cl := deliver res (cl \<sigma>)\<rparr>)"
| read_data: "Read sel n (cl \<sigma>) = (c', Some (GoOk b)) \<Longrightarrow> frag_step stream H \<sigma> (\<sigma>\<lparr>cl := c', got := got \<sigma> @ b\<rparr>)"
| read_end: "Read sel n (cl \<sigma>) = (c', Some (GoErr EOF)) \<Longrightarrow> (\<forall>k. sel k \<noteq> Some EOF) \<Longrightarrow> frag_step stream H \<sigma> (\<sigma>\<lparr>cl := c', ended := True\<rparr>)"
| read_other: "Read sel n (cl \<sigma>) = (c', r) \<Longrightarrow> r = None \<or> (\<exists>e. r = Some (GoErr e)) \<Longrightarrow> frag_step stream H \<sigma> (\<sigma>\<lparr>cl := c'\<rparr>)"

text \<open>Frames satisfy \<open>genuine\<close> and a condition on their number; so do the answers and what waits at the client.\<close>

definition sys_ok :: "bytes list \<Rightarrow> (32 word \<Rightarrow> bool) \<Rightarrow> (32 word \<Rightarrow> bool) \<Rightarrow> fragSys \<Rightarrow> bool" where
  "sys_ok stream P C \<sigma> \<longleftrightarrow> holds (\<lambda>f. genuine stream f \<and> P (fseq f)) C (srv \<sigma>) \<and> list_all (answer (\<lambda>f. genuine stream f \<and> P (fseq f))) (wire \<sigma>) \<and>
    conn_ok stream (cl \<sigma>) (got \<sigma>) \<and> (ended \<sigma> \<longrightarrow> got \<sigma> = concat stream)"

lemma Read_cases:
  assumes "stream_ok stream" "conn_ok stream c g" "Read sel n c = (c', r)"
  shows "conn_ok stream c' (g @ (case r of Some (GoOk b) \<Rightarrow> b | _ \<Rightarrow> []))"
proof -
  obtain c1 st where l: "readLoop sel c = (c1, st)" by (cases "readLoop sel c")
  then have ok: "conn_ok stream c1 g" using readLoop_ok [OF assms(1,2), of sel] by simp
  have "conn_ok stream (c1\<lparr>readBuf := drop n (readBuf c1)\<rparr>) (g @ take n (readBuf c1))" using ok by (simp add: conn_ok_def)
  then show ?thesis using assms(2,3) l ok by (cases st) (auto simp: Read_def split: if_split_asm)
qed

lemma Read_end:
  assumes "stream_ok stream" "conn_ok stream c g" "Read sel n c = (c', Some (GoErr EOF))" "\<forall>k. sel k \<noteq> Some EOF"
  shows "g = concat stream"
proof -
  obtain c1 st where l: "readLoop sel c = (c1, st)" by (cases "readLoop sel c")
  then have ok: "conn_ok stream c1 g" "stop_ok sel (c1, st)" using readLoop_ok [OF assms(1,2), of sel] by simp_all
  have "st = Ended \<or> st = Failed EOF" using assms(3) l by (cases st) (auto simp: Read_def split: if_split_asm)
  then have "st = Ended" using ok(2) assms(4) by (auto simp: stop_ok_def)
  then have "readBuf c1 = []" "unat (nextSeq c1) = length stream + 1" using ok by (simp_all add: stop_ok_def conn_ok_def)
  then show ?thesis using ok(1) by (simp add: conn_ok_def)
qed

lemma deliver_ok: "conn_ok stream c g \<Longrightarrow> result_ok stream res \<Longrightarrow> conn_ok stream (deliver res c) g"
  by (simp add: conn_ok_def deliver_def)

lemma list_all_remove1: "list_all P xs \<Longrightarrow> list_all P (remove1 x xs)"
  by (auto simp: list_all_iff dest: notin_set_remove1 set_remove1_subset [THEN subsetD])

lemma conn_prefix: "conn_ok stream c g \<Longrightarrow> prefix g (concat stream)"
proof -
  assume "conn_ok stream c g"
  then have "g @ readBuf c @ concat (drop (unat (nextSeq c)) stream) = concat (take (unat (nextSeq c)) stream) @ concat (drop (unat (nextSeq c)) stream)"
    by (simp add: conn_ok_def flip: append_assoc)
  also have "\<dots> = concat stream" by (simp flip: concat_append)
  finally show ?thesis by (metis prefixI)
qed

lemma frag_step_ok:
  assumes "frag_step stream H \<sigma> \<sigma>'" "stream_ok stream" "steady stream H (\<lambda>f. genuine stream f \<and> P (fseq f)) C" "sys_ok stream P C \<sigma>"
  shows "sys_ok stream P C \<sigma>'"
  using assms
proof (induction rule: frag_step.induct)
  case (server \<sigma> s') then show ?case using holds_move by (simp add: sys_ok_def)
next
  case (poll env ff ack \<sigma> s' bs)
  then show ?case using nextDownResponse_handled [of stream H env "\<lambda>f. genuine stream f \<and> P (fseq f)" C "srv \<sigma>" ff ack]
    by (simp add: sys_ok_def handled_def)
next
  case (lose \<sigma> bs) then show ?case by (simp add: sys_ok_def list_all_remove1)
next
  case (arrive bs \<sigma> secure mp res)
  have "answer (\<lambda>f. genuine stream f \<and> P (fseq f)) bs" using arrive.prems(3) arrive.hyps(1) by (auto simp: sys_ok_def list_all_iff)
  then have "result_ok stream res" using answer_decodes [OF arrive.prems(1) _ arrive.hyps(2)] by blast
  then show ?case using arrive.prems(3) by (simp add: sys_ok_def list_all_remove1 deliver_ok)
next
  case (read_data sel n \<sigma> c' b)
  then have c: "conn_ok stream c' (got \<sigma> @ b)" using Read_cases [of stream "cl \<sigma>" "got \<sigma>" sel n c' "Some (GoOk b)"] by (simp add: sys_ok_def)
  have "b = []" if "got \<sigma> = concat stream"
  proof -
    have "length (got \<sigma> @ b) \<le> length (concat stream)" using conn_prefix [OF c] by (rule prefix_length_le)
    then show ?thesis using that by simp
  qed
  then show ?case using read_data.prems(3) c by (auto simp: sys_ok_def)
next
  case (read_end sel n \<sigma> c')
  then show ?case using Read_end [of stream "cl \<sigma>" "got \<sigma>" sel n c'] Read_cases [of stream "cl \<sigma>" "got \<sigma>" sel n c' "Some (GoErr EOF)"] by (simp add: sys_ok_def)
next
  case (read_other sel n \<sigma> c' r)
  then show ?case using Read_cases [of stream "cl \<sigma>" "got \<sigma>" sel n c' r] by (auto simp: sys_ok_def)
qed

lemma frag_steps_ok:
  "(frag_step stream H)\<^sup>*\<^sup>* \<sigma> \<sigma>' \<Longrightarrow> stream_ok stream \<Longrightarrow> steady stream H (\<lambda>f. genuine stream f \<and> P (fseq f)) C \<Longrightarrow> sys_ok stream P C \<sigma> \<Longrightarrow> sys_ok stream P C \<sigma>'"
  by (induction rule: rtranclp_induct) (auto intro: frag_step_ok)

lemma fragStart_ok: "C 0 \<Longrightarrow> sys_ok stream P C fragStart"
  by (simp add: sys_ok_def fragStart_def newSession_def newConn_def holds_def ring_ok_def ringFrames_def conn_ok_def replayRingSize_def)

lemma steady_genuine: "steady stream (Collect (genuine stream)) (\<lambda>f. genuine stream f \<and> True) (\<lambda>q. True)"
  by (simp add: steady_def genuine_def)

end
