(* ===== verification/FragRecovery.thy ===== *)
theory FragRecovery
  imports FragDown
begin

text \<open>
  What the retransmission of internal/transport/fragpoc/server.go recovers and what it does not: a frame in the
  replay ring is sent again, but the ring is shorter than what a busy session hands out before it
  looks at the ring, so that one lost answer can stop a stream for good.
\<close>

section \<open>Lost answers\<close>

text \<open>A frame that is still in the ring is sent again: at once when nothing else waits, and after sixteen answers at the
  same acknowledgement unless the next frame is one of the four that follow.\<close>

lemma replay_recovers:
  assumes "f \<in> set (ringFrames s)" "fseq f = ack" "frameCh s = [] \<or> lastRetransmitAck s = ack \<and> servedSinceAck s \<ge> retransmitAfter"
  shows "\<exists>g. snd (nextDownResponse (\<lambda>k s. s) ff ack s) = encodeDownFrame g \<and> (fseq g = ack \<or> \<not> fseq g \<ge> ack + retransmitGap)"
proof -
  obtain s0 rt where r: "shouldRetransmit ack s = (s0, rt)" by (cases "shouldRetransmit ack s")
  have s0: "ringFrames s0 = ringFrames s" "frameCh s0 = frameCh s" using r by (auto simp: shouldRetransmit_def Let_def split: if_split_asm)
  have x: "\<exists>g. findReplay ack t = Some g \<and> fseq g = ack" if "ringFrames t = ringFrames s" for t
    using findReplay_exact [of f t ack] assms(1,2) that by metis
  show ?thesis
  proof (cases "frameCh s")
    case Nil
    then have "recvCh s0 = None" using s0 by (simp add: recvCh_def)
    then show ?thesis using x [OF s0(1)] unfolding nextDownResponse_def r by (auto simp: Let_def)
  next
    case (Cons h t)
    then have rt: "rt" using assms(3) r by (auto simp: shouldRetransmit_def Let_def)
    have "recvCh s0 = Some (h, s0\<lparr>frameCh := t, touches := touches s0 + 1\<rparr>)" using s0 Cons by (simp add: recvCh_def)
    moreover obtain g where "findReplay ack (s0\<lparr>frameCh := t, touches := touches s0 + 1\<rparr>) = Some g" "fseq g = ack" using x [of "s0\<lparr>frameCh := t, touches := touches s0 + 1\<rparr>"] s0(1) by auto
    ultimately show ?thesis using rt unfolding nextDownResponse_def r
      by (cases "fseq h \<ge> ack + retransmitGap") (auto simp: Let_def serveFrame_def intro: exI [of _ g] exI [of _ h])
  qed
qed

text \<open>The client waits for number \<open>a\<close>, and no such frame is left anywhere.\<close>

definition other :: "32 word \<Rightarrow> downResult \<Rightarrow> bool" where
  "other a res \<longleftrightarrow> (if reof res then rseq res > a else rbuf res = [] \<or> rseq res \<noteq> a)"

definition conn_stalled :: "32 word \<Rightarrow> Conn \<Rightarrow> bool" where
  "conn_stalled a c \<longleftrightarrow> nextSeq c = a \<and> recvAck c = a \<and> readBuf c = [] \<and> list_all (other a) (downCh c) \<and> map_of (pendingFrames c) a = None \<and> (haveEOF c \<longrightarrow> eofSeq c \<noteq> a)"

definition stalled :: "bytes list \<Rightarrow> 32 word \<Rightarrow> fragSys \<Rightarrow> bool" where
  "stalled stream a \<sigma> \<longleftrightarrow> holds (\<lambda>f. genuine stream f \<and> fseq f \<noteq> a) (\<lambda>q. q > a) (srv \<sigma>) \<and>
    list_all (answer (\<lambda>f. genuine stream f \<and> fseq f \<noteq> a)) (wire \<sigma>) \<and> conn_stalled a (cl \<sigma>)"

lemma takeResult_stalled:
  assumes "conn_stalled a c" "other a res"
  shows "\<exists>c'. takeResult res c = (c', None) \<and> conn_stalled a c'"
  using assms by (cases "reof res") (auto simp: takeResult_def conn_stalled_def other_def map_of_update_alist)

lemma readLoop_stalled:
  "conn_stalled a c \<Longrightarrow> conn_stalled a (fst (readLoop sel c)) \<and> (snd (readLoop sel c) = Waiting \<or> (\<exists>e k. snd (readLoop sel c) = Failed e \<and> sel k = Some e))"
proof (induction sel c rule: readLoop.induct)
  case (1 sel c)
  have c: "readBuf c = []" "map_of (pendingFrames c) (nextSeq c) = None" "\<not> (haveEOF c \<and> eofSeq c = nextSeq c)"
    using "1.prems" by (auto simp: conn_stalled_def)
  show ?case
  proof (cases "sel (length (downCh c))")
    case (Some e) then show ?thesis using c "1.prems" by (auto simp: readLoop.simps [of sel c])
  next
    case None
    show ?thesis
    proof (cases "downCh c")
      case Nil then show ?thesis using None c "1.prems" by (auto simp: readLoop.simps [of sel c])
    next
      case (Cons res rest)
      have "conn_stalled a (c\<lparr>downCh := rest\<rparr>)" "other a res" using "1.prems" Cons by (simp_all add: conn_stalled_def)
      then obtain c' where t: "takeResult res (c\<lparr>downCh := rest\<rparr>) = (c', None)" "conn_stalled a c'" using takeResult_stalled by blast
      have "readLoop sel c = readLoop sel c'" using None Cons c t(1) by (auto simp: readLoop.simps [of sel c])
      then show ?thesis using "1.IH" [OF _ c(2,3) None Cons t(1) [symmetric] refl t(2)] c(1) by simp
    qed
  qed
qed

lemma Read_stalled:
  assumes "conn_stalled a c" "Read sel n c = (c', r)"
  shows "conn_stalled a c' \<and> (\<forall>b. r \<noteq> Some (GoOk b)) \<and> (r = Some (GoErr EOF) \<longrightarrow> (\<exists>k. sel k = Some EOF))"
proof -
  obtain c1 st where l: "readLoop sel c = (c1, st)" by (cases "readLoop sel c")
  then show ?thesis using assms l readLoop_stalled [OF assms(1), of sel]
    by (cases st) (auto simp: Read_def split: if_split_asm)
qed

lemma answer_other:
  assumes "stream_ok stream" "unat a < length stream" "answer (\<lambda>f. genuine stream f \<and> fseq f \<noteq> a) bs" "decodeDown secure mp bs = GoOk res"
  shows "other a res"
  using answer_decodes [OF assms(1), of "\<lambda>q. q \<noteq> a" bs secure mp res] assms(2-4)
  by (auto simp: other_def result_ok_def word_less_nat_alt split: if_split_asm)

lemma deliver_stalled: "conn_stalled a c \<Longrightarrow> other a res \<Longrightarrow> conn_stalled a (deliver res c)"
  by (simp add: conn_stalled_def deliver_def)

text \<open>The frames that other handlers hold are genuine and not the lost one.\<close>

definition withoutFrame :: "bytes list \<Rightarrow> 32 word \<Rightarrow> downFrame set" where
  "withoutFrame stream a = {f. genuine stream f \<and> fseq f \<noteq> a}"

lemma steady_without:
  assumes "stream_ok stream"
  shows "steady stream (withoutFrame stream a) (\<lambda>f. genuine stream f \<and> fseq f \<noteq> a) (\<lambda>q. q > a)"
proof -
  have "q + 1 > a" if "q > a" "unat q < length stream" for q
    using that seq_next [OF assms, of q] by (simp add: word_less_nat_alt)
  then show ?thesis by (auto simp: steady_def genuine_def withoutFrame_def)
qed

lemma stalled_step:
  assumes "frag_step stream (withoutFrame stream a) \<sigma> \<sigma>'" "stream_ok stream" "unat a < length stream" "stalled stream a \<sigma>"
  shows "stalled stream a \<sigma>' \<and> got \<sigma>' = got \<sigma> \<and> ended \<sigma>' = ended \<sigma>"
  using assms
proof (induction rule: frag_step.induct)
  case (server \<sigma> s') then show ?case using holds_move [OF _ steady_without] by (simp add: stalled_def)
next
  case (poll env ff ack \<sigma> s' bs)
  then show ?case using nextDownResponse_handled [OF _ steady_without, of stream a env "srv \<sigma>" ff ack]
    by (simp add: stalled_def handled_def)
next
  case (lose \<sigma> bs) then show ?case by (simp add: stalled_def list_all_remove1)
next
  case (arrive bs \<sigma> secure mp res)
  have "answer (\<lambda>f. genuine stream f \<and> fseq f \<noteq> a) bs" using arrive.prems(3) arrive.hyps(1) by (auto simp: stalled_def list_all_iff)
  then have "other a res" using answer_other [OF arrive.prems(1,2) _ arrive.hyps(2)] by blast
  then show ?case using arrive.prems(3) by (simp add: stalled_def list_all_remove1 deliver_stalled)
next
  case (read_data sel n \<sigma> c' b) then show ?case using Read_stalled [of a "cl \<sigma>" sel n c' "Some (GoOk b)"] by (simp add: stalled_def)
next
  case (read_end sel n \<sigma> c') then show ?case using Read_stalled [of a "cl \<sigma>" sel n c' "Some (GoErr EOF)"] by (simp add: stalled_def)
next
  case (read_other sel n \<sigma> c' r) then show ?case using Read_stalled [of a "cl \<sigma>" sel n c' r] by (simp add: stalled_def)
qed

lemma stalled_forever:
  "(frag_step stream (withoutFrame stream a))\<^sup>*\<^sup>* \<sigma> \<sigma>' \<Longrightarrow> stream_ok stream \<Longrightarrow> unat a < length stream \<Longrightarrow> stalled stream a \<sigma> \<Longrightarrow>
   stalled stream a \<sigma>' \<and> got \<sigma>' = got \<sigma> \<and> ended \<sigma>' = ended \<sigma>"
proof (induction rule: rtranclp_induct)
  case (step y z) then show ?case using stalled_step [of stream a y z] by simp
qed simp

text \<open>A run with one client that polls one answer at a time.\<close>

datatype fragEvent = Pump | Poll | Lose | Arrive | ReadAll

definition pump :: "bytes list \<Rightarrow> session \<Rightarrow> session" where
  "pump stream s = producerSend (if blocked s = None \<and> \<not> producerDone s \<and> unat (pseq s) < length stream then produceData (stream ! unat (pseq s)) s else s)"

fun runEvent :: "bytes list \<Rightarrow> fragEvent \<Rightarrow> fragSys \<Rightarrow> fragSys" where
  "runEvent stream Pump \<sigma> = \<sigma>\<lparr>srv := pump stream (srv \<sigma>)\<rparr>"
| "runEvent stream Poll \<sigma> = (case nextDownResponse (\<lambda>k s. s) True (recvAck (cl \<sigma>)) (srv \<sigma>) of (s', bs) \<Rightarrow> \<sigma>\<lparr>srv := s', wire := bs # wire \<sigma>\<rparr>)"
| "runEvent stream Lose \<sigma> = (case wire \<sigma> of [] \<Rightarrow> \<sigma> | bs # w \<Rightarrow> \<sigma>\<lparr>wire := w\<rparr>)"
| "runEvent stream Arrive \<sigma> = (case wire \<sigma> of [] \<Rightarrow> \<sigma>
     | bs # w \<Rightarrow> (case decodeDown True MaxPayload bs of GoOk res \<Rightarrow> \<sigma>\<lparr>wire := w, cl := deliver res (cl \<sigma>)\<rparr> | _ \<Rightarrow> \<sigma>))"
| "runEvent stream ReadAll \<sigma> = (case Read (\<lambda>k. None) MaxPayload (cl \<sigma>) of (c', Some (GoOk b)) \<Rightarrow> \<sigma>\<lparr>cl := c', got := got \<sigma> @ b\<rparr>
     | (c', Some (GoErr EOF)) \<Rightarrow> \<sigma>\<lparr>cl := c', ended := True\<rparr> | (c', r) \<Rightarrow> \<sigma>\<lparr>cl := c'\<rparr>)"

definition runEvents :: "bytes list \<Rightarrow> fragEvent list \<Rightarrow> fragSys \<Rightarrow> fragSys" where
  "runEvents stream es \<sigma> = fold (runEvent stream) es \<sigma>"

lemma pump_moves: "(srv_move stream H)\<^sup>*\<^sup>* s (pump stream s)"
proof (cases "blocked s = None \<and> \<not> producerDone s \<and> unat (pseq s) < length stream")
  case True
  then have "srv_move stream H s (produceData (stream ! unat (pseq s)) s)" by (intro srv_move.data) simp_all
  moreover have "srv_move stream H (produceData (stream ! unat (pseq s)) s) (pump stream s)" using True srv_move.send by (simp add: pump_def)
  ultimately show ?thesis by (rule converse_rtranclp_into_rtranclp [OF _ r_into_rtranclp])
next
  case False
  then have "pump stream s = producerSend s" unfolding pump_def by (intro arg_cong [of _ _ producerSend] if_not_P)
  then show ?thesis using srv_move.send [of stream H s] by (simp add: r_into_rtranclp)
qed

lemma server_moves: "(srv_move stream H)\<^sup>*\<^sup>* (srv \<sigma>) s' \<Longrightarrow> (frag_step stream H)\<^sup>*\<^sup>* \<sigma> (\<sigma>\<lparr>srv := s'\<rparr>)"
proof (induction rule: rtranclp_induct)
  case (step y z)
  then have "frag_step stream H (\<sigma>\<lparr>srv := y\<rparr>) ((\<sigma>\<lparr>srv := y\<rparr>)\<lparr>srv := z\<rparr>)" by (intro frag_step.server) simp
  then show ?case using step.IH by simp
qed simp

lemma runEvent_step: "(frag_step stream H)\<^sup>*\<^sup>* \<sigma> (runEvent stream e \<sigma>)"
proof (cases e)
  case Pump then show ?thesis using server_moves [OF pump_moves] by simp
next
  case Poll
  have "env_moves stream H (\<lambda>k s. s)" by (simp add: env_moves_def)
  from frag_step.poll [OF this] show ?thesis using Poll by (auto split: prod.split)
next
  case Lose then show ?thesis using frag_step.lose [of stream H \<sigma> "hd (wire \<sigma>)"] by (auto split: list.split)
next
  case Arrive
  have "frag_step stream H \<sigma> (\<sigma>\<lparr>wire := w, cl := deliver res (cl \<sigma>)\<rparr>)" if "wire \<sigma> = bs # w" "decodeDown True MaxPayload bs = GoOk res" for bs w res
    using frag_step.arrive [of bs \<sigma> True MaxPayload res stream H] that by simp
  then show ?thesis using Arrive by (auto split: list.split gores.split)
next
  case ReadAll
  obtain c' r where R: "Read (\<lambda>k. None) MaxPayload (cl \<sigma>) = (c', r)" by (cases "Read (\<lambda>k. None) MaxPayload (cl \<sigma>)")
  show ?thesis
  proof (cases r)
    case None then show ?thesis using R ReadAll frag_step.read_other [OF R] by auto
  next
    case (Some x)
    moreover have "r \<noteq> Some GoPanic" using R by (auto simp: Read_def split: if_split_asm prod.splits readStop.splits)
    ultimately show ?thesis using R ReadAll frag_step.read_data [of "\<lambda>k. None" MaxPayload \<sigma> c'] frag_step.read_end [of "\<lambda>k. None" MaxPayload \<sigma> c']
        frag_step.read_other [OF R] by (cases x) (auto split: ioError.split)
  qed
qed

lemma runEvents_steps: "(frag_step stream H)\<^sup>*\<^sup>* \<sigma> (runEvents stream es \<sigma>)"
  unfolding runEvents_def
proof (induction es arbitrary: \<sigma>)
  case (Cons e es) then show ?case using runEvent_step [of stream H \<sigma> e] by (simp add: rtranclp_trans)
qed simp

text \<open>A bulk transfer of 64 chunks that loses its first answer, and no other.\<close>

definition bulk :: "bytes list" where
  "bulk = replicate 64 [1]"

definition round :: "fragEvent list" where
  "round = [Poll, Arrive, ReadAll, Pump, Pump]"

definition lossRun :: "fragEvent list" where
  "lossRun = replicate 17 Pump @ [Poll, Lose, Pump, Pump] @ concat (replicate 15 round)"

definition chunk :: "nat \<Rightarrow> downFrame" where
  "chunk i = \<lparr>fseq = word_of_nat i, fdata = [1], feof = False\<rparr>"

text \<open>The session after \<open>k\<close> polls, with the channel full and the producer waiting.\<close>

definition chunks :: "nat \<Rightarrow> nat \<Rightarrow> downFrame list" where
  "chunks i j = map chunk [i..<j]"

lemma chunks_snoc: "i \<le> j \<Longrightarrow> chunks i (Suc j) = chunks i j @ [chunk j]"
  by (simp add: chunks_def)

lemma chunks_cons: "i < j \<Longrightarrow> chunks i j = chunk i # chunks (Suc i) j"
  by (simp add: chunks_def upt_rec)

lemma length_chunks [simp]: "length (chunks i j) = j - i"
  by (simp add: chunks_def)

definition busy :: "nat \<Rightarrow> session \<Rightarrow> bool" where
  "busy k s \<longleftrightarrow> frameCh s = chunks k (k + 16) \<and> blocked s = Some (chunk (k + 16)) \<and> ring_ok s \<and>
    ringFrames s = chunks (k + 17 - 32) (k + 17) \<and> pseq s = word_of_nat (k + 17) \<and> \<not> producerDone s \<and>
    lastRetransmitAck s = 0 \<and> servedSinceAck s = int k"

definition filling :: "nat \<Rightarrow> session \<Rightarrow> bool" where
  "filling j s \<longleftrightarrow> frameCh s = chunks 0 j \<and> blocked s = None \<and> ring_ok s \<and> ringFrames s = chunks 0 j \<and>
    pseq s = word_of_nat j \<and> \<not> producerDone s \<and> lastRetransmitAck s = 0 \<and> servedSinceAck s = 0"

lemma push_counts [simp]:
  "lastRetransmitAck (pushReplay f s) = lastRetransmitAck s" "servedSinceAck (pushReplay f s) = servedSinceAck s"
  by (simp_all add: pushReplay_def Let_def)

lemma chunk_eq: "q = word_of_nat i \<Longrightarrow> i < 64 \<Longrightarrow> \<lparr>fseq = q, fdata = bulk ! unat q, feof = False\<rparr> = chunk i"
  by (simp add: chunk_def bulk_def unat_of_nat)

lemma pump_produces:
  assumes "blocked s = None" "\<not> producerDone s" "pseq s = word_of_nat i" "i < 64"
  shows "pump bulk s = producerSend ((pushReplay (chunk i) (s\<lparr>pseq := word_of_nat (i + 1), touches := touches s + 1\<rparr>))\<lparr>blocked := Some (chunk i)\<rparr>)"
proof -
  have "unat (pseq s) < length bulk" using assms(3,4) by (simp add: bulk_def unat_of_nat)
  then show ?thesis using assms chunk_eq [OF assms(3,4)] unfolding pump_def produceData_def Let_def by (simp add: add.commute)
qed

lemma pump_filling:
  assumes "filling j s" "j < 16"
  shows "filling (j + 1) (pump bulk s)"
proof -
  have "replayLen s = j" using assms(1) length_ringFrames [of s] by (simp add: filling_def)
  then show ?thesis using assms pump_produces [of s j]
    by (simp add: filling_def producerSend_def ringFrames_push push_ring_ok replayRingSize_def frameChCap_def chunks_snoc chunk_def)
qed

lemma pump_full:
  assumes "filling 16 s"
  shows "busy 0 (pump bulk s)"
proof -
  have "replayLen s = 16" using assms length_ringFrames [of s] by (simp add: filling_def)
  then show ?thesis using assms pump_produces [of s 16] chunks_snoc [of 0 16]
    by (simp add: filling_def busy_def producerSend_def ringFrames_push push_ring_ok replayRingSize_def frameChCap_def)
qed

lemma poll_busy:
  assumes "busy k s" "k < 16"
  shows "\<exists>s'. nextDownResponse (\<lambda>k s. s) ff 0 s = (s', encodeDownFrame (chunk k)) \<and> busy (k + 1) (pump bulk (pump bulk s'))"
proof -
  let ?s = "s\<lparr>servedSinceAck := int (k + 1), frameCh := chunks (k + 1) (k + 16), touches := touches s + 1\<rparr>"
  have r: "shouldRetransmit 0 s = (s\<lparr>servedSinceAck := int (k + 1)\<rparr>, False)"
    using assms by (simp add: shouldRetransmit_def busy_def Let_def retransmitAfter_def MaxDownWindow_def)
  have "recvCh (s\<lparr>servedSinceAck := int (k + 1)\<rparr>) = Some (chunk k, ?s)" using assms chunks_cons [of k "k + 16"] by (simp add: recvCh_def busy_def)
  then have n: "nextDownResponse (\<lambda>k s. s) ff 0 s = (?s, encodeDownFrame (chunk k))" by (simp add: nextDownResponse_def r serveFrame_def)
  let ?t = "?s\<lparr>frameCh := chunks (k + 1) (k + 17), blocked := None, producerDone := False\<rparr>"
  have e: "k + 17 = Suc (k + 16)" "k + 18 = Suc (k + 17)" by simp_all
  have c: "chunks (k + 1) (k + 17) = chunks (k + 1) (k + 16) @ [chunk (k + 16)]" "chunks 0 (k + 18) = chunks 0 (k + 17) @ [chunk (k + 17)]"
    "chunks (Suc 0) (k + 18) = chunks (Suc 0) (k + 17) @ [chunk (k + 17)]"
    unfolding e by (rule chunks_snoc, simp)+
  have p: "pump bulk ?s = ?t" unfolding c using assms by (simp add: pump_def producerSend_def busy_def frameChCap_def chunk_def)
  have l: "replayLen s = k + 17" using assms length_ringFrames [of s] by (simp add: busy_def)
  have "ringFrames (pushReplay (chunk (k + 17)) (?t\<lparr>pseq := word_of_nat (k + 17 + 1), touches := touches ?t + 1\<rparr>)) = chunks (k + 18 - 32) (k + 18)"
  proof (cases "k = 15")
    case True
    then show ?thesis using assms l c(3) chunks_cons [of 0 "k + 17"] by (simp add: ringFrames_push busy_def replayRingSize_def)
  next
    case False
    then show ?thesis using assms l c(2) by (simp add: ringFrames_push busy_def replayRingSize_def)
  qed
  then have "busy (k + 1) (pump bulk ?t)" using assms pump_produces [of ?t "k + 17"]
    by (simp add: busy_def producerSend_def push_ring_ok frameChCap_def add.commute [of 17 k] add.commute [of 18 k] add.commute [of 18 "word_of_nat k"] add.commute [of 1 "int k"])
  then show ?thesis using n p by auto
qed

definition waiting :: "nat \<Rightarrow> fragSys \<Rightarrow> bool" where
  "waiting k \<sigma> \<longleftrightarrow> busy k (srv \<sigma>) \<and> wire \<sigma> = [] \<and> conn_stalled 0 (cl \<sigma>) \<and> got \<sigma> = [] \<and> \<not> ended \<sigma>"

lemma runEvents_simps [simp]:
  "runEvents stream [] \<sigma> = \<sigma>" "runEvents stream (e # es) \<sigma> = runEvents stream es (runEvent stream e \<sigma>)"
  "runEvents stream (es @ es') \<sigma> = runEvents stream es' (runEvents stream es \<sigma>)"
  by (simp_all add: runEvents_def)

lemma chunk_decodes: "decodeDown True MaxPayload (encodeDownFrame (chunk k)) = GoOk \<lparr>rseq = word_of_nat k, rbuf = [1], reof = False\<rparr>"
  using decode_frame [of "chunk k" True MaxPayload] by (simp add: chunk_def MaxPayload_def)

lemma chunk_number: "k < 64 \<Longrightarrow> (word_of_nat k :: 32 word) = 0 \<longleftrightarrow> k = 0"
  by (auto simp: word_of_nat_eq_0_iff dest: dvd_imp_le)

lemma read_stalled:
  assumes "conn_stalled 0 (cl \<sigma>)"
  shows "\<exists>c'. conn_stalled 0 c' \<and> runEvent bulk ReadAll \<sigma> = \<sigma>\<lparr>cl := c'\<rparr>"
proof -
  obtain c' r where R: "Read (\<lambda>k. None) MaxPayload (cl \<sigma>) = (c', r)" by (cases "Read (\<lambda>k. None) MaxPayload (cl \<sigma>)")
  have s: "conn_stalled 0 c'" "\<forall>b. r \<noteq> Some (GoOk b)" "r \<noteq> Some (GoErr EOF)" using Read_stalled [OF assms R] by auto
  then show ?thesis using R by (intro exI [of _ c']) (auto split: option.split gores.split ioError.split)
qed

lemma first_lost:
  assumes "waiting 0 \<sigma>"
  shows "waiting 1 (runEvents bulk [Poll, Lose, Pump, Pump] \<sigma>)"
proof -
  have "recvAck (cl \<sigma>) = 0" using assms by (simp add: waiting_def conn_stalled_def)
  moreover obtain s' where "nextDownResponse (\<lambda>k s. s) True 0 (srv \<sigma>) = (s', encodeDownFrame (chunk 0))" "busy 1 (pump bulk (pump bulk s'))"
    using poll_busy [of 0 "srv \<sigma>" True] assms by (auto simp: waiting_def)
  ultimately show ?thesis using assms by (simp add: waiting_def)
qed

lemma round_waiting:
  assumes "waiting k \<sigma>" "0 < k" "k < 16"
  shows "waiting (k + 1) (runEvents bulk round \<sigma>)"
proof -
  have "recvAck (cl \<sigma>) = 0" using assms by (simp add: waiting_def conn_stalled_def)
  moreover obtain s' where p: "nextDownResponse (\<lambda>k s. s) True 0 (srv \<sigma>) = (s', encodeDownFrame (chunk k))" "busy (k + 1) (pump bulk (pump bulk s'))"
    using poll_busy [of k "srv \<sigma>" True] assms by (auto simp: waiting_def)
  moreover define res where "res = \<lparr>rseq = word_of_nat k, rbuf = [1], reof = False\<rparr>"
  ultimately have a: "runEvent bulk Arrive (runEvent bulk Poll \<sigma>) = \<sigma>\<lparr>srv := s', wire := [], cl := deliver res (cl \<sigma>)\<rparr>" (is "_ = ?\<tau>")
    using assms(1) chunk_decodes [of k] by (simp add: waiting_def)
  have "other 0 res" using chunk_number [of k] assms(2,3) by (simp add: other_def res_def)
  then have "conn_stalled 0 (cl ?\<tau>)" using deliver_stalled assms(1) by (simp add: waiting_def)
  then obtain c' where c: "conn_stalled 0 c'" "runEvent bulk ReadAll ?\<tau> = ?\<tau>\<lparr>cl := c'\<rparr>" using read_stalled by blast
  have "runEvents bulk round \<sigma> = runEvent bulk Pump (runEvent bulk Pump (runEvent bulk ReadAll ?\<tau>))" unfolding round_def runEvents_simps a ..
  then show ?thesis unfolding c(2) using p(2) c(1) assms(1) by (simp add: waiting_def)
qed

lemma fill_pumps: "filling j (srv \<sigma>) \<Longrightarrow> j + n \<le> 16 \<Longrightarrow> \<exists>s. runEvents bulk (replicate n Pump) \<sigma> = \<sigma>\<lparr>srv := s\<rparr> \<and> filling (j + n) s"
proof (induction n arbitrary: j \<sigma>)
  case 0 then show ?case by (intro exI [of _ "srv \<sigma>"]) simp
next
  case (Suc n)
  then show ?case using Suc.IH [of "j + 1" "runEvent bulk Pump \<sigma>"] pump_filling [of j "srv \<sigma>"] by fastforce
qed

lemma start_busy: "\<exists>s. runEvents bulk (replicate 17 Pump) fragStart = fragStart\<lparr>srv := s\<rparr> \<and> busy 0 s"
proof -
  have "filling 0 (srv fragStart)"
    by (simp add: filling_def fragStart_def newSession_def chunks_def ring_ok_def ringFrames_def replayRingSize_def)
  then obtain s where s: "runEvents bulk (replicate 16 Pump) fragStart = fragStart\<lparr>srv := s\<rparr>" "filling 16 s"
    using fill_pumps [of 0 fragStart 16] by auto
  have "replicate 17 Pump = replicate 16 Pump @ [Pump]" by (metis replicate_append_same replicate_Suc eval_nat_numeral(3) numeral_eq_Suc)
  then have "runEvents bulk (replicate 17 Pump) fragStart = fragStart\<lparr>srv := pump bulk s\<rparr>" using s(1) by (simp only: runEvents_simps runEvent.simps) simp
  then show ?thesis using pump_full [OF s(2)] by blast
qed

lemma start_waiting: "waiting 0 (runEvents bulk (replicate 17 Pump) fragStart)"
  using start_busy by (auto simp: waiting_def fragStart_def conn_stalled_def newConn_def)

lemma rounds_waiting: "waiting k \<sigma> \<Longrightarrow> 0 < k \<Longrightarrow> k + n \<le> 16 \<Longrightarrow> waiting (k + n) (runEvents bulk (concat (replicate n round)) \<sigma>)"
proof (induction n arbitrary: k \<sigma>)
  case (Suc n) then show ?case using Suc.IH [of "k + 1" "runEvents bulk round \<sigma>"] round_waiting [of k \<sigma>] by simp
qed simp

lemma loss_waiting: "waiting 16 (runEvents bulk lossRun fragStart)"
  using rounds_waiting [OF first_lost [OF start_waiting], of 15] by (simp add: lossRun_def)

lemma waiting_stalled:
  assumes "waiting 16 \<sigma>"
  shows "stalled bulk 0 \<sigma>"
proof -
  have c: "genuine bulk (chunk i) \<and> fseq (chunk i) \<noteq> 0" if "0 < i" "i < 64" for i
    using that chunk_number [of i] by (simp add: genuine_def chunk_def bulk_def unat_of_nat)
  have "list_all (\<lambda>f. genuine bulk f \<and> fseq f \<noteq> 0) (chunks i j)" if "0 < i" "j \<le> 64" for i j
    using that c by (auto simp: chunks_def list_all_iff)
  then show ?thesis using assms c [of 32] by (simp add: stalled_def waiting_def busy_def holds_def)
qed

text \<open>C33. One lost answer can stop a stream for good: in a bulk transfer of 64 chunks to a client that polls one answer at a time, when
  the first answer is lost and every later one arrives, sixteen polls later the lost chunk has left the
  replay ring although the server has not yet looked at the ring; from then on, whatever happens, the
  application reads nothing and is never told the end of the stream.\<close>

theorem one_lost_answer_stalls_stream:
  assumes "(frag_step bulk (withoutFrame bulk 0))\<^sup>*\<^sup>* (runEvents bulk lossRun fragStart) \<sigma>"
  shows "count_list lossRun Lose = 1 \<and> got \<sigma> = [] \<and> \<not> ended \<sigma>"
proof -
  have "stream_ok bulk" by (simp add: stream_ok_def bulk_def MaxPayload_def)
  moreover have "count_list lossRun Lose = 1" by code_simp
  ultimately show ?thesis using stalled_forever [OF assms _ _ waiting_stalled [OF loss_waiting]] loss_waiting
    by (simp add: waiting_def bulk_def)
qed

theorem one_lost_answer_stalls_stream_witness:
  "got (runEvents bulk (concat (replicate 100 round)) (runEvents bulk lossRun fragStart)) = []"
  using one_lost_answer_stalls_stream [OF runEvents_steps [of bulk "withoutFrame bulk 0" _ "concat (replicate 100 round)"]] by simp



end
