(* ===== verification/FragServer.thy ===== *)
theory FragServer
  imports FragDown NetAddr
begin

text \<open>
  The requests of the fragmenting transport: the sealed bodies of secure.go, the session table and every request
  handler of server.go, and the requests that client.go builds. Each request arrives on a connection of its
  own; a handler maps the bytes of that connection to the new table and the bytes it answers. The cipher,
  the hash, the random source, the clock, the check of short IDs, the pipe to the upstream handler and
  the port manager are fields of an environment. The answer to a DOWN request is in the theory \<open>FragDown\<close>.
\<close>

section \<open>Sealed bodies\<close>

definition OpOpen :: byte where "OpOpen = 0x01"
definition OpUp :: byte where "OpUp = 0x02"
definition OpDown :: byte where "OpDown = 0x03"
definition OpClose :: byte where "OpClose = 0x04"
definition OpPortHint :: byte where "OpPortHint = 0x05"
definition AckOK :: byte where "AckOK = 0x00"
definition AckErr :: byte where "AckErr = 0xff"
definition OpOpenSecure :: byte where "OpOpenSecure = 0x81"
definition OpUpSecure :: byte where "OpUpSecure = 0x82"
definition OpDownSecure :: byte where "OpDownSecure = 0x83"
definition OpCloseSecure :: byte where "OpCloseSecure = 0x84"
definition OpOpenSecureCompat :: byte where "OpOpenSecureCompat = 0x06"
definition OpUpSecureCompat :: byte where "OpUpSecureCompat = 0x07"
definition OpDownSecureCompat :: byte where "OpDownSecureCompat = 0x08"
definition OpCloseSecureCompat :: byte where "OpCloseSecureCompat = 0x09"

definition secureOverhead :: nat where "secureOverhead = 16"

definition secureNonceLen :: nat where "secureNonceLen = 12"

definition secureOpenMarker :: byte where "secureOpenMarker = 0x21"

definition secureWireOp :: "byte \<Rightarrow> byte" where
  "secureWireOp op = (if op = OpOpenSecure then OpOpen else if op = OpUpSecure then OpUp else if op = OpDownSecure then OpDown
     else if op = OpCloseSecure then OpClose else op)"

text \<open>\<open>sealOf key nonce ad plain\<close> and \<open>openOf key nonce ad sealed\<close> are ChaCha20-Poly1305; \<open>sha\<close> is SHA-256; \<open>nonce\<close> and \<open>newSid\<close> what the
  random source returns, if anything; \<open>pipeOK\<close> whether the upstream handler takes a chunk in time; \<open>respOK\<close> whether the answer
  to an open request could be sent.\<close>

record fragEnv =
  sealOf :: "bytes \<Rightarrow> bytes \<Rightarrow> bytes \<Rightarrow> bytes \<Rightarrow> bytes"
  openOf :: "bytes \<Rightarrow> bytes \<Rightarrow> bytes \<Rightarrow> bytes \<Rightarrow> bytes option"
  sha :: "bytes \<Rightarrow> bytes"
  nonce :: "bytes option"
  newSid :: "bytes option"
  nowE :: int
  sessionTTL :: int
  authorize :: "bytes \<Rightarrow> bool"
  pipeOK :: bool
  respOK :: bool
  destinationLimit :: nat
  portHint :: "(bytes \<Rightarrow> int list \<Rightarrow> int list) option"
  others :: "nat \<Rightarrow> session \<Rightarrow> session"
  frameFirst :: bool

definition deriveSecureStaticKey :: "fragEnv \<Rightarrow> bytes \<Rightarrow> bytes" where
  "deriveSecureStaticKey E shortID = sha E (bytes_of_str ''tamizdat fragpoc secure static v1'' @ [0] @ shortID)"

definition deriveSecureSessionKey :: "fragEnv \<Rightarrow> bytes \<Rightarrow> bytes \<Rightarrow> bytes \<Rightarrow> bytes" where
  "deriveSecureSessionKey E staticKey sid openNonce = sha E (bytes_of_str ''tamizdat fragpoc secure session v1'' @ [0] @ staticKey @ sid @ openNonce)"

definition secureRequestAD :: "byte \<Rightarrow> bytes \<Rightarrow> bytes" where
  "secureRequestAD op ident = 0x71 # op # ident"

definition secureResponseAD :: "byte \<Rightarrow> bytes \<Rightarrow> bytes" where
  "secureResponseAD op ident = 0x72 # op # ident"

definition writeSecureBodyWithNonce :: "fragEnv \<Rightarrow> bytes \<Rightarrow> bytes \<Rightarrow> bytes \<Rightarrow> bytes \<Rightarrow> (ioError, bytes) gores" where
  "writeSecureBodyWithNonce E key ad n plaintext =
    (if length n \<noteq> secureNonceLen then GoErr ErrProtocol
     else let sealed = sealOf E key n ad plaintext in
       if length sealed > 0xffff then GoErr ErrProtocol else GoOk (n @ put16 (length sealed) @ sealed))"

definition writeSecureBody :: "fragEnv \<Rightarrow> bytes \<Rightarrow> bytes \<Rightarrow> bytes \<Rightarrow> (ioError, bytes) gores" where
  "writeSecureBody E key ad plaintext = (case nonce E of None \<Rightarrow> GoErr EOF | Some n \<Rightarrow> writeSecureBodyWithNonce E key ad n plaintext)"

definition readSecureBody :: "fragEnv \<Rightarrow> bytes \<Rightarrow> bytes \<Rightarrow> nat \<Rightarrow> bytes \<Rightarrow> (ioError, bytes \<times> bytes) gores" where
  "readSecureBody E key ad plaintextLimit input =
    go_bind (read_full (secureNonceLen + 2) input) (\<lambda>(hdr, rest).
    go_bind (idx hdr secureNonceLen) (\<lambda>h. go_bind (idx hdr (secureNonceLen + 1)) (\<lambda>l.
     let sealedLen = be16 h l in
     if sealedLen > plaintextLimit + secureOverhead then GoErr ErrProtocol
     else go_bind (read_full sealedLen rest) (\<lambda>(sealed, _).
       case openOf E key (take secureNonceLen hdr) ad sealed of
         None \<Rightarrow> GoErr ErrProtocol
       | Some plaintext \<Rightarrow> if length plaintext > plaintextLimit then GoErr ErrProtocol else GoOk (plaintext, take secureNonceLen hdr)))))"

section \<open>Strings ended by a zero byte\<close>

primrec readNULLoop :: "nat \<Rightarrow> bytes \<Rightarrow> bytes \<Rightarrow> (ioError, bytes) gores" where
  "readNULLoop limit buf [] = (if length buf \<le> limit then GoErr EOF else GoErr ErrTooLarge)"
| "readNULLoop limit buf (b # r) =
    (if length buf \<le> limit then if b = 0 then GoOk buf else readNULLoop limit (buf @ [b]) r else GoErr ErrTooLarge)"

definition readNULStringWithPrefix :: "byte \<Rightarrow> nat \<Rightarrow> bytes \<Rightarrow> (ioError, bytes) gores" where
  "readNULStringWithPrefix first limit r =
    (let limit = (if limit = 0 then 512 else limit) in if first = 0 then GoOk [] else readNULLoop limit [first] r)"

definition readNULString :: "nat \<Rightarrow> bytes \<Rightarrow> (ioError, bytes) gores" where
  "readNULString limit r = go_bind (read_full 1 r) (\<lambda>(f, r). go_bind (idx f 0) (\<lambda>first. readNULStringWithPrefix first limit r))"

primrec readNULFrom :: "nat \<Rightarrow> bytes \<Rightarrow> nat \<Rightarrow> bytes \<Rightarrow> (ioError, bytes) gores" where
  "readNULFrom limit p i [] = GoErr ErrTooLarge"
| "readNULFrom limit p i (b # r) = (if i > limit then GoErr ErrTooLarge else if b = 0 then GoOk (take i p) else readNULFrom limit p (Suc i) r)"

definition readNULBytes :: "bytes \<Rightarrow> nat \<Rightarrow> (ioError, bytes) gores" where
  "readNULBytes p limit = (let limit = (if limit = 0 then 512 else limit) in readNULFrom limit p 0 p)"

section \<open>The session table\<close>

text \<open>\<open>upstream\<close> are the bytes handed to the upstream handler; \<open>destination\<close> and \<open>owner\<close> what the handler was started with.\<close>

record fragSession =
  secure :: bool
  secureKey :: bytes
  lastUsed :: int
  upstream :: bytes
  destination :: bytes
  owner :: bytes
  downSide :: session

type_synonym fragServer = "(bytes \<times> fragSession) list"

definition cleanupExpiredLocked :: "fragEnv \<Rightarrow> fragServer \<Rightarrow> fragServer" where
  "cleanupExpiredLocked E s = filter (\<lambda>(sid, sess). nowE E - lastUsed sess \<le> sessionTTL E) s"

definition addSession :: "fragEnv \<Rightarrow> bytes \<Rightarrow> fragSession \<Rightarrow> fragServer \<Rightarrow> fragServer" where
  "addSession E sid sess s = AList.update sid sess (cleanupExpiredLocked E s)"

definition getSession :: "fragEnv \<Rightarrow> bytes \<Rightarrow> fragServer \<Rightarrow> fragServer \<times> fragSession option" where
  "getSession E sid s = (let s = cleanupExpiredLocked E s in (s, map_of s sid))"

definition deleteSession :: "bytes \<Rightarrow> fragServer \<Rightarrow> fragServer" where
  "deleteSession sid s = AList.delete sid s"

definition touch :: "fragEnv \<Rightarrow> fragSession \<Rightarrow> fragSession" where
  "touch E sess = sess\<lparr>lastUsed := nowE E\<rparr>"

section \<open>Handlers\<close>

definition answerWith :: "(ioError, bytes) gores \<Rightarrow> bytes" where
  "answerWith r = (case r of GoOk bs \<Rightarrow> bs | _ \<Rightarrow> [])"

text \<open>The common end of the two open handlers: draw a number, enter the session, answer.\<close>

definition openSession :: "fragEnv \<Rightarrow> bool \<Rightarrow> bytes \<Rightarrow> bytes \<Rightarrow> bytes \<Rightarrow> bytes \<Rightarrow> fragServer \<Rightarrow> fragServer \<times> bytes" where
  "openSession E sec staticKey openNonce shortID dest s =
    (let failAck = (if sec then answerWith (writeSecureBody E staticKey (secureResponseAD OpOpenSecure shortID) [AckErr]) else [AckErr]) in
     case newSid E of None \<Rightarrow> (s, failAck)
     | Some sid \<Rightarrow>
        let sess = \<lparr>secure = sec, secureKey = (if sec then deriveSecureSessionKey E staticKey sid openNonce else []), lastUsed = nowE E,
              upstream = [], destination = dest, owner = shortID, downSide = newSession\<rparr>;
            s = addSession E sid sess s;
            resp = AckOK # sid in
        if respOK E then
          if sec then
            (case writeSecureBody E staticKey (secureResponseAD OpOpenSecure shortID) resp of GoOk bs \<Rightarrow> (s, bs) | _ \<Rightarrow> (deleteSession sid s, []))
          else (s, resp)
        else (deleteSession sid s, []))"

definition handleOpenSecureBody :: "fragEnv \<Rightarrow> bytes \<Rightarrow> bytes \<Rightarrow> fragServer \<Rightarrow> fragServer \<times> bytes" where
  "handleOpenSecureBody E shortID input s =
    (let staticKey = deriveSecureStaticKey E shortID;
         failAck = answerWith (writeSecureBody E staticKey (secureResponseAD OpOpenSecure shortID) [AckErr]) in
     case readSecureBody E staticKey (secureRequestAD OpOpenSecure shortID) (destinationLimit E + 1) input of
       GoOk (plain, openNonce) \<Rightarrow>
         if \<not> authorize E shortID then (s, failAck)
         else (case readNULBytes plain (destinationLimit E) of
            GoOk dest \<Rightarrow> if dest = [] then (s, failAck) else openSession E True staticKey openNonce shortID dest s
          | _ \<Rightarrow> (s, failAck))
     | _ \<Rightarrow> (s, []))"

definition handleOpenSecure :: "fragEnv \<Rightarrow> bytes \<Rightarrow> fragServer \<Rightarrow> fragServer \<times> bytes" where
  "handleOpenSecure E input s = (case read_full ShortIDLen input of GoOk (shortID, r) \<Rightarrow> handleOpenSecureBody E shortID r s | _ \<Rightarrow> (s, []))"

definition handleOpen :: "fragEnv \<Rightarrow> bytes \<Rightarrow> fragServer \<Rightarrow> fragServer \<times> bytes" where
  "handleOpen E input s =
    (case read_full ShortIDLen input of
       GoOk (shortID, r) \<Rightarrow>
         if \<not> authorize E shortID then (s, [AckErr])
         else (case r of
            [] \<Rightarrow> (s, [AckErr])
          | first # r \<Rightarrow>
              if first = secureOpenMarker then handleOpenSecureBody E shortID r s
              else (case readNULStringWithPrefix first (destinationLimit E) r of
                 GoOk dest \<Rightarrow> if dest = [] then (s, [AckErr]) else openSession E False [] [] shortID dest s
               | _ \<Rightarrow> (s, [AckErr])))
     | _ \<Rightarrow> (s, [AckErr]))"

definition handleUpSecureSession :: "fragEnv \<Rightarrow> bytes \<Rightarrow> fragSession \<Rightarrow> bytes \<Rightarrow> fragServer \<Rightarrow> fragServer \<times> bytes" where
  "handleUpSecureSession E sid sess input s =
    (let ack = (\<lambda>b. answerWith (writeSecureBody E (secureKey sess) (secureResponseAD OpUpSecure sid) [b])) in
     case readSecureBody E (secureKey sess) (secureRequestAD OpUpSecure sid) (2 + MaxUpPayload) input of
       GoOk (plain, _) \<Rightarrow>
         if length plain < 2 then (s, ack AckErr)
         else let n = be16 (plain ! 0) (plain ! 1) in
           if n > MaxUpPayload \<or> length plain \<noteq> 2 + n then (s, ack AckErr)
           else if \<not> pipeOK E then (s, ack AckErr)
           else (AList.update sid (touch E (sess\<lparr>upstream := upstream sess @ drop 2 plain\<rparr>)) s, ack AckOK)
     | _ \<Rightarrow> (s, ack AckErr))"

text \<open>\<open>readSession\<close> and \<open>readSecureSession\<close>.\<close>

definition readSession :: "fragEnv \<Rightarrow> bytes \<Rightarrow> fragServer \<Rightarrow> fragServer \<times> (bytes \<times> fragSession \<times> bytes) option" where
  "readSession E input s =
    (case read_full SIDLen input of
       GoOk (sid, r) \<Rightarrow> (case getSession E sid s of (s, None) \<Rightarrow> (s, None) | (s, Some sess) \<Rightarrow> (s, Some (sid, sess, r)))
     | _ \<Rightarrow> (s, None))"

definition readSecureSession :: "fragEnv \<Rightarrow> bytes \<Rightarrow> fragServer \<Rightarrow> fragServer \<times> (bytes \<times> fragSession \<times> bytes) option" where
  "readSecureSession E input s =
    (case readSession E input s of (s, Some (sid, sess, r)) \<Rightarrow> (s, if secure sess then Some (sid, sess, r) else None) | (s, None) \<Rightarrow> (s, None))"

definition handleUp :: "fragEnv \<Rightarrow> bytes \<Rightarrow> fragServer \<Rightarrow> fragServer \<times> bytes" where
  "handleUp E input s =
    (case readSession E input s of
       (s, None) \<Rightarrow> (s, [AckErr])
     | (s, Some (sid, sess, r)) \<Rightarrow>
        if secure sess then handleUpSecureSession E sid sess r s
        else (case read_full 2 r of
           GoOk (hdr, r) \<Rightarrow>
             let n = be16 (hdr ! 0) (hdr ! 1) in
             if n > MaxUpPayload then (s, [AckErr])
             else (case read_full n r of
                GoOk (buf, _) \<Rightarrow>
                  if \<not> pipeOK E then (s, [AckErr])
                  else (AList.update sid (touch E (sess\<lparr>upstream := upstream sess @ buf\<rparr>)) s, [AckOK])
              | _ \<Rightarrow> (s, [AckErr]))
         | _ \<Rightarrow> (s, [AckErr])))"

definition handleUpSecure :: "fragEnv \<Rightarrow> bytes \<Rightarrow> fragServer \<Rightarrow> fragServer \<times> bytes" where
  "handleUpSecure E input s =
    (case readSecureSession E input s of (s, None) \<Rightarrow> (s, []) | (s, Some (sid, sess, r)) \<Rightarrow> handleUpSecureSession E sid sess r s)"

definition readDownRequest :: "bytes \<Rightarrow> 32 word option" where
  "readDownRequest input =
    (case read_full 6 input of
       GoOk (hdr, r) \<Rightarrow>
         let ack = be32 (take 4 hdr); n = be16 (hdr ! 4) (hdr ! 5) in
         if n > DownRequestSize then None else if n = 0 then Some ack else if n \<le> length r then Some ack else None
     | _ \<Rightarrow> None)"

definition readDownRequestBytes :: "bytes \<Rightarrow> 32 word option" where
  "readDownRequestBytes p =
    (if length p < 6 then None
     else let ack = be32 (take 4 p); n = be16 (p ! 4) (p ! 5) in
       if n > DownRequestSize then None else if length p = 6 + n then Some ack else None)"

text \<open>The answer to a poll; the session is touched when a frame came from the channel.\<close>

definition downAnswer :: "fragEnv \<Rightarrow> bytes \<Rightarrow> fragSession \<Rightarrow> 32 word \<Rightarrow> fragServer \<Rightarrow> fragServer \<times> bytes" where
  "downAnswer E sid sess ack s =
    (case nextDownResponse (others E) (frameFirst E) ack (downSide sess) of
       (d, bs) \<Rightarrow> (AList.update sid ((if touches d = touches (downSide sess) then sess else touch E sess)\<lparr>downSide := d\<rparr>) s, bs))"

definition handleDownSecureSession :: "fragEnv \<Rightarrow> bytes \<Rightarrow> fragSession \<Rightarrow> bytes \<Rightarrow> fragServer \<Rightarrow> fragServer \<times> bytes" where
  "handleDownSecureSession E sid sess input s =
    (let seal = (\<lambda>p. answerWith (writeSecureBody E (secureKey sess) (secureResponseAD OpDownSecure sid) p)) in
     case readSecureBody E (secureKey sess) (secureRequestAD OpDownSecure sid) DownRequestSize input of
       GoOk (plain, _) \<Rightarrow>
         (case readDownRequestBytes plain of
            None \<Rightarrow> (s, seal [AckErr])
          | Some ack \<Rightarrow> (case downAnswer E sid sess ack s of (s, bs) \<Rightarrow> (s, seal bs)))
     | _ \<Rightarrow> (s, seal [AckErr]))"

definition handleDown :: "fragEnv \<Rightarrow> bytes \<Rightarrow> fragServer \<Rightarrow> fragServer \<times> bytes" where
  "handleDown E input s =
    (case readSession E input s of
       (s, None) \<Rightarrow> (s, [AckErr])
     | (s, Some (sid, sess, r)) \<Rightarrow>
        if secure sess then handleDownSecureSession E sid sess r s
        else (case readDownRequest r of None \<Rightarrow> (s, [AckErr]) | Some ack \<Rightarrow> downAnswer E sid sess ack s))"

definition handleDownSecure :: "fragEnv \<Rightarrow> bytes \<Rightarrow> fragServer \<Rightarrow> fragServer \<times> bytes" where
  "handleDownSecure E input s =
    (case readSecureSession E input s of (s, None) \<Rightarrow> (s, []) | (s, Some (sid, sess, r)) \<Rightarrow> handleDownSecureSession E sid sess r s)"

definition handleCloseSecureSession :: "fragEnv \<Rightarrow> bytes \<Rightarrow> fragSession \<Rightarrow> bytes \<Rightarrow> fragServer \<Rightarrow> fragServer \<times> bytes" where
  "handleCloseSecureSession E sid sess input s =
    (let ack = (\<lambda>b. answerWith (writeSecureBody E (secureKey sess) (secureResponseAD OpCloseSecure sid) [b])) in
     case readSecureBody E (secureKey sess) (secureRequestAD OpCloseSecure sid) 0 input of
       GoOk _ \<Rightarrow> (deleteSession sid s, ack AckOK)
     | _ \<Rightarrow> (s, ack AckErr))"

definition handleClose :: "fragEnv \<Rightarrow> bytes \<Rightarrow> fragServer \<Rightarrow> fragServer \<times> bytes" where
  "handleClose E input s =
    (case read_full SIDLen input of
       GoOk (sid, r) \<Rightarrow>
         (case getSession E sid s of
            (s, Some sess) \<Rightarrow> if secure sess then handleCloseSecureSession E sid sess r s else (deleteSession sid s, [AckOK])
          | (s, None) \<Rightarrow> (deleteSession sid s, [AckOK]))
     | _ \<Rightarrow> (s, [AckErr]))"

definition handleCloseSecure :: "fragEnv \<Rightarrow> bytes \<Rightarrow> fragServer \<Rightarrow> fragServer \<times> bytes" where
  "handleCloseSecure E input s =
    (case readSecureSession E input s of (s, None) \<Rightarrow> (s, []) | (s, Some (sid, sess, r)) \<Rightarrow> handleCloseSecureSession E sid sess r s)"

definition parsePortCSV :: "string \<Rightarrow> int list" where
  "parsePortCSV s = concat (map (\<lambda>tok. let tok = trim_space tok in
     if tok = [] then [] else case Atoi tok of None \<Rightarrow> [] | Some p \<Rightarrow> if p < 1 \<or> p > 65535 then [] else [p]) (split_on (CHR '','') s))"

fun itoa :: "nat \<Rightarrow> string" where
  "itoa n = (if n < 10 then [char_of (48 + n)] else itoa (n div 10) @ [char_of (48 + n mod 10)])"

declare itoa.simps [simp del]

fun joinWith :: "char \<Rightarrow> string list \<Rightarrow> string" where
  "joinWith c [] = []"
| "joinWith c [x] = x"
| "joinWith c (x # y # xs) = x @ [c] @ joinWith c (y # xs)"

definition formatPortCSV :: "int list \<Rightarrow> string" where
  "formatPortCSV ports = joinWith (CHR '','') (map (\<lambda>p. if p < 0 then CHR ''-'' # itoa (nat (- p)) else itoa (nat p)) ports)"

definition handlePortHint :: "fragEnv \<Rightarrow> bytes \<Rightarrow> bytes" where
  "handlePortHint E input =
    (case read_full ShortIDLen input of
       GoOk (shortID, r) \<Rightarrow>
         if \<not> authorize E shortID then [AckErr]
         else (case readNULString 1024 r of
            GoOk csv \<Rightarrow> (case portHint E of None \<Rightarrow> [AckErr]
              | Some h \<Rightarrow> AckOK # bytes_of_str (formatPortCSV (h shortID (parsePortCSV (str_of_bytes csv)))) @ [0])
          | _ \<Rightarrow> [AckErr])
     | _ \<Rightarrow> [AckErr])"

definition ServeConn :: "fragEnv \<Rightarrow> bytes \<Rightarrow> fragServer \<Rightarrow> fragServer \<times> bytes" where
  "ServeConn E input s =
    (case input of
       [] \<Rightarrow> (s, [])
     | op # r \<Rightarrow>
        if op = OpOpen then handleOpen E r s
        else if op = OpUp then handleUp E r s
        else if op = OpDown then handleDown E r s
        else if op = OpClose then handleClose E r s
        else if op = OpOpenSecure \<or> op = OpOpenSecureCompat then handleOpenSecure E r s
        else if op = OpUpSecure \<or> op = OpUpSecureCompat then handleUpSecure E r s
        else if op = OpDownSecure \<or> op = OpDownSecureCompat then handleDownSecure E r s
        else if op = OpCloseSecure \<or> op = OpCloseSecureCompat then handleCloseSecure E r s
        else if op = OpPortHint then (s, handlePortHint E r)
        else (s, [AckErr]))"

section \<open>The requests of the client\<close>

definition openRequest :: "bytes \<Rightarrow> bytes \<Rightarrow> bytes" where
  "openRequest shortID dest = OpOpen # shortID @ dest @ [0]"

definition openSecureRequest :: "fragEnv \<Rightarrow> bytes \<Rightarrow> bytes \<Rightarrow> bytes \<Rightarrow> (ioError, bytes) gores" where
  "openSecureRequest E n shortID dest =
    go_bind (writeSecureBodyWithNonce E (deriveSecureStaticKey E shortID) (secureRequestAD OpOpenSecure shortID) n (dest @ [0]))
      (\<lambda>b. GoOk (secureWireOp OpOpenSecure # shortID @ [secureOpenMarker] @ b))"

definition upRequest :: "bytes \<Rightarrow> bytes \<Rightarrow> (ioError, bytes) gores" where
  "upRequest sid p = (if length p > MaxUpPayload then GoErr ErrTooLarge else GoOk (OpUp # sid @ put16 (length p) @ p))"

definition upSecureRequest :: "fragEnv \<Rightarrow> bytes \<Rightarrow> bytes \<Rightarrow> bytes \<Rightarrow> (ioError, bytes) gores" where
  "upSecureRequest E key sid p =
    (if length p > MaxUpPayload then GoErr ErrTooLarge
     else go_bind (writeSecureBody E key (secureRequestAD OpUpSecure sid) (put16 (length p) @ p)) (\<lambda>b. GoOk (secureWireOp OpUpSecure # sid @ b)))"

text \<open>\<open>Conn.Write\<close>: chunks of the random sizes \<open>rnd\<close>, each at least 480 bytes, sent one after the other; \<open>send\<close> performs one exchange.\<close>

definition upChunkMin :: nat where "upChunkMin = 480"

definition upChunkMax :: nat where "upChunkMax = 620"

definition randomUpChunk :: "nat \<Rightarrow> nat" where
  "randomUpChunk r = upChunkMin + r mod (upChunkMax - upChunkMin + 1)"

function WriteConn :: "(bytes \<Rightarrow> 's \<Rightarrow> 's \<times> bool) \<Rightarrow> (nat \<Rightarrow> nat) \<Rightarrow> nat \<Rightarrow> bytes \<Rightarrow> 's \<Rightarrow> 's \<times> nat \<times> bool" where
  "WriteConn send rnd k p s =
    (if p = [] then (s, 0, True)
     else let n = min (randomUpChunk (rnd k)) (length p) in
       (case send (take n p) s of
          (s, False) \<Rightarrow> (s, 0, False)
        | (s, True) \<Rightarrow> (case WriteConn send rnd (Suc k) (drop n p) s of (s, t, ok) \<Rightarrow> (s, n + t, ok))))"
  by pat_completeness auto
termination
  by (relation "measure (\<lambda>(send, rnd, k, p, s). length p)") (auto simp: randomUpChunk_def upChunkMin_def)

declare WriteConn.simps [simp del]

section \<open>Sealed bodies come back\<close>

text \<open>What RFC 8439 says of the cipher: opening undoes sealing under the same key, nonce and associated data, and a sealed text
  is sixteen bytes longer.\<close>

definition aead_ok :: "fragEnv \<Rightarrow> bool" where
  "aead_ok E \<longleftrightarrow> (\<forall>k n a p. openOf E k n a (sealOf E k n a p) = Some p \<and> length (sealOf E k n a p) = length p + secureOverhead)"

lemma read_full_eq: "length a = n \<Longrightarrow> read_full n (a @ r) = GoOk (a, r)"
  by (simp add: read_full_def)

lemma secure_body:
  assumes "aead_ok E" "length n = secureNonceLen" "length p \<le> limit" "limit + secureOverhead \<le> 65535"
  obtains b where "writeSecureBodyWithNonce E key ad n p = GoOk b" "\<And>r. readSecureBody E key ad limit (b @ r) = GoOk (p, n)"
proof -
  let ?c = "sealOf E key n ad p"
  have l: "length ?c = length p + secureOverhead" "openOf E key n ad ?c = Some p" using assms(1) by (simp_all add: aead_ok_def)
  then have w: "writeSecureBodyWithNonce E key ad n p = GoOk (n @ put16 (length ?c) @ ?c)"
    using assms by (simp add: writeSecureBodyWithNonce_def Let_def)
  have "readSecureBody E key ad limit ((n @ put16 (length ?c) @ ?c) @ r) = GoOk (p, n)" for r
  proof -
    let ?hdr = "n @ put16 (length ?c)"
    have h: "read_full (secureNonceLen + 2) ((n @ put16 (length ?c) @ ?c) @ r) = GoOk (?hdr, ?c @ r)"
      using read_full_eq [of ?hdr "secureNonceLen + 2" "?c @ r"] assms(2) by simp
    have i: "idx ?hdr secureNonceLen = (GoOk (put16 (length ?c) ! 0) :: (ioError, byte) gores)"
      "idx ?hdr (secureNonceLen + 1) = (GoOk (put16 (length ?c) ! 1) :: (ioError, byte) gores)"
      using assms(2) by (simp_all add: idx_def nth_append)
    have "be16 (put16 (length ?c) ! 0) (put16 (length ?c) ! 1) = length ?c" using be16_nth_put16 [of "length ?c"] l(1) assms(3,4) by simp
    then show ?thesis unfolding readSecureBody_def h using i l assms(2,3) read_full_eq [of ?c "length ?c" r] by (simp add: Let_def)
  qed
  then show thesis using that w by blast
qed

text \<open>Every body that is accepted was opened by the cipher under that key and label.\<close>

lemma readSecureBody_opened:
  "readSecureBody E key ad limit input = GoOk (p, n) \<Longrightarrow> \<exists>c. openOf E key n ad c = Some p"
  by (auto simp: readSecureBody_def go_bind_GoOk Let_def split: if_split_asm option.splits)

section \<open>The session table\<close>

lemma map_of_cleanup:
  "distinct (map fst s) \<Longrightarrow> map_of (cleanupExpiredLocked E s) sid =
    (case map_of s sid of None \<Rightarrow> None | Some sess \<Rightarrow> if nowE E - lastUsed sess \<le> sessionTTL E then Some sess else None)"
proof (induction s)
  case (Cons a s)
  have "map_of s (fst a) = None" using Cons.prems by (auto simp: map_of_eq_None_iff)
  then show ?case using Cons by (cases a) (auto simp: cleanupExpiredLocked_def)
qed (simp add: cleanupExpiredLocked_def)

lemma distinct_cleanup: "distinct (map fst s) \<Longrightarrow> distinct (map fst (cleanupExpiredLocked E s))"
  by (induction s) (auto simp: cleanupExpiredLocked_def)

text \<open>What a request may leave of session \<open>sid\<close>, which is \<open>sess\<close> before.\<close>

definition opened :: "fragEnv \<Rightarrow> fragSession \<Rightarrow> byte \<Rightarrow> bytes \<Rightarrow> bytes \<Rightarrow> bool" where
  "opened E sess op sid p \<longleftrightarrow> (\<exists>n c. openOf E (secureKey sess) n (secureRequestAD op sid) c = Some p)"

definition guarded :: "fragEnv \<Rightarrow> bytes \<Rightarrow> fragSession \<Rightarrow> fragSession option \<Rightarrow> bool" where
  "guarded E sid sess r \<longleftrightarrow>
    (case r of
       None \<Rightarrow> nowE E - lastUsed sess > sessionTTL E \<or> (\<exists>p. opened E sess OpCloseSecure sid p)
     | Some sess' \<Rightarrow> secure sess' \<and> secureKey sess' = secureKey sess \<and> owner sess' = owner sess \<and> destination sess' = destination sess \<and>
        (upstream sess' = upstream sess \<or> (\<exists>h d. length h = 2 \<and> opened E sess OpUpSecure sid (h @ d) \<and> upstream sess' = upstream sess @ d)) \<and>
        (downSide sess' = downSide sess \<or> (\<exists>p. opened E sess OpDownSecure sid p)))"

lemma guarded_same: "secure sess \<Longrightarrow> guarded E sid sess (Some sess)"
  by (simp add: guarded_def)

lemma guarded_cleanup:
  "distinct (map fst s) \<Longrightarrow> map_of s sid = Some sess \<Longrightarrow> secure sess \<Longrightarrow> guarded E sid sess (map_of (cleanupExpiredLocked E s) sid)"
  by (simp add: map_of_cleanup guarded_def)

lemma guarded_up:
  assumes "map_of s sid = Some sess" "secure sess"
  shows "guarded E sid sess (map_of (fst (handleUpSecureSession E sid sess input s)) sid)"
proof (cases "readSecureBody E (secureKey sess) (secureRequestAD OpUpSecure sid) (2 + MaxUpPayload) input")
  case (GoOk x)
  obtain p n where x: "x = (p, n)" by (cases x)
  have o: "opened E sess OpUpSecure sid p" using readSecureBody_opened [OF GoOk [unfolded x]] by (auto simp: opened_def)
  then have "opened E sess OpUpSecure sid (take 2 p @ drop 2 p)" by simp
  then have "guarded E sid sess (Some (touch E (sess\<lparr>upstream := upstream sess @ drop 2 p\<rparr>)))" if "\<not> length p < 2"
    using that assms(2) unfolding guarded_def touch_def by (auto intro!: exI [of _ "take 2 p"])
  then show ?thesis using GoOk x assms guarded_same by (simp add: handleUpSecureSession_def Let_def map_of_update_alist)
qed (use assms guarded_same in \<open>simp_all add: handleUpSecureSession_def Let_def\<close>)

lemma guarded_down:
  assumes "map_of s sid = Some sess" "secure sess"
  shows "guarded E sid sess (map_of (fst (handleDownSecureSession E sid sess input s)) sid)"
proof (cases "readSecureBody E (secureKey sess) (secureRequestAD OpDownSecure sid) DownRequestSize input")
  case (GoOk x)
  obtain p n where x: "x = (p, n)" by (cases x)
  have "\<exists>p. opened E sess OpDownSecure sid p" using readSecureBody_opened [OF GoOk [unfolded x]] by (auto simp: opened_def)
  then have "guarded E sid sess (map_of (fst (downAnswer E sid sess ack s)) sid)" for ack
    using assms by (simp add: downAnswer_def map_of_update_alist guarded_def touch_def case_prod_beta)
  then show ?thesis using GoOk x assms guarded_same
    by (auto simp: handleDownSecureSession_def Let_def split: option.split prod.split) (metis fst_conv)
qed (use assms guarded_same in \<open>simp_all add: handleDownSecureSession_def Let_def\<close>)

lemma guarded_close:
  assumes "map_of s sid = Some sess" "secure sess"
  shows "guarded E sid sess (map_of (fst (handleCloseSecureSession E sid sess input s)) sid)"
proof (cases "readSecureBody E (secureKey sess) (secureRequestAD OpCloseSecure sid) 0 input")
  case (GoOk x)
  obtain p n where x: "x = (p, n)" by (cases x)
  have "\<exists>p. opened E sess OpCloseSecure sid p" using readSecureBody_opened [OF GoOk [unfolded x]] by (auto simp: opened_def)
  then show ?thesis using GoOk by (simp add: handleCloseSecureSession_def deleteSession_def map_of_delete_alist guarded_def)
qed (use assms guarded_same in \<open>simp_all add: handleCloseSecureSession_def Let_def\<close>)

text \<open>Handlers of other sessions leave this one alone.\<close>

lemma other_session:
  assumes "sid' \<noteq> sid"
  shows "map_of (fst (handleUpSecureSession E sid' sess' input s)) sid = map_of s sid"
    "map_of (fst (handleDownSecureSession E sid' sess' input s)) sid = map_of s sid"
    "map_of (fst (handleCloseSecureSession E sid' sess' input s)) sid = map_of s sid"
    "map_of (fst (downAnswer E sid' sess' ack s)) sid = map_of s sid"
  using assms
  by (auto simp: handleUpSecureSession_def handleDownSecureSession_def handleCloseSecureSession_def downAnswer_def deleteSession_def
      map_of_update_alist map_of_delete_alist Let_def split: gores.split prod.split option.split)

lemma readSession_form:
  assumes "readSession E input s = (s1, r)"
  shows "s1 = s \<and> r = None \<or> s1 = cleanupExpiredLocked E s \<and> (r = None \<or> (\<exists>sid sess rest. r = Some (sid, sess, rest) \<and> map_of s1 sid = Some sess))"
  using assms by (auto simp: readSession_def getSession_def Let_def split: gores.splits prod.splits option.splits)

definition watched :: "fragEnv \<Rightarrow> bytes \<Rightarrow> fragSession \<Rightarrow> fragServer \<Rightarrow> bool" where
  "watched E sid sess s \<longleftrightarrow> map_of s sid = Some sess \<or> map_of s sid = None \<and> guarded E sid sess None"

lemma watched_guarded: "secure sess \<Longrightarrow> watched E sid sess s \<Longrightarrow> guarded E sid sess (map_of s sid)"
  using guarded_same by (auto simp: watched_def)

lemma watched_cleanup: "distinct (map fst s) \<Longrightarrow> map_of s sid = Some sess \<Longrightarrow> watched E sid sess (cleanupExpiredLocked E s)"
  by (simp add: watched_def map_of_cleanup guarded_def)

lemma readSession_watched:
  assumes "distinct (map fst s)" "map_of s sid = Some sess" "readSession E input s = (s1, r)"
  shows "watched E sid sess s1"
  using readSession_form [OF assms(3)] watched_cleanup [OF assms(1,2), of E] assms(2) by (auto simp: watched_def)

lemma handleUp_guarded:
  assumes "distinct (map fst s)" "map_of s sid = Some sess" "secure sess"
  shows "guarded E sid sess (map_of (fst (handleUp E input s)) sid)"
proof -
  obtain s1 r where r: "readSession E input s = (s1, r)" by (cases "readSession E input s")
  note w = readSession_watched [OF assms(1,2) r]
  show ?thesis
  proof (cases r)
    case None then show ?thesis using r w watched_guarded [OF assms(3) w] by (simp add: handleUp_def)
  next
    case (Some x)
    then obtain sid' sess' rest where x: "r = Some (sid', sess', rest)" "map_of s1 sid' = Some sess'" using readSession_form [OF r] by auto
    show ?thesis
    proof (cases "sid' = sid")
      case True
      then have "sess' = sess" using w x(2) by (auto simp: watched_def)
      then show ?thesis using guarded_up [OF x(2)] True assms(3) r x(1) by (simp add: handleUp_def)
    next
      case False
      then have "map_of (fst (handleUp E input s)) sid = map_of s1 sid"
        using r x(1) other_session(1) [OF False] by (auto simp: handleUp_def map_of_update_alist Let_def split: gores.split prod.split)
      then show ?thesis using watched_guarded [OF assms(3) w] by simp
    qed
  qed
qed

lemma handleDown_guarded:
  assumes "distinct (map fst s)" "map_of s sid = Some sess" "secure sess"
  shows "guarded E sid sess (map_of (fst (handleDown E input s)) sid)"
proof -
  obtain s1 r where r: "readSession E input s = (s1, r)" by (cases "readSession E input s")
  note w = readSession_watched [OF assms(1,2) r]
  show ?thesis
  proof (cases r)
    case None then show ?thesis using r w watched_guarded [OF assms(3) w] by (simp add: handleDown_def)
  next
    case (Some x)
    then obtain sid' sess' rest where x: "r = Some (sid', sess', rest)" "map_of s1 sid' = Some sess'" using readSession_form [OF r] by auto
    show ?thesis
    proof (cases "sid' = sid")
      case True
      then have "sess' = sess" using w x(2) by (auto simp: watched_def)
      then show ?thesis using guarded_down [OF x(2)] True assms(3) r x(1) by (simp add: handleDown_def)
    next
      case False
      then have "map_of (fst (handleDown E input s)) sid = map_of s1 sid"
        using r x(1) other_session(2,4) [OF False] by (simp add: handleDown_def split: option.split)
      then show ?thesis using watched_guarded [OF assms(3) w] by simp
    qed
  qed
qed

lemma readSecure_form:
  assumes "readSecureSession E input s = (s1, r)"
  shows "\<exists>r'. readSession E input s = (s1, r') \<and> (r = None \<or> r = r')"
  using assms by (auto simp: readSecureSession_def split: prod.splits option.splits if_split_asm)

text \<open>The three handlers of the secure operation codes.\<close>

lemma secure_handler_guarded:
  assumes "distinct (map fst s)" "map_of s sid = Some sess" "secure sess"
    and "\<And>s1 rest. map_of s1 sid = Some sess \<Longrightarrow> guarded E sid sess (map_of (fst (h sid sess rest s1)) sid)"
    and "\<And>s1 sid' sess' rest. sid' \<noteq> sid \<Longrightarrow> map_of (fst (h sid' sess' rest s1)) sid = map_of s1 sid"
  shows "guarded E sid sess (map_of (fst (case readSecureSession E input s of (s, None) \<Rightarrow> (s, []) | (s, Some (sid, sess, r)) \<Rightarrow> h sid sess r s)) sid)"
proof -
  obtain s1 r where r: "readSecureSession E input s = (s1, r)" by (cases "readSecureSession E input s")
  obtain r' where r': "readSession E input s = (s1, r')" "r = None \<or> r = r'" using readSecure_form [OF r] by blast
  note w = readSession_watched [OF assms(1,2) r'(1)]
  show ?thesis
  proof (cases r)
    case None then show ?thesis using r watched_guarded [OF assms(3) w] by simp
  next
    case (Some x)
    then obtain sid' sess' rest where x: "r = Some (sid', sess', rest)" "map_of s1 sid' = Some sess'" using readSession_form [OF r'(1)] r'(2) by auto
    show ?thesis
    proof (cases "sid' = sid")
      case True
      then have "sess' = sess" using w x(2) by (auto simp: watched_def)
      then show ?thesis using assms(4) [of s1 rest] True x r by simp
    next
      case False then show ?thesis using assms(5) [OF False] x(1) r watched_guarded [OF assms(3) w] by simp
    qed
  qed
qed

lemma handleClose_guarded:
  assumes "distinct (map fst s)" "map_of s sid = Some sess" "secure sess"
  shows "guarded E sid sess (map_of (fst (handleClose E input s)) sid)"
proof (cases "read_full SIDLen input")
  case (GoOk x)
  obtain sid' rest where x: "x = (sid', rest)" by (cases x)
  let ?s = "cleanupExpiredLocked E s"
  note w = watched_cleanup [OF assms(1,2), of E]
  show ?thesis
  proof (cases "sid' = sid")
    case True
    then show ?thesis using GoOk x w assms(3) guarded_close [of ?s sid sess E rest]
      by (auto simp: handleClose_def getSession_def Let_def watched_def deleteSession_def map_of_delete_alist split: option.splits)
  next
    case False
    then have "map_of (fst (handleClose E input s)) sid = map_of ?s sid"
      using GoOk x other_session(3) [OF False] by (auto simp: handleClose_def getSession_def Let_def deleteSession_def map_of_delete_alist split: option.splits)
    then show ?thesis using watched_guarded [OF assms(3) w] by simp
  qed
qed (use assms guarded_same in \<open>simp_all add: handleClose_def\<close>)

lemma openSession_other:
  assumes "newSid E \<noteq> Some sid"
  shows "map_of (fst (openSession E sec k n sh dest s)) sid = map_of s sid \<or> map_of (fst (openSession E sec k n sh dest s)) sid = map_of (cleanupExpiredLocked E s) sid"
  using assms by (auto simp: openSession_def Let_def addSession_def deleteSession_def map_of_update_alist map_of_delete_alist split: option.split gores.split)

lemma open_guarded:
  assumes "distinct (map fst s)" "map_of s sid = Some sess" "secure sess" "newSid E \<noteq> Some sid"
  shows "guarded E sid sess (map_of (fst (openSession E sec k n sh dest s)) sid)" "guarded E sid sess (map_of (fst (handleOpenSecureBody E sh input s)) sid)"
    "guarded E sid sess (map_of (fst (handleOpenSecure E input s)) sid)" "guarded E sid sess (map_of (fst (handleOpen E input s)) sid)"
proof -
  have o: "guarded E sid sess (map_of (fst (openSession E sec k n sh dest s)) sid)" for sec k n sh dest
    using openSession_other [OF assms(4), of sec k n sh dest s] guarded_cleanup [OF assms(1-3), of E] guarded_same [OF assms(3)] assms(2) by auto
  have b: "guarded E sid sess (map_of (fst (handleOpenSecureBody E sh input s)) sid)" for sh input
    using o guarded_same [OF assms(3)] assms(2) by (auto simp: handleOpenSecureBody_def Let_def split: gores.split)
  show "guarded E sid sess (map_of (fst (openSession E sec k n sh dest s)) sid)" "guarded E sid sess (map_of (fst (handleOpenSecureBody E sh input s)) sid)" by (fact o, fact b)
  show "guarded E sid sess (map_of (fst (handleOpenSecure E input s)) sid)"
    using b guarded_same [OF assms(3)] assms(2) by (auto simp: handleOpenSecure_def split: gores.split)
  show "guarded E sid sess (map_of (fst (handleOpen E input s)) sid)"
    using o b guarded_same [OF assms(3)] assms(2) by (auto simp: handleOpen_def split: gores.split list.split)
qed


section \<open>Writing\<close>

text \<open>The contract of a channel for chunks: a chunk within the limit is acknowledged, arrives once and at the end, and the channel
  stays ready.\<close>

locale up_channel =
  fixes send :: "bytes \<Rightarrow> 's \<Rightarrow> 's \<times> bool" and ready :: "'s \<Rightarrow> bool" and received :: "'s \<Rightarrow> bytes"
  assumes send_chunk: "ready s \<Longrightarrow> length c \<le> MaxUpPayload \<Longrightarrow> \<exists>s'. send c s = (s', True) \<and> ready s' \<and> received s' = received s @ c"
begin

lemma write_delivers: "ready s \<Longrightarrow> \<exists>s'. WriteConn send rnd k p s = (s', length p, True) \<and> ready s' \<and> received s' = received s @ p"
proof (induction "length p" arbitrary: k p s rule: less_induct)
  case less
  show ?case
  proof (cases "p = []")
    case True then show ?thesis using less.prems by (simp add: WriteConn.simps)
  next
    case False
    define n where "n = min (randomUpChunk (rnd k)) (length p)"
    have "rnd k mod 141 < 141" by simp
    then have n: "0 < n" "n \<le> length p" "n \<le> MaxUpPayload"
      using False by (auto simp: n_def randomUpChunk_def upChunkMin_def upChunkMax_def MaxUpPayload_def min_def)
    obtain s1 where s1: "send (take n p) s = (s1, True)" "ready s1" "received s1 = received s @ take n p"
      using send_chunk [OF less.prems, of "take n p"] n by auto
    obtain s2 where s2: "WriteConn send rnd (Suc k) (drop n p) s1 = (s2, length (drop n p), True)" "ready s2" "received s2 = received s1 @ drop n p"
      using less.hyps [of "drop n p" s1 "Suc k"] s1(2) n False by auto
    have "WriteConn send rnd k p s = (s2, length p, True)"
      using False s1(1) s2(1) n(2) by (simp add: WriteConn.simps [of send rnd k p] n_def [symmetric])
    then show ?thesis using s1 s2 by simp
  qed
qed

end

text \<open>One exchange, plain and sealed: the client (environment \<open>C\<close>) sends a request, the server (\<open>E\<close>) answers, the client looks at the answer.\<close>

definition sendPlain :: "fragEnv \<Rightarrow> bytes \<Rightarrow> bytes \<Rightarrow> fragServer \<Rightarrow> fragServer \<times> bool" where
  "sendPlain E sid c s = (case upRequest sid c of
     GoOk req \<Rightarrow> (case ServeConn E req s of (s, out) \<Rightarrow> (s, case read_full 1 out of GoOk (a, _) \<Rightarrow> a = [AckOK] | _ \<Rightarrow> False)) | _ \<Rightarrow> (s, False))"

definition sendSecure :: "fragEnv \<Rightarrow> fragEnv \<Rightarrow> bytes \<Rightarrow> bytes \<Rightarrow> bytes \<Rightarrow> fragServer \<Rightarrow> fragServer \<times> bool" where
  "sendSecure C E key sid c s = (case upSecureRequest C key sid c of
     GoOk req \<Rightarrow> (case ServeConn E req s of (s, out) \<Rightarrow>
       (s, case readSecureBody C key (secureResponseAD OpUpSecure sid) 1 out of GoOk (a, _) \<Rightarrow> take 1 a = [AckOK] | _ \<Rightarrow> False)) | _ \<Rightarrow> (s, False))"

definition receivedBy :: "bytes \<Rightarrow> fragServer \<Rightarrow> bytes" where
  "receivedBy sid s = (case map_of s sid of None \<Rightarrow> [] | Some sess \<Rightarrow> upstream sess)"

definition alive :: "fragEnv \<Rightarrow> bytes \<Rightarrow> (fragSession \<Rightarrow> bool) \<Rightarrow> fragServer \<Rightarrow> bool" where
  "alive E sid P s \<longleftrightarrow> distinct (map fst s) \<and> length sid = SIDLen \<and> pipeOK E \<and> 0 \<le> sessionTTL E \<and>
    (\<exists>sess. map_of s sid = Some sess \<and> nowE E - lastUsed sess \<le> sessionTTL E \<and> P sess)"

definition plainReady :: "fragEnv \<Rightarrow> bytes \<Rightarrow> fragServer \<Rightarrow> bool" where
  "plainReady E sid s \<longleftrightarrow> alive E sid (\<lambda>sess. \<not> secure sess) s"

definition secureReady :: "fragEnv \<Rightarrow> fragEnv \<Rightarrow> bytes \<Rightarrow> bytes \<Rightarrow> fragServer \<Rightarrow> bool" where
  "secureReady C E key sid s \<longleftrightarrow> alive E sid (\<lambda>sess. secure sess \<and> secureKey sess = key) s \<and> aead_ok E \<and> sealOf C = sealOf E \<and> openOf C = openOf E \<and>
    (\<exists>n. nonce C = Some n \<and> length n = secureNonceLen) \<and> (\<exists>n. nonce E = Some n \<and> length n = secureNonceLen)"

lemma readSession_alive:
  assumes "alive E sid P s"
  obtains sess where "readSession E (sid @ r) s = (cleanupExpiredLocked E s, Some (sid, sess, r))" "P sess"
    "map_of (cleanupExpiredLocked E s) sid = Some sess" "map_of s sid = Some sess" "distinct (map fst (cleanupExpiredLocked E s))"
proof -
  obtain sess where s: "map_of s sid = Some sess" "nowE E - lastUsed sess \<le> sessionTTL E" "P sess" "distinct (map fst s)" "length sid = SIDLen"
    using assms by (auto simp: alive_def)
  then have "map_of (cleanupExpiredLocked E s) sid = Some sess" by (simp add: map_of_cleanup)
  then show thesis using that [of sess] s distinct_cleanup [OF s(4)] read_full_eq [OF s(5), of r]
    by (simp add: readSession_def getSession_def Let_def)
qed

lemma alive_update:
  assumes "alive E sid P s" "map_of (cleanupExpiredLocked E s) sid = Some sess" "P (touch E (sess\<lparr>upstream := u\<rparr>))" "distinct (map fst (cleanupExpiredLocked E s))"
  shows "alive E sid P (AList.update sid (touch E (sess\<lparr>upstream := u\<rparr>)) (cleanupExpiredLocked E s)) \<and>
    receivedBy sid (AList.update sid (touch E (sess\<lparr>upstream := u\<rparr>)) (cleanupExpiredLocked E s)) = u"
  using assms by (simp add: alive_def receivedBy_def map_of_update_alist AList.distinct_update touch_def)

lemma put16_len: "n < 65536 \<Longrightarrow> be16 (put16 n ! 0) (put16 n ! 1) = n"
  using be16_nth_put16 [of n] by simp

lemma plain_chunk:
  assumes "plainReady E sid s" "length c \<le> MaxUpPayload"
  shows "\<exists>s'. sendPlain E sid c s = (s', True) \<and> plainReady E sid s' \<and> receivedBy sid s' = receivedBy sid s @ c"
proof -
  let ?s = "cleanupExpiredLocked E s" and ?r = "put16 (length c) @ c"
  have a: "alive E sid (\<lambda>sess. \<not> secure sess) s" "pipeOK E" using assms(1) unfolding plainReady_def by (auto simp: alive_def)
  obtain sess where s: "readSession E (sid @ ?r) s = (?s, Some (sid, sess, ?r))" "\<not> secure sess" "map_of ?s sid = Some sess" "map_of s sid = Some sess" "distinct (map fst ?s)"
    using readSession_alive [OF a(1)] by blast
  let ?t = "AList.update sid (touch E (sess\<lparr>upstream := upstream sess @ c\<rparr>)) ?s"
  have l: "be16 (put16 (length c) ! 0) (put16 (length c) ! 1) = length c" using assms(2) by (intro put16_len) (simp add: MaxUpPayload_def)
  have "handleUp E (sid @ ?r) s = (?t, [AckOK])"
    using s(1,2) l a(2) assms(2) read_full_eq [of "put16 (length c)" 2 c] read_full_eq [of c "length c" "[]"] by (simp add: handleUp_def Let_def)
  then have "ServeConn E (OpUp # sid @ ?r) s = (?t, [AckOK])" by (simp add: ServeConn_def OpUp_def OpOpen_def)
  then have "sendPlain E sid c s = (?t, True)" using assms(2) by (simp add: sendPlain_def upRequest_def read_full_def)
  moreover have "plainReady E sid ?t \<and> receivedBy sid ?t = upstream sess @ c"
    using alive_update [OF a(1) s(3) _ s(5), of "upstream sess @ c"] s(2) by (simp add: plainReady_def touch_def)
  ultimately show ?thesis using s(4) by (simp add: receivedBy_def)
qed

interpretation plainUp: up_channel "sendPlain E sid" "plainReady E sid" "receivedBy sid" for E sid
  by unfold_locales (rule plain_chunk)

lemma secure_body_nonce:
  assumes "aead_ok E" "nonce E' = Some n" "length n = secureNonceLen" "sealOf E' = sealOf E" "length p \<le> limit" "limit + secureOverhead \<le> 65535"
  obtains b where "writeSecureBody E' key ad p = GoOk b" "readSecureBody E key ad limit b = GoOk (p, n)"
proof -
  obtain b where b: "writeSecureBodyWithNonce E key ad n p = GoOk b" "\<And>r. readSecureBody E key ad limit (b @ r) = GoOk (p, n)"
    using secure_body [OF assms(1,3,5,6), of key ad] by blast
  have "writeSecureBody E' key ad p = GoOk b" using b(1) assms(2,4) assms(3) by (simp add: writeSecureBody_def writeSecureBodyWithNonce_def)
  then show thesis using that b(2) [of "[]"] by simp
qed

lemma readSecureBody_cong: "openOf C = openOf E \<Longrightarrow> readSecureBody C key ad limit b = readSecureBody E key ad limit b"
  unfolding readSecureBody_def by (rule arg_cong [of "openOf C" "openOf E"])

lemma secure_chunk:
  assumes "secureReady C E key sid s" "length c \<le> MaxUpPayload"
  shows "\<exists>s'. sendSecure C E key sid c s = (s', True) \<and> secureReady C E key sid s' \<and> receivedBy sid s' = receivedBy sid s @ c"
proof -
  let ?s = "cleanupExpiredLocked E s" and ?p = "put16 (length c) @ c" and ?P = "\<lambda>sess. secure sess \<and> secureKey sess = key"
  have a: "alive E sid ?P s" "pipeOK E" "aead_ok E" "sealOf C = sealOf E" "openOf C = openOf E"
    using assms(1) unfolding secureReady_def by (auto simp: alive_def)
  obtain n m where n: "nonce C = Some n" "length n = secureNonceLen" "nonce E = Some m" "length m = secureNonceLen" using assms(1) by (auto simp: secureReady_def)
  have lim: "length ?p \<le> 2 + MaxUpPayload" "2 + MaxUpPayload + secureOverhead \<le> 65535" using assms(2) by (simp_all add: MaxUpPayload_def secureOverhead_def)
  obtain b where b: "writeSecureBody C key (secureRequestAD OpUpSecure sid) ?p = GoOk b"
    "readSecureBody E key (secureRequestAD OpUpSecure sid) (2 + MaxUpPayload) b = GoOk (?p, n)"
    using secure_body_nonce [OF a(3) n(1,2) a(4) lim, of key "secureRequestAD OpUpSecure sid"] by blast
  obtain q where q: "writeSecureBody E key (secureResponseAD OpUpSecure sid) [AckOK] = GoOk q" "readSecureBody E key (secureResponseAD OpUpSecure sid) 1 q = GoOk ([AckOK], m)"
    using secure_body_nonce [OF a(3) n(3,4) refl, of "[AckOK]" 1 key "secureResponseAD OpUpSecure sid"] by (auto simp: secureOverhead_def)
  obtain sess where s: "readSession E (sid @ b) s = (?s, Some (sid, sess, b))" "?P sess" "map_of ?s sid = Some sess" "map_of s sid = Some sess" "distinct (map fst ?s)"
    using readSession_alive [OF a(1)] by blast
  let ?t = "AList.update sid (touch E (sess\<lparr>upstream := upstream sess @ c\<rparr>)) ?s"
  have "be16 (?p ! 0) (?p ! 1) = length c" using put16_len [of "length c"] assms(2) by (simp add: nth_append MaxUpPayload_def)
  then have "handleUpSecureSession E sid sess b ?s = (?t, q)"
    using b(2) q(1) s(2) a(2) assms(2) by (simp add: handleUpSecureSession_def Let_def answerWith_def)
  then have "ServeConn E (OpUp # sid @ b) s = (?t, q)" using s(1,2) by (simp add: ServeConn_def handleUp_def OpUp_def OpOpen_def)
  moreover have "upSecureRequest C key sid c = GoOk (OpUp # sid @ b)"
    using b(1) assms(2) by (simp add: upSecureRequest_def secureWireOp_def OpOpenSecure_def OpUpSecure_def)
  ultimately have "sendSecure C E key sid c s = (?t, True)" using q(2) readSecureBody_cong [OF a(5)] by (simp add: sendSecure_def)
  moreover have "secureReady C E key sid ?t \<and> receivedBy sid ?t = upstream sess @ c"
    using alive_update [OF a(1) s(3) _ s(5), of "upstream sess @ c"] s(2) assms(1) by (simp add: secureReady_def touch_def)
  ultimately show ?thesis using s(4) by (simp add: receivedBy_def)
qed

interpretation secureUp: up_channel "sendSecure C E key sid" "secureReady C E key sid" "receivedBy sid" for C E key sid
  by unfold_locales (rule secure_chunk)

text \<open>C32. Whatever sizes the client draws for its chunks, a write to a live session, plain or sealed, hands exactly the written bytes to the
  upstream handler, once and in order, and reports their number.\<close>

theorem fragmented_write_delivers:
  "(plainReady E sid s \<longrightarrow> (\<exists>s'. WriteConn (sendPlain E sid) rnd 0 p s = (s', length p, True) \<and> receivedBy sid s' = receivedBy sid s @ p)) \<and>
   (secureReady C E key sid s \<longrightarrow> (\<exists>s'. WriteConn (sendSecure C E key sid) rnd 0 p s = (s', length p, True) \<and> receivedBy sid s' = receivedBy sid s @ p))"
  using plainUp.write_delivers [of E sid s rnd 0 p] secureUp.write_delivers [of C E key sid s rnd 0 p] by blast

section \<open>Shape of the session table\<close>

definition session_wf :: "bytes \<Rightarrow> fragSession \<Rightarrow> bool" where
  "session_wf sid sess \<longleftrightarrow> length sid = SIDLen \<and> length (owner sess) = ShortIDLen \<and> destination sess \<noteq> [] \<and> 0 \<notin> set (destination sess) \<and>
    (secure sess \<longrightarrow> length (secureKey sess) = 32) \<and> ring_ok (downSide sess)"

definition table_wf :: "fragServer \<Rightarrow> bool" where
  "table_wf s \<longleftrightarrow> distinct (map fst s) \<and> (\<forall>(sid, sess) \<in> set s. session_wf sid sess)"

text \<open>What the environment must return: numbers and digests of their lengths, and a ring that other handlers leave intact.\<close>

definition env_wf :: "fragEnv \<Rightarrow> bool" where
  "env_wf E \<longleftrightarrow> (\<forall>sid. newSid E = Some sid \<longrightarrow> length sid = SIDLen) \<and> (\<forall>x. length (sha E x) = 32) \<and> (\<forall>k d. ring_ok d \<longrightarrow> ring_ok (others E k d))"

lemma table_cleanup: "table_wf s \<Longrightarrow> table_wf (cleanupExpiredLocked E s)"
  using distinct_cleanup [of s E] by (auto simp: table_wf_def cleanupExpiredLocked_def)

lemma set_update_table: "set (AList.update k v al) \<subseteq> insert (k, v) (set al)"
  by (induction al) auto

lemma table_update: "table_wf s \<Longrightarrow> session_wf sid sess \<Longrightarrow> table_wf (AList.update sid sess s)"
  using set_update_table [of sid sess s] by (auto simp: table_wf_def AList.distinct_update)

lemma table_delete: "table_wf s \<Longrightarrow> table_wf (deleteSession sid s)"
  by (auto simp: table_wf_def deleteSession_def set_delete_alist AList.distinct_delete)

lemma table_lookup: "table_wf s \<Longrightarrow> map_of s sid = Some sess \<Longrightarrow> session_wf sid sess"
  by (auto simp: table_wf_def dest: map_of_SomeD)

lemma session_wf_up: "session_wf sid sess \<Longrightarrow> session_wf sid (touch E (sess\<lparr>upstream := u\<rparr>))"
  by (simp add: session_wf_def touch_def)

lemma ring_recv: "ring_ok d \<Longrightarrow> recvCh d = Some (f, d') \<Longrightarrow> ring_ok d'"
  by (auto simp: recvCh_def split: list.splits)

lemma ring_serve: "(\<forall>k d. ring_ok d \<longrightarrow> ring_ok (env k d)) \<Longrightarrow> ring_ok d \<Longrightarrow> ring_ok (fst (serveFrame env rt ack f d))"
  by (simp add: serveFrame_def trySend_def Let_def split: option.split)

lemma ring_next:
  assumes "\<forall>k d. ring_ok d \<longrightarrow> ring_ok (env k d)" "ring_ok d"
  shows "ring_ok (fst (nextDownResponse env ff ack d))"
proof -
  obtain d0 rt where r: "shouldRetransmit ack d = (d0, rt)" by (cases "shouldRetransmit ack d")
  then have d0: "ring_ok d0" using assms(2) by (auto simp: shouldRetransmit_def Let_def split: if_split_asm)
  have e0: "ring_ok (env 0 d0)" using assms(1) d0 by blast
  then have e3: "ring_ok (env 3 (env 0 d0))" using assms(1) by blast
  then have e4: "ring_ok (env 4 (env 3 (env 0 d0)))" using assms(1) by blast
  then have e5: "ring_ok (env 5 (env 4 (env 3 (env 0 d0))))" using assms(1) by blast
  then have e6: "ring_ok (env 6 (env 5 (env 4 (env 3 (env 0 d0)))))" using assms(1) by blast
  have sf: "ring_ok (fst (serveFrame env rt ack f t))" if "ring_ok t'" "recvCh t' = Some (f, t)" for f t t'
    using ring_serve [OF assms(1) ring_recv [OF that]] .
  show ?thesis unfolding nextDownResponse_def r
    using sf [OF e0] sf [OF e4] ring_recv [OF e5] e3 e6 by (simp add: Let_def split: option.split)
qed

lemma table_down:
  assumes "env_wf E" "table_wf s" "session_wf sid sess"
  shows "table_wf (fst (downAnswer E sid sess ack s))"
proof -
  have "ring_ok (fst (nextDownResponse (others E) (frameFirst E) ack (downSide sess)))"
    using assms(1,3) by (intro ring_next) (simp_all add: env_wf_def session_wf_def)
  then have "session_wf sid ((if b then sess else touch E sess)\<lparr>downSide := fst (nextDownResponse (others E) (frameFirst E) ack (downSide sess))\<rparr>)" for b
    using assms(3) by (simp add: session_wf_def touch_def)
  then show ?thesis using assms(2) by (simp add: downAnswer_def case_prod_beta table_update)
qed

lemma table_sealed:
  assumes "env_wf E" "table_wf s" "session_wf sid sess"
  shows "table_wf (fst (handleUpSecureSession E sid sess input s))" "table_wf (fst (handleDownSecureSession E sid sess input s))"
    "table_wf (fst (handleCloseSecureSession E sid sess input s))"
  using assms table_down [OF assms] session_wf_up [OF assms(3)]
  by (auto simp: handleUpSecureSession_def handleDownSecureSession_def handleCloseSecureSession_def Let_def table_delete table_update
      split: gores.split prod.split option.split) (metis fst_conv)

lemma readNULLoop_zero: "readNULLoop limit buf r = GoOk d \<Longrightarrow> 0 \<notin> set buf \<Longrightarrow> 0 \<notin> set d"
  by (induction r arbitrary: buf) (auto split: if_split_asm)

lemma readNULFrom_zero: "readNULFrom limit p i r = GoOk d \<Longrightarrow> p = take i p @ r \<Longrightarrow> 0 \<notin> set (take i p) \<Longrightarrow> 0 \<notin> set d"
proof (induction r arbitrary: i)
  case (Cons b r)
  have i: "i < length p" using Cons.prems(2) by (metis append_take_drop_id length_take list.distinct(1) min.cobounded1 not_less self_append_conv take_all)
  have "p ! i = b" using Cons.prems(2) i by (metis append_take_drop_id hd_drop_conv_nth list.sel(1) same_append_eq)
  then have t: "take (Suc i) p = take i p @ [b]" using i by (simp add: take_Suc_conv_app_nth)
  then have p: "p = take (Suc i) p @ r" using Cons.prems(2) by simp
  show ?case
  proof (cases "b = 0")
    case True then show ?thesis using Cons.prems(1,3) by (simp split: if_split_asm)
  next
    case False
    have z: "0 \<notin> set (take (Suc i) p)" unfolding t using Cons.prems(3) False by simp
    have "readNULFrom limit p (Suc i) r = GoOk d" using Cons.prems(1) False by (simp split: if_split_asm)
    then show ?thesis using Cons.IH p z by blast
  qed
qed simp

lemma table_open:
  assumes "env_wf E" "table_wf s" "length sh = ShortIDLen" "dest \<noteq> []" "0 \<notin> set dest"
  shows "table_wf (fst (openSession E sec (if sec then k else []) n sh dest s))"
proof -
  have "session_wf sid \<lparr>secure = sec, secureKey = (if sec then deriveSecureSessionKey E k sid n else []), lastUsed = nowE E,
      upstream = [], destination = dest, owner = sh, downSide = newSession\<rparr>" if "newSid E = Some sid" for sid
    using assms that by (simp add: session_wf_def env_wf_def deriveSecureSessionKey_def newSession_def ring_ok_def replayRingSize_def)
  then show ?thesis using assms(2) table_cleanup [OF assms(2), of E]
    by (auto simp: openSession_def addSession_def Let_def table_update table_delete split: option.split gores.split)
qed

lemma read_full_length: "read_full n s = GoOk (a, r) \<Longrightarrow> length a = n"
  by (auto simp: read_full_def split: if_split_asm)

lemma table_handleOpen:
  assumes "env_wf E" "table_wf s"
  shows "length sh = ShortIDLen \<Longrightarrow> table_wf (fst (handleOpenSecureBody E sh input s))" "table_wf (fst (handleOpenSecure E input s))" "table_wf (fst (handleOpen E input s))"
proof -
  have b: "table_wf (fst (handleOpenSecureBody E sh input s))" if "length sh = ShortIDLen" for sh input
    using assms(2) table_open [OF assms that, of _ True] readNULFrom_zero [of _ _ 0]
    by (auto simp: handleOpenSecureBody_def readNULBytes_def Let_def split: gores.split)
  then show "length sh = ShortIDLen \<Longrightarrow> table_wf (fst (handleOpenSecureBody E sh input s))" by blast
  show "table_wf (fst (handleOpenSecure E input s))"
    using b assms(2) by (auto simp: handleOpenSecure_def dest: read_full_length split: gores.split)
  show "table_wf (fst (handleOpen E input s))"
  proof -
    have "table_wf (fst (openSession E False [] [] sh d s))"
      if "length sh = ShortIDLen" "readNULStringWithPrefix f l r = GoOk d" "d \<noteq> []" for sh f l r d
      using table_open [OF assms that(1,3), of False] readNULLoop_zero [of _ "[f]" r d] that(2,3)
      by (auto simp: readNULStringWithPrefix_def Let_def split: if_split_asm)
    then show ?thesis using b assms(2) by (auto simp: handleOpen_def dest: read_full_length split: gores.split list.split)
  qed
qed

lemma table_handlers:
  assumes "env_wf E" "table_wf s"
  shows "table_wf (fst (handleUp E input s))" "table_wf (fst (handleDown E input s))" "table_wf (fst (handleClose E input s))"
    "table_wf (fst (handleUpSecure E input s))" "table_wf (fst (handleDownSecure E input s))" "table_wf (fst (handleCloseSecure E input s))"
proof -
  have rs: "table_wf s1 \<and> (\<forall>sid sess rest. r = Some (sid, sess, rest) \<longrightarrow> session_wf sid sess)" if "readSession E input s = (s1, r)" for s1 r
    using readSession_form [OF that] assms(2) table_cleanup [OF assms(2), of E] table_lookup [of s1] by auto
  have rss: "table_wf s1 \<and> (\<forall>sid sess rest. r = Some (sid, sess, rest) \<longrightarrow> session_wf sid sess)" if "readSecureSession E input s = (s1, r)" for s1 r
    using readSecure_form [OF that] rs by auto
  obtain s1 r where r: "readSession E input s = (s1, r)" by (cases "readSession E input s")
  obtain s2 r2 where r2: "readSecureSession E input s = (s2, r2)" by (cases "readSecureSession E input s")
  show "table_wf (fst (handleUp E input s))"
    using rs [OF r] table_sealed(1) [OF assms(1)] session_wf_up table_update
    by (cases r) (auto simp: handleUp_def r Let_def split: gores.split prod.split)
  show "table_wf (fst (handleDown E input s))"
    using rs [OF r] table_sealed(2) [OF assms(1)] table_down [OF assms(1)]
    by (cases r) (auto simp: handleDown_def r split: option.split)
  show "table_wf (fst (handleUpSecure E input s))" "table_wf (fst (handleDownSecure E input s))" "table_wf (fst (handleCloseSecure E input s))"
    using rss [OF r2] table_sealed [OF assms(1)] by (cases r2; auto simp: handleUpSecure_def handleDownSecure_def handleCloseSecure_def r2)+
  show "table_wf (fst (handleClose E input s))"
    using table_cleanup [OF assms(2), of E] assms(2) table_sealed(3) [OF assms(1)] table_lookup
    by (auto simp: handleClose_def getSession_def Let_def table_delete split: gores.split option.split)
qed

text \<open>C36. Every request, well formed or not, keeps the session table well formed: distinct twelve-byte session numbers, eight-byte
  owners, a destination that is not empty and has no zero byte, a 32-byte key for every secure session and an
  intact replay ring.\<close>

theorem requests_keep_table_wf:
  assumes "env_wf E" "table_wf s"
  shows "table_wf (fst (ServeConn E input s))"
  using table_handleOpen [OF assms] table_handlers [OF assms] assms(2) by (cases input) (simp_all add: ServeConn_def)

text \<open>A concrete environment: a cipher that appends a tag of zeros, a constant digest, and a random source with a fixed answer.\<close>

definition exampleFragEnv :: fragEnv where
  "exampleFragEnv = \<lparr>sealOf = (\<lambda>k n a p. p @ replicate 16 0), openOf = (\<lambda>k n a c. if length c < 16 then None else Some (take (length c - 16) c)),
     sha = (\<lambda>x. replicate 32 1), nonce = Some (replicate 12 2), newSid = Some (replicate 12 3), nowE = 0, sessionTTL = 5, authorize = (\<lambda>x. True),
     pipeOK = True, respOK = True, destinationLimit = 100, portHint = None, others = (\<lambda>k d. d), frameFirst = True\<rparr>"

definition exampleFragSession :: fragSession where
  "exampleFragSession = \<lparr>secure = True, secureKey = replicate 32 1, lastUsed = 0, upstream = [], destination = [65], owner = replicate 8 4, downSide = newSession\<rparr>"

theorem requests_keep_table_wf_witness: "table_wf (fst (ServeConn exampleFragEnv (openRequest (replicate 8 4) [66]) [(replicate 12 9, exampleFragSession)]))"
proof (rule requests_keep_table_wf)
  show "env_wf exampleFragEnv" by (simp add: env_wf_def exampleFragEnv_def SIDLen_def)
  show "table_wf [(replicate 12 9, exampleFragSession)]"
    by (simp add: table_wf_def session_wf_def exampleFragSession_def SIDLen_def ShortIDLen_def newSession_def ring_ok_def replayRingSize_def)
qed


theorem fragmented_write_delivers_witness:
  "\<exists>s'. WriteConn (sendSecure exampleFragEnv exampleFragEnv (replicate 32 1) (replicate 12 9)) (\<lambda>k. k) 0 (replicate 1500 7) [(replicate 12 9, exampleFragSession)] = (s', 1500, True) \<and>
     receivedBy (replicate 12 9) s' = replicate 1500 7"
proof -
  have "aead_ok exampleFragEnv" by (simp add: aead_ok_def exampleFragEnv_def secureOverhead_def)
  then have "secureReady exampleFragEnv exampleFragEnv (replicate 32 1) (replicate 12 9) [(replicate 12 9, exampleFragSession)]"
    by (simp add: secureReady_def alive_def exampleFragEnv_def exampleFragSession_def SIDLen_def secureNonceLen_def)
  then show ?thesis using fragmented_write_delivers [of exampleFragEnv "replicate 12 9" "[(replicate 12 9, exampleFragSession)]" "\<lambda>k. k" "replicate 1500 7" exampleFragEnv "replicate 32 1"]
    by (auto simp: receivedBy_def exampleFragSession_def)
qed

text \<open>Only an authorized short ID opens a session.\<close>

lemma open_needs_authorization:
  assumes "map_of s sid = None" "map_of (fst (handleOpen E input s)) sid = Some sess"
  shows "authorize E (take ShortIDLen input)"
  using assms by (auto simp: handleOpen_def read_full_def split: gores.splits if_split_asm)

end
