(* ===== verification/Fragmentation.thy ===== *)
theory Fragmentation
  imports ClientHello Complex_Main
begin

text \<open>
  pkg/tamizdat/fragmenter.go, geneva.go and shaper.go: how the ClientHello and later the H2 DATA
  payloads are cut into several writes. Results of \<open>math/rand\<close> are arguments: \<open>randomInt\<close> takes
  the raw draw and reduces it to its range as \<open>IntN\<close> does. The connection written to is any
  implementation of \<open>io.Writer\<close>, given as a function on its state that returns the new state,
  the byte count and the error. Sleeps between segments do not change the bytes and are left out.
  The samples of \<open>sampleGamma\<close> (floating-point rejection sampling) are arguments of \<open>pick\<close>.
\<close>

section \<open>Random split points\<close>

definition randomInt :: "nat \<Rightarrow> nat \<Rightarrow> nat \<Rightarrow> nat" where
  "randomInt r mn mx = (if mn \<ge> mx then mn else mn + r mod (mx - mn))"

text \<open>The walk over the extensions; offsets are absolute in \<open>data\<close>, \<open>r\<close> is the draw for the offset
  within the host name.\<close>

function splitExts :: "nat \<Rightarrow> bytes \<Rightarrow> nat \<Rightarrow> nat \<Rightarrow> (string, int) gores" where
  "splitExts r data endExts pos =
    (if endExts < pos + 4 then GoOk (-1)
     else go_bind (idx data pos) (\<lambda>t1. go_bind (idx data (pos + 1)) (\<lambda>t0.
       go_bind (idx data (pos + 2)) (\<lambda>l1. go_bind (idx data (pos + 3)) (\<lambda>l0.
       let extType = be16 t1 t0; extLen = be16 l1 l0; q = pos + 4 in
       if extType = 0x0000 then
         (let sniNameStart = q + 2 + 1 + 2 in
          if extLen \<ge> 5 \<and> sniNameStart < length data then
            (let maxOffset = min (extLen - 5) 10 in
             GoOk (int (if maxOffset > 0 then sniNameStart + randomInt r 0 maxOffset else sniNameStart)))
          else GoOk (int q))
       else splitExts r data endExts (q + extLen))))))"
  by pat_completeness auto
termination
  by (relation "measure (\<lambda>(r, data, endExts, pos). endExts - pos)") auto

declare splitExts.simps [simp del]

definition findSNISplitPoint :: "nat \<Rightarrow> bytes \<Rightarrow> (string, int) gores" where
  "findSNISplitPoint r data =
    (if length data < 5 then GoOk (-1)
     else let pos = 5 in
     if pos \<ge> length data then GoOk (-1)
     else go_bind (idx data pos) (\<lambda>ty. if ty \<noteq> 0x01 then GoOk (-1)
     else let pos = pos + 4; pos = pos + 34 in
     if pos \<ge> length data then GoOk (-1)
     else go_bind (idx data pos) (\<lambda>s. let pos = pos + (1 + unat s) in
     if pos + 2 > length data then GoOk (-1)
     else go_bind (idx data pos) (\<lambda>h. go_bind (idx data (pos + 1)) (\<lambda>l. let pos = pos + (2 + be16 h l) in
     if pos + 1 > length data then GoOk (-1)
     else go_bind (idx data pos) (\<lambda>c. let pos = pos + (1 + unat c) in
     if pos + 2 > length data then GoOk (-1)
     else go_bind (idx data pos) (\<lambda>h. go_bind (idx data (pos + 1)) (\<lambda>l.
       let extensionsLen = be16 h l; pos = pos + 2;
           endExts = (if pos + extensionsLen > length data then length data else pos + extensionsLen) in
       splitExts r data endExts pos))))))))"

section \<open>The strategies\<close>

definition stratFirstByte :: "bytes \<Rightarrow> (string, bytes list) gores" where
  "stratFirstByte data = (if length data < 2 then GoOk [data]
     else go_bind (subslice data 0 1) (\<lambda>a. go_bind (slice_from data 1) (\<lambda>b. GoOk [a, b])))"

definition stratMidpoint :: "bytes \<Rightarrow> (string, bytes list) gores" where
  "stratMidpoint data = (if length data < 2 then GoOk [data]
     else let mid = length data div 2 in
       go_bind (subslice data 0 mid) (\<lambda>a. go_bind (slice_from data mid) (\<lambda>b. GoOk [a, b])))"

definition stratTwoThirds :: "bytes \<Rightarrow> (string, bytes list) gores" where
  "stratTwoThirds data = (if length data < 3 then GoOk [data]
     else let sp = length data * 2 div 3 in
       go_bind (subslice data 0 sp) (\<lambda>a. go_bind (slice_from data sp) (\<lambda>b. GoOk [a, b])))"

definition stratHeaderThenBody :: "bytes \<Rightarrow> (string, bytes list) gores" where
  "stratHeaderThenBody data = (if length data \<le> 5 then GoOk [data]
     else go_bind (subslice data 0 5) (\<lambda>a. go_bind (slice_from data 5) (\<lambda>b. GoOk [a, b])))"

definition stratSNISplit :: "nat \<Rightarrow> bytes \<Rightarrow> (string, bytes list) gores" where
  "stratSNISplit r data = go_bind (findSNISplitPoint r data) (\<lambda>sp.
     if sp \<le> 0 \<or> sp \<ge> int (length data) then stratMidpoint data
     else go_bind (subslice data 0 (nat sp)) (\<lambda>a. go_bind (slice_from data (nat sp)) (\<lambda>b. GoOk [a, b])))"

definition fragStrategies :: "(string \<times> (nat \<Rightarrow> bytes \<Rightarrow> (string, bytes list) gores)) list" where
  "fragStrategies =
    [(''sni_split'', stratSNISplit), (''first_byte'', \<lambda>_. stratFirstByte), (''midpoint'', \<lambda>_. stratMidpoint),
     (''two_thirds'', \<lambda>_. stratTwoThirds), (''hdr_then_body'', \<lambda>_. stratHeaderThenBody)]"

definition strategyByName :: "string \<Rightarrow> nat \<Rightarrow> bytes \<Rightarrow> (string, bytes list) gores" where
  "strategyByName name = (case find (\<lambda>s. fst s = name) fragStrategies of
     Some s \<Rightarrow> snd s | None \<Rightarrow> stratSNISplit)"

section \<open>The bandit\<close>

record serverStats =
  wins :: "string \<Rightarrow> int"
  losses :: "string \<Rightarrow> int"

definition noStats :: serverStats where
  "noStats = \<lparr>wins = (\<lambda>_. 0), losses = (\<lambda>_. 0)\<rparr>"

type_synonym genevaBandit = "string \<Rightarrow> serverStats option"

definition stats_for :: "genevaBandit \<Rightarrow> string \<Rightarrow> serverStats" where
  "stats_for b server = (case b server of Some st \<Rightarrow> st | None \<Rightarrow> noStats)"

text \<open>The scan for the largest score, starting from -1 and the first name; a tie keeps the
  earlier strategy. Scores are exact rationals where the code has \<open>float64\<close>.\<close>

definition best_by :: "(string \<Rightarrow> rat) \<Rightarrow> string list \<Rightarrow> string \<times> rat \<Rightarrow> string \<times> rat" where
  "best_by score names acc = fold (\<lambda>s (best, sc). if score s > sc then (s, score s) else (best, sc)) names acc"

definition sampleBeta :: "rat \<Rightarrow> rat \<Rightarrow> rat" where
  "sampleBeta x y = (if x + y = 0 then 1 / 2 else x / (x + y))"

text \<open>\<open>gamma s\<close> are the two values \<open>sampleGamma(wins+1)\<close> and \<open>sampleGamma(losses+1)\<close> returned for
  strategy \<open>s\<close>; \<open>greedy\<close> is the branch \<open>epsilon == 0\<close>.\<close>

definition pick :: "bool \<Rightarrow> (string \<Rightarrow> rat \<times> rat) \<Rightarrow> string \<Rightarrow> genevaBandit \<Rightarrow> string \<times> genevaBandit" where
  "pick greedy gamma server b =
    (let st = stats_for b server; b' = b(server \<mapsto> st); names = map fst fragStrategies;
         score = (if greedy then (\<lambda>s. of_int (wins st s + 1) / of_int (wins st s + losses st s + 2))
                  else (\<lambda>s. sampleBeta (fst (gamma s)) (snd (gamma s)))) in
     (fst (best_by score names (hd names, -1)), b'))"

definition reportOutcome :: "string \<Rightarrow> string \<Rightarrow> bool \<Rightarrow> genevaBandit \<Rightarrow> genevaBandit" where
  "reportOutcome server strategy won b =
    (let st = stats_for b server in
     b(server \<mapsto> if won then st\<lparr>wins := (wins st)(strategy := wins st strategy + 1)\<rparr>
                  else st\<lparr>losses := (losses st)(strategy := losses st strategy + 1)\<rparr>))"

section \<open>Writing the segments\<close>

type_synonym ('c, 'e) writer = "'c \<Rightarrow> bytes \<Rightarrow> 'c \<times> nat \<times> 'e option"

fun writeSegments :: "('c, 'e) writer \<Rightarrow> bytes list \<Rightarrow> 'c \<Rightarrow> 'c \<times> nat \<times> 'e option" where
  "writeSegments wr [] c = (c, 0, None)"
| "writeSegments wr (seg # segs) c =
    (case wr c seg of (c', n, Some e) \<Rightarrow> (c', n, Some e)
     | (c', n, None) \<Rightarrow> (case writeSegments wr segs c' of (c'', m, e) \<Rightarrow> (c'', n + m, e)))"

record 'c Fragmenter =
  conn :: 'c
  firstWrite :: bool
  tcpFragment :: bool
  strategyName :: string
  serverAddr :: string

definition NewFragmenterWithStrategy ::
    "(string \<Rightarrow> rat \<times> rat) \<Rightarrow> 'c \<Rightarrow> bool \<Rightarrow> string \<Rightarrow> string \<Rightarrow> genevaBandit \<Rightarrow> 'c Fragmenter \<times> genevaBandit" where
  "NewFragmenterWithStrategy gamma c tcpFrag addr strategy b =
    (let (strategy', b') = (if strategy = '''' \<and> addr \<noteq> '''' then pick False gamma addr b else (strategy, b)) in
     (\<lparr>conn = c, firstWrite = True, tcpFragment = tcpFrag, strategyName = strategy', serverAddr = addr\<rparr>, b'))"

definition ReportOutcome :: "'c Fragmenter \<Rightarrow> bool \<Rightarrow> genevaBandit \<Rightarrow> genevaBandit" where
  "ReportOutcome f won b = (if serverAddr f = '''' \<or> strategyName f = '''' then b
     else reportOutcome (serverAddr f) (strategyName f) won b)"

text \<open>The split without a named strategy: fragments up to \<open>splitPoint\<close>, up to a second random split
  when there is room, and the remainder.\<close>

definition writeSplit :: "('c, 'e) writer \<Rightarrow> nat \<Rightarrow> nat \<Rightarrow> 'c \<Rightarrow> bytes \<Rightarrow> (string, 'c \<times> nat \<times> 'e option) gores" where
  "writeSplit wr r3 splitPoint c data =
    (let secondSplit = (if splitPoint + 10 < length data then int (randomInt r3 (splitPoint + 1) (length data)) else -1) in
     go_bind (subslice data 0 splitPoint) (\<lambda>a.
     case wr c a of (c1, n1, Some e) \<Rightarrow> GoOk (c1, n1, Some e)
     | (c1, n1, None) \<Rightarrow>
       if secondSplit > int splitPoint then
         go_bind (subslice data splitPoint (nat secondSplit)) (\<lambda>b.
         case wr c1 b of (c2, n2, Some e) \<Rightarrow> GoOk (c2, n1 + n2, Some e)
         | (c2, n2, None) \<Rightarrow> go_bind (slice_from data (nat secondSplit)) (\<lambda>d.
             case wr c2 d of (c3, n3, e) \<Rightarrow> GoOk (c3, n1 + n2 + n3, e)))
       else go_bind (slice_from data splitPoint) (\<lambda>b.
         case wr c1 b of (c2, n2, e) \<Rightarrow> GoOk (c2, n1 + n2, e))))"

text \<open>The draws are those for the offset in the host name, the fallback split and the second split.\<close>

definition fragmentClientHello :: "('c, 'e) writer \<Rightarrow> nat \<times> nat \<times> nat \<Rightarrow> 'c Fragmenter \<Rightarrow> bytes \<Rightarrow>
    (string, 'c \<times> nat \<times> 'e option) gores" where
  "fragmentClientHello wr rs f data =
    (case rs of (r1, r2, r3) \<Rightarrow>
     if length data < 40 then GoOk (wr (conn f) data)
     else if strategyName f \<noteq> '''' then
       go_bind (strategyByName (strategyName f) r1 data) (\<lambda>segs. GoOk (writeSegments wr segs (conn f)))
     else go_bind (findSNISplitPoint r1 data) (\<lambda>sp.
       writeSplit wr r3 (if sp \<le> 0 \<or> sp \<ge> int (length data) then randomInt r2 20 (length data div 2) else nat sp)
         (conn f) data))"

definition Fragmenter_Write :: "('c, 'e) writer \<Rightarrow> nat \<times> nat \<times> nat \<Rightarrow> 'c Fragmenter \<Rightarrow> bytes \<Rightarrow>
    (string, 'c Fragmenter \<times> nat \<times> 'e option) gores" where
  "Fragmenter_Write wr rs f b =
    (let isFirst = firstWrite f; f = f\<lparr>firstWrite := False\<rparr> in
     go_bind (if isFirst \<and> tcpFragment f \<and> length b > 50 then fragmentClientHello wr rs f b else GoOk (wr (conn f) b))
       (\<lambda>(c, n, e). GoOk (f\<lparr>conn := c\<rparr>, n, e)))"

section \<open>Record fragmentation\<close>

text \<open>\<open>k\<close> is the number of cuts still to make (\<open>numFragments - 1 - i\<close>), so that the average is
  over \<open>k + 1\<close> fragments; \<open>rs k\<close> is the draw of that iteration.\<close>

primrec fragmentLoop :: "(nat \<Rightarrow> nat) \<Rightarrow> nat \<Rightarrow> bytes \<Rightarrow> bytes list" where
  "fragmentLoop rs 0 remaining = (if length remaining > 0 then [remaining] else [])"
| "fragmentLoop rs (Suc k) remaining =
    (if length remaining > 16 then
       (let avgSize = length remaining div (Suc k + 1);
            s0 = randomInt (rs (Suc k)) (avgSize div 2) (avgSize * 3 div 2 + 1);
            s1 = (if s0 > length remaining - 16 then length remaining - 16 else s0);
            splitSize = (if s1 < 1 then 1 else s1) in
        take splitSize remaining # fragmentLoop rs k (drop splitSize remaining))
     else if length remaining > 0 then [remaining] else [])"

definition Fragment :: "bool \<Rightarrow> nat \<Rightarrow> (nat \<Rightarrow> nat) \<Rightarrow> bytes \<Rightarrow> bytes list" where
  "Fragment enabled r rs data =
    (if \<not> enabled \<or> length data < 64 then [data]
     else let n0 = randomInt r 2 5; numFragments = (if n0 > length data div 16 then 2 else n0) in
       fragmentLoop rs (numFragments - 1) data)"

definition Shaper_Write :: "('c, 'e) writer \<Rightarrow> 'c \<Rightarrow> bytes \<Rightarrow> 'c \<times> nat \<times> 'e option" where
  "Shaper_Write wr c data = wr c data"

text \<open>The loop of \<open>FragmentWrite\<close> is that of \<open>writeSegments\<close> without the delay.\<close>

definition FragmentWrite :: "('c, 'e) writer \<Rightarrow> bool \<Rightarrow> nat \<Rightarrow> (nat \<Rightarrow> nat) \<Rightarrow> 'c \<Rightarrow> bytes \<Rightarrow> 'c \<times> nat \<times> 'e option" where
  "FragmentWrite wr enabled r rs c data =
    (if \<not> enabled then Shaper_Write wr c data
     else writeSegments (Shaper_Write wr) (Fragment enabled r rs data) c)"

section \<open>The writer contract\<close>

text \<open>What \<open>io.Writer\<close> documents: at most the given bytes are taken, in order, and fewer only with
  an error.\<close>

definition writer_result :: "bytes \<Rightarrow> bytes \<Rightarrow> bytes \<Rightarrow> nat \<Rightarrow> 'e option \<Rightarrow> bool" where
  "writer_result before after b n e = (n \<le> length b \<and> after = before @ take n b \<and> (e = None \<longrightarrow> n = length b))"

definition writer_ok :: "('c, 'e) writer \<Rightarrow> ('c \<Rightarrow> bytes) \<Rightarrow> bool" where
  "writer_ok wr out = (\<forall>c b. case wr c b of (c', n, e) \<Rightarrow> writer_result (out c) (out c') b n e)"

lemma writer_okD: "writer_ok wr out \<Longrightarrow> wr c b = (c', n, e) \<Longrightarrow> writer_result (out c) (out c') b n e"
  by (auto simp: writer_ok_def split: prod.splits)

lemma writer_result_append:
  assumes "writer_result o0 o1 a n None" and "writer_result o1 o2 b m e"
  shows "writer_result o0 o2 (a @ b) (n + m) e"
  using assms by (auto simp: writer_result_def)

lemma writer_result_stop: "writer_result o0 o1 a n (Some e) \<Longrightarrow> writer_result o0 o1 (a @ b) n (Some e)"
  by (auto simp: writer_result_def)

lemma writeSegments_ok:
  assumes "writer_ok wr out"
  shows "writeSegments wr segs c = (c', n, e) \<Longrightarrow> writer_result (out c) (out c') (concat segs) n e"
proof (induction segs arbitrary: c c' n e)
  case Nil
  then show ?case by (simp add: writer_result_def)
next
  case (Cons a segs)
  obtain c1 n1 e1 where w: "wr c a = (c1, n1, e1)" by (cases "wr c a")
  obtain c2 n2 e2 where s: "writeSegments wr segs c1 = (c2, n2, e2)" by (cases "writeSegments wr segs c1")
  from writer_okD [OF assms w] Cons.IH [OF s] Cons.prems w s show ?case
    by (cases e1) (auto intro: writer_result_append writer_result_stop)
qed

section \<open>Segments\<close>

lemma splitExts_no_panic: "e \<le> length d \<Longrightarrow> no_panic (splitExts r d e p)"
  by (induction r d e p rule: splitExts.induct)
    (subst splitExts.simps, auto simp: go_simps Let_def)

lemma findSNISplitPoint_no_panic: "no_panic (findSNISplitPoint r d)"
  by (auto simp: findSNISplitPoint_def go_simps Let_def splitExts_no_panic simp del: length_greater_0_conv)

lemma splitExts_not_err: "splitExts r d e p \<noteq> GoErr x"
  by (induction r d e p rule: splitExts.induct)
    (subst splitExts.simps, auto simp: Let_def idx_def split: if_splits)

lemma findSNISplitPoint_total: "\<exists>sp. findSNISplitPoint r d = GoOk sp"
proof (cases "findSNISplitPoint r d")
  case (GoErr x)
  then have False
    by (auto simp: findSNISplitPoint_def Let_def idx_def splitExts_not_err split: if_splits)
  then show ?thesis ..
next
  case GoPanic
  then show ?thesis using findSNISplitPoint_no_panic [of r d] by (simp add: no_panic_def)
qed auto

text \<open>A cut strictly inside the message gives two non-empty segments.\<close>

definition good_cut :: "bytes \<Rightarrow> bytes list \<Rightarrow> bool" where
  "good_cut data segs = (concat segs = data \<and> (2 \<le> length data \<longrightarrow> [] \<notin> set segs) \<and> (6 \<le> length data \<longrightarrow> length segs = 2))"

lemma cut_at:
  assumes "0 < sp" "sp < length data"
  shows "\<exists>segs. go_bind (subslice data 0 sp) (\<lambda>a. go_bind (slice_from data sp) (\<lambda>b. GoOk [a, b])) = GoOk segs \<and> good_cut data segs"
  using assms by (auto simp: subslice_def slice_from_def good_cut_def)

lemma cut_none: "length data < 6 \<Longrightarrow> good_cut data [data]"
  by (auto simp: good_cut_def)

lemma fixed_strategies_cut:
  "\<exists>segs. stratFirstByte data = GoOk segs \<and> good_cut data segs"
  "\<exists>segs. stratMidpoint data = GoOk segs \<and> good_cut data segs"
  "\<exists>segs. stratTwoThirds data = GoOk segs \<and> good_cut data segs"
  "\<exists>segs. stratHeaderThenBody data = GoOk segs \<and> good_cut data segs"
proof -
  have "0 < length data div 2 \<and> length data div 2 < length data" if "\<not> length data < 2" using that by presburger
  with cut_at [of "length data div 2" data] show "\<exists>segs. stratMidpoint data = GoOk segs \<and> good_cut data segs"
    by (cases "length data < 2") (simp_all add: stratMidpoint_def cut_none Let_def)
  have "0 < length data * 2 div 3 \<and> length data * 2 div 3 < length data" if "\<not> length data < 3" using that by presburger
  with cut_at [of "length data * 2 div 3" data] show "\<exists>segs. stratTwoThirds data = GoOk segs \<and> good_cut data segs"
    by (cases "length data < 3") (simp_all add: stratTwoThirds_def cut_none Let_def)
  show "\<exists>segs. stratFirstByte data = GoOk segs \<and> good_cut data segs"
    using cut_at [of 1 data] by (cases "length data < 2") (simp_all add: stratFirstByte_def cut_none)
  show "\<exists>segs. stratHeaderThenBody data = GoOk segs \<and> good_cut data segs"
    using cut_at [of 5 data] by (cases "length data \<le> 5") (simp_all add: stratHeaderThenBody_def cut_none)
qed

lemma stratSNISplit_cut: "\<exists>segs. stratSNISplit r data = GoOk segs \<and> good_cut data segs"
proof -
  obtain sp where sp: "findSNISplitPoint r data = GoOk sp" using findSNISplitPoint_total by blast
  show ?thesis
    using cut_at [of "nat sp" data] fixed_strategies_cut(2) [of data] by (auto simp: stratSNISplit_def sp nat_less_iff)
qed

lemma strategyByName_cut: "\<exists>segs. strategyByName name r data = GoOk segs \<and> good_cut data segs"
  using fixed_strategies_cut [of data] stratSNISplit_cut [of r data]
  by (simp add: strategyByName_def fragStrategies_def)

section \<open>The first write\<close>

text \<open>A run of two or three writes over consecutive slices is a run of \<open>writeSegments\<close>.\<close>

definition split_segments :: "nat \<Rightarrow> nat \<Rightarrow> bytes \<Rightarrow> bytes list" where
  "split_segments r3 p data =
    (let q = randomInt r3 (p + 1) (length data) in
     if p + 10 < length data then [take p data, take (q - p) (drop p data), drop q data]
     else [take p data, drop p data])"

lemma randomInt_bounds: "mn < mx \<Longrightarrow> mn \<le> randomInt r mn mx \<and> randomInt r mn mx < mx"
  by (simp add: randomInt_def) (metis add.commute less_diff_conv mod_less_divisor zero_less_diff)

lemma concat_split: "concat (split_segments r3 p data) = data"
proof (cases "p + 10 < length data")
  case True
  then have "p \<le> randomInt r3 (p + 1) (length data)"
    using randomInt_bounds [of "p + 1" "length data" r3] by linarith
  with True show ?thesis
    by (simp add: split_segments_def Let_def) (metis append_take_drop_id append.assoc le_add_diff_inverse take_add)
qed (simp add: split_segments_def)

lemma writeSegments_single: "writeSegments wr [d] c = wr c d"
  by (simp split: prod.split option.split)

lemma writeSegments_Cons:
  "writeSegments wr (a # segs) c = (let (c1, n, e) = wr c a in
     if e = None then (let (c2, m, e2) = writeSegments wr segs c1 in (c2, n + m, e2)) else (c1, n, e))"
  by (simp split: prod.split option.split)

lemma fallback_split: "40 \<le> n \<Longrightarrow> randomInt r 20 (n div 2) \<le> n"
  using randomInt_bounds [of 20 "n div 2" r] by (cases "20 < n div 2") (linarith, simp add: randomInt_def)

lemma writeSplit_segments:
  assumes "p \<le> length data"
  shows "writeSplit wr r3 p c data = GoOk (writeSegments wr (split_segments r3 p data) c)"
proof (cases "p + 10 < length data")
  case True
  define q where "q = randomInt r3 (p + 1) (length data)"
  have "p < q" "q \<le> length data"
    using randomInt_bounds [of "p + 1" "length data" r3] True by (simp_all add: q_def)
  then show ?thesis
    using True assms unfolding writeSplit_def split_segments_def q_def [symmetric]
    by (simp add: subslice_def slice_from_def split: prod.split option.split)
next
  case False
  then show ?thesis
    using assms by (simp add: writeSplit_def split_segments_def subslice_def slice_from_def split: prod.split option.split)
qed

lemma fragmentClientHello_segments:
  "\<exists>segs. fragmentClientHello wr rs f data = GoOk (writeSegments wr segs (conn f)) \<and> concat segs = data"
proof -
  obtain r1 r2 r3 where rs: "rs = (r1, r2, r3)" by (cases rs)
  obtain sp where sp: "findSNISplitPoint r1 data = GoOk sp" using findSNISplitPoint_total by blast
  consider "length data < 40" | "strategyName f \<noteq> ''''" "\<not> length data < 40" | "\<not> length data < 40" "strategyName f = ''''" by blast
  then show ?thesis
  proof cases
    case 1
    then show ?thesis
      using writeSegments_single [of wr data "conn f"] by (simp add: rs fragmentClientHello_def exI [of _ "[data]"])
  next
    case 2
    obtain segs where "strategyByName (strategyName f) r1 data = GoOk segs" "concat segs = data"
      using strategyByName_cut by (fastforce simp: good_cut_def)
    with 2 show ?thesis by (auto simp: rs fragmentClientHello_def)
  next
    case 3
    let ?p = "if sp \<le> 0 \<or> sp \<ge> int (length data) then randomInt r2 20 (length data div 2) else nat sp"
    have "?p \<le> length data" using fallback_split [of "length data" r2] 3 by (auto simp: nat_le_iff)
    from writeSplit_segments [OF this, of wr r3 "conn f"] 3 sp
    have "fragmentClientHello wr rs f data = GoOk (writeSegments wr (split_segments r3 ?p data) (conn f))"
      by (simp add: rs fragmentClientHello_def)
    with concat_split show ?thesis by blast
  qed
qed

text \<open>C28. Fragmenting the ClientHello never alters the stream: over any connection that honours the
  contract of \<open>io.Writer\<close>, a write through the fragmenter returns without panicking and honours
  the contract too, whatever the strategy and the random draws: the bytes that reach the
  connection are the leading bytes of the data, all of them unless an error is returned.\<close>

theorem fragmenter_preserves_stream:
  assumes "writer_ok wr out"
  shows "\<exists>f' n e. Fragmenter_Write wr rs f b = GoOk (f', n, e) \<and> \<not> firstWrite f' \<and>
    writer_result (out (conn f)) (out (conn f')) b n e"
proof -
  let ?f = "f\<lparr>firstWrite := False\<rparr>"
  obtain segs where "concat segs = b" and w: "Fragmenter_Write wr rs f b =
      go_bind (GoOk (writeSegments wr segs (conn ?f))) (\<lambda>(c, n, e). GoOk (?f\<lparr>conn := c\<rparr>, n, e))"
  proof (cases "firstWrite f \<and> tcpFragment f \<and> length b > 50")
    case True
    obtain segs where "fragmentClientHello wr rs ?f b = GoOk (writeSegments wr segs (conn ?f))" "concat segs = b"
      using fragmentClientHello_segments [of wr rs ?f b] by blast
    with True that [of segs] show ?thesis by (simp add: Fragmenter_Write_def)
  next
    case False
    with that [of "[b]"] writeSegments_single [of wr b "conn f"] show ?thesis by (simp add: Fragmenter_Write_def)
  qed
  then show ?thesis
    using writeSegments_ok [OF assms, of segs "conn f"]
    by (cases "writeSegments wr segs (conn f)") simp
qed

theorem fragmenter_preserves_stream_witness:
  "\<exists>f' n e. Fragmenter_Write (\<lambda>c b. (c @ b, length b, None :: string option)) (7, 8, 9)
      \<lparr>conn = [], firstWrite = True, tcpFragment = True, strategyName = ''midpoint'', serverAddr = ''h:443''\<rparr>
      (replicate 60 1) = GoOk (f', n, e) \<and> conn f' = take n (replicate 60 1)"
  using fragmenter_preserves_stream [of "\<lambda>c b. (c @ b, length b, None :: string option)" "\<lambda>c. c"]
  by (fastforce simp: writer_ok_def writer_result_def)

section \<open>Record fragments\<close>

lemma fragmentLoop_props:
  "concat (fragmentLoop rs k data) = data \<and> [] \<notin> set (fragmentLoop rs k data) \<and> length (fragmentLoop rs k data) \<le> k + 1"
proof (induction k arbitrary: data)
  case (Suc k)
  then show ?case
    by (auto simp: Let_def)
qed simp

lemma fragmentLoop_two: "16 < length data \<Longrightarrow> 0 < k \<Longrightarrow> 2 \<le> length (fragmentLoop rs k data)"
proof -
  assume d: "16 < length data" and "0 < k"
  then obtain j where k: "k = Suc j" using gr0_implies_Suc by blast
  have "fragmentLoop rs j xs \<noteq> []" if "0 < length xs" for xs
    using fragmentLoop_props [of rs j xs] that by (metis concat.simps(1) length_greater_0_conv)
  then show ?thesis using d by (simp add: k Let_def Suc_le_eq)
qed

text \<open>Record fragmentation is lossless and really fragments: the fragments concatenate to the
  data, and with fragmentation enabled a payload of at least 64 bytes is cut into two to four
  non-empty fragments.\<close>

lemma Fragment_lossless:
  "concat (Fragment enabled r rs data) = data \<and>
   (enabled \<and> 64 \<le> length data \<longrightarrow>
     2 \<le> length (Fragment enabled r rs data) \<and> length (Fragment enabled r rs data) \<le> 4 \<and> [] \<notin> set (Fragment enabled r rs data))"
proof -
  have "2 \<le> randomInt r 2 5 \<and> randomInt r 2 5 < 5"
    by (rule randomInt_bounds) simp
  then show ?thesis
    using fragmentLoop_props [of rs "randomInt r 2 5 - 1" data] fragmentLoop_props [of rs 1 data]
      fragmentLoop_two [of data "randomInt r 2 5 - 1" rs] fragmentLoop_two [of data 1 rs]
    by (auto simp: Fragment_def Let_def simp del: fragmentLoop.simps One_nat_def)
qed

lemma Fragment_lossless_witness:
  "2 \<le> length (Fragment True 3 (\<lambda>_. 5) (replicate 64 0))"
  using Fragment_lossless [of True 3 "\<lambda>_. 5" "replicate 64 0"] by simp

section \<open>Where the ClientHello is cut\<close>

definition shift_result :: "nat \<Rightarrow> int \<Rightarrow> int" where
  "shift_result n i = (if i < 0 then i else int n + i)"

lemma shift_result_simps [simp]: "shift_result n (int k) = int (n + k)" "shift_result n (- 1) = - 1"
  by (simp_all add: shift_result_def)

lemma go_bind_assoc: "go_bind (go_bind m f) g = go_bind m (\<lambda>x. go_bind (f x) g)"
  by (cases m) simp_all

lemma go_bind_if: "go_bind (if b then m else m') g = (if b then go_bind m g else go_bind m' g)"
  by simp

lemma splitExts_shift:
  "splitExts r (pre @ xs) (length pre + e) (length pre + p) = go_bind (splitExts r xs e p) (\<lambda>i. GoOk (shift_result (length pre) i))"
proof (induction r xs e p rule: splitExts.induct)
  case (1 r xs e p)
  show ?case
  proof (cases "e < p + 4")
    case True
    then show ?thesis by (subst (1 2) splitExts.simps) simp
  next
    case False
    then show ?thesis
      using 1
      by (subst (1 2) splitExts.simps,
          cases "idx xs p :: (string, byte) gores"; cases "idx xs (p + 1) :: (string, byte) gores";
          cases "idx xs (p + 2) :: (string, byte) gores"; cases "idx xs (p + 3) :: (string, byte) gores")
        (simp_all add: idx_shift Let_def ac_simps shift_result_def)
  qed
qed

lemma splitExts_head:
  assumes "t < 65536" "length b < 65536" "e \<ge> 4"
  shows "splitExts r (put16 t @ enc_vec16 b @ rest) e 0 =
    (if t = 0 then
       (if length b \<ge> 5 \<and> 5 < length b + length rest then
          GoOk (int (if length b > 5 then 9 + randomInt r 0 (min (length b - 5) 10) else 9))
        else GoOk 4)
     else splitExts r (put16 t @ enc_vec16 b @ rest) e (4 + length b))"
  using assms by (subst (1) splitExts.simps) (simp add: enc_vec16_def put16_def go_simps be_simps Let_def)

lemma splitExts_enc:
  assumes "wf_tagged (es1 @ (0, enc_vec16 (enc_names [(ty, name)])) # es2)" and "0 \<notin> fst ` set es1" and "name \<noteq> []"
  shows "splitExts r (enc_tagged (es1 @ (0, enc_vec16 (enc_names [(ty, name)])) # es2))
      (length (enc_tagged (es1 @ (0, enc_vec16 (enc_names [(ty, name)])) # es2))) 0 =
    GoOk (int (length (enc_tagged es1) + 9 + randomInt r 0 (min (length name) 10)))"
  using assms(1, 2)
proof (induction es1)
  case Nil
  let ?b = "enc_vec16 (enc_names [(ty, name)])"
  have "length ?b < 65536" "length ?b = 5 + length name"
    using Nil by auto
  then show ?case
    using assms(3) splitExts_head [of 0 ?b "length (enc_tagged ((0, ?b) # es2))" r "enc_tagged es2"]
    by (simp del: enc_names_simps)
next
  case (Cons e es1)
  obtain t b where e: "e = (t, b)" by (cases e)
  define tl where "tl = enc_tagged (es1 @ (0, enc_vec16 (enc_names [(ty, name)])) # es2)"
  have w: "t < 65536" "length b < 65536" "wf_tagged (es1 @ (0, enc_vec16 (enc_names [(ty, name)])) # es2)" "t \<noteq> 0" "0 \<notin> fst ` set es1"
    using Cons.prems e by auto
  define pre where "pre = put16 t @ enc_vec16 b"
  have pre: "length pre = 4 + length b" by (simp add: pre_def)
  have "splitExts r (pre @ tl) (length pre + length tl) (length pre + 0) =
      GoOk (int (length pre + (length (enc_tagged es1) + 9 + randomInt r 0 (min (length name) 10))))"
    unfolding splitExts_shift using Cons.IH [OF w(3) w(5)] unfolding tl_def [symmetric] by (simp add: shift_result_def)
  moreover have "splitExts r (pre @ tl) (length pre + length tl) 0 = splitExts r (pre @ tl) (length pre + length tl) (length pre + 0)"
    using w splitExts_head [of t b "4 + length b + length tl" r tl] unfolding pre by (simp add: pre_def)
  moreover have "enc_tagged (((t, b) # es1) @ (0, enc_vec16 (enc_names [(ty, name)])) # es2) = pre @ tl"
    "length (enc_tagged ((t, b) # es1)) = length pre + length (enc_tagged es1)"
    by (simp_all add: pre_def tl_def)
  ultimately show ?case by (simp only: e length_append) (simp add: add.assoc)
qed

lemma findSNISplitPoint_enc:
  assumes "wf_hello h"
  shows "findSNISplitPoint r (enc_record (enc_handshake h)) =
    go_bind (splitExts r (enc_tagged (extensions h)) (length (enc_tagged (extensions h))) 0)
      (\<lambda>i. GoOk (shift_result (49 + length (session_id h) + length (cipher_suites h) + length (compression_methods h)) i))"
proof -
  note l = enc_body_layout [OF assms]
  define pre where "pre = [22, 3, 1] @ put16 (length (enc_handshake h)) @ [1] @ put24 (length (enc_body h))"
  have data: "enc_record (enc_handshake h) = pre @ enc_body h" and pre: "length pre = 9"
    by (simp_all add: enc_record_def enc_handshake_def pre_def put24_def)
  have i: "(idx (pre @ enc_body h) (9 + k) :: (string, byte) gores) = idx (enc_body h) k" for k
    by (simp add: idx_shift pre)
  have i5: "(idx (pre @ enc_body h) 5 :: (string, byte) gores) = GoOk 1"
    by (simp add: idx_def pre_def put24_def put16_def nth_append)
  obtain q where q: "enc_body h = q @ enc_tagged (extensions h)"
    "length q = 40 + length (session_id h) + length (cipher_suites h) + length (compression_methods h)"
    using l(8) by blast
  have "splitExts r (pre @ enc_body h) (length (pre @ q) + length (enc_tagged (extensions h))) (length (pre @ q) + 0) =
      go_bind (splitExts r (enc_tagged (extensions h)) (length (enc_tagged (extensions h))) 0) (\<lambda>i. GoOk (shift_result (length (pre @ q)) i))"
    unfolding q(1) append_assoc [symmetric] by (rule splitExts_shift)
  then show ?thesis
    using l(1-7, 9-) q(2) pre i [of 34] i [of "35 + _"] i [of "36 + _"] i [of "37 + _ + _"] i [of "38 + _ + _ + _"] i [of "39 + _ + _ + _"] i5
    unfolding data
    by (simp add: findSNISplitPoint_def Let_def unat_word_of_nat_byte be_simps ac_simps)
qed

text \<open>The ClientHello is cut inside the server name: for every well-formed ClientHello record whose
  server_name extension carries one host name, the split point lies in that name, at most nine
  bytes into it, so that the two segments of the default strategy never show the whole record
  prefix up to and including the name in one piece.\<close>

lemma sni_split_inside_hostname:
  assumes "wf_hello h" and "length (enc_handshake h) < 65536" and "name \<noteq> []" and "0 \<notin> fst ` set es1"
    and "extensions h = es1 @ (0, enc_vec16 (enc_names [(0, name)])) # es2"
  shows "\<exists>pre a b post. enc_record (enc_handshake h) = pre @ a @ b @ post \<and> name = a @ b \<and> b \<noteq> [] \<and> length a < 10 \<and>
    findSNISplitPoint r (enc_record (enc_handshake h)) = GoOk (int (length (pre @ a))) \<and>
    stratSNISplit r (enc_record (enc_handshake h)) = GoOk [pre @ a, b @ post]"
proof -
  note l = enc_body_layout [OF assms(1)]
  define o1 where "o1 = randomInt r 0 (min (length name) 10)"
  have o1: "o1 < length name" "o1 < 10"
    using randomInt_bounds [of 0 "min (length name) 10" r] assms(3) by (simp_all add: o1_def)
  obtain q where q: "enc_body h = q @ enc_tagged (extensions h)"
    "length q = 40 + length (session_id h) + length (cipher_suites h) + length (compression_methods h)"
    using l(8) by blast
  define pre where "pre = [22, 3, 1] @ put16 (length (enc_handshake h)) @ [1] @ put24 (length (enc_body h)) @ q @ enc_tagged es1 @
    put16 0 @ put16 (5 + length name) @ put16 (3 + length name) @ [0] @ put16 (length name)"
  have data: "enc_record (enc_handshake h) = pre @ name @ enc_tagged es2"
    unfolding enc_record_def enc_handshake_def q(1) assms(5) pre_def
    by (simp add: enc_tagged_def enc_vec16_def eval_nat_numeral)
  have sp: "findSNISplitPoint r (enc_record (enc_handshake h)) = GoOk (int (length (pre @ take o1 name)))"
    using splitExts_enc [of es1 0 name es2 r] assms q(2) o1
    by (simp add: findSNISplitPoint_enc pre_def o1_def [symmetric] shift_result_def put24_def wf_hello_def del: enc_names_simps)
  have "nat (int (length pre) + int o1) = length pre + o1" "\<not> int (length pre) + int o1 \<le> 0"
    by (simp_all add: pre_def nat_add_distrib)
  then have "stratSNISplit r (enc_record (enc_handshake h)) = GoOk [pre @ take o1 name, drop o1 name @ enc_tagged es2]"
    using o1 sp unfolding stratSNISplit_def data
    by (simp add: subslice_def slice_from_def)
  with sp data o1 show ?thesis
    by (intro exI [of _ pre] exI [of _ "take o1 name"] exI [of _ "drop o1 name"] exI [of _ "enc_tagged es2"]) simp
qed

lemma sni_split_inside_hostname_witness:
  "\<exists>pre a b post. [97, 46, 99] = a @ b \<and> b \<noteq> [] \<and> stratSNISplit 1 (enc_record (enc_handshake
     \<lparr>legacy_version = 771, random = replicate 32 0, session_id = [], cipher_suites = [19, 1], compression_methods = [0],
       extensions = [(0, enc_vec16 (enc_names [(0, [97, 46, 99])]))]\<rparr>)) = GoOk [pre @ a, b @ post]"
  using sni_split_inside_hostname [of "\<lparr>legacy_version = 771, random = replicate 32 0, session_id = [], cipher_suites = [19, 1],
      compression_methods = [0], extensions = [(0, enc_vec16 (enc_names [(0, [97, 46, 99])]))]\<rparr>" "[97, 46, 99]" "[]" "[]" 1]
  by (auto simp: wf_hello_def wf_tagged_def enc_handshake_def enc_body_def enc_vec8_def put24_def)

section \<open>The bandit's choice\<close>

lemma best_by_max:
  assumes "snd acc = -1 \<or> snd acc = score (fst acc)" and "\<forall>s \<in> set names. -1 < score s"
  shows "let (best, sc) = best_by score names acc in
    (best = fst acc \<or> best \<in> set names) \<and> (names \<noteq> [] \<or> snd acc = score (fst acc) \<longrightarrow> sc = score best) \<and>
    snd acc \<le> sc \<and> (\<forall>s \<in> set names. score s \<le> sc)"
  using assms
proof (induction names arbitrary: acc)
  case Nil
  then show ?case by (cases acc) (auto simp: best_by_def)
next
  case (Cons n names)
  obtain b sc where acc: "acc = (b, sc)" by (cases acc)
  let ?acc = "if score n > sc then (n, score n) else acc"
  have step: "best_by score (n # names) acc = best_by score names ?acc"
    by (simp add: best_by_def acc)
  have "snd ?acc = score (fst ?acc)" "sc \<le> snd ?acc" "score n \<le> snd ?acc"
    using Cons.prems by (auto simp: acc)
  with Cons.IH [of ?acc] Cons.prems show ?case
    unfolding step by (auto simp: acc split: prod.splits if_splits)
qed

definition greedy_score :: "genevaBandit \<Rightarrow> string \<Rightarrow> string \<Rightarrow> rat" where
  "greedy_score b server s = of_int (wins (stats_for b server) s + 1) / of_int (wins (stats_for b server) s + losses (stats_for b server) s + 2)"

text \<open>The bandit in greedy mode picks a best arm: the name it returns is a registered strategy,
  and no registered strategy has a better smoothed success rate for that server.\<close>

lemma pick_greedy_best:
  assumes "\<forall>s. 0 \<le> wins (stats_for b server) s \<and> 0 \<le> losses (stats_for b server) s"
  shows "fst (pick True gamma server b) \<in> fst ` set fragStrategies \<and>
    (\<forall>s \<in> fst ` set fragStrategies. greedy_score b server s \<le> greedy_score b server (fst (pick True gamma server b)))"
proof -
  have "-1 < greedy_score b server s" for s
    using assms by (simp add: greedy_score_def add_nonneg_pos less_le_trans [of _ 0] zero_le_divide_iff)
  moreover have "fst (pick True gamma server b) = fst (best_by (greedy_score b server) (map fst fragStrategies) (hd (map fst fragStrategies), -1))"
    by (simp add: pick_def greedy_score_def [abs_def] Let_def)
  ultimately show ?thesis
    using best_by_max [of "(hd (map fst fragStrategies), -1)" "greedy_score b server" "map fst fragStrategies"]
    by (auto simp: fragStrategies_def split: prod.splits)
qed

lemma pick_greedy_best_witness:
  "fst (pick True (\<lambda>_. (0, 0)) ''h:443'' (reportOutcome ''h:443'' ''midpoint'' True (\<lambda>_. None))) \<in> fst ` set fragStrategies \<and>
   greedy_score (reportOutcome ''h:443'' ''midpoint'' True (\<lambda>_. None)) ''h:443'' ''midpoint'' = 2 / 3"
  using pick_greedy_best [of "reportOutcome ''h:443'' ''midpoint'' True (\<lambda>_. None)" "''h:443''" "\<lambda>_. (0, 0)"]
  by (simp add: reportOutcome_def stats_for_def noStats_def greedy_score_def)

end
