(* ===== verification/GeoDat.thy ===== *)
theory GeoDat
  imports Routing
begin

text \<open>
  Geo databases: node/geo_dat.go. The hand-written protobuf reader with every slice expression
  checked, the lists of prefixes and domain rules it reads, merging of several files, and the lookups
  that routing uses. The content of a file and the tables built into the program are arguments.
\<close>

section \<open>Protobuf\<close>

text \<open>\<open>binary.Uvarint\<close>: the value and the number of bytes read, not positive on truncation or overflow.\<close>

primrec Uvarint :: "bytes \<Rightarrow> nat \<Rightarrow> 64 word \<Rightarrow> 64 word \<times> int" where
  "Uvarint [] i x = (0, 0)"
| "Uvarint (b # bs) i x =
    (if i = 10 then (0, - (int i + 1))
     else if b < 0x80 then
       if i = 9 \<and> b > 1 then (0, - (int i + 1)) else (x OR push_bit (7 * i) (ucast b), int i + 1)
     else Uvarint bs (i + 1) (x OR push_bit (7 * i) (ucast (b AND 0x7f))))"

record protoField =
  fnum :: int
  ftyp :: int
  fbytes :: bytes
  fvarint :: "64 word"

text \<open>The \<open>switch\<close> on the wire type of \<open>nextProtoField\<close>.\<close>

definition fieldPayload :: "protoField \<Rightarrow> bytes \<Rightarrow> (string, protoField \<times> bytes) gores" where
  "fieldPayload field data =
    (if ftyp field = 0 then
       (case Uvarint data 0 0 of (v, n) \<Rightarrow>
        if n \<le> 0 then GoErr ''invalid protobuf varint''
        else go_bind (slice_from data (nat n)) (\<lambda>rest. GoOk (field\<lparr>fvarint := v\<rparr>, rest)))
     else if ftyp field = 1 then
       (if length data < 8 then GoErr ''truncated protobuf fixed64'' else go_bind (slice_from data 8) (\<lambda>rest. GoOk (field, rest)))
     else if ftyp field = 2 then
       (case Uvarint data 0 0 of (l, n) \<Rightarrow>
        if n \<le> 0 then GoErr ''invalid protobuf length''
        else go_bind (slice_from data (nat n)) (\<lambda>data.
          if l > word_of_nat (length data) then GoErr ''truncated protobuf length-delimited field''
          else go_bind (subslice data 0 (unat l)) (\<lambda>bs. go_bind (slice_from data (unat l)) (\<lambda>rest.
            GoOk (field\<lparr>fbytes := bs\<rparr>, rest)))))
     else if ftyp field = 5 then
       (if length data < 4 then GoErr ''truncated protobuf fixed32'' else go_bind (slice_from data 4) (\<lambda>rest. GoOk (field, rest)))
     else GoErr ''unsupported protobuf wire type'')"

definition nextProtoField :: "bytes \<Rightarrow> (string, protoField \<times> bytes) gores" where
  "nextProtoField data =
    (case Uvarint data 0 0 of (k, n) \<Rightarrow>
     if n \<le> 0 then GoErr ''invalid protobuf field key''
     else go_bind (slice_from data (nat n)) (\<lambda>data.
       let field = \<lparr>fnum = sint (drop_bit 3 k), ftyp = uint (k AND 7), fbytes = [], fvarint = 0\<rparr> in
       if fnum field \<le> 0 then GoErr ''invalid protobuf field number'' else fieldPayload field data))"

text \<open>The loop \<open>for len(data) > 0\<close> every message parser has around its \<open>switch\<close>; it ends because a field
  is never empty.\<close>

lemma Uvarint_length: "Uvarint bs i x = (v, n) \<Longrightarrow> n > 0 \<Longrightarrow> int i < n \<and> n \<le> int i + int (length bs)"
proof (induction bs arbitrary: i x)
  case (Cons b bs)
  then show ?case using Cons.IH [of "i + 1" "x OR push_bit (7 * i) (ucast (b AND 0x7f))"] by (auto split: if_splits)
qed simp

lemma Uvarint_slice:
  assumes "Uvarint data 0 0 = (v, n)" "\<not> n \<le> 0"
  shows "0 < nat n" "nat n \<le> length data"
  using Uvarint_length [OF assms(1)] assms(2) by auto

lemma fieldPayload_length:
  assumes "fieldPayload field data = GoOk (f, rest)"
  shows "length rest \<le> length data"
proof -
  obtain v n where u: "Uvarint data 0 0 = (v, n)" by fastforce
  show ?thesis using assms unfolding fieldPayload_def u prod.case
    by (auto simp: go_bind_GoOk dest!: slice_from_GoOk_length split: if_split_asm)
qed

lemma nextProtoField_shorter:
  assumes "nextProtoField data = GoOk (f, rest)"
  shows "length rest < length data"
proof -
  obtain k n where u: "Uvarint data 0 0 = (k, n)" by fastforce
  have n: "\<not> n \<le> 0" using assms u by (auto simp: nextProtoField_def)
  note s = Uvarint_slice [OF u n]
  have "\<exists>field. fieldPayload field (drop (nat n) data) = GoOk (f, rest)"
    using assms n unfolding nextProtoField_def u prod.case by (auto simp: Let_def slice_from_in [OF s(2)] split: if_split_asm)
  then have "length rest \<le> length (drop (nat n) data)" using fieldPayload_length by blast
  then show ?thesis using s(1, 2) by simp
qed

function protoLoop :: "(protoField \<Rightarrow> 's \<Rightarrow> (string, 's) gores) \<Rightarrow> bytes \<Rightarrow> 's \<Rightarrow> (string, 's) gores" where
  "protoLoop f data s =
    (if data = [] then GoOk s
     else case nextProtoField data of
       GoPanic \<Rightarrow> GoPanic | GoErr e \<Rightarrow> GoErr e
     | GoOk r \<Rightarrow> go_bind (f (fst r) s) (protoLoop f (snd r)))"
  by pat_completeness auto
termination
  by (relation "measure (\<lambda>(f, data, s). length data)") (auto simp: nextProtoField_shorter)

declare protoLoop.simps [simp del]

section \<open>Messages\<close>

record DomainRule =
  dType :: string
  dValue :: string

record GeoIP =
  CountryCode :: string
  CIDR :: "prefix list"

record GeoSite =
  sCountryCode :: string
  sDomain :: "DomainRule list"

text \<open>\<open>Prefix.Masked\<close>.\<close>

definition masked :: "prefix \<Rightarrow> prefix" where
  "masked p = (case p of (V4 w, b) \<Rightarrow> (V4 (push_bit (32 - b) (drop_bit (32 - b) w)), b)
     | (V6 w z, b) \<Rightarrow> (V6 (push_bit (128 - b) (drop_bit (128 - b) w)) [], b))"

definition parseCIDRMessage :: "bytes \<Rightarrow> (string, prefix) gores" where
  "parseCIDRMessage data =
    go_bind (protoLoop (\<lambda>field (ipBytes, prefixBits).
        if fnum field = 1 then GoOk (if ftyp field = 2 then fbytes field else ipBytes, prefixBits)
        else if fnum field = 2 then GoOk (ipBytes, if ftyp field = 0 then sint (fvarint field) else prefixBits)
        else GoOk (ipBytes, prefixBits)) data ([], 0)) (\<lambda>(ipBytes, prefixBits).
      case AddrFromSlice ipBytes of None \<Rightarrow> GoErr ''invalid CIDR IP bytes length''
      | Some a \<Rightarrow>
         let addr = Unmap a; maxBits = (case addr of V4 _ \<Rightarrow> 32 | V6 _ _ \<Rightarrow> if \<not> is4In6 addr then 128 else 32) in
         if prefixBits < 0 \<or> prefixBits > maxBits then GoErr ''invalid prefix length''
         else GoOk (masked (addr, nat prefixBits)))"

definition parseGeoIPMessage :: "bytes \<Rightarrow> (string, GeoIP) gores" where
  "parseGeoIPMessage data = protoLoop (\<lambda>field out.
      if fnum field = 1 then GoOk (if ftyp field = 2 then out\<lparr>CountryCode := str_of_bytes (fbytes field)\<rparr> else out)
      else if fnum field = 2 then
        (if ftyp field = 2 then go_bind (parseCIDRMessage (fbytes field)) (\<lambda>p. GoOk (out\<lparr>CIDR := CIDR out @ [p]\<rparr>)) else GoOk out)
      else GoOk out) data \<lparr>CountryCode = [], CIDR = []\<rparr>"

definition parseGeoIPList :: "bytes \<Rightarrow> (string, GeoIP list) gores" where
  "parseGeoIPList data = protoLoop (\<lambda>field out.
      if fnum field = 1 \<and> ftyp field = 2 then go_bind (parseGeoIPMessage (fbytes field)) (\<lambda>e. GoOk (out @ [e])) else GoOk out) data []"

definition domainRuleTypeName :: "64 word \<Rightarrow> (string, string) gores" where
  "domainRuleTypeName v = (if v = 0 then GoOk ''Plain'' else if v = 1 then GoOk ''Regex'' else if v = 2 then GoOk ''RootDomain''
     else if v = 3 then GoOk ''Full'' else GoErr ''unknown domain rule type number'')"

definition parseDomainRuleMessage :: "bytes \<Rightarrow> (string, DomainRule) gores" where
  "parseDomainRuleMessage data = protoLoop (\<lambda>field out.
      if fnum field = 1 then
        (if ftyp field = 0 then go_bind (domainRuleTypeName (fvarint field)) (\<lambda>t. GoOk (out\<lparr>dType := t\<rparr>)) else GoOk out)
      else if fnum field = 2 then GoOk (if ftyp field = 2 then out\<lparr>dValue := str_of_bytes (fbytes field)\<rparr> else out)
      else GoOk out) data \<lparr>dType = ''Plain'', dValue = []\<rparr>"

definition parseGeoSiteMessage :: "bytes \<Rightarrow> (string, GeoSite) gores" where
  "parseGeoSiteMessage data = protoLoop (\<lambda>field out.
      if fnum field = 1 then GoOk (if ftyp field = 2 then out\<lparr>sCountryCode := str_of_bytes (fbytes field)\<rparr> else out)
      else if fnum field = 2 then
        (if ftyp field = 2 then go_bind (parseDomainRuleMessage (fbytes field)) (\<lambda>r. GoOk (out\<lparr>sDomain := sDomain out @ [r]\<rparr>)) else GoOk out)
      else GoOk out) data \<lparr>sCountryCode = [], sDomain = []\<rparr>"

definition parseGeoSiteList :: "bytes \<Rightarrow> (string, GeoSite list) gores" where
  "parseGeoSiteList data = protoLoop (\<lambda>field out.
      if fnum field = 1 \<and> ftyp field = 2 then go_bind (parseGeoSiteMessage (fbytes field)) (\<lambda>e. GoOk (out @ [e])) else GoOk out) data []"

section \<open>Databases\<close>

record GeoDB =
  geoip :: "(string \<times> prefix list) list"
  geosite :: "(string \<times> DomainRule list) list"

datatype datFile = Missing | Unreadable | Contents bytes

definition at_key :: "string \<Rightarrow> (string \<times> 'v list) list \<Rightarrow> 'v list" where
  "at_key k m = (case map_of m k of None \<Rightarrow> [] | Some v \<Rightarrow> v)"

text \<open>Appending what is not there yet; the \<open>seen\<close> set is the list itself. A key is only created by an append.\<close>

definition appendNovel :: "string \<Rightarrow> 'v list \<Rightarrow> (string \<times> 'v list) list \<Rightarrow> (string \<times> 'v list) list" where
  "appendNovel k vs m = fold (\<lambda>v m. if v \<in> set (at_key k m) then m else AList.update k (at_key k m @ [v]) m) vs m"

definition mergeGeoIP :: "GeoIP \<Rightarrow> GeoDB \<Rightarrow> GeoDB" where
  "mergeGeoIP e db = (let k = normalizeGeoName (CountryCode e) in
     if k = [] then db else db\<lparr>geoip := appendNovel k (CIDR e) (geoip db)\<rparr>)"

definition mergeGeoSite :: "GeoSite \<Rightarrow> GeoDB \<Rightarrow> GeoDB" where
  "mergeGeoSite e db = (let k = normalizeGeoName (sCountryCode e) in
     if k = [] then db else db\<lparr>geosite := appendNovel k (sDomain e) (geosite db)\<rparr>)"

definition loadGeoIPDatMerge :: "datFile \<Rightarrow> GeoDB \<Rightarrow> (string, GeoDB \<times> bool) gores" where
  "loadGeoIPDatMerge f db = (case f of Missing \<Rightarrow> GoOk (db, False) | Unreadable \<Rightarrow> GoErr ''read geoip dat''
   | Contents data \<Rightarrow> go_bind (parseGeoIPList data) (\<lambda>es.
       GoOk (fold mergeGeoIP es db, True)))"

definition loadGeositeDatMerge :: "datFile \<Rightarrow> GeoDB \<Rightarrow> (string, GeoDB \<times> bool) gores" where
  "loadGeositeDatMerge f db = (case f of Missing \<Rightarrow> GoOk (db, False) | Unreadable \<Rightarrow> GoErr ''read geosite dat''
   | Contents data \<Rightarrow> go_bind (parseGeoSiteList data) (\<lambda>es.
       GoOk (fold mergeGeoSite es db, True)))"

primrec loadAll :: "(datFile \<Rightarrow> GeoDB \<Rightarrow> (string, GeoDB \<times> bool) gores) \<Rightarrow> (string \<Rightarrow> datFile) \<Rightarrow> string list \<Rightarrow> GeoDB \<times> bool \<Rightarrow> (string, GeoDB \<times> bool) gores" where
  "loadAll load fs [] s = GoOk s"
| "loadAll load fs (p # ps) s = (if trim_space p = [] then loadAll load fs ps s
     else go_bind (load (fs p) (fst s)) (\<lambda>(db, ok). loadAll load fs ps (db, snd s \<or> ok)))"

definition LoadGeoDBMulti :: "(string \<Rightarrow> datFile) \<Rightarrow> string list \<Rightarrow> string list \<Rightarrow> (string, GeoDB option) gores" where
  "LoadGeoDBMulti fs geoipPaths geositePaths =
    go_bind (loadAll loadGeoIPDatMerge fs geoipPaths (\<lparr>geoip = [], geosite = []\<rparr>, False)) (\<lambda>s.
    go_bind (loadAll loadGeositeDatMerge fs geositePaths s) (\<lambda>(db, loaded). GoOk (if loaded then Some db else None)))"

definition LoadGeoDB :: "(string \<Rightarrow> datFile) \<Rightarrow> string \<Rightarrow> string \<Rightarrow> (string, GeoDB option) gores" where
  "LoadGeoDB fs geoipPath geositePath = LoadGeoDBMulti fs
     (if trim_space geoipPath \<noteq> [] then [geoipPath] else []) (if trim_space geositePath \<noteq> [] then [geositePath] else [])"

text \<open>The single-source loaders, where a later entry replaces an earlier one.\<close>

definition loadGeoIPDat :: "datFile \<Rightarrow> GeoDB \<Rightarrow> (string, GeoDB \<times> bool) gores" where
  "loadGeoIPDat f db = (case f of Missing \<Rightarrow> GoOk (db, False) | Unreadable \<Rightarrow> GoErr ''read geoip dat''
   | Contents data \<Rightarrow> go_bind (parseGeoIPList data) (\<lambda>es.
       GoOk (fold (\<lambda>e db. let k = normalizeGeoName (CountryCode e) in
         if k = [] then db else db\<lparr>geoip := AList.update k (CIDR e) (geoip db)\<rparr>) es db, True)))"

definition loadGeositeDat :: "datFile \<Rightarrow> GeoDB \<Rightarrow> (string, GeoDB \<times> bool) gores" where
  "loadGeositeDat f db = (case f of Missing \<Rightarrow> GoOk (db, False) | Unreadable \<Rightarrow> GoErr ''read geosite dat''
   | Contents data \<Rightarrow> go_bind (parseGeoSiteList data) (\<lambda>es.
       GoOk (fold (\<lambda>e db. let k = normalizeGeoName (sCountryCode e) in
         if k = [] then db else db\<lparr>geosite := AList.update k (sDomain e) (geosite db)\<rparr>) es db, True)))"

definition GeoIPCIDRs :: "(string \<times> prefix list) list \<Rightarrow> GeoDB option \<Rightarrow> string \<Rightarrow> prefix list" where
  "GeoIPCIDRs curated db name =
    (let k = normalizeGeoName name; own = (case db of None \<Rightarrow> [] | Some db \<Rightarrow> at_key k (geoip db)) in
     if own \<noteq> [] then own else at_key k curated)"

definition geositeRulesFor :: "(string \<times> DomainRule list) list \<Rightarrow> GeoDB option \<Rightarrow> string \<Rightarrow> DomainRule list option" where
  "geositeRulesFor curated db name =
    (let k = normalizeGeoName name; own = (case db of None \<Rightarrow> [] | Some db \<Rightarrow> at_key k (geosite db)) in
     if own \<noteq> [] then Some own else if at_key k curated \<noteq> [] then Some (at_key k curated) else None)"

definition domainRuleToMatcher :: "(string \<Rightarrow> (string \<Rightarrow> bool) option) \<Rightarrow> DomainRule \<Rightarrow> (string, domainMatcher) gores" where
  "domainRuleToMatcher rx r =
    (let value = to_lower (trim_space (dValue r)); ty = to_lower (trim_space (dType r)) in
     if value = [] then GoErr ''empty domain rule value''
     else if ty = ''plain'' then GoOk (KeywordMatch value)
     else if ty = ''rootdomain'' \<or> ty = ''domain'' then GoOk (SuffixMatch value)
     else if ty = ''regex'' \<or> ty = ''regexp'' then (case rx value of None \<Rightarrow> GoErr ''regex compile'' | Some f \<Rightarrow> GoOk (RegexMatch f))
     else if ty = ''full'' then GoOk (FullMatch value)
     else GoErr ''unknown domain rule type'')"

text \<open>Rules unknown to both tables give no matchers, which the caller reports.\<close>

definition geositeMatchersFor :: "(string \<Rightarrow> (string \<Rightarrow> bool) option) \<Rightarrow> (string \<times> DomainRule list) list \<Rightarrow> GeoDB option \<Rightarrow> string \<Rightarrow> (string, domainMatcher list) gores" where
  "geositeMatchersFor rx curated db name = (case geositeRulesFor curated db name of None \<Rightarrow> GoOk []
     | Some rs \<Rightarrow> each (\<lambda>r ms. go_bind (domainRuleToMatcher rx r) (\<lambda>m. GoOk (ms @ [m]))) rs [])"

definition GeoSiteDomainRules :: "(string \<times> DomainRule list) list \<Rightarrow> GeoDB option \<Rightarrow> string \<Rightarrow> DomainRule list" where
  "GeoSiteDomainRules curated db name = (case geositeRulesFor curated db name of None \<Rightarrow> [] | Some rs \<Rightarrow> rs)"

text \<open>The lookups that rule compilation in node/rules.go calls.\<close>

definition geoLookups :: "(string \<Rightarrow> (string \<Rightarrow> bool) option) \<Rightarrow> (string \<times> prefix list) list \<Rightarrow> (string \<times> DomainRule list) list \<Rightarrow> GeoDB option \<Rightarrow> geo" where
  "geoLookups rx curatedGeoIP curatedGeosite db = \<lparr>geoIPCIDRs = GeoIPCIDRs curatedGeoIP db, geositeMatchers = geositeMatchersFor rx curatedGeosite db\<rparr>"

section \<open>No input makes the reader panic\<close>

lemma no_panic_fieldPayload: "no_panic (fieldPayload field data)"
proof -
  obtain v n where u: "Uvarint data 0 0 = (v, n)" by fastforce
  have l: "unat v \<le> length ds" if "\<not> word_of_nat (length ds) < v" for ds :: bytes
  proof -
    have "unat v \<le> unat (word_of_nat (length ds) :: 64 word)" using that by (simp add: word_le_nat_alt not_less)
    also have "\<dots> \<le> length ds" by (simp add: unat_of_nat)
    finally show ?thesis .
  qed
  show ?thesis
  proof (cases "n \<le> 0")
    case True
    then show ?thesis unfolding fieldPayload_def u prod.case by (simp add: slice_from_in)
  next
    case False
    note s = Uvarint_slice [OF u False]
    show ?thesis using False unfolding fieldPayload_def u prod.case
      by (auto simp: slice_from_in s(2) subslice_in l simp del: length_drop)
  qed
qed

lemma no_panic_nextProtoField: "no_panic (nextProtoField data)"
proof -
  obtain v n where u: "Uvarint data 0 0 = (v, n)" by fastforce
  show ?thesis
    using Uvarint_slice [OF u] by (auto simp: nextProtoField_def u slice_from_in Let_def no_panic_fieldPayload)
qed

lemma no_panic_protoLoop:
  assumes "\<And>field s. no_panic (f field s)"
  shows "no_panic (protoLoop f data s)"
proof (induction "length data" arbitrary: data s rule: less_induct)
  case less
  show ?case
  proof (cases "data = []")
    case False
    show ?thesis
    proof (cases "nextProtoField data")
      case (GoOk r)
      then have "length (snd r) < length data" using nextProtoField_shorter [of data "fst r" "snd r"] by simp
      then show ?thesis using False GoOk less assms by (subst protoLoop.simps) (auto intro!: no_panic_bind)
    next
      case (GoErr e)
      then show ?thesis using False by (subst protoLoop.simps) simp
    next
      case GoPanic
      then show ?thesis using no_panic_nextProtoField [of data] by simp
    qed
  qed (simp add: protoLoop.simps)
qed

lemma no_panic_parseCIDRMessage: "no_panic (parseCIDRMessage data)"
  unfolding parseCIDRMessage_def
  by (intro no_panic_bind no_panic_protoLoop) (auto simp: Let_def split: prod.split option.split)

lemma no_panic_parseGeoIPList: "no_panic (parseGeoIPList data)"
  unfolding parseGeoIPList_def parseGeoIPMessage_def
  by (auto intro!: no_panic_bind no_panic_protoLoop no_panic_parseCIDRMessage)

lemma no_panic_parseGeoSiteList: "no_panic (parseGeoSiteList data)"
  unfolding parseGeoSiteList_def parseGeoSiteMessage_def parseDomainRuleMessage_def domainRuleTypeName_def
  by (auto intro!: no_panic_bind no_panic_protoLoop)

lemma no_panic_loadAll:
  assumes "\<And>f db. no_panic (load f db)"
  shows "no_panic (loadAll load fs ps s)"
  by (induction ps arbitrary: s) (auto intro!: no_panic_bind assms)

lemma no_panic_merges: "no_panic (loadGeoIPDatMerge f db)" "no_panic (loadGeositeDatMerge f db)"
  unfolding loadGeoIPDatMerge_def loadGeositeDatMerge_def
  by (auto intro!: no_panic_bind no_panic_parseGeoIPList no_panic_parseGeoSiteList split: datFile.split)

section \<open>Files as the protobuf encoding writes them\<close>

fun encUvarint :: "nat \<Rightarrow> bytes" where
  "encUvarint n = (if n < 128 then [word_of_nat n] else word_of_nat (n mod 128 + 128) # encUvarint (n div 128))"

declare encUvarint.simps [simp del]

definition encBytes :: "byte \<Rightarrow> bytes \<Rightarrow> bytes" where
  "encBytes num bs = (8 * num + 2) # encUvarint (length bs) @ bs"

definition encInt :: "byte \<Rightarrow> nat \<Rightarrow> bytes" where
  "encInt num v = (8 * num) # encUvarint v"

definition encCIDR :: "prefix \<Rightarrow> bytes" where
  "encCIDR p = encBytes 1 (case fst p of V4 w \<Rightarrow> encBE 4 (uint w) | V6 w _ \<Rightarrow> encBE 16 (uint w)) @ encInt 2 (snd p)"

definition encGeoIP :: "GeoIP \<Rightarrow> bytes" where
  "encGeoIP e = encBytes 1 (bytes_of_str (CountryCode e)) @ concat (map (\<lambda>p. encBytes 2 (encCIDR p)) (CIDR e))"

definition encGeoIPList :: "GeoIP list \<Rightarrow> bytes" where
  "encGeoIPList es = concat (map (\<lambda>e. encBytes 1 (encGeoIP e)) es)"

text \<open>A network the format can carry: host bits cleared, no IPv4 address in IPv6 clothing.\<close>

definition plainNetwork :: "prefix \<Rightarrow> bool" where
  "plainNetwork p \<longleftrightarrow> masked p = p \<and> \<not> is4In6 (fst p) \<and> snd p \<le> max_bits (fst p)"

lemma of_nat_split7: "(word_of_nat (n mod 128) OR push_bit 7 (word_of_nat (n div 128)) :: 64 word) = word_of_nat n"
  by (rule bit_word_eqI) (auto simp: bit_simps simp flip: take_bit_eq_mod [of 7 n, simplified] drop_bit_eq_div [of 7 n, simplified])

lemma byte_low: "(word_of_nat m :: byte) AND 127 = word_of_nat (m mod 128)"
proof -
  have "(127 :: byte) = mask 7" by (simp add: mask_eq_exp_minus_1)
  then have "(word_of_nat m :: byte) AND 127 = take_bit 7 (word_of_nat m)" by (simp only: take_bit_eq_mask)
  also have "\<dots> = word_of_nat (take_bit 7 m)" by (rule bit_word_eqI) (auto simp: bit_simps)
  finally show ?thesis by (simp add: take_bit_eq_mod)
qed

lemma Uvarint_enc:
  "n < 2 ^ (64 - 7 * i) \<Longrightarrow> i \<le> 9 \<Longrightarrow>
   Uvarint (encUvarint n @ rest) i x = (x OR push_bit (7 * i) (word_of_nat n), int i + int (length (encUvarint n)))"
proof (induction n arbitrary: i x rule: encUvarint.induct)
  case (1 n)
  show ?case
  proof (cases "n < 128")
    case True
    have b: "(word_of_nat n :: byte) < 128" using True by (simp add: word_less_nat_alt unat_of_nat)
    have u: "ucast (word_of_nat n :: byte) = (word_of_nat n :: 64 word)" using True by (simp add: unsigned_of_nat take_bit_nat_eq_self)
    have "\<not> (i = 9 \<and> (1 :: byte) < word_of_nat n)" using 1(2) by (auto simp: word_less_nat_alt unat_of_nat)
    then show ?thesis using True b u 1(3) by (subst (1 2) encUvarint.simps) auto
  next
    case False
    let ?b = "word_of_nat (n mod 128 + 128) :: byte"
    have ub: "unat ?b = n mod 128 + 128" by (subst unat_of_nat) simp
    have b: "\<not> ?b < 128" using ub by (simp add: word_less_nat_alt)
    have i: "i < 9" using False 1(2, 3) by (cases "i = 9") auto
    have "2 ^ (64 - 7 * i) = 128 * (2 :: nat) ^ (64 - 7 * (i + 1))"
      using i power_add [of "2 :: nat" 7 "64 - 7 * (i + 1)"] by simp
    then have d: "n div 128 < 2 ^ (64 - 7 * (i + 1))" using 1(2) by (simp add: less_mult_imp_div_less mult.commute)
    have u: "ucast (?b AND 127) = (word_of_nat (n mod 128) :: 64 word)"
      unfolding byte_low by (simp add: unsigned_of_nat take_bit_nat_eq_self)
    have "push_bit (7 * i) (word_of_nat (n mod 128)) OR push_bit (7 * (i + 1)) (word_of_nat (n div 128)) = push_bit (7 * i) (word_of_nat n :: 64 word)"
      by (simp add: of_nat_split7 [of n, symmetric] push_bit_or add.commute)
    then show ?thesis using False b u i 1(1) [OF False d] 
      by (subst (1 2) encUvarint.simps) (simp add: or.assoc)
  qed
qed

lemma encUvarint_nonempty: "0 < length (encUvarint n)"
  by (subst encUvarint.simps) simp

lemma Uvarint_enc0:
  "n < 2 ^ 64 \<Longrightarrow> Uvarint (encUvarint n @ rest) 0 0 = (word_of_nat n, int (length (encUvarint n)))"
  using Uvarint_enc [of n 0] by simp

abbreviation bytesField :: "int \<Rightarrow> bytes \<Rightarrow> protoField" where
  "bytesField num bs \<equiv> \<lparr>fnum = num, ftyp = 2, fbytes = bs, fvarint = 0\<rparr>"

lemma unat64: "n < 2 ^ 64 \<Longrightarrow> unat (word_of_nat n :: 64 word) = n"
  by (simp add: unat_of_nat)

lemma nextProtoField_encBytes:
  assumes "num = 1 \<or> num = 2" and len: "length (encBytes num bs @ rest) < 2 ^ 63"
  shows "nextProtoField (encBytes num bs @ rest) = GoOk (bytesField (uint num) bs, rest)"
proof -
  have n: "length bs < 2 ^ 64" "length (bs @ rest) < 2 ^ 64" using len by (simp_all add: encBytes_def)
  have l: "unat (word_of_nat (length bs) :: 64 word) = length bs" using unat64 [OF n(1)] .
  have "\<not> (word_of_nat (length (bs @ rest)) < (word_of_nat (length bs) :: 64 word))"
    by (simp only: word_less_nat_alt unat64 [OF n(1)] unat64 [OF n(2)]) simp
  then have "fieldPayload (bytesField (uint num) []) (encUvarint (length bs) @ bs @ rest) = GoOk (bytesField (uint num) bs, rest)"
    using encUvarint_nonempty [of "length bs"]
    by (simp add: fieldPayload_def Uvarint_enc0 [OF n(1)] slice_from_in subslice_in l del: length_append) (simp add: slice_from_in subslice_in l)
  then show ?thesis using assms(1) by (auto simp: nextProtoField_def encBytes_def slice_from_in Let_def)
qed

lemma nextProtoField_encInt:
  assumes "num = 1 \<or> num = 2" and "v < 2 ^ 64"
  shows "nextProtoField (encInt num v @ rest) = GoOk (\<lparr>fnum = uint num, ftyp = 0, fbytes = [], fvarint = word_of_nat v\<rparr>, rest)"
proof -
  have "fieldPayload \<lparr>fnum = uint num, ftyp = 0, fbytes = [], fvarint = 0\<rparr> (encUvarint v @ rest) =
      GoOk (\<lparr>fnum = uint num, ftyp = 0, fbytes = [], fvarint = word_of_nat v\<rparr>, rest)"
    using encUvarint_nonempty [of v] by (simp add: fieldPayload_def Uvarint_enc0 [OF assms(2)] slice_from_in)
  then show ?thesis using assms(1) by (auto simp: nextProtoField_def encInt_def slice_from_in Let_def)
qed

lemma protoLoop_Nil [simp]: "protoLoop f [] s = GoOk s"
  by (simp add: protoLoop.simps)

lemma protoLoop_encBytes:
  assumes "num = 1 \<or> num = 2" "length (encBytes num bs @ rest) < 2 ^ 63"
  shows "protoLoop f (encBytes num bs @ rest) s = go_bind (f (bytesField (uint num) bs) s) (protoLoop f rest)"
proof -
  have "encBytes num bs \<noteq> []" by (simp add: encBytes_def)
  then show ?thesis by (subst protoLoop.simps) (simp add: nextProtoField_encBytes [OF assms])
qed

lemma protoLoop_encInt:
  assumes "num = 1 \<or> num = 2" "v < 2 ^ 64"
  shows "protoLoop f (encInt num v @ rest) s =
    go_bind (f \<lparr>fnum = uint num, ftyp = 0, fbytes = [], fvarint = word_of_nat v\<rparr> s) (protoLoop f rest)"
proof -
  have "encInt num v \<noteq> []" by (simp add: encInt_def)
  then show ?thesis by (subst protoLoop.simps) (simp add: nextProtoField_encInt [OF assms])
qed

lemma protoLoop_encList:
  assumes "num = 1 \<or> num = 2" and "length (concat (map (\<lambda>x. encBytes num (enc x)) xs)) < 2 ^ 63"
    and "\<And>x s. x \<in> set xs \<Longrightarrow> length (enc x) < 2 ^ 63 \<Longrightarrow> f (bytesField (uint num) (enc x)) s = GoOk (g x s)"
  shows "protoLoop f (concat (map (\<lambda>x. encBytes num (enc x)) xs)) s = GoOk (fold g xs s)"
  using assms(2, 3)
proof (induction xs arbitrary: s)
  case (Cons x xs)
  have l: "length (enc x) < 2 ^ 63" using Cons.prems(1) by (simp add: encBytes_def)
  have "protoLoop f (encBytes num (enc x) @ concat (map (\<lambda>x. encBytes num (enc x)) xs)) s =
      protoLoop f (concat (map (\<lambda>x. encBytes num (enc x)) xs)) (g x s)"
    using Cons.prems(1) Cons.prems(2) [OF _ l, of s] by (subst protoLoop_encBytes [OF assms(1)]) simp_all
  then show ?case using Cons by simp
qed simp

lemma AddrFromSlice_enc:
  "AddrFromSlice (encBE 4 (uint w)) = Some (V4 w)" "AddrFromSlice (encBE 16 (uint (w' :: 128 word))) = Some (V6 w' [])"
proof -
  have "uint w < 2 ^ 32" "uint w' < 2 ^ 128" using uint_lt2p [of w] uint_lt2p [of w'] by simp_all
  then have "be_value (encBE 4 (uint w)) = uint w" "be_value (encBE 16 (uint w')) = uint w'"
    using encBE_inverse [of "uint w" 4] encBE_inverse [of "uint w'" 16] by simp_all
  then show "AddrFromSlice (encBE 4 (uint w)) = Some (V4 w)" "AddrFromSlice (encBE 16 (uint w')) = Some (V6 w' [])"
    by (simp_all add: AddrFromSlice_def)
qed

lemma parseCIDRMessage_enc:
  assumes n: "plainNetwork p" and len: "length (encCIDR p) < 2 ^ 63"
  shows "parseCIDRMessage (encCIDR p) = GoOk p"
proof -
  obtain a b where p: "p = (a, b)" by fastforce
  have b: "b \<le> max_bits a" "b \<le> 128" "b < 2 ^ 64" using n by (auto simp: plainNetwork_def p max_bits_def split: addr.splits)
  have s: "sint (word_of_nat b :: 64 word) = int b" using b(2) unat64 [OF b(3)] by (simp add: sint_uint uint_nat signed_take_bit_int_eq_self)
  obtain bs where bs: "encCIDR p = encBytes 1 bs @ encInt 2 b" "AddrFromSlice bs = Some a"
    using n by (cases a) (auto simp: encCIDR_def p AddrFromSlice_enc plainNetwork_def masked_def)
  have u: "Unmap a = a" using n by (auto simp: plainNetwork_def p Unmap_def is4In6_def split: addr.splits)
  have m: "masked (a, b) = (a, b)" "\<not> is4In6 a" using n by (auto simp: plainNetwork_def p)
  have e: "protoLoop f (encBytes 1 bs @ encInt 2 b) s =
      go_bind (f (bytesField 1 bs) s) (\<lambda>s. go_bind (f \<lparr>fnum = 2, ftyp = 0, fbytes = [], fvarint = word_of_nat b\<rparr> s) GoOk)" for f s
    using len protoLoop_encInt [of 2 b f "[]", OF _ b(3)]
    unfolding bs(1) by (subst protoLoop_encBytes) (auto intro!: go_bind_cong simp: protoLoop_Nil [abs_def])
  show ?thesis unfolding parseCIDRMessage_def bs(1) e
    using b(1) by (auto simp: bs(2) s u m p max_bits_def Let_def split: addr.splits)
qed

lemma parseGeoIPMessage_enc:
  assumes n: "\<forall>p \<in> set (CIDR e). plainNetwork p" and len: "length (encGeoIP e) < 2 ^ 63"
  shows "parseGeoIPMessage (encGeoIP e) = GoOk e"
proof -
  let ?g = "\<lambda>p out. out\<lparr>CIDR := CIDR out @ [p]\<rparr>"
  have f: "fold ?g ps \<lparr>CountryCode = c, CIDR = qs\<rparr> = \<lparr>CountryCode = c, CIDR = qs @ ps\<rparr>" for ps c qs
    by (induction ps arbitrary: qs) simp_all
  let ?ps = "concat (map (\<lambda>p. encBytes 2 (encCIDR p)) (CIDR e))"
  have l: "length ?ps < 2 ^ 63" using len by (simp add: encGeoIP_def)
  have "length (encBytes 1 (bytes_of_str (CountryCode e)) @ ?ps) < 2 ^ 63" using len by (simp only: encGeoIP_def)
  note h = protoLoop_encBytes [OF _ this]
  show ?thesis unfolding parseGeoIPMessage_def encGeoIP_def
    using n by (subst h, simp, simp, subst protoLoop_encList [OF _ l, where g = ?g]) (simp_all add: parseCIDRMessage_enc f)
qed

lemma parseGeoIPList_enc:
  assumes n: "\<forall>e \<in> set es. \<forall>p \<in> set (CIDR e). plainNetwork p" and len: "length (encGeoIPList es) < 2 ^ 63"
  shows "parseGeoIPList (encGeoIPList es) = GoOk es"
proof -
  let ?g = "\<lambda>e out. out @ [e]"
  have f: "fold ?g es s = s @ es" for s :: "GeoIP list" and es by (induction es arbitrary: s) simp_all
  show ?thesis unfolding parseGeoIPList_def encGeoIPList_def
    using n len by (subst protoLoop_encList [where g = ?g]) (simp_all add: encGeoIPList_def parseGeoIPMessage_enc f)
qed

section \<open>Merging\<close>

lemma at_key_update [simp]: "at_key k (AList.update k' v m) = (if k = k' then v else at_key k m)"
  by (simp add: at_key_def update_conv')

lemma at_key_Nil [simp]: "at_key k [] = []"
  by (simp add: at_key_def)

lemma at_key_appendNovel:
  "set (at_key k (appendNovel k' vs m)) = set (at_key k m) \<union> (if k = k' then set vs else {})"
  "distinct (at_key k m) \<Longrightarrow> distinct (at_key k (appendNovel k' vs m))"
proof (induction vs arbitrary: m)
  case (Cons v vs)
  have e: "appendNovel k' (v # vs) m = appendNovel k' vs (if v \<in> set (at_key k' m) then m else AList.update k' (at_key k' m @ [v]) m)" for m
    by (simp add: appendNovel_def)
  case 1 show ?case unfolding e Cons(1) by auto
  case 2 then show ?case unfolding e by (intro Cons(2)) auto
qed (simp_all add: appendNovel_def)

text \<open>The networks that a list of entries files under a name.\<close>

definition filed :: "string \<Rightarrow> GeoIP list \<Rightarrow> prefix set" where
  "filed k es = (\<Union>e \<in> {e \<in> set es. normalizeGeoName (CountryCode e) = k \<and> k \<noteq> []}. set (CIDR e))"

lemma filed_Cons: "filed k (e # es) = (if normalizeGeoName (CountryCode e) = k \<and> k \<noteq> [] then set (CIDR e) else {}) \<union> filed k es"
  by (auto simp: filed_def)

lemma mergeGeoIP_at1:
  "set (at_key k (geoip (mergeGeoIP e db))) =
     set (at_key k (geoip db)) \<union> (if normalizeGeoName (CountryCode e) = k \<and> k \<noteq> [] then set (CIDR e) else {})"
  "distinct (at_key k (geoip db)) \<Longrightarrow> distinct (at_key k (geoip (mergeGeoIP e db)))"
  by (auto simp: mergeGeoIP_def Let_def at_key_appendNovel)

lemma mergeGeoIP_at:
  "set (at_key k (geoip (fold mergeGeoIP es db))) = set (at_key k (geoip db)) \<union> filed k es"
  "distinct (at_key k (geoip db)) \<Longrightarrow> distinct (at_key k (geoip (fold mergeGeoIP es db)))"
proof (induction es arbitrary: db)
  case Nil
  case 1 show ?case by (simp add: filed_def)
  case 2 then show ?case by simp
next
  case (Cons e es)
  case 1 show ?case by (simp add: Cons(1) mergeGeoIP_at1(1) filed_Cons Un_assoc)
  case 2 then show ?case by (simp add: Cons(2) mergeGeoIP_at1(2))
qed

lemma loadGeoIPDatMerge_enc:
  assumes "\<forall>e \<in> set es. \<forall>p \<in> set (CIDR e). plainNetwork p" "length (encGeoIPList es) < 2 ^ 63"
  shows "loadGeoIPDatMerge (Contents (encGeoIPList es)) db = GoOk (fold mergeGeoIP es db, True)"
  using assms by (simp add: loadGeoIPDatMerge_def parseGeoIPList_enc)

definition carried :: "GeoIP list \<Rightarrow> bool" where
  "carried es \<longleftrightarrow> (\<forall>e \<in> set es. \<forall>p \<in> set (CIDR e). plainNetwork p) \<and> length (encGeoIPList es) < 2 ^ 63"

lemma loadAll_enc:
  assumes "\<And>p. p \<in> set ps \<Longrightarrow> trim_space p \<noteq> [] \<and> carried (content p) \<and> fs p = Contents (encGeoIPList (content p))"
  shows "loadAll loadGeoIPDatMerge fs ps s = GoOk (fold (fold mergeGeoIP) (map content ps) (fst s), snd s \<or> ps \<noteq> [])"
  using assms
proof (induction ps arbitrary: s)
  case (Cons p ps)
  have "loadGeoIPDatMerge (fs p) (fst s) = GoOk (fold mergeGeoIP (content p) (fst s), True)"
    using Cons.prems [of p] loadGeoIPDatMerge_enc by (simp add: carried_def)
  then show ?case using Cons.prems Cons.IH [of "(fold mergeGeoIP (content p) (fst s), snd s \<or> True)"] by simp
qed (cases s, simp)

lemma merge_all_at:
  "set (at_key k (geoip (fold (fold mergeGeoIP) ess db))) = set (at_key k (geoip db)) \<union> (\<Union>es \<in> set ess. filed k es)"
  "distinct (at_key k (geoip db)) \<Longrightarrow> distinct (at_key k (geoip (fold (fold mergeGeoIP) ess db)))"
proof (induction ess arbitrary: db)
  case Nil
  case 1 show ?case by simp
  case 2 then show ?case by simp
next
  case (Cons es ess)
  case 1 show ?case by (simp add: Cons(1) mergeGeoIP_at(1) Un_assoc)
  case 2 then show ?case by (simp add: Cons(2) mergeGeoIP_at(2))
qed

text \<open>Loading never panics, whatever the files hold: a truncated, overflowing or hostile protobuf
  ends in an error or a database.\<close>

lemma geo_load_no_panic: "LoadGeoDBMulti fs geoipPaths geositePaths \<noteq> GoPanic"
proof -
  have "no_panic (LoadGeoDBMulti fs geoipPaths geositePaths)"
    unfolding LoadGeoDBMulti_def by (auto intro!: no_panic_bind no_panic_loadAll no_panic_merges)
  then show ?thesis by auto
qed

text \<open>C40. Files written in the protobuf encoding load, and a name then looks up to exactly the networks
  filed under it in any of the files, each of them once; only a name nothing is filed under falls back
  to the built-in table.\<close>

theorem geo_load_exact:
  assumes "ps \<noteq> []"
    and "\<And>p. p \<in> set ps \<Longrightarrow> trim_space p \<noteq> [] \<and> carried (content p) \<and> fs p = Contents (encGeoIPList (content p))"
    and own: "(\<Union>p \<in> set ps. filed (normalizeGeoName name) (content p)) \<noteq> {}"
  shows "\<exists>db. LoadGeoDBMulti fs ps [] = GoOk (Some db) \<and>
    set (GeoIPCIDRs curated (Some db) name) = (\<Union>p \<in> set ps. filed (normalizeGeoName name) (content p)) \<and>
    distinct (GeoIPCIDRs curated (Some db) name)"
proof -
  let ?db = "fold (fold mergeGeoIP) (map content ps) \<lparr>geoip = [], geosite = []\<rparr>"
  have l: "LoadGeoDBMulti fs ps [] = GoOk (Some ?db)"
    unfolding LoadGeoDBMulti_def by (subst loadAll_enc [OF assms(2)]) (simp_all add: assms(1))
  have s: "set (at_key (normalizeGeoName name) (geoip ?db)) = (\<Union>p \<in> set ps. filed (normalizeGeoName name) (content p))"
    "distinct (at_key (normalizeGeoName name) (geoip ?db))"
    using merge_all_at [where k = "normalizeGeoName name" and ess = "map content ps" and db = "\<lparr>geoip = [], geosite = []\<rparr>"] by simp_all
  then have "at_key (normalizeGeoName name) (geoip ?db) \<noteq> []" using own by auto
  then have "GeoIPCIDRs curated (Some ?db) name = at_key (normalizeGeoName name) (geoip ?db)" by (simp add: GeoIPCIDRs_def Let_def)
  then show ?thesis using l s by auto
qed

lemma exampleNetworks: "plainNetwork (V4 0x0A000000, 8)" "plainNetwork (V6 0x20010db8000000000000000000000000 [], 32)"
  by code_simp+

theorem geo_load_exact_witness:
  "\<exists>db. LoadGeoDBMulti (\<lambda>p. Contents (encGeoIPList
       (if p = ''x'' then [\<lparr>CountryCode = ''RU'', CIDR = [(V4 0x0A000000, 8)]\<rparr>]
        else [\<lparr>CountryCode = ''ru'', CIDR = [(V6 0x20010db8000000000000000000000000 [], 32), (V4 0x0A000000, 8)]\<rparr>]))) [''x'', ''y''] [] = GoOk (Some db) \<and>
    set (GeoIPCIDRs [] (Some db) ''geoip:ru'') = {(V4 0x0A000000, 8), (V6 0x20010db8000000000000000000000000 [], 32)} \<and>
    distinct (GeoIPCIDRs [] (Some db) ''geoip:ru'')"
proof -
  let ?a = "\<lparr>CountryCode = ''RU'', CIDR = [(V4 0x0A000000, 8)]\<rparr>"
  let ?b = "\<lparr>CountryCode = ''ru'', CIDR = [(V6 0x20010db8000000000000000000000000 [], 32), (V4 0x0A000000, 8)]\<rparr>"
  let ?c = "\<lambda>p. if p = ''x'' then [?a] else [?b]"
  have l: "length (encGeoIPList [?a]) < 100" "length (encGeoIPList [?b]) < 100" by code_simp+
  have k: "normalizeGeoName ''geoip:ru'' = ''ru''" "normalizeGeoName ''RU'' = ''ru''" "normalizeGeoName ''ru'' = ''ru''"
      "trim_space ''x'' \<noteq> []" "trim_space ''y'' \<noteq> []" by code_simp+
  have f: "(\<Union>p \<in> set [''x'', ''y'']. filed (normalizeGeoName ''geoip:ru'') (?c p)) = {(V4 0x0A000000, 8), (V6 0x20010db8000000000000000000000000 [], 32)}"
    by (auto simp: filed_def k)
  have "carried (?c p)" for p using l exampleNetworks by (auto simp: carried_def)
  then show ?thesis using geo_load_exact [of "[''x'', ''y'']" ?c "\<lambda>p. Contents (encGeoIPList (?c p))" "''geoip:ru''" "[]", unfolded f] k(4, 5)
    by (metis (no_types, lifting) list.distinct(1) empty_iff insert_not_empty set_ConsD list.set(1))
qed

end
