(* ===== verification/HandshakeLimiter.thy ===== *)
theory HandshakeLimiter
  imports LRUContract
begin

text \<open>
  pkg/tamizdat/handshake_limiter.go: the client's sliding-window limit on handshakes per server.
  The recency list of \<open>container/list\<close> is a list of keys, most recent first; \<open>lruIdx\<close>, the index of
  its elements, is membership in that list.
\<close>

record handshakeLimiter =
  limit :: int
  window :: nanos
  events :: "string \<Rightarrow> nanos list option"
  lruList :: "string list"
  mapCap :: int

definition defaultHandshakeLimit :: int where "defaultHandshakeLimit = 3"
definition defaultHandshakeWindow :: nanos where "defaultHandshakeWindow = 20 * second"
definition clientLimiterMapCap :: int where "clientLimiterMapCap = 1024"
definition waitJitterMaxMs :: int where "waitJitterMaxMs = 200"

definition newHandshakeLimiterWithConfig :: "int \<Rightarrow> nanos \<Rightarrow> handshakeLimiter" where
  "newHandshakeLimiterWithConfig lim w =
    \<lparr> limit = (if lim \<le> 0 then defaultHandshakeLimit else lim),
      window = (if w \<le> 0 then defaultHandshakeWindow else w),
      events = (\<lambda>_. None), lruList = [], mapCap = clientLimiterMapCap \<rparr>"

definition newHandshakeLimiter :: handshakeLimiter where
  "newHandshakeLimiter = newHandshakeLimiterWithConfig defaultHandshakeLimit defaultHandshakeWindow"

function evictTail :: "int \<Rightarrow> string list \<Rightarrow> (string \<Rightarrow> nanos list option) \<Rightarrow> string list \<times> (string \<Rightarrow> nanos list option)" where
  "evictTail cap l ev =
    (if int (length l) > cap then
       if l = [] then (l, ev) else evictTail cap (butlast l) (ev(last l := None))
     else (l, ev))"
  by pat_completeness auto
termination
  by (relation "measure (\<lambda>(cap, l, ev). length l)") (auto simp: diff_less simp flip: length_greater_0_conv)

declare evictTail.simps [simp del]

definition touchLRULocked :: "string \<Rightarrow> handshakeLimiter \<Rightarrow> handshakeLimiter" where
  "touchLRULocked k l =
    (if k \<in> set (lruList l) then l\<lparr>lruList := k # removeAll k (lruList l)\<rparr>
     else let (ks, ev) = evictTail (mapCap l) (k # lruList l) (events l) in l\<lparr>lruList := ks, events := ev\<rparr>)"

text \<open>\<open>keep[0]\<close> is a checked access: with a limit of zero it would be out of range.\<close>

definition reserveOrDelay :: "nanos \<Rightarrow> string \<Rightarrow> handshakeLimiter \<Rightarrow> (string, handshakeLimiter \<times> nanos) gores" where
  "reserveOrDelay now k l =
    (let cutoff = now - window l;
         evs = (case events l k of None \<Rightarrow> [] | Some e \<Rightarrow> e);
         keep = filter (\<lambda>ts. ts > cutoff) evs in
     if int (length keep) < limit l then
       GoOk (touchLRULocked k (l\<lparr>events := (events l)(k \<mapsto> keep @ [now])\<rparr>), 0)
     else
       let l' = touchLRULocked k (l\<lparr>events := (events l)(k \<mapsto> keep)\<rparr>) in
       go_bind (idx keep 0) (\<lambda>oldest.
         let wait = oldest + window l - now in
         if wait < 0 then GoOk (l', 0) else GoOk (l', wait)))"

text \<open>\<open>cryptoRandIntn\<close>: the eight bytes read, \<open>None\<close> when the read fails.\<close>

definition cryptoRandIntn :: "bytes option \<Rightarrow> int \<Rightarrow> int" where
  "cryptoRandIntn buf n = (if n \<le> 0 then 0 else case buf of None \<Rightarrow> 0 | Some b \<Rightarrow> uint (be64 b) mod n)"

datatype waitResult = Granted | ErrHandshakeRateLimited

text \<open>\<open>Wait\<close> against an environment: each turn of the loop sees the clock, the random bytes of the
  jitter and whether the context ends before the timer. \<open>None\<close>: the schedule ends while it waits.\<close>

fun Wait_loop ::
  "(nanos \<times> bytes option \<times> bool) list \<Rightarrow> string \<Rightarrow> handshakeLimiter \<Rightarrow> (string, handshakeLimiter \<times> waitResult option) gores" where
  "Wait_loop [] k l = GoOk (l, None)"
| "Wait_loop ((now, rnd, ctxDone) # env) k l =
    go_bind (reserveOrDelay now k l) (\<lambda>(l', wait).
      if wait \<le> 0 then GoOk (l', Some Granted)
      else let wait = wait + cryptoRandIntn rnd (waitJitterMaxMs + 1) * millisecond in
        if ctxDone then GoOk (l', Some ErrHandshakeRateLimited) else Wait_loop env k l')"

definition Wait where
  "Wait env k l = (case l of None \<Rightarrow> GoOk (None, Some Granted)
     | Some l \<Rightarrow> go_bind (Wait_loop env (if k = '''' then ''default'' else k) l) (\<lambda>(l, r). GoOk (Some l, r)))"

section \<open>The table\<close>

definition limiter_wf :: "handshakeLimiter \<Rightarrow> bool" where
  "limiter_wf l = (distinct (lruList l) \<and> int (length (lruList l)) \<le> mapCap l \<and> 0 < mapCap l \<and>
     0 < limit l \<and> 0 < window l \<and> dom (events l) = set (lruList l) \<and>
     (\<forall>k es. events l k = Some es \<longrightarrow> int (length es) \<le> limit l))"

definition reserve_state :: "nanos \<Rightarrow> string \<Rightarrow> handshakeLimiter \<Rightarrow> handshakeLimiter" where
  "reserve_state now k l = (case reserveOrDelay now k l of GoOk r \<Rightarrow> fst r | _ \<Rightarrow> l)"

lemma evictTail_full:
  assumes "int (length ks) \<le> cap" and "0 < cap" and "k \<notin> set ks" and "distinct ks"
  shows "evictTail cap (k # ks) ev =
    (if int (length ks) < cap then (k # ks, ev) else (k # butlast ks, ev(last ks := None)))"
proof (cases "int (length ks) < cap")
  case True
  then show ?thesis
    by (subst evictTail.simps) simp
next
  case False
  then have "ks \<noteq> []"
    using assms(2) by auto
  then show ?thesis
    using assms False by (simp add: evictTail.simps [of cap "k # ks"] evictTail.simps [of cap "k # butlast ks"])
qed

lemma touchLRULocked_spec:
  assumes "distinct (lruList l)" "int (length (lruList l)) \<le> mapCap l" "0 < mapCap l"
    "dom (events l) = insert k (set (lruList l))"
  shows "lruList (touchLRULocked k l) = lru_touch (nat (mapCap l)) k (lruList l) \<and>
    dom (events (touchLRULocked k l)) = set (lruList (touchLRULocked k l)) \<and>
    (\<forall>j \<in> set (lruList (touchLRULocked k l)). events (touchLRULocked k l) j = events l j)"
proof (cases "k \<in> set (lruList l)")
  case True
  have "length (removeAll k (lruList l)) < length (lruList l)"
    using True by (rule length_removeAll_less)
  then show ?thesis
    using True assms by (auto simp: touchLRULocked_def lru_touch_def)
next
  case False
  show ?thesis
  proof (cases "int (length (lruList l)) < mapCap l")
    case True
    then show ?thesis
      using False assms by (auto simp: touchLRULocked_def lru_touch_def evictTail_full)
  next
    case full: False
    then have ne: "lruList l \<noteq> []" and n: "nat (mapCap l) = length (lruList l)"
      using assms(2,3) by auto
    have lastni: "last (lruList l) \<notin> set (butlast (lruList l))" "last (lruList l) \<noteq> k"
      using ne assms(1) False by (metis append_butlast_last_id distinct_butlast not_distinct_conv_prefix last_in_set)+
    have split: "set (lruList l) = insert (last (lruList l)) (set (butlast (lruList l)))"
      using ne by (metis append_butlast_last_id list.simps(15) rotate1.simps(2) set_rotate1)
    show ?thesis
      using False full assms ne n lastni
      by (cases "length (lruList l)")
        (auto simp: touchLRULocked_def lru_touch_def evictTail_full split take_Cons', simp add: butlast_conv_take)
  qed
qed

text \<open>The timestamps of \<open>k\<close> still inside the window.\<close>

definition kept :: "nanos \<Rightarrow> string \<Rightarrow> handshakeLimiter \<Rightarrow> nanos list" where
  "kept now k l = filter (\<lambda>ts. ts > now - window l) (case events l k of None \<Rightarrow> [] | Some e \<Rightarrow> e)"

lemma reserveOrDelay_cases:
  assumes "limiter_wf l"
  shows "reserveOrDelay now k l =
    (if int (length (kept now k l)) < limit l
     then GoOk (touchLRULocked k (l\<lparr>events := (events l)(k \<mapsto> kept now k l @ [now])\<rparr>), 0)
     else GoOk (touchLRULocked k (l\<lparr>events := (events l)(k \<mapsto> kept now k l)\<rparr>), hd (kept now k l) + window l - now)) \<and>
    (int (length (kept now k l)) < limit l \<or> 0 < hd (kept now k l) + window l - now)"
proof (cases "int (length (kept now k l)) < limit l")
  case True
  then show ?thesis
    by (simp add: reserveOrDelay_def kept_def Let_def)
next
  case False
  then have ne: "kept now k l \<noteq> []"
    using assms(1) by (auto simp: limiter_wf_def)
  then have "hd (kept now k l) \<in> set (kept now k l)" by simp
  then have "0 < hd (kept now k l) + window l - now"
    by (simp add: kept_def)
  then show ?thesis
    using False ne by (simp add: reserveOrDelay_def kept_def [symmetric] Let_def go_simps hd_conv_nth)
qed

lemma touch_fields [simp]:
  "limit (touchLRULocked k l) = limit l" "window (touchLRULocked k l) = window l" "mapCap (touchLRULocked k l) = mapCap l"
  by (simp_all add: touchLRULocked_def split: prod.split)

lemma reserve_state_eq:
  assumes "limiter_wf l"
  obtains es where "reserve_state now k l = touchLRULocked k (l\<lparr>events := (events l)(k \<mapsto> es)\<rparr>)"
    and "int (length es) \<le> limit l"
proof -
  have "int (length (kept now k l)) \<le> limit l"
  proof (cases "events l k")
    case (Some es)
    then have "int (length es) \<le> limit l"
      using assms by (simp add: limiter_wf_def)
    moreover have "length (kept now k l) \<le> length es"
      using Some by (simp add: kept_def)
    ultimately show ?thesis
      by simp
  qed (use assms in \<open>simp add: kept_def limiter_wf_def\<close>)
  then show thesis
    using reserveOrDelay_cases [OF assms, of now k] that
    by (auto simp: reserve_state_def split: if_splits)
qed

lemma reserve_state_wf:
  assumes "limiter_wf l"
  shows "limiter_wf (reserve_state now k l) \<and> mapCap (reserve_state now k l) = mapCap l \<and>
    lruList (reserve_state now k l) = lru_touch (nat (mapCap l)) k (lruList l)"
proof -
  obtain es where es: "reserve_state now k l = touchLRULocked k (l\<lparr>events := (events l)(k \<mapsto> es)\<rparr>)"
      "int (length es) \<le> limit l"
    by (rule reserve_state_eq [OF assms])
  let ?l = "l\<lparr>events := (events l)(k \<mapsto> es)\<rparr>"
  have d: "dom (events (l\<lparr>events := (events l)(k \<mapsto> es)\<rparr>)) = insert k (set (lruList l))"
    using assms by (simp add: limiter_wf_def)
  have sp: "lruList (touchLRULocked k ?l) = lru_touch (nat (mapCap l)) k (lruList l)"
      "dom (events (touchLRULocked k ?l)) = set (lruList (touchLRULocked k ?l))"
      "\<And>j. j \<in> set (lruList (touchLRULocked k ?l)) \<Longrightarrow> events (touchLRULocked k ?l) j = events ?l j"
    using assms touchLRULocked_spec [of ?l k] d by (auto simp: limiter_wf_def)
  have "int (length es') \<le> limit l" if "events (touchLRULocked k ?l) j = Some es'" for j es'
  proof -
    have "events ?l j = Some es'"
      using that sp(2,3) by (metis domI)
    then show ?thesis
      using assms es(2) by (auto simp: limiter_wf_def split: if_splits)
  qed
  then show ?thesis
    using assms sp es(1) by (auto simp: limiter_wf_def lru_touch_def distinct_removeAll)
qed

interpretation hs: lru_table reserve_state lruList "\<lambda>l. nat (mapCap l)" limiter_wf
  by unfold_locales (simp_all add: reserve_state_wf, auto simp: limiter_wf_def)

section \<open>The sliding window\<close>

text \<open>The times at which a run of calls (to any keys) grants \<open>k\<close> a handshake.\<close>

primrec grants :: "string \<Rightarrow> (nanos \<times> string) list \<Rightarrow> handshakeLimiter \<Rightarrow> nanos list" where
  "grants k [] l = []"
| "grants k (c # cs) l =
    (case reserveOrDelay (fst c) (snd c) l of
       GoOk (l', w) \<Rightarrow> (if snd c = k \<and> w \<le> 0 then [fst c] else []) @ grants k cs l'
     | _ \<Rightarrow> [])"

definition spaced :: "nat \<Rightarrow> nanos \<Rightarrow> nanos list \<Rightarrow> bool" where
  "spaced n w gs = (\<forall>i. i + n < length gs \<longrightarrow> gs ! (i + n) - gs ! i \<ge> w)"

lemma sorted_split: "sorted gs \<Longrightarrow> gs = filter (\<lambda>x. x \<le> c) gs @ filter (\<lambda>x. x > c) gs" for c :: int
proof (induction gs)
  case (Cons a gs)
  show ?case
  proof (cases "a \<le> c")
    case False
    then have "filter (\<lambda>x. x \<le> c) gs = []" "filter (\<lambda>x. x > c) gs = gs"
      using Cons.prems by (auto simp: filter_empty_conv filter_id_conv)
    with False show ?thesis by simp
  qed (use Cons in simp)
qed simp

lemma spaced_snoc:
  assumes "spaced n w gs" and "sorted gs" and "length (filter (\<lambda>x. x > t - w) gs) < n"
  shows "spaced n w (gs @ [t])"
proof -
  have "w \<le> t - gs ! i" if "i + n = length gs" for i
  proof -
    define old where "old = filter (\<lambda>x. x \<le> t - w) gs"
    have gs: "gs = old @ filter (\<lambda>x. x > t - w) gs"
      unfolding old_def by (rule sorted_split [OF assms(2)])
    then have "length gs = length old + length (filter (\<lambda>x. x > t - w) gs)"
      by (metis length_append)
    then have "i < length old"
      using that assms(3) by linarith
    then have "gs ! i \<in> set old"
      by (subst gs) (simp add: nth_append)
    then show ?thesis
      by (simp add: old_def)
  qed
  moreover have "0 < n"
    using assms(3) by simp
  ultimately show ?thesis
    using assms(1) by (auto simp: spaced_def nth_append not_less le_less_Suc_eq less_Suc_eq)
qed

text \<open>What the table knows about \<open>k\<close> against the grants so far: the newest part of them.\<close>

definition tracks :: "string \<Rightarrow> string set \<Rightarrow> nanos \<Rightarrow> nanos list \<Rightarrow> handshakeLimiter \<Rightarrow> bool" where
  "tracks k K now gs l = (limiter_wf l \<and> sorted gs \<and> (\<forall>x \<in> set gs. x \<le> now) \<and> spaced (nat (limit l)) (window l) gs \<and>
     ((k \<notin> set (lruList l) \<and> gs = []) \<or>
      (k \<in> set (lruList l) \<and> before k (lruList l) \<subseteq> K \<and>
       (\<exists>c. c \<le> now - window l \<and> events l k = Some (filter (\<lambda>x. x > c) gs)))))"

lemma tracks_kept:
  assumes "tracks k K now gs l" and "now \<le> t"
  shows "kept t k l = filter (\<lambda>x. x > t - window l) gs"
proof (cases "k \<in> set (lruList l)")
  case True
  then obtain c where "c \<le> now - window l" "events l k = Some (filter (\<lambda>x. x > c) gs)"
    using assms(1) by (auto simp: tracks_def)
  then show ?thesis
    using assms(2) by (auto simp: kept_def intro!: filter_cong)
next
  case False
  then have "events l k = None"
    using assms(1) by (auto simp: tracks_def limiter_wf_def)
  then show ?thesis
    using assms(1) False by (auto simp: kept_def tracks_def)
qed

lemma tracks_step:
  assumes tr: "tracks k K now gs l" and t: "now \<le> t" and K: "k \<in> K" "j \<in> K" "finite K" "int (card K) \<le> mapCap l"
  shows "\<exists>l' w. reserveOrDelay t j l = GoOk (l', w) \<and> limit l' = limit l \<and> window l' = window l \<and> mapCap l' = mapCap l \<and>
    tracks k K t (gs @ (if j = k \<and> w \<le> 0 then [t] else [])) l'"
proof -
  have wf: "limiter_wf l"
    using tr by (simp add: tracks_def)
  define es where "es = (if int (length (kept t j l)) < limit l then kept t j l @ [t] else kept t j l)"
  define l1 where "l1 = l\<lparr>events := (events l)(j \<mapsto> es)\<rparr>"
  define w where "w = (if int (length (kept t j l)) < limit l then 0 else hd (kept t j l) + window l - t)"
  have r: "reserveOrDelay t j l = GoOk (touchLRULocked j l1, w)"
    using reserveOrDelay_cases [OF wf, of t j] by (simp add: es_def l1_def w_def)
  have w0: "w \<le> 0 \<longleftrightarrow> int (length (kept t j l)) < limit l"
    using reserveOrDelay_cases [OF wf, of t j] by (auto simp: w_def)
  have st: "reserve_state t j l = touchLRULocked j l1"
    by (simp add: reserve_state_def r)
  have wf': "limiter_wf (touchLRULocked j l1)" and lru': "lruList (touchLRULocked j l1) = lru_touch (nat (mapCap l)) j (lruList l)"
    using reserve_state_wf [OF wf, of t j] st by auto
  have ev: "events (touchLRULocked j l1) i = events l1 i" if "i \<in> set (lruList (touchLRULocked j l1))" for i
    using touchLRULocked_spec [of l1 j] wf that by (auto simp: l1_def limiter_wf_def)
  have mru: "j \<in> set (lruList (touchLRULocked j l1)) \<and> before j (lruList (touchLRULocked j l1)) = {}"
    using hs.most_recent [OF wf, of j t] st by simp
  have flds: "limit (touchLRULocked j l1) = limit l" "window (touchLRULocked j l1) = window l" "mapCap (touchLRULocked j l1) = mapCap l"
    by (simp_all add: l1_def)
  have W: "0 < window l" "0 < limit l"
    using wf by (simp_all add: limiter_wf_def)
  have le: "\<forall>x \<in> set gs. x \<le> t"
    using tr t by (auto simp: tracks_def)
  have "tracks k K t (gs @ (if j = k \<and> w \<le> 0 then [t] else [])) (touchLRULocked j l1)"
  proof (cases "j = k")
    case True
    have kp: "kept t k l = filter (\<lambda>x. x > t - window l) gs"
      by (rule tracks_kept [OF tr t])
    have "events (touchLRULocked k l1) k = Some (filter (\<lambda>x. x > t - window l) (gs @ (if w \<le> 0 then [t] else [])))"
      using ev [of k] mru True w0 W by (auto simp: l1_def es_def kp)
    moreover have "spaced (nat (limit l)) (window l) (gs @ (if w \<le> 0 then [t] else []))"
      using tr w0 True kp spaced_snoc [of "nat (limit l)" "window l" gs t] by (auto simp: tracks_def)
    moreover have "sorted (gs @ (if w \<le> 0 then [t] else []))" "\<forall>x \<in> set (gs @ (if w \<le> 0 then [t] else [])). x \<le> t"
      using tr le by (auto simp: tracks_def sorted_append)
    ultimately show ?thesis
      using True wf' mru flds unfolding tracks_def
      by (intro conjI disjI2 exI [of _ "t - window l"]) simp_all
  next
    case False
    show ?thesis
    proof (cases "k \<in> set (lruList l)")
      case in_l: True
      then have b: "before k (lruList l) \<subseteq> K"
        using tr by (auto simp: tracks_def)
      have "k \<in> set (lruList (touchLRULocked j l1)) \<and> before k (lruList (touchLRULocked j l1)) \<subseteq> K"
        using hs.survives [OF wf in_l b K(1), of "[(t, j)]"] K st by simp
      moreover from this have "events (touchLRULocked j l1) k = events l k"
        using ev [of k] False by (simp add: l1_def)
      moreover obtain c where "c \<le> now - window l" "events l k = Some (filter (\<lambda>x. x > c) gs)"
        using tr in_l by (auto simp: tracks_def)
      moreover have "sorted gs" "spaced (nat (limit l)) (window l) gs"
        using tr by (simp_all add: tracks_def)
      ultimately show ?thesis
        using False wf' flds le t unfolding tracks_def
        by (intro conjI disjI2 exI [of _ c]) simp_all
    next
      case not_in: False
      then have "k \<notin> set (lruList (touchLRULocked j l1))"
        using False by (auto simp: lru' lru_touch_def dest: in_set_takeD)
      then show ?thesis
        using False not_in tr wf' flds by (auto simp: tracks_def)
    qed
  qed
  then show ?thesis
    using r flds by blast
qed

lemma grants_spaced:
  assumes "tracks k K now gs l" and "sorted (map fst cs)" and "\<forall>c \<in> set cs. now \<le> fst c"
    and "k \<in> K" "snd ` set cs \<subseteq> K" "finite K" "int (card K) \<le> mapCap l"
  shows "spaced (nat (limit l)) (window l) (gs @ grants k cs l)"
  using assms
proof (induction cs arbitrary: now gs l)
  case (Cons c cs)
  obtain l' w where s: "reserveOrDelay (fst c) (snd c) l = GoOk (l', w)" "limit l' = limit l" "window l' = window l"
      "mapCap l' = mapCap l" "tracks k K (fst c) (gs @ (if snd c = k \<and> w \<le> 0 then [fst c] else [])) l'"
    using tracks_step [OF Cons.prems(1), of "fst c" "snd c"] Cons.prems(3-7) by auto
  have "spaced (nat (limit l')) (window l') ((gs @ (if snd c = k \<and> w \<le> 0 then [fst c] else [])) @ grants k cs l')"
    using Cons.prems s(4) by (intro Cons.IH [OF s(5)]) auto
  then show ?case
    using s by simp
qed (simp add: tracks_def)

section \<open>Properties\<close>

text \<open>C25. The handshake limiter enforces its window: whatever calls, to whatever servers, in
  non-decreasing time order, a fresh limiter sees (with no more servers than the table holds),
  any \<open>limit + 1\<close> consecutive grants to one server span at least the configured window.\<close>

theorem handshake_window_enforced:
  assumes "sorted (map fst cs)" and "card (insert k (snd ` set cs)) \<le> 1024"
    and l_def: "l = newHandshakeLimiterWithConfig lim w"
  shows "i + nat (limit l) < length (grants k cs l) \<longrightarrow>
    grants k cs l ! (i + nat (limit l)) - grants k cs l ! i \<ge> window l"
proof (cases cs)
  case (Cons c cs')
  have "tracks k (insert k (snd ` set cs)) (fst c) [] l"
    by (simp add: tracks_def limiter_wf_def spaced_def l_def newHandshakeLimiterWithConfig_def
        clientLimiterMapCap_def defaultHandshakeLimit_def defaultHandshakeWindow_def second_def)
  then have "spaced (nat (limit l)) (window l) ([] @ grants k cs l)"
    by (rule grants_spaced)
      (use assms(1,2) Cons in \<open>auto simp: l_def newHandshakeLimiterWithConfig_def clientLimiterMapCap_def\<close>)
  then show ?thesis
    by (simp add: spaced_def)
qed simp

theorem handshake_window_enforced_witness:
  "grants ''h'' [(1, ''h''), (2, ''h''), (25 * second, ''h'')] (newHandshakeLimiterWithConfig 1 0) ! 1 -
   grants ''h'' [(1, ''h''), (2, ''h''), (25 * second, ''h'')] (newHandshakeLimiterWithConfig 1 0) ! 0 \<ge> 20 * second"
proof -
  have g: "grants ''h'' [(1, ''h''), (2, ''h''), (25 * second, ''h'')] (newHandshakeLimiterWithConfig 1 0) = [1, 25 * second]"
    by (simp add: newHandshakeLimiterWithConfig_def reserveOrDelay_def touchLRULocked_def evictTail.simps second_def
        defaultHandshakeWindow_def clientLimiterMapCap_def idx_def)
  show ?thesis
    using handshake_window_enforced [of "[(1, ''h''), (2, ''h''), (25 * second, ''h'')]" "''h''" _ 1 0 0, OF _ _ refl]
    unfolding g by (simp add: newHandshakeLimiterWithConfig_def defaultHandshakeWindow_def second_def)
qed



end
