(* ===== verification/IngressPolicy.thy ===== *)
theory IngressPolicy
  imports RulesDB GeoDat
begin

text \<open>
  Routing of the local network: internal/localtun/policy.go, and the classifying chain of the table that
  internal/localtun/selective_linux.go writes for nft. The rules of the snapshot that concern the local tunnel are compiled to
  rules that a packet filter can decide; domains become sets of addresses that the resolver ChinaDNS fills.

  \<open>cip\<close> and \<open>csite\<close> are the curated tables of the geo database \<open>db\<close>. A line of the chain is the list of its clauses and a
  verdict, in the order in which the source joins them to text; the sets of the table are given by their members.
\<close>

section \<open>Rules\<close>

datatype ingressAction = ingressDirect | ingressTunnel | ingressBlock

record ingressRule =
  iIndex :: nat
  iAction :: ingressAction
  ipv4 :: "prefix list"
  ipv6 :: "prefix list"
  iDomains :: "string list"
  source4 :: "prefix list"
  source6 :: "prefix list"
  iNetwork :: string
  iPorts :: "(int \<times> int) list"

record ingressPolicy =
  pRules :: "ingressRule list"
  dynamicGroups :: nat
  tunnelTag :: string

definition maxChinaDNSGroups :: nat where "maxChinaDNSGroups = 6"
definition maxStaticPrefixesPerRule :: nat where "maxStaticPrefixesPerRule = 4096"

text \<open>\<open>strings.Cut\<close> and \<open>strings.EqualFold\<close>.\<close>

definition cut :: "char \<Rightarrow> string \<Rightarrow> (string \<times> string) option" where
  "cut c s = (case index_byte c s of None \<Rightarrow> None | Some i \<Rightarrow> Some (take i s, drop (i + 1) s))"

definition equalFold :: "string \<Rightarrow> string \<Rightarrow> bool" where
  "equalFold a b = (to_lower a = to_lower b)"

definition listAllows :: "string list \<Rightarrow> string \<Rightarrow> bool" where
  "listAllows vs wanted = (vs = [] \<or> list_ex (\<lambda>v. equalFold (trim_space v) wanted) vs)"

definition concerns :: "string \<Rightarrow> Loaded \<Rightarrow> bool" where
  "concerns user l = (listAllows (mUser (ruleMatch l)) user \<and> listAllows (mInboundTag (ruleMatch l)) ''local-tun'')"

primrec selectTunnel :: "string \<Rightarrow> Loaded list \<Rightarrow> string \<Rightarrow> (string, string) gores" where
  "selectTunnel user [] selected = GoOk selected"
| "selectTunnel user (l # ls) selected =
    (if \<not> concerns user l then selectTunnel user ls selected
     else let t = trim_space (OutboundTag l) in
       if t = [] then GoErr ''no outbound''
       else if t = ''direct'' \<or> t = ''block'' then selectTunnel user ls selected
       else if selected = [] then selectTunnel user ls t
       else if selected \<noteq> t then GoErr ''multiple tunnel outbounds''
       else selectTunnel user ls selected)"

definition localTunnelOutbound :: "Snapshot option \<Rightarrow> string \<Rightarrow> (string, string) gores" where
  "localTunnelOutbound snap userName = (case snap of None \<Rightarrow> GoOk [] | Some s \<Rightarrow> selectTunnel (trim_space userName) (snapRules s) [])"

definition geoToken :: "string \<Rightarrow> string \<Rightarrow> string option" where
  "geoToken raw kind =
    (case cut (CHR '':'') (trim_space raw) of None \<Rightarrow> None
     | Some (l, r) \<Rightarrow> if \<not> equalFold (trim_space l) kind then None
         else if trim_space r = [] then None else Some (trim_space r))"

section \<open>Parts of a rule\<close>

definition is4 :: "prefix \<Rightarrow> bool" where
  "is4 p = (case fst p of V4 _ \<Rightarrow> True | V6 _ _ \<Rightarrow> False)"

definition addPrefix :: "prefix \<Rightarrow> ingressRule \<Rightarrow> ingressRule" where
  "addPrefix p r = (if is4 p then r\<lparr>ipv4 := ipv4 r @ [p]\<rparr> else r\<lparr>ipv6 := ipv6 r @ [p]\<rparr>)"

definition appendGeoPrefixes :: "(string \<times> prefix list) list \<Rightarrow> GeoDB option \<Rightarrow> string \<Rightarrow> ingressRule \<Rightarrow> (string, ingressRule) gores" where
  "appendGeoPrefixes cip db name r =
    (if db = None then GoErr ''geoip requires loaded geodata''
     else let ps = GeoIPCIDRs cip db name in
       if ps = [] then GoErr ''geoip not found''
       else GoOk (fold (\<lambda>p. addPrefix (masked p)) ps r))"

definition normalizeIngressDomain :: "string \<Rightarrow> string" where
  "normalizeIngressDomain raw0 =
    (let raw = trim_suffix (to_lower (trim_space raw0)) ''.'' in
     if raw = [] \<or> length raw > 253 \<or> list_ex (\<lambda>c. c \<in> set ('' /[]()^$*+?{}|'' @ [CHR 0x09, CHR 0x0D, CHR 0x0A, CHR 0x5C])) raw then [] else raw)"

text \<open>The set of domains already seen is the set of the rule's domains.\<close>

definition addUnique :: "string \<Rightarrow> ingressRule \<Rightarrow> ingressRule" where
  "addUnique d r = (if d \<in> set (iDomains r) then r else r\<lparr>iDomains := iDomains r @ [d]\<rparr>)"

definition geoDomain :: "DomainRule \<Rightarrow> string option" where
  "geoDomain raw =
    (let typ = to_lower (trim_space (dType raw)); value = normalizeIngressDomain (dValue raw) in
     if typ = ''regex'' \<or> typ = ''regexp'' then None
     else if value = [] then None
     else if typ = ''plain'' \<and> CHR ''.'' \<notin> set value then None
     else Some value)"

definition appendGeoDomains :: "(string \<times> DomainRule list) list \<Rightarrow> GeoDB option \<Rightarrow> string \<Rightarrow> ingressRule \<Rightarrow> (string, ingressRule) gores" where
  "appendGeoDomains csite db name r =
    (if db = None then GoErr ''geosite requires loaded geodata''
     else let raws = GeoSiteDomainRules csite db name in
       if raws = [] then GoErr ''geosite not found''
       else let r' = fold (\<lambda>raw r. case geoDomain raw of None \<Rightarrow> r | Some d \<Rightarrow> addUnique d r) raws r in
         if length (iDomains r') = length (iDomains r) then GoErr ''geosite has no ChinaDNS-compatible domains'' else GoOk r')"

definition ingressDomain :: "string \<Rightarrow> (string, string) gores" where
  "ingressDomain raw0 =
    (let raw = trim_space raw0 in
     go_bind (case cut (CHR '':'') raw of None \<Rightarrow> GoOk raw
       | Some (l, r) \<Rightarrow> let l = to_lower (trim_space l) in
           if l = ''domain'' \<or> l = ''full'' then GoOk r
           else if l = ''regexp'' \<or> l = ''regex'' \<or> l = ''keyword'' then GoErr ''cannot be represented by ChinaDNS''
           else GoOk raw) (\<lambda>raw.
     let value = normalizeIngressDomain raw in
     if value = [] then GoErr ''invalid domain suffix'' else GoOk value))"

text \<open>\<open>netip.PrefixFrom\<close> drops the zone of an address.\<close>

definition withoutZone :: "addr \<Rightarrow> addr" where
  "withoutZone a = (case a of V4 w \<Rightarrow> V4 w | V6 w z \<Rightarrow> V6 w [])"

definition parseIngressPrefix :: "string \<Rightarrow> (string, prefix) gores" where
  "parseIngressPrefix raw0 =
    (let raw = trim_space raw0 in
     if \<not> contains raw ''/'' then
       (case ParseAddr raw of None \<Rightarrow> GoErr ''bad address'' | Some a \<Rightarrow> GoOk (withoutZone a, max_bits a))
     else (case ParsePrefix raw of None \<Rightarrow> GoErr ''bad prefix'' | Some p \<Rightarrow> GoOk (masked p)))"

primrec ingressPortParts :: "string list \<Rightarrow> (string, (int \<times> int) list) gores" where
  "ingressPortParts [] = GoOk []"
| "ingressPortParts (p # ps) =
    (let part = trim_space p in
     if part = [] then ingressPortParts ps
     else case (case cut (CHR ''-'') part of
           Some (l, r) \<Rightarrow> (case (Atoi (trim_space l), Atoi (trim_space r)) of (Some lo, Some hi) \<Rightarrow> Some (lo, hi) | _ \<Rightarrow> None)
         | None \<Rightarrow> map_option (\<lambda>x. (x, x)) (Atoi part)) of
       None \<Rightarrow> GoErr ''invalid port range''
     | Some (lo, hi) \<Rightarrow> if lo < 1 \<or> hi > 65535 \<or> lo > hi then GoErr ''invalid port range''
         else go_bind (ingressPortParts ps) (\<lambda>out. GoOk ((lo, hi) # out)))"

definition parseIngressPorts :: "string \<Rightarrow> (string, (int \<times> int) list) gores" where
  "parseIngressPorts raw0 =
    (let raw = trim_space raw0 in
     if raw = [] then GoOk []
     else go_bind (ingressPortParts (split_on (CHR '','') raw)) (\<lambda>out. if out = [] then GoErr ''empty port specification'' else GoOk out))"

text \<open>The order of \<open>sort.Slice\<close>: family, address, length. Prefixes with equal keys are equal after \<open>Masked\<close>.\<close>

definition prefixKey :: "prefix \<Rightarrow> nat \<times> nat \<times> nat" where
  "prefixKey p = (max_bits (fst p), (case fst p of V4 w \<Rightarrow> unat w | V6 w z \<Rightarrow> unat w), snd p)"

definition covers :: "prefix \<Rightarrow> prefix \<Rightarrow> bool" where
  "covers prior candidate = (max_bits (fst prior) = max_bits (fst candidate) \<and> snd prior \<le> snd candidate \<and> prefix_contains prior (fst candidate))"

primrec dropCovered :: "prefix list \<Rightarrow> prefix list \<Rightarrow> prefix list" where
  "dropCovered [] out = out"
| "dropCovered (c # cs) out = dropCovered cs (if list_ex (\<lambda>p. covers p c) (rev out) then out else out @ [c])"

definition normalizeIngressPrefixes :: "prefix list \<Rightarrow> prefix list" where
  "normalizeIngressPrefixes vs = (if length vs < 2 then vs else dropCovered (sort_key prefixKey (map masked vs)) [])"

section \<open>The policy\<close>

definition mergeableDomainRules :: "ingressRule \<Rightarrow> ingressRule \<Rightarrow> bool" where
  "mergeableDomainRules a b =
    (iDomains a \<noteq> [] \<and> iDomains b \<noteq> [] \<and> length (ipv4 a) + length (ipv6 a) = 0 \<and> length (ipv4 b) + length (ipv6 b) = 0 \<and>
     iAction a = iAction b \<and> iNetwork a = iNetwork b \<and> iPorts a = iPorts b \<and> source4 a = source4 b \<and> source6 a = source6 b)"

definition appendUniqueDomains :: "string list \<Rightarrow> string list \<Rightarrow> string list" where
  "appendUniqueDomains dst src = fold (\<lambda>d out. if d \<in> set out then out else out @ [d]) src dst"

definition addSourcePrefix :: "string \<Rightarrow> ingressRule \<Rightarrow> (string, ingressRule) gores" where
  "addSourcePrefix raw r = go_bind (parseIngressPrefix raw) (\<lambda>p.
     GoOk (if is4 p then r\<lparr>source4 := source4 r @ [p]\<rparr> else r\<lparr>source6 := source6 r @ [p]\<rparr>))"

definition addIPEntry :: "(string \<times> prefix list) list \<Rightarrow> GeoDB option \<Rightarrow> string \<Rightarrow> ingressRule \<Rightarrow> (string, ingressRule) gores" where
  "addIPEntry cip db raw r = (case geoToken raw ''geoip'' of
     Some name \<Rightarrow> appendGeoPrefixes cip db name r
   | None \<Rightarrow> go_bind (parseIngressPrefix raw) (\<lambda>p. GoOk (addPrefix p r)))"

definition addDomainEntry :: "(string \<times> prefix list) list \<Rightarrow> (string \<times> DomainRule list) list \<Rightarrow> GeoDB option \<Rightarrow> string \<Rightarrow> ingressRule \<Rightarrow> (string, ingressRule) gores" where
  "addDomainEntry cip csite db raw r = (case geoToken raw ''geosite'' of
     Some name \<Rightarrow> appendGeoDomains csite db name r
   | None \<Rightarrow> (case geoToken raw ''geoip'' of
       Some name \<Rightarrow> appendGeoPrefixes cip db name r
     | None \<Rightarrow> go_bind (ingressDomain raw) (\<lambda>d. GoOk (addUnique d r))))"

definition actionOf :: "string \<Rightarrow> string \<Rightarrow> (string, ingressAction) gores" where
  "actionOf tunnel tg0 =
    (let tg = trim_space tg0 in
     if tg = ''direct'' then GoOk ingressDirect
     else if tg = ''block'' then GoOk ingressBlock
     else if tg = [] then GoErr ''no outbound''
     else if tg \<noteq> tunnel then GoErr ''unexpected outbound''
     else GoOk ingressTunnel)"

text \<open>The body of the loop of \<open>buildIngressPolicy\<close> up to the merging.\<close>

definition buildRule :: "(string \<times> prefix list) list \<Rightarrow> (string \<times> DomainRule list) list \<Rightarrow> GeoDB option \<Rightarrow> string \<Rightarrow> nat \<Rightarrow> Loaded \<Rightarrow> (string, ingressRule) gores" where
  "buildRule cip csite db tunnel n l =
    (let m = ruleMatch l; nw = to_lower (trim_space (mNetwork m)) in
     go_bind (actionOf tunnel (OutboundTag l)) (\<lambda>act.
     if nw \<notin> {[], ''tcp'', ''udp'', ''tcp,udp'', ''udp,tcp''} then GoErr ''invalid network''
     else go_bind (parseIngressPorts (mPort m)) (\<lambda>ports.
     go_bind (each addSourcePrefix (mSource m) \<lparr>iIndex = n, iAction = act, ipv4 = [], ipv6 = [], iDomains = [], source4 = [], source6 = [], iNetwork = nw, iPorts = ports\<rparr>) (\<lambda>r.
     go_bind (each (appendGeoPrefixes cip db) (mGeoIP m) r) (\<lambda>r.
     go_bind (each (addIPEntry cip db) (mIP m) r) (\<lambda>r.
     go_bind (each (appendGeoDomains csite db) (mGeosite m) r) (\<lambda>r.
     go_bind (each (addDomainEntry cip csite db) (mDomain m) r) (\<lambda>r.
     let r = r\<lparr>ipv4 := normalizeIngressPrefixes (ipv4 r), ipv6 := normalizeIngressPrefixes (ipv6 r),
           source4 := normalizeIngressPrefixes (source4 r), source6 := normalizeIngressPrefixes (source6 r)\<rparr> in
     if length (iDomains r) > 0 \<and> length (ipv4 r) + length (ipv6 r) > 0 then GoErr ''combines domain and IP categories''
     else if length (ipv4 r) + length (ipv6 r) > maxStaticPrefixesPerRule then GoErr ''too many static prefixes''
     else GoOk r))))))))"

definition addRule :: "ingressRule \<Rightarrow> ingressPolicy \<Rightarrow> (string, ingressPolicy) gores" where
  "addRule r out =
    (if length (iDomains r) > 0 \<and> length (pRules out) > 0 \<and> mergeableDomainRules (last (pRules out)) r
     then GoOk (out\<lparr>pRules := butlast (pRules out) @ [(last (pRules out))\<lparr>iDomains := appendUniqueDomains (iDomains (last (pRules out))) (iDomains r)\<rparr>]\<rparr>)
     else let out = (if length (iDomains r) > 0 then out\<lparr>dynamicGroups := dynamicGroups out + 1\<rparr> else out) in
       if length (iDomains r) > 0 \<and> dynamicGroups out > maxChinaDNSGroups then GoErr ''too many ChinaDNS groups''
       else GoOk (out\<lparr>pRules := pRules out @ [r]\<rparr>))"

definition buildStep :: "(string \<times> prefix list) list \<Rightarrow> (string \<times> DomainRule list) list \<Rightarrow> GeoDB option \<Rightarrow> string \<Rightarrow> Loaded \<Rightarrow> ingressPolicy \<Rightarrow> (string, ingressPolicy) gores" where
  "buildStep cip csite db user l out =
    (if \<not> concerns user l then GoOk out
     else go_bind (buildRule cip csite db (tunnelTag out) (length (pRules out)) l) (\<lambda>r. addRule r out))"

definition buildIngressPolicy :: "(string \<times> prefix list) list \<Rightarrow> (string \<times> DomainRule list) list \<Rightarrow> GeoDB option \<Rightarrow> Snapshot option \<Rightarrow> string \<Rightarrow> (string, ingressPolicy) gores" where
  "buildIngressPolicy cip csite db snap userName =
    (let user = trim_space userName; out = \<lparr>pRules = [], dynamicGroups = 0, tunnelTag = []\<rparr> in
     case snap of None \<Rightarrow> GoOk out
     | Some s \<Rightarrow> if length (snapRules s) = 0 then GoOk out
         else go_bind (localTunnelOutbound snap user) (\<lambda>t. each (buildStep cip csite db user) (snapRules s) (out\<lparr>tunnelTag := t\<rparr>)))"

section \<open>The classifying chain\<close>

datatype nftClause = Iif | FibLocal | L4 "string list" | Dport "(int \<times> int) list" | Nfproto4 | Nfproto6 | Saddr4 "prefix list" | Saddr6 "prefix list"
  | Daddr4 nat | Daddr6 nat | Bypass4 | Bypass6

datatype nftVerdict = Return | MarkReturn | Drop | Reject6

type_synonym nftLine = "nftClause list \<times> nftVerdict"

definition nftNetworkExpr :: "string \<Rightarrow> nftClause" where
  "nftNetworkExpr nw = (if nw = ''tcp'' then L4 [''tcp''] else if nw = ''udp'' then L4 [''udp''] else L4 [''tcp'', ''udp''])"

definition nftRuleLines :: "ingressRule \<Rightarrow> nftLine list" where
  "nftRuleLines r =
    (let base = [Iif, nftNetworkExpr (iNetwork r)] @ (if length (iPorts r) > 0 then [Dport (iPorts r)] else []);
         action4 = (case iAction r of ingressTunnel \<Rightarrow> MarkReturn | ingressBlock \<Rightarrow> Drop | ingressDirect \<Rightarrow> Return);
         action6 = (case iAction r of ingressTunnel \<Rightarrow> Reject6 | ingressBlock \<Rightarrow> Drop | ingressDirect \<Rightarrow> Return);
         hasDestination = (length (iDomains r) + length (ipv4 r) + length (ipv6 r) > 0) in
     if \<not> hasDestination then
       (if length (source4 r) = 0 \<and> length (source6 r) = 0 then
          (if action4 = action6 then [(base, action4)] else [(base @ [Nfproto4], action4), (base @ [Nfproto6], action6)])
        else (if length (source4 r) > 0 then [(base @ [Saddr4 (source4 r)], action4)] else []) @
             (if length (source6 r) > 0 then [(base @ [Saddr6 (source6 r)], action6)] else []))
     else (if (length (iDomains r) > 0 \<or> length (ipv4 r) > 0) \<and> length (source6 r) = 0
           then [(base @ (if length (source4 r) > 0 then [Saddr4 (source4 r)] else []) @ [Daddr4 (iIndex r)], action4)] else []) @
          (if (length (iDomains r) > 0 \<or> length (ipv6 r) > 0) \<and> length (source4 r) = 0
           then [(base @ (if length (source6 r) > 0 then [Saddr6 (source6 r)] else []) @ [Daddr6 (iIndex r)], action6)] else []))"

definition bareRule :: "ingressAction \<Rightarrow> ingressRule" where
  "bareRule a = \<lparr>iIndex = 0, iAction = a, ipv4 = [], ipv6 = [], iDomains = [], source4 = [], source6 = [], iNetwork = [], iPorts = []\<rparr>"

text \<open>The chain \<open>classify\<close> of \<open>nftConfig\<close>.\<close>

definition classifyChain :: "string \<Rightarrow> ingressPolicy \<Rightarrow> nftLine list" where
  "classifyChain fallbackTag pol =
    [([Iif, FibLocal], Return), ([Iif, L4 [''tcp'', ''udp''], Dport [(853, 853)]], Drop), ([Iif, Bypass4], Return), ([Iif, Bypass6], Return)] @
    concat (map nftRuleLines (pRules pol)) @
    (let t = trim_space fallbackTag in
     if t = [] \<or> t = ''direct'' then [] else if t = ''block'' then nftRuleLines (bareRule ingressBlock) else nftRuleLines (bareRule ingressTunnel))"

section \<open>What a packet filter does with it\<close>

text \<open>A packet as the clauses see it. \<open>resolved d a\<close>: the resolver has answered a name under the domain \<open>d\<close> with the address
  \<open>a\<close>, and put it into the sets of the rules that list \<open>d\<close>.\<close>

record flow =
  fromLAN :: bool
  toRouter :: bool
  fProto :: string
  fSrc :: addr
  fDst :: addr
  fPort :: int
  fBypass :: bool

definition v4 :: "addr \<Rightarrow> bool" where
  "v4 a = (case a of V4 _ \<Rightarrow> True | V6 _ _ \<Rightarrow> False)"

definition anyContains :: "prefix list \<Rightarrow> addr \<Rightarrow> bool" where
  "anyContains ps a = list_ex (\<lambda>p. prefix_contains p a) ps"

text \<open>The sets \<open>r<i>4\<close> and \<open>r<i>6\<close> that \<open>nftConfig\<close> declares.\<close>

definition inSet :: "(string \<Rightarrow> addr \<Rightarrow> bool) \<Rightarrow> ingressRule list \<Rightarrow> nat \<Rightarrow> addr \<Rightarrow> bool" where
  "inSet resolved rs i a = list_ex (\<lambda>r. iIndex r = i \<and>
     (if length (iDomains r) > 0 then list_ex (\<lambda>d. resolved d a) (iDomains r) else anyContains (if v4 a then ipv4 r else ipv6 r) a)) rs"

definition clauseMatches :: "(string \<Rightarrow> addr \<Rightarrow> bool) \<Rightarrow> ingressRule list \<Rightarrow> flow \<Rightarrow> nftClause \<Rightarrow> bool" where
  "clauseMatches resolved rs f c = (case c of
     Iif \<Rightarrow> fromLAN f
   | FibLocal \<Rightarrow> toRouter f
   | L4 ps \<Rightarrow> fProto f \<in> set ps
   | Dport ports \<Rightarrow> portInRanges (fPort f) ports
   | Nfproto4 \<Rightarrow> v4 (fDst f)
   | Nfproto6 \<Rightarrow> \<not> v4 (fDst f)
   | Saddr4 ps \<Rightarrow> v4 (fSrc f) \<and> anyContains ps (fSrc f)
   | Saddr6 ps \<Rightarrow> \<not> v4 (fSrc f) \<and> anyContains ps (fSrc f)
   | Daddr4 i \<Rightarrow> v4 (fDst f) \<and> inSet resolved rs i (fDst f)
   | Daddr6 i \<Rightarrow> \<not> v4 (fDst f) \<and> inSet resolved rs i (fDst f)
   | Bypass4 \<Rightarrow> v4 (fDst f) \<and> fBypass f
   | Bypass6 \<Rightarrow> \<not> v4 (fDst f) \<and> fBypass f)"

text \<open>The verdict of the first line that matches; \<open>None\<close> is the end of the chain, where the packet goes on unmarked as after \<open>Return\<close>.\<close>

definition runChain :: "(string \<Rightarrow> addr \<Rightarrow> bool) \<Rightarrow> ingressRule list \<Rightarrow> flow \<Rightarrow> nftLine list \<Rightarrow> nftVerdict option" where
  "runChain resolved rs f ls = map_option snd (find (\<lambda>l. list_all (clauseMatches resolved rs f) (fst l)) ls)"

definition classify :: "(string \<Rightarrow> addr \<Rightarrow> bool) \<Rightarrow> string \<Rightarrow> ingressPolicy \<Rightarrow> flow \<Rightarrow> nftVerdict option" where
  "classify resolved fallbackTag pol f = runChain resolved (pRules pol) f (classifyChain fallbackTag pol)"

section \<open>Prefixes\<close>

lemma drop_bit_eq_mono:
  fixes a b :: "'a::len word"
  assumes "drop_bit k a = drop_bit k b" "k \<le> k'"
  shows "drop_bit k' a = drop_bit k' b"
proof -
  have e: "drop_bit k' x = drop_bit (k' - k) (drop_bit k x)" for x :: "'a word" using assms(2) by (simp add: drop_bit_drop_bit)
  show ?thesis unfolding e assms(1) ..
qed

lemma drop_bit_xor_0: "drop_bit k (a XOR b) = 0 \<longleftrightarrow> drop_bit k a = drop_bit k (b :: 'a::len word)"
proof -
  have "x XOR y = 0 \<longleftrightarrow> x = y" for x y :: "'a word" by (auto simp: bit_eq_iff bit_simps)
  then show ?thesis by (simp only: drop_bit_xor)
qed

lemma masked_contains [simp]: "prefix_contains (masked p) a = prefix_contains p a"
proof -
  have d: "drop_bit k (push_bit k (drop_bit k w)) = drop_bit k w" for k and w :: "'a::len word"
    by (rule bit_eqI) (auto simp: bit_simps dest: bit_imp_le_length)
  show ?thesis by (cases p; cases "fst p"; cases a) (auto simp: masked_def drop_bit_xor_0 d)
qed

lemma covers_contains: "covers p c \<Longrightarrow> prefix_contains c a \<Longrightarrow> prefix_contains p a"
proof -
  assume c: "covers p c" and a: "prefix_contains c a"
  obtain x b y e where p: "p = (x, b)" "c = (y, e)" by fastforce
  show "prefix_contains p a"
  proof (cases x; cases y; cases a)
    fix u v w assume "x = V4 u" "y = V4 v" "a = V4 w"
    then show ?thesis using c a p drop_bit_eq_mono [of "32 - e" v w "32 - b"] diff_le_mono2 [of b e 32] by (simp add: covers_def drop_bit_xor_0 del: drop_bit_xor)
  next
    fix u z v z' w z'' assume "x = V6 u z" "y = V6 v z'" "a = V6 w z''"
    then show ?thesis using c a p drop_bit_eq_mono [of "128 - e" v w "128 - b"] diff_le_mono2 [of b e 128] by (simp add: covers_def drop_bit_xor_0 del: drop_bit_xor)
  qed (use c a p in \<open>auto simp: covers_def max_bits_def\<close>)
qed

lemma anyContains_set: "anyContains ps a \<longleftrightarrow> (\<exists>p \<in> set ps. prefix_contains p a)"
  by (simp add: anyContains_def list_ex_iff)

lemma dropCovered_contains: "anyContains (dropCovered cs out) a \<longleftrightarrow> anyContains cs a \<or> anyContains out a"
proof (induction cs arbitrary: out)
  case (Cons c cs)
  have "anyContains out a" if "list_ex (\<lambda>p. covers p c) (rev out)" "prefix_contains c a"
    using that covers_contains unfolding anyContains_set list_ex_iff set_rev by blast
  moreover have "anyContains (out @ [c]) a \<longleftrightarrow> anyContains out a \<or> prefix_contains c a" "anyContains (c # cs) a \<longleftrightarrow> prefix_contains c a \<or> anyContains cs a"
    by (auto simp: anyContains_set)
  ultimately show ?case using Cons.IH by (simp only: dropCovered.simps if_bool_eq_disj split: if_split) blast
qed (simp add: anyContains_set)

lemma dropCovered_set: "set (dropCovered cs out) \<subseteq> set cs \<union> set out"
proof (induction cs arbitrary: out)
  case (Cons c cs)
  show ?case using Cons.IH [of out] Cons.IH [of "out @ [c]"] by auto
qed simp

lemma dropCovered_Nil: "dropCovered cs out = [] \<longleftrightarrow> cs = [] \<and> out = []"
proof (induction cs arbitrary: out)
  case (Cons c cs)
  show ?case using Cons.IH [of out] Cons.IH [of "out @ [c]"] by auto
qed simp

lemma normalize_contains [simp]: "anyContains (normalizeIngressPrefixes vs) a = anyContains vs a"
  by (simp add: normalizeIngressPrefixes_def dropCovered_contains) (auto simp: anyContains_set)

lemma normalize_Nil [simp]: "normalizeIngressPrefixes vs = [] \<longleftrightarrow> vs = []"
proof -
  have "length vs < 2 \<Longrightarrow> ?thesis" by (simp add: normalizeIngressPrefixes_def)
  moreover have "\<not> length vs < 2 \<Longrightarrow> ?thesis"
    by (auto simp: normalizeIngressPrefixes_def dropCovered_Nil) (metis length_0_conv length_map length_sort)+
  ultimately show ?thesis by blast
qed

lemma masked_is4 [simp]: "is4 (masked p) = is4 p"
  by (cases p; cases "fst p") (auto simp: is4_def masked_def)

lemma is4_contains: "prefix_contains p a \<Longrightarrow> is4 p = v4 a"
  by (cases p; cases "fst p"; cases a) (auto simp: is4_def v4_def)

text \<open>No two prefixes that are left overlap, as interval sets of nft require.\<close>

definition overlap :: "prefix \<Rightarrow> prefix \<Rightarrow> bool" where
  "overlap p q = (\<exists>a. prefix_contains p a \<and> prefix_contains q a)"

lemma masked_le:
  fixes u v :: "'a::len word"
  assumes "drop_bit k u = drop_bit k v" "push_bit k (drop_bit k u) = u"
  shows "unat u \<le> unat v"
proof -
  have "u = push_bit k (drop_bit k v)" using assms by simp
  also have "\<dots> = v AND NOT (mask k)" by (rule bit_eqI) (auto simp: bit_simps)
  finally have "u \<le> v" using word_and_le2 by (metis and.commute word_and_le1)
  then show ?thesis by (simp add: word_le_nat_alt)
qed

lemma masked_form: "masked p = p \<Longrightarrow> (case fst p of V4 w \<Rightarrow> push_bit (32 - snd p) (drop_bit (32 - snd p) w) = w
    | V6 w z \<Rightarrow> push_bit (128 - snd p) (drop_bit (128 - snd p) w) = w \<and> z = [])"
  by (cases p; cases "fst p") (auto simp: masked_def)

lemma masked_masked [simp]: "masked (masked p) = masked p"
proof -
  have d: "push_bit k (drop_bit k (push_bit k (drop_bit k w))) = push_bit k (drop_bit k w)" for k and w :: "'a::len word"
    by (rule bit_eqI) (auto simp: bit_simps dest: bit_imp_le_length)
  show ?thesis by (cases p; cases "fst p") (auto simp: masked_def d)
qed

text \<open>Of two prefixes that overlap, the one that comes first in the order covers the other.\<close>

lemma overlap_covers:
  assumes "overlap p q" "masked p = p" "masked q = q" "prefixKey p \<le> prefixKey q"
  shows "covers p q"
proof -
  obtain a where a: "prefix_contains p a" "prefix_contains q a" using assms(1) by (auto simp: overlap_def)
  obtain x b y e where p: "p = (x, b)" "q = (y, e)" by fastforce
  have *: "b \<le> e \<and> drop_bit (n - b) u = drop_bit (n - b) v"
    if "drop_bit (n - b) u = drop_bit (n - b) w" "drop_bit (n - e) v = drop_bit (n - e) w" "push_bit (n - e) (drop_bit (n - e) v) = v"
      "unat u < unat v \<or> unat u \<le> unat v \<and> b \<le> e" for n and u v w :: "'a::len word"
  proof (cases "b \<le> e")
    case True
    then have "n - e \<le> n - b" by simp
    then show ?thesis using True that(1) drop_bit_eq_mono [OF that(2)] by simp
  next
    case False
    then have "n - b \<le> n - e" by simp
    then have "drop_bit (n - e) v = drop_bit (n - e) u" using drop_bit_eq_mono [OF that(1)] that(2) by simp
    then have "unat v \<le> unat u" by (rule masked_le [OF _ that(3)])
    then show ?thesis using that(4) False by simp
  qed
  show ?thesis
  proof (cases x; cases y; cases a)
    fix u v w assume x: "x = V4 u" "y = V4 v" "a = V4 w"
    then show ?thesis using * [of 32 u w v] a p assms(4) masked_form [OF assms(3)]
      by (simp add: covers_def prefixKey_def drop_bit_xor_0 max_bits_def del: drop_bit_xor)
  next
    fix u z v z' w z'' assume x: "x = V6 u z" "y = V6 v z'" "a = V6 w z''"
    then show ?thesis using * [of 128 u w v] a p assms(4) masked_form [OF assms(3)]
      by (simp add: covers_def prefixKey_def drop_bit_xor_0 max_bits_def del: drop_bit_xor)
  qed (use a p in auto)
qed

lemma dropCovered_disjoint:
  assumes "sorted_wrt (\<lambda>p q. prefixKey p \<le> prefixKey q) (out @ cs)" "\<forall>p \<in> set (out @ cs). masked p = p" "sorted_wrt (\<lambda>p q. \<not> overlap p q) out"
  shows "sorted_wrt (\<lambda>p q. \<not> overlap p q) (dropCovered cs out)"
  using assms
proof (induction cs arbitrary: out)
  case (Cons c cs)
  show ?case
  proof (cases "list_ex (\<lambda>p. covers p c) out")
    case True
    then show ?thesis using Cons.IH [of out] Cons.prems by (simp add: sorted_wrt_append)
  next
    case False
    have "\<not> overlap p c" if "p \<in> set out" for p
      using overlap_covers [of p c] that False Cons.prems(1,2) by (auto simp: list_ex_iff sorted_wrt_append)
    then show ?thesis using Cons.IH [of "out @ [c]"] Cons.prems False by (simp add: sorted_wrt_append)
  qed
qed simp

lemma normalized_disjoint: "sorted_wrt (\<lambda>p q. \<not> overlap p q) (normalizeIngressPrefixes vs)"
proof (cases "length vs < 2")
  case True
  then show ?thesis by (cases vs) (auto simp: normalizeIngressPrefixes_def)
next
  case False
  have "sorted_wrt (\<lambda>p q. prefixKey p \<le> prefixKey q) (sort_key prefixKey (map masked vs))"
    using sorted_sort_key [of prefixKey "map masked vs"] by (simp only: sorted_map)
  then show ?thesis using False dropCovered_disjoint [of "[]" "sort_key prefixKey (map masked vs)"] by (auto simp: normalizeIngressPrefixes_def)
qed

section \<open>What a compiled rule decides\<close>

definition protoOK :: "string \<Rightarrow> string \<Rightarrow> bool" where
  "protoOK nw proto = (if nw = ''tcp'' then proto = ''tcp'' else if nw = ''udp'' then proto = ''udp'' else proto = ''tcp'' \<or> proto = ''udp'')"

definition hasDest :: "ingressRule \<Rightarrow> bool" where
  "hasDest r = (iDomains r \<noteq> [] \<or> ipv4 r \<noteq> [] \<or> ipv6 r \<noteq> [])"

definition ruleMatches :: "(string \<Rightarrow> addr \<Rightarrow> bool) \<Rightarrow> flow \<Rightarrow> ingressRule \<Rightarrow> bool" where
  "ruleMatches resolved f r \<longleftrightarrow> protoOK (iNetwork r) (fProto f) \<and> (iPorts r = [] \<or> portInRanges (fPort f) (iPorts r)) \<and>
     (source4 r = [] \<and> source6 r = [] \<or> anyContains (source4 r @ source6 r) (fSrc f)) \<and>
     (\<not> hasDest r \<or> (\<exists>d \<in> set (iDomains r). resolved d (fDst f)) \<or> anyContains (ipv4 r @ ipv6 r) (fDst f))"

definition verdictFor :: "ingressAction \<Rightarrow> bool \<Rightarrow> nftVerdict" where
  "verdictFor act fam4 = (case act of ingressDirect \<Rightarrow> Return | ingressBlock \<Rightarrow> Drop | ingressTunnel \<Rightarrow> if fam4 then MarkReturn else Reject6)"

text \<open>Prefixes sit in the list of their family, and a rule lists domains or prefixes, not both.\<close>

definition ruleOK :: "ingressRule \<Rightarrow> bool" where
  "ruleOK r \<longleftrightarrow> (\<forall>p \<in> set (ipv4 r @ source4 r). is4 p) \<and> (\<forall>p \<in> set (ipv6 r @ source6 r). \<not> is4 p) \<and> (iDomains r = [] \<or> ipv4 r = [] \<and> ipv6 r = [])"

definition oneFamily :: "ingressRule \<Rightarrow> bool" where
  "oneFamily r \<longleftrightarrow> \<not> (hasDest r \<and> source4 r \<noteq> [] \<and> source6 r \<noteq> [])"

text \<open>A packet that the chain does not dispose of before the rules.\<close>

definition ordinary :: "flow \<Rightarrow> bool" where
  "ordinary f \<longleftrightarrow> fromLAN f \<and> \<not> toRouter f \<and> fProto f \<in> {''tcp'', ''udp''} \<and> fPort f \<noteq> 853 \<and> \<not> fBypass f \<and> v4 (fSrc f) = v4 (fDst f)"

lemma family_contains: "\<forall>p \<in> set ps. is4 p = fam \<Longrightarrow> anyContains ps a \<Longrightarrow> v4 a = fam"
  using is4_contains by (auto simp: anyContains_set)

lemma ruleOK_contains:
  assumes "ruleOK r"
  shows "anyContains (ipv4 r @ ipv6 r) a \<longleftrightarrow> anyContains (if v4 a then ipv4 r else ipv6 r) a"
    and "anyContains (source4 r @ source6 r) a \<longleftrightarrow> anyContains (if v4 a then source4 r else source6 r) a"
proof -
  have f: "anyContains (ps @ qs) a \<longleftrightarrow> anyContains (if v4 a then ps else qs) a" if "\<forall>p \<in> set ps. is4 p" "\<forall>p \<in> set qs. \<not> is4 p" for ps qs
    using that is4_contains [of _ a] by (auto simp: anyContains_set)
  show "anyContains (ipv4 r @ ipv6 r) a \<longleftrightarrow> anyContains (if v4 a then ipv4 r else ipv6 r) a"
    by (rule f) (use assms in \<open>auto simp: ruleOK_def\<close>)
  show "anyContains (source4 r @ source6 r) a \<longleftrightarrow> anyContains (if v4 a then source4 r else source6 r) a"
    by (rule f) (use assms in \<open>auto simp: ruleOK_def\<close>)
qed

lemma inSet_own:
  assumes "r \<in> set rs" "distinct (map iIndex rs)"
  shows "inSet resolved rs (iIndex r) a \<longleftrightarrow> (if length (iDomains r) > 0 then list_ex (\<lambda>d. resolved d a) (iDomains r) else anyContains (if v4 a then ipv4 r else ipv6 r) a)"
proof -
  have "q = r" if "q \<in> set rs" "iIndex q = iIndex r" for q using assms that by (metis distinct_map inj_on_def)
  then show ?thesis using assms(1) unfolding inSet_def list_ex_iff by metis
qed

lemma base_matches:
  "ordinary f \<Longrightarrow> list_all (clauseMatches resolved rs f) ([Iif, nftNetworkExpr nw] @ (if length ports > 0 then [Dport ports] else [])) \<longleftrightarrow>
     protoOK nw (fProto f) \<and> (ports = [] \<or> portInRanges (fPort f) ports)"
  by (auto simp: ordinary_def nftNetworkExpr_def clauseMatches_def protoOK_def)

lemma runChain_app: "runChain resolved rs f (xs @ ys) = (case runChain resolved rs f xs of Some v \<Rightarrow> Some v | None \<Rightarrow> runChain resolved rs f ys)"
  by (induction xs) (auto simp: runChain_def)

lemma runChain_one: "runChain resolved rs f [(cs, v)] = (if list_all (clauseMatches resolved rs f) cs then Some v else None)"
  by (simp add: runChain_def)

lemma runChain_Nil [simp]: "runChain resolved rs f [] = None"
  by (simp add: runChain_def)

lemma runChain_two: "runChain resolved rs f [(cs, v), (ds, w)] = (if list_all (clauseMatches resolved rs f) cs then Some v
    else if list_all (clauseMatches resolved rs f) ds then Some w else None)"
  by (simp add: runChain_def)

definition lineBase :: "ingressRule \<Rightarrow> nftClause list" where
  "lineBase r = [Iif, nftNetworkExpr (iNetwork r)] @ (if length (iPorts r) > 0 then [Dport (iPorts r)] else [])"

definition baseMatches :: "flow \<Rightarrow> ingressRule \<Rightarrow> bool" where
  "baseMatches f r \<longleftrightarrow> protoOK (iNetwork r) (fProto f) \<and> (iPorts r = [] \<or> portInRanges (fPort f) (iPorts r))"

definition action4 :: "ingressRule \<Rightarrow> nftVerdict" where
  "action4 r = (case iAction r of ingressTunnel \<Rightarrow> MarkReturn | ingressBlock \<Rightarrow> Drop | ingressDirect \<Rightarrow> Return)"

definition action6 :: "ingressRule \<Rightarrow> nftVerdict" where
  "action6 r = (case iAction r of ingressTunnel \<Rightarrow> Reject6 | ingressBlock \<Rightarrow> Drop | ingressDirect \<Rightarrow> Return)"

lemma lineBase_matches: "ordinary f \<Longrightarrow> list_all (clauseMatches resolved rs f) (lineBase r) = baseMatches f r"
  unfolding lineBase_def baseMatches_def by (rule base_matches)

lemma verdict_actions: "verdictFor (iAction r) fam = (if fam then action4 r else action6 r)"
  by (simp add: verdictFor_def action4_def action6_def split: ingressAction.split)

lemma nftRuleLines_bare:
  "\<not> hasDest r \<Longrightarrow> nftRuleLines r =
     (if source4 r = [] \<and> source6 r = [] then
        (if action4 r = action6 r then [(lineBase r, action4 r)] else [(lineBase r @ [Nfproto4], action4 r), (lineBase r @ [Nfproto6], action6 r)])
      else (if source4 r \<noteq> [] then [(lineBase r @ [Saddr4 (source4 r)], action4 r)] else []) @ (if source6 r \<noteq> [] then [(lineBase r @ [Saddr6 (source6 r)], action6 r)] else []))"
  unfolding nftRuleLines_def Let_def lineBase_def [symmetric] action4_def [symmetric] action6_def [symmetric] by (simp add: hasDest_def)

lemma nftRuleLines_dest:
  "hasDest r \<Longrightarrow> nftRuleLines r =
     (if (iDomains r \<noteq> [] \<or> ipv4 r \<noteq> []) \<and> source6 r = [] then [(lineBase r @ (if source4 r \<noteq> [] then [Saddr4 (source4 r)] else []) @ [Daddr4 (iIndex r)], action4 r)] else []) @
     (if (iDomains r \<noteq> [] \<or> ipv6 r \<noteq> []) \<and> source4 r = [] then [(lineBase r @ (if source6 r \<noteq> [] then [Saddr6 (source6 r)] else []) @ [Daddr6 (iIndex r)], action6 r)] else [])"
  unfolding nftRuleLines_def Let_def lineBase_def [symmetric] action4_def [symmetric] action6_def [symmetric] by (simp add: hasDest_def)

lemma nftRuleLines_decide:
  assumes "ordinary f" "r \<in> set rs" "distinct (map iIndex rs)" "ruleOK r" "oneFamily r"
  shows "runChain resolved rs f (nftRuleLines r) = (if ruleMatches resolved f r then Some (verdictFor (iAction r) (v4 (fDst f))) else None)"
proof -
  have fam: "v4 (fSrc f) = v4 (fDst f)" using assms(1) by (simp add: ordinary_def)
  note b = lineBase_matches [OF assms(1), of resolved rs r]
  note c = ruleOK_contains [OF assms(4)] inSet_own [OF assms(2,3), of resolved "fDst f"]
  show ?thesis
  proof (cases "hasDest r")
    case False
    then have m: "ruleMatches resolved f r \<longleftrightarrow> baseMatches f r \<and> (source4 r = [] \<and> source6 r = [] \<or> anyContains (if v4 (fDst f) then source4 r else source6 r) (fSrc f))"
      unfolding ruleMatches_def c(2) baseMatches_def fam by blast
    show ?thesis unfolding nftRuleLines_bare [OF False] m verdict_actions
      by (auto simp: runChain_app runChain_one runChain_two b clauseMatches_def anyContains_def fam)
  next
    case True
    then have m: "ruleMatches resolved f r \<longleftrightarrow> baseMatches f r \<and> (source4 r = [] \<and> source6 r = [] \<or> anyContains (if v4 (fDst f) then source4 r else source6 r) (fSrc f)) \<and>
        inSet resolved rs (iIndex r) (fDst f)"
      unfolding ruleMatches_def c baseMatches_def fam using assms(4) by (auto simp: ruleOK_def list_ex_iff anyContains_def)
    have e: "\<not> inSet resolved rs (iIndex r) (fDst f)" if "iDomains r = []" "(if v4 (fDst f) then ipv4 r else ipv6 r) = []"
      using that by (simp add: c(3) anyContains_def)
    have o: "source4 r = [] \<or> source6 r = []" using True assms(5) by (simp add: oneFamily_def)
    show ?thesis unfolding nftRuleLines_dest [OF True] m verdict_actions
      by (cases "v4 (fDst f)") (use e o in \<open>auto simp: runChain_app runChain_one b clauseMatches_def anyContains_def fam\<close>)
  qed
qed

lemma bare_decide:
  assumes "ordinary f"
  shows "runChain resolved rs f (nftRuleLines (bareRule a)) = Some (verdictFor a (v4 (fDst f)))"
proof -
  have "\<not> hasDest (bareRule a)" "baseMatches f (bareRule a)" using assms by (auto simp: hasDest_def bareRule_def baseMatches_def protoOK_def ordinary_def)
  moreover have "source4 (bareRule a) = []" "source6 (bareRule a) = []" "iAction (bareRule a) = a" by (simp_all add: bareRule_def)
  ultimately show ?thesis using verdict_actions [of "bareRule a" "v4 (fDst f)"]
    by (auto simp: nftRuleLines_bare runChain_one runChain_two lineBase_matches [OF assms] clauseMatches_def)
qed

definition decide :: "(string \<Rightarrow> addr \<Rightarrow> bool) \<Rightarrow> flow \<Rightarrow> ingressRule list \<Rightarrow> ingressAction option" where
  "decide resolved f rs = map_option iAction (find (ruleMatches resolved f) rs)"

lemma decide_app: "decide resolved f (xs @ ys) = (case decide resolved f xs of Some a \<Rightarrow> Some a | None \<Rightarrow> decide resolved f ys)"
  by (induction xs) (auto simp: decide_def)

lemma rules_decide:
  assumes "ordinary f" "distinct (map iIndex rs)" "\<forall>r \<in> set rs. ruleOK r \<and> oneFamily r" "set qs \<subseteq> set rs"
  shows "runChain resolved rs f (concat (map nftRuleLines qs)) = map_option (\<lambda>a. verdictFor a (v4 (fDst f))) (decide resolved f qs)"
  using assms(4)
proof (induction qs)
  case (Cons q qs)
  then have "runChain resolved rs f (nftRuleLines q) = (if ruleMatches resolved f q then Some (verdictFor (iAction q) (v4 (fDst f))) else None)"
    by (intro nftRuleLines_decide [OF assms(1) _ assms(2)]) (use assms(3) in auto)
  then show ?case using Cons by (simp add: runChain_app decide_def)
qed (simp add: decide_def)

definition fallbackVerdict :: "string \<Rightarrow> bool \<Rightarrow> nftVerdict option" where
  "fallbackVerdict tg fam4 = (let t = trim_space tg in
     if t = [] \<or> t = ''direct'' then None else Some (verdictFor (if t = ''block'' then ingressBlock else ingressTunnel) fam4))"

lemma classify_decide:
  assumes "ordinary f" "distinct (map iIndex (pRules pol))" "\<forall>r \<in> set (pRules pol). ruleOK r \<and> oneFamily r"
  shows "classify resolved fb pol f = (case decide resolved f (pRules pol) of
     Some a \<Rightarrow> Some (verdictFor a (v4 (fDst f))) | None \<Rightarrow> fallbackVerdict fb (v4 (fDst f)))"
proof -
  let ?pre = "[([Iif, FibLocal], Return), ([Iif, L4 [''tcp'', ''udp''], Dport [(853, 853)]], Drop), ([Iif, Bypass4], Return), ([Iif, Bypass6], Return)]"
  have "runChain resolved (pRules pol) f ?pre = None" using assms(1) by (auto simp: runChain_def clauseMatches_def ordinary_def portInRanges_def)
  moreover have "runChain resolved (pRules pol) f (concat (map nftRuleLines (pRules pol))) = map_option (\<lambda>a. verdictFor a (v4 (fDst f))) (decide resolved f (pRules pol))"
    by (rule rules_decide [OF assms]) simp
  ultimately show ?thesis unfolding classify_def classifyChain_def runChain_app
    by (simp add: fallbackVerdict_def Let_def bare_decide [OF assms(1)] split: option.split)
qed

section \<open>What the rules of the snapshot ask for\<close>

definition geoNets :: "(string \<times> prefix list) list \<Rightarrow> GeoDB option \<Rightarrow> string \<Rightarrow> prefix set" where
  "geoNets cip db name = masked ` set (GeoIPCIDRs cip db name)"

definition siteDomains :: "(string \<times> DomainRule list) list \<Rightarrow> GeoDB option \<Rightarrow> string \<Rightarrow> string set" where
  "siteDomains csite db name = {d. \<exists>raw \<in> set (GeoSiteDomainRules csite db name). geoDomain raw = Some d}"

definition ipEntryNets :: "(string \<times> prefix list) list \<Rightarrow> GeoDB option \<Rightarrow> string \<Rightarrow> prefix set" where
  "ipEntryNets cip db raw = (case geoToken raw ''geoip'' of Some name \<Rightarrow> geoNets cip db name | None \<Rightarrow> {p. parseIngressPrefix raw = GoOk p})"

definition domainEntryNets :: "(string \<times> prefix list) list \<Rightarrow> GeoDB option \<Rightarrow> string \<Rightarrow> prefix set" where
  "domainEntryNets cip db raw = (case geoToken raw ''geosite'' of Some name \<Rightarrow> {} | None \<Rightarrow>
     (case geoToken raw ''geoip'' of Some name \<Rightarrow> geoNets cip db name | None \<Rightarrow> {}))"

definition domainEntryDomains :: "(string \<times> DomainRule list) list \<Rightarrow> GeoDB option \<Rightarrow> string \<Rightarrow> string set" where
  "domainEntryDomains csite db raw = (case geoToken raw ''geosite'' of Some name \<Rightarrow> siteDomains csite db name | None \<Rightarrow>
     (case geoToken raw ''geoip'' of Some name \<Rightarrow> {} | None \<Rightarrow> {d. ingressDomain raw = GoOk d}))"

definition wantedNets :: "(string \<times> prefix list) list \<Rightarrow> GeoDB option \<Rightarrow> dbMatch \<Rightarrow> prefix set" where
  "wantedNets cip db m = (\<Union>name \<in> set (mGeoIP m). geoNets cip db name) \<union> (\<Union>raw \<in> set (mIP m). ipEntryNets cip db raw) \<union>
     (\<Union>raw \<in> set (mDomain m). domainEntryNets cip db raw)"

definition wantedDomains :: "(string \<times> DomainRule list) list \<Rightarrow> GeoDB option \<Rightarrow> dbMatch \<Rightarrow> string set" where
  "wantedDomains csite db m = (\<Union>name \<in> set (mGeosite m). siteDomains csite db name) \<union> (\<Union>raw \<in> set (mDomain m). domainEntryDomains csite db raw)"

text \<open>The match of a rule of the snapshot, read off its fields: every field that is present must agree with the packet.\<close>

definition wanted :: "(string \<times> prefix list) list \<Rightarrow> (string \<times> DomainRule list) list \<Rightarrow> GeoDB option \<Rightarrow> (string \<Rightarrow> addr \<Rightarrow> bool) \<Rightarrow> flow \<Rightarrow> Loaded \<Rightarrow> bool" where
  "wanted cip csite db resolved f l \<longleftrightarrow> (let m = ruleMatch l in
     protoOK (to_lower (trim_space (mNetwork m))) (fProto f) \<and>
     (\<forall>ports. parseIngressPorts (mPort m) = GoOk ports \<longrightarrow> ports = [] \<or> portInRanges (fPort f) ports) \<and>
     (mSource m = [] \<or> (\<exists>raw \<in> set (mSource m). \<exists>p. parseIngressPrefix raw = GoOk p \<and> prefix_contains p (fSrc f))) \<and>
     (mGeoIP m = [] \<and> mIP m = [] \<and> mGeosite m = [] \<and> mDomain m = [] \<or> (\<exists>p \<in> wantedNets cip db m. prefix_contains p (fDst f)) \<or>
      (\<exists>d \<in> wantedDomains csite db m. resolved d (fDst f))))"

definition tagAction :: "string \<Rightarrow> ingressAction" where
  "tagAction tg = (let t = trim_space tg in if t = ''direct'' then ingressDirect else if t = ''block'' then ingressBlock else ingressTunnel)"

section \<open>Compiling keeps the meaning\<close>

definition famOK :: "ingressRule \<Rightarrow> bool" where
  "famOK r \<longleftrightarrow> (\<forall>p \<in> set (ipv4 r @ source4 r). is4 p) \<and> (\<forall>p \<in> set (ipv6 r @ source6 r). \<not> is4 p)"

definition grows :: "prefix set \<Rightarrow> string set \<Rightarrow> prefix set \<Rightarrow> ingressRule \<Rightarrow> ingressRule \<Rightarrow> bool" where
  "grows A B C r r' \<longleftrightarrow> set (ipv4 r') \<union> set (ipv6 r') = set (ipv4 r) \<union> set (ipv6 r) \<union> A \<and> set (iDomains r') = set (iDomains r) \<union> B \<and>
     set (source4 r') \<union> set (source6 r') = set (source4 r) \<union> set (source6 r) \<union> C \<and> (famOK r \<longrightarrow> famOK r') \<and>
     iIndex r' = iIndex r \<and> iAction r' = iAction r \<and> iNetwork r' = iNetwork r \<and> iPorts r' = iPorts r"

lemma grows_refl: "grows {} {} {} r r"
  by (simp add: grows_def)

lemma grows_trans: "grows A B C r r' \<Longrightarrow> grows A' B' C' r' r'' \<Longrightarrow> grows (A \<union> A') (B \<union> B') (C \<union> C') r r''"
  unfolding grows_def by (simp add: Un_assoc)

lemma each_grows:
  assumes "\<And>x r r'. f x r = GoOk r' \<Longrightarrow> grows (A x) (B x) (C x) r r' \<and> N x"
  shows "each f xs r = GoOk r' \<Longrightarrow> grows (\<Union>x \<in> set xs. A x) (\<Union>x \<in> set xs. B x) (\<Union>x \<in> set xs. C x) r r' \<and> (\<forall>x \<in> set xs. N x)"
proof (induction xs arbitrary: r)
  case Nil
  then show ?case by (simp add: grows_refl)
next
  case (Cons x xs)
  obtain r1 where r1: "f x r = GoOk r1" "each f xs r1 = GoOk r'" using Cons.prems by (cases "f x r") auto
  have "grows (A x) (B x) (C x) r r1" "N x" using assms [OF r1(1)] by blast+
  then show ?case using grows_trans [of "A x" "B x" "C x" r r1] Cons.IH [OF r1(2)] by simp
qed

lemma addPrefix_grows: "grows {p} {} {} r (addPrefix p r)"
  by (auto simp: grows_def addPrefix_def famOK_def)

lemma fold_prefixes_grows: "grows (masked ` set ps) {} {} r (fold (\<lambda>p. addPrefix (masked p)) ps r)"
proof (induction ps arbitrary: r)
  case (Cons p ps)
  show ?case using grows_trans [OF addPrefix_grows Cons.IH, of "masked p" r] by simp
qed (simp add: grows_refl)

lemma geoPrefixes_grows: "appendGeoPrefixes cip db name r = GoOk r' \<Longrightarrow> grows (geoNets cip db name) {} {} r r' \<and> geoNets cip db name \<noteq> {}"
  using fold_prefixes_grows [of "GeoIPCIDRs cip db name" r] by (auto simp: appendGeoPrefixes_def Let_def geoNets_def split: if_splits)

lemma addUnique_grows: "grows {} {d} {} r (addUnique d r)"
  by (auto simp: grows_def addUnique_def famOK_def)

lemma fold_domains_grows:
  "grows {} {d. \<exists>raw \<in> set raws. geoDomain raw = Some d} {} r (fold (\<lambda>raw r. case geoDomain raw of None \<Rightarrow> r | Some d \<Rightarrow> addUnique d r) raws r)"
proof (induction raws arbitrary: r)
  case (Cons raw raws)
  show ?case
  proof (cases "geoDomain raw")
    case None
    then have "{d. \<exists>x \<in> set (raw # raws). geoDomain x = Some d} = {d. \<exists>x \<in> set raws. geoDomain x = Some d}" by auto
    then show ?thesis using None Cons.IH by simp
  next
    case (Some d)
    then have "{d. \<exists>x \<in> set (raw # raws). geoDomain x = Some d} = {d} \<union> {d. \<exists>x \<in> set raws. geoDomain x = Some d}" by auto
    then show ?thesis using Some grows_trans [OF addUnique_grows Cons.IH, of d r] by simp
  qed
qed (simp add: grows_refl)

lemma geoDomains_grows:
  assumes "appendGeoDomains csite db name r = GoOk r'"
  shows "grows {} (siteDomains csite db name) {} r r' \<and> siteDomains csite db name \<noteq> {}"
proof -
  let ?raws = "GeoSiteDomainRules csite db name" and ?add = "\<lambda>raw r. case geoDomain raw of None \<Rightarrow> r | Some d \<Rightarrow> addUnique d r"
  have r': "r' = fold ?add ?raws r" "length (iDomains (fold ?add ?raws r)) \<noteq> length (iDomains r)"
    using assms by (auto simp: appendGeoDomains_def Let_def split: if_splits)
  have "fold ?add raws r = r" if "\<forall>raw \<in> set raws. geoDomain raw = None" for raws using that by (induction raws) auto
  then have "\<not> (\<forall>raw \<in> set ?raws. geoDomain raw = None)" using r'(2) by metis
  then have "siteDomains csite db name \<noteq> {}" by (auto simp: siteDomains_def)
  then show ?thesis using fold_domains_grows [of ?raws r] r'(1) by (simp add: siteDomains_def)
qed

lemma addSource_grows: "addSourcePrefix raw r = GoOk r' \<Longrightarrow> grows {} {} {p. parseIngressPrefix raw = GoOk p} r r' \<and> {p. parseIngressPrefix raw = GoOk p} \<noteq> {}"
proof (cases "parseIngressPrefix raw")
  case (GoOk p)
  moreover assume "addSourcePrefix raw r = GoOk r'"
  ultimately have "r' = (if is4 p then r\<lparr>source4 := source4 r @ [p]\<rparr> else r\<lparr>source6 := source6 r @ [p]\<rparr>)" by (simp add: addSourcePrefix_def)
  then show ?thesis using GoOk by (cases "is4 p") (auto simp: grows_def famOK_def)
qed (simp_all add: addSourcePrefix_def)

lemma addIP_grows: "addIPEntry cip db raw r = GoOk r' \<Longrightarrow> grows (ipEntryNets cip db raw) {} {} r r' \<and> ipEntryNets cip db raw \<noteq> {}"
  using geoPrefixes_grows [of cip db _ r r'] addPrefix_grows [of _ r]
  by (cases "parseIngressPrefix raw") (auto simp: addIPEntry_def ipEntryNets_def split: option.splits)

lemma addDomain_grows:
  "addDomainEntry cip csite db raw r = GoOk r' \<Longrightarrow> grows (domainEntryNets cip db raw) (domainEntryDomains csite db raw) {} r r' \<and>
     (domainEntryNets cip db raw \<noteq> {} \<or> domainEntryDomains csite db raw \<noteq> {})"
  using geoPrefixes_grows [of cip db _ r r'] geoDomains_grows [of csite db _ r r'] addUnique_grows [of _ r]
  by (cases "ingressDomain raw") (auto simp: addDomainEntry_def domainEntryNets_def domainEntryDomains_def split: option.splits)

lemma source_loop: "each addSourcePrefix xs r = GoOk r' \<Longrightarrow> grows {} {} (\<Union>raw \<in> set xs. {p. parseIngressPrefix raw = GoOk p}) r r' \<and>
    (\<forall>raw \<in> set xs. {p. parseIngressPrefix raw = GoOk p} \<noteq> {})"
  using each_grows [of addSourcePrefix "\<lambda>_. {}" "\<lambda>_. {}" "\<lambda>raw. {p. parseIngressPrefix raw = GoOk p}" "\<lambda>raw. {p. parseIngressPrefix raw = GoOk p} \<noteq> {}" xs r r', OF addSource_grows]
  by simp

lemma geoip_loop: "each (appendGeoPrefixes cip db) xs r = GoOk r' \<Longrightarrow> grows (\<Union>name \<in> set xs. geoNets cip db name) {} {} r r' \<and> (\<forall>name \<in> set xs. geoNets cip db name \<noteq> {})"
  using each_grows [of "appendGeoPrefixes cip db" "geoNets cip db" "\<lambda>_. {}" "\<lambda>_. {}" "\<lambda>name. geoNets cip db name \<noteq> {}" xs r r', OF geoPrefixes_grows] by simp

lemma ip_loop: "each (addIPEntry cip db) xs r = GoOk r' \<Longrightarrow> grows (\<Union>raw \<in> set xs. ipEntryNets cip db raw) {} {} r r' \<and> (\<forall>raw \<in> set xs. ipEntryNets cip db raw \<noteq> {})"
  using each_grows [of "addIPEntry cip db" "ipEntryNets cip db" "\<lambda>_. {}" "\<lambda>_. {}" "\<lambda>raw. ipEntryNets cip db raw \<noteq> {}" xs r r', OF addIP_grows] by simp

lemma geosite_loop: "each (appendGeoDomains csite db) xs r = GoOk r' \<Longrightarrow> grows {} (\<Union>name \<in> set xs. siteDomains csite db name) {} r r' \<and> (\<forall>name \<in> set xs. siteDomains csite db name \<noteq> {})"
  using each_grows [of "appendGeoDomains csite db" "\<lambda>_. {}" "siteDomains csite db" "\<lambda>_. {}" "\<lambda>name. siteDomains csite db name \<noteq> {}" xs r r', OF geoDomains_grows] by simp

lemma domain_loop: "each (addDomainEntry cip csite db) xs r = GoOk r' \<Longrightarrow>
    grows (\<Union>raw \<in> set xs. domainEntryNets cip db raw) (\<Union>raw \<in> set xs. domainEntryDomains csite db raw) {} r r' \<and>
    (\<forall>raw \<in> set xs. domainEntryNets cip db raw \<noteq> {} \<or> domainEntryDomains csite db raw \<noteq> {})"
  using each_grows [of "addDomainEntry cip csite db" "domainEntryNets cip db" "domainEntryDomains csite db" "\<lambda>_. {}"
    "\<lambda>raw. domainEntryNets cip db raw \<noteq> {} \<or> domainEntryDomains csite db raw \<noteq> {}" xs r r', OF addDomain_grows] by simp

lemma normalize_is4: "\<forall>p \<in> set vs. is4 p = fam \<Longrightarrow> \<forall>p \<in> set (normalizeIngressPrefixes vs). is4 p = fam"
  using dropCovered_set [of "sort_key prefixKey (map masked vs)" "[]"] by (auto simp: normalizeIngressPrefixes_def)

lemma buildRule_loops:
  assumes "buildRule cip csite db tunnel n l = GoOk r"
  obtains act ports r5 where "actionOf tunnel (OutboundTag l) = GoOk act" "parseIngressPorts (mPort (ruleMatch l)) = GoOk ports"
    "grows (wantedNets cip db (ruleMatch l)) (wantedDomains csite db (ruleMatch l)) (\<Union>raw \<in> set (mSource (ruleMatch l)). {p. parseIngressPrefix raw = GoOk p})
       \<lparr>iIndex = n, iAction = act, ipv4 = [], ipv6 = [], iDomains = [], source4 = [], source6 = [], iNetwork = to_lower (trim_space (mNetwork (ruleMatch l))), iPorts = ports\<rparr> r5"
    "mSource (ruleMatch l) = [] \<longleftrightarrow> (\<Union>raw \<in> set (mSource (ruleMatch l)). {p. parseIngressPrefix raw = GoOk p}) = {}"
    "mGeoIP (ruleMatch l) = [] \<and> mIP (ruleMatch l) = [] \<and> mGeosite (ruleMatch l) = [] \<and> mDomain (ruleMatch l) = [] \<longleftrightarrow>
       wantedNets cip db (ruleMatch l) = {} \<and> wantedDomains csite db (ruleMatch l) = {}"
    "r = r5\<lparr>ipv4 := normalizeIngressPrefixes (ipv4 r5), ipv6 := normalizeIngressPrefixes (ipv6 r5),
           source4 := normalizeIngressPrefixes (source4 r5), source6 := normalizeIngressPrefixes (source6 r5)\<rparr>"
    "iDomains r = [] \<or> ipv4 r = [] \<and> ipv6 r = []"
proof -
  let ?m = "ruleMatch l" and ?nw = "to_lower (trim_space (mNetwork (ruleMatch l)))"
  obtain act where act: "actionOf tunnel (OutboundTag l) = GoOk act" using assms by (cases "actionOf tunnel (OutboundTag l)") (auto simp: buildRule_def Let_def)
  have nw: "?nw \<in> {[], ''tcp'', ''udp'', ''tcp,udp'', ''udp,tcp''}" using assms act by (auto simp: buildRule_def Let_def split: if_splits)
  obtain ports where ports: "parseIngressPorts (mPort ?m) = GoOk ports" using assms act nw by (cases "parseIngressPorts (mPort ?m)") (auto simp: buildRule_def Let_def)
  define r0 where "r0 = \<lparr>iIndex = n, iAction = act, ipv4 = [], ipv6 = [], iDomains = [], source4 = [], source6 = [], iNetwork = ?nw, iPorts = ports\<rparr>"
  define g where "g = (\<lambda>r5. let r = r5\<lparr>ipv4 := normalizeIngressPrefixes (ipv4 r5), ipv6 := normalizeIngressPrefixes (ipv6 r5),
           source4 := normalizeIngressPrefixes (source4 r5), source6 := normalizeIngressPrefixes (source6 r5)\<rparr> in
     if length (iDomains r) > 0 \<and> length (ipv4 r) + length (ipv6 r) > 0 then GoErr ''combines domain and IP categories''
     else if length (ipv4 r) + length (ipv6 r) > maxStaticPrefixesPerRule then GoErr ''too many static prefixes''
     else GoOk r :: (string, ingressRule) gores)"
  have b: "go_bind (each addSourcePrefix (mSource ?m) r0) (\<lambda>r. go_bind (each (appendGeoPrefixes cip db) (mGeoIP ?m) r) (\<lambda>r. go_bind (each (addIPEntry cip db) (mIP ?m) r) (\<lambda>r.
     go_bind (each (appendGeoDomains csite db) (mGeosite ?m) r) (\<lambda>r. go_bind (each (addDomainEntry cip csite db) (mDomain ?m) r) g)))) = GoOk r"
    using assms nw unfolding buildRule_def Let_def act ports go_bind.simps r0_def g_def by (simp only: if_False not_not simp_thms)
  obtain r1 where r1: "each addSourcePrefix (mSource ?m) r0 = GoOk r1" using b by (cases "each addSourcePrefix (mSource ?m) r0") auto
  obtain r2 where r2: "each (appendGeoPrefixes cip db) (mGeoIP ?m) r1 = GoOk r2" using b r1 by (cases "each (appendGeoPrefixes cip db) (mGeoIP ?m) r1") auto
  obtain r3 where r3: "each (addIPEntry cip db) (mIP ?m) r2 = GoOk r3" using b r1 r2 by (cases "each (addIPEntry cip db) (mIP ?m) r2") auto
  obtain r4 where r4: "each (appendGeoDomains csite db) (mGeosite ?m) r3 = GoOk r4" using b r1 r2 r3 by (cases "each (appendGeoDomains csite db) (mGeosite ?m) r3") auto
  obtain r5 where r5: "each (addDomainEntry cip csite db) (mDomain ?m) r4 = GoOk r5" using b r1 r2 r3 r4 by (cases "each (addDomainEntry cip csite db) (mDomain ?m) r4") auto
  have g: "g r5 = GoOk r" using b r1 r2 r3 r4 r5 by simp
  note e1 = source_loop [OF r1] and e2 = geoip_loop [OF r2] and e3 = ip_loop [OF r3] and e4 = geosite_loop [OF r4] and e5 = domain_loop [OF r5]
  have gr: "grows (wantedNets cip db ?m) (wantedDomains csite db ?m) (\<Union>raw \<in> set (mSource ?m). {p. parseIngressPrefix raw = GoOk p}) r0 r5"
    using grows_trans [OF grows_trans [OF grows_trans [OF grows_trans [OF e1 [THEN conjunct1] e2 [THEN conjunct1]] e3 [THEN conjunct1]] e4 [THEN conjunct1]] e5 [THEN conjunct1]]
    by (simp add: wantedNets_def wantedDomains_def Un_assoc)
  have s: "mSource ?m = [] \<longleftrightarrow> (\<Union>raw \<in> set (mSource ?m). {p. parseIngressPrefix raw = GoOk p}) = {}" using e1 by (cases "mSource ?m") auto
  have d: "mGeoIP ?m = [] \<and> mIP ?m = [] \<and> mGeosite ?m = [] \<and> mDomain ?m = [] \<longleftrightarrow> wantedNets cip db ?m = {} \<and> wantedDomains csite db ?m = {}"
    using e2 e3 e4 e5 by (cases "mGeoIP ?m"; cases "mIP ?m"; cases "mGeosite ?m"; cases "mDomain ?m") (auto simp: wantedNets_def wantedDomains_def)
  have "r = r5\<lparr>ipv4 := normalizeIngressPrefixes (ipv4 r5), ipv6 := normalizeIngressPrefixes (ipv6 r5),
           source4 := normalizeIngressPrefixes (source4 r5), source6 := normalizeIngressPrefixes (source6 r5)\<rparr>" "iDomains r = [] \<or> ipv4 r = [] \<and> ipv6 r = []"
    using g by (auto simp: g_def Let_def split: if_splits)
  then show thesis using that [OF act ports gr [unfolded r0_def] s d] by blast
qed

lemma grows_matches:
  assumes "grows A B C r0 r5" "ipv4 r0 = []" "ipv6 r0 = []" "iDomains r0 = []" "source4 r0 = []" "source6 r0 = []"
  shows "source4 r5 = [] \<and> source6 r5 = [] \<longleftrightarrow> C = {}" "anyContains (source4 r5 @ source6 r5) a \<longleftrightarrow> (\<exists>p \<in> C. prefix_contains p a)"
    "hasDest r5 \<longleftrightarrow> A \<noteq> {} \<or> B \<noteq> {}" "anyContains (ipv4 r5 @ ipv6 r5) a \<longleftrightarrow> (\<exists>p \<in> A. prefix_contains p a)" "set (iDomains r5) = B" "famOK r5"
proof -
  have g: "set (ipv4 r5) \<union> set (ipv6 r5) = A" "set (iDomains r5) = B" "set (source4 r5) \<union> set (source6 r5) = C" "famOK r5"
    using assms by (auto simp: grows_def famOK_def)
  show "source4 r5 = [] \<and> source6 r5 = [] \<longleftrightarrow> C = {}" "anyContains (source4 r5 @ source6 r5) a \<longleftrightarrow> (\<exists>p \<in> C. prefix_contains p a)" using g(3) by (auto simp: anyContains_set)
  show "hasDest r5 \<longleftrightarrow> A \<noteq> {} \<or> B \<noteq> {}" using g(1,2) by (auto simp: hasDest_def)
  show "anyContains (ipv4 r5 @ ipv6 r5) a \<longleftrightarrow> (\<exists>p \<in> A. prefix_contains p a)" using g(1) by (auto simp: anyContains_set)
qed (use assms in \<open>auto simp: grows_def famOK_def\<close>)

lemma buildRule_meaning:
  assumes "buildRule cip csite db tunnel n l = GoOk r"
  shows "iIndex r = n" "ruleOK r" "iAction r = tagAction (OutboundTag l)" "ruleMatches resolved f r = wanted cip csite db resolved f l"
proof -
  let ?m = "ruleMatch l" and ?N = normalizeIngressPrefixes
  obtain act ports r5 where b: "actionOf tunnel (OutboundTag l) = GoOk act" "parseIngressPorts (mPort ?m) = GoOk ports"
    "grows (wantedNets cip db ?m) (wantedDomains csite db ?m) (\<Union>raw \<in> set (mSource ?m). {p. parseIngressPrefix raw = GoOk p})
       \<lparr>iIndex = n, iAction = act, ipv4 = [], ipv6 = [], iDomains = [], source4 = [], source6 = [], iNetwork = to_lower (trim_space (mNetwork ?m)), iPorts = ports\<rparr> r5"
    "mSource ?m = [] \<longleftrightarrow> (\<Union>raw \<in> set (mSource ?m). {p. parseIngressPrefix raw = GoOk p}) = {}"
    "mGeoIP ?m = [] \<and> mIP ?m = [] \<and> mGeosite ?m = [] \<and> mDomain ?m = [] \<longleftrightarrow> wantedNets cip db ?m = {} \<and> wantedDomains csite db ?m = {}"
    "r = r5\<lparr>ipv4 := ?N (ipv4 r5), ipv6 := ?N (ipv6 r5), source4 := ?N (source4 r5), source6 := ?N (source6 r5)\<rparr>"
    "iDomains r = [] \<or> ipv4 r = [] \<and> ipv6 r = []"
    by (rule buildRule_loops [OF assms])
  have fr: "iIndex r5 = n" "iAction r5 = act" "iNetwork r5 = to_lower (trim_space (mNetwork ?m))" "iPorts r5 = ports" using b(3) by (simp_all add: grows_def)
  let ?C = "\<Union>raw \<in> set (mSource ?m). {p. parseIngressPrefix raw = GoOk p}"
  have g: "source4 r5 = [] \<and> source6 r5 = [] \<longleftrightarrow> ?C = {}" "anyContains (source4 r5 @ source6 r5) a \<longleftrightarrow> (\<exists>p \<in> ?C. prefix_contains p a)"
    "hasDest r5 \<longleftrightarrow> wantedNets cip db ?m \<noteq> {} \<or> wantedDomains csite db ?m \<noteq> {}"
    "anyContains (ipv4 r5 @ ipv6 r5) a \<longleftrightarrow> (\<exists>p \<in> wantedNets cip db ?m. prefix_contains p a)" "set (iDomains r5) = wantedDomains csite db ?m" "famOK r5" for a
    by (rule grows_matches [OF b(3)]; simp)+
  show "iIndex r = n" using b(6) fr by simp
  show "iAction r = tagAction (OutboundTag l)" using b(1,6) fr(2) by (auto simp: actionOf_def tagAction_def Let_def split: if_splits)
  have "\<forall>p \<in> set (?N (ipv4 r5)). is4 p = True" "\<forall>p \<in> set (?N (source4 r5)). is4 p = True" "\<forall>p \<in> set (?N (ipv6 r5)). is4 p = False" "\<forall>p \<in> set (?N (source6 r5)). is4 p = False"
    using g(6) by (intro normalize_is4; auto simp: famOK_def)+
  then show "ruleOK r" using b(6,7) by (auto simp: ruleOK_def)
  have c: "anyContains (?N xs @ ?N ys) a \<longleftrightarrow> anyContains (xs @ ys) a" for xs ys a
    using normalize_contains [of xs a] normalize_contains [of ys a] by (auto simp: anyContains_set)
  have src: "(source4 r = [] \<and> source6 r = [] \<or> anyContains (source4 r @ source6 r) (fSrc f)) \<longleftrightarrow>
      (mSource ?m = [] \<or> (\<exists>raw \<in> set (mSource ?m). \<exists>p. parseIngressPrefix raw = GoOk p \<and> prefix_contains p (fSrc f)))"
  proof -
    have "source4 r = [] \<and> source6 r = [] \<longleftrightarrow> mSource ?m = []" unfolding b(4) g(1) [symmetric] b(6) by simp
    moreover have "anyContains (source4 r @ source6 r) (fSrc f) \<longleftrightarrow> (\<exists>p \<in> ?C. prefix_contains p (fSrc f))" unfolding g(2) [symmetric] b(6) by (simp add: c)
    ultimately show ?thesis by blast
  qed
  have dst: "(\<not> hasDest r \<or> (\<exists>d \<in> set (iDomains r). resolved d (fDst f)) \<or> anyContains (ipv4 r @ ipv6 r) (fDst f)) \<longleftrightarrow>
      (mGeoIP ?m = [] \<and> mIP ?m = [] \<and> mGeosite ?m = [] \<and> mDomain ?m = [] \<or> (\<exists>p \<in> wantedNets cip db ?m. prefix_contains p (fDst f)) \<or>
       (\<exists>d \<in> wantedDomains csite db ?m. resolved d (fDst f)))"
  proof -
    have "hasDest r \<longleftrightarrow> hasDest r5" "set (iDomains r) = wantedDomains csite db ?m" using b(6) g(5) by (simp_all add: hasDest_def)
    moreover have "anyContains (ipv4 r @ ipv6 r) (fDst f) \<longleftrightarrow> (\<exists>p \<in> wantedNets cip db ?m. prefix_contains p (fDst f))" unfolding g(4) [symmetric] b(6) by (simp add: c)
    ultimately show ?thesis unfolding b(5) using g(3) by blast
  qed
  have "iNetwork r = to_lower (trim_space (mNetwork ?m))" "iPorts r = ports" using b(6) fr by simp_all
  then show "ruleMatches resolved f r = wanted cip csite db resolved f l"
    unfolding ruleMatches_def wanted_def Let_def src dst using b(2) by simp
qed

definition polOK :: "ingressPolicy \<Rightarrow> bool" where
  "polOK pol \<longleftrightarrow> map iIndex (pRules pol) = [0..<length (pRules pol)] \<and> (\<forall>r \<in> set (pRules pol). ruleOK r)"

lemma set_appendUniqueDomains: "set (appendUniqueDomains dst src) = set dst \<union> set src"
  unfolding appendUniqueDomains_def by (induction src arbitrary: dst) auto

lemma merged_matches:
  assumes "mergeableDomainRules a b"
  shows "ruleMatches resolved f (a\<lparr>iDomains := appendUniqueDomains (iDomains a) (iDomains b)\<rparr>) \<longleftrightarrow> ruleMatches resolved f a \<or> ruleMatches resolved f b"
proof -
  have "appendUniqueDomains (iDomains a) (iDomains b) \<noteq> []"
    using assms set_appendUniqueDomains [of "iDomains a" "iDomains b"] by (auto simp: mergeableDomainRules_def)
  then show ?thesis using assms by (auto simp: ruleMatches_def mergeableDomainRules_def hasDest_def set_appendUniqueDomains anyContains_def)
qed

lemma addRule_meaning:
  assumes "addRule r out = GoOk out'" "polOK out" "ruleOK r" "iIndex r = length (pRules out)"
  shows "polOK out'" "tunnelTag out' = tunnelTag out" "decide resolved f (pRules out') = decide resolved f (pRules out @ [r])"
proof -
  have "polOK out' \<and> tunnelTag out' = tunnelTag out \<and> decide resolved f (pRules out') = decide resolved f (pRules out @ [r])"
  proof (cases "length (iDomains r) > 0 \<and> length (pRules out) > 0 \<and> mergeableDomainRules (last (pRules out)) r")
    case True
    define q where "q = last (pRules out)"
    have p: "pRules out = butlast (pRules out) @ [q]" using True by (simp add: q_def)
    let ?q = "q\<lparr>iDomains := appendUniqueDomains (iDomains q) (iDomains r)\<rparr>"
    have o: "out' = out\<lparr>pRules := butlast (pRules out) @ [?q]\<rparr>" using assms(1) True by (simp add: addRule_def q_def)
    have m: "mergeableDomainRules q r" using True by (simp add: q_def)
    have "ruleOK q" using assms(2) p unfolding polOK_def by (metis in_set_conv_decomp)
    then have "ruleOK ?q" using m by (auto simp: ruleOK_def mergeableDomainRules_def)
    moreover have "map iIndex (butlast (pRules out) @ [?q]) = map iIndex (pRules out)" by (subst (2) p) simp
    moreover have "\<forall>x \<in> set (butlast (pRules out)). ruleOK x" using assms(2) by (auto simp: polOK_def dest: in_set_butlastD)
    ultimately have "polOK out'" using assms(2) True unfolding polOK_def o by (simp add: Suc_diff_1)
    moreover have "decide resolved f [?q] = decide resolved f [q, r]"
      using merged_matches [OF m, of resolved f] m by (simp add: decide_def mergeableDomainRules_def)
    then have "decide resolved f (pRules out') = decide resolved f (pRules out @ [r])"
      unfolding o using decide_app [of resolved f "butlast (pRules out)" "[?q]"] decide_app [of resolved f "butlast (pRules out)" "[q, r]"] p by simp (metis append_Cons append_Nil append_assoc)
    ultimately show ?thesis using o by simp
  next
    case False
    then have "pRules out' = pRules out @ [r]" "tunnelTag out' = tunnelTag out" using assms(1) by (auto simp: addRule_def Let_def split: if_splits)
    then show ?thesis using assms(2-4) by (simp add: polOK_def)
  qed
  then show "polOK out'" "tunnelTag out' = tunnelTag out" "decide resolved f (pRules out') = decide resolved f (pRules out @ [r])" by simp_all
qed

definition ruleFor :: "(string \<times> prefix list) list \<Rightarrow> (string \<times> DomainRule list) list \<Rightarrow> GeoDB option \<Rightarrow> (string \<Rightarrow> addr \<Rightarrow> bool) \<Rightarrow> string \<Rightarrow> Loaded list \<Rightarrow> flow \<Rightarrow> ingressAction option" where
  "ruleFor cip csite db resolved user ls f =
     map_option (\<lambda>l. tagAction (OutboundTag l)) (find (\<lambda>l. concerns user l \<and> wanted cip csite db resolved f l) ls)"

lemma build_meaning:
  "each (buildStep cip csite db user) ls out = GoOk out' \<Longrightarrow> polOK out \<Longrightarrow>
     polOK out' \<and> decide resolved f (pRules out') = (case decide resolved f (pRules out) of Some a \<Rightarrow> Some a | None \<Rightarrow> ruleFor cip csite db resolved user ls f)"
proof (induction ls arbitrary: out)
  case Nil
  then show ?case by (simp add: ruleFor_def split: option.split)
next
  case (Cons l ls)
  obtain o1 where o1: "buildStep cip csite db user l out = GoOk o1" "each (buildStep cip csite db user) ls o1 = GoOk out'"
    using Cons.prems(1) by (cases "buildStep cip csite db user l out") auto
  show ?case
  proof (cases "concerns user l")
    case False
    then have "o1 = out" using o1(1) by (simp add: buildStep_def)
    moreover have "ruleFor cip csite db resolved user (l # ls) f = ruleFor cip csite db resolved user ls f" using False by (simp add: ruleFor_def)
    ultimately show ?thesis using Cons.IH [OF o1(2)] Cons.prems(2) by (simp add: option.case_eq_if)
  next
    case True
    obtain r where r: "buildRule cip csite db (tunnelTag out) (length (pRules out)) l = GoOk r" "addRule r out = GoOk o1"
      using o1(1) True by (cases "buildRule cip csite db (tunnelTag out) (length (pRules out)) l") (auto simp: buildStep_def)
    note m = buildRule_meaning [OF r(1)] and a = addRule_meaning [OF r(2) Cons.prems(2)]
    have "decide resolved f (pRules o1) = (case decide resolved f (pRules out) of Some a \<Rightarrow> Some a | None \<Rightarrow> decide resolved f [r])"
      using a(3) [OF m(2,1)] by (simp add: decide_app)
    moreover have "decide resolved f [r] = (if wanted cip csite db resolved f l then Some (tagAction (OutboundTag l)) else None)" using m(3,4) by (simp add: decide_def)
    ultimately show ?thesis using Cons.IH [OF o1(2) a(1) [OF m(2,1)]] True by (auto simp: ruleFor_def split: option.splits)
  qed
qed

lemma dual_stack_sources_vanish: "hasDest r \<Longrightarrow> source4 r \<noteq> [] \<Longrightarrow> source6 r \<noteq> [] \<Longrightarrow> nftRuleLines r = []"
  by (simp add: nftRuleLines_dest)

text \<open>A rule that blocks a network for some hosts of the local network, and a packet it concerns.\<close>

definition lanSnap :: "string list \<Rightarrow> Snapshot" where
  "lanSnap srcs = \<lparr>snapDispatcher = None, snapDefaultTag = [],
     snapRules = [\<lparr>Priority = 1, OutboundTag = ''block'', ruleMatch = emptyMatch\<lparr>mSource := srcs, mIP := [''203.0.113.0/24'']\<rparr>\<rparr>]\<rparr>"

definition lanFlow :: flow where
  "lanFlow = \<lparr>fromLAN = True, toRouter = False, fProto = ''tcp'', fSrc = V4 0xC0A80105, fDst = V4 0xCB007107, fPort = 443, fBypass = False\<rparr>"

lemma lan_ordinary: "ordinary lanFlow"
  by (simp add: ordinary_def lanFlow_def v4_def)

lemma lan_policy_one:
  "case buildIngressPolicy [] [] None (Some (lanSnap [''192.168.1.5''])) ''u'' of GoOk pol \<Rightarrow> list_all oneFamily (pRules pol) | _ \<Rightarrow> False"
  by code_simp

lemma lan_policy_two:
  "case buildIngressPolicy [] [] None (Some (lanSnap [''192.168.1.5'', ''fd00::5''])) ''u'' of GoOk pol \<Rightarrow> classify (\<lambda>_ _. False) [] pol lanFlow = None | _ \<Rightarrow> False"
  by code_simp

lemma lan_wanted:
  assumes "''192.168.1.5'' \<in> set srcs"
  shows "ruleFor [] [] None (\<lambda>_ _. False) ''u'' (snapRules (lanSnap srcs)) lanFlow = Some ingressBlock"
proof -
  have p: "parseIngressPrefix ''192.168.1.5'' = GoOk (V4 0xC0A80105, 32)" "parseIngressPrefix ''203.0.113.0/24'' = GoOk (V4 0xCB007100, 24)"
    "geoToken ''203.0.113.0/24'' ''geoip'' = None" "to_lower (trim_space []) = []" "parseIngressPorts [] = GoOk []" "tagAction ''block'' = ingressBlock"
    by code_simp+
  let ?m = "emptyMatch\<lparr>mSource := srcs, mIP := [''203.0.113.0/24'']\<rparr>"
  have c: "prefix_contains (V4 0xC0A80105, 32) (fSrc lanFlow)" "prefix_contains (V4 0xCB007100, 24) (fDst lanFlow)" by code_simp+
  have "\<exists>raw \<in> set srcs. \<exists>q. parseIngressPrefix raw = GoOk q \<and> prefix_contains q (fSrc lanFlow)" using assms p(1) c(1) by blast
  moreover have "(V4 0xCB007100, 24) \<in> wantedNets [] None ?m" using p(2,3) by (simp add: wantedNets_def ipEntryNets_def)
  then have "\<exists>q \<in> wantedNets [] None ?m. prefix_contains q (fDst lanFlow)" using c(2) by blast
  moreover have "protoOK [] (fProto lanFlow)" by (simp add: protoOK_def lanFlow_def)
  ultimately have "wanted [] [] None (\<lambda>_ _. False) lanFlow (hd (snapRules (lanSnap srcs)))"
    unfolding wanted_def Let_def using p(4,5) by (simp add: lanSnap_def) (simp add: emptyMatch_def)
  then show ?thesis using p(6) by (simp add: ruleFor_def lanSnap_def concerns_def listAllows_def emptyMatch_def)
qed




end
