(* ===== verification/MasqueradeLimiter.thy ===== *)
theory MasqueradeLimiter
  imports Prelude
begin

text \<open>
  pkg/tamizdat/masquerade_ratelimit.go: the probabilistic sliding-window limit on masquerade
  forwards per source address. Clock readings and the eight random bytes of a draw are arguments
  (\<open>None\<close>: \<open>rand.Read\<close> fails). \<open>dropDraw\<close> computes its threshold in \<open>float64\<close>; the model takes the
  exact quotient. The reference semantics at the end counts every probe of the last minute.
\<close>

definition masqueradeWindowDuration :: nanos where "masqueradeWindowDuration = 60 * second"
definition masqueradeSoftThreshold :: nat where "masqueradeSoftThreshold = 5"
definition masqueradeHardCap :: nat where "masqueradeHardCap = 10"
definition masqueradeJitterMin :: nanos where "masqueradeJitterMin = 200 * millisecond"
definition masqueradeJitterMax :: nanos where "masqueradeJitterMax = 800 * millisecond"
definition masqueradeBucketTTL :: nanos where "masqueradeBucketTTL = 5 * minute"
definition masqueradeMaxProbes :: nat where "masqueradeMaxProbes = 2 * masqueradeHardCap"

datatype RateLimitDecision = RateLimitForward | RateLimitDropAfterJitter

type_synonym masqueradeRateLimiter = "(string \<times> nanos list) list"

definition dropDraw :: "bytes option \<Rightarrow> nat \<Rightarrow> nat \<Rightarrow> bool" where
  "dropDraw rnd num den =
    (if den = 0 then False else if num = 0 then False else if num \<ge> den then True
     else case rnd of None \<Rightarrow> False
       | Some b \<Rightarrow> (let threshold = num * 2 ^ 64 div den in unat (be64 b) < threshold))"

definition jitterDelay :: "bytes option \<Rightarrow> nanos" where
  "jitterDelay rnd =
    (let span = masqueradeJitterMax - masqueradeJitterMin in
     if span = 0 then masqueradeJitterMin
     else case rnd of None \<Rightarrow> masqueradeJitterMin + span div 2
       | Some b \<Rightarrow> masqueradeJitterMin + uint (be64 b) mod span)"

definition decision_of :: "bytes option \<Rightarrow> nat \<Rightarrow> RateLimitDecision" where
  "decision_of rnd count =
    (if count \<le> masqueradeSoftThreshold then RateLimitForward
     else if count \<le> masqueradeHardCap then
       if dropDraw rnd (count - masqueradeSoftThreshold) (masqueradeHardCap - masqueradeSoftThreshold)
       then RateLimitDropAfterJitter else RateLimitForward
     else RateLimitDropAfterJitter)"

definition record_probe :: "nanos \<Rightarrow> nanos list \<Rightarrow> nanos list" where
  "record_probe now probes =
    (let cutoff = now - masqueradeWindowDuration;
         w = dropWhile (\<lambda>p. p < cutoff) probes;
         w = (if length w \<ge> masqueradeMaxProbes then drop (length w - masqueradeMaxProbes + 1) w else w) in
     w @ [now])"

definition decide :: "nanos \<Rightarrow> bytes option \<Rightarrow> string \<Rightarrow> masqueradeRateLimiter \<Rightarrow> masqueradeRateLimiter \<times> RateLimitDecision" where
  "decide now rnd ip rl =
    (let w = record_probe now (case map_of rl ip of None \<Rightarrow> [] | Some w \<Rightarrow> w) in
     (AList.update ip w rl, decision_of rnd (length w)))"

definition decide_opt where
  "decide_opt now rnd ip rl = (case rl of None \<Rightarrow> (None, RateLimitForward)
     | Some rl \<Rightarrow> (let (rl', d) = decide now rnd ip rl in (Some rl', d)))"

definition allow :: "nanos \<Rightarrow> bytes option \<Rightarrow> string \<Rightarrow> masqueradeRateLimiter \<Rightarrow> masqueradeRateLimiter \<times> bool" where
  "allow now rnd ip rl = (let (rl', d) = decide now rnd ip rl in (rl', d = RateLimitForward))"

definition reapExpiredBuckets :: "nanos \<Rightarrow> masqueradeRateLimiter \<Rightarrow> masqueradeRateLimiter" where
  "reapExpiredBuckets now rl =
    filter (\<lambda>(ip, w). \<not> (length w = 0 \<or> last w < now - masqueradeBucketTTL)) rl"

section \<open>Reference semantics\<close>

datatype limiterOp = Probe nanos "bytes option" string | Reap nanos

fun op_time :: "limiterOp \<Rightarrow> nanos" where
  "op_time (Probe t _ _) = t"
| "op_time (Reap t) = t"

primrec run_limiter :: "limiterOp list \<Rightarrow> masqueradeRateLimiter \<Rightarrow> RateLimitDecision list" where
  "run_limiter [] rl = []"
| "run_limiter (oper # ops) rl =
    (case oper of
       Probe now rnd ip \<Rightarrow> (let (rl', d) = decide now rnd ip rl in d # run_limiter ops rl')
     | Reap now \<Rightarrow> run_limiter ops (reapExpiredBuckets now rl))"

text \<open>Every probe ever made from \<open>ip\<close> is remembered; the decision depends on how many fall in the
  last window, the current one included.\<close>

primrec run_reference :: "limiterOp list \<Rightarrow> (string \<Rightarrow> nanos list) \<Rightarrow> RateLimitDecision list" where
  "run_reference [] H = []"
| "run_reference (oper # ops) H =
    (case oper of
       Probe now rnd ip \<Rightarrow>
         decision_of rnd (length (filter (\<lambda>t. now - masqueradeWindowDuration \<le> t) (H ip)) + 1)
           # run_reference ops (H(ip := H ip @ [now]))
     | Reap now \<Rightarrow> run_reference ops H)"

lemmas masq_consts = masqueradeWindowDuration_def masqueradeSoftThreshold_def masqueradeHardCap_def
  masqueradeMaxProbes_def masqueradeBucketTTL_def second_def minute_def

text \<open>The stored probes \<open>P\<close> of an address against its full history \<open>H\<close>.\<close>

definition covers :: "nanos \<Rightarrow> nanos list \<Rightarrow> nanos list \<Rightarrow> bool" where
  "covers now H P = (sorted H \<and> (\<forall>t \<in> set H. t \<le> now) \<and>
     (\<exists>D. H = D @ P \<and> ((\<forall>d \<in> set D. d < now - masqueradeWindowDuration) \<or> masqueradeMaxProbes \<le> length P)))"

lemma covers_later: "covers now H P \<Longrightarrow> now \<le> t \<Longrightarrow> covers t H P"
  by (fastforce simp: covers_def)

lemma sorted_dropWhile_filter:
  "sorted P \<Longrightarrow> dropWhile (\<lambda>p. p < c) P = filter (\<lambda>p. c \<le> p) P" for c :: int
proof (induction P)
  case (Cons a P)
  then show ?case
    by (cases "a < c") (auto intro!: filter_True [symmetric])
qed simp

lemma covers_probe:
  assumes "covers now H P"
  defines "n \<equiv> length (filter (\<lambda>t. now - masqueradeWindowDuration \<le> t) H)"
  shows "covers now (H @ [now]) (record_probe now P) \<and>
    (length (record_probe now P) = n + 1 \<or> masqueradeHardCap < length (record_probe now P) \<and> masqueradeHardCap < n + 1)"
proof -
  let ?c = "now - masqueradeWindowDuration"
  obtain D where D: "H = D @ P" "(\<forall>d \<in> set D. d < ?c) \<or> masqueradeMaxProbes \<le> length P"
      and s: "sorted H" "\<forall>t \<in> set H. t \<le> now"
    using assms(1) by (auto simp: covers_def)
  define Q where "Q = dropWhile (\<lambda>p. p < ?c) P"
  have Q: "Q = filter (\<lambda>p. ?c \<le> p) P"
    using s(1) D(1) by (simp add: Q_def sorted_dropWhile_filter sorted_append)
  define R where "R = (if length Q \<ge> masqueradeMaxProbes then drop (length Q - masqueradeMaxProbes + 1) Q else Q)"
  have rp: "record_probe now P = R @ [now]"
    by (simp add: record_probe_def Q_def R_def Let_def)
  obtain E where E: "P = E @ Q" "\<forall>e \<in> set E. e < ?c"
    using takeWhile_dropWhile_id [of "\<lambda>p. p < ?c" P] set_takeWhileD unfolding Q_def by metis
  have n: "n = length (filter (\<lambda>t. ?c \<le> t) D) + length Q"
    by (simp add: n_def D(1) Q)
  have big: "masqueradeMaxProbes \<le> length Q" if "\<not> (\<forall>d \<in> set D. d < ?c)"
  proof -
    have "E = []"
      using that s(1) D(1) E by (cases E) (force simp: sorted_append)+
    then show ?thesis
      using that D(2) E(1) by auto
  qed
  obtain Q0 where Q0: "Q = Q0 @ R"
    unfolding R_def by (metis append_Nil append_take_drop_id)
  then have split: "H @ [now] = (D @ E @ Q0) @ (R @ [now])"
    by (simp add: D(1) E(1))
  have sorted': "sorted (H @ [now])" "\<forall>t \<in> set (H @ [now]). t \<le> now"
    using s by (auto simp: sorted_append)
  show ?thesis
  proof (cases "masqueradeMaxProbes \<le> length Q")
    case True
    then have R: "length (R @ [now]) = masqueradeMaxProbes"
      by (simp add: R_def masq_consts)
    then have "covers now (H @ [now]) (R @ [now])"
      unfolding covers_def using split sorted' by (intro conjI exI [of _ "D @ E @ Q0"]) auto
    then show ?thesis
      using True R n by (simp add: rp masq_consts)
  next
    case False
    then have small: "\<forall>d \<in> set D. d < ?c" and R: "R = Q"
      using big by (auto simp: R_def)
    then have "covers now (H @ [now]) (R @ [now])"
      unfolding covers_def using split sorted' E(2) Q0 by (intro conjI exI [of _ "D @ E"]) auto
    moreover have "filter (\<lambda>t. ?c \<le> t) D = []"
      using small by (auto simp: filter_empty_conv)
    ultimately show ?thesis
      using n R by (simp add: rp)
  qed
qed

lemma covers_reap:
  assumes "covers now H P" and "P = [] \<or> last P < now - masqueradeBucketTTL"
  shows "covers now H []"
proof -
  obtain D where D: "H = D @ P" "(\<forall>d \<in> set D. d < now - masqueradeWindowDuration) \<or> masqueradeMaxProbes \<le> length P"
      and s: "sorted H" "\<forall>t \<in> set H. t \<le> now"
    using assms(1) by (auto simp: covers_def)
  have "t < now - masqueradeWindowDuration" if "t \<in> set H" for t
  proof (cases "P = []")
    case True
    then show ?thesis
      using that D by (auto simp: masq_consts)
  next
    case False
    have "t \<le> last P"
    proof -
      have "H = (D @ butlast P) @ [last P]"
        using False D(1) by simp
      then show ?thesis
        using that s(1) by (metis Un_iff order_refl set_append set_ConsD empty_iff empty_set sorted_append list.set_intros(1))
    qed
    then show ?thesis
      using assms(2) False by (simp add: masq_consts)
  qed
  then show ?thesis
    using s by (auto simp: covers_def)
qed

definition agrees :: "nanos \<Rightarrow> (string \<Rightarrow> nanos list) \<Rightarrow> masqueradeRateLimiter \<Rightarrow> bool" where
  "agrees now H rl = (distinct (map fst rl) \<and>
     (\<forall>ip. covers now (H ip) (case map_of rl ip of None \<Rightarrow> [] | Some w \<Rightarrow> w)))"

lemma map_of_reap:
  "distinct (map fst rl) \<Longrightarrow> map_of (reapExpiredBuckets now rl) ip =
    (case map_of rl ip of None \<Rightarrow> None
     | Some w \<Rightarrow> if length w = 0 \<or> last w < now - masqueradeBucketTTL then None else Some w)"
proof (induction rl)
  case (Cons p rl)
  obtain j w where p: "p = (j, w)" by (cases p)
  have "map_of rl j = None"
    using Cons.prems p by (simp add: map_of_eq_None_iff)
  then show ?case
    using Cons p by (auto simp: reapExpiredBuckets_def)
qed (simp add: reapExpiredBuckets_def)

lemma run_agrees:
  assumes "agrees now H rl" and "sorted (map op_time ops)" and "\<forall>oper \<in> set ops. now \<le> op_time oper"
  shows "run_limiter ops rl = run_reference ops H"
  using assms
proof (induction ops arbitrary: now H rl)
  case (Cons oper ops)
  show ?case
  proof (cases oper)
    case (Probe t rnd ip)
    let ?P = "case map_of rl ip of None \<Rightarrow> [] | Some w \<Rightarrow> w"
    have c: "covers t (H ip) ?P"
      using Cons.prems(1,3) Probe by (auto simp: agrees_def intro: covers_later)
    note cp = covers_probe [OF c]
    have "agrees t (H(ip := H ip @ [t])) (AList.update ip (record_probe t ?P) rl)"
      using Cons.prems(1,3) Probe cp
      by (auto simp: agrees_def map_of_update_alist distinct_update intro: covers_later)
    moreover have "decision_of rnd (length (record_probe t ?P)) =
        decision_of rnd (length (filter (\<lambda>x. t - masqueradeWindowDuration \<le> x) (H ip)) + 1)"
      using cp by (auto simp: decision_of_def masq_consts)
    moreover have "sorted (map op_time ops)" "\<forall>x \<in> set ops. t \<le> op_time x"
      using Cons.prems(2) Probe by auto
    ultimately show ?thesis
      using Cons.IH Probe by (simp add: decide_def Let_def del: fun_upd_apply)
  next
    case (Reap t)
    have "covers t (H ip) (case map_of (reapExpiredBuckets t rl) ip of None \<Rightarrow> [] | Some w \<Rightarrow> w)" for ip
    proof -
      have "covers t (H ip) (case map_of rl ip of None \<Rightarrow> [] | Some w \<Rightarrow> w)"
        using Cons.prems(1,3) Reap by (auto simp: agrees_def intro: covers_later)
      then show ?thesis
        using Cons.prems(1) covers_reap [of t "H ip"] by (cases "map_of rl ip") (auto simp: agrees_def map_of_reap)
    qed
    moreover have "distinct (map fst (reapExpiredBuckets t rl))"
      using Cons.prems(1) by (simp add: agrees_def reapExpiredBuckets_def distinct_map_filter)
    ultimately have "agrees t H (reapExpiredBuckets t rl)"
      by (simp add: agrees_def)
    then show ?thesis
      using Reap Cons.IH Cons.prems(2) by simp
  qed
qed simp

section \<open>Properties\<close>

text \<open>C24. Capping the stored probes at twenty per address and reaping idle addresses never changes a
  decision: for any sequence of probes and reaper runs in non-decreasing time order, the limiter
  answers exactly as the reference that remembers every probe and counts those of the last
  minute.\<close>

theorem masquerade_limiter_equals_reference:
  assumes "sorted (map op_time ops)"
  shows "run_limiter ops [] = run_reference ops (\<lambda>_. [])"
proof (cases ops)
  case (Cons oper ops')
  have "agrees (op_time oper) (\<lambda>_. []) []"
    by (simp add: agrees_def covers_def)
  then show ?thesis
    by (rule run_agrees) (use assms Cons in auto)
qed simp

theorem masquerade_limiter_equals_reference_witness:
  "run_limiter [Probe 1 None ''a'', Reap 2, Probe 3 None ''a''] [] =
   run_reference [Probe 1 None ''a'', Reap 2, Probe 3 None ''a''] (\<lambda>_. [])"
  using masquerade_limiter_equals_reference [of "[Probe 1 None ''a'', Reap 2, Probe 3 None ''a'']"] by simp

text \<open>A decision keeps at most twenty timestamps for the address, up to five probes in a minute
  are always forwarded, the tenth and every later one is dropped, and a dropped connection is
  held for at least 200 and at most 800 milliseconds.\<close>

lemma masquerade_limiter_bounds:
  "length (record_probe now ps) \<le> 20 \<and>
   (n \<le> 5 \<longrightarrow> decision_of rnd n = RateLimitForward) \<and>
   (10 \<le> n \<longrightarrow> decision_of rnd n = RateLimitDropAfterJitter) \<and>
   200 * millisecond \<le> jitterDelay rnd \<and> jitterDelay rnd \<le> 800 * millisecond"
proof -
  have "length (record_probe now ps) \<le> 20"
    by (auto simp: record_probe_def masq_consts Let_def)
  moreover have "decision_of rnd n = RateLimitDropAfterJitter" if "10 \<le> n"
    using that by (auto simp: decision_of_def dropDraw_def masq_consts)
  moreover have "200 * millisecond \<le> jitterDelay rnd \<and> jitterDelay rnd \<le> 800 * millisecond"
  proof (cases rnd)
    case (Some b)
    have "0 \<le> uint (be64 b) mod 600000000 \<and> uint (be64 b) mod 600000000 < 600000000"
      by simp
    then show ?thesis
      using Some by (simp add: jitterDelay_def masqueradeJitterMin_def masqueradeJitterMax_def millisecond_def)
  qed (simp add: jitterDelay_def masqueradeJitterMin_def masqueradeJitterMax_def millisecond_def)
  ultimately show ?thesis
    by (simp add: decision_of_def masq_consts)
qed

lemma masquerade_limiter_bounds_witness:
  "decision_of None 5 = RateLimitForward \<and> decision_of None 10 = RateLimitDropAfterJitter"
  using masquerade_limiter_bounds [of 0 "[]" 5 None] masquerade_limiter_bounds [of 0 "[]" 10 None] by simp

end
