(* ===== verification/ProxyProto.thy ===== *)
theory ProxyProto
  imports NetIP
begin

text \<open>
  internal/proxyproto/proxyproto.go and its use at the start of \<open>handleConnection\<close> in
  pkg/tamizdat/server.go: the PROXY protocol header that a trusted front end puts before the bytes of the
  client. A connection is the list of bytes it delivers before it ends; a reader returned with a result is
  what is left of that list. Deadlines are not modelled, and white space is that of ASCII.
\<close>

datatype proxyError = ErrNotPROXY | ErrMalformed string | ErrIO

type_synonym tcpAddr = "bytes \<times> int"

definition v2Signature :: bytes where
  "v2Signature = [0x0D, 0x0A, 0x0D, 0x0A, 0x00, 0x0D, 0x0A, 0x51, 0x55, 0x49, 0x54, 0x0A]"

definition v1Prefix :: string where "v1Prefix = ''PROXY ''"

definition MaxHeaderSize :: nat where "MaxHeaderSize = 536"

section \<open>Version 2\<close>

definition be16_at :: "bytes \<Rightarrow> nat \<Rightarrow> (proxyError, int) gores" where
  "be16_at bs i = go_bind (idx bs i) (\<lambda>h. go_bind (idx bs (i + 1)) (\<lambda>l. GoOk (int (be16 h l))))"

text \<open>The address block of a PROXY command.\<close>

definition v2Address :: "byte \<Rightarrow> bytes \<Rightarrow> (proxyError, tcpAddr option) gores" where
  "v2Address family addrBuf =
    (if family = 1 then
       if length addrBuf < 12 then GoErr (ErrMalformed ''v2 INET addr too short'')
       else go_bind (subslice addrBuf 0 4) (\<lambda>srcIP. go_bind (be16_at addrBuf 8) (\<lambda>srcPort. GoOk (Some (srcIP, srcPort))))
     else if family = 2 then
       if length addrBuf < 36 then GoErr (ErrMalformed ''v2 INET6 addr too short'')
       else go_bind (subslice addrBuf 0 16) (\<lambda>srcIP. go_bind (be16_at addrBuf 32) (\<lambda>srcPort. GoOk (Some (srcIP, srcPort))))
     else if family = 3 then GoOk None
     else GoErr (ErrMalformed ''v2 unsupported family''))"

definition readV2 :: "bytes \<Rightarrow> (proxyError, tcpAddr option \<times> bytes) gores" where
  "readV2 br =
    (if length br < 16 then GoErr (ErrMalformed ''read v2 fixed header'')
     else let hdr = take 16 br; br = drop 16 br in
     go_bind (idx hdr 12) (\<lambda>versionCmd.
     if drop_bit 4 versionCmd \<noteq> 2 then GoErr (ErrMalformed ''v2 wrong version'')
     else let cmd = versionCmd AND 0x0F in
     go_bind (idx hdr 13) (\<lambda>famProto.
     let family = drop_bit 4 famProto; proto = famProto AND 0x0F in
     if cmd = 1 \<and> (family = 1 \<or> family = 2) \<and> proto \<noteq> 1 then GoErr (ErrMalformed ''v2 PROXY with non-STREAM transport'')
     else go_bind (be16_at hdr 14) (\<lambda>addrLen.
     if addrLen > int MaxHeaderSize - 16 then GoErr (ErrMalformed ''v2 addr block too large'')
     else if length br < nat addrLen then GoErr (ErrMalformed ''read v2 addr block'')
     else let addrBuf = take (nat addrLen) br; br = drop (nat addrLen) br in
     if cmd = 0 \<or> family = 0 then GoOk (None, br)
     else if cmd \<noteq> 1 then GoErr (ErrMalformed ''v2 unknown cmd'')
     else go_bind (v2Address family addrBuf) (\<lambda>real. GoOk (real, br))))))"

section \<open>Version 1\<close>

text \<open>\<open>strings.Fields\<close> and \<open>strconv.ParseUint(s, 10, 16)\<close>.\<close>

function fields :: "string \<Rightarrow> string list" where
  "fields s = (let t = dropWhile is_space s in
     if t = [] then [] else takeWhile (\<lambda>c. \<not> is_space c) t # fields (dropWhile (\<lambda>c. \<not> is_space c) t))"
  by pat_completeness auto
termination
proof (relation "measure length")
  fix s t assume t: "t = dropWhile is_space s" "t \<noteq> []"
  then have "\<not> is_space (hd t)" using hd_dropWhile by metis
  then have "dropWhile (\<lambda>c. \<not> is_space c) t = dropWhile (\<lambda>c. \<not> is_space c) (tl t)" using t(2) by (cases t) auto
  then have "length (dropWhile (\<lambda>c. \<not> is_space c) t) \<le> length (tl t)" by (simp only: length_dropWhile_le)
  also have "\<dots> < length t" using t(2) by (cases t) auto
  also have "\<dots> \<le> length s" using t(1) by (simp add: length_dropWhile_le)
  finally show "(dropWhile (\<lambda>c. \<not> is_space c) t, s) \<in> measure length" by simp
qed simp

declare fields.simps [simp del]

definition parseUint16 :: "string \<Rightarrow> int option" where
  "parseUint16 s = (if s = [] \<or> \<not> list_all is_digit s \<or> digits_value s > 65535 then None else Some (digits_value s))"

text \<open>The words after the prefix; \<open>Some None\<close> is \<open>UNKNOWN\<close>.\<close>

definition v1Fields :: "string list \<Rightarrow> (proxyError, tcpAddr option) gores" where
  "v1Fields fs =
    (case fs of
       [] \<Rightarrow> GoErr (ErrMalformed ''v1 empty body'')
     | proto # _ \<Rightarrow>
        if proto = ''UNKNOWN'' then GoOk None
        else if proto \<noteq> ''TCP4'' \<and> proto \<noteq> ''TCP6'' then GoErr (ErrMalformed ''v1 unknown proto'')
        else if length fs \<noteq> 5 then GoErr (ErrMalformed ''v1 wrong field count'')
        else go_bind (idx fs 1) (\<lambda>f1. go_bind (idx fs 2) (\<lambda>f2. go_bind (idx fs 3) (\<lambda>f3. go_bind (idx fs 4) (\<lambda>f4.
          case ParseIP16 f1 of None \<Rightarrow> GoErr (ErrMalformed ''v1 bad src IP'')
          | Some srcIP \<Rightarrow>
         (case ParseIP16 f2 of None \<Rightarrow> GoErr (ErrMalformed ''v1 bad dst IP'')
          | Some dstIP \<Rightarrow>
         (case parseUint16 f3 of None \<Rightarrow> GoErr (ErrMalformed ''v1 bad src port'')
          | Some srcPort \<Rightarrow>
         (case parseUint16 f4 of None \<Rightarrow> GoErr (ErrMalformed ''v1 bad dst port'')
          | Some _ \<Rightarrow>
             if proto = ''TCP4'' then
               (case To4 srcIP of None \<Rightarrow> GoErr (ErrMalformed ''v1 TCP4 with non-IPv4 src'')
                | Some ip4 \<Rightarrow> if To4 dstIP = None then GoErr (ErrMalformed ''v1 TCP4 with non-IPv4 dst'') else GoOk (Some (ip4, srcPort)))
             else GoOk (Some (srcIP, srcPort))))))))))"

definition readV1 :: "bytes \<Rightarrow> (proxyError, tcpAddr option \<times> bytes) gores" where
  "readV1 br =
    (if 0x0A \<notin> set (take MaxHeaderSize br) then
       GoErr (ErrMalformed (if length br \<ge> MaxHeaderSize then ''v1 line exceeds'' else ''v1 read line''))
     else let n = length (takeWhile (\<lambda>b. b \<noteq> 0x0A) br) + 1; lineStr = str_of_bytes (take n br); br = drop n br;
              crlf = [CHR 0x0D, CHR 0x0A] in
     if drop (length lineStr - 2) lineStr \<noteq> crlf then GoErr (ErrMalformed ''v1 missing CRLF terminator'')
     else let lineStr = trim_suffix lineStr crlf in
     if \<not> has_prefix lineStr v1Prefix then GoErr (ErrMalformed ''v1 missing prefix'')
     else go_bind (v1Fields (fields (drop (length v1Prefix) lineStr))) (\<lambda>real. GoOk (real, br)))"

section \<open>Reading a header, trusting the sender\<close>

definition ReadHeader :: "bytes \<Rightarrow> (proxyError, tcpAddr option \<times> bytes) gores" where
  "ReadHeader conn =
    (if length conn < length v2Signature then GoErr ErrIO
     else let sig = take (length v2Signature) conn in
     if sig = v2Signature then readV2 conn
     else if has_prefix (str_of_bytes sig) v1Prefix then readV1 conn
     else GoErr ErrNotPROXY)"

definition IsTrusted :: "bytes \<Rightarrow> IPNet list \<Rightarrow> bool" where
  "IsTrusted remote trusted = (if length trusted = 0 then False else list_ex (\<lambda>n. Contains n remote) trusted)"

primrec parseCIDRList :: "string list \<Rightarrow> (string, IPNet list) gores" where
  "parseCIDRList [] = GoOk []"
| "parseCIDRList (p0 # ps) =
    (let p = trim_space p0 in
     if p = [] then parseCIDRList ps
     else go_bind (if \<not> contains p ''/'' then
           (case ParseIP16 p of None \<Rightarrow> GoErr ''bad CIDR/IP''
            | Some ip \<Rightarrow> GoOk (if To4 ip \<noteq> None then p @ ''/32'' else p @ ''/128''))
         else GoOk p) (\<lambda>p.
       case ParseCIDR p of None \<Rightarrow> GoErr ''bad CIDR''
       | Some n \<Rightarrow> go_bind (parseCIDRList ps) (\<lambda>ns. GoOk (n # ns))))"

definition ParseCIDRs :: "string \<Rightarrow> (string, IPNet list) gores" where
  "ParseCIDRs s0 = (let s = trim_space s0 in if s = [] then GoOk [] else parseCIDRList (split_on (CHR '','') s))"

text \<open>The block of \<open>handleConnection\<close>: \<open>None\<close> closes the connection, otherwise the address that
  \<open>RemoteAddr\<close> reports from now on and the bytes still to be read.\<close>

definition stripProxyHeader :: "bool \<Rightarrow> IPNet list \<Rightarrow> tcpAddr \<Rightarrow> bytes \<Rightarrow> (tcpAddr \<times> bytes) option" where
  "stripProxyHeader ProxyProtocol trusted remote conn =
    (if \<not> ProxyProtocol then Some (remote, conn)
     else if \<not> IsTrusted (fst remote) trusted then None
     else case ReadHeader conn of
       GoOk (real, reader) \<Rightarrow> Some (case real of None \<Rightarrow> remote | Some a \<Rightarrow> a, reader)
     | GoErr _ \<Rightarrow> None
     | GoPanic \<Rightarrow> None)"

section \<open>Facts\<close>

lemma be16_at_ok: "i + 1 < length bs \<Longrightarrow> be16_at bs i = GoOk (int (be16 (bs ! i) (bs ! (i + 1))))"
  by (simp add: be16_at_def idx_in)

lemma be16_at_range: "be16_at bs i = GoOk n \<Longrightarrow> 0 \<le> n \<and> n < 65536"
  using be16_lt by (auto simp: be16_at_def idx_def split: if_splits)

definition addr_wf :: "tcpAddr \<Rightarrow> bool" where
  "addr_wf a \<longleftrightarrow> (length (fst a) = 4 \<or> length (fst a) = 16) \<and> 0 \<le> snd a \<and> snd a < 65536"

lemma v2Address_wf:
  "no_panic (v2Address family buf)" "v2Address family buf = GoOk (Some a) \<Longrightarrow> addr_wf a"
proof -
  show "no_panic (v2Address family buf)"
    unfolding v2Address_def by (simp add: subslice_in be16_at_ok)
  show "addr_wf a" if "v2Address family buf = GoOk (Some a)"
    using that be16_lt unfolding v2Address_def by (auto simp: subslice_in be16_at_ok addr_wf_def split: if_split_asm)
qed

lemma ParseIP16_len: "ParseIP16 s = Some ip \<Longrightarrow> length ip = 16"
  by (auto simp: ParseIP16_def split: option.splits addr.splits)

lemma To4_len: "To4 ip = Some b \<Longrightarrow> length b = 4"
  by (auto simp: To4_def split: if_splits)

lemma digits_value_nonneg:
  assumes "list_all is_digit s"
  shows "0 \<le> digits_value s"
proof -
  have d: "48 \<le> (of_char c :: int)" if "is_digit c" for c
  proof -
    have "(of_char c :: int) = int (of_char c)" by (rule of_nat_of_char [symmetric])
    then show ?thesis using that by (simp only: is_digit_def) linarith
  qed
  have "list_all is_digit s \<Longrightarrow> 0 \<le> v \<Longrightarrow> 0 \<le> foldl (\<lambda>v c. 10 * v + (of_char c - 48)) v s" for v :: int
  proof (induction s arbitrary: v)
    case (Cons c s)
    then show ?case using d [of c] by simp
  qed simp
  then show ?thesis using assms by (simp add: digits_value_def)
qed

lemma parseUint16_range: "parseUint16 s = Some n \<Longrightarrow> 0 \<le> n \<and> n < 65536"
  using digits_value_nonneg [of s] by (auto simp: parseUint16_def split: if_splits)

lemma v1Fields_wf: "no_panic (v1Fields fs)" "v1Fields fs = GoOk (Some a) \<Longrightarrow> addr_wf a"
proof -
  show "no_panic (v1Fields fs)"
    unfolding v1Fields_def by (auto simp: idx_in split: list.split option.split)
  show "addr_wf a" if "v1Fields fs = GoOk (Some a)"
    using that ParseIP16_len To4_len parseUint16_range unfolding v1Fields_def
    by (auto simp: idx_in addr_wf_def split: list.split_asm option.split_asm if_split_asm)
qed

lemma readV2_rest:
  "no_panic (readV2 br)"
  "readV2 br = GoOk (real, rest) \<Longrightarrow>
     (\<exists>hdr. br = hdr @ rest \<and> length hdr \<le> MaxHeaderSize) \<and> (\<forall>a. real = Some a \<longrightarrow> addr_wf a)"
proof -
  show "no_panic (readV2 br)"
    unfolding readV2_def Let_def by (auto simp: idx_in be16_at_ok intro!: no_panic_bind v2Address_wf(1))
  assume r: "readV2 br = GoOk (real, rest)"
  define n where "n = be16 (take 16 br ! 14) (take 16 br ! 15)"
  have l: "\<not> length br < 16" using r by (auto simp: readV2_def)
  then have "be16_at (take 16 br) 14 = GoOk (int n)" by (simp add: be16_at_ok n_def)
  then have "rest = drop n (drop 16 br) \<and> n \<le> MaxHeaderSize - 16 \<and> (\<forall>a. real = Some a \<longrightarrow> addr_wf a)"
    using r l v2Address_wf(2) unfolding readV2_def Let_def
    by (auto simp: idx_in go_bind_GoOk MaxHeaderSize_def split: if_split_asm)
  moreover have "br = take (16 + n) br @ drop n (drop 16 br)" by (simp add: add.commute)
  ultimately show "(\<exists>hdr. br = hdr @ rest \<and> length hdr \<le> MaxHeaderSize) \<and> (\<forall>a. real = Some a \<longrightarrow> addr_wf a)"
    by (intro conjI exI [of _ "take (16 + n) br"]) (auto simp: MaxHeaderSize_def)
qed

lemma length_takeWhile_less_index: "i < length xs \<Longrightarrow> \<not> P (xs ! i) \<Longrightarrow> length (takeWhile P xs) \<le> i"
  by (rule ccontr) (use nth_length_takeWhile takeWhile_nth set_takeWhileD nth_mem in \<open>metis not_le\<close>)

lemma readV1_rest:
  "no_panic (readV1 br)"
  "readV1 br = GoOk (real, rest) \<Longrightarrow>
     (\<exists>hdr. br = hdr @ rest \<and> length hdr \<le> MaxHeaderSize) \<and> (\<forall>a. real = Some a \<longrightarrow> addr_wf a)"
proof -
  show "no_panic (readV1 br)"
    unfolding readV1_def Let_def by (auto intro!: no_panic_bind v1Fields_wf(1))
  assume r: "readV1 br = GoOk (real, rest)"
  let ?n = "length (takeWhile (\<lambda>b. b \<noteq> 0x0A) br) + 1"
  have "0x0A \<in> set (take MaxHeaderSize br)" using r by (rule_tac ccontr) (simp add: readV1_def)
  then obtain i where i: "i < MaxHeaderSize" "i < length br" "br ! i = 0x0A" by (auto simp: in_set_conv_nth)
  then have "?n \<le> MaxHeaderSize"
    using length_takeWhile_less_index [of i br "\<lambda>b. b \<noteq> 0x0A"] by simp
  have "rest = drop ?n br \<and> (\<forall>a. real = Some a \<longrightarrow> addr_wf a)"
    using r v1Fields_wf(2) unfolding readV1_def Let_def by (auto simp: go_bind_GoOk split: if_split_asm)
  then show "(\<exists>hdr. br = hdr @ rest \<and> length hdr \<le> MaxHeaderSize) \<and> (\<forall>a. real = Some a \<longrightarrow> addr_wf a)"
    using \<open>?n \<le> MaxHeaderSize\<close> by (intro conjI exI [of _ "take ?n br"]) auto
qed

lemma ReadHeader_rest:
  "no_panic (ReadHeader conn)"
  "ReadHeader conn = GoOk (real, rest) \<Longrightarrow>
     (\<exists>hdr. conn = hdr @ rest \<and> length hdr \<le> MaxHeaderSize) \<and> (\<forall>a. real = Some a \<longrightarrow> addr_wf a)"
proof -
  show "no_panic (ReadHeader conn)" by (simp add: ReadHeader_def Let_def readV1_rest(1) readV2_rest(1))
  assume "ReadHeader conn = GoOk (real, rest)"
  then have "readV2 conn = GoOk (real, rest) \<or> readV1 conn = GoOk (real, rest)"
    by (auto simp: ReadHeader_def Let_def split: if_split_asm)
  then show "(\<exists>hdr. conn = hdr @ rest \<and> length hdr \<le> MaxHeaderSize) \<and> (\<forall>a. real = Some a \<longrightarrow> addr_wf a)"
    using readV1_rest(2) readV2_rest(2) by blast
qed

section \<open>Headers as a front end writes them\<close>

definition encV2 :: "tcpAddr \<Rightarrow> tcpAddr \<Rightarrow> bytes \<Rightarrow> bytes" where
  "encV2 src dst tlvs = v2Signature @ [0x21, if length (fst src) = 4 then 0x11 else 0x21] @
     put16 (2 * length (fst src) + 4 + length tlvs) @ fst src @ fst dst @ put16 (nat (snd src)) @ put16 (nat (snd dst)) @ tlvs"

text \<open>The health check of a front end: the LOCAL command.\<close>

definition encV2Local :: bytes where
  "encV2Local = v2Signature @ [0x20, 0x00, 0, 0]"

definition encV1 :: "string \<Rightarrow> string \<Rightarrow> string \<Rightarrow> string \<Rightarrow> string \<Rightarrow> bytes" where
  "encV1 proto src dst sport dport = bytes_of_str (v1Prefix @ proto @ '' '' @ src @ '' '' @ dst @ '' '' @ sport @ '' '' @ dport @ [CHR 0x0D, CHR 0x0A])"

lemma readV2_PROXY:
  assumes "length body = n" "n \<le> 520" "f AND 0x0F = 1" "drop_bit 4 f \<noteq> 0"
  shows "readV2 (v2Signature @ [0x21, f] @ put16 n @ body @ payload) = go_bind (v2Address (drop_bit 4 f) body) (\<lambda>real. GoOk (real, payload))"
proof -
  let ?hdr = "v2Signature @ [0x21, f] @ put16 n"
  have l: "length ?hdr = 16" by (simp add: v2Signature_def)
  have h: "take 16 (?hdr @ body @ payload) = ?hdr" "drop 16 (?hdr @ body @ payload) = body @ payload"
    using l by (metis append_eq_conv_conj)+
  have i: "idx ?hdr 12 = GoOk 0x21" "idx ?hdr 13 = GoOk f" by (simp_all add: idx_in v2Signature_def)
  have b: "be16_at ?hdr 14 = GoOk (int n)"
    using assms(2) be16_nth_put16 [of n] by (subst be16_at_ok) (simp_all add: v2Signature_def)
  have t: "take n (body @ payload) = body" "drop n (body @ payload) = payload" "\<not> length (body @ payload) < n" using assms(1) by auto
  have g: "\<not> length (?hdr @ body @ payload) < 16" "\<not> int n > int MaxHeaderSize - 16" using l assms(2) by (simp_all add: MaxHeaderSize_def)
  have c: "drop_bit 4 (0x21 :: byte) = 2" "(0x21 AND 0x0F :: byte) = 1" by simp_all
  have "readV2 (?hdr @ body @ payload) = go_bind (v2Address (drop_bit 4 f) body) (\<lambda>real. GoOk (real, payload))"
    unfolding readV2_def Let_def h if_not_P [OF g(1)] i go_bind.simps b c if_not_P [OF g(2)] nat_int t if_not_P [OF t(3)]
    using assms(3, 4) by simp
  then show ?thesis by simp
qed

lemma ReadHeader_v2: "ReadHeader (v2Signature @ rest) = readV2 (v2Signature @ rest)"
  by (simp add: ReadHeader_def)

lemma be16_at_append:
  assumes "length pre = i"
  shows "be16_at (pre @ put16 n @ r) i = GoOk (int (n mod 65536))"
proof -
  have "(pre @ put16 n @ r) ! i = put16 n ! 0" "(pre @ put16 n @ r) ! (i + 1) = put16 n ! 1" using assms by (auto simp: nth_append put16_def)
  then show ?thesis using assms be16_nth_put16 [of n] by (subst be16_at_ok) simp_all
qed

lemma v2Address_enc:
  assumes "length ip = 4 \<or> length ip = 16" "length ip' = length ip" "p < 65536" "2 \<le> length r"
  shows "v2Address (if length ip = 4 then 1 else 2) (ip @ ip' @ put16 p @ r) = GoOk (Some (ip, int p))"
proof -
  have "be16_at (ip @ ip' @ put16 p @ r) (2 * length ip) = GoOk (int p)"
    using be16_at_append [of "ip @ ip'" "2 * length ip" p r] assms by simp
  then show ?thesis using assms by (auto simp: v2Address_def subslice_in)
qed

lemma ReadHeader_encV2:
  assumes "length (fst src) = 4 \<or> length (fst src) = 16" "length (fst dst) = length (fst src)"
    "0 \<le> snd src" "snd src < 65536" "length (fst src) + length (fst dst) + length tlvs \<le> 516"
  shows "ReadHeader (encV2 src dst tlvs @ payload) = GoOk (Some src, payload)"
proof -
  obtain ip port where src: "src = (ip, port)" by fastforce
  obtain ip' port' where dst: "dst = (ip', port')" by fastforce
  let ?n = "2 * length ip + 4 + length tlvs"
  let ?body = "ip @ ip' @ put16 (nat port) @ put16 (nat port') @ tlvs"
  let ?f = "if length ip = 4 then 0x11 else 0x21 :: byte"
  have n: "length ?body = ?n" "?n \<le> 520" "?f AND 0x0F = 1" "drop_bit 4 ?f \<noteq> 0" using assms by (simp_all add: src dst)
  have e: "encV2 src dst tlvs @ payload = v2Signature @ [0x21, ?f] @ put16 ?n @ ?body @ payload" by (simp add: encV2_def src dst)
  have "drop_bit 4 ?f = (if length ip = 4 then 1 else 2)" by simp
  then have "v2Address (drop_bit 4 ?f) ?body = GoOk (Some (ip, port))"
    using assms v2Address_enc [of ip ip' "nat port"] by (simp only: src dst fst_conv snd_conv) simp
  then show ?thesis unfolding e ReadHeader_v2 readV2_PROXY [OF n] by (simp add: src)
qed

lemma ReadHeader_local: "ReadHeader (encV2Local @ payload) = GoOk (None, payload)"
proof -
  have b: "be16_at (v2Signature @ [0x20, 0, 0, 0]) 14 = GoOk 0" by code_simp
  have h: "take 16 (v2Signature @ [0x20, 0, 0, 0] @ payload) = v2Signature @ [0x20, 0, 0, 0]"
    "drop 16 (v2Signature @ [0x20, 0, 0, 0] @ payload) = payload" "\<not> length (v2Signature @ [0x20, 0, 0, 0] @ payload) < 16"
    by (simp_all add: v2Signature_def)
  have i: "idx (v2Signature @ [0x20, 0, 0, 0]) 12 = GoOk 0x20" "idx (v2Signature @ [0x20, 0, 0, 0]) 13 = GoOk 0"
    by (simp_all add: idx_in v2Signature_def)
  have "readV2 (v2Signature @ [0x20, 0, 0, 0] @ payload) = GoOk (None, payload)"
    unfolding readV2_def Let_def h(1, 2) if_not_P [OF h(3)] i go_bind.simps b by (simp add: MaxHeaderSize_def)
  then show ?thesis using ReadHeader_v2 [of "[0x20, 0, 0, 0] @ payload"] by (simp add: encV2Local_def)
qed

definition word :: "string \<Rightarrow> bool" where
  "word w \<longleftrightarrow> w \<noteq> [] \<and> (\<forall>c \<in> set w. \<not> is_space c)"

lemma fields_word: "word w \<Longrightarrow> fields (w @ CHR '' '' # s) = w # fields s" "word w \<Longrightarrow> fields w = [w]"
proof -
  assume w: "word w"
  then have t: "dropWhile is_space w = w" "takeWhile (\<lambda>c. \<not> is_space c) w = w" "dropWhile (\<lambda>c. \<not> is_space c) w = []"
    by (cases w; simp add: word_def)+
  have sp: "is_space (CHR '' '')" by code_simp
  have w': "dropWhile is_space (w @ CHR '' '' # s) = w @ CHR '' '' # s" using w by (cases w) (simp_all add: word_def)
  have e: "fields (CHR '' '' # s) = fields s" using sp by (subst (1 2) fields.simps) simp
  show "fields (w @ CHR '' '' # s) = w # fields s"
    using w t sp e by (subst fields.simps) (simp add: w' word_def takeWhile_append2 dropWhile_append2 Let_def)
  have "fields [] = []" by (simp add: fields.simps)
  then show "fields w = [w]" unfolding fields.simps [of w] Let_def t using w by (simp add: word_def)
qed

lemma of_char_newline: "(0x0A :: byte) = of_char c \<longleftrightarrow> c = CHR 0x0A"
proof
  assume "(0x0A :: byte) = of_char c"
  then have "str_of_bytes (bytes_of_str [c]) = str_of_bytes [0x0A]" by (simp add: bytes_of_str_def)
  moreover have "str_of_bytes [0x0A] = [CHR 0x0A]" by code_simp
  ultimately show "c = CHR 0x0A" by simp
qed simp

lemma bytes_of_str_newline: "0x0A \<in> set (bytes_of_str s) \<longleftrightarrow> CHR 0x0A \<in> set s"
  unfolding bytes_of_str_def set_map image_iff of_char_newline by blast

lemma str_of_bytes_take: "str_of_bytes (take n bs) = take n (str_of_bytes bs)"
  by (simp add: str_of_bytes_def take_map)

lemma readV1_line:
  assumes "CHR 0x0A \<notin> set line" "length line + 8 \<le> MaxHeaderSize" "4 \<le> length line"
  shows "ReadHeader (bytes_of_str (v1Prefix @ line @ [CHR 0x0D, CHR 0x0A]) @ payload) = go_bind (v1Fields (fields line)) (\<lambda>real. GoOk (real, payload))"
proof -
  let ?s = "v1Prefix @ line @ [CHR 0x0D]" and ?crlf = "[CHR 0x0D, CHR 0x0A]"
  let ?c = "bytes_of_str ?s @ 0x0A # payload"
  have c: "bytes_of_str (v1Prefix @ line @ ?crlf) @ payload = ?c" by (simp add: bytes_of_str_def)
  have ns: "CHR 0x0A \<notin> set ?s" using assms(1) by (simp add: v1Prefix_def)
  then have nb: "\<And>b. b \<in> set (bytes_of_str ?s) \<Longrightarrow> b \<noteq> 0x0A" using bytes_of_str_newline by blast
  have t: "length (takeWhile (\<lambda>b. b \<noteq> 0x0A) ?c) = length ?s"
    using takeWhile_append2 [of "bytes_of_str ?s" "\<lambda>b. b \<noteq> 0x0A" "0x0A # payload"] nb by simp
  have tk: "take (length ?s + 1) ?c = bytes_of_str (v1Prefix @ line @ ?crlf)" "drop (length ?s + 1) ?c = payload"
    by (simp_all add: bytes_of_str_def)
  have len: "length ?s < MaxHeaderSize" using assms(2) by (simp add: v1Prefix_def)
  then have nl: "0x0A \<in> set (take MaxHeaderSize ?c)" by (simp add: take_Cons')
  have suf: "drop (length (v1Prefix @ line @ ?crlf) - 2) (v1Prefix @ line @ ?crlf) = ?crlf"
    "trim_suffix (v1Prefix @ line @ ?crlf) ?crlf = v1Prefix @ line" by (simp_all add: trim_suffix_def)
  have pre: "has_prefix (v1Prefix @ x) v1Prefix" "drop (length v1Prefix) (v1Prefix @ line) = line" for x by (simp_all add: has_prefix_take)
  have r: "readV1 ?c = go_bind (v1Fields (fields line)) (\<lambda>real. GoOk (real, payload))"
    unfolding readV1_def Let_def t tk str_bytes_inverse suf pre(2) using nl pre(1) by simp
  have "str_of_bytes ?c = v1Prefix @ line @ [CHR 0x0D] @ str_of_bytes (0x0A # payload)"
    using str_bytes_inverse [of ?s] by (simp add: str_of_bytes_def)
  moreover have "str_of_bytes (take 12 ?c) = take 12 (str_of_bytes ?c)" by (rule str_of_bytes_take)
  moreover have "length v1Prefix = 6" by (simp add: v1Prefix_def)
  ultimately have p: "has_prefix (str_of_bytes (take 12 ?c)) v1Prefix" unfolding has_prefix_take by simp
  have l: "\<not> length ?c < 12" "take 12 ?c \<noteq> v2Signature"
    using assms(3) by (auto simp: v1Prefix_def v2Signature_def bytes_of_str_def)
  have "length v2Signature = 12" by (simp add: v2Signature_def)
  then show ?thesis unfolding c ReadHeader_def Let_def using l p r by simp
qed

lemma ReadHeader_encV1:
  assumes "list_all word [proto, src, dst, sport, dport]" "length (encV1 proto src dst sport dport) \<le> MaxHeaderSize"
  shows "ReadHeader (encV1 proto src dst sport dport @ payload) = go_bind (v1Fields [proto, src, dst, sport, dport]) (\<lambda>real. GoOk (real, payload))"
proof -
  let ?line = "proto @ '' '' @ src @ '' '' @ dst @ '' '' @ sport @ '' '' @ dport"
  have "is_space (CHR 0x0A)" by code_simp
  then have n: "CHR 0x0A \<notin> set ?line" using assms(1) by (auto simp: word_def)
  have l: "length ?line + 8 \<le> MaxHeaderSize" "4 \<le> length ?line" using assms(2) by (simp_all add: encV1_def v1Prefix_def)
  have "fields ?line = [proto, src, dst, sport, dport]" using assms(1) by (simp add: fields_word)
  then show ?thesis using readV1_line [OF n l, of payload] by (simp add: encV1_def)
qed

section \<open>Properties\<close>


text \<open>What a trusted front end writes is what the server sees: after a version 2 header with the addresses
  of client and front end (and further fields), after a LOCAL header, and after a version 1 line, the
  payload is untouched and the reported address is that of the client, or of the front end for LOCAL.\<close>

lemma proxy_header_roundtrip:
  assumes trust: "n \<in> set trusted" "Contains n (fst remote)"
    and src: "length (fst src) = 4" "0 \<le> snd src" "snd src < 65536"
    and dst: "length (fst dst) = 4" "length tlvs \<le> 508"
    and txts: "list_all word [s, d, sp, dp]" "length (encV1 ''TCP4'' s d sp dp) \<le> 536"
    and vals: "ParseIP16 s = Some s16" "To4 s16 = Some (fst src)" "ParseIP16 d = Some d16" "To4 d16 = Some (fst dst)"
      "parseUint16 sp = Some (snd src)" "parseUint16 dp = Some (snd dst)"
  shows "stripProxyHeader True trusted remote (encV2 src dst tlvs @ payload) = Some (src, payload) \<and>
    stripProxyHeader True trusted remote (encV2Local @ payload) = Some (remote, payload) \<and>
    stripProxyHeader True trusted remote (encV1 ''TCP4'' s d sp dp @ payload) = Some (src, payload)"
proof -
  have t: "IsTrusted (fst remote) trusted" using trust by (auto simp: IsTrusted_def list_ex_iff)
  have "word ''TCP4''" by code_simp
  then have w: "list_all word [''TCP4'', s, d, sp, dp]" "length (encV1 ''TCP4'' s d sp dp) \<le> MaxHeaderSize"
    using txts by (simp_all add: MaxHeaderSize_def)
  have "v1Fields [''TCP4'', s, d, sp, dp] = GoOk (Some src)" using vals by (simp add: v1Fields_def idx_in)
  then show ?thesis
    using t src dst by (simp add: stripProxyHeader_def ReadHeader_encV2 ReadHeader_local ReadHeader_encV1 [OF w])
qed

lemma proxy_header_roundtrip_witness:
  "stripProxyHeader True [([127, 0, 0, 0], [255, 0, 0, 0])] ([127, 0, 0, 1], 40000)
     (encV1 ''TCP4'' ''1.2.3.4'' ''10.0.0.1'' ''5555'' ''443'' @ [22, 3, 1]) = Some (([1, 2, 3, 4], 5555), [22, 3, 1])"
proof -
  have c: "Contains ([127, 0, 0, 0], [255, 0, 0, 0]) [127, 0, 0, 1]" by code_simp
  have w: "list_all word [''1.2.3.4'', ''10.0.0.1'', ''5555'', ''443'']" by code_simp
  have l: "length (encV1 ''TCP4'' ''1.2.3.4'' ''10.0.0.1'' ''5555'' ''443'') \<le> 536" by (simp add: encV1_def v1Prefix_def)
  have p: "ParseIP16 ''1.2.3.4'' = Some (v4InV6Prefix @ [1, 2, 3, 4])" "To4 (v4InV6Prefix @ [1, 2, 3, 4]) = Some [1, 2, 3, 4]"
    "ParseIP16 ''10.0.0.1'' = Some (v4InV6Prefix @ [10, 0, 0, 1])" "To4 (v4InV6Prefix @ [10, 0, 0, 1]) = Some [10, 0, 0, 1]"
    "parseUint16 ''5555'' = Some 5555" "parseUint16 ''443'' = Some 443"
    by code_simp+
  show ?thesis
    using proxy_header_roundtrip [of "([127, 0, 0, 0], [255, 0, 0, 0])" "[([127, 0, 0, 0], [255, 0, 0, 0])]" "([127, 0, 0, 1], 40000)"
        "([1, 2, 3, 4], 5555)" "([10, 0, 0, 1], 443)" "[]" "''1.2.3.4''" "''10.0.0.1''" "''5555''" "''443''"] c w l p
    by simp
qed

text \<open>A bare IPv4-mapped address in the list of trusted networks becomes \<open>::/32\<close>, which contains neither form of
  that address.\<close>

lemma mapped_trusted_address_ignored:
  "case ParseCIDRs ''::ffff:1.2.3.4'' of GoOk ns \<Rightarrow> \<not> IsTrusted [1, 2, 3, 4] ns \<and> \<not> IsTrusted (v4InV6Prefix @ [1, 2, 3, 4]) ns | _ \<Rightarrow> False"
  by code_simp

end
