(* ===== verification/ProxyWorld.thy ===== *)
theory ProxyWorld
  imports ConnectHandler
begin

text \<open>
  The server at work: the gate of \<open>AuthGate\<close> and the handlers of \<open>ConnectHandler\<close> as one transition system. Connections are
  admitted or turned away, requests of admitted clients open tunnels, tunnels are dialled, relayed and ended in any order,
  and reloads of outbounds, rules and users happen at any moment.
\<close>

text \<open>\<open>wSessions\<close> holds the admitted connections with what they were admitted on: the clock, the bytes and the users of that
  moment. Tunnels between two calls are in \<open>wOpening\<close> (a lease, not yet dialled) or \<open>wRelays\<close>; \<open>wHanded\<close> are the requests
  the application handles.\<close>

record session =
  seAt :: readings
  seStream :: bytes
  seUsers :: "UserRegistry option"
  seIdent :: authIdentity

record world =
  wServer :: server
  wSessions :: "session list"
  wProxy :: proxy
  wOpening :: "tunnel multiset"
  wRelays :: "tunnel multiset"
  wHanded :: "authIdentity multiset"

text \<open>Addresses have 4 or 16 bytes in the answers of \<open>net.Resolver\<close>.\<close>

definition dns_wf :: "(string \<Rightarrow> bytes list option) \<Rightarrow> bool" where
  "dns_wf lookup \<longleftrightarrow> (\<forall>host ips ip. lookup host = Some ips \<and> ip \<in> set ips \<longrightarrow> length ip = 4 \<or> length ip = 16)"

text \<open>The gate and the handlers read the same user registry.\<close>

definition setProxy :: "proxy \<Rightarrow> world \<Rightarrow> world" where
  "setProxy p w = w\<lparr>wProxy := p, wServer := (wServer w)\<lparr>registry := users_of p\<rparr>\<rparr>"

inductive serve_step :: "crypto \<Rightarrow> world \<Rightarrow> world \<Rightarrow> bool" for C where
  admit: "handleConnection C t rnd stream (wServer w) = GoOk (s', Proxy h i) \<Longrightarrow>
    serve_step C w (w\<lparr>wServer := s', wSessions := \<lparr>seAt = t, seStream = stream, seUsers = registry (wServer w), seIdent = i\<rparr> # wSessions w\<rparr>)"
| turn_away: "handleConnection C t rnd stream (wServer w) = GoOk (s', o') \<Longrightarrow> (\<And>h i. o' \<noteq> Proxy h i) \<Longrightarrow> serve_step C w (w\<lparr>wServer := s'\<rparr>)"
| answer: "i \<in> seIdent ` set (wSessions w) \<Longrightarrow> dns_wf (dnsOf E) \<Longrightarrow> serveRequest E q i (wProxy w) = (p, Answered st) \<Longrightarrow> serve_step C w (setProxy p w)"
| hand: "i \<in> seIdent ` set (wSessions w) \<Longrightarrow> dns_wf (dnsOf E) \<Longrightarrow> serveRequest E q i (wProxy w) = (p, Handed) \<Longrightarrow>
    serve_step C w ((setProxy p w)\<lparr>wHanded := add_mset i (wHanded w)\<rparr>)"
| open_tunnel: "i \<in> seIdent ` set (wSessions w) \<Longrightarrow> dns_wf (dnsOf E) \<Longrightarrow> serveRequest E q i (wProxy w) = (p, Tunnel t) \<Longrightarrow>
    serve_step C w ((setProxy p w)\<lparr>wOpening := add_mset t (wOpening w)\<rparr>)"
| dialled: "t \<in># wOpening w \<Longrightarrow> dialTunnel E t (wProxy w) = (p, Some t') \<Longrightarrow>
    serve_step C w ((setProxy p w)\<lparr>wOpening := wOpening w - {#t#}, wRelays := add_mset t' (wRelays w)\<rparr>)"
| undialled: "t \<in># wOpening w \<Longrightarrow> dialTunnel E t (wProxy w) = (p, None) \<Longrightarrow> serve_step C w ((setProxy p w)\<lparr>wOpening := wOpening w - {#t#}\<rparr>)"
| half_done: "t \<in># wRelays w \<Longrightarrow> tunNet t = ''tcp'' \<Longrightarrow> releaseRelayTrack t (wProxy w) = (p, t') \<Longrightarrow>
    serve_step C w ((setProxy p w)\<lparr>wRelays := add_mset t' (wRelays w - {#t#})\<rparr>)"
| watchdog: "t \<in># wRelays w \<Longrightarrow> closeUpstream t (wProxy w) = (p, t') \<Longrightarrow>
    serve_step C w ((setProxy p w)\<lparr>wRelays := add_mset t' (wRelays w - {#t#})\<rparr>)"
| finish: "t \<in># wRelays w \<Longrightarrow> serve_step C w ((setProxy (endTunnel up down t (wProxy w)) w)\<lparr>wRelays := wRelays w - {#t#}\<rparr>)"
| handed_back: "i \<in># wHanded w \<Longrightarrow> serve_step C w ((setProxy (releaseH2Track i ''tcp'' (wProxy w)) w)\<lparr>wHanded := wHanded w - {#i#}\<rparr>)"
| reload_outbounds: "outReg (wProxy w) = Some r \<Longrightarrow> serve_step C w (setProxy ((wProxy w)\<lparr>outReg := Some (fst (Reload B rows dflt r))\<rparr>) w)"
| close_outbounds: "outReg (wProxy w) = Some r \<Longrightarrow> serve_step C w (setProxy ((wProxy w)\<lparr>outReg := Some (CloseRegistry r)\<rparr>) w)"
| publish_rules: "serve_step C w (setProxy ((wProxy w)\<lparr>RoutingResolver := f\<rparr>) w)"
| reload_users: "serve_step C w (setProxy ((wProxy w)\<lparr>users_of := us\<rparr>) w)"

definition freshProxy :: "proxy \<Rightarrow> bool" where
  "freshProxy p \<longleftrightarrow> (outReg p = None \<or> outReg p = Some NewRegistry) \<and> h2Streams p = newUserH2StreamTracker \<and>
     relayStreams p = newUserH2StreamTracker \<and> outStreams p = newOutboundStreamTracker \<and> attempts p = []"

definition freshWorld :: "world \<Rightarrow> bool" where
  "freshWorld w \<longleftrightarrow> freshProxy (wProxy w) \<and> registry (wServer w) = users_of (wProxy w) \<and> wSessions w = [] \<and>
     wOpening w = {#} \<and> wRelays w = {#} \<and> wHanded w = {#}"

inductive serve_reach :: "crypto \<Rightarrow> world \<Rightarrow> world \<Rightarrow> bool" for C w0 where
  start: "freshWorld w0 \<Longrightarrow> serve_reach C w0 w0"
| step: "serve_reach C w0 w \<Longrightarrow> serve_step C w w' \<Longrightarrow> serve_reach C w0 w'"

section \<open>Counting streams\<close>

definition tracks :: "('s \<Rightarrow> string \<Rightarrow> bool \<Rightarrow> int) \<Rightarrow> 's \<Rightarrow> (string \<times> string) multiset \<Rightarrow> bool" where
  "tracks live s M \<longleftrightarrow> (\<forall>k u. k \<noteq> [] \<longrightarrow> live s k u = int (size (filter_mset (\<lambda>(j, n). j = k \<and> (n = ''udp'') = u) M)))"

context stream_tracker
begin

lemma tracks_init: "tracks live init {#}"
  by (simp add: tracks_def live_init)

lemma tracks_acq: "tracks live s M \<Longrightarrow> tracks live (acq j n s) (add_mset (j, n) M)"
  by (auto simp: tracks_def live_acq)

lemma tracks_rel:
  assumes "tracks live s (add_mset (j, n) M)"
  shows "tracks live (rel j n s) M"
  using assms by (auto simp: tracks_def live_rel)

end

section \<open>What a tunnel holds\<close>

text \<open>Leases, entries of the trackers, and leases already given back.\<close>

definition opt_mset :: "nat option \<Rightarrow> nat multiset" where
  "opt_mset x = (case x of None \<Rightarrow> {#} | Some l \<Rightarrow> {#l#})"

definition held :: "tunnel \<Rightarrow> nat multiset" where
  "held t = (if upstreamClosed t then {#} else opt_mset (tunMember t)) +
     (if upstreamClosed t \<and> tunNet t = ''udp'' then {#} else opt_mset (tunLease t))"

definition spentTun :: "tunnel \<Rightarrow> nat set" where
  "spentTun t = (if upstreamClosed t then set_option (tunMember t) \<union> (if tunNet t = ''udp'' then set_option (tunLease t) else {}) else {})"

definition h2Entry :: "tunnel \<Rightarrow> (string \<times> string) multiset" where
  "h2Entry t = {#(h2StreamTrackerKey (tunIdent t), tunNet t)#}"

definition relayEntry :: "tunnel \<Rightarrow> (string \<times> string) multiset" where
  "relayEntry t = (if relayReleased t \<or> UserID (tunIdent t) = [] then {#} else {#(''user:'' @ UserID (tunIdent t), tunNet t)#})"

definition outEntry :: "tunnel \<Rightarrow> (string \<times> string) multiset" where
  "outEntry t = (if relayReleased t then {#} else {#(meterTag t, tunNet t)#})"

definition openOf :: "proxy \<Rightarrow> nat multiset" where
  "openOf p = (case outReg p of None \<Rightarrow> {#} | Some r \<Rightarrow> mset_set (openSet r))"

definition spentOf :: "proxy \<Rightarrow> nat set" where
  "spentOf p = (case outReg p of None \<Rightarrow> UNIV | Some r \<Rightarrow> spentSet r)"

definition accounted :: "proxy \<Rightarrow> nat multiset \<Rightarrow> nat set \<Rightarrow> (string \<times> string) multiset \<Rightarrow> (string \<times> string) multiset \<Rightarrow> (string \<times> string) multiset \<Rightarrow> bool" where
  "accounted p L D H R O' \<longleftrightarrow> pred_option reg_inv (outReg p) \<and> openOf p = L \<and> D \<subseteq> spentOf p \<and>
     tracks user_live (h2Streams p) H \<and> tracks user_live (relayStreams p) R \<and> tracks ob_live (outStreams p) O'"

section \<open>Every call accounts for what it takes and gives back\<close>

lemma acc_cong:
  "outReg p' = outReg p \<Longrightarrow> h2Streams p' = h2Streams p \<Longrightarrow> relayStreams p' = relayStreams p \<Longrightarrow> outStreams p' = outStreams p \<Longrightarrow>
    accounted p' L D H R O' = accounted p L D H R O'"
  by (simp add: accounted_def openOf_def spentOf_def)

lemma acc_mono: "accounted p L D H R O' \<Longrightarrow> D' \<subseteq> D \<Longrightarrow> accounted p L D' H R O'"
  by (auto simp: accounted_def)

lemma trackUserH2Stream_fields [simp]:
  "outReg (trackUserH2Stream now i n p) = outReg p" "relayStreams (trackUserH2Stream now i n p) = relayStreams p"
  "outStreams (trackUserH2Stream now i n p) = outStreams p" "h2Streams (trackUserH2Stream now i n p) = acquire_state (h2StreamTrackerKey i) n (h2Streams p)"
  "attempts (trackUserH2Stream now i n p) = attempts p"
  by (simp_all add: trackUserH2Stream_def acquire_state_def Let_def split: prod.split)

lemma persistUserH2RelayPeak_fields [simp]:
  "outReg (persistUserH2RelayPeak now u pk p) = outReg p" "relayStreams (persistUserH2RelayPeak now u pk p) = relayStreams p"
  "outStreams (persistUserH2RelayPeak now u pk p) = outStreams p" "h2Streams (persistUserH2RelayPeak now u pk p) = h2Streams p"
  "attempts (persistUserH2RelayPeak now u pk p) = attempts p"
  by (simp_all add: persistUserH2RelayPeak_def Let_def)

lemma trackUserRelayStream_fields [simp]:
  "outReg (trackUserRelayStream now i n p) = outReg p" "h2Streams (trackUserRelayStream now i n p) = h2Streams p"
  "outStreams (trackUserRelayStream now i n p) = outStreams p" "attempts (trackUserRelayStream now i n p) = attempts p"
  "relayStreams (trackUserRelayStream now i n p) = (if UserID i = [] then relayStreams p else acquire_state (''user:'' @ UserID i) n (relayStreams p))"
  by (simp_all add: trackUserRelayStream_def acquire_state_def Let_def split: prod.split)

lemma trackOutbound_fields [simp]:
  "outReg (trackOutbound now ob n p) = outReg p" "h2Streams (trackOutbound now ob n p) = h2Streams p"
  "relayStreams (trackOutbound now ob n p) = relayStreams p" "outStreams (trackOutbound now ob n p) = ob_acquire_state ob n (outStreams p)"
  "attempts (trackOutbound now ob n p) = attempts p"
  by (simp_all add: trackOutbound_def ob_acquire_state_def split: prod.split)

lemma tracks_failure: "tracks ob_live t M \<Longrightarrow> tracks ob_live (recordDialFailure now ob n e t) M"
  by (simp add: tracks_def dial_failure_counts)

lemma acc_trackH2: "accounted p L D H R O' \<Longrightarrow> accounted (trackUserH2Stream now i n p) L D (add_mset (h2StreamTrackerKey i, n) H) R O'"
  by (simp add: accounted_def openOf_def spentOf_def user.tracks_acq)

lemma acc_releaseH2: "accounted p L D (add_mset (h2StreamTrackerKey i, n) H) R O' \<Longrightarrow> accounted (releaseH2Track i n p) L D H R O'"
  by (simp add: accounted_def openOf_def spentOf_def user.tracks_rel releaseH2Track_def)

lemma acc_failure: "accounted p L D H R O' \<Longrightarrow> accounted (p\<lparr>outStreams := recordDialFailure now ob n e (outStreams p)\<rparr>) L D H R O'"
  by (simp add: accounted_def openOf_def spentOf_def tracks_failure)

lemma acc_startRelay:
  assumes "accounted p L D H R O'" "\<not> relayReleased t"
  obtains p' where "startRelay E t p = (p', Some t)" "accounted p' L D H (relayEntry t + R) (outEntry t + O')" "attempts p' = attempts p"
proof -
  have "accounted (fst (startRelay E t p)) L D H (relayEntry t + R) (outEntry t + O')" "attempts (fst (startRelay E t p)) = attempts p"
    using assms by (auto simp: startRelay_def accounted_def openOf_def spentOf_def Let_def relayEntry_def outEntry_def user.tracks_acq outb.tracks_acq)
  moreover have "startRelay E t p = (fst (startRelay E t p), Some t)" by (simp add: startRelay_def Let_def)
  ultimately show thesis using that by blast
qed

lemma acc_releaseRelay:
  assumes "accounted p L D H (relayEntry t + R) (outEntry t + O')" "releaseRelayTrack t p = (p', t')"
  shows "accounted p' L D H (relayEntry t' + R) (outEntry t' + O') \<and> t' = t\<lparr>relayReleased := True\<rparr>"
proof (cases "relayReleased t")
  case True
  then have "t\<lparr>relayReleased := True\<rparr> = t" by (cases t) simp
  then show ?thesis using assms True by (simp add: releaseRelayTrack_def)
next
  case False
  then have t': "t' = t\<lparr>relayReleased := True\<rparr>" and p': "p' = p\<lparr>relayStreams := (if UserID (tunIdent t) = [] then relayStreams p
      else UserH2Streams.release (''user:'' @ UserID (tunIdent t)) (tunNet t) (relayStreams p)), outStreams := releaseOutbound (meterTag t) (tunNet t) (outStreams p)\<rparr>"
    using assms(2) by (simp_all add: releaseRelayTrack_def)
  show ?thesis using assms(1) False unfolding t' p'
    by (simp add: accounted_def openOf_def spentOf_def relayEntry_def outEntry_def user.tracks_rel outb.tracks_rel split: if_splits)
qed

lemma acc_close:
  assumes "accounted p (opt_mset l + L) D H R O'"
  shows "accounted (closeOpt l p) L (D \<union> set_option l) H R O'"
proof (cases l)
  case None then show ?thesis using assms by (simp add: closeOpt_def opt_mset_def)
next
  case (Some k)
  obtain r where r: "outReg p = Some r" using assms Some by (cases "outReg p") (auto simp: accounted_def openOf_def opt_mset_def)
  have k: "mset_set (openSet r) = add_mset k L" using assms Some r by (simp add: accounted_def openOf_def opt_mset_def)
  then have "k \<in># mset_set (openSet r)" by simp
  then have o: "k \<in> openSet r" by simp
  then have "mset_set (openSet r - {k}) = L" using k by (simp add: mset_set_Diff)
  moreover have "spentSet (CloseLease k r) = insert k (spentSet r)" using o by (intro spentSet_CloseLease) (simp add: openSet_def)
  moreover have "reg_inv (CloseLease k r)" using assms r by (intro CloseLease_inv) (simp add: accounted_def)
  ultimately show ?thesis using assms Some r
    by (auto simp: accounted_def openOf_def spentOf_def closeOpt_def openSet_CloseLease)
qed

lemma acc_close_again:
  assumes "accounted p L D H R O'" "set_option l \<subseteq> D"
  shows "accounted (closeOpt l p) L D H R O'"
proof (cases "l = None \<or> outReg p = None")
  case True then show ?thesis using assms by (auto simp: closeOpt_def accounted_def openOf_def spentOf_def split: option.splits)
next
  case False
  then obtain k r where k: "l = Some k" "outReg p = Some r" by auto
  then have "k < length (leases r)" "snd (leases r ! k)" using assms by (auto simp: accounted_def spentOf_def spentSet_def)
  then have "CloseLease k r = r" by (cases "leases r ! k") (simp add: CloseLease_def)
  then show ?thesis using assms(1) k by (simp add: closeOpt_def accounted_def openOf_def spentOf_def)
qed

lemma acc_closeUpstream:
  assumes "accounted p (held t + L) D H R O'" "spentTun t \<subseteq> D" "closeUpstream t p = (p', t')"
  shows "accounted p' (held t' + L) (D \<union> spentTun t') H R O' \<and> t' = t\<lparr>upstreamClosed := True\<rparr>"
proof -
  let ?q = "closeOpt (tunMember t) p"
  have t': "t' = t\<lparr>upstreamClosed := True\<rparr>" and p': "p' = (if tunNet t = ''udp'' then closeOpt (tunLease t) ?q else ?q)"
    using assms(3) by (simp_all add: closeUpstream_def Let_def)
  show ?thesis
  proof (cases "upstreamClosed t")
    case True
    then have "t' = t" unfolding t' by (cases t) simp
    have m: "accounted ?q (held t + L) D H R O'" using assms(2) True by (intro acc_close_again [OF assms(1)]) (simp add: spentTun_def)
    have "accounted p' (held t + L) D H R O'"
      unfolding p' using m acc_close_again [OF m, of "tunLease t"] assms(2) True by (auto simp: spentTun_def)
    moreover have "D \<union> spentTun t = D" using assms(2) by blast
    ultimately show ?thesis using t' unfolding \<open>t' = t\<close> by simp
  next
    case False
    then have h: "held t + L = opt_mset (tunMember t) + (opt_mset (tunLease t) + L)" by (simp add: held_def)
    note m = acc_close [OF assms(1) [unfolded h]]
    show ?thesis using m acc_close [OF m] unfolding t' p' by (auto simp: held_def spentTun_def Un_assoc)
  qed
qed

lemma acc_end:
  assumes "accounted p (held t + L) D (h2Entry t + H) (relayEntry t + R) (outEntry t + O')" "spentTun t \<subseteq> D"
  shows "accounted (endTunnel up down t p) L D H R O'"
proof -
  define p1 where "p1 = (if tunNet t = ''udp'' then (meterTunnel up down t p)\<lparr>tunnelsUDPClosed := tunnelsUDPClosed (meterTunnel up down t p) + 1\<rparr> else meterTunnel up down t p)"
  have f: "outReg (meterTunnel up down t p) = outReg p" "h2Streams (meterTunnel up down t p) = h2Streams p"
    "relayStreams (meterTunnel up down t p) = relayStreams p" "outStreams (meterTunnel up down t p) = outStreams p"
    by (simp_all add: meterTunnel_def Let_def split: option.split)
  have 1: "accounted p1 (held t + L) D (h2Entry t + H) (relayEntry t + R) (outEntry t + O')"
    using assms(1) acc_cong [of p1 p] f by (simp add: p1_def)
  obtain p2 t2 where r: "releaseRelayTrack t p1 = (p2, t2)" by fastforce
  have t2: "t2 = t\<lparr>relayReleased := True\<rparr>" and a2: "accounted p2 (held t + L) D (h2Entry t + H) (relayEntry t2 + R) (outEntry t2 + O')"
    using acc_releaseRelay [OF 1 r] by blast+
  have "held t2 = held t" "relayEntry t2 = {#}" "outEntry t2 = {#}" "spentTun t2 = spentTun t"
    by (simp_all add: t2 relayEntry_def outEntry_def held_def spentTun_def)
  then have 2: "accounted p2 (held t2 + L) D (h2Entry t + H) R O'" "spentTun t2 \<subseteq> D" using a2 assms(2) by simp_all
  obtain p3 t3 where c: "closeUpstream t2 p2 = (p3, t3)" by fastforce
  from acc_closeUpstream [OF 2 c] have t3: "t3 = t2\<lparr>upstreamClosed := True\<rparr>" and 3: "accounted p3 (held t3 + L) D (h2Entry t + H) R O'"
    by (auto intro: acc_mono)
  have e: "endTunnel up down t p = releaseH2Track (tunIdent t) (tunNet t) (if tunNet t = ''udp'' then p3 else closeOpt (tunLease t) p3)"
    using r c by (simp add: endTunnel_def Let_def p1_def t2 t3)
  have "accounted (if tunNet t = ''udp'' then p3 else closeOpt (tunLease t) p3) L D (h2Entry t + H) R O'"
    using 3 acc_mono [OF acc_close [of p3 "tunLease t" L D], of _ _ _ D] by (auto simp: t2 t3 held_def)
  then show ?thesis unfolding e by (intro acc_releaseH2) (simp add: h2Entry_def)
qed

definition fresh_tunnel :: "tunnel \<Rightarrow> bool" where
  "fresh_tunnel t \<longleftrightarrow> \<not> relayReleased t \<and> \<not> upstreamClosed t \<and> tunMember t = None"

definition safe_tunnel :: "tunnel \<Rightarrow> bool" where
  "safe_tunnel t \<longleftrightarrow> \<not> in_nets reservedNets (fst (tunTarget t)) \<and> port_ok (snd (tunTarget t)) \<and> tunPick t \<noteq> ''block''"

text \<open>What opening a tunnel for identity \<open>i\<close> on network \<open>n\<close> leaves; \<open>H'\<close> are the streams it leaves tracked.\<close>

definition opened_ok :: "string \<Rightarrow> authIdentity \<Rightarrow> nat multiset \<Rightarrow> nat set \<Rightarrow> (string \<times> string) multiset \<Rightarrow> (string \<times> string) multiset \<Rightarrow> (string \<times> string) multiset \<Rightarrow> proxy \<times> opened \<Rightarrow> bool" where
  "opened_ok n i L D H R O' res \<longleftrightarrow>
    (case res of
       (p', Tunnel t) \<Rightarrow> accounted p' (held t + L) D H R O' \<and> fresh_tunnel t \<and> safe_tunnel t \<and> tunNet t = n \<and> tunIdent t = i
     | (p', Handed) \<Rightarrow> accounted p' L D H R O' \<and> n = ''tcp''
     | (p', Answered _) \<Rightarrow> accounted p' L D H R O')"

lemma opened_ok_answered: "opened_ok n i L D H R O' (p, Answered st) = accounted p L D H R O'"
  by (simp add: opened_ok_def)

lemma acc_takeLease:
  assumes "accounted p L D H R O'" "outReg p = Some r" "\<not> in_nets reservedNets (fst a)" "port_ok (snd a)" "pick \<noteq> ''block''"
  shows "opened_ok n i L D H R O' (takeLease n i a pick r p) \<and> attempts (fst (takeLease n i a pick r p)) = attempts p"
proof -
  obtain r1 l ob where v: "OutboundRegistry.Resolve pick r = (r1, l, ob)" by (metis prod_cases3)
  obtain j where l: "l = length (leases r)" "leases r1 = leases r @ [(j, False)]" using Resolve_leases [OF v] by blast
  have "reg_inv r1" using assms(1,2) OutboundRegistry.Resolve_inv [of r pick] by (simp add: v accounted_def)
  moreover have "mset_set (openSet r1) = add_mset l (mset_set (openSet r))"
    using openSet_snoc [OF l(2)] openSet_fresh [of r] by (simp add: l(1))
  ultimately have "accounted (p\<lparr>outReg := Some r1\<rparr>) (add_mset l L) D H R O'"
    using assms(1,2) spentSet_snoc [OF l(2)] by (auto simp: accounted_def openOf_def spentOf_def)
  then show ?thesis using assms(3-5) v by (simp add: opened_ok_def takeLease_def held_def opt_mset_def fresh_tunnel_def safe_tunnel_def)
qed

lemma guard_result:
  assumes "dns_wf lookup" "ResolveAndValidateDestination lookup host port = GoOk a"
  shows "\<not> in_nets reservedNets (fst a) \<and> port_ok (snd a)"
proof -
  have "\<not> isUnsafeIP (fst a)" "length (fst a) = 4 \<or> length (fst a) = 16" "port_ok (snd a)"
  proof -
    obtain pn where pn: "Atoi port = Some pn" "\<not> (pn < 1 \<or> pn > 65535)"
      using assms(2) by (auto simp: ResolveAndValidateDestination_def split: option.splits if_splits)
    show "port_ok (snd a)" using assms(2) pn by (auto simp: ResolveAndValidateDestination_def port_ok_def split: option.splits if_splits)
    have "\<not> isUnsafeIP (fst a) \<and> (length (fst a) = 4 \<or> length (fst a) = 16)"
    proof (cases "ParseIP16 host")
      case (Some ip)
      then have "\<not> isUnsafeIP ip" "fst a = ip" using assms(2) pn by (auto simp: ResolveAndValidateDestination_def split: if_splits)
      then show ?thesis using ParseIP16_length [OF Some] by simp
    next
      case None
      then obtain ips where ips: "lookup host = Some ips" using assms(2) pn by (auto simp: ResolveAndValidateDestination_def split: option.splits)
      then have f: "find (\<lambda>ip. \<not> isUnsafeIP ip) ips = Some (fst a)"
        using assms(2) pn None by (auto simp: ResolveAndValidateDestination_def split: option.splits if_splits)
      then have "\<not> isUnsafeIP (fst a)" "fst a \<in> set ips" using f by (auto simp: find_Some_iff)
      then show ?thesis using assms(1) ips by (auto simp: dns_wf_def)
    qed
    then show "\<not> isUnsafeIP (fst a)" "length (fst a) = 4 \<or> length (fst a) = 16" by blast+
  qed
  then show ?thesis using isUnsafeIP_iff by blast
qed

lemma acc_openTCP:
  assumes "accounted p L D H R O'" "dns_wf (dnsOf E)"
  shows "opened_ok ''tcp'' i L D H R O' (openTCP E dst body i p) \<and> attempts (fst (openTCP E dst body i p)) = attempts p"
proof (cases "outReg p")
  case None
  then show ?thesis using assms(1) by (simp add: openTCP_def opened_ok_def)
next
  case (Some r)
  obtain host port where hp: "(case SplitHostPort dst of Some hp \<Rightarrow> hp | None \<Rightarrow> (dst, ''443'')) = (host, port)" by fastforce
  let ?pick = "resolveRoutingTag (routingHost E body host p) port i p"
  have rej: "opened_ok ''tcp'' i L D H R O' (p\<lparr>ssrfRejectedTCP := ssrfRejectedTCP p + 1\<rparr>, Answered 200)"
    using assms(1) acc_cong [of "p\<lparr>ssrfRejectedTCP := ssrfRejectedTCP p + 1\<rparr>" p] by (simp add: opened_ok_def)
  show ?thesis
  proof (cases "ResolveAndValidateDestination (dnsOf E) host port")
    case (GoOk a)
    then have e: "openTCP E dst body i p = (if ?pick = ''block'' then (p, Answered 200) else takeLease ''tcp'' i a ?pick r p)"
      by (simp only: openTCP_def Some hp option.case prod.case gores.case Let_def)
    show ?thesis unfolding e using assms(1) acc_takeLease [OF assms(1) Some, of a ?pick "''tcp''" i] guard_result [OF assms(2) GoOk]
      by (cases "?pick = ''block''") (simp_all only: if_True if_False refl simp_thms fst_conv opened_ok_answered)
  qed (use rej in \<open>simp_all add: openTCP_def Some hp\<close>)
qed

lemma acc_openUDP:
  assumes "accounted p L D H R O'" "dns_wf (dnsOf E)"
  shows "opened_ok ''udp'' i L D H R O' (openUDP E dst i p) \<and> attempts (fst (openUDP E dst i p)) = attempts p"
proof (cases "SplitHostPort dst")
  case None
  then show ?thesis using assms(1) by (simp add: openUDP_def opened_ok_def)
next
  case (Some hp)
  obtain host port where hp: "hp = (host, port)" by fastforce
  have rej: "opened_ok ''udp'' i L D H R O' (p\<lparr>ssrfRejectedUDP := ssrfRejectedUDP p + 1\<rparr>, Answered 400)"
    using assms(1) acc_cong [of "p\<lparr>ssrfRejectedUDP := ssrfRejectedUDP p + 1\<rparr>" p] by (simp add: opened_ok_def)
  show ?thesis
  proof (cases "ResolveAndValidateDestination (dnsOf E) host port")
    case (GoOk a)
    note g = guard_result [OF assms(2) GoOk]
    show ?thesis
    proof (cases "outReg p")
      case None
      then show ?thesis using assms(1) g by (simp add: openUDP_def routeUDP_def Some hp GoOk opened_ok_def held_def opt_mset_def fresh_tunnel_def safe_tunnel_def)
    next
      case r: (Some r)
      let ?pick = "resolveRoutingTag host port i p"
      have e: "openUDP E dst i p = (if ?pick = ''block'' then
          (p\<lparr>outStreams := recordDialFailure (nowSec E) ''block'' ''udp'' (Some ''blocked by routing rule'') (outStreams p)\<rparr>, Answered 502)
          else takeLease ''udp'' i a ?pick r p)"
        by (simp only: openUDP_def routeUDP_def Some hp r GoOk option.case prod.case gores.case Let_def)
      have "opened_ok ''udp'' i L D H R O' (p\<lparr>outStreams := recordDialFailure (nowSec E) ''block'' ''udp'' (Some ''blocked by routing rule'') (outStreams p)\<rparr>, Answered 502)"
        using acc_failure [OF assms(1)] by (simp add: opened_ok_answered)
      moreover have "attempts (p\<lparr>outStreams := recordDialFailure (nowSec E) ''block'' ''udp'' (Some ''blocked by routing rule'') (outStreams p)\<rparr>) = attempts p" by simp
      ultimately show ?thesis unfolding e using acc_takeLease [OF assms(1) r, of a ?pick "''udp''" i] g
        by (cases "?pick = ''block''") (simp_all only: if_True if_False refl simp_thms fst_conv)
    qed
  qed (use rej in \<open>simp_all add: openUDP_def Some hp\<close>)
qed

lemma acc_serveRequest:
  assumes "accounted p L D H R O'" "dns_wf (dnsOf E)" "serveRequest E q i p = (p', x)"
  shows "(case x of
       Tunnel t \<Rightarrow> accounted p' (held t + L) D (h2Entry t + H) R O' \<and> fresh_tunnel t \<and> safe_tunnel t \<and> tunIdent t = i \<and> \<not> DataPlaneBlocked i
     | Handed \<Rightarrow> accounted p' L D (add_mset (h2StreamTrackerKey i, ''tcp'') H) R O'
     | Answered _ \<Rightarrow> accounted p' L D H R O') \<and> attempts p' = attempts p"
proof (cases "rHost q = configAuthority \<or> DataPlaneBlocked i \<or> rMethod q \<noteq> ''CONNECT'' \<or> rHost q = [] \<or> rProto q \<noteq> [] \<and> rProto q \<noteq> ''tcp/1'' \<and> rProto q \<noteq> ''udp/1''")
  case True
  then have "p' = p" "\<exists>st. x = Answered st" using assms(3) by (auto simp: serveRequest_def Let_def split: if_splits)
  then show ?thesis using assms(1) by auto
next
  case False
  define n where "n = (if rProto q = ''udp/1'' then ''udp'' else ''tcp'')"
  define p1 where "p1 = trackUserH2Stream (nowSec E) i n p"
  define res where "res = (if rProto q = ''udp/1'' then openUDP E (rHost q) i p1 else openTCP E (rHost q) (rBody q) i p1)"
  have a: "accounted p1 L D (add_mset (h2StreamTrackerKey i, n) H) R O'" unfolding p1_def by (rule acc_trackH2 [OF assms(1)])
  have ok: "opened_ok n i L D (add_mset (h2StreamTrackerKey i, n) H) R O' res" "attempts (fst res) = attempts p"
    using acc_openUDP [OF a assms(2), of i "rHost q"] acc_openTCP [OF a assms(2), of i "rHost q" "rBody q"]
    by (auto simp: res_def n_def) (simp_all add: p1_def)
  have e: "serveRequest E q i p = (case res of (p, Answered st) \<Rightarrow> (releaseH2Track i n p, Answered st) | (p, o') \<Rightarrow> (p, o'))"
    using False by (auto simp: serveRequest_def Let_def res_def p1_def n_def)
  obtain p2 y where r: "res = (p2, y)" by fastforce
  have "attempts (releaseH2Track i n p2) = attempts p2" by (simp add: releaseH2Track_def)
  then show ?thesis using ok assms(3) False acc_releaseH2 [of p2 L D i n H R O'] unfolding e r
    by (cases y) (auto simp: opened_ok_def h2Entry_def)
qed

lemma acc_dialFailed: "accounted p L D (h2Entry t + H) R O' \<Longrightarrow> accounted (dialFailed E t p) L D H R O'"
  unfolding dialFailed_def by (intro acc_releaseH2 acc_failure) (simp add: h2Entry_def)

lemma acc_dial:
  assumes "accounted p (held t + L) D (h2Entry t + H) R O'" "fresh_tunnel t" "dialTunnel E t p = (p', x)"
  shows "case x of None \<Rightarrow> accounted p' L D H R O'
    | Some t' \<Rightarrow> accounted p' (held t' + L) D (h2Entry t' + H) (relayEntry t' + R) (outEntry t' + O') \<and> spentTun t' = {}"
proof -
  let ?q = "logAttempt t p"
  have q: "accounted ?q (held t + L) D (h2Entry t + H) R O'" using assms(1) acc_cong [of ?q p] by (simp add: logAttempt_def)
  have f: "\<not> relayReleased t" "held t = opt_mset (tunLease t)" "spentTun t = {}" using assms(2) by (simp_all add: fresh_tunnel_def held_def spentTun_def opt_mset_def)
  show ?thesis
  proof (cases "tunLease t = None \<or> outReg ?q = None")
    case True
    then have h: "held t = {#}" using q f by (auto simp: accounted_def openOf_def opt_mset_def split: option.splits)
    have "dialTunnel E t p = (if listens E then startRelay E t ?q else (dialFailed E t ?q, None))"
      using True by (auto simp: dialTunnel_def Let_def split: option.split)
    moreover obtain p1 where "startRelay E t ?q = (p1, Some t)" "accounted p1 (held t + L) D (h2Entry t + H) (relayEntry t + R) (outEntry t + O')"
      by (rule acc_startRelay [OF q f(1), of E])
    moreover have "accounted (dialFailed E t ?q) L D H R O'" using q h by (intro acc_dialFailed) simp
    ultimately show ?thesis using assms(3) f(3) by (cases "listens E") simp_all
  next
    case False
    then obtain l r where lr: "tunLease t = Some l" "outReg ?q = Some r" by auto
    obtain r' d where d: "dialLease (dialsOf E) (rttOf E) (nowNS E) l r = (r', d)" by fastforce
    have lo: "leases_after r (case d of Through m \<Rightarrow> Some m | _ \<Rightarrow> None) r'"
      using q lr by (intro dialLease_open [OF _ d]) (simp add: accounted_def)
    let ?p = "?q\<lparr>outReg := Some r'\<rparr>"
    have acc: "accounted ?p ((case d of Through m \<Rightarrow> {#m#} | _ \<Rightarrow> {#}) + (held t + L)) D (h2Entry t + H) R O'"
      using q lr lo by (cases d) (auto simp: accounted_def openOf_def spentOf_def leases_after_def)
    show ?thesis
    proof (cases d)
      case Failed
      have "accounted (closeOpt (Some l) ?p) L D (h2Entry t + H) R O'"
        using acc acc_mono [OF acc_close [of ?p "Some l" L D]] f(2) lr(1) Failed by auto
      moreover have "x = None" "p' = dialFailed E t (closeOpt (Some l) ?p)"
        using assms(3) lr d Failed by (auto simp: dialTunnel_def Let_def closeOpt_def)
      ultimately show ?thesis by (simp add: acc_dialFailed)
    next
      case Plain
      then have "startRelay E t ?p = (p', x)" using assms(3) lr d by (simp add: dialTunnel_def Let_def)
      moreover obtain p1 where "startRelay E t ?p = (p1, Some t)" "accounted p1 (held t + L) D (h2Entry t + H) (relayEntry t + R) (outEntry t + O')"
        using Plain by (rule_tac acc_startRelay [OF acc f(1), of E]) simp
      ultimately show ?thesis using f(3) by auto
    next
      case (Through m)
      let ?t = "t\<lparr>tunMember := Some m, meterTag := effectiveOutboundTag (outboundTag t) (Some (tTag (heap r' ! fst (leases r' ! m))))\<rparr>"
      have "startRelay E ?t ?p = (p', x)" using Through assms(3) lr d by (simp add: dialTunnel_def Let_def)
      moreover have ht: "held ?t + L = {#m#} + (held t + L)" using assms(2) by (simp add: held_def fresh_tunnel_def opt_mset_def)
      moreover have nr: "h2Entry ?t = h2Entry t" "spentTun ?t = {}" "\<not> relayReleased ?t"
        using assms(2) by (simp_all add: held_def fresh_tunnel_def opt_mset_def h2Entry_def spentTun_def)
      moreover have a: "accounted ?p (held ?t + L) D (h2Entry t + H) R O'" unfolding ht using acc Through by simp
      moreover obtain p1 where "startRelay E ?t ?p = (p1, Some ?t)" "accounted p1 (held ?t + L) D (h2Entry t + H) (relayEntry ?t + R) (outEntry ?t + O')"
        by (rule acc_startRelay [OF a nr(3), of E])
      ultimately show ?thesis by auto
    qed
  qed
qed

section \<open>The tunnels of the server account for everything\<close>

definition sumOver :: "('a \<Rightarrow> 'b multiset) \<Rightarrow> 'a multiset \<Rightarrow> 'b multiset" where
  "sumOver f M = sum_mset (image_mset f M)"

lemma sumOver_simps [simp]: "sumOver f {#} = {#}" "sumOver f (add_mset t M) = f t + sumOver f M"
  by (simp_all add: sumOver_def)

definition handedEntries :: "authIdentity multiset \<Rightarrow> (string \<times> string) multiset" where
  "handedEntries M = image_mset (\<lambda>i. (h2StreamTrackerKey i, ''tcp'')) M"

lemma handedEntries_simps [simp]: "handedEntries {#} = {#}" "handedEntries (add_mset i M) = add_mset (h2StreamTrackerKey i, ''tcp'') (handedEntries M)"
  by (simp_all add: handedEntries_def)

definition balanced :: "proxy \<Rightarrow> tunnel multiset \<Rightarrow> tunnel multiset \<Rightarrow> authIdentity multiset \<Rightarrow> bool" where
  "balanced p M N K \<longleftrightarrow> (\<forall>t \<in># M. fresh_tunnel t) \<and>
     accounted p (sumOver held M + sumOver held N) (\<Union> (spentTun ` set_mset N))
       (sumOver h2Entry M + sumOver h2Entry N + handedEntries K) (sumOver relayEntry N) (sumOver outEntry N)"

lemma balanced_cong:
  "outReg p' = outReg p \<Longrightarrow> h2Streams p' = h2Streams p \<Longrightarrow> relayStreams p' = relayStreams p \<Longrightarrow> outStreams p' = outStreams p \<Longrightarrow>
    balanced p' M N K = balanced p M N K"
  by (simp add: balanced_def acc_cong [of p' p])

lemma balanced_request:
  assumes "balanced p M N K" "dns_wf (dnsOf E)" "serveRequest E q i p = (p', x)"
  shows "case x of Tunnel t \<Rightarrow> balanced p' (add_mset t M) N K | Handed \<Rightarrow> balanced p' M N (add_mset i K) | Answered _ \<Rightarrow> balanced p' M N K"
proof -
  have a: "accounted p (sumOver held M + sumOver held N) (\<Union> (spentTun ` set_mset N))
       (sumOver h2Entry M + sumOver h2Entry N + handedEntries K) (sumOver relayEntry N) (sumOver outEntry N)"
    using assms(1) by (simp add: balanced_def)
  show ?thesis using assms(1) acc_serveRequest [OF a assms(2,3)] by (cases x) (auto simp: balanced_def ac_simps)
qed

lemma balanced_dial:
  assumes "balanced p (add_mset t M) N K" "dialTunnel E t p = (p', x)"
  shows "case x of None \<Rightarrow> balanced p' M N K | Some t' \<Rightarrow> balanced p' M (add_mset t' N) K"
proof -
  have f: "fresh_tunnel t" and a: "accounted p (held t + (sumOver held M + sumOver held N)) (\<Union> (spentTun ` set_mset N))
       (h2Entry t + (sumOver h2Entry M + sumOver h2Entry N + handedEntries K)) (sumOver relayEntry N) (sumOver outEntry N)"
    using assms(1) by (simp_all add: balanced_def ac_simps)
  show ?thesis using assms(1) acc_dial [OF a f assms(2)] by (cases x) (simp_all add: balanced_def ac_simps)
qed

lemma balanced_relay:
  assumes "balanced p M (add_mset t N) K"
  shows "accounted p (held t + (sumOver held M + sumOver held N)) (\<Union> (spentTun ` set_mset (add_mset t N)))
       (h2Entry t + (sumOver h2Entry M + sumOver h2Entry N + handedEntries K)) (relayEntry t + sumOver relayEntry N) (outEntry t + sumOver outEntry N)"
  using assms by (simp add: balanced_def ac_simps)

lemma balanced_half:
  assumes "balanced p M (add_mset t N) K" "releaseRelayTrack t p = (p', t')"
  shows "balanced p' M (add_mset t' N) K"
proof -
  from acc_releaseRelay [OF balanced_relay [OF assms(1)] assms(2)]
  have t': "t' = t\<lparr>relayReleased := True\<rparr>" and a: "accounted p' (held t + (sumOver held M + sumOver held N)) (\<Union> (spentTun ` set_mset (add_mset t N)))
       (h2Entry t + (sumOver h2Entry M + sumOver h2Entry N + handedEntries K)) (relayEntry t' + sumOver relayEntry N) (outEntry t' + sumOver outEntry N)"
    by blast+
  have "held t' = held t" "spentTun t' = spentTun t" "h2Entry t' = h2Entry t" by (simp_all add: t' held_def spentTun_def h2Entry_def)
  then show ?thesis using a assms(1) by (simp add: balanced_def ac_simps)
qed

lemma balanced_shut:
  assumes "balanced p M (add_mset t N) K" "closeUpstream t p = (p', t')"
  shows "balanced p' M (add_mset t' N) K"
proof -
  let ?D = "\<Union> (spentTun ` set_mset (add_mset t N))"
  have "spentTun t \<subseteq> ?D" by simp
  from acc_closeUpstream [OF balanced_relay [OF assms(1)] this assms(2)]
  have t': "t' = t\<lparr>upstreamClosed := True\<rparr>" and a: "accounted p' (held t' + (sumOver held M + sumOver held N)) (?D \<union> spentTun t')
       (h2Entry t + (sumOver h2Entry M + sumOver h2Entry N + handedEntries K)) (relayEntry t + sumOver relayEntry N) (outEntry t + sumOver outEntry N)"
    by blast+
  have e: "h2Entry t' = h2Entry t" "relayEntry t' = relayEntry t" "outEntry t' = outEntry t" by (simp_all add: t' h2Entry_def relayEntry_def outEntry_def)
  have "\<Union> (spentTun ` set_mset (add_mset t' N)) \<subseteq> ?D \<union> spentTun t'" by auto
  from acc_mono [OF a this] show ?thesis using assms(1) by (simp add: balanced_def e ac_simps)
qed

lemma balanced_end:
  assumes "balanced p M (add_mset t N) K"
  shows "balanced (endTunnel up down t p) M N K"
proof -
  have s: "spentTun t \<subseteq> \<Union> (spentTun ` set_mset (add_mset t N))" by simp
  have "\<Union> (spentTun ` set_mset N) \<subseteq> \<Union> (spentTun ` set_mset (add_mset t N))" by auto
  from acc_mono [OF acc_end [OF balanced_relay [OF assms] s] this] show ?thesis using assms by (simp add: balanced_def)
qed

lemma balanced_handed: "balanced p M N (add_mset i K) \<Longrightarrow> balanced (releaseH2Track i ''tcp'' p) M N K"
  by (simp add: balanced_def acc_releaseH2)

lemma balanced_registry:
  assumes "balanced p M N K" "outReg p = Some r" "leases r' = leases r" "reg_inv r \<Longrightarrow> reg_inv r'"
  shows "balanced (p\<lparr>outReg := Some r'\<rparr>) M N K"
  using assms openSet_leases [OF assms(3)] spentSet_leases [OF assms(3)] by (simp add: balanced_def accounted_def openOf_def spentOf_def)

definition wBalanced :: "world \<Rightarrow> bool" where
  "wBalanced w \<longleftrightarrow> balanced (wProxy w) (wOpening w) (wRelays w) (wHanded w)"

lemma setProxy_fields [simp]:
  "wProxy (setProxy p w) = p" "wOpening (setProxy p w) = wOpening w" "wRelays (setProxy p w) = wRelays w" "wHanded (setProxy p w) = wHanded w"
  "wSessions (setProxy p w) = wSessions w" "wServer (setProxy p w) = (wServer w)\<lparr>registry := users_of p\<rparr>"
  by (simp_all add: setProxy_def)

lemma serve_step_balanced: "serve_step C w w' \<Longrightarrow> wBalanced w \<Longrightarrow> wBalanced w'"
proof (induction rule: serve_step.induct)
  case (answer i w E q p st) then show ?case using balanced_request [OF _ answer(2,3)] by (auto simp: wBalanced_def)
next
  case (hand i w E q p) then show ?case using balanced_request [OF _ hand(2,3)] by (auto simp: wBalanced_def)
next
  case (open_tunnel i w E q p t) then show ?case using balanced_request [OF _ open_tunnel(2,3)] by (auto simp: wBalanced_def)
next
  case (dialled t w E p t')
  then obtain M where "wOpening w = add_mset t M" by (metis multi_member_split)
  then show ?case using dialled balanced_dial [OF _ dialled(2)] by (auto simp: wBalanced_def)
next
  case (undialled t w E p)
  then obtain M where "wOpening w = add_mset t M" by (metis multi_member_split)
  then show ?case using undialled balanced_dial [OF _ undialled(2)] by (auto simp: wBalanced_def)
next
  case (half_done t w p t')
  then obtain M where "wRelays w = add_mset t M" by (metis multi_member_split)
  then show ?case using half_done balanced_half [OF _ half_done(3)] by (simp add: wBalanced_def)
next
  case (watchdog t w p t')
  then obtain M where "wRelays w = add_mset t M" by (metis multi_member_split)
  then show ?case using watchdog balanced_shut [OF _ watchdog(2)] by (simp add: wBalanced_def)
next
  case (finish t w up down)
  then obtain M where "wRelays w = add_mset t M" by (metis multi_member_split)
  then show ?case using finish balanced_end by (simp add: wBalanced_def)
next
  case (handed_back i w)
  then obtain M where "wHanded w = add_mset i M" by (metis multi_member_split)
  then show ?case using handed_back balanced_handed by (simp add: wBalanced_def)
next
  case (reload_outbounds w r B rows dflt)
  then show ?case using balanced_registry [OF _ reload_outbounds(1) Reload_leases Reload_inv] by (simp add: wBalanced_def)
next
  case (close_outbounds w r)
  then show ?case using balanced_registry [OF _ close_outbounds(1) _ CloseRegistry_inv] by (simp add: wBalanced_def CloseRegistry_def)
next
  case (publish_rules w f) then show ?case using balanced_cong [of "(wProxy w)\<lparr>RoutingResolver := f\<rparr>" "wProxy w"] by (simp add: wBalanced_def)
next
  case (reload_users w us) then show ?case using balanced_cong [of "(wProxy w)\<lparr>users_of := us\<rparr>" "wProxy w"] by (simp add: wBalanced_def)
qed (simp_all add: wBalanced_def)

lemma freshWorld_balanced: "freshWorld w \<Longrightarrow> wBalanced w"
  by (auto simp: freshWorld_def freshProxy_def wBalanced_def balanced_def accounted_def openOf_def openSet_def NewRegistry_inv user.tracks_init outb.tracks_init)
    (simp_all add: NewRegistry_def)

lemma serve_reach_balanced: "serve_reach C w0 w \<Longrightarrow> wBalanced w"
  by (induction rule: serve_reach.induct) (auto intro: serve_step_balanced freshWorld_balanced)

section \<open>Only admitted clients are served\<close>

text \<open>What admission means: a genuine hello, of a user of that moment or with the short id of the server.\<close>

definition admitted :: "crypto \<Rightarrow> serverConfig \<Rightarrow> session \<Rightarrow> bool" where
  "admitted C c se \<longleftrightarrow> (\<exists>h sid eph. hello_ids (seStream se) = Some (h, sid, eph) \<and> genuine C c sid eph \<and> ShortID (seIdent se) = take 8 sid \<and>
     (case seUsers se of
        None \<Rightarrow> take 8 sid = cfgMasterShortID c
      | Some reg \<Rightarrow> \<exists>lk u. LookupBytes (take 8 sid) reg = Some (lk, u) \<and> UserID (seIdent se) = fst lk \<and>
          (DataPlaneBlocked (seIdent se) \<longleftrightarrow> ExpiresAt u > 0 \<and> atLookup (seAt se) div second > ExpiresAt u \<or> isOverQuota (atQuota (seAt se) div second) u)))"

lemma admit_cfg:
  assumes "admitVerified C t rnd h sid eph s = GoOk (s', o')"
  shows "cfg s' = cfg s"
proof -
  obtain s1 r where l: "lookupIdentity t (take 8 sid) s = (s1, r)" by fastforce
  then have c: "cfg s1 = cfg s" using lookup_same by blast
  have "cfg s2 = cfg s1" if "startSession rnd i (s1\<lparr>guard := g\<rparr>) = (s2, i2)" for i g s2 i2 using startSession_same [OF that] by simp
  then show ?thesis using assms l c
    by (cases r; cases "checkV1 (atCheck t) (replayKeyOf C sid eph) (guard s1)") (auto simp: admitVerified_def Let_def split: if_splits prod.splits)
qed

lemma handle_cfg:
  assumes "handleConnection C t rnd stream s = GoOk (s', o')"
  shows "cfg s' = cfg s"
proof (cases "hello_ids stream")
  case None then show ?thesis using handle_unreadable [OF None, of C t rnd s] assms by auto
next
  case (Some x)
  obtain h sid eph where x: "x = (h, sid, eph)" by (metis prod_cases3)
  then have "authenticate C t rnd h sid eph s = GoOk (s', o')" using assms handle_readable Some by simp
  then show ?thesis unfolding authenticate_cases by (auto simp: Let_def dest: admit_cfg split: if_splits)
qed

lemma handle_admitted:
  assumes "handleConnection C t rnd stream s = GoOk (s', Proxy h i)"
  shows "admitted C (cfg s) \<lparr>seAt = t, seStream = stream, seUsers = registry s, seIdent = i\<rparr>"
proof -
  obtain sid eph s0 where 1: "hello_ids stream = Some (h, sid, eph)" "genuine C (cfg s) sid eph"
    "s0 = s\<lparr>limiter := fst (Allow_opt (atAllow t) (take 8 sid) (limiter s))\<rparr>" "admitVerified C t rnd h sid eph s0 = GoOk (s', Proxy h i)"
    using handle_Proxy [OF assms] by metis
  obtain s1 j where 2: "lookupIdentity t (take 8 sid) s0 = (s1, Some j)" "ShortID i = ShortID j" "UserID i = UserID j"
    "DataPlaneBlocked i = DataPlaneBlocked j"
    using admit_Proxy [OF 1(4)] by metis
  have "registry s0 = registry s" "cfg s0 = cfg s" by (simp_all add: 1(3))
  then show ?thesis using 1(1,2) 2(2-4) lookup_some [OF 2(1)] by (auto simp: admitted_def split: option.splits)
qed

definition safe_attempt :: "authIdentity set \<Rightarrow> attempt \<Rightarrow> bool" where
  "safe_attempt Is a \<longleftrightarrow> \<not> in_nets reservedNets (fst (aTarget a)) \<and> port_ok (snd (aTarget a)) \<and> aPick a \<noteq> ''block'' \<and>
     aIdent a \<in> Is \<and> \<not> DataPlaneBlocked (aIdent a)"

definition attemptOf :: "tunnel \<Rightarrow> attempt" where
  "attemptOf t = \<lparr>aNet = tunNet t, aTarget = tunTarget t, aTag = outboundTag t, aPick = tunPick t, aIdent = tunIdent t\<rparr>"

lemma attempts_same [simp]:
  "attempts (releaseH2Track i n p) = attempts p" "attempts (dialFailed E t p) = attempts p" "attempts (fst (startRelay E t p)) = attempts p"
  "attempts (fst (releaseRelayTrack t p)) = attempts p" "attempts (closeOpt l p) = attempts p" "attempts (fst (closeUpstream t p)) = attempts p"
  "attempts (meterTunnel up down t p) = attempts p"
  by (simp_all add: releaseH2Track_def dialFailed_def startRelay_def releaseRelayTrack_def closeOpt_def closeUpstream_def meterTunnel_def Let_def split: option.split)

lemma attempts_endTunnel [simp]: "attempts (endTunnel up down t p) = attempts p"
proof -
  define q where "q = (if tunNet t = ''udp'' then (meterTunnel up down t p)\<lparr>tunnelsUDPClosed := tunnelsUDPClosed (meterTunnel up down t p) + 1\<rparr> else meterTunnel up down t p)"
  have "attempts q = attempts p" by (simp add: q_def)
  obtain p1 t1 where 1: "releaseRelayTrack t q = (p1, t1)" by fastforce
  then have a: "attempts p1 = attempts p" using attempts_same(4) [of t q] \<open>attempts q = attempts p\<close> by simp
  obtain p2 t2 where 2: "closeUpstream t1 p1 = (p2, t2)" by fastforce
  then have "attempts p2 = attempts p1" using attempts_same(6) [of t1 p1] by simp
  then show ?thesis using 1 2 a by (simp add: endTunnel_def Let_def q_def)
qed

lemma attempts_dial: "attempts (fst (dialTunnel E t p)) = attempts p @ [attemptOf t]"
proof -
  have "attempts (logAttempt t p) = attempts p @ [attemptOf t]" by (simp add: logAttempt_def attemptOf_def)
  then show ?thesis by (simp add: dialTunnel_def Let_def split: option.split prod.split dialResult.split)
qed

lemma attempts_serve: "dns_wf (dnsOf E) \<Longrightarrow> balanced p M N K \<Longrightarrow> serveRequest E q i p = (p', x) \<Longrightarrow> attempts p' = attempts p"
  using acc_serveRequest unfolding balanced_def by blast

definition wSafe :: "crypto \<Rightarrow> serverConfig \<Rightarrow> world \<Rightarrow> bool" where
  "wSafe C c w \<longleftrightarrow> cfg (wServer w) = c \<and> (\<forall>se \<in> set (wSessions w). admitted C c se) \<and>
     (\<forall>t \<in># wOpening w. safe_attempt (seIdent ` set (wSessions w)) (attemptOf t)) \<and>
     (\<forall>a \<in> set (attempts (wProxy w)). safe_attempt (seIdent ` set (wSessions w)) a)"

lemma safe_more: "safe_attempt Is a \<Longrightarrow> Is \<subseteq> Js \<Longrightarrow> safe_attempt Js a"
  by (auto simp: safe_attempt_def)

lemma serve_step_safe: "serve_step C w w' \<Longrightarrow> wBalanced w \<Longrightarrow> wSafe C c w \<Longrightarrow> wSafe C c w'"
proof (induction rule: serve_step.induct)
  case (admit t rnd stream w s' h i)
  have "admitted C c \<lparr>seAt = t, seStream = stream, seUsers = registry (wServer w), seIdent = i\<rparr>"
    using handle_admitted [OF admit(1)] admit(3) by (simp add: wSafe_def)
  then show ?case using admit(3) handle_cfg [OF admit(1)] by (auto simp: wSafe_def intro: safe_more)
next
  case (turn_away t rnd stream w s' o') then show ?case using handle_cfg [OF turn_away(1)] by (simp add: wSafe_def)
next
  case (answer i w E q p st) then show ?case using attempts_serve [OF answer(2) _ answer(3)] by (auto simp: wSafe_def wBalanced_def)
next
  case (hand i w E q p) then show ?case using attempts_serve [OF hand(2) _ hand(3)] by (auto simp: wSafe_def wBalanced_def)
next
  case (open_tunnel i w E q p t)
  have "safe_tunnel t \<and> tunIdent t = i \<and> \<not> DataPlaneBlocked i"
    using acc_serveRequest [OF _ open_tunnel(2,3)] open_tunnel(4) unfolding wBalanced_def balanced_def by fastforce
  then have "safe_attempt (seIdent ` set (wSessions w)) (attemptOf t)" using open_tunnel(1) by (simp add: safe_attempt_def safe_tunnel_def attemptOf_def)
  then show ?case using open_tunnel attempts_serve [OF open_tunnel(2) _ open_tunnel(3)] by (auto simp: wSafe_def wBalanced_def)
next
  case (dialled t w E p t')
  then have "attempts p = attempts (wProxy w) @ [attemptOf t]" using attempts_dial [of E t "wProxy w"] by simp
  then show ?case using dialled by (auto simp: wSafe_def dest: in_diffD)
next
  case (undialled t w E p)
  then have "attempts p = attempts (wProxy w) @ [attemptOf t]" using attempts_dial [of E t "wProxy w"] by simp
  then show ?case using undialled by (auto simp: wSafe_def dest: in_diffD)
next
  case (half_done t w p t') then show ?case using attempts_same(4) [of t "wProxy w"] by (simp add: wSafe_def)
next
  case (watchdog t w p t') then show ?case using attempts_same(6) [of t "wProxy w"] by (simp add: wSafe_def)
qed (simp_all add: wSafe_def)

lemma serve_reach_safe: "serve_reach C w0 w \<Longrightarrow> wSafe C (cfg (wServer w0)) w"
proof (induction rule: serve_reach.induct)
  case start then show ?case by (simp add: wSafe_def freshWorld_def freshProxy_def)
next
  case (step w w') then show ?case using serve_step_safe serve_reach_balanced by blast
qed

section \<open>A history\<close>

definition exampleProxy :: proxy where
  "exampleProxy = \<lparr>outReg = Some NewRegistry, RoutingResolver = None, SniffEnabled = False, users_of = None, h2Streams = newUserH2StreamTracker,
     relayStreams = newUserH2StreamTracker, outStreams = newOutboundStreamTracker, peakQueue = [], userPeaks = (\<lambda>_. None), relayPeaks = (\<lambda>_. None),
     outPeaks = (\<lambda>_. None), hasPeakDB = False, accounts = None, ssrfRejectedTCP = 0, ssrfRejectedUDP = 0, tunnelsUDPOpened = 0, tunnelsUDPClosed = 0,
     attempts = []\<rparr>"

definition exampleWorld :: world where
  "exampleWorld = \<lparr>wServer = sampleServer, wSessions = [], wProxy = exampleProxy, wOpening = {#}, wRelays = {#}, wHanded = {#}\<rparr>"

definition exampleConnect :: request where
  "exampleConnect = \<lparr>rMethod = ''CONNECT'', rHost = ''1.1.1.1:443'', rProto = [], rBody = ([], [])\<rparr>"

definition exampleEnv :: connectEnv where
  "exampleEnv = \<lparr>dnsOf = (\<lambda>_. None), peeked = None, dialsOf = \<lparr>succeeds = (\<lambda>_. True), ctxErr = (\<lambda>_. False), atFailure = (\<lambda>_. 0)\<rparr>,
     rttOf = (\<lambda>_. None), nowNS = 0, nowSec = 0, listens = True, bundleStatus = 200\<rparr>"

lemma trackUserH2Stream_resolver [simp]: "RoutingResolver (trackUserH2Stream now i n p) = RoutingResolver p"
  by (simp add: trackUserH2Stream_def Let_def split: prod.split)

lemma dial_keeps_registry: "outReg (fst (dialTunnel E t p)) = None \<longleftrightarrow> outReg p = None"
  by (simp add: dialTunnel_def Let_def startRelay_def dialFailed_def releaseH2Track_def logAttempt_def split: option.split prod.split dialResult.split)

lemma example_target:
  "SplitHostPort ''1.1.1.1:443'' = Some (''1.1.1.1'', ''443'')"
  "ResolveAndValidateDestination (dnsOf exampleEnv) ''1.1.1.1'' ''443'' = GoOk (v4InV6Prefix @ [1, 1, 1, 1], ''443'')"
  by code_simp+

lemma example_opens:
  assumes "\<not> DataPlaneBlocked i"
  shows "\<exists>p t. serveRequest exampleEnv exampleConnect i exampleProxy = (p, Tunnel t) \<and> tunTarget t = (v4InV6Prefix @ [1, 1, 1, 1], ''443'') \<and> outReg p \<noteq> None"
proof -
  let ?p = "trackUserH2Stream (nowSec exampleEnv) i ''tcp'' exampleProxy"
  have r: "resolveRoutingTag h q i ?p = []" for h q by (simp add: resolveRoutingTag_def exampleProxy_def)
  have o: "openTCP exampleEnv ''1.1.1.1:443'' ([], []) i ?p = takeLease ''tcp'' i (v4InV6Prefix @ [1, 1, 1, 1], ''443'') [] NewRegistry ?p"
    unfolding openTCP_def example_target option.case prod.case gores.case Let_def r by (simp add: exampleProxy_def)
  have s: "serveRequest exampleEnv exampleConnect i exampleProxy = (case openTCP exampleEnv ''1.1.1.1:443'' ([], []) i ?p of
      (p, Answered st) \<Rightarrow> (releaseH2Track i ''tcp'' p, Answered st) | (p, o') \<Rightarrow> (p, o'))"
    using assms by (simp add: serveRequest_def exampleConnect_def configAuthority_def Let_def)
  obtain r' l ob where "OutboundRegistry.Resolve [] NewRegistry = (r', l, ob)" by (metis prod_cases3)
  then show ?thesis unfolding s o by (simp add: takeLease_def)
qed

text \<open>One client is admitted, opens a tunnel to 1.1.1.1:443 and has it dialled.\<close>

lemma example_history:
  "\<exists>w t. serve_reach sampleCrypto exampleWorld w \<and> attempts (wProxy w) = [attemptOf t] \<and> tunTarget t = (v4InV6Prefix @ [1, 1, 1, 1], ''443'') \<and>
     wHanded w = {#} \<and> outReg (wProxy w) \<noteq> None"
proof -
  obtain s' i where h: "handleConnection sampleCrypto (sampleReadings 0) None sampleStream sampleServer = GoOk (s', Proxy sampleStream i)"
    using sample_admitted by blast
  define w1 where "w1 = exampleWorld\<lparr>wServer := s', wSessions := [\<lparr>seAt = sampleReadings 0, seStream = sampleStream, seUsers = registry sampleServer, seIdent = i\<rparr>]\<rparr>"
  have "admitted sampleCrypto (cfg sampleServer) \<lparr>seAt = sampleReadings 0, seStream = sampleStream, seUsers = registry sampleServer, seIdent = i\<rparr>"
    by (rule handle_admitted [OF h])
  obtain sid eph s0 where "s0 = sampleServer\<lparr>limiter := fst (Allow_opt (atAllow (sampleReadings 0)) (take 8 sid) (limiter sampleServer))\<rparr>"
    "admitVerified sampleCrypto (sampleReadings 0) None sampleStream sid eph s0 = GoOk (s', Proxy sampleStream i)" using handle_Proxy [OF h] by metis
  then obtain s1 j where "lookupIdentity (sampleReadings 0) (take 8 sid) s0 = (s1, Some j)" "registry s0 = None" "DataPlaneBlocked i = DataPlaneBlocked j"
    using admit_Proxy by (metis (no_types, lifting) sampleServer_def server.select_convs(3) server.update_convs(2))
  then have nb: "\<not> DataPlaneBlocked i" using lookup_some by fastforce
  obtain p t where o: "serveRequest exampleEnv exampleConnect i exampleProxy = (p, Tunnel t)" "tunTarget t = (v4InV6Prefix @ [1, 1, 1, 1], ''443'')" "outReg p \<noteq> None"
    using example_opens [OF nb] by blast
  have 0: "serve_reach sampleCrypto exampleWorld exampleWorld"
    by (rule serve_reach.start) (simp add: freshWorld_def freshProxy_def exampleWorld_def exampleProxy_def sampleServer_def)
  have 1: "serve_reach sampleCrypto exampleWorld w1"
    using serve_reach.step [OF 0 serve_step.admit [of _ _ _ _ exampleWorld]] h by (simp add: w1_def exampleWorld_def)
  have d: "dns_wf (dnsOf exampleEnv)" by (simp add: dns_wf_def exampleEnv_def)
  define w2 where "w2 = (setProxy p w1)\<lparr>wOpening := add_mset t (wOpening w1)\<rparr>"
  have 2: "serve_reach sampleCrypto exampleWorld w2" unfolding w2_def
    using o(1) d by (intro serve_reach.step [OF 1 serve_step.open_tunnel [of i _ _ exampleConnect]]) (simp_all add: w1_def exampleWorld_def)
  have a: "attempts p = []" using attempts_serve [OF d _ o(1), of "{#}" "{#}" "{#}"] serve_reach_balanced [OF 0]
    by (simp add: wBalanced_def exampleWorld_def exampleProxy_def)
  obtain q x where q: "dialTunnel exampleEnv t p = (q, x)" by fastforce
  have at: "attempts q = [attemptOf t]" using attempts_dial [of exampleEnv t p] a q by simp
  have ro: "outReg q \<noteq> None" using dial_keeps_registry [of exampleEnv t p] o(3) q by simp
  have m: "t \<in># wOpening w2" "dialTunnel exampleEnv t (wProxy w2) = (q, x)" "wHanded w2 = {#}" using q by (simp_all add: w2_def w1_def exampleWorld_def)
  have "\<exists>w. serve_step sampleCrypto w2 w \<and> wProxy w = q \<and> wHanded w = {#}"
  proof (cases x)
    case None then show ?thesis using serve_step.undialled [OF m(1), of exampleEnv q sampleCrypto] m by auto
  next
    case (Some t') then show ?thesis using serve_step.dialled [OF m(1), of exampleEnv q t' sampleCrypto] m by auto
  qed
  then show ?thesis using 2 at o(2) ro serve_reach.step by metis
qed

section \<open>Properties\<close>

text \<open>C3. The server dials only for clients it admitted, and only where it may. In every history of connections, requests,
  dials, relays and reloads of users, rules and outbounds, each dial attempt is to a port and to an address outside the reserved networks,
  was not ruled out by routing, and was made for the identity of a connection that showed a genuine hello, under a short id that the users of
  that moment had (or the one short id of a server without users), of a user neither expired nor over quota at that moment.\<close>

theorem dials_are_admitted_and_safe:
  assumes "serve_reach C w0 w" "a \<in> set (attempts (wProxy w))"
  defines "c \<equiv> cfg (wServer w0)"
  shows "\<not> in_nets reservedNets (fst (aTarget a)) \<and> port_ok (snd (aTarget a)) \<and> aPick a \<noteq> ''block'' \<and>
    (\<exists>se \<in> set (wSessions w). \<exists>h sid eph. seIdent se = aIdent a \<and> hello_ids (seStream se) = Some (h, sid, eph) \<and> genuine C c sid eph \<and>
      (case seUsers se of
         None \<Rightarrow> take 8 sid = cfgMasterShortID c
       | Some reg \<Rightarrow> \<exists>lk u. LookupBytes (take 8 sid) reg = Some (lk, u) \<and> UserID (aIdent a) = fst lk \<and>
           \<not> (ExpiresAt u > 0 \<and> atLookup (seAt se) div second > ExpiresAt u) \<and> \<not> isOverQuota (atQuota (seAt se) div second) u))"
proof -
  have "wSafe C c w" unfolding c_def by (rule serve_reach_safe [OF assms(1)])
  then have s: "safe_attempt (seIdent ` set (wSessions w)) a" and adm: "\<forall>se \<in> set (wSessions w). admitted C c se"
    using assms(2) by (simp_all add: wSafe_def)
  then obtain se where se: "se \<in> set (wSessions w)" "seIdent se = aIdent a" "\<not> DataPlaneBlocked (seIdent se)" by (auto simp: safe_attempt_def)
  then have "admitted C c se" using adm by blast
  then obtain h sid eph where a: "hello_ids (seStream se) = Some (h, sid, eph)" "genuine C c sid eph"
    "case seUsers se of None \<Rightarrow> take 8 sid = cfgMasterShortID c
      | Some reg \<Rightarrow> \<exists>lk u. LookupBytes (take 8 sid) reg = Some (lk, u) \<and> UserID (aIdent a) = fst lk \<and>
          (DataPlaneBlocked (aIdent a) \<longleftrightarrow> ExpiresAt u > 0 \<and> atLookup (seAt se) div second > ExpiresAt u \<or> isOverQuota (atQuota (seAt se) div second) u)"
    unfolding admitted_def se(2) by blast
  then have "case seUsers se of None \<Rightarrow> take 8 sid = cfgMasterShortID c
      | Some reg \<Rightarrow> \<exists>lk u. LookupBytes (take 8 sid) reg = Some (lk, u) \<and> UserID (aIdent a) = fst lk \<and>
          \<not> (ExpiresAt u > 0 \<and> atLookup (seAt se) div second > ExpiresAt u) \<and> \<not> isOverQuota (atQuota (seAt se) div second) u"
    using se by (cases "seUsers se") auto
  then show ?thesis using s se a(1,2) unfolding safe_attempt_def by blast
qed

theorem dials_are_admitted_and_safe_witness:
  "\<exists>w a. serve_reach sampleCrypto exampleWorld w \<and> a \<in> set (attempts (wProxy w)) \<and> aTarget a = (v4InV6Prefix @ [1, 1, 1, 1], ''443'') \<and>
     \<not> in_nets reservedNets (fst (aTarget a)) \<and>
     (\<exists>se \<in> set (wSessions w). \<exists>h sid eph. hello_ids (seStream se) = Some (h, sid, eph) \<and> genuine sampleCrypto (cfg sampleServer) sid eph)"
proof -
  obtain w t where w: "serve_reach sampleCrypto exampleWorld w" "attempts (wProxy w) = [attemptOf t]" "tunTarget t = (v4InV6Prefix @ [1, 1, 1, 1], ''443'')"
    using example_history by blast
  then have a: "attemptOf t \<in> set (attempts (wProxy w))" "aTarget (attemptOf t) = (v4InV6Prefix @ [1, 1, 1, 1], ''443'')" by (simp_all add: attemptOf_def)
  have c: "cfg (wServer exampleWorld) = cfg sampleServer" by (simp add: exampleWorld_def)
  show ?thesis using dials_are_admitted_and_safe [OF w(1) a(1)] w(1) a unfolding c by blast
qed

text \<open>C13. No interleaving leaks or double-frees. At every moment the leases open in the outbound registry are exactly those held by the
  tunnels that are being dialled or relayed, each held once, and the stream counters of users and outbounds count exactly the
  tunnels of that key; so whenever the server is idle, every counter is zero, no dialer is in use and every retired dialer is closed.\<close>

theorem tunnels_account_for_everything:
  assumes "serve_reach C w0 w" "outReg (wProxy w) = Some r" "wHanded w = {#}"
  shows "mset_set (openSet r) = sumOver held (wOpening w) + sumOver held (wRelays w) \<and>
    tracks user_live (h2Streams (wProxy w)) (sumOver h2Entry (wOpening w) + sumOver h2Entry (wRelays w)) \<and>
    tracks user_live (relayStreams (wProxy w)) (sumOver relayEntry (wRelays w)) \<and>
    tracks ob_live (outStreams (wProxy w)) (sumOver outEntry (wRelays w)) \<and>
    (wOpening w = {#} \<and> wRelays w = {#} \<longrightarrow>
      (\<forall>k u. k \<noteq> [] \<longrightarrow> user_live (h2Streams (wProxy w)) k u = 0 \<and> ob_live (outStreams (wProxy w)) k u = 0) \<and>
      (\<forall>i < length (heap r). OutboundRegistry.active (heap r ! i) = 0 \<and> (retired (heap r ! i) \<longrightarrow> tclosed (heap r ! i))))"
proof -
  have "wBalanced w" by (rule serve_reach_balanced [OF assms(1)])
  then have a: "accounted (wProxy w) (sumOver held (wOpening w) + sumOver held (wRelays w)) (\<Union> (spentTun ` set_mset (wRelays w)))
      (sumOver h2Entry (wOpening w) + sumOver h2Entry (wRelays w)) (sumOver relayEntry (wRelays w)) (sumOver outEntry (wRelays w))"
    using assms(3) by (simp add: wBalanced_def balanced_def)
  have inv: "reg_inv r" and L: "mset_set (openSet r) = sumOver held (wOpening w) + sumOver held (wRelays w)"
    using a assms(2) by (simp_all add: accounted_def openOf_def)
  have "OutboundRegistry.active (heap r ! i) = 0 \<and> (retired (heap r ! i) \<longrightarrow> tclosed (heap r ! i))"
    if "wOpening w = {#}" "wRelays w = {#}" "i < length (heap r)" for i
  proof -
    have "openSet r = {}" using L that(1,2) by (simp add: mset_set_empty_iff)
    then have "(i, False) \<notin> set (leases r)" by (auto simp: openSet_def in_set_conv_nth)
    then show ?thesis using inv_leases [OF inv that(3)] inv_dialer [OF inv that(3)] by (simp add: openLeases_def count_list_0_iff dialer_ok_def)
  qed
  then show ?thesis using a L by (auto simp: accounted_def tracks_def)
qed

theorem tunnels_account_for_everything_witness:
  "\<exists>w r. serve_reach sampleCrypto exampleWorld w \<and> attempts (wProxy w) \<noteq> [] \<and> outReg (wProxy w) = Some r \<and>
     mset_set (openSet r) = sumOver held (wOpening w) + sumOver held (wRelays w)"
proof -
  obtain w t where w: "serve_reach sampleCrypto exampleWorld w" "attempts (wProxy w) = [attemptOf t]" "wHanded w = {#}" "outReg (wProxy w) \<noteq> None"
    using example_history by blast
  then obtain r where "outReg (wProxy w) = Some r" by blast
  then show ?thesis using tunnels_account_for_everything [OF w(1) _ w(3)] w by auto
qed

section \<open>What routing sees of a tunnel\<close>

definition withoutUDPRules :: "Snapshot \<Rightarrow> Snapshot" where
  "withoutUDPRules s = s\<lparr>snapDispatcher := map_option (\<lambda>d. d\<lparr>rules := filter (\<lambda>r. CompiledRule.network r \<noteq> ''udp'') (rules d)\<rparr>) (snapDispatcher s)\<rparr>"

lemma udp_rule_no_match: "CompiledRule.network r = ''udp'' \<Longrightarrow> qNetwork req = ''tcp'' \<Longrightarrow> \<not> Match r req"
proof -
  have "\<not> networkMatches ''udp'' ''tcp''" by code_simp
  then show "CompiledRule.network r = ''udp'' \<Longrightarrow> qNetwork req = ''tcp'' \<Longrightarrow> \<not> Match r req" by (simp add: Match_def)
qed

lemma firstMatch_without: "qNetwork req = ''tcp'' \<Longrightarrow> firstMatch req (filter (\<lambda>r. CompiledRule.network r \<noteq> ''udp'') rs) = firstMatch req rs"
  by (induction rs) (auto simp: udp_rule_no_match)

lemma firstMatchIPs_without:
  "qNetwork req = ''tcp'' \<Longrightarrow> firstMatchIPs req ips (filter (\<lambda>r. CompiledRule.network r \<noteq> ''udp'') rs) = firstMatchIPs req ips rs"
  by (induction rs) (auto simp: udp_rule_no_match list_ex_iff)

lemma Resolve_without:
  assumes "qNetwork req = ''tcp''"
  shows "Routing.Resolve dns (d\<lparr>rules := filter (\<lambda>r. CompiledRule.network r \<noteq> ''udp'') (rules d)\<rparr>) req = Routing.Resolve dns d req"
proof -
  have "ResolveRule dns (d\<lparr>rules := filter (\<lambda>r. CompiledRule.network r \<noteq> ''udp'') (rules d)\<rparr>) req = ResolveRule dns d req"
    using assms by (simp add: ResolveRule_def Let_def firstMatch_without firstMatchIPs_without option.case_eq_if)
  then show ?thesis by (simp add: Routing.Resolve_def option.case_eq_if)
qed

lemma mainResolver_without: "mainResolver dns (Some (withoutUDPRules s)) = mainResolver dns (Some s)"
  by (intro ext) (simp add: mainResolver_def ResolveTCP_def ResolveFor_def ResolveRequest_def withoutUDPRules_def Resolve_without option.case_eq_if option.map_sel)

text \<open>C19. With the resolver the server installs, rules for UDP have no effect on UDP: whatever the rules are, removing those whose
  network is udp changes neither the decision on any UDP tunnel nor the outbound it is given.\<close>

theorem udp_rules_have_no_effect:
  "openUDP E dst i (p\<lparr>RoutingResolver := Some (mainResolver dns (Some (withoutUDPRules s)))\<rparr>) =
   openUDP E dst i (p\<lparr>RoutingResolver := Some (mainResolver dns (Some s))\<rparr>)"
  by (simp only: mainResolver_without)

text \<open>A rule on a port does not see the port when the client writes it with a sign: with a rule that blocks port 25, the tunnel to
  1.1.1.1:25 is refused and the one to 1.1.1.1:+25 is opened.\<close>

definition smtpProxy :: proxy where
  "smtpProxy = exampleProxy\<lparr>RoutingResolver := Some (mainResolver (\<lambda>_. []) (fst exampleStore))\<rparr>"

lemma signed_port_evades_rule:
  "snd (openTCP exampleEnv ''1.1.1.1:25'' ([], []) i smtpProxy) = Answered 200 \<and>
   (\<exists>t. snd (openTCP exampleEnv ''1.1.1.1:+25'' ([], []) i smtpProxy) = Tunnel t \<and> snd (tunTarget t) = ''+25'' \<and> port_ok ''+25'')"
proof -
  have u: "users_of smtpProxy = None" "outReg smtpProxy = Some NewRegistry" "SniffEnabled smtpProxy = False"
    "RoutingResolver smtpProxy = Some (mainResolver (\<lambda>_. []) (fst exampleStore))" by (simp_all add: smtpProxy_def exampleProxy_def)
  have s: "SplitHostPort ''1.1.1.1:25'' = Some (''1.1.1.1'', ''25'')" "SplitHostPort ''1.1.1.1:+25'' = Some (''1.1.1.1'', ''+25'')" by code_simp+
  have r: "ResolveAndValidateDestination (dnsOf exampleEnv) ''1.1.1.1'' ''25'' = GoOk (v4InV6Prefix @ [1, 1, 1, 1], ''25'')"
    "ResolveAndValidateDestination (dnsOf exampleEnv) ''1.1.1.1'' ''+25'' = GoOk (v4InV6Prefix @ [1, 1, 1, 1], ''+25'')" by code_simp+
  have "mainResolver (\<lambda>_. []) (fst exampleStore) ''1.1.1.1'' 25 ''tamizdat-in'' [] = ''block''"
    "mainResolver (\<lambda>_. []) (fst exampleStore) ''1.1.1.1'' 0 ''tamizdat-in'' [] = ''exit''" by code_simp+
  moreover have "atoiPort ''25'' = Some 25" "atoiPort ''+25'' = None" "port_ok ''+25''" by code_simp+
  ultimately have t: "resolveRoutingTag ''1.1.1.1'' ''25'' i smtpProxy = ''block''" "resolveRoutingTag ''1.1.1.1'' ''+25'' i smtpProxy = ''exit''" "port_ok ''+25''"
    by (simp_all add: resolveRoutingTag_def u Let_def)
  obtain r' l ob where "OutboundRegistry.Resolve ''exit'' NewRegistry = (r', l, ob)" by (metis prod_cases3)
  then show ?thesis using t by (simp add: openTCP_def u s r routingHost_def takeLease_def Let_def)
qed

end
