(* ===== verification/SessionIDCache.thy ===== *)
theory SessionIDCache
  imports Prelude
begin

text \<open>
  pkg/tamizdat/sessionid_cache.go: the client's per-(server, shortID) nonce source for version 2
  SessionIDs. \<open>r6\<close> and \<open>r8\<close> are the two reads of the entropy source that a reseed makes (\<open>None\<close>: the
  reader fails); the clock is an argument of each call.
\<close>

type_synonym sessionIDCacheKey = "string \<times> bytes"

record sessionIDCacheEntry =
  stableRandom :: bytes
  counter :: "16 word"
  expiresAt :: nanos

type_synonym sessionIDCache = "sessionIDCacheKey \<Rightarrow> sessionIDCacheEntry option"

definition sessionIDCacheTTLMin :: nanos where "sessionIDCacheTTLMin = 30 * minute"
definition sessionIDCacheTTLMax :: nanos where "sessionIDCacheTTLMax = 120 * minute"

definition newSessionIDCache :: sessionIDCache where
  "newSessionIDCache = (\<lambda>_. None)"

definition randomTTL :: "bytes option \<Rightarrow> nanos option" where
  "randomTTL r8 = (case r8 of None \<Rightarrow> None
     | Some b \<Rightarrow> (let span = sessionIDCacheTTLMax - sessionIDCacheTTLMin in
         if span = 0 then Some sessionIDCacheTTLMin
         else Some (sessionIDCacheTTLMin + uint (be64 b) mod span)))"

definition Acquire ::
  "nanos \<Rightarrow> bytes option \<Rightarrow> bytes option \<Rightarrow> string \<Rightarrow> bytes \<Rightarrow> sessionIDCache \<Rightarrow> sessionIDCache \<times> bytes option" where
  "Acquire now r6 r8 serverAddr shortID c =
    (let k = (serverAddr, shortID);
         needReseed = (case c k of None \<Rightarrow> True
           | Some e \<Rightarrow> expiresAt e < now \<or> counter e = NOT 0);
         fetched = (if needReseed then
             (case r6 of None \<Rightarrow> None
              | Some r \<Rightarrow> (case randomTTL r8 of None \<Rightarrow> None
                  | Some ttl \<Rightarrow> Some \<lparr>stableRandom = r, counter = 0, expiresAt = now + ttl\<rparr>))
           else c k) in
     case fetched of None \<Rightarrow> (c, None)
     | Some e \<Rightarrow> (c(k \<mapsto> e\<lparr>counter := counter e + 1\<rparr>), Some (stableRandom e @ put16 (unat (counter e)))))"

definition PeekStableRandom :: "nanos \<Rightarrow> string \<Rightarrow> bytes \<Rightarrow> sessionIDCache \<Rightarrow> bytes option" where
  "PeekStableRandom now serverAddr shortID c =
    (case c (serverAddr, shortID) of None \<Rightarrow> None
     | Some e \<Rightarrow> if expiresAt e < now then None else Some (stableRandom e))"

definition Forget :: "string \<Rightarrow> bytes \<Rightarrow> sessionIDCache \<Rightarrow> sessionIDCache" where
  "Forget serverAddr shortID c = c((serverAddr, shortID) := None)"

section \<open>Sequences of dials\<close>

datatype cacheOp = OpAcquire nanos "bytes option" "bytes option" string bytes | OpForget string bytes

primrec run_cache :: "cacheOp list \<Rightarrow> sessionIDCache \<Rightarrow> sessionIDCache \<times> bytes list" where
  "run_cache [] c = (c, [])"
| "run_cache (oper # ops) c =
    (case oper of
       OpForget a s \<Rightarrow> run_cache ops (Forget a s c)
     | OpAcquire now r6 r8 a s \<Rightarrow>
         (let (c', n) = Acquire now r6 r8 a s c; (c'', ns) = run_cache ops c' in
          (c'', (case n of None \<Rightarrow> ns | Some n \<Rightarrow> n # ns))))"

text \<open>The six-byte reads that the entropy source delivers over a run.\<close>

fun draws :: "cacheOp list \<Rightarrow> bytes list" where
  "draws [] = []"
| "draws (OpAcquire now (Some r) r8 a s # ops) = r # draws ops"
| "draws (_ # ops) = draws ops"

text \<open>\<open>issued\<close> collects the (stable part, counter) pairs handed out so far, \<open>used\<close> the reads.\<close>

definition cache_inv :: "sessionIDCache \<Rightarrow> (bytes \<times> nat) set \<Rightarrow> bytes set \<Rightarrow> bool" where
  "cache_inv c issued used =
    ((\<forall>k e. c k = Some e \<longrightarrow> stableRandom e \<in> used) \<and>
     (\<forall>k k' e e'. c k = Some e \<longrightarrow> c k' = Some e' \<longrightarrow> stableRandom e = stableRandom e' \<longrightarrow> k = k') \<and>
     (\<forall>r i. (r, i) \<in> issued \<longrightarrow> r \<in> used \<and> i < 65536 \<and>
        (\<forall>k e. c k = Some e \<longrightarrow> stableRandom e = r \<longrightarrow> i < unat (counter e))))"

lemma cache_inv_Forget: "cache_inv c I U \<Longrightarrow> cache_inv (Forget a s c) I U"
  by (auto simp: cache_inv_def Forget_def split: if_splits)

lemma counter_next:
  assumes "(w :: 16 word) \<noteq> NOT 0"
  shows "unat (w + 1) = unat w + 1"
proof -
  have "1 + w \<noteq> 0"
    using assms by (metis add.commute add_eq_0_iff bit.compl_zero)
  then show ?thesis
    using unatSuc [of w] by (simp add: add.commute)
qed

lemma Acquire_inv:
  assumes inv: "cache_inv c I U" and fresh: "\<And>r. r6 = Some r \<Longrightarrow> r \<notin> U"
    and acq: "Acquire now r6 r8 a s c = (c', n)"
  shows "(n = None \<and> c' = c) \<or>
    (\<exists>r i. n = Some (r @ put16 i) \<and> (r, i) \<notin> I \<and> (r \<in> U \<or> r6 = Some r) \<and> i < 65536 \<and>
       cache_inv c' (insert (r, i) I) (U \<union> set_option r6))"
proof -
  let ?k = "(a, s)"
  define reseed where "reseed = (case c ?k of None \<Rightarrow> True | Some e \<Rightarrow> expiresAt e < now \<or> counter e = NOT 0)"
  show ?thesis
  proof (cases reseed)
    case True
    show ?thesis
    proof (cases "\<exists>r ttl. r6 = Some r \<and> randomTTL r8 = Some ttl")
      case False
      then show ?thesis
        using acq True by (auto simp: Acquire_def reseed_def Let_def split: option.splits)
    next
      case ex: True
      then obtain r ttl where r: "r6 = Some r" "randomTTL r8 = Some ttl" by blast
      then have "c' = c(?k \<mapsto> \<lparr>stableRandom = r, counter = 1, expiresAt = now + ttl\<rparr>)" "n = Some (r @ put16 0)"
        using acq True by (auto simp: Acquire_def reseed_def Let_def)
      moreover have "r \<notin> U" using fresh r(1) by simp
      ultimately show ?thesis
        using inv r(1) unfolding cache_inv_def by (intro disjI2 exI [of _ r] exI [of _ 0]) (auto split: if_splits)
    qed
  next
    case False
    then obtain e where e: "c ?k = Some e" "counter e \<noteq> NOT 0"
      by (auto simp: reseed_def split: option.splits)
    then have "c' = c(?k \<mapsto> e\<lparr>counter := counter e + 1\<rparr>)" "n = Some (stableRandom e @ put16 (unat (counter e)))"
      using acq False by (auto simp: Acquire_def reseed_def Let_def)
    moreover have "unat (counter e) < 65536"
      using unsigned_less [of "counter e"] by simp
    ultimately show ?thesis
      using inv e counter_next [OF e(2)] unfolding cache_inv_def
      by (intro disjI2 exI [of _ "stableRandom e"] exI [of _ "unat (counter e)"])
        (fastforce split: if_splits)
  qed
qed

lemma put16_inj: "i < 65536 \<Longrightarrow> j < 65536 \<Longrightarrow> put16 i = put16 j \<Longrightarrow> i = j"
  by (metis be16_nth_put16 mod_less)

lemma run_cache_distinct:
  assumes "cache_inv c I U" and "distinct (draws ops)" and "set (draws ops) \<inter> U = {}"
    and "\<forall>r \<in> U \<union> set (draws ops). length r = 6" and "run_cache ops c = (c', ns)"
  shows "distinct ns \<and> (\<forall>n \<in> set ns. \<exists>r i. n = r @ put16 i \<and> length r = 6 \<and> i < 65536 \<and> (r, i) \<notin> I)"
  using assms
proof (induction ops arbitrary: c I U ns)
  case (Cons oper ops)
  show ?case
  proof (cases oper)
    case (OpForget a s)
    then show ?thesis
      using Cons.IH [OF cache_inv_Forget [OF Cons.prems(1)]] Cons.prems(2-) by simp
  next
    case (OpAcquire now r6 r8 a s)
    obtain c1 n where acq: "Acquire now r6 r8 a s c = (c1, n)" by fastforce
    obtain ns1 where run: "run_cache ops c1 = (c', ns1)" "ns = (case n of None \<Rightarrow> ns1 | Some n \<Rightarrow> n # ns1)"
      using Cons.prems(5) acq OpAcquire by (auto split: prod.splits)
    have dr: "draws (oper # ops) = (case r6 of None \<Rightarrow> draws ops | Some r \<Rightarrow> r # draws ops)"
      using OpAcquire by (cases r6) auto
    have fresh: "r \<notin> U" if "r6 = Some r" for r
      using that dr Cons.prems(3) by auto
    have rest: "distinct (draws ops)" "set (draws ops) \<inter> (U \<union> set_option r6) = {}"
      "\<forall>r \<in> (U \<union> set_option r6) \<union> set (draws ops). length r = 6"
      using dr Cons.prems(2-4) by (auto split: option.splits)
    from Acquire_inv [OF Cons.prems(1) fresh acq] show ?thesis
    proof
      assume "n = None \<and> c1 = c"
      then show ?thesis
        using Cons.IH [of c I U ns1] Cons.prems(1) rest run by (auto simp: Int_Un_distrib)
    next
      assume "\<exists>r i. n = Some (r @ put16 i) \<and> (r, i) \<notin> I \<and> (r \<in> U \<or> r6 = Some r) \<and> i < 65536 \<and>
       cache_inv c1 (insert (r, i) I) (U \<union> set_option r6)"
      then obtain r i where r: "n = Some (r @ put16 i)" "(r, i) \<notin> I" "r \<in> U \<or> r6 = Some r" "i < 65536"
        "cache_inv c1 (insert (r, i) I) (U \<union> set_option r6)" by blast
      have "length r = 6"
        using r(3) rest(3) by auto
      have IH: "distinct ns1 \<and> (\<forall>n \<in> set ns1. \<exists>r' i'. n = r' @ put16 i' \<and> length r' = 6 \<and> i' < 65536 \<and> (r', i') \<notin> insert (r, i) I)"
        by (rule Cons.IH [OF r(5) rest run(1)])
      have "r @ put16 i \<notin> set ns1"
      proof
        assume "r @ put16 i \<in> set ns1"
        then obtain r' i' where "r @ put16 i = r' @ put16 i'" "length r' = 6" "i' < 65536" "(r', i') \<noteq> (r, i)"
          using IH by fastforce
        then show False
          using \<open>length r = 6\<close> put16_inj [OF r(4)] by simp
      qed
      moreover have "\<forall>n \<in> set ns1. \<exists>r i. n = r @ put16 i \<and> length r = 6 \<and> i < 65536 \<and> (r, i) \<notin> I"
        using IH by blast
      ultimately show ?thesis
        using IH run(2) r(1,2,4) \<open>length r = 6\<close> by auto
    qed
  qed
qed auto

section \<open>Properties\<close>

text \<open>C9. Nonces are never reused: over any sequence of dials (to any servers, with any short
  identifiers, clock readings and failures of the entropy source) and of \<open>Forget\<close> calls, starting
  from the empty cache, all nonces handed out are pairwise distinct, provided the entropy
  source does not repeat a six-byte read. In particular the 16-bit counter never wraps under one
  stable part: at 0xFFFF the entry is reseeded.\<close>

theorem nonces_never_repeat:
  assumes "distinct (draws ops)" and "\<forall>r \<in> set (draws ops). length r = 6"
  shows "distinct (snd (run_cache ops newSessionIDCache)) \<and>
    (\<forall>n \<in> set (snd (run_cache ops newSessionIDCache)). length n = 8)"
proof -
  have "cache_inv newSessionIDCache {} {}"
    by (simp add: cache_inv_def newSessionIDCache_def)
  moreover obtain c' ns where "run_cache ops newSessionIDCache = (c', ns)" by fastforce
  ultimately show ?thesis
    using run_cache_distinct [of newSessionIDCache "{}" "{}" ops c' ns] assms by auto
qed

theorem nonces_never_repeat_witness:
  "distinct (snd (run_cache [OpAcquire 0 (Some [1,2,3,4,5,6]) (Some [0,0,0,0,0,0,0,9]) ''s'' [7],
     OpAcquire 5 None None ''s'' [7], OpForget ''s'' [7], OpAcquire 6 (Some [2,2,3,4,5,6]) (Some [0,0,0,0,0,0,0,9]) ''s'' [7]] newSessionIDCache))"
  using nonces_never_repeat [of "[OpAcquire 0 (Some [1,2,3,4,5,6]) (Some [0,0,0,0,0,0,0,9]) ''s'' [7],
     OpAcquire 5 None None ''s'' [7], OpForget ''s'' [7], OpAcquire 6 (Some [2,2,3,4,5,6]) (Some [0,0,0,0,0,0,0,9]) ''s'' [7]]"]
  by simp

text \<open>Stability: within the lifetime drawn for an entry (always at least 30 and less than 120
  minutes) and before its counter is exhausted, a dial reuses the six stable bytes, advances the
  two counter bytes by one and needs no entropy.\<close>

lemma reconnects_keep_stable_prefix:
  assumes "c (a, s) = None" and "randomTTL r8 = Some ttl"
    and "Acquire t0 (Some r) r8 a s c = (c1, n1)" and "t \<le> t0 + ttl"
  shows "30 * minute \<le> ttl \<and> ttl < 120 * minute \<and> n1 = Some (r @ put16 0) \<and>
    PeekStableRandom t a s c1 = Some r \<and>
    snd (Acquire t None None a s c1) = Some (r @ put16 1)"
proof -
  have c1: "c1 = c((a, s) \<mapsto> \<lparr>stableRandom = r, counter = 1, expiresAt = t0 + ttl\<rparr>)" "n1 = Some (r @ put16 0)"
    using assms(1-3) by (auto simp: Acquire_def Let_def)
  have "\<exists>x. ttl = 30 * minute + x mod (90 * minute)"
    using assms(2) by (auto simp: randomTTL_def sessionIDCacheTTLMin_def sessionIDCacheTTLMax_def minute_def
        second_def Let_def split: option.splits)
  then have "30 * minute \<le> ttl \<and> ttl < 120 * minute"
    by (auto simp: minute_def second_def)
  then show ?thesis
    using c1 assms(4) by (simp add: PeekStableRandom_def Acquire_def Let_def)
qed

lemma reconnects_keep_stable_prefix_witness:
  "snd (Acquire 60 None None ''h'' [1] (fst (Acquire 0 (Some [1,2,3,4,5,6]) (Some [0,0,0,0,0,0,0,0]) ''h'' [1] newSessionIDCache)))
     = Some ([1,2,3,4,5,6] @ put16 1)"
  using reconnects_keep_stable_prefix [of newSessionIDCache "''h''" "[1]" "Some [0,0,0,0,0,0,0,0]" "30 * minute" 0
      "[1,2,3,4,5,6]" _ _ 60]
  by (simp add: newSessionIDCache_def randomTTL_def sessionIDCacheTTLMin_def sessionIDCacheTTLMax_def minute_def
      second_def be64_def prod_eq_iff)

end
