(* ===== verification/Spec2Isabelle.thy ===== *)
theory Spec2Isabelle
  imports Accounting
    AuthGate
    Balancer
    BondClaims
    BondDispatch
    BondFrames
    BondLink
    BondReorder
    BondWorkers
    ClientHello
    ConnectHandler
    DestinationGuard
    DownScheduler
    FragDown
    FragRecovery
    FragServer
    FragSizes
    Fragmentation
    GeoDat
    HandshakeLimiter
    IngressPolicy
    MasqueradeLimiter
    NetAddr
    NetIP
    OutboundRegistry
    OutboundStreams
    ProxyProto
    ProxyWorld
    ReplayGuard
    Routing
    RulesDB
    SessionAuth
    SessionIDCache
    ShortIDLimiter
    Sniffing
    StreamFraming
    UserH2Streams
    UserRegistry
begin

text \<open>
  A verification development for tamizdat, a tunnel that hides in TLS traffic (Go; the paths below are under src/).

  \<^bold>\<open>The program and its parts.\<close> A client builds a TLS ClientHello whose session id proves knowledge of a key, over a
  connection that it may fragment; the server reads the hello, decides whether it is genuine and not a replay, and either
  behaves as a decoy or proxies. An admitted client sends HTTP/2 requests; each opens a TCP or UDP tunnel whose destination is
  checked, routed by rules to an outbound, and dialled there, possibly through a balancer. Users, rules and outbounds come from a
  database and are reloaded while the server runs; traffic and streams are accounted per user and per outbound. Beside HTTP/2 there are
  a transport that cuts streams into many short requests (fragpoc), a multiplexer over TURN (vkturn), and bonds that spread WireGuard
  packets over several such paths (wgturn, wgturnclient).

  \<^bold>\<open>How code is translated.\<close> A Go function that can fail or panic returns \<open>gores\<close> (theory \<open>Prelude\<close>: \<open>GoOk\<close>, \<open>GoErr\<close>,
  \<open>GoPanic\<close>), and every index and slice expression that could panic goes through a checked operation. A struct is a record, a method a
  function from the old to the new state. Go maps are association lists or functions to option; pointers that are shared are positions
  in a list (the heap of dialers in \<open>OutboundRegistry\<close>, the workers in \<open>BondWorkers\<close>). Fixed-width integers are words where they can
  overflow. What a mutex protects is one atomic operation, and step relations interleave the operations of all goroutines. The clock,
  random draws, DNS answers, the rows of queries and the outcomes of dials are arguments. Cryptographic primitives, regular expressions
  and JSON decoders are arguments too; properties that need something of them name it as a hypothesis and have a witness with a
  concrete function.

  \<^bold>\<open>Theories and sources.\<close>
  \<^item> \<open>Prelude\<close>, \<open>GoHeap\<close>, \<open>NetAddr\<close>, \<open>NetIP\<close>: the parts of Go's library the sources use (big-endian numbers, strconv, strings,
    container/heap, netip, net.IP).
  \<^item> \<open>SessionAuth\<close> (pkg/tamizdat/auth.go), \<open>ClientHello\<close> (auth_extension.go, sni_parse.go, internal/sniff/tls.go), \<open>ReplayGuard\<close>
    (replay_guard.go), \<open>ShortIDLimiter\<close> (handshake_limiter_server.go), \<open>UserRegistry\<close> (internal/userdb/registry.go, helpers.go) and their
    composition \<open>AuthGate\<close> (\<open>handleConnection\<close> of server.go); \<open>MasqueradeLimiter\<close> (masquerade_ratelimit.go) and \<open>ProxyProto\<close>
    (internal/proxyproto) stand before it. A session id is accepted exactly when its tag is the HMAC it should be, clients of active users are
    admitted, an admitted hello is refused for the whole replay window, and without a genuine tag nothing about the users can be observed.
  \<^item> \<open>SessionIDCache\<close> (sessionid_cache.go), \<open>HandshakeLimiter\<close> (handshake_limiter.go), \<open>Fragmentation\<close> (fragmenter.go, geneva.go,
    shaper.go): the client side. Nonces never repeat, no window exceeds the limit and waiting ends, fragmenting keeps the byte stream.
  \<^item> \<open>DestinationGuard\<close> (ssrf_guard.go), \<open>Sniffing\<close> (internal/sniff), \<open>Routing\<close> and \<open>GeoDat\<close> (node/rules.go, dispatcher.go, geo_dat.go),
    \<open>RulesDB\<close> (internal/rulesdb), \<open>Balancer\<close> and \<open>OutboundRegistry\<close> (internal/outbounds), \<open>StreamTracker\<close> with \<open>UserH2Streams\<close> and
    \<open>OutboundStreams\<close> (the stream counters), \<open>Accounting\<close> (internal/userdb/accounting.go) and their composition \<open>ConnectHandler\<close>
    (the request handlers of server.go and udp_server.go). \<open>ProxyWorld\<close> puts gate and handlers into one transition system: every dial of every
    history is made for an admitted client to a public address, and leases and counters are exactly those of the running tunnels.
  \<^item> \<open>StreamFraming\<close> (udp_packetconn.go, internal/transport/vkturn/mux.go): messages over byte streams keep their boundaries.
  \<^item> \<open>FragSizes\<close>, \<open>FragDown\<close>, \<open>FragRecovery\<close>, \<open>DownScheduler\<close>, \<open>FragServer\<close> (internal/transport/fragpoc): the client reads a prefix of what
    the server sent whatever polls are lost, repeated or reordered; a write hands over exactly its bytes; a secure session needs its key; one
    run shows a stream that a single lost answer stops.
  \<^item> \<open>BondFrames\<close>, \<open>BondReorder\<close>, \<open>BondClaims\<close>, \<open>BondWorkers\<close> (internal/wgturn/bond.go, internal/wgturnclient/bondv2.go): both codecs
    agree, packets leave a reorder buffer in order and without loss within the window, claims are exclusive, bookkeeping stays consistent.
  \<^item> \<open>BondDispatch\<close> (dispatcher.go, shaper.go, bondv2.go of internal/wgturnclient), \<open>BondLink\<close>: the client's token buckets, scheduler and
    dispatcher; then client, server and a network that loses, repeats and reorders datagrams as one transition system, in which each lane
    carries its packets in order and at most once, in both directions.
  \<^item> \<open>IngressPolicy\<close> (internal/localtun/policy.go, the chain of selective_linux.go): rules of the snapshot compiled for a packet filter; the chain
    decides as the rules say, except that a rule with sources of both address families vanishes.

  \<^bold>\<open>Contracts.\<close> The locales are interfaces between parts: \<open>heap_interface\<close> (what container/heap needs of its client), \<open>lru_table\<close> (the
  recency tables of both limiters), \<open>stream_tracker\<close> (the two stream counters), \<open>stream_codec\<close> (framings), \<open>reorder_buffer\<close> (the two reorder
  buffers), its extension \<open>lane_buffer\<close> (a buffer that treats payloads as opaque) and \<open>up_channel\<close> (the two ways a chunk reaches a session). Each is interpreted on the definitions that provide it, and the
  properties of the clients rest on the interpretations.

  \<^bold>\<open>Bounds and fuel.\<close> Loops of the source are structural recursion or have a termination proof. Where a loop runs as long as other
  goroutines keep feeding it (long polls, waiting), what they do is an argument indexed by the iteration, and a separate property says
  when it ends. No property is restricted to a size; limits that occur are the constants of the source.

  \<^bold>\<open>Not modelled, and why.\<close> Sockets, goroutine scheduling below critical sections, deadlines of connections and logging have no
  counterpart. HTTP/2, uTLS fingerprints, TURN, WireGuard and the TUN network stack are third-party packages around which the remaining
  sources are glue. The masquerading proxy and cover traffic copy bytes between sockets under timers. Exact rationals stand for float64 in
  the limiters, and the gamma sampler of geneva.go, which needs floating point throughout, is left out. The administration panel, the
  command-line programs, service IPC and the conversations with remote services for call credentials are user interfaces or I/O.
\<close>

end
